(* ===== verification/Prelude.thy ===== *)
theory Prelude
  imports Main "HOL-Library.Word" "HOL-Library.Monad_Syntax"
begin

text \<open>
  Shared vocabulary of the development.

  \<^item> Machine types of \<^verbatim>\<open>arch/x86_64/include/arch/types.h\<close> as words.
  \<^item> \<^verbatim>\<open>kassert\<close>: a failed assertion calls \<^verbatim>\<open>panic\<close>, which never returns. A computation that
    may panic has an \<open>option\<close> type, \<open>None\<close> is the panic, and the \<open>do\<close> notation of the option monad
    sequences the statements of the source.
  \<^item> The error codes of \<^verbatim>\<open>include/lib/errcode.h\<close>.
  \<^item> The page arithmetic of \<^verbatim>\<open>include/kernel/vm.h\<close> on 64-bit addresses.
  \<^item> The generic facts on lists, words and options that the components share.
\<close>

unbundle bit_operations_syntax

section \<open>Machine types\<close>

type_synonym u8 = "8 word"
type_synonym u16 = "16 word"
type_synonym u32 = "32 word"
type_synonym u64 = "64 word"

type_synonym vaddr = u64
type_synonym paddr = u64
type_synonym err = int

named_theorems osv_defs \<open>the definitions that a component's proofs unfold together\<close>

section \<open>Assertions\<close>

text \<open>\<^verbatim>\<open>#define kassert(expr) ((expr) ? (void)0 : panic(#expr))\<close>\<close>

definition kassert :: "bool \<Rightarrow> unit option" where
  "kassert b = (if b then Some () else None)"

lemma kassert_bind [simp]: "Option.bind (kassert b) f = (if b then f () else None)"
  by (simp add: kassert_def)

lemma kassert_eq_Some [simp]: "kassert b = Some u \<longleftrightarrow> b"
  by (simp add: kassert_def)

lemma bind_Some_iff: "Option.bind m f = Some y \<longleftrightarrow> (\<exists>x. m = Some x \<and> f x = Some y)"
  by (cases m) auto

text \<open>The result of a call that may have to wait: \<open>Blocked\<close> leaves the state as it was.\<close>

datatype 'a outcome = Blocked | Ret 'a

section \<open>Error codes\<close>

abbreviation (input) ERR_OK :: err where "ERR_OK \<equiv> 0"
abbreviation (input) ERR_NOMEM :: err where "ERR_NOMEM \<equiv> -1"
abbreviation (input) ERR_NORES :: err where "ERR_NORES \<equiv> -2"
abbreviation (input) ERR_EXIST :: err where "ERR_EXIST \<equiv> -4"
abbreviation (input) ERR_NOTEXIST :: err where "ERR_NOTEXIST \<equiv> -5"
abbreviation (input) ERR_INCOMP :: err where "ERR_INCOMP \<equiv> -6"
abbreviation (input) ERR_FTYPE :: err where "ERR_FTYPE \<equiv> -7"
abbreviation (input) ERR_NOTEMPTY :: err where "ERR_NOTEMPTY \<equiv> -9"
abbreviation (input) ERR_END :: err where "ERR_END \<equiv> -10"
abbreviation (input) ERR_FAULT :: err where "ERR_FAULT \<equiv> -12"
abbreviation (input) ERR_INVAL :: err where "ERR_INVAL \<equiv> -13"
abbreviation (input) ERR_CHILD :: err where "ERR_CHILD \<equiv> -14"
abbreviation (input) ERR_LOCK_BUSY :: err where "ERR_LOCK_BUSY \<equiv> -16"

lemma uint_less_of_unat: "unat w < n \<Longrightarrow> uint w < int n"
  by (simp only: unat_eq_nat_uint nat_less_iff uint_ge_0)

section \<open>Pages\<close>

text \<open>\<^verbatim>\<open>size_t pg_size = PG_SIZE\<close> with \<^verbatim>\<open>#define PG_SIZE 4096\<close>.\<close>

abbreviation (input) pg_size :: u64 where "pg_size \<equiv> 4096"

definition pg_round_up :: "vaddr \<Rightarrow> vaddr" where
  "pg_round_up addr = (addr + pg_size - 1) AND NOT (pg_size - 1)"

definition pg_round_down :: "vaddr \<Rightarrow> vaddr" where
  "pg_round_down addr = addr AND NOT (pg_size - 1)"

definition pg_ofs :: "vaddr \<Rightarrow> vaddr" where
  "pg_ofs addr = addr AND (pg_size - 1)"

definition pg_aligned :: "vaddr \<Rightarrow> bool" where
  "pg_aligned addr \<longleftrightarrow> addr AND (pg_size - 1) = 0"

lemma and_4095: "unat (x AND (4095 :: u64)) = unat x mod 4096"
proof -
  have "(4095 :: u64) = mask 12" by (simp add: mask_eq_exp_minus_1)
  then have "x AND (4095 :: u64) = take_bit 12 x"
    by (simp only: take_bit_eq_mask)
  then have "unat (x AND (4095 :: u64)) = take_bit 12 (unat x)"
    by (simp only: unsigned_take_bit_eq)
  then show ?thesis
    by (simp add: take_bit_eq_mod)
qed

lemma and_not_mask: "x AND NOT m = x - (x AND m)" for x :: "'a::len word"
proof -
  have "x - (x AND m) = x AND NOT (x AND m)"
    by (rule disjunctive_diff) (simp add: bit_and_iff)
  also have "\<dots> = x AND NOT m"
    by (rule bit_eqI) (auto simp: bit_and_iff bit_or_iff bit_not_iff)
  finally show ?thesis by simp
qed

lemma unat_pg_ofs: "unat (pg_ofs a) = unat a mod 4096"
  by (simp add: pg_ofs_def and_4095)

lemma pg_aligned_iff: "pg_aligned a \<longleftrightarrow> 4096 dvd unat a"
proof -
  have "pg_aligned a \<longleftrightarrow> unat (a AND 4095) = 0"
    by (simp add: pg_aligned_def unat_eq_0)
  then show ?thesis by (simp add: and_4095 dvd_eq_mod_eq_0)
qed

lemma unat_pg_round_down: "unat (pg_round_down a) = unat a div 4096 * 4096"
proof -
  have le: "a AND 4095 \<le> a" by (simp add: word_and_le2)
  have "pg_round_down a = a - (a AND 4095)"
    unfolding pg_round_down_def and_not_mask by simp
  then have "unat (pg_round_down a) = unat a - unat a mod 4096"
    using le by (simp add: unat_sub and_4095)
  then show ?thesis by (simp add: minus_mod_eq_div_mult)
qed

lemma pg_round_up_alt: "pg_round_up a = pg_round_down (a + 4095)"
  by (simp add: pg_round_up_def pg_round_down_def algebra_simps)

lemma unat_pg_round_up:
  assumes "unat a + 4095 < 2 ^ 64"
  shows "unat (pg_round_up a) = (unat a + 4095) div 4096 * 4096"
proof -
  have "unat (a + 4095) = unat a + 4095"
    using assms by (simp add: unat_word_ariths)
  then show ?thesis by (simp add: pg_round_up_alt unat_pg_round_down)
qed

end
