(* ===== verification/Klist.thy ===== *)
theory Klist
  imports Prelude "HOL-Library.Multiset"
begin

text \<open>
  The circular doubly linked list of \<^verbatim>\<open>kernel/list.c\<close>, on an explicit heap of list nodes.

  A node address is a natural number, 0 is \<^verbatim>\<open>NULL\<close>. The header is the first field of
  \<^verbatim>\<open>struct list\<close>, so the address of a list is the address of its header. Every dereference goes
  through a checked load or store; a null dereference and a failed \<^verbatim>\<open>kassert\<close> are both \<open>None\<close>.

  The predicate \<open>clist h l xs\<close> says that the header \<open>l\<close> and the nodes \<open>xs\<close> form a well linked ring.
  Every operation is shown to refine the operation on the sequence \<open>xs\<close>, which is what lets the
  other components treat their lists as HOL lists. The interface is the locale \<open>node_list\<close>.
\<close>

section \<open>Nodes and the heap\<close>

type_synonym addr = nat

abbreviation (input) NULL :: addr where "NULL \<equiv> 0"

record list_heap =
  n_prev :: "addr \<Rightarrow> addr"
  n_next :: "addr \<Rightarrow> addr"

definition get_prev :: "list_heap \<Rightarrow> addr \<Rightarrow> addr option" where
  "get_prev h a = (if a = NULL then None else Some (n_prev h a))"

definition get_next :: "list_heap \<Rightarrow> addr \<Rightarrow> addr option" where
  "get_next h a = (if a = NULL then None else Some (n_next h a))"

definition set_prev :: "addr \<Rightarrow> addr \<Rightarrow> list_heap \<Rightarrow> list_heap option" where
  "set_prev a v h = (if a = NULL then None else Some (h\<lparr>n_prev := (n_prev h)(a := v)\<rparr>))"

definition set_next :: "addr \<Rightarrow> addr \<Rightarrow> list_heap \<Rightarrow> list_heap option" where
  "set_next a v h = (if a = NULL then None else Some (h\<lparr>n_next := (n_next h)(a := v)\<rparr>))"

section \<open>Operations\<close>

definition list_init :: "addr \<Rightarrow> list_heap \<Rightarrow> list_heap option" where
  "list_init l h = do {
     kassert (l \<noteq> NULL);
     h \<leftarrow> set_prev l l h;
     set_next l l h
   }"

definition list_empty :: "list_heap \<Rightarrow> addr \<Rightarrow> bool option" where
  "list_empty h l = do {
     kassert (l \<noteq> NULL);
     p \<leftarrow> get_prev h l;
     n \<leftarrow> get_next h l;
     Some (p = l \<and> n = l)
   }"

definition list_append :: "addr \<Rightarrow> addr \<Rightarrow> list_heap \<Rightarrow> list_heap option" where
  "list_append l node h = do {
     kassert (l \<noteq> NULL);
     e \<leftarrow> list_empty h l;
     h \<leftarrow> (if e then set_next l node h
           else do { p \<leftarrow> get_prev h l; set_next p node h });
     p \<leftarrow> get_prev h l;
     h \<leftarrow> set_prev node p h;
     h \<leftarrow> set_next node l h;
     set_prev l node h
   }"

definition list_remove :: "addr \<Rightarrow> list_heap \<Rightarrow> (list_heap \<times> addr) option" where
  "list_remove node h = do {
     kassert (node \<noteq> NULL);
     p \<leftarrow> get_prev h node;
     n \<leftarrow> get_next h node;
     h \<leftarrow> set_next p n h;
     n \<leftarrow> get_next h node;
     p \<leftarrow> get_prev h node;
     h \<leftarrow> set_prev n p h;
     n \<leftarrow> get_next h node;
     Some (h, n)
   }"

definition list_begin :: "list_heap \<Rightarrow> addr \<Rightarrow> addr option" where
  "list_begin h l = do { kassert (l \<noteq> NULL); get_next h l }"

definition list_end :: "addr \<Rightarrow> addr option" where
  "list_end l = do { kassert (l \<noteq> NULL); Some l }"

definition list_next :: "list_heap \<Rightarrow> addr \<Rightarrow> addr option" where
  "list_next h n = do { kassert (n \<noteq> NULL); get_next h n }"

definition list_prev :: "list_heap \<Rightarrow> addr \<Rightarrow> addr option" where
  "list_prev h n = do { kassert (n \<noteq> NULL); get_prev h n }"

text \<open>The comparator reads the structures around the nodes; it does not write the links.\<close>

partial_function (option) append_ordered_loop ::
    "(addr \<Rightarrow> addr \<Rightarrow> int) \<Rightarrow> addr \<Rightarrow> addr \<Rightarrow> addr \<Rightarrow> list_heap \<Rightarrow> list_heap option" where
  "append_ordered_loop compare l node n h = do {
     e \<leftarrow> list_end l;
     (if n \<noteq> e then
        (if compare n node > 0 then do {
           p \<leftarrow> get_prev h n;
           h \<leftarrow> set_prev node p h;
           h \<leftarrow> set_next node n h;
           p \<leftarrow> get_prev h n;
           h \<leftarrow> set_next p node h;
           set_prev n node h
         }
         else do {
           n' \<leftarrow> list_next h n;
           append_ordered_loop compare l node n' h
         })
      else list_append l node h)
   }"

definition list_append_ordered ::
    "(addr \<Rightarrow> addr \<Rightarrow> int) \<Rightarrow> addr \<Rightarrow> addr \<Rightarrow> list_heap \<Rightarrow> list_heap option" where
  "list_append_ordered compare l node h = do {
     kassert (l \<noteq> NULL \<and> node \<noteq> NULL);
     n \<leftarrow> list_begin h l;
     append_ordered_loop compare l node n h
   }"

text \<open>The operation passed to \<^verbatim>\<open>list_foreach_do\<close> acts on an accumulator, its \<^verbatim>\<open>aux\<close> pointer.\<close>

partial_function (option) foreach_loop ::
    "(addr \<Rightarrow> 'a \<Rightarrow> err \<times> 'a) \<Rightarrow> addr \<Rightarrow> list_heap \<Rightarrow> addr \<Rightarrow> 'a \<Rightarrow> (err \<times> 'a) option" where
  "foreach_loop op l h node aux = do {
     e \<leftarrow> list_end l;
     (if node \<noteq> e then
        (case op node aux of (er, aux') \<Rightarrow>
           if er \<noteq> ERR_OK then Some (er, aux')
           else do { n \<leftarrow> list_next h node; foreach_loop op l h n aux' })
      else Some (ERR_OK, aux))
   }"

definition list_foreach_do ::
    "(addr \<Rightarrow> 'a \<Rightarrow> err \<times> 'a) \<Rightarrow> addr \<Rightarrow> list_heap \<Rightarrow> 'a \<Rightarrow> (err \<times> 'a) option" where
  "list_foreach_do op l h aux = do {
     kassert (l \<noteq> NULL);
     node \<leftarrow> list_begin h l;
     foreach_loop op l h node aux
   }"

lemmas [osv_defs] = get_prev_def get_next_def set_prev_def set_next_def list_empty_def
  list_begin_def list_end_def list_next_def list_prev_def

section \<open>Well linked rings\<close>

fun linked :: "list_heap \<Rightarrow> addr list \<Rightarrow> bool" where
  "linked h (a # b # r) = (n_next h a = b \<and> n_prev h b = a \<and> linked h (b # r))"
| "linked h _ = True"

definition clist :: "list_heap \<Rightarrow> addr \<Rightarrow> addr list \<Rightarrow> bool" where
  "clist h l xs \<longleftrightarrow> distinct (l # xs) \<and> NULL \<notin> set (l # xs) \<and> linked h (l # xs @ [l])"

text \<open>The ordered insertion on sequences: in front of the first element that compares greater.\<close>

definition insert_ordered :: "('a \<Rightarrow> 'a \<Rightarrow> int) \<Rightarrow> 'a \<Rightarrow> 'a list \<Rightarrow> 'a list" where
  "insert_ordered compare y xs =
     takeWhile (\<lambda>x. \<not> compare x y > 0) xs @ y # dropWhile (\<lambda>x. \<not> compare x y > 0) xs"

fun foreach_seq :: "('b \<Rightarrow> 'a \<Rightarrow> err \<times> 'a) \<Rightarrow> 'b list \<Rightarrow> 'a \<Rightarrow> err \<times> 'a" where
  "foreach_seq op [] aux = (ERR_OK, aux)"
| "foreach_seq op (x # xs) aux =
     (case op x aux of (er, aux') \<Rightarrow> if er \<noteq> ERR_OK then (er, aux') else foreach_seq op xs aux')"

lemma linked_append: "linked h (xs @ a # ys) \<longleftrightarrow> linked h (xs @ [a]) \<and> linked h (a # ys)"
proof (induction xs)
  case (Cons x xs)
  then show ?case by (cases xs) auto
qed simp

lemma linked_cong:
  assumes "linked h xs"
    and "\<And>a. a \<in> set (butlast xs) \<Longrightarrow> n_next h' a = n_next h a"
    and "\<And>a. a \<in> set (tl xs) \<Longrightarrow> n_prev h' a = n_prev h a"
  shows "linked h' xs"
  using assms
proof (induction h xs rule: linked.induct)
  case (1 h a b r)
  have "linked h' (b # r)"
  proof (rule "1.IH")
    show "linked h (b # r)" using "1.prems"(1) by simp
    show "\<And>x. x \<in> set (butlast (b # r)) \<Longrightarrow> n_next h' x = n_next h x"
      using "1.prems"(2) by simp
    show "\<And>x. x \<in> set (tl (b # r)) \<Longrightarrow> n_prev h' x = n_prev h x"
      using "1.prems"(3) by simp
  qed
  then show ?case using "1.prems" by simp
qed auto

lemma clist_split:
  "clist h l (xs @ n # ys) \<longleftrightarrow>
     distinct (l # xs @ n # ys) \<and> NULL \<notin> set (l # xs @ n # ys)
     \<and> linked h (l # xs @ [n]) \<and> linked h (n # ys @ [l])"
  using linked_append [of h "l # xs" n "ys @ [l]"] by (simp add: clist_def)

lemma clist_last: "clist h l xs \<Longrightarrow> n_prev h l = last (l # xs)"
proof (cases xs rule: rev_cases)
  case (snoc ys y)
  assume "clist h l xs"
  then have "linked h (y # [l])"
    using linked_append [of h "l # ys" y "[l]"] by (simp add: clist_def snoc)
  then show ?thesis by (simp add: snoc)
qed (simp add: clist_def)

lemma clist_hd: "clist h l xs \<Longrightarrow> n_next h l = hd (xs @ [l])"
  by (cases xs) (auto simp: clist_def)

lemma clist_frame:
  assumes "clist h l xs" and "\<And>a. a \<in> set (l # xs) \<Longrightarrow> n_next h' a = n_next h a \<and> n_prev h' a = n_prev h a"
  shows "clist h' l xs"
  using assms unfolding clist_def
  by (auto intro!: linked_cong [of h _ h'] simp: butlast_append)

section \<open>Splicing one node in and out\<close>

definition splice_in :: "addr \<Rightarrow> addr \<Rightarrow> addr \<Rightarrow> list_heap \<Rightarrow> list_heap" where
  "splice_in p node n h =
     h\<lparr>n_prev := (n_prev h)(node := p, n := node), n_next := (n_next h)(node := n, p := node)\<rparr>"

definition splice_out :: "addr \<Rightarrow> addr \<Rightarrow> list_heap \<Rightarrow> list_heap" where
  "splice_out p n h = h\<lparr>n_prev := (n_prev h)(n := p), n_next := (n_next h)(p := n)\<rparr>"

lemma linked_snoc: "xs \<noteq> [] \<Longrightarrow>
    linked h (xs @ [a]) \<longleftrightarrow> linked h xs \<and> n_next h (last xs) = a \<and> n_prev h a = last xs"
  by (cases xs rule: rev_cases) (use linked_append [of h "butlast xs" "last xs" "[a]"] in auto)

lemma linked_Cons: "xs \<noteq> [] \<Longrightarrow>
    linked h (a # xs) \<longleftrightarrow> n_next h a = hd xs \<and> n_prev h (hd xs) = a \<and> linked h xs"
  by (cases xs) auto

lemma linked_prefix: "linked h (xs @ ys) \<Longrightarrow> linked h xs"
proof (cases "xs = [] \<or> ys = []")
  case False
  assume "linked h (xs @ ys)"
  then have "linked h (xs @ [hd ys])"
    using False linked_append [of h xs "hd ys" "tl ys"] by simp
  then show ?thesis using False by (simp add: linked_snoc)
qed auto

lemma linked_suffix: "linked h (xs @ ys) \<Longrightarrow> linked h ys"
  by (cases ys) (auto dest: linked_append [THEN iffD1])

lemma linked_join:
  assumes "xs \<noteq> []" "ys \<noteq> []" "linked h xs" "linked h ys"
    and "n_next h (last xs) = hd ys" "n_prev h (hd ys) = last xs"
  shows "linked h (xs @ ys)"
  using assms linked_append [of h "butlast xs" "last xs" ys]
    append_butlast_last_id [OF assms(1)] linked_Cons [OF assms(2), of h "last xs"]
  by (metis append_Cons append_Nil append_assoc)

lemma not_last_if_distinct: "distinct xs \<Longrightarrow> a \<in> set (butlast xs) \<Longrightarrow> a \<noteq> last xs"
  by (cases xs rule: rev_cases) auto

lemma not_hd_if_distinct: "distinct xs \<Longrightarrow> a \<in> set (tl xs) \<Longrightarrow> a \<noteq> hd xs"
  by (cases xs) auto

lemma linked_before:
  assumes "clist h l (xs @ ys)" "node \<notin> set (l # xs @ ys)"
    and h': "n_next h' (last (l # xs)) = node" "n_prev h' node = last (l # xs)"
    and nx: "\<And>a. a \<noteq> last (l # xs) \<Longrightarrow> a \<noteq> node \<Longrightarrow> n_next h' a = n_next h a"
    and pv: "\<And>a. a \<noteq> hd (ys @ [l]) \<Longrightarrow> a \<noteq> node \<Longrightarrow> n_prev h' a = n_prev h a"
  shows "linked h' (l # xs @ [node])"
proof -
  have d: "distinct (l # xs @ ys)" and k: "linked h (l # xs @ ys @ [l])"
    using assms(1) by (simp_all add: clist_def)
  have "linked h (l # xs)" using linked_prefix [of h "l # xs" "ys @ [l]"] k by simp
  then have "linked h' (l # xs)"
  proof (rule linked_cong)
    fix a assume "a \<in> set (butlast (l # xs))"
    then have "a \<noteq> last (l # xs)" "a \<in> set (l # xs)"
      using d not_last_if_distinct [of "l # xs" a] in_set_butlastD [of a "l # xs"] by auto
    then show "n_next h' a = n_next h a" using nx assms(2) by auto
  next
    fix a assume a: "a \<in> set (tl (l # xs))"
    then have "a \<noteq> hd (ys @ [l])" using d by (cases ys) auto
    then show "n_prev h' a = n_prev h a" using pv assms(2) a by auto
  qed
  then show ?thesis using linked_snoc [of "l # xs" h' node] h' by simp
qed

lemma linked_after:
  assumes "clist h l (xs @ ys)" "node \<notin> set (l # xs @ ys)"
    and h': "n_next h' node = hd (ys @ [l])" "n_prev h' (hd (ys @ [l])) = node"
    and nx: "\<And>a. a \<noteq> last (l # xs) \<Longrightarrow> a \<noteq> node \<Longrightarrow> n_next h' a = n_next h a"
    and pv: "\<And>a. a \<noteq> hd (ys @ [l]) \<Longrightarrow> a \<noteq> node \<Longrightarrow> n_prev h' a = n_prev h a"
  shows "linked h' (node # ys @ [l])"
proof -
  have d: "distinct (l # xs @ ys)" and k: "linked h ((l # xs) @ ys @ [l])"
    using assms(1) by (simp_all add: clist_def)
  have "linked h (ys @ [l])" using linked_suffix [OF k] .
  then have "linked h' (ys @ [l])"
  proof (rule linked_cong)
    fix a assume "a \<in> set (butlast (ys @ [l]))"
    then have "a \<in> set ys" by simp
    moreover have "last (l # xs) \<in> set (l # xs)" by (rule last_in_set) simp
    ultimately show "n_next h' a = n_next h a"
      using assms(2) d by (intro nx) (auto simp del: last.simps)
  next
    fix a assume a: "a \<in> set (tl (ys @ [l]))"
    then have "a \<noteq> hd (ys @ [l])"
      using d not_hd_if_distinct [of "ys @ [l]" a] by auto
    moreover have "a \<in> set (ys @ [l])" using a list.set_sel(2) [of "ys @ [l]" a] by simp
    ultimately show "n_prev h' a = n_prev h a" using pv [of a] assms(2) by auto
  qed
  then show ?thesis using linked_Cons [of "ys @ [l]" h' node] h' by simp
qed

lemma clist_splice_in:
  assumes "clist h l (xs @ ys)" "node \<notin> set (l # xs @ ys)" "node \<noteq> NULL"
  shows "clist (splice_in (last (l # xs)) node (hd (ys @ [l])) h) l (xs @ node # ys)"
proof -
  have ne: "last (l # xs) \<noteq> node" "hd (ys @ [l]) \<noteq> node"
    using assms(2) last_in_set [of "l # xs"] hd_in_set [of "ys @ [l]"] by (auto simp del: last.simps)
  then have "linked (splice_in (last (l # xs)) node (hd (ys @ [l])) h) (l # xs @ [node])"
    "linked (splice_in (last (l # xs)) node (hd (ys @ [l])) h) (node # ys @ [l])"
    by (auto intro!: linked_before [OF assms(1,2)] linked_after [OF assms(1,2)]
        simp: splice_in_def simp del: last.simps)
  then show ?thesis using assms unfolding clist_split by (auto simp: clist_def)
qed

lemma clist_splice_out:
  assumes "clist h l (xs @ node # ys)"
  shows "clist (splice_out (last (l # xs)) (hd (ys @ [l])) h) l (xs @ ys)"
proof -
  let ?h = "splice_out (last (l # xs)) (hd (ys @ [l])) h"
  have d: "distinct (l # xs @ node # ys)" and nz: "NULL \<notin> set (l # xs @ node # ys)"
    and k1: "linked h ((l # xs) @ [node])" and k2: "linked h ([node] @ ys @ [l])"
    using assms by (simp_all add: clist_split)
  have "linked ?h (l # xs)"
    using linked_prefix [OF k1]
  proof (rule linked_cong)
    fix a assume "a \<in> set (butlast (l # xs))"
    then show "n_next ?h a = n_next h a"
      using d not_last_if_distinct [of "l # xs" a] by (auto simp: splice_out_def)
  next
    fix a assume "a \<in> set (tl (l # xs))"
    then show "n_prev ?h a = n_prev h a"
      using d by (cases ys) (auto simp: splice_out_def)
  qed
  moreover have "linked ?h (ys @ [l])"
    using linked_suffix [OF k2]
  proof (rule linked_cong)
    fix a assume "a \<in> set (butlast (ys @ [l]))"
    moreover have "last (l # xs) \<in> set (l # xs)" by (rule last_in_set) simp
    ultimately show "n_next ?h a = n_next h a"
      using d by (auto simp: splice_out_def simp del: last.simps)
  next
    fix a assume "a \<in> set (tl (ys @ [l]))"
    then show "n_prev ?h a = n_prev h a"
      using d not_hd_if_distinct [of "ys @ [l]" a] by (auto simp: splice_out_def)
  qed
  moreover have "n_next ?h (last (l # xs)) = hd (ys @ [l])"
    "n_prev ?h (hd (ys @ [l])) = last (l # xs)" by (simp_all add: splice_out_def)
  ultimately have "linked ?h ((l # xs) @ ys @ [l])"
    by (intro linked_join [of "l # xs" "ys @ [l]"]) (simp_all del: last.simps)
  then show ?thesis using d nz by (simp add: clist_def)
qed

section \<open>The operations refine the operations on sequences\<close>

text \<open>Two heaps that agree on every node outside a set: what an operation leaves alone.\<close>

definition agree_off :: "addr set \<Rightarrow> list_heap \<Rightarrow> list_heap \<Rightarrow> bool" where
  "agree_off A h h' \<longleftrightarrow> (\<forall>a. a \<notin> A \<longrightarrow> n_next h' a = n_next h a \<and> n_prev h' a = n_prev h a)"

lemma clist_agree_off: "clist h l xs \<Longrightarrow> agree_off A h h' \<Longrightarrow> A \<inter> set (l # xs) = {} \<Longrightarrow> clist h' l xs"
  by (erule clist_frame) (auto simp: agree_off_def)

lemma splice_in_agree: "agree_off {p, node, n} h (splice_in p node n h)"
  by (auto simp: agree_off_def splice_in_def)

lemma splice_out_agree: "agree_off {p, n} h (splice_out p n h)"
  by (auto simp: agree_off_def splice_out_def)

lemma agree_off_mono: "agree_off A h h' \<Longrightarrow> A \<subseteq> B \<Longrightarrow> agree_off B h h'"
  by (auto simp: agree_off_def)

lemma clist_nz: "clist h l xs \<Longrightarrow> l \<noteq> NULL \<and> last (l # xs) \<noteq> NULL \<and> hd (xs @ [l]) \<noteq> NULL"
  unfolding clist_def by (metis hd_append2 hd_in_set last_in_set list.set_intros(1) list.set_intros(2)
      list.sel(1) list.distinct(1) append_Nil)

lemma list_init_clist: "l \<noteq> NULL \<Longrightarrow> \<exists>h'. list_init l h = Some h' \<and> clist h' l [] \<and> agree_off {l} h h'"
  by (auto simp: list_init_def clist_def agree_off_def osv_defs)

lemma list_empty_clist: "clist h l xs \<Longrightarrow> list_empty h l = Some (xs = [])"
proof -
  assume c: "clist h l xs"
  then have "xs \<noteq> [] \<Longrightarrow> hd (xs @ [l]) \<noteq> l"
    by (cases xs) (auto simp: clist_def)
  then show ?thesis
    using clist_nz [OF c]
    by (auto simp: list_empty_def get_prev_def get_next_def clist_hd [OF c] clist_last [OF c])
qed

lemma list_begin_clist: "clist h l xs \<Longrightarrow> list_begin h l = Some (hd (xs @ [l]))"
  using clist_nz [of h l xs] by (auto simp: clist_hd osv_defs)

lemma list_append_splice:
  assumes "clist h l xs" "node \<notin> set (l # xs)" "node \<noteq> NULL"
  shows "list_append l node h = Some (splice_in (last (l # xs)) node l h)"
proof -
  have ne: "last (l # xs) \<noteq> node" using assms(2) last_in_set [of "l # xs"] by auto
  have "l \<noteq> node" using assms(2) by auto
  moreover have "last (l # xs) = l" if "xs = []" using that by simp
  ultimately show ?thesis
    using assms clist_nz [OF assms(1)] ne
    by (auto simp: list_append_def list_empty_clist [OF assms(1)] clist_last [OF assms(1)]
        get_prev_def set_prev_def set_next_def splice_in_def fun_upd_twist simp del: last.simps)
qed

lemma list_append_clist:
  assumes "clist h l xs" "node \<notin> set (l # xs)" "node \<noteq> NULL"
  shows "\<exists>h'. list_append l node h = Some h' \<and> clist h' l (xs @ [node])
              \<and> agree_off (set (l # node # xs)) h h'"
proof -
  have "clist (splice_in (last (l # xs)) node l h) l (xs @ [node])"
    using clist_splice_in [of h l xs "[]" node] assms by simp
  moreover have "agree_off (set (l # node # xs)) h (splice_in (last (l # xs)) node l h)"
    by (rule agree_off_mono [OF splice_in_agree]) auto
  ultimately show ?thesis using list_append_splice [OF assms] by blast
qed

lemma clist_neighbours:
  assumes "clist h l (xs @ n # ys)"
  shows "n_prev h n = last (l # xs)" "n_next h n = hd (ys @ [l])"
proof -
  have "linked h ((l # xs) @ [n])" "linked h (n # (ys @ [l]))"
    using assms by (simp_all add: clist_split)
  then show "n_prev h n = last (l # xs)" "n_next h n = hd (ys @ [l])"
    using linked_snoc [of "l # xs" h n] linked_Cons [of "ys @ [l]" h n]
    by (simp_all del: last.simps)
qed

lemma clist_neighbours_nz:
  assumes "clist h l (xs @ n # ys)"
  shows "n \<noteq> NULL" "last (l # xs) \<noteq> NULL" "hd (ys @ [l]) \<noteq> NULL"
    "n \<noteq> last (l # xs)" "n \<noteq> hd (ys @ [l])" "n \<noteq> l"
  using assms last_in_set [of "l # xs"] hd_in_set [of "ys @ [l]"]
  by (auto simp: clist_def simp del: last.simps)

lemma list_remove_splice:
  assumes "clist h l (xs @ n # ys)"
  shows "list_remove n h = Some (splice_out (last (l # xs)) (hd (ys @ [l])) h, hd (ys @ [l]))"
  using clist_neighbours_nz [OF assms] clist_neighbours [OF assms]
  by (auto simp: list_remove_def get_prev_def get_next_def set_prev_def set_next_def splice_out_def
      simp del: last.simps)

lemma list_remove_clist:
  assumes "clist h l (xs @ n # ys)"
  shows "\<exists>h'. list_remove n h = Some (h', hd (ys @ [l])) \<and> clist h' l (xs @ ys)
              \<and> agree_off (set (l # xs @ ys)) h h'"
proof -
  have "agree_off (set (l # xs @ ys)) h (splice_out (last (l # xs)) (hd (ys @ [l])) h)"
    by (rule agree_off_mono [OF splice_out_agree]) (cases ys; auto)
  then show ?thesis
    using list_remove_splice [OF assms] clist_splice_out [OF assms] by blast
qed

lemma list_next_clist: "clist h l (xs @ n # ys) \<Longrightarrow> list_next h n = Some (hd (ys @ [l]))"
  using clist_neighbours clist_neighbours_nz(1) by (fastforce simp: list_next_def get_next_def)

lemma append_ordered_loop_clist:
  assumes "clist h l (ys @ zs)" "node \<notin> set (l # ys @ zs)" "node \<noteq> NULL"
  shows "\<exists>h'. append_ordered_loop compare l node (hd (zs @ [l])) h = Some h'
              \<and> clist h' l (ys @ insert_ordered compare node zs)
              \<and> agree_off (set (l # node # ys @ zs)) h h'"
  using assms
proof (induction zs arbitrary: ys)
  case Nil
  then show ?case
    using list_append_clist [of h l ys node] clist_nz [of h l ys]
    by (subst append_ordered_loop.simps) (simp add: list_end_def insert_ordered_def)
next
  case (Cons z zs)
  note nb = clist_neighbours [OF Cons.prems(1)] and nz = clist_neighbours_nz [OF Cons.prems(1)]
  show ?case
  proof (cases "compare z node > 0")
    case True
    let ?h = "splice_in (last (l # ys)) node z h"
    have "append_ordered_loop compare l node z h = Some ?h"
      using True nb nz Cons.prems clist_nz [OF Cons.prems(1)]
      by (subst append_ordered_loop.simps)
        (auto simp: list_end_def get_prev_def set_prev_def set_next_def splice_in_def
          simp del: last.simps)
    moreover have "clist ?h l (ys @ insert_ordered compare node (z # zs))"
      using clist_splice_in [of h l ys "z # zs" node] True Cons.prems
      by (simp add: insert_ordered_def)
    moreover have "agree_off (set (l # node # ys @ z # zs)) h ?h"
      by (rule agree_off_mono [OF splice_in_agree]) auto
    ultimately show ?thesis by simp
  next
    case False
    have "append_ordered_loop compare l node z h
            = append_ordered_loop compare l node (hd (zs @ [l])) h"
      using False nz clist_nz [OF Cons.prems(1)]
      by (subst append_ordered_loop.simps)
        (simp add: list_end_def list_next_clist [OF Cons.prems(1)])
    moreover have "insert_ordered compare node (z # zs) = z # insert_ordered compare node zs"
      using False by (simp add: insert_ordered_def)
    ultimately show ?thesis using Cons.IH [of "ys @ [z]"] Cons.prems by simp
  qed
qed

lemma list_append_ordered_clist:
  assumes "clist h l xs" "node \<notin> set (l # xs)" "node \<noteq> NULL"
  shows "\<exists>h'. list_append_ordered compare l node h = Some h'
              \<and> clist h' l (insert_ordered compare node xs) \<and> agree_off (set (l # node # xs)) h h'"
  using append_ordered_loop_clist [of h l "[]" xs node compare] assms clist_nz [OF assms(1)]
  by (simp add: list_append_ordered_def list_begin_clist [OF assms(1)])

lemma foreach_loop_clist:
  "clist h l (ys @ zs) \<Longrightarrow> foreach_loop op l h (hd (zs @ [l])) aux = Some (foreach_seq op zs aux)"
proof (induction zs arbitrary: ys aux)
  case Nil
  then show ?case using clist_nz [of h l ys]
    by (subst foreach_loop.simps) (simp add: list_end_def)
next
  case (Cons z zs)
  have "z \<noteq> l" using clist_neighbours_nz [OF Cons.prems] by simp
  then show ?case
    using Cons.IH [of "ys @ [z]"] Cons.prems clist_nz [OF Cons.prems]
    by (subst foreach_loop.simps)
      (simp add: list_end_def list_next_clist [OF Cons.prems] split: prod.split)
qed

lemma list_foreach_do_clist:
  "clist h l xs \<Longrightarrow> list_foreach_do op l h aux = Some (foreach_seq op xs aux)"
  using foreach_loop_clist [of h l "[]" xs op aux] clist_nz [of h l xs]
  by (simp add: list_foreach_do_def list_begin_clist)

lemma mset_insert_ordered: "mset (insert_ordered compare y xs) = add_mset y (mset xs)"
  unfolding insert_ordered_def
  by (metis (no_types, lifting) mset.simps(2) mset_append takeWhile_dropWhile_id union_mset_add_mset_right)

lemma set_insert_ordered [simp]: "set (insert_ordered compare y xs) = insert y (set xs)"
  by (metis mset_insert_ordered set_mset_add_mset_insert set_mset_mset)

lemma insert_ordered_sorted:
  assumes sym: "\<And>a b. compare a b > 0 \<Longrightarrow> compare b a \<le> 0"
    and trans: "\<And>a b c. compare a b \<le> 0 \<Longrightarrow> compare b c \<le> 0 \<Longrightarrow> compare a c \<le> 0"
    and "sorted_wrt (\<lambda>a b. compare a b \<le> 0) xs"
  shows "sorted_wrt (\<lambda>a b. compare a b \<le> 0) (insert_ordered compare y xs)"
  using assms(3)
proof (induction xs)
  case Nil
  then show ?case by (simp add: insert_ordered_def)
next
  case (Cons x xs)
  show ?case
  proof (cases "compare x y > 0")
    case True
    then have "compare y x \<le> 0" by (rule sym)
    then show ?thesis using True Cons.prems trans by (auto simp: insert_ordered_def)
  next
    case False
    then have "insert_ordered compare y (x # xs) = x # insert_ordered compare y xs"
      by (simp add: insert_ordered_def)
    then show ?thesis using False Cons by simp
  qed
qed

section \<open>The interface its clients rely on\<close>

text \<open>A client sees a list as the sequence of its nodes, and appends, looks at the front and removes.\<close>

primrec push_all :: "(addr \<Rightarrow> addr \<Rightarrow> 'h \<Rightarrow> 'h option) \<Rightarrow> addr \<Rightarrow> addr list \<Rightarrow> 'h \<Rightarrow> 'h option" where
  "push_all app l [] h = Some h"
| "push_all app l (n # ns) h = do { h \<leftarrow> app l n h; push_all app l ns h }"

primrec pop_n :: "('h \<Rightarrow> addr \<Rightarrow> addr option) \<Rightarrow> (addr \<Rightarrow> 'h \<Rightarrow> ('h \<times> addr) option) \<Rightarrow> addr
    \<Rightarrow> nat \<Rightarrow> 'h \<Rightarrow> ('h \<times> addr list) option" where
  "pop_n first rem l 0 h = Some (h, [])"
| "pop_n first rem l (Suc k) h = do {
     n \<leftarrow> first h l;
     (h, _) \<leftarrow> rem n h;
     (h, ns) \<leftarrow> pop_n first rem l k h;
     Some (h, n # ns)
   }"

locale node_list =
  fixes contents :: "'h \<Rightarrow> addr \<Rightarrow> addr list \<Rightarrow> bool"
    and init :: "addr \<Rightarrow> 'h \<Rightarrow> 'h option"
    and app :: "addr \<Rightarrow> addr \<Rightarrow> 'h \<Rightarrow> 'h option"
    and first :: "'h \<Rightarrow> addr \<Rightarrow> addr option"
    and rem :: "addr \<Rightarrow> 'h \<Rightarrow> ('h \<times> addr) option"
  assumes init_contents: "l \<noteq> NULL \<Longrightarrow> \<exists>h'. init l h = Some h' \<and> contents h' l []"
    and app_contents: "contents h l xs \<Longrightarrow> n \<notin> set (l # xs) \<Longrightarrow> n \<noteq> NULL \<Longrightarrow>
           \<exists>h'. app l n h = Some h' \<and> contents h' l (xs @ [n])"
    and first_contents: "contents h l xs \<Longrightarrow> first h l = Some (hd (xs @ [l]))"
    and rem_contents: "contents h l (xs @ n # ys) \<Longrightarrow>
           \<exists>h'. rem n h = Some (h', hd (ys @ [l])) \<and> contents h' l (xs @ ys)"
begin

lemma push_all_contents:
  "contents h l xs \<Longrightarrow> distinct (l # xs @ ns) \<Longrightarrow> NULL \<notin> set ns \<Longrightarrow>
   \<exists>h'. push_all app l ns h = Some h' \<and> contents h' l (xs @ ns)"
proof (induction ns arbitrary: h xs)
  case (Cons n ns)
  then obtain h' where "app l n h = Some h'" "contents h' l (xs @ [n])"
    using app_contents [of h l xs n] by auto
  then show ?case using Cons.IH [of h' "xs @ [n]"] Cons.prems by auto
qed simp

lemma pop_n_contents:
  "contents h l (xs @ ys) \<Longrightarrow>
   \<exists>h'. pop_n first rem l (length xs) h = Some (h', xs) \<and> contents h' l ys"
proof (induction xs arbitrary: h)
  case (Cons x xs)
  then have "first h l = Some x" using first_contents by fastforce
  moreover obtain h' where "rem x h = Some (h', hd ((xs @ ys) @ [l]))" "contents h' l (xs @ ys)"
    using rem_contents [of h l "[]" x "xs @ ys"] Cons.prems by auto
  ultimately show ?case using Cons.IH [of h'] by auto
qed simp

lemma fifo:
  assumes "l \<noteq> NULL" "distinct (l # ns)" "NULL \<notin> set ns"
  shows "\<exists>h1 h2 h3. init l h = Some h1 \<and> push_all app l ns h1 = Some h2
            \<and> pop_n first rem l (length ns) h2 = Some (h3, ns) \<and> contents h3 l []"
proof -
  obtain h1 where 1: "init l h = Some h1" "contents h1 l []" using init_contents assms by blast
  then obtain h2 where 2: "push_all app l ns h1 = Some h2" "contents h2 l ns"
    using push_all_contents [of h1 l "[]" ns] assms by auto
  then show ?thesis using pop_n_contents [of h2 l ns "[]"] 1 by auto
qed

end

interpretation kl: node_list clist list_init list_append list_begin list_remove
proof unfold_locales
  show "\<exists>h'. list_init l h = Some h' \<and> clist h' l []" if "l \<noteq> NULL" for l h
    using list_init_clist that by blast
  show "\<exists>h'. list_append l n h = Some h' \<and> clist h' l (xs @ [n])"
    if "clist h l xs" "n \<notin> set (l # xs)" "n \<noteq> NULL" for h l xs n
    using list_append_clist that by blast
  show "\<exists>h'. list_remove n h = Some (h', hd (ys @ [l])) \<and> clist h' l (xs @ ys)"
    if "clist h l (xs @ n # ys)" for h l xs n ys
    using list_remove_clist that by blast
qed (rule list_begin_clist)

section \<open>Properties\<close>

text \<open>C26: the kernel list is a queue. After \<^verbatim>\<open>list_init\<close>, appending distinct nodes with
  \<^verbatim>\<open>list_append\<close> and then taking the front out with \<^verbatim>\<open>list_begin\<close> and \<^verbatim>\<open>list_remove\<close> as many
  times never dereferences a null pointer, yields the nodes in the order they were appended and
  leaves a well linked empty ring.\<close>

theorem list_is_fifo:
  assumes "l \<noteq> NULL" "distinct (l # ns)" "NULL \<notin> set ns"
  shows "\<exists>h1 h2 h3. list_init l h = Some h1 \<and> push_all list_append l ns h1 = Some h2
            \<and> pop_n list_begin list_remove l (length ns) h2 = Some (h3, ns) \<and> clist h3 l []"
  using assms by (rule kl.fifo)

theorem list_is_fifo_witness:
  "\<exists>h1 h2 h3. list_init 1 \<lparr>n_prev = (\<lambda>_. 0), n_next = (\<lambda>_. 0)\<rparr> = Some h1
     \<and> push_all list_append 1 [7, 3, 5] h1 = Some h2
     \<and> pop_n list_begin list_remove 1 (length [7, 3, 5 :: nat]) h2 = Some (h3, [7, 3, 5]) \<and> clist h3 1 []"
  by (rule list_is_fifo) simp_all

text \<open>C27: \<^verbatim>\<open>list_append_ordered\<close> on a well linked ring whose nodes are sorted by the comparator
  terminates without a null dereference, keeps the ring well linked and sorted, adds exactly the
  given node, and touches no node outside the ring. The hypotheses on the comparator are its
  contract in \<^verbatim>\<open>list.h\<close>.\<close>

theorem list_append_ordered_sorted:
  assumes "clist h l xs" "node \<notin> set (l # xs)" "node \<noteq> NULL"
    and "\<And>a b. compare a b > 0 \<Longrightarrow> compare b a \<le> 0"
    and "\<And>a b c. compare a b \<le> 0 \<Longrightarrow> compare b c \<le> 0 \<Longrightarrow> compare a c \<le> 0"
    and "sorted_wrt (\<lambda>a b. compare a b \<le> 0) xs"
  shows "\<exists>h' ys. list_append_ordered compare l node h = Some h' \<and> clist h' l ys
            \<and> sorted_wrt (\<lambda>a b. compare a b \<le> 0) ys \<and> mset ys = add_mset node (mset xs)
            \<and> agree_off (set (l # node # xs)) h h'"
proof -
  have "sorted_wrt (\<lambda>a b. compare a b \<le> 0) (insert_ordered compare node xs)"
    by (rule insert_ordered_sorted) (use assms in blast)+
  then show ?thesis
    using list_append_ordered_clist [OF assms(1-3), of compare]
      mset_insert_ordered [of compare node xs] by blast
qed

theorem list_append_ordered_sorted_witness:
  "\<exists>h' ys. list_append_ordered (\<lambda>a b. int a - int b) 1 4
       \<lparr>n_prev = (\<lambda>_. 0)(2 := 1, 6 := 2, 1 := 6), n_next = (\<lambda>_. 0)(1 := 2, 2 := 6, 6 := 1)\<rparr> = Some h'
     \<and> clist h' 1 ys \<and> sorted_wrt (\<lambda>a b. int a - int b \<le> 0) ys \<and> mset ys = add_mset 4 (mset [2, 6])
     \<and> agree_off (set [1, 4, 2, 6])
         \<lparr>n_prev = (\<lambda>_. 0)(2 := 1, 6 := 2, 1 := 6), n_next = (\<lambda>_. 0)(1 := 2, 2 := 6, 6 := 1)\<rparr> h'"
  by (rule list_append_ordered_sorted) (simp_all add: clist_def)

end
