(* ===== verification/Radix_Tree.thy ===== *)
theory Radix_Tree
  imports Prelude
begin

text \<open>
  The radix tree of \<^verbatim>\<open>kernel/radix_tree.c\<close>: a map from small integers to pointers, 64 slots per node,
  used for the trap handler table, the page caches, the super block table and the inode caches.

  A node is its \<^verbatim>\<open>count\<close> and its 64 slots; a slot is empty, a leaf, or an inner node. The tree is
  kept as a value, so the \<^verbatim>\<open>parent\<close> link of a node is the position from which the recursion entered
  it, and walking up the links is returning from the recursion. Two things are \<open>None\<close>: a failed
  \<^verbatim>\<open>kassert\<close>, and the use of a leaf as an inner node, which the source would do by a pointer cast.

  Node allocation can fail. Every operation that allocates takes the list of the outcomes of the
  next calls to the node allocator and returns what is left of it; the end of the list is a failure.
\<close>

section \<open>Data\<close>

datatype 'v slot = Empty | Leaf 'v | Sub "'v radix_tree_node"
  and 'v radix_tree_node = RNode (count: int) (slots: "'v slot list")

record 'v radix_tree_root =
  height :: nat
  root_node :: "'v radix_tree_node option"

abbreviation (input) ERR_RADIX_TREE_ALLOC :: err where "ERR_RADIX_TREE_ALLOC \<equiv> 1"
abbreviation (input) ERR_RADIX_TREE_NODE_EXIST :: err where "ERR_RADIX_TREE_NODE_EXIST \<equiv> 2"
abbreviation (input) RADIX_TREE_WIDTH_POWER :: nat where "RADIX_TREE_WIDTH_POWER \<equiv> 6"
abbreviation (input) RADIX_TREE_WIDTH :: nat where "RADIX_TREE_WIDTH \<equiv> 64"

section \<open>Operations\<close>

fun radix_tree_node_create :: "bool list \<Rightarrow> 'v radix_tree_node option \<times> bool list" where
  "radix_tree_node_create (True # oc) = (Some (RNode 0 (replicate RADIX_TREE_WIDTH Empty)), oc)"
| "radix_tree_node_create (False # oc) = (None, oc)"
| "radix_tree_node_create [] = (None, [])"

text \<open>\<^verbatim>\<open>1 << (6 * height)\<close> on a 32-bit \<^verbatim>\<open>int\<close>; the processor takes the shift amount modulo 32.\<close>

definition radix_tree_max_index :: "'v radix_tree_root \<Rightarrow> int" where
  "radix_tree_max_index root =
     (if height root = 0 then -1
      else sint ((push_bit ((RADIX_TREE_WIDTH_POWER * height root) mod 32) 1 :: u32) - 1))"

definition radix_tree_level_index :: "int \<Rightarrow> nat \<Rightarrow> nat" where
  "radix_tree_level_index index level =
     nat (drop_bit (level * RADIX_TREE_WIDTH_POWER) index AND (2 ^ RADIX_TREE_WIDTH_POWER - 1))"

definition slot_at :: "'v radix_tree_node \<Rightarrow> nat \<Rightarrow> 'v slot" where
  "slot_at node i = slots node ! i"

definition put_slot :: "nat \<Rightarrow> 'v slot \<Rightarrow> 'v radix_tree_node \<Rightarrow> 'v radix_tree_node" where
  "put_slot i s node = RNode (count node) ((slots node)[i := s])"

definition radix_tree_add_child ::
    "'v radix_tree_node \<Rightarrow> nat \<Rightarrow> 'v slot \<Rightarrow> (err \<times> 'v radix_tree_node) option" where
  "radix_tree_add_child node index child = do {
     kassert (child \<noteq> Empty);
     (if slot_at node index \<noteq> Empty then Some (ERR_RADIX_TREE_NODE_EXIST, node)
      else do {
        let node = RNode (count node + 1) ((slots node)[index := child]);
        kassert (count node \<le> int RADIX_TREE_WIDTH);
        Some (ERR_OK, node)
      })
   }"

text \<open>The search without allocation, from a node that is \<open>level\<close> levels above the leaves' parents.\<close>

fun radix_tree_find_parent :: "nat \<Rightarrow> int \<Rightarrow> 'v radix_tree_node \<Rightarrow> 'v radix_tree_node option option" where
  "radix_tree_find_parent 0 index node = Some (Some node)"
| "radix_tree_find_parent (Suc level) index node =
     (case slot_at node (radix_tree_level_index index (Suc level)) of
        Empty \<Rightarrow> Some None
      | Sub child \<Rightarrow> radix_tree_find_parent level index child
      | Leaf _ \<Rightarrow> None)"

text \<open>The search with allocation, followed by the update \<open>k\<close> of the node it finds.\<close>

fun radix_tree_find_parent_alloc ::
    "nat \<Rightarrow> int \<Rightarrow> ('v radix_tree_node \<Rightarrow> (err \<times> 'v radix_tree_node) option)
     \<Rightarrow> 'v radix_tree_node \<Rightarrow> bool list \<Rightarrow> (err \<times> 'v radix_tree_node \<times> bool list) option" where
  "radix_tree_find_parent_alloc 0 index k node oc = do {
     (er, node) \<leftarrow> k node;
     Some (er, node, oc)
   }"
| "radix_tree_find_parent_alloc (Suc level) index k node oc =
     (let li = radix_tree_level_index index (Suc level) in
      case slot_at node li of
        Sub child \<Rightarrow> do {
          (er, child, oc) \<leftarrow> radix_tree_find_parent_alloc level index k child oc;
          Some (er, put_slot li (Sub child) node, oc)
        }
      | Empty \<Rightarrow>
          (case radix_tree_node_create oc of
             (None, oc) \<Rightarrow> Some (ERR_RADIX_TREE_ALLOC, node, oc)
           | (Some child, oc) \<Rightarrow> do {
               (_, node) \<leftarrow> radix_tree_add_child node li (Sub child);
               (er, child, oc) \<leftarrow> radix_tree_find_parent_alloc level index k child oc;
               Some (er, put_slot li (Sub child) node, oc)
             })
      | Leaf _ \<Rightarrow> None)"

definition radix_tree_add_level ::
    "'v radix_tree_root \<Rightarrow> bool list \<Rightarrow> (err \<times> 'v radix_tree_root \<times> bool list) option" where
  "radix_tree_add_level root oc =
     (case radix_tree_node_create oc of
        (None, oc) \<Rightarrow> Some (ERR_RADIX_TREE_ALLOC, root, oc)
      | (Some node, oc) \<Rightarrow> do {
          node \<leftarrow> (case root_node root of
                     None \<Rightarrow> Some node
                   | Some old \<Rightarrow> do { (_, node) \<leftarrow> radix_tree_add_child node 0 (Sub old); Some node });
          Some (ERR_OK, root\<lparr>height := height root + 1, root_node := Some node\<rparr>, oc)
        })"

definition radix_tree_construct :: "'v radix_tree_root" where
  "radix_tree_construct = \<lparr>height = 0, root_node = None\<rparr>"

definition radix_tree_destroy :: "'v radix_tree_root \<Rightarrow> 'v radix_tree_root" where
  "radix_tree_destroy root = root\<lparr>root_node := None, height := 0\<rparr>"

definition radix_tree_empty :: "'v radix_tree_root \<Rightarrow> bool" where
  "radix_tree_empty root \<longleftrightarrow> height root = 0"

text \<open>What a slot of a parent of leaves holds: \<open>None\<close> is the null pointer.\<close>

definition leaf_of :: "'v slot \<Rightarrow> 'v option option" where
  "leaf_of s = (case s of Empty \<Rightarrow> Some None | Leaf v \<Rightarrow> Some (Some v) | Sub _ \<Rightarrow> None)"

definition radix_tree_lookup :: "'v radix_tree_root \<Rightarrow> int \<Rightarrow> 'v option option" where
  "radix_tree_lookup root index =
     (if index > radix_tree_max_index root then Some None
      else case root_node root of
        None \<Rightarrow> Some None
      | Some node \<Rightarrow> do {
          p \<leftarrow> radix_tree_find_parent (height root - 1) index node;
          (case p of
             None \<Rightarrow> Some None
           | Some parent \<Rightarrow> leaf_of (slot_at parent (radix_tree_level_index index 0)))
        })"

lemma add_level_consumes:
  "radix_tree_add_level root oc = Some (ERR_OK, root', oc') \<Longrightarrow> length oc' < length oc"
  by (cases oc rule: radix_tree_node_create.cases)
    (auto simp: radix_tree_add_level_def bind_Some_iff split: option.splits)

function radix_tree_grow ::
    "'v radix_tree_root \<Rightarrow> int \<Rightarrow> bool list \<Rightarrow> (err \<times> 'v radix_tree_root \<times> bool list) option" where
  "radix_tree_grow root index oc =
     (if index > radix_tree_max_index root then
        (case radix_tree_add_level root oc of
           None \<Rightarrow> None
         | Some (er, root', oc') \<Rightarrow>
             if er \<noteq> ERR_OK then Some (ERR_RADIX_TREE_ALLOC, root', oc')
             else radix_tree_grow root' index oc')
      else Some (ERR_OK, root, oc))"
  by pat_completeness auto
termination
  by (relation "measure (\<lambda>(_, _, oc). length oc)") (auto dest: add_level_consumes)

declare radix_tree_grow.simps [simp del]

definition radix_tree_insert ::
    "'v radix_tree_root \<Rightarrow> int \<Rightarrow> 'v \<Rightarrow> bool list \<Rightarrow> (err \<times> 'v radix_tree_root \<times> bool list) option" where
  "radix_tree_insert root index leaf oc = do {
     (er, root, oc) \<leftarrow> radix_tree_grow root index oc;
     (if er \<noteq> ERR_OK then Some (ERR_RADIX_TREE_ALLOC, root, oc)
      else case root_node root of
        None \<Rightarrow> Some (ERR_RADIX_TREE_ALLOC, root, oc)
      | Some node \<Rightarrow> do {
          (er, node, oc) \<leftarrow> radix_tree_find_parent_alloc (height root - 1) index
             (\<lambda>p. radix_tree_add_child p (radix_tree_level_index index 0) (Leaf leaf)) node oc;
          Some (er, root\<lparr>root_node := Some node\<rparr>, oc)
        })
   }"

text \<open>One turn of the upward loop of \<^verbatim>\<open>radix_tree_remove\<close>: the result says whether the node was freed.\<close>

definition radix_tree_clear_slot ::
    "'v radix_tree_node \<Rightarrow> nat \<Rightarrow> (bool \<times> 'v radix_tree_node) option" where
  "radix_tree_clear_slot node li = do {
     kassert (slot_at node li \<noteq> Empty);
     kassert (count node > 0);
     let node = RNode (count node - 1) ((slots node)[li := Empty]);
     Some (count node = 0, node)
   }"

fun radix_tree_remove_up :: "nat \<Rightarrow> int \<Rightarrow> 'v radix_tree_node \<Rightarrow> (bool \<times> 'v radix_tree_node) option" where
  "radix_tree_remove_up 0 index node = radix_tree_clear_slot node (radix_tree_level_index index 0)"
| "radix_tree_remove_up (Suc level) index node =
     (let li = radix_tree_level_index index (Suc level) in
      case slot_at node li of
        Sub child \<Rightarrow> do {
          (freed, child) \<leftarrow> radix_tree_remove_up level index child;
          (if freed then radix_tree_clear_slot node li
           else Some (False, put_slot li (Sub child) node))
        }
      | _ \<Rightarrow> None)"

definition radix_tree_remove ::
    "'v radix_tree_root \<Rightarrow> int \<Rightarrow> ('v option \<times> 'v radix_tree_root) option" where
  "radix_tree_remove root index =
     (case root_node root of
        None \<Rightarrow> Some (None, root)
      | Some node \<Rightarrow> do {
          p \<leftarrow> radix_tree_find_parent (height root - 1) index node;
          (case p of
             None \<Rightarrow> Some (None, root)
           | Some parent \<Rightarrow> do {
               leaf \<leftarrow> leaf_of (slot_at parent (radix_tree_level_index index 0));
               (case leaf of
                  None \<Rightarrow> Some (None, root)
                | Some v \<Rightarrow> do {
                    (freed, node) \<leftarrow> radix_tree_remove_up (height root - 1) index node;
                    Some (Some v,
                      if freed then root\<lparr>root_node := None, height := 0\<rparr>
                      else root\<lparr>root_node := Some node\<rparr>)
                  })
             })
        })"

section \<open>Level indices are the base 64 digits\<close>

lemma level_index_eq: "radix_tree_level_index i k = nat (i div 64 ^ k mod 64)"
proof -
  have "(2 :: int) ^ 6 - 1 = mask 6" by (simp add: mask_eq_exp_minus_1)
  then have "drop_bit (k * 6) i AND (2 ^ 6 - 1) = take_bit 6 (drop_bit (k * 6) i)"
    by (simp only: take_bit_eq_mask)
  moreover have "(2 :: int) ^ (k * 6) = 64 ^ k"
    using power_mult [of "2 :: int" 6 k] by (simp add: mult.commute)
  ultimately show ?thesis
    by (simp add: radix_tree_level_index_def take_bit_eq_mod drop_bit_eq_div)
qed

lemma level_index_less [simp]: "radix_tree_level_index i k < 64"
  by (simp add: level_index_eq nat_less_iff)

definition same_path :: "nat \<Rightarrow> int \<Rightarrow> int \<Rightarrow> bool" where
  "same_path l i j \<longleftrightarrow> (\<forall>k\<le>l. radix_tree_level_index i k = radix_tree_level_index j k)"

lemma same_path_0: "same_path 0 i j \<longleftrightarrow> radix_tree_level_index i 0 = radix_tree_level_index j 0"
  by (simp add: same_path_def)

lemma same_path_Suc: "same_path (Suc l) i j \<longleftrightarrow>
    radix_tree_level_index i (Suc l) = radix_tree_level_index j (Suc l) \<and> same_path l i j"
  by (auto simp: same_path_def le_Suc_eq)

lemma same_path_mod: "same_path l i j \<longleftrightarrow> i mod 64 ^ Suc l = j mod 64 ^ Suc l"
proof (induction l)
  case 0
  then show ?case by (simp add: same_path_0 level_index_eq eq_nat_nat_iff)
next
  case (Suc l)
  have d: "x mod 64 ^ Suc (Suc l) = 64 ^ Suc l * (x div 64 ^ Suc l mod 64) + x mod 64 ^ Suc l" for x :: int
    using zmod_zmult2_eq [of 64 x "64 ^ Suc l"] by (simp add: mult.commute)
  have "a * q + r = a * q' + r' \<longleftrightarrow> q = q' \<and> r = r'"
    if "0 \<le> r" "r < a" "0 \<le> r'" "r' < a" for a q q' r r' :: int
    using that by (metis int_div_pos_eq int_mod_pos_eq)
  then show ?case
    by (simp only: same_path_Suc Suc.IH d level_index_eq)
      (auto simp: eq_nat_nat_iff simp del: power_Suc)
qed

lemma same_path_eq: "0 \<le> i \<Longrightarrow> 0 \<le> j \<Longrightarrow> i < 64 ^ Suc l \<Longrightarrow> j < 64 ^ Suc l \<Longrightarrow> same_path l i j \<longleftrightarrow> i = j"
  by (simp only: same_path_mod mod_pos_pos_trivial)

section \<open>Well formed nodes\<close>

definition node_ok :: "'v radix_tree_node \<Rightarrow> bool" where
  "node_ok n \<longleftrightarrow> length (slots n) = 64 \<and> count n = int (length (filter (\<lambda>s. s \<noteq> Empty) (slots n)))"

fun rt_wf :: "nat \<Rightarrow> 'v radix_tree_node \<Rightarrow> bool" where
  "rt_wf 0 n \<longleftrightarrow> node_ok n \<and> (\<forall>s\<in>set (slots n). case s of Sub _ \<Rightarrow> False | _ \<Rightarrow> True)"
| "rt_wf (Suc l) n \<longleftrightarrow> node_ok n \<and>
     (\<forall>s\<in>set (slots n). case s of Empty \<Rightarrow> True | Leaf _ \<Rightarrow> False | Sub c \<Rightarrow> rt_wf l c)"

fun rt_get :: "nat \<Rightarrow> int \<Rightarrow> 'v radix_tree_node \<Rightarrow> 'v option" where
  "rt_get 0 i n = (case slot_at n (radix_tree_level_index i 0) of Leaf v \<Rightarrow> Some v | _ \<Rightarrow> None)"
| "rt_get (Suc l) i n = (case slot_at n (radix_tree_level_index i (Suc l)) of Sub c \<Rightarrow> rt_get l i c | _ \<Rightarrow> None)"

lemma used_slots_update:
  "i < length xs \<Longrightarrow> int (length (filter P (xs[i := x])))
     = int (length (filter P xs)) - (if P (xs ! i) then 1 else 0) + (if P x then 1 else 0)"
proof (induction xs arbitrary: i)
  case (Cons y xs)
  show ?case
  proof (cases i)
    case (Suc k)
    then have "int (length (filter P (xs[k := x])))
        = int (length (filter P xs)) - (if P (xs ! k) then 1 else 0) + (if P x then 1 else 0)"
      using Cons by simp
    then show ?thesis using Suc by (auto split: if_splits)
  qed simp
qed simp

lemma node_ok_upd:
  assumes "node_ok n" "i < 64"
  shows "node_ok (RNode (count n - (if slot_at n i \<noteq> Empty then 1 else 0) + (if s \<noteq> Empty then 1 else 0))
           ((slots n)[i := s]))"
  using assms used_slots_update [of i "slots n" "\<lambda>s. s \<noteq> Empty" s] by (simp add: node_ok_def slot_at_def)

lemma node_ok_put_slot:
  "node_ok n \<Longrightarrow> i < 64 \<Longrightarrow> slot_at n i \<noteq> Empty \<Longrightarrow> s \<noteq> Empty \<Longrightarrow> node_ok (put_slot i s n)"
  using node_ok_upd [of n i s] by (simp add: put_slot_def)

lemma node_ok_count_le: "node_ok n \<Longrightarrow> count n \<le> 64"
  using length_filter_le [of "\<lambda>s. s \<noteq> Empty" "slots n"] by (simp add: node_ok_def)

lemma node_ok_count_pos:
  assumes "node_ok n" "i < 64" "slot_at n i \<noteq> Empty"
  shows "count n > 0"
proof -
  have "slots n ! i \<in> set (filter (\<lambda>s. s \<noteq> Empty) (slots n))"
    using assms by (simp add: node_ok_def slot_at_def)
  then have "length (filter (\<lambda>s. s \<noteq> Empty) (slots n)) \<noteq> 0" by (metis length_0_conv list.set(1) empty_iff)
  then show ?thesis using assms(1) by (simp add: node_ok_def)
qed

lemma node_ok_empty_slot:
  assumes "node_ok n" "i < 64" "slot_at n i = Empty"
  shows "count n < 64"
proof -
  have "slots n ! i \<in> set (slots n)" using assms by (simp add: node_ok_def)
  then have "length (filter (\<lambda>s. s \<noteq> Empty) (slots n)) < length (slots n)"
    using assms(3) by (intro length_filter_less [of "slots n ! i"]) (simp_all add: slot_at_def)
  then show ?thesis using assms(1) by (simp add: node_ok_def)
qed

lemma slot_at_upd: "node_ok n \<Longrightarrow> i < 64 \<Longrightarrow> slot_at (RNode c ((slots n)[i := s])) j = (if j = i then s else slot_at n j)"
  by (simp add: slot_at_def node_ok_def nth_list_update)

lemma slot_at_in: "node_ok n \<Longrightarrow> i < 64 \<Longrightarrow> slot_at n i \<in> set (slots n)"
  by (simp add: slot_at_def node_ok_def)

lemma rt_wf_node_ok: "rt_wf l n \<Longrightarrow> node_ok n"
  by (cases l) auto

lemma rt_wf_iff: "rt_wf l n \<longleftrightarrow> node_ok n \<and> (\<forall>s\<in>set (slots n). case s of
    Empty \<Rightarrow> True | Leaf _ \<Rightarrow> l = 0 | Sub c \<Rightarrow> l > 0 \<and> rt_wf (l - 1) c)"
  by (cases l) (auto split: slot.splits)

lemma rt_wf_upd:
  assumes "rt_wf l n" "node_ok (RNode c ((slots n)[i := s]))"
    and "case s of Empty \<Rightarrow> True | Leaf _ \<Rightarrow> l = 0 | Sub c \<Rightarrow> l > 0 \<and> rt_wf (l - 1) c"
  shows "rt_wf l (RNode c ((slots n)[i := s]))"
  using assms set_update_subset_insert [of "slots n" i s]
  unfolding rt_wf_iff [of l] radix_tree_node.sel by blast

lemma empty_node_wf: "rt_wf l (RNode 0 (replicate 64 Empty))"
  by (cases l) (simp_all add: node_ok_def filter_replicate)

lemma empty_node_get:
  assumes "rt_wf l n" "count n = 0"
  shows "rt_get l i n = None"
proof -
  have "slot_at n (radix_tree_level_index i l) = Empty"
    using node_ok_count_pos [of n "radix_tree_level_index i l"] rt_wf_node_ok [OF assms(1)] assms(2)
    by force
  then show ?thesis by (cases l) simp_all
qed

lemma rt_wf_slot:
  assumes "rt_wf l n" "i < 64"
  shows "case slot_at n i of Empty \<Rightarrow> True | Leaf _ \<Rightarrow> l = 0 | Sub c \<Rightarrow> l > 0 \<and> rt_wf (l - 1) c"
  using assms slot_at_in [OF rt_wf_node_ok [OF assms(1)] assms(2)]
  unfolding rt_wf_iff [of l n] by blast

lemma find_parent_get:
  "rt_wf l n \<Longrightarrow> \<exists>p. radix_tree_find_parent l i n = Some p \<and>
     (case p of None \<Rightarrow> rt_get l i n = None
      | Some q \<Rightarrow> leaf_of (slot_at q (radix_tree_level_index i 0)) = Some (rt_get l i n))"
proof (induction l arbitrary: n)
  case 0
  then show ?case using rt_wf_slot [of 0 n "radix_tree_level_index i 0"]
    by (cases "slot_at n (radix_tree_level_index i 0)") (simp_all add: leaf_of_def del: rt_wf.simps)
next
  case (Suc l)
  then show ?case
  proof (cases "slot_at n (radix_tree_level_index i (Suc l))")
    case (Sub child)
    then have "rt_wf l child"
      using rt_wf_slot [OF Suc.prems, of "radix_tree_level_index i (Suc l)"] by simp
    moreover have get: "rt_get (Suc l) i n = rt_get l i child" using Sub by simp
    ultimately show ?thesis using Suc.IH [of child] Sub unfolding get by simp
  qed (use rt_wf_slot [OF Suc.prems, of "radix_tree_level_index i (Suc l)"] in simp_all)
qed

section \<open>Insertion and removal below a node\<close>

lemma add_child_empty:
  assumes "node_ok n" "i < 64" "slot_at n i = Empty" "s \<noteq> Empty"
  shows "radix_tree_add_child n i s = Some (ERR_OK, RNode (count n + 1) ((slots n)[i := s]))"
    and "node_ok (RNode (count n + 1) ((slots n)[i := s]))"
  using assms node_ok_empty_slot [OF assms(1-3)] node_ok_upd [OF assms(1,2), of s]
  by (simp_all add: radix_tree_add_child_def Let_def)

text \<open>The outcome of an insertion below a node, seen through lookups.\<close>

definition inserted ::
    "nat \<Rightarrow> int \<Rightarrow> 'v \<Rightarrow> 'v radix_tree_node \<Rightarrow> err \<Rightarrow> 'v radix_tree_node \<Rightarrow> bool" where
  "inserted l i v n er n' \<longleftrightarrow> rt_wf l n' \<and>
     (if er = ERR_OK then rt_get l i n = None
        \<and> (\<forall>j. rt_get l j n' = (if same_path l i j then Some v else rt_get l j n))
      else (er = ERR_RADIX_TREE_NODE_EXIST \<and> rt_get l i n \<noteq> None
            \<or> er = ERR_RADIX_TREE_ALLOC \<and> rt_get l i n = None)
        \<and> (\<forall>j. rt_get l j n' = rt_get l j n))"

lemma insert_leaf:
  assumes "rt_wf 0 n"
  shows "\<exists>er n'. radix_tree_add_child n (radix_tree_level_index i 0) (Leaf v) = Some (er, n')
           \<and> inserted 0 i v n er n' \<and> er \<noteq> ERR_RADIX_TREE_ALLOC"
proof (cases "slot_at n (radix_tree_level_index i 0) = Empty")
  case True
  note ok = rt_wf_node_ok [OF assms]
  note ac = add_child_empty [OF ok level_index_less True, of "Leaf v"]
  have "rt_wf 0 (RNode (count n + 1) ((slots n)[radix_tree_level_index i 0 := Leaf v]))"
    using ac by (intro rt_wf_upd [OF assms]) simp_all
  then show ?thesis
    using ac True by (auto simp: inserted_def slot_at_upd [OF ok] same_path_0 simp del: rt_wf.simps)
next
  case False
  then show ?thesis
    using assms rt_wf_slot [OF assms, of "radix_tree_level_index i 0"]
    by (cases "slot_at n (radix_tree_level_index i 0)")
      (auto simp: radix_tree_add_child_def inserted_def simp del: rt_wf.simps)
qed

lemma inserted_below:
  assumes wf: "rt_wf (Suc l) n" and ok: "node_ok (RNode c ((slots n)[li := Sub c']))"
    and li: "li = radix_tree_level_index i (Suc l)"
    and ins: "inserted l i v child er c'"
    and old: "\<And>j. radix_tree_level_index j (Suc l) = li \<Longrightarrow> rt_get (Suc l) j n = rt_get l j child"
  shows "inserted (Suc l) i v n er (RNode c ((slots n)[li := Sub c']))"
proof -
  have li64: "li < 64" by (simp add: li)
  have "rt_wf (Suc l) (RNode c ((slots n)[li := Sub c']))"
    using ins by (intro rt_wf_upd [OF wf ok]) (simp add: inserted_def)
  moreover have "rt_get (Suc l) j (RNode c ((slots n)[li := Sub c']))
      = (if radix_tree_level_index j (Suc l) = li then rt_get l j c' else rt_get (Suc l) j n)" for j
    by (simp add: slot_at_upd [OF rt_wf_node_ok [OF wf] li64])
  moreover have "rt_get (Suc l) i n = rt_get l i child" using old li by simp
  ultimately show ?thesis
    using ins old by (auto simp: inserted_def same_path_Suc li simp del: rt_wf.simps rt_get.simps)
qed

lemma inserted_fresh:
  "inserted l i v (RNode 0 (replicate 64 Empty)) er n' \<Longrightarrow> er \<noteq> ERR_RADIX_TREE_NODE_EXIST"
  by (auto simp: inserted_def empty_node_get [OF empty_node_wf])

lemma find_parent_alloc_insert:
  assumes "rt_wf l n"
  shows "\<exists>er n' oc'. radix_tree_find_parent_alloc l i
            (\<lambda>p. radix_tree_add_child p (radix_tree_level_index i 0) (Leaf v)) n oc = Some (er, n', oc')
          \<and> inserted l i v n er n' \<and> (length (takeWhile (\<lambda>b. b) oc) \<ge> l \<longrightarrow> er \<noteq> ERR_RADIX_TREE_ALLOC)"
  using assms
proof (induction l arbitrary: n oc)
  case 0
  then show ?case using insert_leaf [of n i v] by (auto simp: bind_Some_iff simp del: rt_wf.simps)
next
  case (Suc l)
  let ?li = "radix_tree_level_index i (Suc l)"
  note ok = rt_wf_node_ok [OF Suc.prems] and slot = rt_wf_slot [OF Suc.prems, of ?li]
  show ?case
  proof (cases "slot_at n ?li")
    case Empty
    show ?thesis
    proof (cases oc rule: radix_tree_node_create.cases)
      case (1 oc')
      let ?n1 = "RNode 0 (replicate 64 Empty)"
      note ac = add_child_empty [OF ok level_index_less Empty, of "Sub ?n1"]
      obtain er c' oc2 where r: "radix_tree_find_parent_alloc l i
            (\<lambda>p. radix_tree_add_child p (radix_tree_level_index i 0) (Leaf v)) ?n1 oc' = Some (er, c', oc2)"
          "inserted l i v ?n1 er c'"
          "length (takeWhile (\<lambda>b. b) oc') \<ge> l \<longrightarrow> er \<noteq> ERR_RADIX_TREE_ALLOC"
        using Suc.IH [OF empty_node_wf [of l]] by blast
      have "node_ok (RNode (count n + 1) ((slots n)[?li := Sub c']))"
        using add_child_empty(2) [OF ok level_index_less Empty, of "Sub c'"] by simp
      from inserted_below [OF Suc.prems this refl r(2)]
      have "inserted (Suc l) i v n er (RNode (count n + 1) ((slots n)[?li := Sub c']))"
        using Empty by (simp add: empty_node_get [OF empty_node_wf])
      then show ?thesis
        using 1 Empty r ac(1) by (simp add: Let_def put_slot_def)
    qed (use Empty Suc.prems in \<open>simp_all add: inserted_def\<close>)
  next
    case (Sub child)
    then have "rt_wf l child" using slot by simp
    then obtain er c' oc' where r: "radix_tree_find_parent_alloc l i
          (\<lambda>p. radix_tree_add_child p (radix_tree_level_index i 0) (Leaf v)) child oc = Some (er, c', oc')"
        "inserted l i v child er c'"
        "length (takeWhile (\<lambda>b. b) oc) \<ge> l \<longrightarrow> er \<noteq> ERR_RADIX_TREE_ALLOC"
      using Suc.IH by blast
    have "node_ok (RNode (count n) ((slots n)[?li := Sub c']))"
      using node_ok_put_slot [OF ok, of ?li "Sub c'"] Sub by (simp add: put_slot_def)
    from inserted_below [OF Suc.prems this refl r(2)]
    have "inserted (Suc l) i v n er (RNode (count n) ((slots n)[?li := Sub c']))"
      using Sub by simp
    then show ?thesis using Sub r by (simp add: Let_def put_slot_def)
  qed (use slot in simp)
qed

lemma clear_slot_ok:
  assumes "node_ok n" "i < 64" "slot_at n i \<noteq> Empty"
  shows "radix_tree_clear_slot n i = Some (count n = 1, RNode (count n - 1) ((slots n)[i := Empty]))"
    and "node_ok (RNode (count n - 1) ((slots n)[i := Empty]))"
  using assms node_ok_count_pos [OF assms] node_ok_upd [OF assms(1,2), of Empty]
  by (auto simp: radix_tree_clear_slot_def Let_def)

definition removed :: "nat \<Rightarrow> int \<Rightarrow> 'v radix_tree_node \<Rightarrow> bool \<Rightarrow> 'v radix_tree_node \<Rightarrow> bool" where
  "removed l i n freed n' \<longleftrightarrow> rt_wf l n' \<and> freed = (count n' = 0)
     \<and> (\<forall>j. rt_get l j n' = (if same_path l i j then None else rt_get l j n))"

lemma remove_up_removed:
  assumes "rt_wf l n" "rt_get l i n \<noteq> None"
  shows "\<exists>freed n'. radix_tree_remove_up l i n = Some (freed, n') \<and> removed l i n freed n'"
  using assms
proof (induction l arbitrary: n)
  case 0
  note ok = rt_wf_node_ok [OF "0.prems"(1)]
  have "slot_at n (radix_tree_level_index i 0) \<noteq> Empty" using "0.prems"(2) by auto
  note cs = clear_slot_ok [OF ok level_index_less this]
  have "rt_wf 0 (RNode (count n - 1) ((slots n)[radix_tree_level_index i 0 := Empty]))"
    using cs by (intro rt_wf_upd [OF "0.prems"(1)]) simp_all
  then show ?case
    using cs by (auto simp: removed_def slot_at_upd [OF ok] same_path_0 simp del: rt_wf.simps)
next
  case (Suc l)
  let ?li = "radix_tree_level_index i (Suc l)"
  note ok = rt_wf_node_ok [OF Suc.prems(1)] and slot = rt_wf_slot [OF Suc.prems(1), of ?li]
  obtain child where sub: "slot_at n ?li = Sub child" and "rt_get l i child \<noteq> None"
    using Suc.prems(2) by (auto split: slot.splits)
  then obtain freed c' where r: "radix_tree_remove_up l i child = Some (freed, c')" "removed l i child freed c'"
    using Suc.IH [of child] slot by auto
  have get: "rt_get (Suc l) j (RNode c ((slots n)[?li := s])) = (if radix_tree_level_index j (Suc l) = ?li
      then (case s of Sub d \<Rightarrow> rt_get l j d | _ \<Rightarrow> None) else rt_get (Suc l) j n)" for j c s
    by (simp add: slot_at_upd [OF ok])
  show ?case
  proof (cases freed)
    case True
    note cs = clear_slot_ok [OF ok level_index_less, of i "Suc l"]
    have "rt_get l j child = None" if "\<not> same_path l i j" for j
      using r(2) True that empty_node_get [of l c' j] by (simp add: removed_def)
    then have "removed (Suc l) i n (count n = 1) (RNode (count n - 1) ((slots n)[?li := Empty]))"
      using cs sub rt_wf_upd [OF Suc.prems(1) cs(2)] get
      by (auto simp: removed_def same_path_Suc simp del: rt_wf.simps split: slot.split)
    then show ?thesis using cs r sub True by (simp add: Let_def)
  next
    case False
    have "node_ok (put_slot ?li (Sub c') n)" using node_ok_put_slot [OF ok, of ?li "Sub c'"] sub by simp
    then have wf: "rt_wf (Suc l) (put_slot ?li (Sub c') n)" unfolding put_slot_def
      using r(2) by (intro rt_wf_upd [OF Suc.prems(1)]) (simp_all add: removed_def)
    have "slot_at (put_slot ?li (Sub c') n) ?li \<noteq> Empty" by (simp add: put_slot_def slot_at_upd [OF ok])
    then have "count (put_slot ?li (Sub c') n) > 0"
      by (rule node_ok_count_pos [OF rt_wf_node_ok [OF wf] level_index_less])
    then have "removed (Suc l) i n False (put_slot ?li (Sub c') n)"
      using wf r(2) sub get [where c = "count n"] unfolding removed_def put_slot_def
      by (auto simp: same_path_Suc simp del: rt_wf.simps)
    then show ?thesis using r sub False by (auto simp: Let_def)
  qed
qed

section \<open>The tree as a map\<close>

definition root_wf :: "'v radix_tree_root \<Rightarrow> bool" where
  "root_wf r \<longleftrightarrow> height r \<le> 5 \<and>
     (case root_node r of None \<Rightarrow> height r = 0 | Some n \<Rightarrow> height r > 0 \<and> rt_wf (height r - 1) n)"

definition rt_map :: "'v radix_tree_root \<Rightarrow> int \<Rightarrow> 'v option" where
  "rt_map r j = (case root_node r of None \<Rightarrow> None
     | Some n \<Rightarrow> if j < 64 ^ height r then rt_get (height r - 1) j n else None)"

lemma max_index_eq:
  assumes "0 < height r" "height r \<le> 5"
  shows "radix_tree_max_index r = 64 ^ height r - 1"
proof -
  have "height r = 1 \<or> height r = 2 \<or> height r = 3 \<or> height r = 4 \<or> height r = 5"
    using assms by linarith
  then show ?thesis
    by (elim disjE) (simp_all add: radix_tree_max_index_def push_bit_eq_mult)
qed

lemma lookup_map:
  assumes "root_wf r" "0 \<le> j"
  shows "radix_tree_lookup r j = Some (rt_map r j)"
proof (cases "root_node r")
  case None
  then show ?thesis using assms by (simp add: root_wf_def radix_tree_lookup_def rt_map_def)
next
  case (Some n)
  then have h: "0 < height r" "height r \<le> 5" "rt_wf (height r - 1) n"
    using assms by (simp_all add: root_wf_def)
  from find_parent_get [OF h(3), of j] show ?thesis
    using Some by (auto simp: radix_tree_lookup_def rt_map_def max_index_eq [OF h(1,2)] split: option.split)
qed

lemma high_digit:
  assumes "0 \<le> j" "j < 64 ^ Suc h"
  shows "radix_tree_level_index j h = 0 \<longleftrightarrow> j < 64 ^ h"
proof -
  have "j div 64 ^ h < 64"
  proof (rule ccontr)
    assume "\<not> j div 64 ^ h < 64"
    then have "64 ^ h * 64 \<le> 64 ^ h * (j div 64 ^ h)" by (intro mult_left_mono) simp_all
    moreover have "j = 64 ^ h * (j div 64 ^ h) + j mod 64 ^ h" by simp
    moreover have "0 \<le> j mod 64 ^ h" by simp
    ultimately show False using assms(2) unfolding power_Suc by linarith
  qed
  then have "j div 64 ^ h mod 64 = j div 64 ^ h"
    using assms by (simp add: pos_imp_zdiv_nonneg_iff)
  moreover have "0 \<le> j div 64 ^ h" using assms by (simp add: pos_imp_zdiv_nonneg_iff)
  ultimately have "radix_tree_level_index j h = 0 \<longleftrightarrow> j div 64 ^ h = 0"
    by (simp add: level_index_eq)
  then show ?thesis
    using assms zdiv_eq_0_iff [of j "64 ^ h"] by auto
qed

lemma add_level_map:
  assumes wf: "root_wf r" and h: "height r < 5"
  shows "\<exists>r'. radix_tree_add_level r (True # oc) = Some (ERR_OK, r', oc) \<and> root_wf r'
          \<and> height r' = Suc (height r) \<and> root_node r' \<noteq> None \<and> (\<forall>j\<ge>0. rt_map r' j = rt_map r j)"
proof (cases "root_node r")
  case None
  then show ?thesis
    using wf h empty_node_wf [of 0]
    by (simp add: radix_tree_add_level_def root_wf_def rt_map_def empty_node_get [OF empty_node_wf]
        del: rt_get.simps rt_wf.simps)
next
  case (Some old)
  let ?e = "RNode 0 (replicate 64 Empty)"
  let ?n = "RNode 1 ((slots ?e)[0 := Sub old])"
  have hw: "0 < height r" "rt_wf (height r - 1) old" using wf Some by (simp_all add: root_wf_def)
  have oke: "node_ok ?e" using empty_node_wf [of 0] by (rule rt_wf_node_ok)
  have e0: "slot_at ?e 0 = Empty" by (simp add: slot_at_def)
  note ac = add_child_empty [OF oke _ e0, of "Sub old"]
  have "rt_wf (height r) ?n"
    using ac(2) hw by (intro rt_wf_upd [OF empty_node_wf]) simp_all
  moreover have "rt_get (height r) j ?n = (if j < 64 ^ height r then rt_get (height r - 1) j old else None)"
    if "0 \<le> j" "j < 64 ^ Suc (height r)" for j
  proof -
    obtain h' where h': "height r = Suc h'" using hw(1) gr0_implies_Suc by blast
    have "slot_at ?n i = (if i = 0 then Sub old else Empty)" if "i < 64" for i
      using that slot_at_upd [OF oke, of 0 1 "Sub old" i] by (simp add: slot_at_def)
    then have "slot_at ?n (radix_tree_level_index j (height r))
        = (if radix_tree_level_index j (height r) = 0 then Sub old else Empty)"
      using level_index_less by blast
    then show ?thesis
      using high_digit [OF that] h' by simp
  qed
  moreover have "j < 64 ^ height r \<Longrightarrow> j < 64 ^ Suc (height r)" for j :: int
    using zero_less_power [of "64 :: int" "height r"] unfolding power_Suc by linarith
  ultimately show ?thesis
    using Some ac(1) h
    by (auto simp: radix_tree_add_level_def root_wf_def rt_map_def simp del: power_Suc)
qed

lemma grow_map:
  assumes "root_wf r" "0 \<le> i" "i < 64 ^ 5"
  shows "\<exists>er r' oc'. radix_tree_grow r i oc = Some (er, r', oc') \<and> root_wf r'
           \<and> (\<forall>j\<ge>0. rt_map r' j = rt_map r j)
           \<and> (er = ERR_OK \<and> i < 64 ^ height r' \<and> root_node r' \<noteq> None \<or> er = ERR_RADIX_TREE_ALLOC)
           \<and> (length (takeWhile (\<lambda>b. b) oc) + height r \<ge> 5 + k \<longrightarrow>
                er = ERR_OK \<and> length (takeWhile (\<lambda>b. b) oc') \<ge> k)"
  using assms
proof (induction r i oc rule: radix_tree_grow.induct)
  case (1 r i oc)
  show ?case
  proof (cases "i > radix_tree_max_index r")
    case False
    then have "0 < height r"
      using "1.prems"(2) by (cases "height r = 0") (auto simp: radix_tree_max_index_def)
    moreover then have "i < 64 ^ height r" "root_node r \<noteq> None"
      using False "1.prems"(1) max_index_eq [of r] by (auto simp: root_wf_def split: option.splits)
    ultimately show ?thesis
      using False "1.prems" by (simp add: radix_tree_grow.simps [of r i oc] root_wf_def)
  next
    case True
    have h: "height r < 5"
    proof (rule ccontr)
      assume "\<not> height r < 5"
      then have "height r = 5" using "1.prems"(1) by (simp add: root_wf_def)
      then show False using True "1.prems"(3) max_index_eq [of r] by simp
    qed
    show ?thesis
    proof (cases oc rule: radix_tree_node_create.cases)
      case (1 oc1)
      obtain r1 where r1: "radix_tree_add_level r oc = Some (ERR_OK, r1, oc1)" "root_wf r1"
          "height r1 = Suc (height r)" "\<forall>j\<ge>0. rt_map r1 j = rt_map r j"
        using add_level_map [OF "1.prems"(1) h, of oc1] 1 by blast
      note IH = "1.IH" [OF True r1(1) refl refl _ r1(2)]
      from IH "1.prems"(2,3) show ?thesis
        using True 1 r1 by (subst radix_tree_grow.simps) auto
    qed (subst radix_tree_grow.simps, use True h "1.prems" in \<open>simp add: radix_tree_add_level_def\<close>)+
  qed
qed

text \<open>An insertion, seen through the map: the three results of \<^verbatim>\<open>radix_tree_insert\<close>.\<close>

lemma insert_map:
  assumes "root_wf r" "0 \<le> i" "i < 2 ^ 30"
  shows "\<exists>er r' oc'. radix_tree_insert r i v oc = Some (er, r', oc') \<and> root_wf r'
           \<and> (er = ERR_OK \<and> rt_map r i = None \<and> (\<forall>j\<ge>0. rt_map r' j = (if j = i then Some v else rt_map r j))
              \<or> er = ERR_RADIX_TREE_NODE_EXIST \<and> rt_map r i \<noteq> None \<and> (\<forall>j\<ge>0. rt_map r' j = rt_map r j)
              \<or> er = ERR_RADIX_TREE_ALLOC \<and> (\<forall>j\<ge>0. rt_map r' j = rt_map r j))
           \<and> (length (takeWhile (\<lambda>b. b) oc) \<ge> 9 \<longrightarrow> er \<noteq> ERR_RADIX_TREE_ALLOC)"
proof -
  have "i < 64 ^ 5" using assms(3) by simp
  from grow_map [OF assms(1,2) this, where k = 4 and oc = oc]
  obtain e1 r1 oc1 where g: "radix_tree_grow r i oc = Some (e1, r1, oc1)" "root_wf r1"
      "\<forall>j\<ge>0. rt_map r1 j = rt_map r j"
      "e1 = ERR_OK \<and> i < 64 ^ height r1 \<and> root_node r1 \<noteq> None \<or> e1 = ERR_RADIX_TREE_ALLOC"
      "length (takeWhile (\<lambda>b. b) oc) + height r \<ge> 5 + 4 \<longrightarrow>
         e1 = ERR_OK \<and> length (takeWhile (\<lambda>b. b) oc1) \<ge> 4"
    by blast
  show ?thesis
  proof (cases "e1 = ERR_OK")
    case False
    then show ?thesis using g by (auto simp: radix_tree_insert_def)
  next
    case True
    then obtain n where n: "root_node r1 = Some n" and h: "i < 64 ^ height r1" using g(4) by auto
    then have hw: "0 < height r1" "height r1 \<le> 5" "rt_wf (height r1 - 1) n"
      using g(2) by (simp_all add: root_wf_def)
    from find_parent_alloc_insert [OF hw(3), of i v oc1]
    obtain er n' oc' where f: "radix_tree_find_parent_alloc (height r1 - 1) i
        (\<lambda>p. radix_tree_add_child p (radix_tree_level_index i 0) (Leaf v)) n oc1 = Some (er, n', oc')"
      "inserted (height r1 - 1) i v n er n'"
      "length (takeWhile (\<lambda>b. b) oc1) \<ge> height r1 - 1 \<longrightarrow> er \<noteq> ERR_RADIX_TREE_ALLOC" by blast
    let ?r = "r1\<lparr>root_node := Some n'\<rparr>"
    have ins: "radix_tree_insert r i v oc = Some (er, ?r, oc')"
      using True g(1) n f(1) by (simp add: radix_tree_insert_def)
    have wf: "root_wf ?r" using f(2) hw by (simp add: root_wf_def inserted_def)
    have eq: "same_path (height r1 - 1) i j \<longleftrightarrow> i = j" if "0 \<le> j" "j < 64 ^ height r1" for j
      using that hw(1) h assms(2) by (intro same_path_eq) simp_all
    have m1: "rt_map r1 j = (if j < 64 ^ height r1 then rt_get (height r1 - 1) j n else None)" for j
      by (simp add: rt_map_def n)
    have m2: "rt_map ?r j = (if j < 64 ^ height r1 then rt_get (height r1 - 1) j n' else None)" for j
      by (simp add: rt_map_def)
    have "er = ERR_OK \<and> rt_map r1 i = None
            \<and> (\<forall>j\<ge>0. rt_map ?r j = (if j = i then Some v else rt_map r1 j))
          \<or> er = ERR_RADIX_TREE_NODE_EXIST \<and> rt_map r1 i \<noteq> None \<and> (\<forall>j\<ge>0. rt_map ?r j = rt_map r1 j)
          \<or> er = ERR_RADIX_TREE_ALLOC \<and> (\<forall>j\<ge>0. rt_map ?r j = rt_map r1 j)"
      using f(2) eq h unfolding m1 m2 inserted_def by (auto split: if_splits)
    moreover have "length (takeWhile (\<lambda>b. b) oc) \<ge> 9 \<longrightarrow> er \<noteq> ERR_RADIX_TREE_ALLOC"
      using g(5) f(3) hw(2) by linarith
    ultimately show ?thesis using ins wf g(3) assms(2) by auto
  qed
qed

lemma remove_map:
  assumes "root_wf r" "0 \<le> i" "i \<le> radix_tree_max_index r"
  shows "\<exists>r'. radix_tree_remove r i = Some (rt_map r i, r') \<and> root_wf r'
           \<and> (\<forall>j\<ge>0. rt_map r' j = (if j = i then None else rt_map r j))"
proof (cases "root_node r")
  case None
  then show ?thesis using assms by (auto simp: radix_tree_remove_def rt_map_def)
next
  case (Some n)
  then have hw: "0 < height r" "height r \<le> 5" "rt_wf (height r - 1) n"
    using assms(1) by (simp_all add: root_wf_def)
  have h: "i < 64 ^ height r" using assms(3) max_index_eq [OF hw(1,2)] by simp
  have m: "rt_map r j = (if j < 64 ^ height r then rt_get (height r - 1) j n else None)" for j
    by (simp add: rt_map_def Some)
  from find_parent_get [OF hw(3), of i] obtain p where p:
      "radix_tree_find_parent (height r - 1) i n = Some p"
      "case p of None \<Rightarrow> rt_get (height r - 1) i n = None
       | Some q \<Rightarrow> leaf_of (slot_at q (radix_tree_level_index i 0)) = Some (rt_get (height r - 1) i n)"
    by blast
  show ?thesis
  proof (cases "rt_get (height r - 1) i n")
    case None
    then show ?thesis using p assms(1) Some m
      by (auto simp: radix_tree_remove_def split: option.splits)
  next
    case (Some v)
    then obtain q where q: "p = Some q" using p(2) by (cases p) auto
    obtain freed n' where u: "radix_tree_remove_up (height r - 1) i n = Some (freed, n')"
        "removed (height r - 1) i n freed n'"
      using remove_up_removed [OF hw(3)] Some by blast
    have eq: "same_path (height r - 1) i j \<longleftrightarrow> i = j" if "0 \<le> j" "j < 64 ^ height r" for j
      using that hw(1) h assms(2) by (intro same_path_eq) simp_all
    let ?r = "if freed then r\<lparr>root_node := None, height := 0\<rparr> else r\<lparr>root_node := Some n'\<rparr>"
    have "radix_tree_remove r i = Some (Some v, ?r)"
      using \<open>root_node r = Some n\<close> p q Some u(1) by (simp add: radix_tree_remove_def)
    moreover have "root_wf ?r" using u(2) hw by (simp add: root_wf_def removed_def)
    moreover have "rt_map ?r j = (if j = i then None else rt_map r j)" if "0 \<le> j" for j
      using u(2) eq that h m empty_node_get [of "height r - 1" n' j]
      by (auto simp: removed_def rt_map_def split: if_splits)
    ultimately show ?thesis using m h Some by auto
  qed
qed

lemma construct_wf: "root_wf radix_tree_construct" "rt_map radix_tree_construct j = None"
  by (simp_all add: root_wf_def radix_tree_construct_def rt_map_def)

section \<open>The interface its clients rely on\<close>

text \<open>
  What the trap table and the page cache use: a finite map on the indices below a bound, where a
  lookup never changes the table, an insertion reports whether it happened, and a removal is only
  called on an index that a lookup found.
\<close>

definition cached_get ::
    "('t \<Rightarrow> int \<Rightarrow> 'v option option) \<Rightarrow> ('t \<Rightarrow> int \<Rightarrow> 'v \<Rightarrow> bool list \<Rightarrow> (err \<times> 't \<times> bool list) option)
     \<Rightarrow> 'v option \<Rightarrow> 't \<Rightarrow> int \<Rightarrow> bool list \<Rightarrow> ('v option \<times> 't \<times> bool list) option" where
  "cached_get get ins fresh t i oc = do {
     x \<leftarrow> get t i;
     (case x of
        Some v \<Rightarrow> Some (Some v, t, oc)
      | None \<Rightarrow>
          (case fresh of
             None \<Rightarrow> Some (None, t, oc)
           | Some v \<Rightarrow> do {
               (er, t, oc) \<leftarrow> ins t i v oc;
               Some (if er = ERR_OK then Some v else None, t, oc)
             }))
   }"

locale index_map =
  fixes inv :: "'t \<Rightarrow> bool"
    and bound :: int
    and get :: "'t \<Rightarrow> int \<Rightarrow> 'v option option"
    and ins :: "'t \<Rightarrow> int \<Rightarrow> 'v \<Rightarrow> bool list \<Rightarrow> (err \<times> 't \<times> bool list) option"
    and del :: "'t \<Rightarrow> int \<Rightarrow> ('v option \<times> 't) option"
  assumes get_total: "inv t \<Longrightarrow> 0 \<le> i \<Longrightarrow> \<exists>x. get t i = Some x"
    and ins_law: "inv t \<Longrightarrow> 0 \<le> i \<Longrightarrow> i < bound \<Longrightarrow>
           \<exists>er t' oc'. ins t i v oc = Some (er, t', oc') \<and> inv t'
             \<and> (if er = ERR_OK then get t i = Some None
                  \<and> (\<forall>j\<ge>0. get t' j = (if j = i then Some (Some v) else get t j))
                else (\<forall>j\<ge>0. get t' j = get t j))"
    and del_law: "inv t \<Longrightarrow> 0 \<le> i \<Longrightarrow> get t i = Some (Some v) \<Longrightarrow>
           \<exists>t'. del t i = Some (Some v, t') \<and> inv t'
             \<and> (\<forall>j\<ge>0. get t' j = (if j = i then Some None else get t j))"
begin

lemma cached_get_law:
  assumes "inv t" "0 \<le> i" "i < bound"
  shows "\<exists>x t' oc'. cached_get get ins fresh t i oc = Some (x, t', oc') \<and> inv t'
           \<and> (\<forall>j\<ge>0. j \<noteq> i \<longrightarrow> get t' j = get t j)
           \<and> get t' i = Some x
           \<and> (\<forall>v. get t i = Some (Some v) \<longrightarrow> x = Some v \<and> t' = t)"
proof -
  obtain x where x: "get t i = Some x" using get_total assms by blast
  show ?thesis
  proof (cases x)
    case (Some v)
    then show ?thesis using x assms by (simp add: cached_get_def)
  next
    case None
    show ?thesis
    proof (cases fresh)
      case (Some v)
      from ins_law [OF assms, of v oc] show ?thesis
        using x \<open>x = None\<close> Some assms(2) by (auto simp: cached_get_def split: if_splits)
    qed (use x None assms in \<open>simp add: cached_get_def\<close>)
  qed
qed

lemma cached_get_twice:
  assumes "inv t" "0 \<le> i" "i < bound" "cached_get get ins fresh t i oc = Some (Some v, t', oc')"
  shows "cached_get get ins fresh' t' i oc2 = Some (Some v, t', oc2)"
  using cached_get_law [OF assms(1-3), of fresh oc] assms(4) by (auto simp: cached_get_def)

end

lemma lookup_iff: "root_wf r \<Longrightarrow> 0 \<le> j \<Longrightarrow> radix_tree_lookup r j = Some x \<longleftrightarrow> rt_map r j = x"
  by (auto simp: lookup_map)

lemma lookup_found_in_range:
  assumes "root_wf r" "0 \<le> i" "radix_tree_lookup r i = Some (Some v)"
  shows "i \<le> radix_tree_max_index r"
  using assms(3) by (auto simp: radix_tree_lookup_def split: if_splits)

interpretation rt: index_map root_wf "2 ^ 30" radix_tree_lookup radix_tree_insert radix_tree_remove
proof unfold_locales
  fix t :: "'v radix_tree_root" and i :: int and v :: 'v and oc :: "bool list"
  assume wf: "root_wf t" and i: "0 \<le> i"
  show "\<exists>x. radix_tree_lookup t i = Some x" using lookup_map [OF wf i] by blast
  show "\<exists>t'. radix_tree_remove t i = Some (Some v, t') \<and> root_wf t'
          \<and> (\<forall>j\<ge>0. radix_tree_lookup t' j = (if j = i then Some None else radix_tree_lookup t j))"
    if "radix_tree_lookup t i = Some (Some v)"
    using remove_map [OF wf i lookup_found_in_range [OF wf i that]] that lookup_map [OF wf i]
    by (auto simp: lookup_map wf)
  show "\<exists>er t' oc'. radix_tree_insert t i v oc = Some (er, t', oc') \<and> root_wf t'
          \<and> (if er = ERR_OK then radix_tree_lookup t i = Some None
               \<and> (\<forall>j\<ge>0. radix_tree_lookup t' j = (if j = i then Some (Some v) else radix_tree_lookup t j))
             else (\<forall>j\<ge>0. radix_tree_lookup t' j = radix_tree_lookup t j))"
    if "i < 2 ^ 30"
  proof -
    from insert_map [OF wf i that, of v oc] obtain er t' oc' where
      "radix_tree_insert t i v oc = Some (er, t', oc')" "root_wf t'"
      "if er = ERR_OK then rt_map t i = None \<and> (\<forall>j\<ge>0. rt_map t' j = (if j = i then Some v else rt_map t j))
       else (\<forall>j\<ge>0. rt_map t' j = rt_map t j)" by (auto 4 4)
    then show ?thesis by (intro exI [of _ er] exI [of _ t'] exI [of _ oc']) (auto simp: lookup_map wf i)
  qed
qed

section \<open>Properties\<close>

text \<open>C12: on a well formed tree and an index below 2 to the 30, \<^verbatim>\<open>radix_tree_insert\<close> returns without a
  failed assertion and keeps the tree well formed. It stores the leaf and answers ok exactly when
  the index was free and the nodes could be allocated; every other lookup is unchanged, and a
  refused insertion changes no lookup. Nine successful allocations are always enough.\<close>

theorem radix_tree_insert_correct:
  assumes "root_wf r" "0 \<le> i" "i < 2 ^ 30"
  shows "\<exists>er r' oc'. radix_tree_insert r i v oc = Some (er, r', oc') \<and> root_wf r'
     \<and> (er = ERR_OK \<and> radix_tree_lookup r i = Some None
          \<and> (\<forall>j\<ge>0. radix_tree_lookup r' j = (if j = i then Some (Some v) else radix_tree_lookup r j))
        \<or> er = ERR_RADIX_TREE_NODE_EXIST \<and> radix_tree_lookup r i \<noteq> Some None
          \<and> (\<forall>j\<ge>0. radix_tree_lookup r' j = radix_tree_lookup r j)
        \<or> er = ERR_RADIX_TREE_ALLOC \<and> (\<forall>j\<ge>0. radix_tree_lookup r' j = radix_tree_lookup r j))
     \<and> (length (takeWhile (\<lambda>b. b) oc) \<ge> 9 \<longrightarrow> er \<noteq> ERR_RADIX_TREE_ALLOC)"
proof -
  from insert_map [OF assms, of v oc] obtain er r' oc' where
    "radix_tree_insert r i v oc = Some (er, r', oc')" "root_wf r'"
    "er = ERR_OK \<and> rt_map r i = None \<and> (\<forall>j\<ge>0. rt_map r' j = (if j = i then Some v else rt_map r j))
     \<or> er = ERR_RADIX_TREE_NODE_EXIST \<and> rt_map r i \<noteq> None \<and> (\<forall>j\<ge>0. rt_map r' j = rt_map r j)
     \<or> er = ERR_RADIX_TREE_ALLOC \<and> (\<forall>j\<ge>0. rt_map r' j = rt_map r j)"
    "length (takeWhile (\<lambda>b. b) oc) \<ge> 9 \<longrightarrow> er \<noteq> ERR_RADIX_TREE_ALLOC" by blast
  then show ?thesis using assms by (auto simp: lookup_map)
qed

theorem radix_tree_insert_correct_witness:
  "\<exists>er r' oc'. radix_tree_insert radix_tree_construct 5000 (7 :: nat) (replicate 9 True) = Some (er, r', oc')
     \<and> er = ERR_OK \<and> radix_tree_lookup r' 5000 = Some (Some 7)"
  using radix_tree_insert_correct [of radix_tree_construct 5000 "7 :: nat" "replicate 9 True"]
    construct_wf(1) lookup_map [OF construct_wf(1), of 5000]
  by (auto simp: construct_wf)

text \<open>C19: removing an index that the tree can hold returns what a lookup returned before, passes every
  assertion on the way up, and leaves a well formed tree in which exactly that index is gone.\<close>

theorem radix_tree_remove_correct:
  assumes "root_wf r" "0 \<le> i" "i \<le> radix_tree_max_index r"
  shows "\<exists>x r'. radix_tree_lookup r i = Some x \<and> radix_tree_remove r i = Some (x, r') \<and> root_wf r'
     \<and> (\<forall>j\<ge>0. radix_tree_lookup r' j = (if j = i then Some None else radix_tree_lookup r j))"
  using remove_map [OF assms] assms by (auto simp: lookup_map)

lemma grow_one: "radix_tree_grow radix_tree_construct 5 [True]
    = Some (ERR_OK, \<lparr>height = 1, root_node = Some (RNode 0 (replicate 64 Empty))\<rparr>, [])"
  by (subst radix_tree_grow.simps, subst radix_tree_grow.simps)
    (simp add: radix_tree_max_index_def radix_tree_add_level_def radix_tree_construct_def push_bit_eq_mult)

definition one_leaf :: "char radix_tree_root" where
  "one_leaf = \<lparr>height = 1, root_node = Some (RNode 1 ((replicate 64 Empty)[5 := Leaf CHR ''a'']))\<rparr>"

lemma insert_one: "radix_tree_insert radix_tree_construct 5 CHR ''a'' [True] = Some (ERR_OK, one_leaf, [])"
  by (simp add: radix_tree_insert_def grow_one radix_tree_add_child_def level_index_eq slot_at_def
      one_leaf_def Let_def)

lemma one_leaf_wf: "root_wf one_leaf"
  using insert_map [OF construct_wf(1), of 5 "CHR ''a''" "[True]"] insert_one by auto

theorem radix_tree_remove_correct_witness:
  "\<exists>x r'. radix_tree_lookup one_leaf 5 = Some x \<and> radix_tree_remove one_leaf 5 = Some (x, r') \<and> root_wf r'
     \<and> (\<forall>j\<ge>0. radix_tree_lookup r' j = (if j = 5 then Some None else radix_tree_lookup one_leaf j))"
  by (rule radix_tree_remove_correct [OF one_leaf_wf])
    (simp_all add: radix_tree_max_index_def one_leaf_def push_bit_eq_mult)

text \<open>\<^verbatim>\<open>radix_tree_remove\<close> has no range check. On a tree that holds only index 5, a lookup of index 69
  answers null, but removing index 69 removes and returns the leaf of index 5.\<close>

theorem radix_tree_remove_aliases:
  "radix_tree_insert radix_tree_construct 5 CHR ''a'' [True] = Some (ERR_OK, one_leaf, [])
   \<and> radix_tree_lookup one_leaf 69 = Some None
   \<and> radix_tree_remove one_leaf 69 = Some (Some CHR ''a'', radix_tree_construct)"
proof (intro conjI)
  show "radix_tree_lookup one_leaf 69 = Some None"
    by (simp add: radix_tree_lookup_def radix_tree_max_index_def one_leaf_def push_bit_eq_mult)
  show "radix_tree_remove one_leaf 69 = Some (Some CHR ''a'', radix_tree_construct)"
    by (simp add: radix_tree_remove_def one_leaf_def level_index_eq slot_at_def leaf_of_def
        radix_tree_clear_slot_def Let_def radix_tree_construct_def)
qed (rule insert_one)

end
