(* ===== verification/Traps.thy ===== *)
theory Traps
  imports Radix_Tree
begin

text \<open>
  Trap dispatch (\<^verbatim>\<open>kernel/trap.c\<close>), the timer tick (\<^verbatim>\<open>kernel/timer.c\<close>), the nesting of interrupt levels
  (\<^verbatim>\<open>arch/x86_64/kernel/trap.c\<close>) and the system call arguments in a trap frame
  (\<^verbatim>\<open>arch/x86_64/kernel/syscall.c\<close>).

  The handler table is the radix tree of \<open>Radix_Tree\<close>; its laws reach this theory through the
  interpretation \<open>rt\<close>. A table entry is stored by value in its leaf, as the table owns it from
  registration to removal. A handler is a function on the machine state. The \<^verbatim>\<open>table_lock\<close> makes
  each access to the table one step.
\<close>

section \<open>The handler table\<close>

abbreviation (input) ERR_TRAP_REG_FAIL :: err where "ERR_TRAP_REG_FAIL \<equiv> 1"
abbreviation (input) ERR_TRAP_NOT_FOUND :: err where "ERR_TRAP_NOT_FOUND \<equiv> 2"

abbreviation (input) T_PF :: u32 where "T_PF \<equiv> 14"
abbreviation (input) T_IRQ_TIMER :: u32 where "T_IRQ_TIMER \<equiv> 32"
abbreviation (input) T_SYSCALL :: u32 where "T_SYSCALL \<equiv> 64"

record ('d, 's) table_entry =
  dev :: 'd
  handler :: "u32 \<Rightarrow> 'd \<Rightarrow> 's \<Rightarrow> 's"

type_synonym ('d, 's) trap_table = "('d, 's) table_entry radix_tree_root"

text \<open>An \<^verbatim>\<open>irq_t\<close> is unsigned, the index of the radix tree a signed \<^verbatim>\<open>int\<close>.\<close>

definition irq_index :: "u32 \<Rightarrow> int" where
  "irq_index irq = sint irq"

text \<open>The first outcome is that of \<^verbatim>\<open>kmem_cache_alloc(entry_allocator)\<close>, the rest are for the tree.\<close>

definition trap_register_handler ::
    "u32 \<Rightarrow> 'd \<Rightarrow> (u32 \<Rightarrow> 'd \<Rightarrow> 's \<Rightarrow> 's) \<Rightarrow> bool \<Rightarrow> ('d, 's) trap_table \<Rightarrow> bool list
     \<Rightarrow> (err \<times> ('d, 's) trap_table \<times> bool list) option" where
  "trap_register_handler irq d hnd entry_ok table oc =
     (if \<not> entry_ok then Some (ERR_TRAP_REG_FAIL, table, oc)
      else do {
        (er, table, oc) \<leftarrow> radix_tree_insert table (irq_index irq) \<lparr>dev = d, handler = hnd\<rparr> oc;
        Some (if er = ERR_OK then ERR_OK else ERR_TRAP_REG_FAIL, table, oc)
      })"

definition trap_unregister_handler ::
    "u32 \<Rightarrow> ('d, 's) trap_table \<Rightarrow> (err \<times> ('d, 's) trap_table) option" where
  "trap_unregister_handler irq table = do {
     entry \<leftarrow> radix_tree_lookup table (irq_index irq);
     (case entry of
        Some _ \<Rightarrow> do {
          (_, table) \<leftarrow> radix_tree_remove table (irq_index irq);
          Some (ERR_OK, table)
        }
      | None \<Rightarrow> Some (ERR_TRAP_NOT_FOUND, table))
   }"

definition trap_invoke_handler :: "u32 \<Rightarrow> ('d, 's) trap_table \<Rightarrow> 's \<Rightarrow> (err \<times> 's) option" where
  "trap_invoke_handler irq table s = do {
     entry \<leftarrow> radix_tree_lookup table (irq_index irq);
     (case entry of
        Some e \<Rightarrow> Some (ERR_OK, handler e irq (dev e) s)
      | None \<Rightarrow> Some (ERR_TRAP_NOT_FOUND, s))
   }"

record trapframe =
  rax :: u64
  rbx :: u64
  rcx :: u64
  rdx :: u64
  rbp :: u64
  rsi :: u64
  rdi :: u64
  r8 :: u64
  r9 :: u64
  r10 :: u64
  r11 :: u64
  r12 :: u64
  r13 :: u64
  r14 :: u64
  r15 :: u64
  trapnum :: u64
  tf_err :: u64
  rip :: u64
  tf_cs :: u64
  rflags :: u64
  rsp :: u64
  tf_ss :: u64

text \<open>The common trap entry: an interrupt nobody registered is only acknowledged.\<close>

definition trap :: "('s \<Rightarrow> 's) \<Rightarrow> ('d, 's) trap_table \<Rightarrow> trapframe \<Rightarrow> 's \<Rightarrow> 's option" where
  "trap notify table tf s = do {
     (er, s) \<leftarrow> trap_invoke_handler (ucast (trapnum tf)) table s;
     Some (if er = ERR_TRAP_NOT_FOUND then notify s else s)
   }"

text \<open>The pre-defined handlers, in the order of \<^verbatim>\<open>trap_sys_init\<close>; a failed registration panics.\<close>

definition trap_sys_init ::
    "'d \<Rightarrow> (u32 \<Rightarrow> 'd \<Rightarrow> 's \<Rightarrow> 's) \<Rightarrow> (u32 \<Rightarrow> 'd \<Rightarrow> 's \<Rightarrow> 's) \<Rightarrow> (u32 \<Rightarrow> 'd \<Rightarrow> 's \<Rightarrow> 's)
     \<Rightarrow> bool list \<Rightarrow> (('d, 's) trap_table \<times> bool list) option" where
  "trap_sys_init null timer sysc pgf oc = do {
     (er, table, oc) \<leftarrow> trap_register_handler T_IRQ_TIMER null timer True radix_tree_construct oc;
     kassert (er = ERR_OK);
     (er, table, oc) \<leftarrow> trap_register_handler T_SYSCALL null sysc True table oc;
     kassert (er = ERR_OK);
     (er, table, oc) \<leftarrow> trap_register_handler T_PF null pgf True table oc;
     kassert (er = ERR_OK);
     Some (table, oc)
   }"

section \<open>Interrupt levels\<close>

datatype intr = INTR_ON | INTR_OFF

record x86_64_cpu =
  eflags_if :: bool
  num_disabled :: int
  intr_enabled :: bool

definition intr_get_level :: "x86_64_cpu \<Rightarrow> intr" where
  "intr_get_level c = (if eflags_if c then INTR_ON else INTR_OFF)"

definition intr_set_level :: "intr \<Rightarrow> x86_64_cpu \<Rightarrow> (intr \<times> x86_64_cpu) option" where
  "intr_set_level level c =
     (let current_level = intr_get_level c in
      if level = INTR_ON then do {
        kassert (current_level = INTR_OFF);
        (if num_disabled c = 0 then Some (current_level, c\<lparr>eflags_if := True\<rparr>)
         else
           let c = (if num_disabled c > 0 then c\<lparr>num_disabled := num_disabled c - 1\<rparr> else c);
               c = (if num_disabled c = 0 \<and> intr_enabled c then c\<lparr>eflags_if := True\<rparr> else c)
           in Some (current_level, c))
      }
      else
        let c = c\<lparr>eflags_if := False\<rparr>;
            c = (if num_disabled c = 0 then c\<lparr>intr_enabled := (current_level = INTR_ON)\<rparr> else c)
        in Some (current_level, c\<lparr>num_disabled := num_disabled c + 1\<rparr>))"

primrec run_levels :: "intr list \<Rightarrow> x86_64_cpu \<Rightarrow> x86_64_cpu option" where
  "run_levels [] c = Some c"
| "run_levels (l # ls) c = do { (_, c) \<leftarrow> intr_set_level l c; run_levels ls c }"

text \<open>Well bracketed sequences: every enable closes an earlier disable.\<close>

fun bracketed :: "nat \<Rightarrow> intr list \<Rightarrow> bool" where
  "bracketed d [] \<longleftrightarrow> d = 0"
| "bracketed d (INTR_OFF # ls) \<longleftrightarrow> bracketed (Suc d) ls"
| "bracketed 0 (INTR_ON # ls) \<longleftrightarrow> False"
| "bracketed (Suc d) (INTR_ON # ls) \<longleftrightarrow> bracketed d ls"

section \<open>System call arguments and the timer\<close>

definition fetch_arg :: "trapframe \<Rightarrow> int \<Rightarrow> u64 option" where
  "fetch_arg tf n =
     (if n = 1 then Some (rdi tf) else if n = 2 then Some (rsi tf) else if n = 3 then Some (rdx tf)
      else if n = 4 then Some (rcx tf) else if n = 5 then Some (r8 tf) else if n = 6 then Some (r9 tf)
      else None)"

definition tf_set_return :: "u64 \<Rightarrow> trapframe \<Rightarrow> trapframe" where
  "tf_set_return retval tf = tf\<lparr>rax := retval\<rparr>"

definition x86_64_syscall_trap_handler ::
    "(int \<Rightarrow> trapframe \<Rightarrow> u64) \<Rightarrow> u32 \<Rightarrow> trapframe \<Rightarrow> trapframe option" where
  "x86_64_syscall_trap_handler syscall irq tf = do {
     kassert (irq = T_SYSCALL);
     Some (tf\<lparr>rax := syscall (sint (ucast (rax tf) :: u32)) tf\<rparr>)
   }"

section \<open>Lemmas\<close>

lemma irq_index_range: "unat irq < 2 ^ 30 \<Longrightarrow> 0 \<le> irq_index irq \<and> irq_index irq < 2 ^ 30"
proof -
  assume "unat irq < 2 ^ 30"
  then have u: "0 \<le> uint irq" "uint irq < 2 ^ 30" using uint_less_of_unat [of irq "2 ^ 30"] by simp_all
  have "- (2 ^ 31) \<le> uint irq" by (rule order_trans [OF _ u(1)]) simp
  then have "signed_take_bit 31 (uint irq) = uint irq"
    using u(2) by (intro signed_take_bit_int_eq_self) simp_all
  then show ?thesis using u by (simp add: irq_index_def sint_uint)
qed

lemma irq_index_inj: "irq_index a = irq_index b \<longleftrightarrow> a = b"
  by (auto simp: irq_index_def intro: signed_word_eqI)

text \<open>A table is ready for an interrupt number when dispatching it calls a known entry.\<close>

definition registered :: "('d, 's) trap_table \<Rightarrow> u32 \<Rightarrow> ('d, 's) table_entry option" where
  "registered table irq =
     (case radix_tree_lookup table (irq_index irq) of Some x \<Rightarrow> x | None \<Rightarrow> None)"

lemma invoke_registered:
  assumes "root_wf table" "unat irq < 2 ^ 30"
  shows "trap_invoke_handler irq table s = Some (case registered table irq of
           Some e \<Rightarrow> (ERR_OK, handler e irq (dev e) s) | None \<Rightarrow> (ERR_TRAP_NOT_FOUND, s))"
  using rt.get_total [OF assms(1)] irq_index_range [OF assms(2)]
  by (fastforce simp: trap_invoke_handler_def registered_def split: option.split)

lemma lookup_registered:
  "root_wf table \<Longrightarrow> unat irq < 2 ^ 30 \<Longrightarrow> radix_tree_lookup table (irq_index irq) = Some (registered table irq)"
  using rt.get_total [of table] irq_index_range [of irq] by (fastforce simp: registered_def)

lemma register_law:
  assumes "root_wf table" "unat irq < 2 ^ 30"
  shows "\<exists>er table' oc'. trap_register_handler irq d h ok table oc = Some (er, table', oc') \<and> root_wf table'
     \<and> (er = ERR_OK \<and> registered table irq = None
          \<and> (\<forall>i. unat i < 2 ^ 30 \<longrightarrow> registered table' i =
               (if i = irq then Some \<lparr>dev = d, handler = h\<rparr> else registered table i))
        \<or> er = ERR_TRAP_REG_FAIL \<and> (\<forall>i. unat i < 2 ^ 30 \<longrightarrow> registered table' i = registered table i))"
proof (cases ok)
  case False
  then show ?thesis using assms by (simp add: trap_register_handler_def)
next
  case True
  note ir = irq_index_range [OF assms(2)]
  from rt.ins_law [OF assms(1), of "irq_index irq" "\<lparr>dev = d, handler = h\<rparr>" oc] ir
  obtain er t' oc' where r: "radix_tree_insert table (irq_index irq) \<lparr>dev = d, handler = h\<rparr> oc = Some (er, t', oc')"
    "root_wf t'"
    "if er = ERR_OK then radix_tree_lookup table (irq_index irq) = Some None
       \<and> (\<forall>j\<ge>0. radix_tree_lookup t' j = (if j = irq_index irq then Some (Some \<lparr>dev = d, handler = h\<rparr>)
                                          else radix_tree_lookup table j))
     else (\<forall>j\<ge>0. radix_tree_lookup t' j = radix_tree_lookup table j)" by blast
  then show ?thesis
    using True irq_index_range
    by (auto simp: trap_register_handler_def registered_def irq_index_inj split: if_splits)
qed

lemma unregister_law:
  assumes "root_wf table" "unat irq < 2 ^ 30"
  shows "\<exists>er table'. trap_unregister_handler irq table = Some (er, table') \<and> root_wf table'
     \<and> er = (if registered table irq = None then ERR_TRAP_NOT_FOUND else ERR_OK)
     \<and> (\<forall>i. unat i < 2 ^ 30 \<longrightarrow> registered table' i = (if i = irq then None else registered table i))"
proof (cases "registered table irq")
  case None
  then show ?thesis
    using assms by (auto simp: trap_unregister_handler_def lookup_registered)
next
  case (Some e)
  note ir = irq_index_range [OF assms(2)]
  obtain t' where t': "radix_tree_remove table (irq_index irq) = Some (Some e, t')" "root_wf t'"
      "\<forall>j\<ge>0. radix_tree_lookup t' j = (if j = irq_index irq then Some None else radix_tree_lookup table j)"
    using rt.del_law [OF assms(1), of "irq_index irq" e] ir lookup_registered [OF assms] Some by auto
  have "registered t' i = (if i = irq then None else registered table i)" if "unat i < 2 ^ 30" for i
    using t'(3) irq_index_range [OF that] by (simp add: registered_def irq_index_inj)
  then show ?thesis
    using Some t'(1,2) lookup_registered [OF assms] by (simp add: trap_unregister_handler_def)
qed

text \<open>Inside a bracketed section the flag is off and the depth counts the open disables.\<close>

lemma run_levels_bracketed:
  assumes "bracketed d ls"
    and "num_disabled c = n0 + int d" "0 \<le> n0" "0 < d \<Longrightarrow> \<not> eflags_if c \<and> (n0 = 0 \<longrightarrow> intr_enabled c = f0)"
    and "d = 0 \<Longrightarrow> eflags_if c = f0" "0 < n0 \<Longrightarrow> \<not> f0"
  shows "\<exists>c'. run_levels ls c = Some c' \<and> num_disabled c' = n0 \<and> eflags_if c' = f0"
  using assms
proof (induction d ls arbitrary: c rule: bracketed.induct)
  case (2 d ls)
  let ?c = "snd (the (intr_set_level INTR_OFF c))"
  have "\<exists>c'. run_levels ls ?c = Some c' \<and> num_disabled c' = n0 \<and> eflags_if c' = f0"
    using "2.prems" by (intro "2.IH") (auto simp: intr_set_level_def intr_get_level_def Let_def)
  then show ?case by (simp add: intr_set_level_def Let_def)
next
  case (4 d ls)
  let ?c = "snd (the (intr_set_level INTR_ON c))"
  have k: "intr_set_level INTR_ON c \<noteq> None"
    using "4.prems" by (auto simp: intr_set_level_def intr_get_level_def Let_def)
  have "\<exists>c'. run_levels ls ?c = Some c' \<and> num_disabled c' = n0 \<and> eflags_if c' = f0"
    using "4.prems" by (intro "4.IH") (auto simp: intr_set_level_def intr_get_level_def Let_def)
  then show ?case using k by (auto simp: case_prod_beta)
qed auto

section \<open>Properties\<close>

text \<open>C28: dispatch follows registration. On a well formed table, registering a handler for a free
  interrupt number makes the next trap on that number run this handler with its device; a second
  registration is refused and changes nothing; unregistering makes the number unknown again; and
  every other number is dispatched as before.\<close>

theorem trap_dispatch:
  assumes wf: "root_wf table" and irq: "unat irq < 2 ^ 30"
    and reg: "trap_register_handler irq d h True table oc = Some (ERR_OK, table', oc')"
  shows "trap_invoke_handler irq table' s = Some (ERR_OK, h irq d s)
     \<and> (\<forall>i. unat i < 2 ^ 30 \<longrightarrow> i \<noteq> irq \<longrightarrow> trap_invoke_handler i table' s = trap_invoke_handler i table s)
     \<and> (\<exists>t2 oc2. trap_register_handler irq d2 h2 True table' oc' = Some (ERR_TRAP_REG_FAIL, t2, oc2)
          \<and> trap_invoke_handler irq t2 s = Some (ERR_OK, h irq d s))
     \<and> (\<exists>t3. trap_unregister_handler irq table' = Some (ERR_OK, t3) \<and> root_wf t3
          \<and> trap_invoke_handler irq t3 s = Some (ERR_TRAP_NOT_FOUND, s))"
proof -
  have wf': "root_wf table'" and r: "registered table' irq = Some \<lparr>dev = d, handler = h\<rparr>"
    and o: "\<And>i. unat i < 2 ^ 30 \<Longrightarrow> i \<noteq> irq \<Longrightarrow> registered table' i = registered table i"
    using register_law [OF wf irq, of d h True oc] reg irq by auto
  show ?thesis
    using register_law [OF wf' irq, of d2 h2 True oc'] unregister_law [OF wf' irq] r o irq wf wf'
    by (auto simp: invoke_registered)
qed

definition one_handler :: "(unit, nat) trap_table" where
  "one_handler = \<lparr>height = 1, root_node = Some (RNode 1
     ((replicate 64 Empty)[5 := Leaf \<lparr>dev = (), handler = (\<lambda>_ _ s. s + 1)\<rparr>]))\<rparr>"

lemma register_one:
  "trap_register_handler 5 () (\<lambda>_ _ s. s + 1) True radix_tree_construct [True] = Some (ERR_OK, one_handler, [])"
  by (simp add: trap_register_handler_def irq_index_def radix_tree_insert_def grow_one
      radix_tree_add_child_def level_index_eq slot_at_def one_handler_def Let_def)

theorem trap_dispatch_witness:
  "trap_invoke_handler 5 one_handler 41 = Some (ERR_OK, 42)
   \<and> (\<exists>t3. trap_unregister_handler 5 one_handler = Some (ERR_OK, t3) \<and> root_wf t3
        \<and> trap_invoke_handler 5 t3 41 = Some (ERR_TRAP_NOT_FOUND, 41))"
  using trap_dispatch [OF construct_wf(1) _ register_one, of 41] by simp

text \<open>disabling and enabling interrupts nests. Any well bracketed sequence of
  \<^verbatim>\<open>intr_set_level\<close> calls passes its assertions and restores both the nesting depth and the
  interrupt flag, provided interrupts are off wherever the depth is positive.\<close>

theorem intr_levels_nest:
  assumes "bracketed 0 ls" "0 \<le> num_disabled c" "0 < num_disabled c \<longrightarrow> \<not> eflags_if c"
  shows "\<exists>c'. run_levels ls c = Some c' \<and> num_disabled c' = num_disabled c \<and> eflags_if c' = eflags_if c"
  using run_levels_bracketed [OF assms(1), of c "num_disabled c" "eflags_if c"] assms by auto

theorem intr_levels_nest_witness:
  "\<exists>c'. run_levels [INTR_OFF, INTR_OFF, INTR_ON, INTR_OFF, INTR_ON, INTR_ON]
      \<lparr>eflags_if = True, num_disabled = 0, intr_enabled = False\<rparr> = Some c'
    \<and> num_disabled c' = 0 \<and> eflags_if c'"
  using intr_levels_nest [of "[INTR_OFF, INTR_OFF, INTR_ON, INTR_OFF, INTR_ON, INTR_ON]"
      "\<lparr>eflags_if = True, num_disabled = 0, intr_enabled = False\<rparr>"] by simp

end
