(* ===== verification/Pipes.thy ===== *)
theory Pipes
  imports Prelude
begin

text \<open>
  Pipes (\<^verbatim>\<open>kernel/pipe.c\<close>) and the byte queue under them (\<^verbatim>\<open>kernel/bbq.c\<close>).

  The queue is the ring buffer of the source: an array of 512 bytes and two positions. The lock of
  the queue makes an insertion or a removal one step; a call that would wait on a condition variable
  is the outcome \<open>Blocked\<close>, which leaves the state alone. The abstraction \<open>contents\<close> is the slice of
  the ring from \<^verbatim>\<open>front\<close> to \<^verbatim>\<open>next_empty\<close>. The interface of a byte channel is the locale \<open>byte_channel\<close>.
\<close>

section \<open>The queue\<close>

abbreviation (input) MAX_SIZE :: nat where "MAX_SIZE \<equiv> 512"

record bbq =
  items :: "u8 list"
  front :: nat
  next_empty :: nat

fun insert_loop :: "u8 list \<Rightarrow> bbq \<Rightarrow> bbq" where
  "insert_loop [] q = q"
| "insert_loop (c # cs) q =
     (let q = q\<lparr>items := (items q)[next_empty q := c], next_empty := (next_empty q + 1) mod MAX_SIZE\<rparr> in
      if front q = next_empty q then q else insert_loop cs q)"

definition bbq_insert :: "u8 list \<Rightarrow> int \<Rightarrow> bbq \<Rightarrow> bbq outcome" where
  "bbq_insert item cnt q =
     (if int (next_empty q) - int (front q) = int MAX_SIZE then Blocked
      else Ret (insert_loop (take (nat cnt) item) q))"

text \<open>The copy loop, with the number of bytes still wanted.\<close>

fun remove_loop :: "nat \<Rightarrow> bbq \<Rightarrow> u8 list \<times> bbq" where
  "remove_loop 0 q = ([], q)"
| "remove_loop (Suc n) q =
     (if front q \<noteq> next_empty q then
        (let c = items q ! front q; q = q\<lparr>front := (front q + 1) mod MAX_SIZE\<rparr>;
             (cs, q) = remove_loop n q
         in (c # cs, q))
      else ([], q))"

definition bbq_remove :: "int \<Rightarrow> bool \<Rightarrow> bbq \<Rightarrow> (u8 list \<times> bbq) outcome" where
  "bbq_remove cnt remaining_buf q =
     (if remaining_buf then Ret (remove_loop (nat cnt) q)
      else if front q = next_empty q then Blocked
      else Ret (remove_loop (nat cnt) q))"

text \<open>\<open>cache_ok\<close>: the cache of queues exists or could be created; \<open>obj_ok\<close>: it had an object. The bytes of a fresh queue are whatever the
  allocator left there.\<close>

definition bbq_init :: "bool \<Rightarrow> bool \<Rightarrow> u8 list \<Rightarrow> bbq option" where
  "bbq_init cache_ok obj_ok garbage =
     (if \<not> cache_ok then None
      else if \<not> obj_ok then None
      else Some \<lparr>items = garbage, front = 0, next_empty = 0\<rparr>)"

section \<open>The pipe\<close>

record pipe =
  write_end_status :: bool
  read_end_status :: bool
  pbbq :: "bbq option"

abbreviation (input) FS_RDONLY :: nat where "FS_RDONLY \<equiv> 0"
abbreviation (input) FS_WRONLY :: nat where "FS_WRONLY \<equiv> 1"

definition int_of_size :: "u64 \<Rightarrow> int" where
  "int_of_size n = sint (ucast n :: u32)"

text \<open>Results: the bytes put in the caller's buffer, whose number is the value returned. A pipe whose
  queue has been freed is used after free, and one whose queue could not be allocated has a null pointer; both are \<open>None\<close>.\<close>

definition pipe_read :: "u64 \<Rightarrow> pipe \<Rightarrow> (u8 list \<times> pipe) outcome option" where
  "pipe_read cnt p = do {
     q \<leftarrow> pbbq p;
     Some (case bbq_remove (int_of_size cnt) (\<not> write_end_status p) q of
             Blocked \<Rightarrow> Blocked
           | Ret (bs, q) \<Rightarrow> Ret (bs, p\<lparr>pbbq := Some q\<rparr>))
   }"

definition pipe_write :: "u8 list \<Rightarrow> u64 \<Rightarrow> pipe \<Rightarrow> (int \<times> pipe) outcome option" where
  "pipe_write buf cnt p =
     (if \<not> read_end_status p then Some (Ret (ERR_END, p))
      else do {
        q \<leftarrow> pbbq p;
        Some (case bbq_insert buf (int_of_size cnt) q of
                Blocked \<Rightarrow> Blocked
              | Ret q \<Rightarrow> Ret (sint cnt, p\<lparr>pbbq := Some q\<rparr>))
      })"

definition pipe_close :: "nat \<Rightarrow> pipe \<Rightarrow> pipe option" where
  "pipe_close oflag p =
     (let p = (if oflag = FS_RDONLY then p\<lparr>read_end_status := False\<rparr> else p\<lparr>write_end_status := False\<rparr>) in
      if \<not> read_end_status p \<and> \<not> write_end_status p
      then do { _ \<leftarrow> pbbq p; Some (p\<lparr>pbbq := None\<rparr>) }
      else Some p)"

text \<open>Both ends of a new pipe; \<^verbatim>\<open>None\<close> stands for \<^verbatim>\<open>ERR_NOMEM\<close> from the first allocation. The result of \<^verbatim>\<open>bbq_init\<close> is not tested. The
  source allocates the size of a pointer for the structure, which is too small for it; the model gives it the room it needs.\<close>

definition pipe_init :: "bool \<Rightarrow> bool \<Rightarrow> bool \<Rightarrow> u8 list \<Rightarrow> pipe option" where
  "pipe_init info_ok cache_ok obj_ok garbage =
     (if \<not> info_ok then None
      else Some \<lparr>write_end_status = True, read_end_status = True, pbbq = bbq_init cache_ok obj_ok garbage\<rparr>)"

section \<open>The slice of the ring\<close>

definition bbq_wf :: "bbq \<Rightarrow> bool" where
  "bbq_wf q \<longleftrightarrow> length (items q) = 512 \<and> front q < 512 \<and> next_empty q < 512"

definition used :: "bbq \<Rightarrow> nat" where
  "used q = (next_empty q + 512 - front q) mod 512"

definition contents :: "bbq \<Rightarrow> u8 list" where
  "contents q = map (\<lambda>k. items q ! ((front q + k) mod 512)) [0..<used q]"

lemma wrap: "x < 1024 \<Longrightarrow> x mod 512 = (if x < 512 then x else x - 512)" for x :: nat
  by (simp add: le_mod_geq)

lemma length_contents [simp]: "length (contents q) = used q"
  by (simp add: contents_def)

lemma used_less: "used q < 512"
  by (simp add: used_def)

lemma used_0: "bbq_wf q \<Longrightarrow> used q = 0 \<longleftrightarrow> front q = next_empty q"
proof -
  assume "bbq_wf q"
  then have "next_empty q + 512 - front q < 1024" "front q < 512" by (auto simp: bbq_wf_def)
  then show ?thesis unfolding used_def wrap [OF \<open>_ < 1024\<close>] by auto
qed

lemma contents_Nil: "bbq_wf q \<Longrightarrow> contents q = [] \<longleftrightarrow> front q = next_empty q"
  using used_0 by (metis length_0_conv length_contents)

text \<open>Storing one byte: it is appended, unless the ring was one byte short of full.\<close>

definition put :: "u8 \<Rightarrow> bbq \<Rightarrow> bbq" where
  "put c q = q\<lparr>items := (items q)[next_empty q := c], next_empty := (next_empty q + 1) mod 512\<rparr>"

lemma put_wf: "bbq_wf q \<Longrightarrow> bbq_wf (put c q)"
  by (simp add: put_def bbq_wf_def)

lemma put_used:
  assumes "bbq_wf q"
  shows "used (put c q) = (if used q < 511 then used q + 1 else 0)"
  using assms by (auto simp: used_def put_def bbq_wf_def wrap)

lemma put_meets_front: "bbq_wf q \<Longrightarrow> front q = next_empty (put c q) \<longleftrightarrow> used (put c q) = 0"
  using used_0 [OF put_wf, of q c] by (simp add: put_def)

lemma put_contents:
  assumes "bbq_wf q" "used q < 511"
  shows "contents (put c q) = contents q @ [c]"
proof (rule nth_equalityI)
  show "length (contents (put c q)) = length (contents q @ [c])"
    using assms by (simp add: put_used)
  fix k assume "k < length (contents (put c q))"
  then have k: "k \<le> used q" using assms by (simp add: put_used)
  have ne: "(front q + used q) mod 512 = next_empty q"
    using assms by (auto simp: used_def bbq_wf_def wrap)
  have "(front q + k) mod 512 \<noteq> next_empty q" if "k < used q"
    using that assms by (auto simp: used_def bbq_wf_def wrap split: if_splits)
  then show "contents (put c q) ! k = (contents q @ [c]) ! k"
    using k ne assms by (auto simp: contents_def put_used nth_append) (auto simp: put_def bbq_wf_def)
qed

lemma insert_loop_put:
  "insert_loop (c # cs) q = (if front q = next_empty (put c q) then put c q else insert_loop cs (put c q))"
  by (simp add: put_def Let_def)

lemma insert_loop_wf: "bbq_wf q \<Longrightarrow> bbq_wf (insert_loop cs q)"
proof (induction cs arbitrary: q)
  case (Cons c cs)
  then show ?case using put_wf by (simp only: insert_loop_put) simp
qed simp

lemma insert_loop_fits:
  "bbq_wf q \<Longrightarrow> used q + length cs < 512 \<Longrightarrow> contents (insert_loop cs q) = contents q @ cs"
proof (induction cs arbitrary: q)
  case (Cons c cs)
  have "used (put c q) \<noteq> 0" using Cons.prems by (simp add: put_used)
  then have "front q \<noteq> next_empty (put c q)"
    using put_meets_front [OF Cons.prems(1)] by simp
  then show ?case
    using Cons.IH [OF put_wf [OF Cons.prems(1)]] Cons.prems put_contents [of q c]
    by (simp only: insert_loop_put) (simp add: put_used)
qed simp

lemma insert_loop_overflow:
  "bbq_wf q \<Longrightarrow> used q + length cs \<ge> 512 \<Longrightarrow> contents (insert_loop cs q) = []"
proof (induction cs arbitrary: q)
  case Nil
  then show ?case using used_less [of q] by simp
next
  case (Cons c cs)
  note wf = put_wf [OF Cons.prems(1)]
  show ?case
  proof (cases "used q = 511")
    case True
    then have "used (put c q) = 0" using Cons.prems by (simp add: put_used)
    then have "front q = next_empty (put c q)" "contents (put c q) = []"
      using put_meets_front [OF Cons.prems(1)] by (simp_all add: contents_def)
    then show ?thesis by (simp only: insert_loop_put) simp
  next
    case False
    then have u: "used (put c q) = used q + 1" using Cons.prems used_less [of q] by (simp add: put_used)
    then have "front q \<noteq> next_empty (put c q)"
      using put_meets_front [OF Cons.prems(1)] by simp
    then show ?thesis
      using Cons.IH [OF wf] Cons.prems u by (simp only: insert_loop_put) simp
  qed
qed

lemma remove_one:
  assumes "bbq_wf q" "front q \<noteq> next_empty q"
  defines "q' \<equiv> q\<lparr>front := (front q + 1) mod 512\<rparr>"
  shows "bbq_wf q'" "contents q = items q ! front q # contents q'"
proof -
  have u: "used q = Suc (used q')" using assms by (auto simp: used_def bbq_wf_def wrap)
  show "bbq_wf q'" using assms by (simp add: bbq_wf_def)
  have "contents q = map (\<lambda>k. items q ! ((front q + k) mod 512)) (0 # map Suc [0..<used q'])"
    by (simp only: contents_def u upt_conv_Cons map_Suc_upt zero_less_Suc)
  moreover have "(front q + Suc k) mod 512 = (front q' + k) mod 512" for k
    unfolding q'_def by (simp add: mod_simps)
  ultimately show "contents q = items q ! front q # contents q'"
    using assms by (simp add: contents_def bbq_wf_def o_def q'_def)
qed

lemma remove_loop_contents:
  "bbq_wf q \<Longrightarrow> \<exists>q'. remove_loop n q = (take n (contents q), q') \<and> bbq_wf q' \<and> contents q' = drop n (contents q)"
proof (induction n arbitrary: q)
  case (Suc n)
  show ?case
  proof (cases "front q = next_empty q")
    case True
    then show ?thesis using Suc.prems contents_Nil [of q] by simp
  next
    case False
    note r = remove_one [OF Suc.prems False]
    from Suc.IH [OF r(1)] show ?thesis using r(2) False by (auto simp: Let_def)
  qed
qed simp

section \<open>The interface of a byte channel\<close>

datatype chan_op = WriteOp "u8 list" | ReadOp nat

text \<open>A run of operations, with the bytes read so far; an operation that would wait is passed over.\<close>

fun run_ops :: "(u8 list \<Rightarrow> 's \<Rightarrow> 's outcome) \<Rightarrow> (nat \<Rightarrow> 's \<Rightarrow> (u8 list \<times> 's) outcome)
    \<Rightarrow> chan_op list \<Rightarrow> 's \<Rightarrow> u8 list \<times> 's" where
  "run_ops wr rd [] s = ([], s)"
| "run_ops wr rd (WriteOp bs # ops) s =
     (case wr bs s of Blocked \<Rightarrow> run_ops wr rd ops s | Ret s' \<Rightarrow> run_ops wr rd ops s')"
| "run_ops wr rd (ReadOp n # ops) s =
     (case rd n s of Blocked \<Rightarrow> run_ops wr rd ops s
      | Ret (bs, s') \<Rightarrow> (case run_ops wr rd ops s' of (rest, t) \<Rightarrow> (bs @ rest, t)))"

fun written :: "chan_op list \<Rightarrow> u8 list" where
  "written [] = []"
| "written (WriteOp bs # ops) = bs @ written ops"
| "written (ReadOp n # ops) = written ops"

text \<open>Every write fits into the room left at that moment, from a channel with \<open>l\<close> bytes in it; the counts of reads stay positive as \<^verbatim>\<open>int\<close>.\<close>

fun fits :: "nat \<Rightarrow> nat \<Rightarrow> chan_op list \<Rightarrow> bool" where
  "fits cap l [] \<longleftrightarrow> True"
| "fits cap l (WriteOp bs # ops) \<longleftrightarrow> l + length bs \<le> cap \<and> fits cap (l + length bs) ops"
| "fits cap l (ReadOp n # ops) \<longleftrightarrow> n < 2 ^ 31 \<and> fits cap (l - n) ops"

locale byte_channel =
  fixes inv :: "'s \<Rightarrow> bool" and chan :: "'s \<Rightarrow> u8 list" and cap :: nat
    and wr :: "u8 list \<Rightarrow> 's \<Rightarrow> 's outcome" and rd :: "nat \<Rightarrow> 's \<Rightarrow> (u8 list \<times> 's) outcome"
  assumes wr_law: "inv s \<Longrightarrow> length (chan s) + length bs \<le> cap \<Longrightarrow>
            \<exists>s'. wr bs s = Ret s' \<and> inv s' \<and> chan s' = chan s @ bs"
    and rd_law: "inv s \<Longrightarrow> chan s \<noteq> [] \<Longrightarrow> n < 2 ^ 31 \<Longrightarrow>
            \<exists>s'. rd n s = Ret (take n (chan s), s') \<and> inv s' \<and> chan s' = drop n (chan s)"
    and rd_empty: "inv s \<Longrightarrow> chan s = [] \<Longrightarrow> rd n s = Blocked"
begin

lemma no_loss:
  assumes "inv s" "fits cap (length (chan s)) ops"
  shows "\<exists>out t. run_ops wr rd ops s = (out, t) \<and> inv t \<and> out @ chan t = chan s @ written ops"
  using assms
proof (induction ops arbitrary: s)
  case (Cons op ops)
  show ?case
  proof (cases op)
    case (WriteOp bs)
    then obtain s' where s': "wr bs s = Ret s'" "inv s'" "chan s' = chan s @ bs"
      using wr_law [of s bs] Cons.prems by auto
    have "fits cap (length (chan s')) ops" using Cons.prems(2) s'(3) WriteOp by simp
    then show ?thesis using Cons.IH [OF s'(2)] s' WriteOp by auto
  next
    case (ReadOp n)
    then have n: "n < 2 ^ 31" "fits cap (length (chan s) - n) ops" using Cons.prems(2) by simp_all
    show ?thesis
    proof (cases "chan s = []")
      case True
      then show ?thesis using Cons.IH [of s] Cons.prems(1) n(2) rd_empty [of s n] ReadOp by auto
    next
      case False
      then obtain s' where s': "rd n s = Ret (take n (chan s), s')" "inv s'" "chan s' = drop n (chan s)"
        using rd_law [of s n] Cons.prems(1) n(1) by auto
      then obtain out t where "run_ops wr rd ops s' = (out, t)" "inv t" "out @ chan t = chan s' @ written ops"
        using Cons.IH [OF s'(2)] n(2) by auto
      then show ?thesis using s' ReadOp append_take_drop_id [of n "chan s"]
        by (auto simp del: append_take_drop_id)
    qed
  qed
qed simp

end

definition bbq_wr :: "u8 list \<Rightarrow> bbq \<Rightarrow> bbq outcome" where
  "bbq_wr bs q = bbq_insert bs (int (length bs)) q"

definition bbq_rd :: "nat \<Rightarrow> bbq \<Rightarrow> (u8 list \<times> bbq) outcome" where
  "bbq_rd n q = bbq_remove (int n) False q"

lemma bbq_never_full: "bbq_wf q \<Longrightarrow> int (next_empty q) - int (front q) \<noteq> 512"
  by (auto simp: bbq_wf_def)

interpretation bq: byte_channel bbq_wf contents 511 bbq_wr bbq_rd
proof unfold_locales
  fix q bs n
  assume wf: "bbq_wf q"
  show "\<exists>q'. bbq_wr bs q = Ret q' \<and> bbq_wf q' \<and> contents q' = contents q @ bs"
    if "length (contents q) + length bs \<le> 511"
    using that wf bbq_never_full [OF wf] insert_loop_wf [OF wf] insert_loop_fits [OF wf]
    by (auto simp: bbq_wr_def bbq_insert_def)
  show "\<exists>q'. bbq_rd n q = Ret (take n (contents q), q') \<and> bbq_wf q' \<and> contents q' = drop n (contents q)"
    if "contents q \<noteq> []"
    using that remove_loop_contents [OF wf, of n] contents_Nil [OF wf]
    by (auto simp: bbq_rd_def bbq_remove_def)
  show "bbq_rd n q = Blocked" if "contents q = []"
    using that contents_Nil [OF wf] by (simp add: bbq_rd_def bbq_remove_def)
qed

text \<open>A pipe with both ends open.\<close>

definition pipe_open :: "pipe \<Rightarrow> bool" where
  "pipe_open p \<longleftrightarrow> write_end_status p \<and> read_end_status p \<and> (\<exists>q. pbbq p = Some q \<and> bbq_wf q)"

definition pipe_chan :: "pipe \<Rightarrow> u8 list" where
  "pipe_chan p = (case pbbq p of Some q \<Rightarrow> contents q | None \<Rightarrow> [])"

definition pipe_wr :: "u8 list \<Rightarrow> pipe \<Rightarrow> pipe outcome" where
  "pipe_wr bs p = (case pipe_write bs (of_nat (length bs)) p of Some (Ret (_, p')) \<Rightarrow> Ret p' | _ \<Rightarrow> Blocked)"

definition pipe_rd :: "nat \<Rightarrow> pipe \<Rightarrow> (u8 list \<times> pipe) outcome" where
  "pipe_rd n p = (case pipe_read (of_nat n) p of Some (Ret r) \<Rightarrow> Ret r | _ \<Rightarrow> Blocked)"

lemma int_of_size_small: "n < 2 ^ 31 \<Longrightarrow> int_of_size (of_nat n) = int n"
proof -
  assume n: "n < 2 ^ 31"
  then have "signed_take_bit 31 (int n) = int n" by (intro signed_take_bit_int_eq_self) simp_all
  moreover have "take_bit 32 n = n" using n by (intro take_bit_nat_eq_self) simp
  ultimately show ?thesis
    by (simp add: int_of_size_def sint_uint unsigned_ucast_eq unsigned_of_nat signed_ucast_eq)
qed

interpretation pp: byte_channel pipe_open pipe_chan 511 pipe_wr pipe_rd
proof unfold_locales
  fix p bs n
  assume "pipe_open p"
  then obtain q where q: "pbbq p = Some q" "bbq_wf q" "write_end_status p" "read_end_status p"
    by (auto simp: pipe_open_def)
  show "\<exists>p'. pipe_wr bs p = Ret p' \<and> pipe_open p' \<and> pipe_chan p' = pipe_chan p @ bs"
    if b: "length (pipe_chan p) + length bs \<le> 511"
  proof -
    have "int_of_size (of_nat (length bs)) = int (length bs)" using b by (intro int_of_size_small) simp
    moreover obtain q' where "bbq_wr bs q = Ret q'" "bbq_wf q'" "contents q' = contents q @ bs"
      using bq.wr_law [OF q(2)] b q by (auto simp: pipe_chan_def)
    ultimately show ?thesis
      using q by (auto simp: pipe_wr_def pipe_write_def bbq_wr_def pipe_open_def pipe_chan_def)
  qed
  show "\<exists>p'. pipe_rd n p = Ret (take n (pipe_chan p), p') \<and> pipe_open p' \<and> pipe_chan p' = drop n (pipe_chan p)"
    if b: "pipe_chan p \<noteq> []" "n < 2 ^ 31"
  proof -
    have "int_of_size (of_nat n) = int n" using b(2) by (rule int_of_size_small)
    moreover obtain q' where "bbq_rd n q = Ret (take n (contents q), q')" "bbq_wf q'" "contents q' = drop n (contents q)"
      using bq.rd_law [OF q(2)] b q by (auto simp: pipe_chan_def)
    ultimately show ?thesis
      using q by (auto simp: pipe_rd_def pipe_read_def bbq_rd_def pipe_open_def pipe_chan_def)
  qed
  show "pipe_rd n p = Blocked" if "pipe_chan p = []"
    using that q contents_Nil [OF q(2)] by (simp add: pipe_rd_def pipe_read_def bbq_remove_def pipe_chan_def)
qed

lemma pipe_init_open:
  "length garbage = 512 \<Longrightarrow> \<exists>p. pipe_init True True True garbage = Some p \<and> pipe_open p \<and> pipe_chan p = []"
  by (simp add: pipe_init_def pipe_open_def pipe_chan_def bbq_init_def bbq_wf_def contents_def used_def)

section \<open>Properties\<close>

text \<open>C17: a fresh pipe delivers bytes in order, however many pass through it. For every interleaving of writes and reads on a new pipe
  in which each write fits into the 511 bytes less what is still unread, the bytes read so far followed by the bytes still in the
  pipe are exactly the bytes written, in order: none is lost or duplicated, also when the positions wrap around in the ring.\<close>

theorem pipe_is_ordered:
  assumes "length garbage = 512" "fits 511 0 ops"
  shows "\<exists>p out p'. pipe_init True True True garbage = Some p \<and> run_ops pipe_wr pipe_rd ops p = (out, p')
           \<and> pipe_open p' \<and> out @ pipe_chan p' = written ops"
proof -
  obtain p where "pipe_init True True True garbage = Some p" "pipe_open p" "pipe_chan p = []"
    using pipe_init_open [OF assms(1)] by blast
  then show ?thesis using pp.no_loss [of p ops] assms by auto
qed

theorem pipe_is_ordered_witness:
  "\<exists>p out p'. pipe_init True True True (replicate 512 0) = Some p
     \<and> run_ops pipe_wr pipe_rd [WriteOp (replicate 400 1), ReadOp 390, WriteOp (replicate 300 2), ReadOp 9, ReadOp 600, WriteOp (replicate 511 3)] p = (out, p')
     \<and> pipe_open p' \<and> out @ pipe_chan p' = replicate 400 1 @ replicate 300 2 @ replicate 511 3"
  using pipe_is_ordered [of "replicate 512 0"
      "[WriteOp (replicate 400 1), ReadOp 390, WriteOp (replicate 300 2), ReadOp 9, ReadOp 600, WriteOp (replicate 511 3)]"]
  by simp

text \<open>the full test of \<^verbatim>\<open>bbq_insert\<close> is never true, so a writer never waits; and a write that fills the
  ring makes it look empty. Whenever the bytes in the queue and the bytes written reach 512, the
  queue is empty after the insertion: every unread byte is lost.\<close>

theorem bbq_insert_overflow_loses:
  assumes "bbq_wf q" "length (contents q) + length bs \<ge> 512"
  shows "\<exists>q'. bbq_insert bs (int (length bs)) q = Ret q' \<and> bbq_wf q' \<and> contents q' = []"
  using assms bbq_never_full [OF assms(1)] insert_loop_overflow [OF assms(1), of bs] insert_loop_wf
  by (simp add: bbq_insert_def)

theorem bbq_insert_overflow_loses_witness:
  "\<exists>q q'. bbq_init True True (replicate 512 0) = Some q
     \<and> bbq_insert (replicate 512 7) (int (length (replicate 512 (7 :: u8)))) q = Ret q' \<and> bbq_wf q' \<and> contents q' = []"
  using bbq_insert_overflow_loses [of "\<lparr>items = replicate 512 0, front = 0, next_empty = 0\<rparr>" "replicate 512 7"]
  by (simp add: bbq_init_def bbq_wf_def)

text \<open>after the write end is closed a reader never waits: it gets the bytes that are left, and then
  zero bytes. After the read end is closed a writer gets an error and the pipe is unchanged.\<close>

theorem pipe_closed_ends:
  assumes "pipe_open p"
  shows "(\<exists>pw bs pr. pipe_close FS_WRONLY p = Some pw \<and> pipe_read 511 pw = Some (Ret (bs, pr))
            \<and> bs = pipe_chan p \<and> pipe_chan pr = [] \<and> pipe_read 511 pr = Some (Ret ([], pr)))
       \<and> (\<exists>pc. pipe_close FS_RDONLY p = Some pc \<and> pipe_write buf cnt pc = Some (Ret (ERR_END, pc)))"
proof -
  obtain q where q: "pbbq p = Some q" "bbq_wf q" "write_end_status p" "read_end_status p"
    using assms by (auto simp: pipe_open_def)
  have n: "nat (int_of_size 511) = 511" by (simp add: int_of_size_def)
  obtain q' where r: "remove_loop 511 q = (take 511 (contents q), q')" "bbq_wf q'" "contents q' = drop 511 (contents q)"
    using remove_loop_contents [OF q(2)] by blast
  have u: "length (contents q) \<le> 511" using used_less [of q] by simp
  then have "contents q' = []" using r(3) by simp
  then have "remove_loop 511 q' = ([], q')"
    using contents_Nil [OF r(2)] by (simp add: numeral_eq_Suc)
  then show ?thesis
    using q r u n by (auto simp: pipe_close_def pipe_read_def pipe_write_def bbq_remove_def pipe_chan_def Let_def)
qed

theorem pipe_closed_ends_witness:
  "\<exists>pw bs pr. pipe_close FS_WRONLY \<lparr>write_end_status = True, read_end_status = True,
        pbbq = bbq_init True True (replicate 512 0)\<rparr> = Some pw
     \<and> pipe_read 511 pw = Some (Ret (bs, pr)) \<and> bs = [] \<and> pipe_read 511 pr = Some (Ret ([], pr))"
  using pipe_closed_ends [of "\<lparr>write_end_status = True, read_end_status = True,
        pbbq = bbq_init True True (replicate 512 0)\<rparr>" "[]" 0]
  by (auto simp: pipe_open_def bbq_init_def bbq_wf_def pipe_chan_def contents_def used_def)

end
