(* ===== verification/Sched.thy ===== *)
theory Sched
  imports Prelude "HOL-Library.Multiset"
begin

text \<open>
  Threads and the priority scheduler (\<^verbatim>\<open>kernel/sched.c\<close>, \<^verbatim>\<open>kernel/thread.c\<close>).

  The scheduler state holds every thread, the ready queue, and for each processor its current and
  its idle thread. Each scheduler entry point runs with \<^verbatim>\<open>sched_lock\<close> held and interrupts off, so it is
  one step of the model; the processor that runs it is a parameter. A context switch makes another
  thread current. The thread that is switched out remembers in which function it was suspended,
  because the code after \<^verbatim>\<open>cpu_switch_thread\<close> is run when it is resumed: only \<^verbatim>\<open>sched_sched\<close> looks at
  the thread that ran before and reclaims it if it is a zombie.
\<close>

section \<open>State\<close>

type_synonym tid = nat
type_synonym cpu = nat

datatype threadstate = RUNNING | READY | SLEEPING | ZOMBIE

text \<open>Where a thread that is not running will resume.\<close>

datatype resume_point = Fresh | InSched | InReady | InYield

record thread =
  priority :: int
  state :: threadstate
  resume :: resume_point

record sched_state =
  thr :: "tid \<Rightarrow> thread"
  ready_queue :: "tid list"
  current :: "cpu \<Rightarrow> tid"
  idle :: "cpu \<Rightarrow> tid"
  thread_switch_count :: nat
  reaped :: "tid list"

abbreviation (input) PRI_MIN :: int where "PRI_MIN \<equiv> 0"
abbreviation (input) PRI_MAX :: int where "PRI_MAX \<equiv> 63"
abbreviation (input) DEFAULT_PRI :: int where "DEFAULT_PRI \<equiv> 10"

abbreviation prio :: "sched_state \<Rightarrow> tid \<Rightarrow> int" where "prio s t \<equiv> priority (thr s t)"
abbreviation st :: "sched_state \<Rightarrow> tid \<Rightarrow> threadstate" where "st s t \<equiv> state (thr s t)"

definition set_state :: "tid \<Rightarrow> threadstate \<Rightarrow> sched_state \<Rightarrow> sched_state" where
  "set_state t x s = s\<lparr>thr := (thr s)(t := (thr s t)\<lparr>state := x\<rparr>)\<rparr>"

definition set_prio :: "tid \<Rightarrow> int \<Rightarrow> sched_state \<Rightarrow> sched_state" where
  "set_prio t p s = s\<lparr>thr := (thr s)(t := (thr s t)\<lparr>priority := p\<rparr>)\<rparr>"

definition enqueue :: "tid \<Rightarrow> sched_state \<Rightarrow> sched_state" where
  "enqueue t s = s\<lparr>ready_queue := ready_queue s @ [t]\<rparr>"

definition dequeue :: "tid \<Rightarrow> sched_state \<Rightarrow> sched_state" where
  "dequeue t s = s\<lparr>ready_queue := remove1 t (ready_queue s)\<rparr>"

section \<open>Operations\<close>

definition sched_sys_init :: "sched_state \<Rightarrow> sched_state" where
  "sched_sys_init s = s\<lparr>ready_queue := []\<rparr>"

text \<open>The switch itself, and the reclaiming of the previous thread by a thread resumed in \<^verbatim>\<open>sched_sched\<close>.\<close>

definition cpu_switch_thread :: "cpu \<Rightarrow> tid \<Rightarrow> resume_point \<Rightarrow> sched_state \<Rightarrow> sched_state" where
  "cpu_switch_thread c next_t pt s =
     (let prev = current s c;
          s = s\<lparr>current := (current s)(c := next_t), thr := (thr s)(prev := (thr s prev)\<lparr>resume := pt\<rparr>)\<rparr>
      in if resume (thr s next_t) = InSched \<and> st s prev = ZOMBIE
         then s\<lparr>reaped := prev # reaped s\<rparr> else s)"

fun max_loop :: "(tid \<Rightarrow> int) \<Rightarrow> tid list \<Rightarrow> int \<Rightarrow> tid option \<Rightarrow> tid option" where
  "max_loop pr [] max_priority best = best"
| "max_loop pr (t # ts) max_priority best =
     (if max_priority < pr t then max_loop pr ts (pr t) (Some t) else max_loop pr ts max_priority best)"

definition get_max_priority_thread :: "sched_state \<Rightarrow> tid option" where
  "get_max_priority_thread s = max_loop (prio s) (ready_queue s) (-1) None"

definition get_max_priority_thread_tie :: "sched_state \<Rightarrow> tid list" where
  "get_max_priority_thread_tie s =
     (case get_max_priority_thread s of
        None \<Rightarrow> []
      | Some max_t \<Rightarrow> filter (\<lambda>t. prio s max_t = prio s t) (ready_queue s))"

definition sched_ready :: "cpu \<Rightarrow> tid \<Rightarrow> sched_state \<Rightarrow> sched_state" where
  "sched_ready c t s =
     (let s = set_state t READY s; curr = current s c in
      if prio s curr < prio s t then
        (let s = (if curr \<noteq> idle s c then enqueue curr (set_state curr READY s) else s);
             s = set_state t RUNNING s;
             s = s\<lparr>thread_switch_count := thread_switch_count s + 1\<rparr>
         in cpu_switch_thread c t InReady s)
      else enqueue t s)"

definition sched :: "cpu \<Rightarrow> sched_state \<Rightarrow> sched_state option" where
  "sched c s = do {
     let curr = current s c;
     (next_t, s) \<leftarrow>
       (if ready_queue s \<noteq> [] then do {
          n \<leftarrow> get_max_priority_thread s;
          kassert (st s n = READY);
          Some (n, dequeue n s)
        }
        else Some (idle s c, s));
     let s = set_state next_t RUNNING s;
     let s = s\<lparr>thread_switch_count := thread_switch_count s + 1\<rparr>;
     Some (if curr \<noteq> next_t then cpu_switch_thread c next_t InSched s else s)
   }"

text \<open>The lock handed to \<^verbatim>\<open>sched_sched\<close> and \<^verbatim>\<open>yield\<close> is released between the two halves: \<open>release\<close> is the
  effect of \<^verbatim>\<open>lock_release\<close> on the threads, the identity when no lock is passed.\<close>

definition sched_sched ::
    "(sched_state \<Rightarrow> sched_state) \<Rightarrow> threadstate \<Rightarrow> cpu \<Rightarrow> sched_state \<Rightarrow> sched_state option" where
  "sched_sched release next_state c s =
     (let curr = current s c;
          s = (if next_state = READY \<and> curr \<noteq> idle s c then enqueue curr s else s);
          s = set_state curr next_state s;
          s = release s
      in sched c s)"

definition yield_candidate :: "sched_state \<Rightarrow> tid \<Rightarrow> tid option" where
  "yield_candidate s cur =
     fold (\<lambda>t best. if prio s t > prio s cur then Some t else best) (ready_queue s) None"

definition yield ::
    "(sched_state \<Rightarrow> sched_state) \<Rightarrow> threadstate \<Rightarrow> cpu \<Rightarrow> sched_state \<Rightarrow> sched_state option" where
  "yield release next_state c s = do {
     let curr = current s c;
     kassert (\<forall>t\<in>set (ready_queue s). st s t = READY);
     (case yield_candidate s curr of
        None \<Rightarrow> Some s
      | Some t \<Rightarrow> do {
          let s = (if curr \<noteq> idle s c then enqueue curr s else s);
          let s = set_state curr next_state s;
          let s = release s;
          kassert (st s t = READY);
          let s = dequeue t s;
          let s = set_state t RUNNING s;
          let s = s\<lparr>thread_switch_count := thread_switch_count s + 1\<rparr>;
          Some (cpu_switch_thread c t InYield s)
        })
   }"

definition get_thread_switch_count :: "sched_state \<Rightarrow> nat" where
  "get_thread_switch_count s = thread_switch_count s"

text \<open>\<^verbatim>\<open>thread_set_priority\<close> of \<^verbatim>\<open>kernel/thread.c\<close>: without a thread it means the current one.\<close>

definition thread_set_priority :: "int \<Rightarrow> tid option \<Rightarrow> cpu \<Rightarrow> sched_state \<Rightarrow> sched_state option" where
  "thread_set_priority p t c s =
     (if p < PRI_MIN \<or> p > PRI_MAX then Some s
      else yield (\<lambda>s. s) READY c
             (set_prio (case t of None \<Rightarrow> current s c | Some t \<Rightarrow> t) p s))"

definition thread_get_priority :: "tid option \<Rightarrow> cpu \<Rightarrow> sched_state \<Rightarrow> int" where
  "thread_get_priority t c s = prio s (case t of None \<Rightarrow> current s c | Some t \<Rightarrow> t)"

definition thread_exit :: "cpu \<Rightarrow> sched_state \<Rightarrow> sched_state option" where
  "thread_exit c s = sched_sched (\<lambda>s. s) ZOMBIE c s"

text \<open>The timer interrupt of \<^verbatim>\<open>kernel/timer.c\<close>: the current thread goes back to the ready queue.\<close>

definition timer_tick :: "cpu \<Rightarrow> sched_state \<Rightarrow> sched_state option" where
  "timer_tick c s = sched_sched (\<lambda>s. s) READY c s"

lemmas [osv_defs] = set_state_def set_prio_def enqueue_def dequeue_def cpu_switch_thread_def

section \<open>Choosing a thread\<close>

text \<open>What the scheduler needs of the function that picks the next thread out of the ready queue.\<close>

locale thread_picker =
  fixes pick :: "(tid \<Rightarrow> int) \<Rightarrow> tid list \<Rightarrow> tid option"
  assumes pick_some: "xs \<noteq> [] \<Longrightarrow> \<forall>t\<in>set xs. 0 \<le> pr t \<Longrightarrow> \<exists>t. pick pr xs = Some t"
    and pick_first: "pick pr xs = Some t \<Longrightarrow>
          \<exists>ys zs. xs = ys @ t # zs \<and> (\<forall>u\<in>set ys. pr u < pr t) \<and> (\<forall>u\<in>set zs. pr u \<le> pr t)"
begin

lemma pick_in: "pick pr xs = Some t \<Longrightarrow> t \<in> set xs"
  using pick_first by fastforce

lemma pick_max: "pick pr xs = Some t \<Longrightarrow> u \<in> set xs \<Longrightarrow> pr u \<le> pr t"
  using pick_first by fastforce

lemma pick_equal:
  assumes "\<forall>u\<in>set xs. pr u = p" "pick pr xs = Some t"
  shows "t = hd xs \<and> remove1 t xs = tl xs"
proof -
  obtain ys zs where x: "xs = ys @ t # zs" "\<forall>u\<in>set ys. pr u < pr t"
    using pick_first [OF assms(2)] by blast
  then have "ys = []" using assms(1) by (cases ys) auto
  then show ?thesis using x by simp
qed

end

definition first_max :: "(tid \<Rightarrow> int) \<Rightarrow> tid list \<Rightarrow> int \<Rightarrow> tid \<Rightarrow> bool" where
  "first_max pr xs m t \<longleftrightarrow>
     (\<exists>ys zs. xs = ys @ t # zs \<and> m < pr t \<and> (\<forall>u\<in>set ys. pr u < pr t) \<and> (\<forall>u\<in>set zs. pr u \<le> pr t))"

lemma first_max_here: "\<forall>u\<in>set xs. pr u \<le> pr x \<Longrightarrow> m < pr x \<Longrightarrow> first_max pr (x # xs) m x"
  unfolding first_max_def by (intro exI [of _ "[]"] exI [of _ xs]) simp

lemma first_max_later:
  assumes "first_max pr xs m' t" "m \<le> m'" "pr x \<le> m'"
  shows "first_max pr (x # xs) m t"
proof -
  obtain ys zs where "xs = ys @ t # zs" "m' < pr t" "\<forall>u\<in>set ys. pr u < pr t" "\<forall>u\<in>set zs. pr u \<le> pr t"
    using assms(1) by (auto simp: first_max_def)
  then show ?thesis
    unfolding first_max_def using assms(2,3) by (intro exI [of _ "x # ys"] exI [of _ zs]) auto
qed

lemma max_loop_spec:
  "(\<forall>u\<in>set xs. pr u \<le> m) \<and> max_loop pr xs m best = best
   \<or> (\<exists>t. max_loop pr xs m best = Some t \<and> first_max pr xs m t)"
proof (induction xs arbitrary: m best)
  case (Cons x xs)
  show ?case
  proof (cases "m < pr x")
    case True
    from Cons.IH [where m = "pr x" and best = "Some x"] show ?thesis
      using True first_max_here [of xs pr x m] first_max_later [of pr xs "pr x" _ m x] by auto
  next
    case False
    from Cons.IH [where m = m and best = best] show ?thesis
      using False first_max_later [of pr xs m _ m x] by auto
  qed
qed simp

interpretation mx: thread_picker "\<lambda>pr xs. max_loop pr xs (-1) None"
proof unfold_locales
  fix xs :: "tid list" and pr :: "tid \<Rightarrow> int" and t :: tid
  show "\<exists>t. max_loop pr xs (-1) None = Some t" if "xs \<noteq> []" "\<forall>t\<in>set xs. 0 \<le> pr t"
    using that max_loop_spec [where pr = pr and xs = xs and m = "-1" and best = None]
    by (cases xs) fastforce+
  show "\<exists>ys zs. xs = ys @ t # zs \<and> (\<forall>u\<in>set ys. pr u < pr t) \<and> (\<forall>u\<in>set zs. pr u \<le> pr t)"
    if "max_loop pr xs (-1) None = Some t"
    using that max_loop_spec [where pr = pr and xs = xs and m = "-1" and best = None]
    by (auto simp: first_max_def)
qed

section \<open>The scheduler invariant\<close>

text \<open>For \<open>n\<close> processors. The part that holds everywhere, including between the two halves of a switch.\<close>

definition is_idle :: "nat \<Rightarrow> sched_state \<Rightarrow> tid \<Rightarrow> bool" where
  "is_idle n s t \<longleftrightarrow> (\<exists>c<n. t = idle s c)"

definition sched_base :: "nat \<Rightarrow> sched_state \<Rightarrow> bool" where
  "sched_base n s \<longleftrightarrow>
     distinct (ready_queue s)
     \<and> (\<forall>t\<in>set (ready_queue s). st s t = READY \<and> \<not> is_idle n s t)
     \<and> (\<forall>t. 0 \<le> prio s t \<and> prio s t \<le> 63)
     \<and> (\<forall>c<n. \<forall>d<n. c \<noteq> d \<longrightarrow> idle s c \<noteq> idle s d \<and> current s c \<noteq> current s d \<and> current s c \<noteq> idle s d)
     \<and> (\<forall>t. st s t = READY \<and> \<not> is_idle n s t \<longrightarrow> t \<in> set (ready_queue s))"

text \<open>The threads that run: every processor but possibly \<open>c\<close>, whose thread is being switched out.\<close>

definition running_except :: "nat \<Rightarrow> (cpu \<Rightarrow> bool) \<Rightarrow> sched_state \<Rightarrow> bool" where
  "running_except n ex s \<longleftrightarrow>
     (\<forall>d<n. \<not> ex d \<longrightarrow> st s (current s d) = RUNNING)
     \<and> (\<forall>t. st s t = RUNNING \<and> \<not> is_idle n s t \<longrightarrow> (\<exists>d<n. \<not> ex d \<and> current s d = t))"

definition sched_inv :: "nat \<Rightarrow> sched_state \<Rightarrow> bool" where
  "sched_inv n s \<longleftrightarrow> sched_base n s \<and> running_except n (\<lambda>_. False) s"

text \<open>No thread that is ready outranks the thread running on processor \<open>c\<close>.\<close>

definition top_runs :: "cpu \<Rightarrow> sched_state \<Rightarrow> bool" where
  "top_runs c s \<longleftrightarrow> (\<forall>t\<in>set (ready_queue s). prio s t \<le> prio s (current s c))"

text \<open>How each primitive update acts on the fields.\<close>

lemma set_state_fields [simp]:
  "ready_queue (set_state t x s) = ready_queue s" "current (set_state t x s) = current s"
  "idle (set_state t x s) = idle s" "prio (set_state t x s) u = prio s u"
  "st (set_state t x s) u = (if u = t then x else st s u)"
  "resume (thr (set_state t x s) u) = resume (thr s u)" "reaped (set_state t x s) = reaped s"
  by (simp_all add: set_state_def)

lemma set_prio_fields [simp]:
  "ready_queue (set_prio t x s) = ready_queue s" "current (set_prio t x s) = current s"
  "idle (set_prio t x s) = idle s" "prio (set_prio t x s) u = (if u = t then x else prio s u)"
  "st (set_prio t x s) u = st s u"
  by (simp_all add: set_prio_def)

lemma queue_fields [simp]:
  "ready_queue (enqueue t s) = ready_queue s @ [t]" "ready_queue (dequeue t s) = remove1 t (ready_queue s)"
  "current (enqueue t s) = current s" "current (dequeue t s) = current s"
  "idle (enqueue t s) = idle s" "idle (dequeue t s) = idle s"
  "thr (enqueue t s) = thr s" "thr (dequeue t s) = thr s"
  "reaped (enqueue t s) = reaped s" "reaped (dequeue t s) = reaped s"
  by (simp_all add: enqueue_def dequeue_def)

lemma switch_fields [simp]:
  "ready_queue (cpu_switch_thread c t pt s) = ready_queue s"
  "current (cpu_switch_thread c t pt s) = (current s)(c := t)"
  "idle (cpu_switch_thread c t pt s) = idle s"
  "prio (cpu_switch_thread c t pt s) u = prio s u"
  "st (cpu_switch_thread c t pt s) u = st s u"
  by (simp_all add: cpu_switch_thread_def Let_def)

lemma base_distinct:
  assumes "sched_base n s" "c < n" "d < n" "c \<noteq> d"
  shows "idle s c \<noteq> idle s d" "current s c \<noteq> current s d" "current s c \<noteq> idle s d" "idle s c \<noteq> current s d"
  using assms by (auto simp: sched_base_def) metis

lemma baseD:
  assumes "sched_base n s"
  shows "distinct (ready_queue s)" "t \<in> set (ready_queue s) \<Longrightarrow> st s t = READY"
    "t \<in> set (ready_queue s) \<Longrightarrow> \<not> is_idle n s t" "0 \<le> prio s t" "prio s t \<le> 63"
    "st s t = READY \<Longrightarrow> \<not> is_idle n s t \<Longrightarrow> t \<in> set (ready_queue s)"
  using assms unfolding sched_base_def by blast+

lemma runD:
  assumes "running_except n ex s"
  shows "d < n \<Longrightarrow> \<not> ex d \<Longrightarrow> st s (current s d) = RUNNING"
    "st s t = RUNNING \<Longrightarrow> \<not> is_idle n s t \<Longrightarrow> \<exists>d<n. \<not> ex d \<and> current s d = t"
  using assms unfolding running_except_def by blast+

lemma switch_inv:
  assumes base: "sched_base n s" and run: "running_except n (\<lambda>d. d = c) s" and c: "c < n"
    and t: "t \<in> set (ready_queue s) \<or> t = idle s c"
    and f: "ready_queue s' = remove1 t (ready_queue s)" "current s' = (current s)(c := t)"
      "idle s' = idle s" "\<And>u. prio s' u = prio s u" "\<And>u. st s' u = (if u = t then RUNNING else st s u)"
  shows "sched_inv n s'"
proof -
  have id: "is_idle n s' = is_idle n s" by (simp add: is_idle_def f fun_eq_iff)
  have oth: "current s d \<noteq> t" if d: "d < n" "d \<noteq> c" for d
  proof
    assume "current s d = t"
    then have "st s t = RUNNING" using runD(1) [OF run d(1)] d(2) by simp
    then show False
      using t baseD(2) [OF base, of t] base_distinct(3) [OF base d(1) c d(2)] \<open>current s d = t\<close> by auto
  qed
  have qs: "u \<in> set (ready_queue s') \<longleftrightarrow> u \<in> set (ready_queue s) \<and> u \<noteq> t" for u
    using baseD(1) [OF base] by (simp add: f)
  have "sched_base n s'"
    unfolding sched_base_def id
  proof (intro conjI allI impI ballI)
    show "distinct (ready_queue s')" using baseD(1) [OF base] by (simp add: f)
    show "st s' u = READY" "\<not> is_idle n s u" if "u \<in> set (ready_queue s')" for u
      using that baseD(2,3) [OF base, of u] by (simp_all add: qs f(5))
    show "0 \<le> prio s' u" "prio s' u \<le> 63" for u using baseD(4,5) [OF base] by (simp_all only: f(4))
    show "u \<in> set (ready_queue s')" if "st s' u = READY \<and> \<not> is_idle n s u" for u
      using that baseD(6) [OF base, of u] unfolding qs f(5) by (auto split: if_splits)
    fix a b assume ab: "a < n" "b < n" "a \<noteq> b"
    note d = base_distinct [OF base ab] and d' = base_distinct [OF base ab(2,1) ab(3) [symmetric]]
    have "t \<noteq> idle s b" if "a = c"
      using t ab(2) that baseD(3) [OF base, of t] d(1) by (auto simp: is_idle_def)
    then show "idle s' a \<noteq> idle s' b" "current s' a \<noteq> current s' b" "current s' a \<noteq> idle s' b"
      using d d' oth [of a] oth [of b] ab unfolding f(2,3) by auto
  qed
  moreover have "running_except n (\<lambda>_. False) s'"
    unfolding running_except_def id
  proof (intro conjI allI impI)
    show "st s' (current s' d) = RUNNING" if "d < n" for d
      using runD(1) [OF run that] by (simp add: f(2,5))
    show "\<exists>d<n. \<not> False \<and> current s' d = u" if u: "st s' u = RUNNING \<and> \<not> is_idle n s u" for u
    proof (cases "u = t")
      case True
      then show ?thesis using c by (auto simp: f(2))
    next
      case False
      then show ?thesis using u runD(2) [OF run, of u] by (auto simp: f(2,5))
    qed
  qed
  ultimately show ?thesis by (simp add: sched_inv_def)
qed

lemma sched_ok:
  assumes base: "sched_base n s" and run: "running_except n (\<lambda>d. d = c) s" and c: "c < n"
  shows "\<exists>s'. sched c s = Some s' \<and> sched_inv n s' \<and> top_runs c s' \<and> prio s' = prio s
     \<and> ready_queue s' = remove1 (current s' c) (ready_queue s)
     \<and> (if ready_queue s = [] then current s' c = idle s c
        else get_max_priority_thread s = Some (current s' c))"
proof -
  define t where "t = (if ready_queue s = [] then idle s c else the (get_max_priority_thread s))"
  define s1 where "s1 = set_state t RUNNING (if ready_queue s = [] then s else dequeue t s)"
  define s2 where "s2 = s1\<lparr>thread_switch_count := thread_switch_count s1 + 1\<rparr>"
  define s' where "s' = (if current s c \<noteq> t then cpu_switch_thread c t InSched s2 else s2)"
  have pos: "\<forall>u\<in>set (ready_queue s). 0 \<le> prio s u" using baseD(4) [OF base] by blast
  have pick: "get_max_priority_thread s = Some t" "t \<in> set (ready_queue s)"
      "\<forall>u\<in>set (ready_queue s). prio s u \<le> prio s t" if ne: "ready_queue s \<noteq> []"
  proof -
    obtain m where m: "max_loop (prio s) (ready_queue s) (-1) None = Some m"
      using mx.pick_some [OF ne pos] by blast
    then have "t = m" using ne by (simp add: t_def get_max_priority_thread_def)
    then show "get_max_priority_thread s = Some t" "t \<in> set (ready_queue s)"
      "\<forall>u\<in>set (ready_queue s). prio s u \<le> prio s t"
      using m mx.pick_in [OF m] mx.pick_max [OF m] by (simp_all add: get_max_priority_thread_def)
  qed
  have f: "ready_queue s' = remove1 t (ready_queue s)" "current s' = (current s)(c := t)"
      "idle s' = idle s" "\<And>u. prio s' u = prio s u" "\<And>u. st s' u = (if u = t then RUNNING else st s u)"
    by (auto simp: s'_def s2_def s1_def)
  have "sched c s = Some s'"
  proof (cases "ready_queue s = []")
    case False
    then have "st s t = READY" using pick(2) baseD(2) [OF base] by blast
    then show ?thesis using pick(1) False by (simp add: sched_def s'_def s2_def s1_def Let_def)
  qed (simp add: sched_def s'_def s2_def s1_def t_def Let_def)
  moreover have "sched_inv n s'"
    using pick(2) by (intro switch_inv [OF base run c _ f]) (auto simp: t_def)
  moreover have "top_runs c s'"
    using pick(3) baseD(1) [OF base] by (cases "ready_queue s = []") (auto simp: top_runs_def f)
  ultimately show ?thesis using f pick(1) by (auto simp: t_def fun_eq_iff)
qed

lemma deschedule_base:
  assumes inv: "sched_inv n s" and c: "c < n" and ns: "ns \<noteq> RUNNING"
  defines "cu \<equiv> current s c"
  defines "s1 \<equiv> set_state cu ns (if ns = READY \<and> cu \<noteq> idle s c then enqueue cu s else s)"
  shows "sched_base n s1" "running_except n (\<lambda>d. d = c) s1"
proof -
  have base: "sched_base n s" and run: "running_except n (\<lambda>_. False) s" using inv by (simp_all add: sched_inv_def)
  have id: "is_idle n s1 = is_idle n s" by (simp add: is_idle_def s1_def fun_eq_iff)
  have "st s cu = RUNNING" using runD(1) [OF run c] by (simp add: cu_def)
  then have nq: "cu \<notin> set (ready_queue s)" using baseD(2) [OF base, of cu] by auto
  have ci: "is_idle n s cu \<longleftrightarrow> cu = idle s c"
    using base_distinct(3) [OF base c] c by (auto simp: is_idle_def cu_def)
  have f: "ready_queue s1 = ready_queue s @ (if ns = READY \<and> cu \<noteq> idle s c then [cu] else [])"
      "current s1 = current s" "idle s1 = idle s" "\<And>u. prio s1 u = prio s u"
      "\<And>u. st s1 u = (if u = cu then ns else st s u)"
    by (simp_all add: s1_def)
  show "sched_base n s1"
    unfolding sched_base_def id
  proof (intro conjI allI impI ballI)
    show "distinct (ready_queue s1)" using baseD(1) [OF base] nq by (auto simp: f)
    show "st s1 u = READY" "\<not> is_idle n s u" if "u \<in> set (ready_queue s1)" for u
      using that baseD(2,3) [OF base, of u] nq ci by (auto simp: f split: if_splits)
    show "0 \<le> prio s1 u" "prio s1 u \<le> 63" for u using baseD(4,5) [OF base] by (simp_all only: f(4))
    show "u \<in> set (ready_queue s1)" if "st s1 u = READY \<and> \<not> is_idle n s u" for u
      using that baseD(6) [OF base, of u] ci by (auto simp: f split: if_splits)
    fix a b assume ab: "a < n" "b < n" "a \<noteq> b"
    show "idle s1 a \<noteq> idle s1 b" "current s1 a \<noteq> current s1 b" "current s1 a \<noteq> idle s1 b"
      using base_distinct [OF base ab] by (simp_all add: f)
  qed
  show "running_except n (\<lambda>d. d = c) s1"
    unfolding running_except_def id
  proof (intro conjI allI impI)
    show "st s1 (current s1 d) = RUNNING" if "d < n" "d \<noteq> c" for d
      using runD(1) [OF run that(1)] base_distinct(2) [OF base that(1) c that(2)] by (simp add: f cu_def)
    show "\<exists>d<n. d \<noteq> c \<and> current s1 d = u" if u: "st s1 u = RUNNING \<and> \<not> is_idle n s u" for u
      using u ns runD(2) [OF run, of u] by (auto simp: f cu_def split: if_splits)
  qed
qed

lemma enqueue_base:
  assumes base: "sched_base n s" and run: "running_except n ex s"
    and t: "t \<notin> set (ready_queue s)" "\<not> is_idle n s t" "st s t \<noteq> RUNNING"
  defines "s1 \<equiv> enqueue t (set_state t READY s)"
  shows "sched_base n s1" "running_except n ex s1"
proof -
  have id: "is_idle n s1 = is_idle n s" by (simp add: is_idle_def s1_def fun_eq_iff)
  have f: "ready_queue s1 = ready_queue s @ [t]" "current s1 = current s" "idle s1 = idle s"
      "\<And>u. prio s1 u = prio s u" "\<And>u. st s1 u = (if u = t then READY else st s u)"
    by (simp_all add: s1_def)
  show "sched_base n s1"
    unfolding sched_base_def id
  proof (intro conjI allI impI ballI)
    show "distinct (ready_queue s1)" using baseD(1) [OF base] t by (auto simp: f)
    show "st s1 u = READY" "\<not> is_idle n s u" if "u \<in> set (ready_queue s1)" for u
      using that baseD(2,3) [OF base, of u] t by (auto simp: f split: if_splits)
    show "0 \<le> prio s1 u" "prio s1 u \<le> 63" for u using baseD(4,5) [OF base] by (simp_all only: f(4))
    show "u \<in> set (ready_queue s1)" if "st s1 u = READY \<and> \<not> is_idle n s u" for u
      using that baseD(6) [OF base, of u] by (auto simp: f split: if_splits)
    fix a b assume ab: "a < n" "b < n" "a \<noteq> b"
    show "idle s1 a \<noteq> idle s1 b" "current s1 a \<noteq> current s1 b" "current s1 a \<noteq> idle s1 b"
      using base_distinct [OF base ab] by (simp_all add: f)
  qed
  show "running_except n ex s1"
    unfolding running_except_def id
  proof (intro conjI allI impI)
    show "st s1 (current s1 d) = RUNNING" if "d < n" "\<not> ex d" for d
      using runD(1) [OF run that] t(3) by (auto simp: f)
    show "\<exists>d<n. \<not> ex d \<and> current s1 d = u" if u: "st s1 u = RUNNING \<and> \<not> is_idle n s u" for u
      using u runD(2) [OF run, of u] by (auto simp: f split: if_splits)
  qed
qed

lemma current_notin_ready: "sched_inv n s \<Longrightarrow> c < n \<Longrightarrow> current s c \<notin> set (ready_queue s)"
  using baseD(2) [of n s "current s c"] runD(1) [of n "\<lambda>_. False" s c] by (auto simp: sched_inv_def)

lemma sched_ready_inv:
  assumes inv: "sched_inv n s" and c: "c < n"
    and t: "\<not> is_idle n s t" "st s t \<noteq> RUNNING" "st s t \<noteq> READY"
  shows "sched_inv n (sched_ready c t s)"
proof -
  have base: "sched_base n s" and run: "running_except n (\<lambda>_. False) s" using inv by (simp_all add: sched_inv_def)
  have tq: "t \<notin> set (ready_queue s)" using baseD(2) [OF base, of t] t(3) by auto
  have tc: "current s c \<noteq> t" using runD(1) [OF run c] t(2) by auto
  show ?thesis
  proof (cases "prio s (current s c) < prio s t")
    case False
    then have "sched_ready c t s = enqueue t (set_state t READY s)"
      by (simp add: sched_ready_def)
    then show ?thesis using enqueue_base [OF base run tq t(1,2)] by (simp add: sched_inv_def)
  next
    case True
    let ?cu = "current s c"
    define s0 where "s0 = (if ?cu \<noteq> idle s c then set_state ?cu READY (enqueue ?cu s) else s)"
    have b0: "sched_base n s0" "running_except n (\<lambda>d. d = c) s0"
    proof -
      have "running_except n (\<lambda>d. d = c) s" if "?cu = idle s c"
        unfolding running_except_def
      proof (intro conjI allI impI)
        show "st s (current s d) = RUNNING" if "d < n" "d \<noteq> c" for d using runD(1) [OF run that(1)] by simp
        show "\<exists>d<n. d \<noteq> c \<and> current s d = u" if "st s u = RUNNING \<and> \<not> is_idle n s u" for u
          using that \<open>?cu = idle s c\<close> c runD(2) [OF run, of u] by (auto simp: is_idle_def)
      qed
      then show "sched_base n s0" "running_except n (\<lambda>d. d = c) s0"
        using deschedule_base [OF inv c, of READY] base by (auto simp: s0_def)
    qed
    have t0: "t \<notin> set (ready_queue s0)" "\<not> is_idle n s0 t" "st s0 t \<noteq> RUNNING"
      using tq tc t by (auto simp: s0_def is_idle_def)
    note b1 = enqueue_base [OF b0 t0]
    show ?thesis
    proof (rule switch_inv [OF b1 c])
      show "t \<in> set (ready_queue (enqueue t (set_state t READY s0))) \<or> t = idle (enqueue t (set_state t READY s0)) c"
        by simp
      show "ready_queue (sched_ready c t s) = remove1 t (ready_queue (enqueue t (set_state t READY s0)))"
        using True t0(1) by (auto simp: sched_ready_def Let_def s0_def remove1_append)
    qed (use True tc in \<open>auto simp: sched_ready_def Let_def s0_def\<close>)
  qed
qed

lemma sched_ready_top:
  assumes "top_runs c s"
  shows "top_runs c (sched_ready c t s)"
  using assms by (auto simp: top_runs_def sched_ready_def Let_def)

lemma yield_candidate_fold:
  "fold (\<lambda>t best. if P t then Some t else best) xs b
     = (if filter P xs = [] then b else Some (last (filter P xs)))"
  by (induction xs arbitrary: b) auto

lemma yield_candidate_eq: "yield_candidate s cu =
    (let higher = filter (\<lambda>t. prio s t > prio s cu) (ready_queue s) in if higher = [] then None else Some (last higher))"
  by (simp add: yield_candidate_def yield_candidate_fold Let_def)

lemma yield_ok:
  assumes inv: "sched_inv n s" and c: "c < n"
  shows "\<exists>s'. yield (\<lambda>s. s) READY c s = Some s' \<and> sched_inv n s' \<and> prio s' = prio s
     \<and> (if \<forall>t\<in>set (ready_queue s). prio s t \<le> prio s (current s c) then s' = s
        else prio s (current s' c) > prio s (current s c) \<and> current s' c \<in> set (ready_queue s))"
proof (cases "yield_candidate s (current s c)")
  case None
  then have "\<forall>t\<in>set (ready_queue s). prio s t \<le> prio s (current s c)"
    by (auto simp: yield_candidate_eq Let_def filter_empty_conv not_less split: if_splits)
  moreover have "\<forall>t\<in>set (ready_queue s). st s t = READY"
    using inv baseD(2) by (auto simp: sched_inv_def)
  ultimately show ?thesis using None inv by (simp add: yield_def)
next
  case (Some t)
  let ?cu = "current s c"
  let ?s1 = "set_state ?cu READY (if READY = READY \<and> ?cu \<noteq> idle s c then enqueue ?cu s else s)"
  let ?s2 = "set_state t RUNNING (dequeue t ?s1)"
  let ?s' = "cpu_switch_thread c t InYield (?s2\<lparr>thread_switch_count := thread_switch_count ?s2 + 1\<rparr>)"
  have t: "t \<in> set (ready_queue s)" "prio s t > prio s ?cu"
    using Some last_in_set [of "filter (\<lambda>t. prio s t > prio s ?cu) (ready_queue s)"]
    by (auto simp: yield_candidate_eq Let_def split: if_splits)
  have rd: "\<forall>u\<in>set (ready_queue s). st s u = READY"
    using inv baseD(2) by (auto simp: sched_inv_def)
  note b = deschedule_base [OF inv c, of READY]
  have "sched_inv n ?s'"
    by (rule switch_inv [OF b c]) (use t in auto)
  moreover have "yield (\<lambda>s. s) READY c s = Some ?s'"
    using Some rd t by (simp add: yield_def Let_def)
  moreover have "\<not> (\<forall>t\<in>set (ready_queue s). prio s t \<le> prio s ?cu)" using t by force
  ultimately show ?thesis using t by (intro exI [of _ ?s']) auto
qed

lemma sched_sched_ok:
  assumes inv: "sched_inv n s" and c: "c < n" and ns: "ns \<noteq> RUNNING"
  shows "\<exists>s'. sched_sched (\<lambda>s. s) ns c s = Some s' \<and> sched_inv n s' \<and> top_runs c s' \<and> prio s' = prio s"
  using sched_ok [OF deschedule_base [OF inv c ns] c] by (auto simp: sched_sched_def Let_def)

lemma set_prio_inv:
  assumes "sched_inv n s" "0 \<le> p" "p \<le> 63"
  shows "sched_inv n (set_prio t p s)"
proof -
  have base: "sched_base n s" and run: "running_except n (\<lambda>_. False) s" using assms(1) by (simp_all add: sched_inv_def)
  have id: "is_idle n (set_prio t p s) = is_idle n s" by (simp add: is_idle_def fun_eq_iff)
  have "sched_base n (set_prio t p s)"
    unfolding sched_base_def id set_prio_fields
  proof (intro conjI allI impI ballI)
    show "0 \<le> (if u = t then p else prio s u)" "(if u = t then p else prio s u) \<le> 63" for u
      using baseD(4,5) [OF base, of u] assms by simp_all
  qed (use baseD [OF base] base_distinct [OF base] in auto)
  moreover have "running_except n (\<lambda>_. False) (set_prio t p s)"
    using run unfolding running_except_def id set_prio_fields .
  ultimately show ?thesis by (simp add: sched_inv_def)
qed

lemma set_priority_ok:
  assumes inv: "sched_inv n s" and c: "c < n"
  shows "\<exists>s'. thread_set_priority p t c s = Some s' \<and> sched_inv n s'"
proof (cases "p < 0 \<or> p > 63")
  case False
  then have "sched_inv n (set_prio (case t of None \<Rightarrow> current s c | Some t \<Rightarrow> t) p s)"
    by (intro set_prio_inv [OF inv]) simp_all
  from yield_ok [OF this c] show ?thesis using False by (auto simp: thread_set_priority_def)
qed (use inv in \<open>auto simp: thread_set_priority_def\<close>)

section \<open>Events and reachable states\<close>

text \<open>The ways the rest of the kernel enters the scheduler, each on one processor.\<close>

datatype sched_event =
    Wake cpu tid
  | Tick cpu
  | Sleep cpu
  | Exit cpu
  | SetPriority cpu int "tid option"
  | Yield cpu

fun exec_event :: "sched_event \<Rightarrow> sched_state \<Rightarrow> sched_state option" where
  "exec_event (Wake c t) s = Some (sched_ready c t s)"
| "exec_event (Tick c) s = timer_tick c s"
| "exec_event (Sleep c) s = sched_sched (\<lambda>s. s) SLEEPING c s"
| "exec_event (Exit c) s = thread_exit c s"
| "exec_event (SetPriority c p t) s = thread_set_priority p t c s"
| "exec_event (Yield c) s = yield (\<lambda>s. s) READY c s"

text \<open>An event happens on a processor that exists; only a sleeping thread is woken.\<close>

fun event_ok :: "nat \<Rightarrow> sched_event \<Rightarrow> sched_state \<Rightarrow> bool" where
  "event_ok n (Wake c t) s \<longleftrightarrow> c < n \<and> st s t = SLEEPING \<and> \<not> is_idle n s t"
| "event_ok n (Tick c) s \<longleftrightarrow> c < n"
| "event_ok n (Sleep c) s \<longleftrightarrow> c < n"
| "event_ok n (Exit c) s \<longleftrightarrow> c < n"
| "event_ok n (SetPriority c p t) s \<longleftrightarrow> c < n"
| "event_ok n (Yield c) s \<longleftrightarrow> c < n"

inductive sched_reach :: "nat \<Rightarrow> sched_state \<Rightarrow> sched_state \<Rightarrow> bool" for n s0 where
  reach_start: "sched_reach n s0 s0"
| reach_event: "sched_reach n s0 s \<Longrightarrow> event_ok n e s \<Longrightarrow> exec_event e s = Some s' \<Longrightarrow> sched_reach n s0 s'"

inductive_cases sched_reachE: "sched_reach n s0 s"

lemma event_preserves:
  assumes "sched_inv n s" "event_ok n e s"
  shows "\<exists>s'. exec_event e s = Some s' \<and> sched_inv n s'"
proof (cases e)
  case (Wake c t)
  then show ?thesis using sched_ready_inv [OF assms(1), of c t] assms(2) by auto
next
  case (Tick c)
  then show ?thesis using sched_sched_ok [OF assms(1), of c READY] assms(2) by (auto simp: timer_tick_def)
next
  case (Sleep c)
  then show ?thesis using sched_sched_ok [OF assms(1), of c SLEEPING] assms(2) by auto
next
  case (Exit c)
  then show ?thesis using sched_sched_ok [OF assms(1), of c ZOMBIE] assms(2) by (auto simp: thread_exit_def)
next
  case (SetPriority c p t)
  then show ?thesis using set_priority_ok [OF assms(1), of c p t] assms(2) by auto
next
  case (Yield c)
  then show ?thesis using yield_ok [OF assms(1), of c] assms(2) by auto
qed

lemma reach_inv: "sched_reach n s0 s \<Longrightarrow> sched_inv n s0 \<Longrightarrow> sched_inv n s"
proof (induction rule: sched_reach.induct)
  case (reach_event s e s')
  then show ?case using event_preserves [of n s e] by auto
qed

section \<open>Equal priorities take turns\<close>

primrec ticks :: "nat \<Rightarrow> cpu \<Rightarrow> sched_state \<Rightarrow> sched_state option" where
  "ticks 0 c s = Some s"
| "ticks (Suc k) c s = do { s \<leftarrow> timer_tick c s; ticks k c s }"

lemma tick_rotates:
  assumes inv: "sched_inv n s" and c: "c < n" and ni: "\<not> is_idle n s (current s c)"
    and eq: "\<forall>t\<in>set (current s c # ready_queue s). prio s t = p"
  shows "\<exists>s'. timer_tick c s = Some s' \<and> sched_inv n s' \<and> prio s' = prio s \<and> idle s' = idle s
           \<and> current s' c # ready_queue s' = rotate1 (current s c # ready_queue s)"
proof -
  define s1 where "s1 = set_state (current s c) READY
    (if READY = READY \<and> current s c \<noteq> idle s c then enqueue (current s c) s else s)"
  have q: "ready_queue s1 = ready_queue s @ [current s c]" and id1: "idle s1 = idle s"
    using ni c by (auto simp: is_idle_def s1_def)
  have pr: "\<And>u. prio s1 u = prio s u" by (simp add: s1_def)
  have b: "sched_base n s1" "running_except n (\<lambda>d. d = c) s1"
    unfolding s1_def by (rule deschedule_base [OF inv c]; simp)+
  obtain s' where s': "sched c s1 = Some s'" "sched_inv n s'" "prio s' = prio s1"
      "ready_queue s' = remove1 (current s' c) (ready_queue s1)"
      "get_max_priority_thread s1 = Some (current s' c)"
    using sched_ok [OF b c] q by auto
  have "\<forall>u\<in>set (ready_queue s1). prio s1 u = p" using eq by (simp add: q pr)
  from mx.pick_equal [OF this s'(5) [unfolded get_max_priority_thread_def]]
  have "current s' c = hd (ready_queue s1)" "ready_queue s' = tl (ready_queue s1)"
    unfolding s'(4) by blast+
  then have "current s' c # ready_queue s' = rotate1 (current s c # ready_queue s)" by (simp add: q)
  moreover have "idle s' = idle s1"
    using s'(1) by (auto simp: sched_def Let_def bind_Some_iff split: if_splits)
  moreover have "timer_tick c s = Some s'"
    using s'(1) by (simp add: timer_tick_def sched_sched_def Let_def s1_def)
  ultimately show ?thesis using s'(2,3) pr id1 by (auto simp: fun_eq_iff)
qed

lemma ticks_rotate:
  assumes "sched_inv n s" "c < n" "\<forall>t\<in>set (current s c # ready_queue s). prio s t = p \<and> \<not> is_idle n s t"
  shows "\<exists>s'. ticks k c s = Some s' \<and> sched_inv n s'
           \<and> current s' c # ready_queue s' = rotate k (current s c # ready_queue s)"
  using assms
proof (induction k arbitrary: s)
  case (Suc k)
  obtain s1 where s1: "timer_tick c s = Some s1" "sched_inv n s1" "prio s1 = prio s" "idle s1 = idle s"
      "current s1 c # ready_queue s1 = rotate1 (current s c # ready_queue s)"
    using tick_rotates [OF Suc.prems(1,2), of p] Suc.prems(3) by auto
  have "set (current s1 c # ready_queue s1) = set (current s c # ready_queue s)"
    using s1(5) by (metis set_rotate1)
  then have "\<forall>t\<in>set (current s1 c # ready_queue s1). prio s1 t = p \<and> \<not> is_idle n s1 t"
    using Suc.prems(3) s1(3,4) by (simp add: is_idle_def fun_eq_iff)
  from Suc.IH [OF s1(2) Suc.prems(2) this] show ?case
    using s1(1,5) by (auto simp: rotate1_rotate_swap)
qed simp

section \<open>Properties\<close>

text \<open>C16: every scheduler entry point keeps the scheduler consistent. From a state that satisfies the
  invariant, on any number of processors, every sequence of wake-ups, timer ticks, sleeps, exits,
  priority changes and yields leads to a state in which no thread runs on two processors, exactly
  the ready threads are in the queue, once each, and the next event never fails an assertion.\<close>

theorem sched_invariant:
  assumes "sched_inv n s0" "sched_reach n s0 s" "event_ok n e s"
  shows "sched_inv n s \<and> (\<exists>s'. exec_event e s = Some s' \<and> sched_inv n s')"
  using reach_inv [OF assms(2,1)] event_preserves [of n s e] assms(3) by blast

definition two_threads :: "sched_state" where
  "two_threads = \<lparr>thr = (\<lambda>t. if t = 0 then \<lparr>priority = 0, state = READY, resume = InSched\<rparr>
       else if t = 1 then \<lparr>priority = 10, state = RUNNING, resume = Fresh\<rparr>
       else if t = 2 then \<lparr>priority = 10, state = READY, resume = InSched\<rparr>
       else \<lparr>priority = 20, state = SLEEPING, resume = InSched\<rparr>),
     ready_queue = [2], current = (\<lambda>_. 1), idle = (\<lambda>_. 0), thread_switch_count = 0, reaped = []\<rparr>"

lemma two_threads_inv: "sched_inv 1 two_threads"
  by (auto simp: sched_inv_def sched_base_def running_except_def is_idle_def two_threads_def)

theorem sched_invariant_witness:
  "sched_inv 1 two_threads \<and> (\<exists>s'. exec_event (Wake 0 3) two_threads = Some s' \<and> sched_inv 1 s')"
  by (rule sched_invariant [OF two_threads_inv reach_start])
    (simp add: two_threads_def is_idle_def)

text \<open>C1: the scheduler runs a thread of the highest priority. After \<^verbatim>\<open>sched_sched\<close> no ready thread outranks
  the thread that runs; the thread chosen is the first in the queue among those of the highest
  priority; and a wake-up keeps it so, because a woken thread that outranks the current one takes over.\<close>

theorem highest_priority_runs:
  assumes "sched_inv n s" "c < n" "ns \<noteq> RUNNING"
  shows "\<exists>s'. sched_sched (\<lambda>s. s) ns c s = Some s' \<and> (\<forall>t\<in>set (ready_queue s'). prio s' t \<le> prio s' (current s' c))
     \<and> (\<forall>t. \<forall>u\<in>set (ready_queue (sched_ready c t s')).
          prio (sched_ready c t s') u \<le> prio (sched_ready c t s') (current (sched_ready c t s') c))"
  using sched_sched_ok [OF assms] sched_ready_top unfolding top_runs_def by blast

theorem highest_priority_runs_witness:
  "\<exists>s'. sched_sched (\<lambda>s. s) SLEEPING 0 two_threads = Some s'
     \<and> (\<forall>t\<in>set (ready_queue s'). prio s' t \<le> prio s' (current s' 0))
     \<and> (\<forall>t. \<forall>u\<in>set (ready_queue (sched_ready 0 t s')).
          prio (sched_ready 0 t s') u \<le> prio (sched_ready 0 t s') (current (sched_ready 0 t s') 0))"
  by (rule highest_priority_runs [OF two_threads_inv]) simp_all

text \<open>C29: threads of equal priority take turns. When the running thread and all ready threads have the same
  priority, k timer ticks rotate the line of threads k times, so each of them runs within as many
  ticks as there are threads: none starves.\<close>

theorem equal_priority_round_robin:
  assumes "sched_inv n s" "c < n" "\<forall>t\<in>set (current s c # ready_queue s). prio s t = p \<and> \<not> is_idle n s t"
    and "t \<in> set (ready_queue s)"
  shows "\<exists>k s'. k \<le> length (ready_queue s) \<and> ticks k c s = Some s' \<and> current s' c = t"
proof -
  obtain i where i: "i < length (ready_queue s)" "ready_queue s ! i = t"
    using assms(4) by (auto simp: in_set_conv_nth)
  obtain s' where s': "ticks (Suc i) c s = Some s'"
      "current s' c # ready_queue s' = rotate (Suc i) (current s c # ready_queue s)"
    using ticks_rotate [OF assms(1-3)] by blast
  have "hd (rotate (Suc i) (current s c # ready_queue s)) = (current s c # ready_queue s) ! Suc i"
    using i(1) by (subst hd_rotate_conv_nth) simp_all
  then have "current s' c = t" using s'(2) i(2) by (metis list.sel(1) nth_Cons_Suc)
  then show ?thesis using i(1) s'(1) by (intro exI [of _ "Suc i"]) auto
qed

theorem equal_priority_round_robin_witness:
  "\<exists>k s'. k \<le> length (ready_queue two_threads) \<and> ticks k 0 two_threads = Some s' \<and> current s' 0 = 2"
  by (rule equal_priority_round_robin [OF two_threads_inv])
    (auto simp: two_threads_def is_idle_def)

lemma sched_cases:
  assumes "sched c s = Some s'"
  obtains nt s2 where "s2 = s \<or> s2 = dequeue nt s" "st s nt = READY \<or> nt = idle s c"
    "s' = (let s3 = set_state nt RUNNING s2; s3 = s3\<lparr>thread_switch_count := thread_switch_count s3 + 1\<rparr>
           in if current s c \<noteq> nt then cpu_switch_thread c nt InSched s3 else s3)"
proof (cases "ready_queue s = []")
  case True
  then show ?thesis using assms by (intro that [of s "idle s c"]) (simp_all add: sched_def Let_def)
next
  case False
  then obtain t where t: "get_max_priority_thread s = Some t" "st s t = READY"
    using assms by (auto simp: sched_def bind_Some_iff Let_def split: if_splits)
  then show ?thesis
    using False assms by (intro that [of "dequeue t s" t]) (simp_all add: sched_def Let_def)
qed

text \<open>an exiting thread is reclaimed only if the thread that runs next was itself suspended in
  \<^verbatim>\<open>sched_sched\<close>. If the next thread was suspended in \<^verbatim>\<open>sched_ready\<close> or \<^verbatim>\<open>yield\<close>, or is new, the zombie
  stays unreclaimed: its stack and its structure are leaked.\<close>

theorem zombie_reclaimed_iff:
  assumes "sched_inv n s" "c < n" "thread_exit c s = Some s'" "current s' c \<noteq> current s c"
  shows "reaped s' = (if resume (thr s (current s' c)) = InSched then current s c # reaped s else reaped s)
         \<and> st s' (current s c) = ZOMBIE"
proof -
  define s1 where "s1 = set_state (current s c) ZOMBIE s"
  have "sched c s1 = Some s'"
    using assms(3) by (simp add: thread_exit_def sched_sched_def Let_def s1_def)
  then obtain nt s2 where s2: "s2 = s1 \<or> s2 = dequeue nt s1" "st s1 nt = READY \<or> nt = idle s1 c"
    and s': "s' = (let s = set_state nt RUNNING s2; s = s\<lparr>thread_switch_count := thread_switch_count s + 1\<rparr>
                   in if current s1 c \<noteq> nt then cpu_switch_thread c nt InSched s else s)"
    by (rule sched_cases)
  have f: "current s2 = current s" "thr s2 = thr s1" "reaped s2 = reaped s" "current s1 = current s"
    using s2(1) by (auto simp: s1_def)
  have nt: "current s c \<noteq> nt" using assms(4) s' f by (auto simp: Let_def)
  then have "current s' c = nt" using s' f by (simp add: Let_def)
  then show ?thesis
    using s' f nt by (auto simp: Let_def cpu_switch_thread_def set_state_def s1_def)
qed

definition after_yield :: "sched_state" where
  "after_yield = two_threads\<lparr>thr := (thr two_threads)(2 := \<lparr>priority = 10, state = READY, resume = InYield\<rparr>)\<rparr>"

lemma after_yield_inv: "sched_inv 1 after_yield"
  by (auto simp: sched_inv_def sched_base_def running_except_def is_idle_def two_threads_def after_yield_def)

lemma after_yield_exit: "\<exists>s'. thread_exit 0 after_yield = Some s' \<and> current s' 0 = 2"
  by (simp add: thread_exit_def sched_sched_def sched_def get_max_priority_thread_def Let_def
      after_yield_def two_threads_def set_state_def dequeue_def)

theorem zombie_reclaimed_iff_witness:
  "\<exists>s'. thread_exit 0 after_yield = Some s' \<and> reaped s' = [] \<and> st s' 1 = ZOMBIE"
proof -
  obtain s' where s': "thread_exit 0 after_yield = Some s'" "current s' 0 = 2"
    using after_yield_exit by blast
  have cu: "current after_yield 0 = 1" by (simp add: after_yield_def two_threads_def)
  from zombie_reclaimed_iff [OF after_yield_inv _ s'(1)]
  show ?thesis using s' cu by (simp add: after_yield_def two_threads_def)
qed

text \<open>\<^verbatim>\<open>yield\<close> switches exactly when some ready thread outranks the current one, and then to one that
  does; but it takes the last such thread of the queue, not the one of the highest priority, as its
  comment and header say: with priorities 30 and 20 ready, a thread of priority 10 yields to 20.\<close>

theorem yield_takes_last_higher:
  assumes "sched_inv n s" "c < n" "\<not> (\<forall>t\<in>set (ready_queue s). prio s t \<le> prio s (current s c))"
  shows "\<exists>s'. yield (\<lambda>s. s) READY c s = Some s'
     \<and> current s' c = last (filter (\<lambda>t. prio s t > prio s (current s c)) (ready_queue s))"
proof -
  let ?hi = "filter (\<lambda>t. prio s t > prio s (current s c)) (ready_queue s)"
  have ne: "?hi \<noteq> []" using assms(3) by (auto simp: filter_empty_conv not_le)
  then have "last ?hi \<in> set (ready_queue s)" using last_in_set [of ?hi] by auto
  moreover have "\<forall>t\<in>set (ready_queue s). st s t = READY"
    using assms(1) baseD(2) by (auto simp: sched_inv_def)
  ultimately show ?thesis using ne by (auto simp: yield_def yield_candidate_eq Let_def)
qed

definition low_runs :: "sched_state" where
  "low_runs = \<lparr>thr = (\<lambda>t. if t = 0 then \<lparr>priority = 0, state = READY, resume = InSched\<rparr>
       else if t = 1 then \<lparr>priority = 10, state = RUNNING, resume = Fresh\<rparr>
       else if t = 2 then \<lparr>priority = 30, state = READY, resume = InSched\<rparr>
       else if t = 3 then \<lparr>priority = 20, state = READY, resume = InSched\<rparr>
       else \<lparr>priority = 5, state = SLEEPING, resume = InSched\<rparr>),
     ready_queue = [2, 3], current = (\<lambda>_. 1), idle = (\<lambda>_. 0), thread_switch_count = 0, reaped = []\<rparr>"

theorem yield_takes_last_higher_witness:
  "\<exists>s'. yield (\<lambda>s. s) READY 0 low_runs = Some s' \<and> current s' 0 = 3 \<and> get_max_priority_thread low_runs = Some 2"
proof -
  have "sched_inv 1 low_runs"
    by (auto simp: sched_inv_def sched_base_def running_except_def is_idle_def low_runs_def)
  from yield_takes_last_higher [OF this, of 0] show ?thesis
    by (simp add: low_runs_def get_max_priority_thread_def)
qed

end
