(* ===== verification/Synch.thy ===== *)
theory Synch
  imports Sched
begin

text \<open>
  Spinlocks with priority donation and condition variables (\<^verbatim>\<open>kernel/synch.c\<close>), on top of the
  scheduler of \<open>Sched\<close>; \<open>Sleeplock\<close> has the sleeplocks.

  \<^verbatim>\<open>spinlock_acquire\<close> is two steps: the entry (the check for a lock held twice, and the donation of
  priority, which may switch threads) and one turn of the spin loop, which either takes the lock or
  keeps spinning. \<^verbatim>\<open>sched_lock\<close> is held inside \<^verbatim>\<open>sched_sched\<close>; code that runs there and
  enters the scheduler again would acquire a lock it holds, which panics.
\<close>

section \<open>Spinlocks\<close>

record spinlock =
  lock_status :: bool
  holder :: "tid option"
  is_donation :: bool
  donor :: tid

text \<open>\<^verbatim>\<open>spinlock_init\<close> does not write the two donation fields.\<close>

definition spinlock_init :: "spinlock \<Rightarrow> spinlock" where
  "spinlock_init lk = lk\<lparr>lock_status := False, holder := None\<rparr>"

definition spinlock_acquire_enter :: "cpu \<Rightarrow> spinlock \<Rightarrow> sched_state \<Rightarrow> (spinlock \<times> sched_state) option" where
  "spinlock_acquire_enter c lk s =
     (let cu = current s c in
      case holder lk of
        None \<Rightarrow> Some (lk, s)
      | Some h \<Rightarrow>
          if h = cu then None
          else if prio s h < prio s cu then do {
            let lk = lk\<lparr>is_donation := True, donor := cu\<rparr>;
            let donor_priority = prio s cu;
            let s = set_prio cu (prio s h) s;
            s \<leftarrow> thread_set_priority donor_priority (Some h) c s;
            Some (lk, s)
          }
          else Some (lk, s))"

definition spinlock_acquire_spin :: "tid \<Rightarrow> spinlock \<Rightarrow> spinlock outcome" where
  "spinlock_acquire_spin t lk =
     (if lock_status lk then Blocked else Ret (lk\<lparr>lock_status := True, holder := Some t\<rparr>))"

definition spinlock_try_acquire :: "cpu \<Rightarrow> spinlock \<Rightarrow> sched_state \<Rightarrow> (err \<times> spinlock) option" where
  "spinlock_try_acquire c lk s = do {
     kassert (holder lk \<noteq> Some (current s c));
     Some (if \<not> lock_status lk then (ERR_OK, lk\<lparr>lock_status := True, holder := Some (current s c)\<rparr>)
           else (ERR_LOCK_BUSY, lk))
   }"

definition spinlock_release :: "cpu \<Rightarrow> spinlock \<Rightarrow> sched_state \<Rightarrow> (spinlock \<times> sched_state) option" where
  "spinlock_release c lk s = do {
     (lk, s, return_priority) \<leftarrow>
       (if is_donation lk then do {
          h \<leftarrow> holder lk;
          Some (lk\<lparr>is_donation := False\<rparr>, set_prio h (prio s (donor lk)) s, prio s h)
        }
        else Some (lk, s, 0));
     let lk = lk\<lparr>holder := None, lock_status := False\<rparr>;
     (if return_priority \<noteq> 0 then do {
        s \<leftarrow> thread_set_priority return_priority (Some (donor lk)) c s;
        Some (lk, s)
      }
      else Some (lk, s))
   }"

section \<open>Condition variables\<close>

type_synonym condvar = "tid list"

definition condvar_init :: condvar where
  "condvar_init = []"

text \<open>Releasing a spinlock inside \<^verbatim>\<open>sched_sched\<close>. Returning a donated priority calls \<^verbatim>\<open>yield\<close>, which acquires
  \<^verbatim>\<open>sched_lock\<close>, already held by this thread: a panic.\<close>

definition spinlock_release_in_sched :: "spinlock \<Rightarrow> sched_state \<Rightarrow> (spinlock \<times> sched_state) option" where
  "spinlock_release_in_sched lk s = do {
     (lk, s, return_priority) \<leftarrow>
       (if is_donation lk then do {
          h \<leftarrow> holder lk;
          Some (lk\<lparr>is_donation := False\<rparr>, set_prio h (prio s (donor lk)) s, prio s h)
        }
        else Some (lk, s, 0));
     kassert (return_priority = 0 \<or> return_priority < PRI_MIN \<or> return_priority > PRI_MAX);
     Some (lk\<lparr>holder := None, lock_status := False\<rparr>, s)
   }"

text \<open>\<^verbatim>\<open>condvar_wait\<close> up to the switch; the lock is acquired again when the thread is resumed.\<close>

definition condvar_wait ::
    "cpu \<Rightarrow> condvar \<Rightarrow> spinlock \<Rightarrow> sched_state \<Rightarrow> (condvar \<times> spinlock \<times> sched_state) option" where
  "condvar_wait c cv lk s = do {
     let t = current s c;
     kassert (holder lk = Some t);
     let cv = cv @ [t];
     (lk, s1) \<leftarrow> spinlock_release_in_sched lk (set_state t SLEEPING s);
     s' \<leftarrow> sched c s1;
     Some (cv, lk, s')
   }"

definition condvar_signal :: "cpu \<Rightarrow> condvar \<Rightarrow> sched_state \<Rightarrow> condvar \<times> sched_state" where
  "condvar_signal c cv s = (case cv of [] \<Rightarrow> ([], s) | w # ws \<Rightarrow> (ws, sched_ready c w s))"

text \<open>A woken thread may take over the processor; then the rest of the list is woken when the caller
  \<open>me\<close> runs again, and is returned here.\<close>

fun condvar_broadcast :: "cpu \<Rightarrow> tid \<Rightarrow> condvar \<Rightarrow> sched_state \<Rightarrow> condvar \<times> sched_state" where
  "condvar_broadcast c me [] s = ([], s)"
| "condvar_broadcast c me (w # ws) s =
     (let s = sched_ready c w s in
      if current s c = me then condvar_broadcast c me ws s else (ws, s))"

section \<open>Donation\<close>

lemma thread_set_priority_prio:
  assumes "sched_inv n s" "c < n" "0 \<le> p" "p \<le> 63"
  shows "\<exists>s'. thread_set_priority p (Some t) c s = Some s' \<and> sched_inv n s'
           \<and> (\<forall>u. prio s' u = (if u = t then p else prio s u))"
  using yield_ok [OF set_prio_inv [OF assms(1,3,4), of t] assms(2)] assms(3,4)
  by (auto simp: thread_set_priority_def fun_eq_iff)

lemma inv_prio: "sched_inv n s \<Longrightarrow> 0 \<le> prio s t \<and> prio s t \<le> 63"
  using baseD(4,5) [of n s t] by (auto simp: sched_inv_def)

lemma acquire_donates:
  assumes "sched_inv n s" "c < n" "holder lk = Some h" "h \<noteq> current s c" "prio s h < prio s (current s c)"
  shows "\<exists>s'. spinlock_acquire_enter c lk s = Some (lk\<lparr>is_donation := True, donor := current s c\<rparr>, s')
           \<and> sched_inv n s'
           \<and> (\<forall>u. prio s' u = (if u = h then prio s (current s c)
                              else if u = current s c then prio s h else prio s u))"
proof -
  let ?cu = "current s c"
  have "sched_inv n (set_prio ?cu (prio s h) s)"
    using inv_prio [OF assms(1), of h] by (intro set_prio_inv [OF assms(1)]) simp_all
  from thread_set_priority_prio [OF this assms(2), of "prio s ?cu" h] inv_prio [OF assms(1), of ?cu]
  obtain s' where s': "thread_set_priority (prio s ?cu) (Some h) c (set_prio ?cu (prio s h) s) = Some s'"
      "sched_inv n s'"
      "\<forall>u. prio s' u = (if u = h then prio s ?cu else prio (set_prio ?cu (prio s h) s) u)" by auto
  then show ?thesis using assms(3-5) by (auto simp: spinlock_acquire_enter_def Let_def)
qed

lemma release_returns:
  assumes "sched_inv n s" "c < n" "holder lk = Some h" "is_donation lk" "h \<noteq> donor lk" "prio s h > 0"
  shows "\<exists>s'. spinlock_release c lk s = Some (lk\<lparr>is_donation := False, holder := None, lock_status := False\<rparr>, s')
           \<and> sched_inv n s'
           \<and> (\<forall>u. prio s' u = (if u = donor lk then prio s h else if u = h then prio s (donor lk) else prio s u))"
proof -
  have "sched_inv n (set_prio h (prio s (donor lk)) s)"
    using inv_prio [OF assms(1), of "donor lk"] by (intro set_prio_inv [OF assms(1)]) simp_all
  from thread_set_priority_prio [OF this assms(2), of "prio s h" "donor lk"] inv_prio [OF assms(1), of h]
  obtain s' where "thread_set_priority (prio s h) (Some (donor lk)) c (set_prio h (prio s (donor lk)) s) = Some s'"
      "sched_inv n s'"
      "\<forall>u. prio s' u = (if u = donor lk then prio s h else prio (set_prio h (prio s (donor lk)) s) u)" by auto
  then show ?thesis using assms(3-6) by (auto simp: spinlock_release_def Let_def)
qed

lemma release_plain:
  "\<not> is_donation lk \<Longrightarrow> spinlock_release c lk s = Some (lk\<lparr>holder := None, lock_status := False\<rparr>, s)"
  by (simp add: spinlock_release_def Let_def)

section \<open>What the scheduler leaves alone\<close>

lemma sched_frame:
  assumes "sched c s = Some s'" "st s t \<noteq> READY" "t \<noteq> idle s c"
  shows "st s' t = st s t \<and> idle s' = idle s \<and> prio s' t = prio s t"
proof -
  from assms(1) obtain nt s2 where f: "s2 = s \<or> s2 = dequeue nt s" "st s nt = READY \<or> nt = idle s c"
    "s' = (let s3 = set_state nt RUNNING s2; s3 = s3\<lparr>thread_switch_count := thread_switch_count s3 + 1\<rparr>
           in if current s c \<noteq> nt then cpu_switch_thread c nt InSched s3 else s3)"
    by (rule sched_cases)
  have "t \<noteq> nt" using f(2) assms(2,3) by auto
  then show ?thesis using f(1,3) by (auto simp: Let_def)
qed

lemma deschedule_frame:
  assumes "sched_sched (\<lambda>s. s) ns c s = Some s'" "sched_inv n s" "c < n" "st s t = SLEEPING" "\<not> is_idle n s t"
  shows "st s' t = SLEEPING \<and> idle s' = idle s"
proof -
  let ?s1 = "set_state (current s c) ns (if ns = READY \<and> current s c \<noteq> idle s c then enqueue (current s c) s else s)"
  have "st s (current s c) = RUNNING" using assms(2,3) runD(1) by (auto simp: sched_inv_def)
  then have "t \<noteq> current s c" using assms(4) by auto
  moreover have "sched c ?s1 = Some s'" using assms(1) by (simp add: sched_sched_def Let_def)
  moreover have "t \<noteq> idle s c" using assms(3,5) by (auto simp: is_idle_def)
  ultimately show ?thesis using sched_frame [of c ?s1 s' t] assms(4) by auto
qed

lemma yield_frame:
  assumes "yield (\<lambda>s. s) READY c s = Some s'" "sched_inv n s" "c < n" "st s t = SLEEPING"
  shows "st s' t = SLEEPING \<and> idle s' = idle s"
proof -
  have r: "\<forall>u\<in>set (ready_queue s). st s u = READY" using assms(2) baseD(2) by (auto simp: sched_inv_def)
  have "st s (current s c) = RUNNING" using assms(2,3) runD(1) by (auto simp: sched_inv_def)
  then have tc: "t \<noteq> current s c" using assms(4) by auto
  show ?thesis
  proof (cases "yield_candidate s (current s c)")
    case (Some u)
    then have "u \<in> set (ready_queue s)"
      using last_in_set [of "filter (\<lambda>t. prio s t > prio s (current s c)) (ready_queue s)"]
      by (auto simp: yield_candidate_eq Let_def split: if_splits)
    then have "u \<noteq> t" "st s u = READY" using r assms(4) by auto
    then show ?thesis using assms(1,4) Some tc r by (auto simp: yield_def Let_def split: if_splits)
  qed (use assms r in \<open>auto simp: yield_def\<close>)
qed

lemma ready_frame:
  assumes "sched_inv n s" "c < n" "st s t = SLEEPING" "u \<noteq> t"
  shows "st (sched_ready c u s) t = SLEEPING \<and> idle (sched_ready c u s) = idle s"
proof -
  have "st s (current s c) = RUNNING" using assms(1,2) runD(1) by (auto simp: sched_inv_def)
  then have "t \<noteq> current s c" using assms(3) by auto
  then show ?thesis using assms by (auto simp: sched_ready_def Let_def)
qed

lemma sleeping_stays:
  assumes "sched_inv n s" "event_ok n e s" "exec_event e s = Some s'"
    and "st s t = SLEEPING" "\<not> is_idle n s t" "\<forall>c. e \<noteq> Wake c t"
  shows "st s' t = SLEEPING \<and> idle s' = idle s"
proof (cases e)
  case (SetPriority c p v)
  show ?thesis
  proof (cases "p < 0 \<or> p > 63")
    case False
    then have "sched_inv n (set_prio (case v of None \<Rightarrow> current s c | Some t \<Rightarrow> t) p s)"
      by (intro set_prio_inv [OF assms(1)]) simp_all
    then show ?thesis
      using yield_frame [of c _ s' n t] SetPriority assms False by (fastforce simp: thread_set_priority_def)
  qed (use SetPriority assms in \<open>auto simp: thread_set_priority_def\<close>)
qed (use assms deschedule_frame ready_frame yield_frame in
      \<open>auto simp: timer_tick_def thread_exit_def\<close>)

lemma sched_idle: "sched c s = Some s' \<Longrightarrow> idle s' = idle s"
  by (erule sched_cases) (auto simp: Let_def)

lemma sched_sched_idle: "sched_sched (\<lambda>s. s) ns c s = Some s' \<Longrightarrow> idle s' = idle s"
  using sched_idle by (fastforce simp: sched_sched_def Let_def split: if_splits)

lemma yield_idle: "yield (\<lambda>s. s) ns c s = Some s' \<Longrightarrow> idle s' = idle s"
  by (auto simp: yield_def Let_def split: option.splits if_splits)

lemma sched_ready_idle [simp]: "idle (sched_ready c t s) = idle s"
  by (simp add: sched_ready_def Let_def)

lemma event_idle: "exec_event e s = Some s' \<Longrightarrow> idle s' = idle s"
  by (cases e) (auto simp: timer_tick_def thread_exit_def thread_set_priority_def
      dest!: sched_sched_idle yield_idle split: if_splits)

lemma is_idle_cong: "idle s' = idle s \<Longrightarrow> is_idle n s' = is_idle n s"
  by (simp add: is_idle_def fun_eq_iff)

section \<open>Properties\<close>

text \<open>C21: one priority donation is undone exactly. When a thread meets a spinlock held by a thread of lower
  priority, the holder gets the priority of the thread that waits. Provided that until the release no other thread donates to the lock and
  nobody else changes the priorities of the two threads, the release gives both their own priorities back, whatever happened to
  the priorities of other threads, leaves those alone, and frees the lock. The proviso is needed: \<open>second_donation_lost\<close> shows that the
  priorities do not come back when a second thread donates in between.\<close>

theorem donation_round_trip:
  assumes "sched_inv n s" "c < n" "holder lk = Some h" "h \<noteq> current s c" "prio s h < prio s (current s c)"
    and "spinlock_acquire_enter c lk s = Some (lk1, s1)"
    and "sched_inv n s2" "c2 < n" "prio s2 h = prio s1 h" "prio s2 (current s c) = prio s1 (current s c)"
  shows "prio s1 h = prio s (current s c) \<and> (\<exists>lk3 s3. spinlock_release c2 lk1 s2 = Some (lk3, s3)
     \<and> sched_inv n s3 \<and> \<not> lock_status lk3 \<and> holder lk3 = None \<and> \<not> is_donation lk3
     \<and> prio s3 h = prio s h \<and> prio s3 (current s c) = prio s (current s c)
     \<and> (\<forall>u. u \<noteq> h \<and> u \<noteq> current s c \<longrightarrow> prio s3 u = prio s2 u))"
proof -
  let ?cu = "current s c"
  have lk1: "lk1 = lk\<lparr>is_donation := True, donor := ?cu\<rparr>"
    and pr: "\<And>u. prio s1 u = (if u = h then prio s ?cu else if u = ?cu then prio s h else prio s u)"
    using acquire_donates [OF assms(1-5)] assms(6) by auto
  have "prio s2 h > 0" using pr [of h] assms(5,9) inv_prio [OF assms(1), of h] by auto
  from release_returns [OF assms(7,8), of lk1 h] this assms(3,4)
  show ?thesis using pr assms(4,9,10) by (auto simp: lk1)
qed

definition low_holds :: sched_state where
  "low_holds = \<lparr>thr = (\<lambda>t. if t = 0 \<or> t = 9 then \<lparr>priority = 0, state = READY, resume = InSched\<rparr>
       else if t = 1 then \<lparr>priority = 20, state = RUNNING, resume = Fresh\<rparr>
       else if t = 2 then \<lparr>priority = 5, state = READY, resume = InSched\<rparr>
       else if t = 3 then \<lparr>priority = 40, state = RUNNING, resume = Fresh\<rparr>
       else \<lparr>priority = 10, state = SLEEPING, resume = InSched\<rparr>),
     ready_queue = [2], current = (\<lambda>c. if c = 0 then 1 else 3), idle = (\<lambda>c. if c = 0 then 0 else 9),
     thread_switch_count = 0, reaped = []\<rparr>"

definition low_lock :: spinlock where
  "low_lock = \<lparr>lock_status = True, holder = Some 2, is_donation = False, donor = 0\<rparr>"

lemma less_two: "c < 2 \<longleftrightarrow> c = 0 \<or> c = Suc 0" for c :: nat by auto

lemma low_holds_inv: "sched_inv 2 low_holds"
  unfolding sched_inv_def sched_base_def running_except_def is_idle_def less_two low_holds_def by auto

lemma low_holds_enter:
  "\<exists>lk1 s1. spinlock_acquire_enter 0 low_lock low_holds = Some (lk1, s1) \<and> sched_inv 2 s1"
  using acquire_donates [OF low_holds_inv, of 0 low_lock 2] by (auto simp: low_holds_def low_lock_def)

theorem donation_round_trip_witness:
  "\<exists>lk1 s1 lk3 s3. spinlock_acquire_enter 0 low_lock low_holds = Some (lk1, s1) \<and> prio s1 2 = 20
     \<and> spinlock_release 0 lk1 s1 = Some (lk3, s3) \<and> prio s3 1 = 20 \<and> prio s3 2 = 5 \<and> \<not> lock_status lk3"
proof -
  obtain lk1 s1 where e: "spinlock_acquire_enter 0 low_lock low_holds = Some (lk1, s1)" "sched_inv 2 s1"
    using low_holds_enter by blast
  from donation_round_trip [OF low_holds_inv _ _ _ _ e(1) e(2), of 2 0] show ?thesis
    using e(1) by (auto simp: low_holds_def low_lock_def)
qed

lemma yield_other_cpu: "yield (\<lambda>s. s) ns c s = Some s' \<Longrightarrow> d \<noteq> c \<Longrightarrow> current s' d = current s d"
  by (auto simp: yield_def Let_def split: option.splits if_splits)

lemma enter_other_cpu:
  "spinlock_acquire_enter c lk s = Some (lk', s') \<Longrightarrow> d \<noteq> c \<Longrightarrow> current s' d = current s d"
  using yield_other_cpu
  by (fastforce simp: spinlock_acquire_enter_def thread_set_priority_def Let_def bind_Some_iff
      split: option.splits if_splits)

text \<open>a second donation to the same lock is not undone. If a thread of middle and then a thread of high
  priority wait for a lock held by a thread of low priority, the release gives the high thread its
  priority back, but leaves the low thread with the middle priority and the middle thread with the
  low one: the lock remembers one donor only.\<close>

theorem second_donation_lost:
  assumes "sched_inv n s" "c < n" "holder lk = Some l" "m = current s c" "l \<noteq> m" "prio s l < prio s m"
    and "spinlock_acquire_enter c lk s = Some (lk1, s1)"
    and "sched_inv n s2" "c2 < n" "\<forall>u. prio s2 u = prio s1 u" "h = current s2 c2" "h \<noteq> l" "h \<noteq> m" "prio s m < prio s h"
    and "spinlock_acquire_enter c2 lk1 s2 = Some (lk3, s3)"
    and "sched_inv n s4" "c4 < n" "\<forall>u. prio s4 u = prio s3 u"
  shows "\<exists>lk5 s5. spinlock_release c4 lk3 s4 = Some (lk5, s5)
     \<and> prio s5 h = prio s h \<and> prio s5 l = prio s m \<and> prio s5 m = prio s l"
proof -
  have lk1: "lk1 = lk\<lparr>is_donation := True, donor := m\<rparr>"
    and p1: "\<And>u. prio s1 u = (if u = l then prio s m else if u = m then prio s l else prio s u)"
    using acquire_donates [OF assms(1-3)] assms(4-7) by auto
  have p2: "prio s2 l = prio s m" "prio s2 h = prio s h" "prio s2 m = prio s l"
    using assms(5,10,12,13) p1 by simp_all
  have hl: "holder lk1 = Some l" using lk1 assms(3) by simp
  have lk3: "lk3 = lk1\<lparr>is_donation := True, donor := h\<rparr>"
    and p3: "\<And>u. prio s3 u = (if u = l then prio s2 h else if u = h then prio s2 l else prio s2 u)"
    using acquire_donates [OF assms(8,9) hl] assms(11,12,14,15) p2 by auto
  have p4: "prio s4 l = prio s h" "prio s4 h = prio s m" "prio s4 m = prio s l"
    using assms(5,12,13,18) p2 p3 by simp_all
  have pos: "prio s4 l > 0" using p4 assms(14) inv_prio [OF assms(1), of m] by auto
  have "holder lk3 = Some l" "is_donation lk3" "donor lk3 = h" using lk3 hl by simp_all
  with release_returns [OF assms(16,17), of lk3 l] pos assms(5,12,13)
  show ?thesis using p4 by auto
qed

theorem second_donation_lost_witness:
  "\<exists>lk1 s1 lk3 s3 lk5 s5. spinlock_acquire_enter 0 low_lock low_holds = Some (lk1, s1)
     \<and> spinlock_acquire_enter 1 lk1 s1 = Some (lk3, s3) \<and> spinlock_release 0 lk3 s3 = Some (lk5, s5)
     \<and> prio s5 3 = 40 \<and> prio s5 2 = 20 \<and> prio s5 1 = 5"
proof -
  obtain lk1 s1 where e: "spinlock_acquire_enter 0 low_lock low_holds = Some (lk1, s1)" "sched_inv 2 s1"
    using low_holds_enter by blast
  have lk1: "holder lk1 = Some 2"
    and p1: "\<And>u. prio s1 u = (if u = 2 then 20 else if u = 1 then 5 else prio low_holds u)"
    using acquire_donates [OF low_holds_inv, of 0 low_lock 2] e(1) by (auto simp: low_holds_def low_lock_def)
  have c1: "current s1 1 = 3" using enter_other_cpu [OF e(1), of 1] by (simp add: low_holds_def)
  have "prio s1 2 < prio s1 (current s1 1)" using p1 c1 by (simp add: low_holds_def)
  then obtain lk3 s3 where e3: "spinlock_acquire_enter 1 lk1 s1 = Some (lk3, s3)" "sched_inv 2 s3"
    using acquire_donates [OF e(2), of 1 lk1 2] lk1 c1 by auto
  from second_donation_lost [OF low_holds_inv _ _ _ _ _ e(1) e(2) _ _ _ _ _ _ e3(1) e3(2), of 2 1 3 0]
  show ?thesis using e(1) e3(1) c1 by (auto simp: low_holds_def low_lock_def)
qed

text \<open>waiting on a condition variable releases the lock and puts the thread to sleep in the waiter list,
  unless the spinlock carries a donation: then \<^verbatim>\<open>sched_sched\<close>, holding \<^verbatim>\<open>sched_lock\<close>, returns the priority
  through \<^verbatim>\<open>yield\<close>, which acquires \<^verbatim>\<open>sched_lock\<close> again and panics.\<close>

theorem condvar_wait_outcome:
  assumes "sched_inv n s" "c < n" "holder lk = Some (current s c)" "\<not> is_idle n s (current s c)"
    and "is_donation lk \<longrightarrow> prio s (current s c) > 0"
  shows "(if is_donation lk then condvar_wait c cv lk s = None
          else (\<exists>s'. condvar_wait c cv lk s = Some (cv @ [current s c], lk\<lparr>holder := None, lock_status := False\<rparr>, s')
                 \<and> sched_inv n s' \<and> st s' (current s c) = SLEEPING))"
proof (cases "is_donation lk")
  case True
  then show ?thesis
    using assms inv_prio [OF assms(1), of "current s c"]
    by (simp add: condvar_wait_def spinlock_release_in_sched_def Let_def)
next
  case False
  let ?s1 = "set_state (current s c) SLEEPING s"
  obtain s' where s': "sched_sched (\<lambda>s. s) SLEEPING c s = Some s'" "sched_inv n s'"
    using sched_sched_ok [OF assms(1,2), of SLEEPING] by auto
  then have sc: "sched c ?s1 = Some s'" by (simp add: sched_sched_def Let_def)
  have "current s c \<noteq> idle s c" using assms(2,4) by (auto simp: is_idle_def)
  then have "st s' (current s c) = SLEEPING" using sched_frame [OF sc, of "current s c"] by simp
  then show ?thesis
    using False sc s'(2) assms(3) by (simp add: condvar_wait_def spinlock_release_in_sched_def Let_def)
qed

theorem condvar_wait_outcome_witness:
  "condvar_wait 0 [] \<lparr>lock_status = True, holder = Some 1, is_donation = True, donor = 3\<rparr> low_holds = None"
  using condvar_wait_outcome [OF low_holds_inv, of 0
      "\<lparr>lock_status = True, holder = Some 1, is_donation = True, donor = 3\<rparr>" "[]"]
  by (simp add: low_holds_def is_idle_def less_two)

end
