(* ===== verification/Sleeplock.thy ===== *)
theory Sleeplock
  imports Synch
begin

text \<open>
  Sleeplocks (\<^verbatim>\<open>kernel/synch.c\<close>) with the spinlock inside them, used by any number of threads on any number of processors.

  Each thread has a place in the code; a step runs the thread that is current on one processor from one place to the next. The places split
  \<^verbatim>\<open>sleeplock_acquire\<close>, \<^verbatim>\<open>sleeplock_release\<close> and \<^verbatim>\<open>sleeplock_try_acquire\<close> at every access to the inner spinlock, and \<^verbatim>\<open>condvar_wait\<close> and the
  \<^verbatim>\<open>sched_sched\<close> it calls at the entry into the list of waiters, the acquisition of \<^verbatim>\<open>sched_lock\<close>, the release of the inner spinlock and the
  switch, so other processors may run between any two of them. A processor that spins, for the inner spinlock or for \<^verbatim>\<open>sched_lock\<close>,
  is \<open>Blocked\<close>, and a panic is \<open>None\<close>. The other scheduler entry points hold \<^verbatim>\<open>sched_lock\<close> from their start to the switch and are one step
  when it is free. Interrupts are off in a thread that spins for or holds a spinlock, so no other event happens on its processor.
  The locks are enabled (\<^verbatim>\<open>synch_init\<close> has run). Donation through \<^verbatim>\<open>sched_lock\<close> itself is not modelled.
\<close>

section \<open>The lock and the places of its users\<close>

record sleeplock =
  lk :: spinlock
  waiters :: condvar
  sl_holder :: "tid option"

definition sleeplock_init :: "sleeplock \<Rightarrow> sleeplock" where
  "sleeplock_init l = l\<lparr>lk := spinlock_init (lk l), waiters := condvar_init, sl_holder := None\<rparr>"

datatype sl_pc =
    Outside
  | Acq_lock | Acq_spin | Acq_test | Acq_take | Acq_unlock
  | Wait_append | Wait_sched | Wait_release | Wait_switch | Wait_asleep
  | Rel_lock | Rel_spin | Rel_clear | Rel_signal | Rel_ready tid | Rel_unlock
  | Try_lock | Try_spin | Try_test | Try_unlock err

record sl_sys =
  slk :: sleeplock
  sch :: sched_state
  sched_lock :: "cpu option"
  pc :: "tid \<Rightarrow> sl_pc"

definition goto :: "tid \<Rightarrow> sl_pc \<Rightarrow> sl_sys \<Rightarrow> sl_sys" where
  "goto t p x = x\<lparr>pc := (pc x)(t := p)\<rparr>"

definition set_slk :: "(sleeplock \<Rightarrow> sleeplock) \<Rightarrow> sl_sys \<Rightarrow> sl_sys" where
  "set_slk f x = x\<lparr>slk := f (slk x)\<rparr>"

section \<open>The inner spinlock\<close>

text \<open>The entry of \<^verbatim>\<open>spinlock_acquire\<close>, which enters the scheduler when it donates; one turn of its loop; and \<^verbatim>\<open>spinlock_release\<close>, which enters
  the scheduler when it returns a priority.\<close>

definition donates :: "cpu \<Rightarrow> spinlock \<Rightarrow> sched_state \<Rightarrow> bool" where
  "donates c l s \<longleftrightarrow> (case holder l of None \<Rightarrow> False | Some h \<Rightarrow> prio s h < prio s (current s c))"

definition lock_enter :: "sl_pc \<Rightarrow> cpu \<Rightarrow> sl_sys \<Rightarrow> sl_sys outcome option" where
  "lock_enter p c x =
     (if donates c (lk (slk x)) (sch x) \<and> sched_lock x \<noteq> None then Some Blocked
      else do {
        let t = current (sch x) c;
        (l, s) \<leftarrow> spinlock_acquire_enter c (lk (slk x)) (sch x);
        Some (Ret (goto t p (set_slk (lk_update (\<lambda>_. l)) (x\<lparr>sch := s\<rparr>))))
      })"

definition lock_spin :: "sl_pc \<Rightarrow> cpu \<Rightarrow> sl_sys \<Rightarrow> sl_sys outcome option" where
  "lock_spin p c x =
     (let t = current (sch x) c in
      case spinlock_acquire_spin t (lk (slk x)) of
        Blocked \<Rightarrow> Some Blocked
      | Ret l \<Rightarrow> Some (Ret (goto t p (set_slk (lk_update (\<lambda>_. l)) x))))"

definition lock_leave :: "cpu \<Rightarrow> sl_sys \<Rightarrow> sl_sys outcome option" where
  "lock_leave c x =
     (if is_donation (lk (slk x)) \<and> sched_lock x \<noteq> None then Some Blocked
      else do {
        let t = current (sch x) c;
        (l, s) \<leftarrow> spinlock_release c (lk (slk x)) (sch x);
        Some (Ret (goto t Outside (set_slk (lk_update (\<lambda>_. l)) (x\<lparr>sch := s\<rparr>))))
      })"

section \<open>The operations\<close>

definition sleeplock_acquire :: "cpu \<Rightarrow> sl_sys \<Rightarrow> sl_sys outcome option" where
  "sleeplock_acquire c x =
     (let t = current (sch x) c in
      case pc x t of
        Acq_lock \<Rightarrow> lock_enter Acq_spin c x
      | Acq_spin \<Rightarrow> lock_spin Acq_test c x
      | Acq_test \<Rightarrow> Some (Ret (goto t (if sl_holder (slk x) \<noteq> None then Wait_append else Acq_take) x))
      | Acq_take \<Rightarrow> Some (Ret (goto t Acq_unlock (set_slk (sl_holder_update (\<lambda>_. Some t)) x)))
      | Acq_unlock \<Rightarrow> lock_leave c x
      | _ \<Rightarrow> Some Blocked)"

text \<open>\<^verbatim>\<open>condvar_wait\<close> on the list of waiters and the inner spinlock: the entry into the list, then \<^verbatim>\<open>sched_sched(SLEEPING, lk)\<close> in three steps, and, when the
  thread runs again, \<^verbatim>\<open>lock_acquire\<close>, after which \<^verbatim>\<open>sleeplock_acquire\<close> tests the holder again.\<close>

definition wait_step :: "cpu \<Rightarrow> sl_sys \<Rightarrow> sl_sys outcome option" where
  "wait_step c x =
     (let t = current (sch x) c in
      case pc x t of
        Wait_append \<Rightarrow> do {
          kassert (holder (lk (slk x)) = Some t);
          Some (Ret (goto t Wait_sched (set_slk (waiters_update (\<lambda>ws. ws @ [t])) x)))
        }
      | Wait_sched \<Rightarrow>
          Some (if sched_lock x \<noteq> None then Blocked
                else Ret (goto t Wait_release (x\<lparr>sched_lock := Some c, sch := set_state t SLEEPING (sch x)\<rparr>)))
      | Wait_release \<Rightarrow> do {
          (l, s) \<leftarrow> spinlock_release_in_sched (lk (slk x)) (sch x);
          Some (Ret (goto t Wait_switch (set_slk (lk_update (\<lambda>_. l)) (x\<lparr>sch := s\<rparr>))))
        }
      | Wait_switch \<Rightarrow> do {
          s \<leftarrow> sched c (sch x);
          Some (Ret (goto t Wait_asleep (x\<lparr>sched_lock := None, sch := s\<rparr>)))
        }
      | Wait_asleep \<Rightarrow> Some (Ret (goto t Acq_lock x))
      | _ \<Rightarrow> Some Blocked)"

text \<open>\<^verbatim>\<open>condvar_signal\<close> is two steps: the removal from the list, and \<^verbatim>\<open>sched_ready\<close>, which may switch to the woken thread.\<close>

definition sleeplock_release :: "cpu \<Rightarrow> sl_sys \<Rightarrow> sl_sys outcome option" where
  "sleeplock_release c x =
     (let t = current (sch x) c in
      case pc x t of
        Rel_lock \<Rightarrow> do { kassert (sl_holder (slk x) = Some t); lock_enter Rel_spin c x }
      | Rel_spin \<Rightarrow> lock_spin Rel_clear c x
      | Rel_clear \<Rightarrow> Some (Ret (goto t Rel_signal (set_slk (sl_holder_update (\<lambda>_. None)) x)))
      | Rel_signal \<Rightarrow>
          (case waiters (slk x) of
             [] \<Rightarrow> Some (Ret (goto t Rel_unlock x))
           | w # ws \<Rightarrow> Some (Ret (goto t (Rel_ready w) (set_slk (waiters_update (\<lambda>_. ws)) x))))
      | Rel_ready w \<Rightarrow>
          Some (if sched_lock x \<noteq> None then Blocked else Ret (goto t Rel_unlock (x\<lparr>sch := sched_ready c w (sch x)\<rparr>)))
      | Rel_unlock \<Rightarrow> lock_leave c x
      | _ \<Rightarrow> Some Blocked)"

text \<open>The place before the last release of the spinlock remembers the result.\<close>

definition sleeplock_try_acquire :: "cpu \<Rightarrow> sl_sys \<Rightarrow> sl_sys outcome option" where
  "sleeplock_try_acquire c x =
     (let t = current (sch x) c in
      case pc x t of
        Try_lock \<Rightarrow> lock_enter Try_spin c x
      | Try_spin \<Rightarrow> lock_spin Try_test c x
      | Try_test \<Rightarrow>
          Some (Ret (if sl_holder (slk x) = None
                     then goto t (Try_unlock ERR_OK) (set_slk (sl_holder_update (\<lambda>_. Some t)) x)
                     else goto t (Try_unlock ERR_LOCK_BUSY) x))
      | Try_unlock er \<Rightarrow> lock_leave c x
      | _ \<Rightarrow> Some Blocked)"

text \<open>The next step on processor \<open>c\<close>.\<close>

definition sl_exec :: "cpu \<Rightarrow> sl_sys \<Rightarrow> sl_sys outcome option" where
  "sl_exec c x =
     (case pc x (current (sch x) c) of
        Outside \<Rightarrow> Some Blocked
      | Acq_lock \<Rightarrow> sleeplock_acquire c x
      | Acq_spin \<Rightarrow> sleeplock_acquire c x
      | Acq_test \<Rightarrow> sleeplock_acquire c x
      | Acq_take \<Rightarrow> sleeplock_acquire c x
      | Acq_unlock \<Rightarrow> sleeplock_acquire c x
      | Wait_append \<Rightarrow> wait_step c x
      | Wait_sched \<Rightarrow> wait_step c x
      | Wait_release \<Rightarrow> wait_step c x
      | Wait_switch \<Rightarrow> wait_step c x
      | Wait_asleep \<Rightarrow> wait_step c x
      | Try_lock \<Rightarrow> sleeplock_try_acquire c x
      | Try_spin \<Rightarrow> sleeplock_try_acquire c x
      | Try_test \<Rightarrow> sleeplock_try_acquire c x
      | Try_unlock er \<Rightarrow> sleeplock_try_acquire c x
      | _ \<Rightarrow> sleeplock_release c x)"

section \<open>Runs\<close>

fun event_cpu :: "sched_event \<Rightarrow> cpu" where
  "event_cpu (Wake c t) = c"
| "event_cpu (Tick c) = c"
| "event_cpu (Sleep c) = c"
| "event_cpu (Exit c) = c"
| "event_cpu (SetPriority c p t) = c"
| "event_cpu (Yield c) = c"

text \<open>What else may happen: any event of the scheduler by a thread that is outside of the operations, and the timer also where interrupts are on inside
  of them. Threads asleep in an operation are only woken by it.\<close>

fun outside_event :: "sched_event \<Rightarrow> sl_sys \<Rightarrow> bool" where
  "outside_event (Wake c t) x \<longleftrightarrow> pc x (current (sch x) c) = Outside \<and> pc x t = Outside"
| "outside_event (Tick c) x \<longleftrightarrow> pc x (current (sch x) c) \<in> {Outside, Acq_lock, Rel_lock, Try_lock, Wait_asleep}"
| "outside_event e x \<longleftrightarrow> pc x (current (sch x) (event_cpu e)) = Outside"

inductive sl_step :: "nat \<Rightarrow> sl_sys \<Rightarrow> sl_sys \<Rightarrow> bool" for n where
  sl_call: "c < n \<Longrightarrow> t = current (sch x) c \<Longrightarrow> \<not> is_idle n (sch x) t \<Longrightarrow> pc x t = Outside
    \<Longrightarrow> p \<in> {Acq_lock, Try_lock} \<or> p = Rel_lock \<and> sl_holder (slk x) = Some t \<Longrightarrow> sl_step n x (goto t p x)"
| sl_run: "c < n \<Longrightarrow> sl_exec c x = Some (Ret y) \<Longrightarrow> sl_step n x y"
| sl_event: "sched_lock x = None \<Longrightarrow> event_ok n e (sch x) \<Longrightarrow> outside_event e x \<Longrightarrow> exec_event e (sch x) = Some s
    \<Longrightarrow> sl_step n x (x\<lparr>sch := s\<rparr>)"

definition sl_start :: "sleeplock \<Rightarrow> sched_state \<Rightarrow> sl_sys" where
  "sl_start l s = \<lparr>slk = sleeplock_init l, sch = s, sched_lock = None, pc = (\<lambda>_. Outside)\<rparr>"

section \<open>Who sleeps after a step of the scheduler\<close>











section \<open>The invariant\<close>

text \<open>The places where a thread holds the inner spinlock, and those inside \<^verbatim>\<open>sched_sched\<close>.\<close>

fun holds_lk :: "sl_pc \<Rightarrow> bool" where
  "holds_lk (Rel_ready w) \<longleftrightarrow> True"
| "holds_lk (Try_unlock er) \<longleftrightarrow> True"
| "holds_lk p \<longleftrightarrow>
     p \<in> {Acq_test, Acq_take, Acq_unlock, Wait_append, Wait_sched, Wait_release, Rel_clear, Rel_signal, Rel_unlock, Try_test}"








lemma holds_lk_iff:
  "holds_lk p \<longleftrightarrow> p \<in> {Acq_test, Acq_take, Acq_unlock, Wait_append, Wait_sched, Wait_release, Rel_clear, Rel_signal, Rel_unlock, Try_test}
     \<or> (\<exists>w. p = Rel_ready w) \<or> (\<exists>er. p = Try_unlock er)"
  by (cases p) simp_all










section \<open>Steps that leave the list of waiters alone\<close>



























section \<open>Going to sleep and waking up\<close>












section \<open>Every step keeps the invariant\<close>

lemmas exec_defs = sl_exec_def sleeplock_acquire_def wait_step_def sleeplock_release_def sleeplock_try_acquire_def Let_def




section \<open>Panics\<close>














section \<open>Properties\<close>


lemma run_step: "(sl_step n)\<^sup>*\<^sup>* x y \<Longrightarrow> c < n \<Longrightarrow> sl_exec c y = Some (Ret z) \<Longrightarrow> (sl_step n)\<^sup>*\<^sup>* x z"
  by (rule rtranclp.rtrancl_into_rtrancl) (auto intro: sl_run)

lemma run_call:
  "(sl_step n)\<^sup>*\<^sup>* x y \<Longrightarrow> c < n \<Longrightarrow> t = current (sch y) c \<Longrightarrow> \<not> is_idle n (sch y) t \<Longrightarrow> pc y t = Outside
    \<Longrightarrow> p \<in> {Acq_lock, Try_lock} \<or> p = Rel_lock \<and> sl_holder (slk y) = Some t \<Longrightarrow> (sl_step n)\<^sup>*\<^sup>* x (goto t p y)"
  by (rule rtranclp.rtrancl_into_rtrancl) (auto intro: sl_call)

text \<open>A thread that meets the inner spinlock free gets to the test of the holder.\<close>

lemma run_to_test:
  assumes "c < n" "t = current (sch x) c" "\<not> is_idle n (sch x) t" "pc x t = Outside" "holder (lk (slk x)) = None" "\<not> lock_status (lk (slk x))"
  shows "(sl_step n)\<^sup>*\<^sup>* x (goto t Acq_test (set_slk (lk_update (\<lambda>l. l\<lparr>lock_status := True, holder := Some t\<rparr>)) x))"
proof -
  have 1: "(sl_step n)\<^sup>*\<^sup>* x (goto t Acq_lock x)" by (rule run_call [OF rtranclp.rtrancl_refl assms(1-4)]) simp
  have 2: "(sl_step n)\<^sup>*\<^sup>* x (goto t Acq_spin x)"
    by (rule run_step [OF 1 assms(1)])
      (use assms(2,5) in \<open>simp add: exec_defs lock_enter_def donates_def spinlock_acquire_enter_def goto_def set_slk_def\<close>)
  show ?thesis
    by (rule run_step [OF 2 assms(1)])
      (use assms(2,6) in \<open>simp add: exec_defs lock_spin_def spinlock_acquire_spin_def goto_def set_slk_def\<close>)
qed

lemma run_acquire:
  assumes "c < n" "t = current (sch x) c" "\<not> is_idle n (sch x) t" "pc x t = Outside" "holder (lk (slk x)) = None" "\<not> lock_status (lk (slk x))"
    and "\<not> is_donation (lk (slk x))" "sl_holder (slk x) = None"
  shows "(sl_step n)\<^sup>*\<^sup>* x (set_slk (sl_holder_update (\<lambda>_. Some t)) x)"
proof -
  let ?x = "set_slk (lk_update (\<lambda>l. l\<lparr>lock_status := True, holder := Some t\<rparr>)) x"
  note 1 = run_to_test [OF assms(1-6)]
  have 2: "(sl_step n)\<^sup>*\<^sup>* x (goto t Acq_take ?x)"
    by (rule run_step [OF 1 assms(1)]) (use assms(2,8) in \<open>simp add: exec_defs goto_def set_slk_def\<close>)
  have 3: "(sl_step n)\<^sup>*\<^sup>* x (goto t Acq_unlock (set_slk (sl_holder_update (\<lambda>_. Some t)) ?x))"
    by (rule run_step [OF 2 assms(1)]) (use assms(2) in \<open>simp add: exec_defs goto_def set_slk_def\<close>)
  show ?thesis
    by (rule run_step [OF 3 assms(1)])
      (use assms(2,4-7) in \<open>simp add: exec_defs lock_leave_def release_plain goto_def set_slk_def fun_upd_idem\<close>)
qed

text \<open>C30: on two processors the release of a sleeplock can panic a thread that is about to wait for it. For any two running threads of different priority, there is
  a run from a new lock in which the one of higher priority takes the lock, the other finds it held, and the release by the first one then gives it a priority
  through the inner spinlock: its next step, the release of that spinlock inside the scheduler, acquires \<^verbatim>\<open>sched_lock\<close> a second time.\<close>

theorem sleeplock_release_panics:
  assumes "sched_inv n s0" "1 < n" "a = current s0 0" "b = current s0 1" "\<not> is_idle n s0 a" "\<not> is_idle n s0 b" "prio s0 a < prio s0 b"
    and "\<not> is_donation (lk l0)"
  shows "\<exists>x. (sl_step n)\<^sup>*\<^sup>* (sl_start l0 s0) x \<and> sl_holder (slk x) = Some b \<and> pc x b = Rel_spin \<and> current (sch x) 0 = a
     \<and> pc x a = Wait_release \<and> sl_exec 0 x = None"
proof -
  let ?l = "\<lambda>f. l0\<lparr>lk := f (spinlock_init (lk l0)), waiters := [], sl_holder := Some b\<rparr>"
  let ?held = "\<lambda>l. l\<lparr>lock_status := True, holder := Some a\<rparr>"
  have ab: "a \<noteq> b" "0 < n" using assms(2,7) by auto
  obtain k0 ws0 h0 where l0: "l0 = \<lparr>lk = k0, waiters = ws0, sl_holder = h0\<rparr>" by (cases l0)
  have 1: "(sl_step n)\<^sup>*\<^sup>* (sl_start l0 s0) \<lparr>slk = ?l (\<lambda>l. l), sch = s0, sched_lock = None, pc = (\<lambda>_. Outside)\<rparr>"
    using run_acquire [of 1 n b "sl_start l0 s0"] assms(2,4,6,8)
    by (simp add: sl_start_def set_slk_def sleeplock_init_def spinlock_init_def condvar_init_def)
  have 2: "(sl_step n)\<^sup>*\<^sup>* (sl_start l0 s0) \<lparr>slk = ?l ?held, sch = s0, sched_lock = None, pc = (\<lambda>_. Outside)(a := Acq_test)\<rparr>"
    using rtranclp_trans [OF 1 run_to_test [of 0 n a]] ab(2) assms(3,5) by (simp add: goto_def set_slk_def spinlock_init_def l0)
  have 3: "(sl_step n)\<^sup>*\<^sup>* (sl_start l0 s0) \<lparr>slk = ?l ?held, sch = s0, sched_lock = None, pc = (\<lambda>_. Outside)(a := Wait_append)\<rparr>"
    by (rule run_step [OF 2 ab(2)]) (use assms(3) in \<open>simp add: exec_defs goto_def\<close>)
  have 4: "(sl_step n)\<^sup>*\<^sup>* (sl_start l0 s0) \<lparr>slk = ?l ?held, sch = s0, sched_lock = None, pc = (\<lambda>_. Outside)(a := Wait_append, b := Rel_lock)\<rparr>"
    using run_call [OF 3 assms(2), of b Rel_lock] assms(4,6) ab(1) by (simp add: goto_def)
  let ?k = "?held (spinlock_init (lk l0))"
  obtain s where s: "spinlock_acquire_enter 1 ?k s0 = Some (?k\<lparr>is_donation := True, donor := b\<rparr>, s)" "sched_inv n s" "prio s a = prio s0 b"
    using acquire_donates [OF assms(1,2), of ?k a] ab(1) assms(4,7) by auto
  have c: "current s 0 = a" using enter_other_cpu [OF s(1), of 0] assms(3) by simp
  let ?d = "\<lambda>l. (?held l)\<lparr>is_donation := True, donor := b\<rparr>"
  have 5: "(sl_step n)\<^sup>*\<^sup>* (sl_start l0 s0) \<lparr>slk = ?l ?d, sch = s, sched_lock = None, pc = (\<lambda>_. Outside)(a := Wait_append, b := Rel_spin)\<rparr>"
    by (rule run_step [OF 4 assms(2)])
      (use assms(4) s(1) in \<open>simp add: exec_defs lock_enter_def goto_def set_slk_def\<close>)
  have 6: "(sl_step n)\<^sup>*\<^sup>* (sl_start l0 s0)
      \<lparr>slk = (?l ?d)\<lparr>waiters := [a]\<rparr>, sch = s, sched_lock = None, pc = (\<lambda>_. Outside)(a := Wait_sched, b := Rel_spin)\<rparr>"
    by (rule run_step [OF 5 ab(2)]) (use ab(1) c in \<open>simp add: exec_defs goto_def set_slk_def fun_upd_twist\<close>)
  have 7: "(sl_step n)\<^sup>*\<^sup>* (sl_start l0 s0) \<lparr>slk = (?l ?d)\<lparr>waiters := [a]\<rparr>, sch = set_state a SLEEPING s, sched_lock = Some 0,
      pc = (\<lambda>_. Outside)(a := Wait_release, b := Rel_spin)\<rparr>"
    by (rule run_step [OF 6 ab(2)]) (use ab(1) c in \<open>simp add: exec_defs goto_def fun_upd_twist\<close>)
  have p: "0 < prio s a" "prio s a \<le> 63" using s(3) assms(7) inv_prio [OF assms(1), of a] inv_prio [OF assms(1), of b] by simp_all
  show ?thesis
    by (intro exI conjI, rule 7) (use p ab(1) c in \<open>simp_all add: exec_defs spinlock_release_in_sched_def\<close>)
qed

definition new_lock :: sleeplock where
  "new_lock = \<lparr>lk = \<lparr>lock_status = False, holder = None, is_donation = False, donor = 0\<rparr>, waiters = [], sl_holder = None\<rparr>"



theorem sleeplock_release_panics_witness:
  "\<exists>x. (sl_step 2)\<^sup>*\<^sup>* (sl_start new_lock low_holds) x \<and> sl_holder (slk x) = Some 3 \<and> pc x 1 = Wait_release \<and> sl_exec 0 x = None"
proof -
  have "\<not> is_donation (lk new_lock)" "\<not> is_idle 2 low_holds 1" "\<not> is_idle 2 low_holds 3" "current low_holds 0 = 1" "current low_holds 1 = 3"
      "prio low_holds 1 < prio low_holds 3"
    by (simp_all add: new_lock_def is_idle_def low_holds_def)
  then show ?thesis using sleeplock_release_panics [OF low_holds_inv, of 1 3 new_lock] by auto
qed

end
