(* ===== verification/Pmem.thy ===== *)
theory Pmem
  imports Prelude "HOL-Library.Multiset"
begin

text \<open>
  The physical memory allocator (\<^verbatim>\<open>kernel/mm/pmem.c\<close>): the boot bitmap and the buddy allocator.

  A \<^verbatim>\<open>struct page*\<close> is its index in \<^verbatim>\<open>pagemap\<close>, so \<^verbatim>\<open>paddr_to_page\<close> and \<^verbatim>\<open>page_to_paddr\<close> are division and
  multiplication by the page size. Physical addresses are natural numbers: they are below the end of
  physical memory, so no computation wraps. The free lists are sequences of page indices, by the
  refinement proved in \<open>Klist\<close>. Each entry point runs with \<^verbatim>\<open>pmem_lock\<close> held and is one step. A failed
  \<^verbatim>\<open>kassert\<close> or \<^verbatim>\<open>panic\<close> is \<open>None\<close>.
\<close>

section \<open>State\<close>

abbreviation (input) MAX_ORDER :: nat where "MAX_ORDER \<equiv> 10"
abbreviation (input) PG :: nat where "PG \<equiv> 4096"

record page =
  refcnt :: int
  order :: nat
  dirty :: bool

record pmem =
  pages :: "nat \<Rightarrow> page"
  pagemap_end :: nat
  freeblocks :: "nat \<Rightarrow> nat list"
  bitmap :: "nat \<Rightarrow> bool"
  bitmap_contig_start :: nat
  bitmap_end :: nat
  pagemap_initialized :: bool
  pmem_start :: nat
  pmem_end :: nat

definition paddr_to_page :: "nat \<Rightarrow> nat" where
  "paddr_to_page paddr = paddr div PG"

definition page_to_paddr :: "nat \<Rightarrow> nat" where
  "page_to_paddr page = page * PG"

definition set_order :: "nat \<Rightarrow> nat \<Rightarrow> pmem \<Rightarrow> pmem" where
  "set_order p o' s = s\<lparr>pages := (pages s)(p := (pages s p)\<lparr>order := o'\<rparr>)\<rparr>"

definition set_refcnt :: "nat \<Rightarrow> int \<Rightarrow> pmem \<Rightarrow> pmem" where
  "set_refcnt p n s = s\<lparr>pages := (pages s)(p := (pages s p)\<lparr>refcnt := n\<rparr>)\<rparr>"

abbreviation ord :: "pmem \<Rightarrow> nat \<Rightarrow> nat" where "ord s p \<equiv> order (pages s p)"
abbreviation ref :: "pmem \<Rightarrow> nat \<Rightarrow> int" where "ref s p \<equiv> refcnt (pages s p)"

section \<open>The boot bitmap\<close>

fun bitmap_set_range :: "nat \<Rightarrow> nat \<Rightarrow> (nat \<Rightarrow> bool) \<Rightarrow> (nat \<Rightarrow> bool) option" where
  "bitmap_set_range i 0 b = Some b"
| "bitmap_set_range i (Suc n) b = do { kassert (\<not> b i); bitmap_set_range (Suc i) n (b(i := True)) }"

definition bitmap_alloc :: "nat \<Rightarrow> nat \<Rightarrow> pmem \<Rightarrow> pmem option" where
  "bitmap_alloc index n s = do {
     kassert (index + n \<le> bitmap_end s);
     b \<leftarrow> bitmap_set_range index n (bitmap s);
     let s = s\<lparr>bitmap := b\<rparr>;
     Some (if index + n > bitmap_contig_start s then s\<lparr>bitmap_contig_start := index + n\<rparr> else s)
   }"

fun bitmap_unset_range :: "nat \<Rightarrow> nat \<Rightarrow> (nat \<Rightarrow> bool) \<Rightarrow> (nat \<Rightarrow> bool) option" where
  "bitmap_unset_range i 0 b = Some b"
| "bitmap_unset_range i (Suc n) b = do { kassert (b i); bitmap_unset_range (Suc i) n (b(i := False)) }"

fun bitmap_scan_down :: "(nat \<Rightarrow> bool) \<Rightarrow> nat \<Rightarrow> nat" where
  "bitmap_scan_down b 0 = 0"
| "bitmap_scan_down b (Suc i) = (if b i then Suc i else bitmap_scan_down b i)"

definition bitmap_free :: "nat \<Rightarrow> nat \<Rightarrow> pmem \<Rightarrow> pmem option" where
  "bitmap_free index n s = do {
     kassert (index + n \<le> bitmap_end s);
     kassert (index + n \<le> bitmap_contig_start s);
     b \<leftarrow> bitmap_unset_range index n (bitmap s);
     let s = s\<lparr>bitmap := b\<rparr>;
     Some (if index + n = bitmap_contig_start s
           then s\<lparr>bitmap_contig_start := bitmap_scan_down b index\<rparr> else s)
   }"

function bitmap_find_loop :: "(nat \<Rightarrow> bool) \<Rightarrow> nat \<Rightarrow> nat \<Rightarrow> nat \<Rightarrow> nat \<Rightarrow> nat \<Rightarrow> nat option" where
  "bitmap_find_loop b e n i first n_free =
     (if i < e then
        (if b i then bitmap_find_loop b e n (i + 1) (first + 1) 0
         else if n_free + 1 \<ge> n then Some first
         else bitmap_find_loop b e n (i + 1) first (n_free + 1))
      else None)"
  by pat_completeness auto
termination
  by (relation "measure (\<lambda>(b, e, n, i, first, f). e - i)") auto

declare bitmap_find_loop.simps [simp del]

text \<open>\<^verbatim>\<open>-1\<close>, not found, is the inner \<open>None\<close>.\<close>

definition bitmap_find :: "nat \<Rightarrow> pmem \<Rightarrow> nat option option" where
  "bitmap_find n s = do { kassert (n > 0); Some (bitmap_find_loop (bitmap s) (bitmap_end s) n 0 0 0) }"

definition bitmap_pages :: "pmem \<Rightarrow> nat" where
  "bitmap_pages s = (((pmem_end s - pmem_start s) div PG) div 8 + (PG - 1)) div PG"

definition bitmap_init :: "pmem \<Rightarrow> pmem option" where
  "bitmap_init s = do {
     kassert (pmem_start s < pmem_end s);
     kassert (PG dvd pmem_start s);
     kassert (PG dvd pmem_end s);
     let s = s\<lparr>bitmap_contig_start := 0, bitmap_end := (pmem_end s - pmem_start s) div PG\<rparr>;
     kassert (bitmap_pages s < bitmap_end s);
     let s = s\<lparr>bitmap := (\<lambda>_. False)\<rparr>;
     bitmap_alloc 0 (bitmap_pages s) s
   }"

section \<open>The buddy allocator\<close>

fun max_order_loop :: "nat \<Rightarrow> nat \<Rightarrow> nat \<Rightarrow> nat" where
  "max_order_loop 0 si ei = 0"
| "max_order_loop (Suc o') si ei =
     (if si mod 2 ^ Suc o' = 0 \<and> si + 2 ^ Suc o' \<le> ei then Suc o' else max_order_loop o' si ei)"

definition get_max_page_order :: "nat \<Rightarrow> nat \<Rightarrow> nat option" where
  "get_max_page_order start end' = do {
     let start_index = start div PG;
     let end_index = end' div PG;
     kassert (end_index > start_index);
     Some (max_order_loop MAX_ORDER start_index end_index)
   }"

function min_order_loop :: "nat \<Rightarrow> nat \<Rightarrow> nat option" where
  "min_order_loop n o' = (if o' \<le> MAX_ORDER then (if 2 ^ o' \<ge> n then Some o' else min_order_loop n (o' + 1)) else None)"
  by pat_completeness auto
termination
  by (relation "measure (\<lambda>(n, o'). 11 - o')") auto

declare min_order_loop.simps [simp del]

definition get_min_page_order :: "nat \<Rightarrow> nat option" where
  "get_min_page_order n = min_order_loop n 0"

definition freeblocks_insert :: "nat \<Rightarrow> pmem \<Rightarrow> pmem option" where
  "freeblocks_insert p s = do {
     kassert (ord s p \<le> MAX_ORDER);
     let s = set_refcnt p 0 s;
     Some (s\<lparr>freeblocks := (freeblocks s)(ord s p := freeblocks s (ord s p) @ [p])\<rparr>)
   }"

definition freeblocks_remove :: "nat \<Rightarrow> pmem \<Rightarrow> pmem option" where
  "freeblocks_remove p s = do {
     kassert (ref s p = 0);
     kassert (ord s p \<le> MAX_ORDER);
     Some (s\<lparr>freeblocks := (freeblocks s)(ord s p := remove1 p (freeblocks s (ord s p)))\<rparr>)
   }"

text \<open>The outer \<open>None\<close> is a failed assertion, the inner one the null pointer.\<close>

definition find_buddy :: "nat \<Rightarrow> pmem \<Rightarrow> nat option option" where
  "find_buddy p s = do {
     kassert (ord s p \<le> MAX_ORDER);
     kassert (p mod 2 ^ ord s p = 0);
     let index = p div 2 ^ ord s p;
     let buddy = (if odd index then p - 2 ^ ord s p else p + 2 ^ ord s p);
     Some (if buddy \<ge> pagemap_end s then None else Some buddy)
   }"

function find_freeblock :: "nat \<Rightarrow> bool \<Rightarrow> pmem \<Rightarrow> (nat option \<times> pmem) option" where
  "find_freeblock o' split s =
     (if o' > MAX_ORDER then Some (None, s)
      else do {
        (r, s) \<leftarrow>
          (if freeblocks s o' \<noteq> [] then do {
             let p = hd (freeblocks s o');
             s \<leftarrow> freeblocks_remove p s;
             Some (Some p, s)
           }
           else find_freeblock (o' + 1) True s);
        (case r of
           None \<Rightarrow> Some (None, s)
         | Some p \<Rightarrow>
             if split then do {
               let s = set_order p (o' - 1) s;
               b \<leftarrow> find_buddy p s;
               buddy \<leftarrow> b;
               let s = set_order buddy (o' - 1) s;
               s \<leftarrow> freeblocks_insert buddy s;
               Some (Some p, s)
             }
             else Some (Some p, s))
      })"
  by pat_completeness auto
termination
  by (relation "measure (\<lambda>(o', split, s). 11 - o')") auto

declare find_freeblock.simps [simp del]

function merge_block :: "nat \<Rightarrow> pmem \<Rightarrow> (nat \<times> pmem) option" where
  "merge_block p s =
     (if ref s p \<noteq> 0 \<or> ord s p > MAX_ORDER then None
      else if ord s p = MAX_ORDER then Some (p, s)
      else case find_buddy p s of
        None \<Rightarrow> None
      | Some None \<Rightarrow> Some (p, s)
      | Some (Some buddy) \<Rightarrow>
          if ref s buddy = 0 \<and> ord s buddy = ord s p then
            (case freeblocks_remove buddy s of
               None \<Rightarrow> None
             | Some s' \<Rightarrow>
                 if p < buddy then merge_block p (set_order p (ord s p + 1) s')
                 else merge_block buddy (set_order buddy (ord s buddy + 1) s'))
          else Some (p, s))"
  by pat_completeness auto
termination
  by (relation "measure (\<lambda>(p, s). 11 - ord s p)")
    (auto simp: set_order_def freeblocks_remove_def split: if_splits)

declare merge_block.simps [simp del]

function freeblocks_insert_range :: "nat \<Rightarrow> nat \<Rightarrow> pmem \<Rightarrow> pmem option" where
  "freeblocks_insert_range start end' s =
     (if start < end' then
        (case get_max_page_order start end' of
           None \<Rightarrow> None
         | Some o' \<Rightarrow> do {
             s \<leftarrow> freeblocks_insert (paddr_to_page start) (set_order (paddr_to_page start) o' s);
             freeblocks_insert_range (start + 2 ^ o' * PG) end' s
           })
      else Some s)"
  by pat_completeness auto
termination
  by (relation "measure (\<lambda>(start, end', s). end' - start)")
    (auto simp: diff_less_mono2)

declare freeblocks_insert_range.simps [simp del]

section \<open>Allocation, release and reference counts\<close>

definition pmem_nalloc_internal :: "nat \<Rightarrow> pmem \<Rightarrow> (err \<times> nat \<times> pmem) option" where
  "pmem_nalloc_internal n s = do {
     kassert (n > 0);
     (if \<not> pagemap_initialized s then do {
        r \<leftarrow> bitmap_find n s;
        (case r of
           None \<Rightarrow> Some (ERR_NOMEM, 0, s)
         | Some index \<Rightarrow> do {
             s \<leftarrow> bitmap_alloc index n s;
             Some (ERR_OK, index * PG + pmem_start s, s)
           })
      }
      else do {
        o' \<leftarrow> get_min_page_order n;
        (r, s) \<leftarrow> find_freeblock o' False s;
        (case r of
           None \<Rightarrow> Some (ERR_NOMEM, 0, s)
         | Some p \<Rightarrow> do {
             let s = s\<lparr>pages := (pages s)(p := (pages s p)\<lparr>dirty := False\<rparr>)\<rparr>;
             kassert (ref s p = 0);
             let s = set_refcnt p 1 s;
             kassert (page_to_paddr p \<noteq> 0);
             Some (ERR_OK, page_to_paddr p, s)
           })
      })
   }"

definition pmem_nfree_internal :: "nat \<Rightarrow> nat \<Rightarrow> pmem \<Rightarrow> pmem option" where
  "pmem_nfree_internal paddr n s = do {
     kassert (n > 0);
     (if \<not> pagemap_initialized s then bitmap_free ((paddr - pmem_start s) div PG) n s
      else do {
        let p = paddr_to_page paddr;
        let s = set_refcnt p 0 s;
        (p, s) \<leftarrow> merge_block p s;
        freeblocks_insert p s
      })
   }"

definition pmem_nalloc :: "nat \<Rightarrow> pmem \<Rightarrow> (err \<times> nat \<times> pmem) option" where
  "pmem_nalloc n s = pmem_nalloc_internal n s"

definition pmem_alloc :: "pmem \<Rightarrow> (err \<times> nat \<times> pmem) option" where
  "pmem_alloc s = pmem_nalloc 1 s"

definition pmem_nfree :: "nat \<Rightarrow> nat \<Rightarrow> pmem \<Rightarrow> pmem option" where
  "pmem_nfree paddr n s = pmem_nfree_internal paddr n s"

definition pmem_free :: "nat \<Rightarrow> pmem \<Rightarrow> pmem option" where
  "pmem_free paddr s = pmem_nfree paddr 1 s"

definition pmem_is_page_dirty :: "nat \<Rightarrow> pmem \<Rightarrow> bool" where
  "pmem_is_page_dirty p s = dirty (pages s p)"

definition pmem_set_page_dirty :: "nat \<Rightarrow> bool \<Rightarrow> pmem \<Rightarrow> pmem" where
  "pmem_set_page_dirty p d s = s\<lparr>pages := (pages s)(p := (pages s p)\<lparr>dirty := d\<rparr>)\<rparr>"

definition pmem_get_refcnt :: "nat \<Rightarrow> pmem \<Rightarrow> int" where
  "pmem_get_refcnt paddr s = ref s (paddr_to_page paddr)"

definition pmem_inc_refcnt :: "nat \<Rightarrow> int \<Rightarrow> pmem \<Rightarrow> pmem option" where
  "pmem_inc_refcnt paddr n s = do {
     let p = paddr_to_page paddr;
     kassert (ref s p > 0);
     kassert (ord s p = 0);
     Some (set_refcnt p (ref s p + n) s)
   }"

definition pmem_dec_refcnt :: "nat \<Rightarrow> pmem \<Rightarrow> pmem option" where
  "pmem_dec_refcnt paddr s = do {
     let p = paddr_to_page paddr;
     kassert (ref s p > 0);
     kassert (ord s p = 0);
     let s = set_refcnt p (ref s p - 1) s;
     (if ref s p = 0 then pmem_nfree_internal paddr 1 s else Some s)
   }"

section \<open>From the bitmap to the free lists\<close>

text \<open>The size of \<^verbatim>\<open>struct page\<close> is a parameter: it depends on the layout chosen by the compiler.\<close>

definition pagemap_init :: "nat \<Rightarrow> pmem \<Rightarrow> pmem option" where
  "pagemap_init sizeof_page s = do {
     let n_pages = pmem_end s div PG;
     let pagemap_n_pages = (n_pages * sizeof_page + (PG - 1)) div PG;
     (er, _, s) \<leftarrow> pmem_nalloc_internal pagemap_n_pages s;
     kassert (er = ERR_OK);
     Some (s\<lparr>pages := (\<lambda>_. \<lparr>refcnt = 0, order = 0, dirty = False\<rparr>), pagemap_end := n_pages\<rparr>)
   }"

function probe_free :: "(nat \<Rightarrow> bool) \<Rightarrow> nat \<Rightarrow> nat \<Rightarrow> nat" where
  "probe_free b lim i = (if i < lim \<and> \<not> b i then probe_free b lim (i + 1) else i)"
  by pat_completeness auto
termination
  by (relation "measure (\<lambda>(b, lim, i). lim - i)") auto

declare probe_free.simps [simp del]

lemma probe_free_ge: "i \<le> probe_free b lim i"
proof (induction b lim i rule: probe_free.induct)
  case (1 b lim i)
  then show ?case by (subst probe_free.simps) force
qed

definition mark_allocated :: "nat \<Rightarrow> pmem \<Rightarrow> pmem" where
  "mark_allocated p s = set_order p 0 (set_refcnt p 1 s)"

function freeblocks_init_loop :: "(nat \<Rightarrow> bool) \<Rightarrow> nat \<Rightarrow> nat \<Rightarrow> pmem \<Rightarrow> pmem option" where
  "freeblocks_init_loop b lim index s =
     (if index < lim then
        (if b index then
           freeblocks_init_loop b lim (index + 1) (mark_allocated (paddr_to_page (index * PG + pmem_start s)) s)
         else
           let probe = probe_free b lim (index + 1) in
           do {
             s \<leftarrow> freeblocks_insert_range (index * PG + pmem_start s) (probe * PG + pmem_start s) s;
             freeblocks_init_loop b lim probe s
           })
      else Some s)"
  by pat_completeness auto
termination
proof (relation "measure (\<lambda>(b, lim, index, s). lim - index)", goal_cases)
  case (3 b lim index s probe)
  then show ?case using probe_free_ge [of "index + 1" b lim] by simp
qed auto

declare freeblocks_init_loop.simps [simp del]

definition freeblocks_init :: "pmem \<Rightarrow> pmem option" where
  "freeblocks_init s = do {
     s \<leftarrow> pmem_nfree_internal (pmem_start s) (bitmap_pages s) s;
     let s = s\<lparr>freeblocks := (\<lambda>_. [])\<rparr>;
     let s = fold mark_allocated (map paddr_to_page (map (\<lambda>i. i * PG) [0..<pmem_start s div PG])) s;
     s \<leftarrow> freeblocks_init_loop (bitmap s) (bitmap_contig_start s) 0 s;
     freeblocks_insert_range (bitmap_contig_start s * PG + pmem_start s) (pmem_end s) s
   }"

definition pmem_boot_init :: "nat \<Rightarrow> nat \<Rightarrow> pmem \<Rightarrow> pmem option" where
  "pmem_boot_init start end' s = do {
     s \<leftarrow> bitmap_init (s\<lparr>pmem_start := start, pmem_end := end'\<rparr>);
     Some (s\<lparr>pagemap_initialized := False\<rparr>)
   }"

definition pmem_init :: "nat \<Rightarrow> pmem \<Rightarrow> pmem option" where
  "pmem_init sizeof_page s = do {
     s \<leftarrow> pagemap_init sizeof_page s;
     s \<leftarrow> freeblocks_init s;
     Some (s\<lparr>pagemap_initialized := True\<rparr>)
   }"

section \<open>The memory map of the machine\<close>

text \<open>The entries are those that \<^verbatim>\<open>pmem_e820_init\<close> copied from the boot loader; \<open>kend\<close> is the physical address of the end
  of the kernel image. Addresses are below \<open>2 ^ 64\<close>, so the sums do not wrap.\<close>

record e820_entry =
  base_addr :: nat
  e820_len :: nat
  e820_type :: nat

abbreviation (input) E820_TYPE_USABLE :: nat where "E820_TYPE_USABLE \<equiv> 1"

fun usable_end :: "nat \<Rightarrow> e820_entry list \<Rightarrow> nat option" where
  "usable_end kend [] = Some 0"
| "usable_end kend (entry # rest) =
     (if e820_type entry = E820_TYPE_USABLE \<and> base_addr entry + e820_len entry > kend
      then do { kassert (base_addr entry \<le> kend); Some ((base_addr entry + e820_len entry) div PG * PG) }
      else usable_end kend rest)"

definition pmem_arch_init :: "nat \<Rightarrow> nat \<Rightarrow> e820_entry list \<Rightarrow> pmem \<Rightarrow> pmem option" where
  "pmem_arch_init devmem_base kend entries s = do {
     let s = s\<lparr>pmem_start := (kend + (PG - 1)) div PG * PG, pmem_end := 0\<rparr>;
     e \<leftarrow> usable_end kend entries;
     let s = s\<lparr>pmem_end := e\<rparr>;
     kassert (pmem_end s \<noteq> 0);
     kassert (pmem_end s < devmem_base);
     Some s
   }"

end
