(* ===== verification/Buddy.thy ===== *)
theory Buddy
  imports Pmem
begin

text \<open>
  Correctness of the buddy allocator's recursive operations, \<^verbatim>\<open>find_freeblock\<close> and \<^verbatim>\<open>merge_block\<close>.

  The invariant \<open>buddy_inv\<close> partitions the pages into aligned blocks. Splitting and merging are shown to keep
  it, and to leave every block in use alone; the key fact is that the buddy of a block head is a
  block head itself, so the fields the code reads from it are meaningful.
\<close>

section \<open>The partition into blocks\<close>

definition blk :: "pmem \<Rightarrow> nat \<Rightarrow> nat set" where
  "blk s h = {h..<h + 2 ^ ord s h}"

text \<open>
  \<open>buddy_inv L s H X\<close>: the blocks that start at the pages of \<open>H\<close> are aligned to their size and partition
  the pages below \<open>L\<close>, and the free lists hold exactly the heads of order \<open>o\<close> with reference count 0,
  except those in \<open>X\<close>, which have been taken out and not been handed out or put back yet.
\<close>

definition buddy_inv :: "nat \<Rightarrow> pmem \<Rightarrow> nat set \<Rightarrow> nat set \<Rightarrow> bool" where
  "buddy_inv L s H X \<longleftrightarrow>
     (\<forall>h\<in>H. ord s h \<le> 10 \<and> 2 ^ ord s h dvd h \<and> h + 2 ^ ord s h \<le> L \<and> 0 \<le> ref s h)
     \<and> (\<forall>p<L. \<exists>h\<in>H. p \<in> blk s h)
     \<and> (\<forall>h\<in>H. \<forall>k\<in>H. h \<noteq> k \<longrightarrow> blk s h \<inter> blk s k = {})
     \<and> (\<forall>i. distinct (freeblocks s i) \<and> set (freeblocks s i) = {h \<in> H - X. ord s h = i \<and> ref s h = 0})
     \<and> X \<subseteq> H \<and> (\<forall>x\<in>X. ref s x = 0) \<and> (\<forall>p<L. p \<notin> H \<longrightarrow> ref s p = 0)"

lemma invD:
  assumes "buddy_inv L s H X"
  shows "h \<in> H \<Longrightarrow> ord s h \<le> 10" "h \<in> H \<Longrightarrow> 2 ^ ord s h dvd h" "h \<in> H \<Longrightarrow> h + 2 ^ ord s h \<le> L"
    "h \<in> H \<Longrightarrow> 0 \<le> ref s h" "p < L \<Longrightarrow> \<exists>h\<in>H. p \<in> blk s h"
    "h \<in> H \<Longrightarrow> k \<in> H \<Longrightarrow> h \<noteq> k \<Longrightarrow> blk s h \<inter> blk s k = {}"
    "distinct (freeblocks s i)" "set (freeblocks s i) = {h \<in> H - X. ord s h = i \<and> ref s h = 0}"
    "X \<subseteq> H" "x \<in> X \<Longrightarrow> ref s x = 0" "p < L \<Longrightarrow> p \<notin> H \<Longrightarrow> ref s p = 0"
  using assms unfolding buddy_inv_def by blast+

lemma invI:
  assumes "\<And>h. h \<in> H \<Longrightarrow> ord s h \<le> 10" "\<And>h. h \<in> H \<Longrightarrow> 2 ^ ord s h dvd h"
    "\<And>h. h \<in> H \<Longrightarrow> h + 2 ^ ord s h \<le> L" "\<And>h. h \<in> H \<Longrightarrow> 0 \<le> ref s h"
    "\<And>p. p < L \<Longrightarrow> \<exists>h\<in>H. p \<in> blk s h"
    "\<And>h k. h \<in> H \<Longrightarrow> k \<in> H \<Longrightarrow> h \<noteq> k \<Longrightarrow> blk s h \<inter> blk s k = {}"
    "\<And>i. distinct (freeblocks s i)" "\<And>i. set (freeblocks s i) = {h \<in> H - X. ord s h = i \<and> ref s h = 0}"
    "X \<subseteq> H" "\<And>x. x \<in> X \<Longrightarrow> ref s x = 0" "\<And>p. p < L \<Longrightarrow> p \<notin> H \<Longrightarrow> ref s p = 0"
  shows "buddy_inv L s H X"
  unfolding buddy_inv_def by (intro conjI ballI allI impI) (rule assms; assumption)+

lemma head_in_blk [simp]: "h \<in> blk s h"
  by (simp add: blk_def)

lemma pages_fields [simp]:
  "ord (set_order p x s) q = (if q = p then x else ord s q)" "ref (set_order p x s) q = ref s q"
  "ord (set_refcnt p n s) q = ord s q" "ref (set_refcnt p n s) q = (if q = p then n else ref s q)"
  "freeblocks (set_order p x s) = freeblocks s" "freeblocks (set_refcnt p n s) = freeblocks s"
  "pagemap_end (set_order p x s) = pagemap_end s" "pagemap_end (set_refcnt p n s) = pagemap_end s"
  by (simp_all add: set_order_def set_refcnt_def)

lemma aligned_le:
  fixes d :: nat
  assumes "d dvd h" "d dvd m" "h < m + d"
  shows "h \<le> m"
proof -
  obtain x y where xy: "h = d * x" "m = d * y" using assms by (auto elim!: dvdE)
  then have "d * x < d * (y + 1)" using assms(3) by (simp add: algebra_simps)
  then have "x < y + 1" by (simp only: mult_less_cancel1)
  then show ?thesis using xy by simp
qed

lemma aligned_end:
  fixes d :: nat
  assumes "d dvd e" "d dvd m" "m < e"
  shows "m + d \<le> e"
proof -
  obtain x y where xy: "e = d * x" "m = d * y" using assms by (auto elim!: dvdE)
  then have "y < x" using assms(3) by simp
  then have "d * (y + 1) \<le> d * x" by (intro mult_le_mono2) simp
  then show ?thesis using xy by (simp add: algebra_simps)
qed

text \<open>The buddy of a block head is a block head whenever it is inside the partitioned memory.\<close>

definition buddy_of :: "nat \<Rightarrow> nat \<Rightarrow> nat" where
  "buddy_of q p = (if odd (p div 2 ^ q) then p - 2 ^ q else p + 2 ^ q)"

lemma buddy_of_pair:
  assumes "2 ^ q dvd p"
  shows "\<exists>m. 2 ^ Suc q dvd m \<and> (p = m \<and> buddy_of q p = m + 2 ^ q \<or> p = m + 2 ^ q \<and> buddy_of q p = m)"
proof -
  obtain k where k: "p = 2 ^ q * k" using assms by (auto elim: dvdE)
  show ?thesis
  proof (cases "even k")
    case True
    then have "2 ^ Suc q dvd p" using k by (auto elim!: evenE)
    then show ?thesis using True k by (intro exI [of _ p]) (simp add: buddy_of_def)
  next
    case False
    then obtain j where "k = 2 * j + 1" by (auto elim: oddE)
    then have "p = 2 ^ Suc q * j + 2 ^ q" using k by (simp add: algebra_simps)
    then show ?thesis using False k by (intro exI [of _ "2 ^ Suc q * j"]) (simp add: buddy_of_def)
  qed
qed

lemma buddy_block_cases:
  fixes p m b q h r :: nat
  assumes m: "2 ^ Suc q dvd m" "p = m \<and> b = m + 2 ^ q \<or> p = m + 2 ^ q \<and> b = m"
    and h: "2 ^ r dvd h" "h \<le> b" "b < h + 2 ^ r"
  shows "r \<le> q \<and> h = b \<or> h \<le> p \<and> p < h + 2 ^ r"
proof (cases "r \<le> q")
  case True
  have "2 ^ r dvd (2 :: nat) ^ q" using True by (rule le_imp_power_dvd)
  moreover have "2 ^ q dvd b" using m dvd_trans [OF _ m(1), of "2 ^ q"] by auto
  ultimately have "2 ^ r dvd b" by (rule dvd_trans)
  then have "b \<le> h" using aligned_le [OF _ h(1)] h(3) by blast
  then show ?thesis using True h(2) by simp
next
  case False
  then have d: "2 ^ Suc q dvd (2 :: nat) ^ r" by (intro le_imp_power_dvd) simp
  then have dh: "2 ^ Suc q dvd h" using h(1) by (rule dvd_trans)
  have bm: "m \<le> b" "b < m + 2 ^ Suc q" "m \<le> p" "p < m + 2 ^ Suc q" using m(2) by auto
  have "h \<le> m" using h(2) bm(2) by (intro aligned_le [OF dh m(1)]) simp
  moreover have "m + 2 ^ Suc q \<le> h + 2 ^ r"
    using bm(1) h(3) by (intro aligned_end [OF dvd_add [OF dh d] m(1)]) simp
  ultimately have "h \<le> p \<and> p < h + 2 ^ r" using bm(3,4) by (meson le_trans less_le_trans)
  then show ?thesis ..
qed

lemma buddy_is_head:
  assumes inv: "buddy_inv L s H X" and p: "p \<in> H" and b: "buddy_of (ord s p) p < L"
  shows "buddy_of (ord s p) p \<in> H \<and> ord s (buddy_of (ord s p) p) \<le> ord s p"
proof -
  obtain m where m: "2 ^ Suc (ord s p) dvd m"
      "p = m \<and> buddy_of (ord s p) p = m + 2 ^ ord s p \<or> p = m + 2 ^ ord s p \<and> buddy_of (ord s p) p = m"
    using buddy_of_pair [OF invD(2) [OF inv p]] by blast
  obtain h where h: "h \<in> H" "buddy_of (ord s p) p \<in> blk s h" using invD(5) [OF inv b] by blast
  from buddy_block_cases [OF m invD(2) [OF inv h(1)]] h(2)
  consider "ord s h \<le> ord s p" "h = buddy_of (ord s p) p" | "p \<in> blk s h"
    by (auto simp: blk_def)
  then show ?thesis
  proof cases
    case 2
    then have "h = p" using invD(6) [OF inv h(1) p] head_in_blk [of p s] by blast
    then have "buddy_of (ord s p) p \<in> blk s p" using h(2) by simp
    then show ?thesis using m(2) by (auto simp: blk_def)
  qed (use h in auto)
qed

lemma find_buddy_eq:
  assumes "buddy_inv L s H X" "p \<in> H"
  shows "find_buddy p s = Some (if buddy_of (ord s p) p \<ge> pagemap_end s then None else Some (buddy_of (ord s p) p))"
  using invD(1,2) [OF assms] by (simp add: find_buddy_def buddy_of_def Let_def dvd_imp_mod_0)

section \<open>Splitting, merging, taking out and putting back\<close>

text \<open>Changing the free lists only.\<close>

lemma inv_lists:
  assumes inv: "buddy_inv L s H X" and pg: "pages s' = pages s"
    and "\<And>i. distinct (freeblocks s' i)"
    and "\<And>i. set (freeblocks s' i) = {h \<in> H - X'. ord s h = i \<and> ref s h = 0}"
    and "X' \<subseteq> H" "\<And>x. x \<in> X' \<Longrightarrow> ref s x = 0"
  shows "buddy_inv L s' H X'"
proof (rule invI)
  have b: "blk s' = blk s" by (simp add: blk_def fun_eq_iff pg)
  show "ord s' h \<le> 10" if "h \<in> H" for h using invD(1) [OF inv that] by (simp add: pg)
  show "2 ^ ord s' h dvd h" if "h \<in> H" for h using invD(2) [OF inv that] by (simp add: pg)
  show "h + 2 ^ ord s' h \<le> L" if "h \<in> H" for h using invD(3) [OF inv that] by (simp add: pg)
  show "0 \<le> ref s' h" if "h \<in> H" for h using invD(4) [OF inv that] by (simp add: pg)
  show "\<exists>h\<in>H. p \<in> blk s' h" if "p < L" for p using invD(5) [OF inv that] by (simp add: b)
  show "blk s' h \<inter> blk s' k = {}" if "h \<in> H" "k \<in> H" "h \<noteq> k" for h k
    using invD(6) [OF inv that] by (simp add: b)
  show "set (freeblocks s' i) = {h \<in> H - X'. ord s' h = i \<and> ref s' h = 0}" for i
    using assms(4) by (simp add: pg)
  show "ref s' x = 0" if "x \<in> X'" for x using assms(6) [OF that] by (simp add: pg)
  show "ref s' x = 0" if "x < L" "x \<notin> H" for x using invD(11) [OF inv that] by (simp add: pg)
qed (rule assms)+

lemma take_out:
  assumes inv: "buddy_inv L s H {}" and p: "p \<in> set (freeblocks s i)"
  shows "\<exists>s'. freeblocks_remove p s = Some s' \<and> buddy_inv L s' H {p} \<and> pages s' = pages s
           \<and> pagemap_end s' = pagemap_end s \<and> p \<in> H \<and> ord s p = i \<and> ref s p = 0"
proof -
  have p': "p \<in> H" "ord s p = i" "ref s p = 0" using p invD(8) [OF inv, of i] by auto
  let ?s = "s\<lparr>freeblocks := (freeblocks s)(i := remove1 p (freeblocks s i))\<rparr>"
  have "freeblocks_remove p s = Some ?s"
    using p' invD(1) [OF inv p'(1)] by (simp add: freeblocks_remove_def)
  moreover have "buddy_inv L ?s H {p}"
  proof (rule inv_lists [OF inv])
    show "distinct (freeblocks ?s j)" for j using invD(7) [OF inv] by simp
    show "set (freeblocks ?s j) = {h \<in> H - {p}. ord s h = j \<and> ref s h = 0}" for j
    proof -
      have "set (freeblocks ?s j) = set (freeblocks s j) - (if j = i then {p} else {})"
        using invD(7) [OF inv, of i] by simp
      then show ?thesis unfolding invD(8) [OF inv, of j] using p'(2) by (auto split: if_splits)
    qed
  qed (use p' in auto)
  ultimately show ?thesis using p' by auto
qed

lemma put_back:
  assumes inv: "buddy_inv L s H {p}"
  shows "\<exists>s'. freeblocks_insert p s = Some s' \<and> buddy_inv L s' H {} \<and> pages s' = pages s
           \<and> pagemap_end s' = pagemap_end s"
proof -
  have p: "p \<in> H" "ref s p = 0" using invD(9,10) [OF inv] by auto
  have "(pages s p)\<lparr>refcnt := 0\<rparr> = pages s p" using p(2) by (cases "pages s p") simp
  then have eq: "set_refcnt p 0 s = s" by (simp add: set_refcnt_def)
  let ?s = "s\<lparr>freeblocks := (freeblocks s)(ord s p := freeblocks s (ord s p) @ [p])\<rparr>"
  have "freeblocks_insert p s = Some ?s"
    using p invD(1) [OF inv p(1)] by (simp add: freeblocks_insert_def eq)
  moreover have "buddy_inv L ?s H {}"
  proof (rule inv_lists [OF inv])
    have "p \<notin> set (freeblocks s j)" for j unfolding invD(8) [OF inv] by simp
    then show "distinct (freeblocks ?s j)" for j using invD(7) [OF inv] by simp
    have "set (freeblocks ?s j) = set (freeblocks s j) \<union> (if j = ord s p then {p} else {})" for j by auto
    then show "set (freeblocks ?s j) = {h \<in> H - {}. ord s h = j \<and> ref s h = 0}" for j
      unfolding invD(8) [OF inv] using p by (auto split: if_splits)
  qed simp_all
  ultimately show ?thesis by auto
qed

text \<open>What allocation and release leave alone: the blocks in use.\<close>

definition allocated :: "pmem \<Rightarrow> nat set \<Rightarrow> nat set" where
  "allocated s H = {h \<in> H. ref s h \<noteq> 0}"

definition same_alloc :: "pmem \<Rightarrow> nat set \<Rightarrow> pmem \<Rightarrow> nat set \<Rightarrow> bool" where
  "same_alloc s H s' H' \<longleftrightarrow>
     allocated s' H' = allocated s H \<and> (\<forall>h\<in>allocated s H. pages s' h = pages s h)
     \<and> pagemap_end s' = pagemap_end s \<and> pagemap_initialized s' = pagemap_initialized s"

lemma same_alloc_refl: "same_alloc s H s H"
  by (simp add: same_alloc_def)

lemma same_alloc_trans: "same_alloc s H s1 H1 \<Longrightarrow> same_alloc s1 H1 s2 H2 \<Longrightarrow> same_alloc s H s2 H2"
  by (auto simp: same_alloc_def)

definition free_pages :: "pmem \<Rightarrow> nat set \<Rightarrow> nat set" where
  "free_pages s H = (\<Union>h\<in>{h \<in> H. ref s h = 0}. blk s h)"

definition used_pages :: "pmem \<Rightarrow> nat set \<Rightarrow> nat set" where
  "used_pages s H = (\<Union>h\<in>allocated s H. blk s h)"

lemma blk_below: "buddy_inv L s H X \<Longrightarrow> h \<in> H \<Longrightarrow> p \<in> blk s h \<Longrightarrow> p < L"
  using invD(3) [of L s H X h] by (auto simp: blk_def)

lemma free_complement:
  assumes "buddy_inv L s H X"
  shows "free_pages s H = {..<L} - used_pages s H"
proof (intro set_eqI iffI)
  fix p assume "p \<in> free_pages s H"
  then obtain h where h: "h \<in> H" "ref s h = 0" "p \<in> blk s h" by (auto simp: free_pages_def)
  have "p \<notin> blk s k" if "k \<in> allocated s H" for k
  proof -
    have "k \<in> H" "k \<noteq> h" using that h(2) by (auto simp: allocated_def)
    then show ?thesis using invD(6) [OF assms h(1), of k] h(3) by blast
  qed
  then show "p \<in> {..<L} - used_pages s H" using blk_below [OF assms h(1,3)] by (auto simp: used_pages_def)
next
  fix p assume p: "p \<in> {..<L} - used_pages s H"
  then obtain h where "h \<in> H" "p \<in> blk s h" using invD(5) [OF assms, of p] by auto
  then show "p \<in> free_pages s H" using p by (auto simp: free_pages_def used_pages_def allocated_def)
qed

lemma same_alloc_free:
  assumes "buddy_inv L s H X" "buddy_inv L s' H' X'" "same_alloc s H s' H'"
  shows "free_pages s' H' = free_pages s H"
proof -
  have "blk s' h = blk s h" if "h \<in> allocated s H" for h
    using assms(3) that by (simp add: same_alloc_def blk_def)
  then have "used_pages s' H' = used_pages s H"
    using assms(3) by (simp add: used_pages_def same_alloc_def)
  then show ?thesis using free_complement [OF assms(1)] free_complement [OF assms(2)] by simp
qed

lemma half_blocks:
  fixes p q :: nat
  shows "{p..<p + 2 ^ Suc q} = {p..<p + 2 ^ q} \<union> {p + 2 ^ q..<p + 2 ^ q + 2 ^ q}"
    "{p..<p + 2 ^ q} \<inter> {p + 2 ^ q..<p + 2 ^ q + 2 ^ q} = {}"
  by auto

text \<open>Replacing the pages' data of a head and its upper half: the partition after a split.\<close>

lemma inv_split:
  assumes inv: "buddy_inv L s H {p}" and o: "ord s p = Suc q"
  defines "b \<equiv> p + 2 ^ q"
  assumes pg: "ord s' p = q" "ref s' p = 0" "ord s' b = q" "ref s' b = 0"
      "\<And>h. h \<noteq> p \<Longrightarrow> h \<noteq> b \<Longrightarrow> pages s' h = pages s h"
    and fl: "\<And>i. freeblocks s' i = (if i = q then freeblocks s i @ [b] else freeblocks s i)"
  shows "buddy_inv L s' (insert b H) {p}" "b \<notin> H"
proof -
  have p: "p \<in> H" "ref s p = 0" using invD(9,10) [OF inv] by auto
  have bp: "b \<in> blk s p" "b \<noteq> p" using o by (simp_all add: blk_def b_def)
  show bH: "b \<notin> H"
    using invD(6) [OF inv p(1), of b] bp head_in_blk [of b s] by blast
  have oth: "pages s' h = pages s h" if "h \<in> H" "h \<noteq> p" for h using pg(5) that bH by blast
  have bo: "blk s' h = blk s h" if "h \<in> H" "h \<noteq> p" for h using oth [OF that] by (simp add: blk_def)
  have hb: "blk s p = blk s' p \<union> blk s' b" "blk s' p \<inter> blk s' b = {}"
    using half_blocks [of p q] o pg(1,3) by (simp_all add: blk_def b_def)
  have al: "2 ^ Suc q dvd p" using invD(2) [OF inv p(1)] o by simp
  then have alq: "2 ^ q dvd p" by (rule dvd_trans [rotated]) simp
  have le: "p + 2 ^ Suc q \<le> L" using invD(3) [OF inv p(1)] o by simp
  have dj: "blk s' h \<inter> blk s' k = {}" if "h \<in> H" "h \<noteq> p" "k = p \<or> k = b" for h k
    using invD(6) [OF inv that(1) p(1) that(2)] bo [OF that(1,2)] hb(1) that(3) by blast
  show "buddy_inv L s' (insert b H) {p}"
  proof (rule invI)
    show "ord s' h \<le> 10" if "h \<in> insert b H" for h
      using that invD(1) [OF inv p(1)] invD(1) [OF inv, of h] oth [of h] o pg(1,3) by (cases "h = p") auto
    show "2 ^ ord s' h dvd h" if "h \<in> insert b H" for h
      using that invD(2) [OF inv, of h] oth [of h] pg(1,3) alq by (cases "h = p") (auto simp: b_def)
    show "h + 2 ^ ord s' h \<le> L" if "h \<in> insert b H" for h
      using that invD(3) [OF inv, of h] oth [of h] pg(1,3) le by (cases "h = p") (auto simp: b_def)
    show "0 \<le> ref s' h" if "h \<in> insert b H" for h
      using that invD(4) [OF inv, of h] oth [of h] pg(2,4) by (cases "h = p") auto
    show "\<exists>h\<in>insert b H. x \<in> blk s' h" if x: "x < L" for x
    proof -
      obtain h where h: "h \<in> H" "x \<in> blk s h" using invD(5) [OF inv x] by blast
      show ?thesis using h hb(1) bo [OF h(1)] p(1) by (cases "h = p") auto
    qed
    show "blk s' h \<inter> blk s' k = {}" if hk: "h \<in> insert b H" "k \<in> insert b H" "h \<noteq> k" for h k
    proof (cases "h \<in> {p, b}")
      case True
      then show ?thesis
        using hk hb(2) dj [of k h] bH by (cases "k \<in> {p, b}") (auto simp: Int_commute)
    next
      case False
      then have h: "h \<in> H" "h \<noteq> p" using hk by auto
      show ?thesis
      proof (cases "k \<in> {p, b}")
        case True then show ?thesis using dj [OF h] by auto
      next
        case kn: False
        then have "k \<in> H" "k \<noteq> p" using hk by auto
        then show ?thesis using invD(6) [OF inv h(1) _ hk(3)] bo [OF h] bo [of k] by simp
      qed
    qed
    have nb: "b \<notin> set (freeblocks s i)" for i unfolding invD(8) [OF inv] using bH by simp
    then show "distinct (freeblocks s' i)" for i using invD(7) [OF inv] by (simp add: fl)
    show "set (freeblocks s' i) = {h \<in> insert b H - {p}. ord s' h = i \<and> ref s' h = 0}" for i
    proof -
      have "set (freeblocks s' i) = set (freeblocks s i) \<union> (if i = q then {b} else {})" by (simp add: fl)
      then show ?thesis unfolding invD(8) [OF inv] using oth bH pg(3,4) bp(2)
        by (auto split: if_splits)
    qed
    show "ref s' x = 0" if "x < L" "x \<notin> insert b H" for x
      using invD(11) [OF inv that(1)] that(2) p(1) pg(5) [of x] by (cases "x = p") auto
  qed (use p pg in auto)
qed

lemma inv_merge:
  assumes inv: "buddy_inv L s H {p}" and b: "b \<in> H" "b \<noteq> p" "ref s b = 0"
    and q: "ord s p = q" "ord s b = q" "q < 10"
    and m: "2 ^ Suc q dvd m" "{p, b} = {m, m + 2 ^ q}"
    and pg: "ord s' m = Suc q" "ref s' m = 0" "\<And>h. h \<noteq> m \<Longrightarrow> pages s' h = pages s h"
    and fl: "\<And>i. freeblocks s' i = (if i = q then remove1 b (freeblocks s i) else freeblocks s i)"
  shows "buddy_inv L s' (H - {m + 2 ^ q}) {m}"
proof -
  let ?u = "m + 2 ^ q"
  have p: "p \<in> H" "ref s p = 0" using invD(9,10) [OF inv] by auto
  have mu: "m \<in> H" "?u \<in> H" "ord s m = q" "ord s ?u = q" "ref s m = 0" "ref s ?u = 0"
    using m(2) b p q by (metis insertCI insertE singletonD)+
  have um: "?u \<noteq> m" by simp
  have bm: "blk s' m = blk s m \<union> blk s ?u" using half_blocks(1) [of m q] mu pg(1) by (simp add: blk_def)
  have bo: "blk s' h = blk s h" if "h \<noteq> m" for h using pg(3) [OF that] by (simp add: blk_def)
  show ?thesis
  proof (rule invI)
    show "ord s' h \<le> 10" if "h \<in> H - {?u}" for h
      using that invD(1) [OF inv, of h] pg(1) pg(3) [of h] q(3) by (cases "h = m") auto
    show "2 ^ ord s' h dvd h" if "h \<in> H - {?u}" for h
      using that invD(2) [OF inv, of h] pg(1) pg(3) [of h] m(1) by (cases "h = m") auto
    show "h + 2 ^ ord s' h \<le> L" if "h \<in> H - {?u}" for h
      using that invD(3) [OF inv, of h] pg(1) pg(3) [of h] invD(3) [OF inv mu(2)] mu(4) by (cases "h = m") auto
    show "0 \<le> ref s' h" if "h \<in> H - {?u}" for h
      using that invD(4) [OF inv, of h] pg(2) pg(3) [of h] by (cases "h = m") auto
    show "\<exists>h\<in>H - {?u}. x \<in> blk s' h" if x: "x < L" for x
    proof -
      obtain h where h: "h \<in> H" "x \<in> blk s h" using invD(5) [OF inv x] by blast
      show ?thesis
      proof (cases "h = m \<or> h = ?u")
        case True
        then have "x \<in> blk s' m" using h(2) by (auto simp: bm)
        then show ?thesis using mu(1) um by (intro bexI [of _ m]) auto
      next
        case False
        then show ?thesis using h bo [of h] by (intro bexI [of _ h]) auto
      qed
    qed
    show "blk s' h \<inter> blk s' k = {}" if hk: "h \<in> H - {?u}" "k \<in> H - {?u}" "h \<noteq> k" for h k
    proof -
      have "blk s' m \<inter> blk s' k = {}" if "k \<in> H - {?u}" "k \<noteq> m" for k
        using that bm bo [of k] invD(6) [OF inv mu(1), of k] invD(6) [OF inv mu(2), of k] by blast
      then show ?thesis
        using hk invD(6) [OF inv, of h k] bo [of h] bo [of k] by (cases "h = m"; cases "k = m") blast+
    qed
    show "distinct (freeblocks s' i)" for i using invD(7) [OF inv] by (simp add: fl)
    show "set (freeblocks s' i) = {h \<in> H - {?u} - {m}. ord s' h = i \<and> ref s' h = 0}" for i
    proof -
      have "set (freeblocks s' i) = set (freeblocks s i) - (if i = q then {b} else {})"
        using invD(7) [OF inv] by (simp add: fl)
      also have "\<dots> = {h \<in> H - {p, b}. ord s h = i \<and> ref s h = 0}"
        unfolding invD(8) [OF inv] using q(2) by (auto split: if_splits)
      also have "\<dots> = {h \<in> H - {?u} - {m}. ord s' h = i \<and> ref s' h = 0}"
        unfolding m(2) using pg(3) by auto
      finally show ?thesis .
    qed
    show "ref s' x = 0" if "x < L" "x \<notin> H - {?u}" for x
      using invD(11) [OF inv that(1)] that(2) mu um pg(2) pg(3) [of x] by (cases "x = m"; cases "x = ?u") auto
  qed (use mu um pg in auto)
qed

section \<open>The two recursive operations\<close>

lemma split_step:
  assumes inv: "buddy_inv (pagemap_end s) s H {p}" and o: "ord s p = Suc q"
  shows "\<exists>b s'. find_buddy p (set_order p q s) = Some (Some b)
     \<and> freeblocks_insert b (set_order b q (set_order p q s)) = Some s'
     \<and> buddy_inv (pagemap_end s) s' (insert b H) {p} \<and> same_alloc s H s' (insert b H) \<and> ord s' p = q"
proof -
  let ?b = "p + 2 ^ q"
  let ?s1 = "set_order ?b q (set_order p q s)"
  have p: "p \<in> H" "ref s p = 0" using invD(9,10) [OF inv] by auto
  have al: "2 ^ Suc q dvd p" "p + 2 ^ Suc q \<le> pagemap_end s" "q \<le> 9"
    using invD(1,2,3) [OF inv p(1)] o by auto
  then obtain k where k: "p = 2 ^ q * (2 * k)" by (auto elim!: dvdE)
  then have "p mod 2 ^ q = 0" "even (p div 2 ^ q)" by simp_all
  moreover have "?b < pagemap_end s" using al(2) by (simp add: less_le_trans [of _ "p + 2 ^ Suc q"])
  ultimately have fb: "find_buddy p (set_order p q s) = Some (Some ?b)"
    using al(3) by (simp add: find_buddy_def Let_def)
  let ?s' = "(set_refcnt ?b 0 ?s1)\<lparr>freeblocks := (freeblocks s)(q := freeblocks s q @ [?b])\<rparr>"
  have fi: "freeblocks_insert ?b ?s1 = Some ?s'"
    using al(3) by (simp add: freeblocks_insert_def Let_def)
  have s': "buddy_inv (pagemap_end s) ?s' (insert ?b H) {p}" "?b \<notin> H"
    by (rule inv_split(1) [OF inv o], use p in \<open>simp_all add: set_order_def set_refcnt_def\<close>)
      (rule inv_split(2) [OF inv o, of ?s'], use p in \<open>simp_all add: set_order_def set_refcnt_def\<close>)
  moreover have "same_alloc s H ?s' (insert ?b H)"
    unfolding same_alloc_def
  proof (intro conjI ballI)
    show "allocated ?s' (insert ?b H) = allocated s H"
      using s'(2) by (auto simp: allocated_def)
    show "pages ?s' h = pages s h" if "h \<in> allocated s H" for h
      using that s'(2) p by (auto simp: allocated_def set_order_def set_refcnt_def)
  qed (simp_all add: set_order_def set_refcnt_def)
  ultimately show ?thesis using fb fi by (intro exI [of _ ?b] exI [of _ ?s']) simp
qed

lemma find_freeblock_ok:
  assumes "buddy_inv (pagemap_end s) s H {}" "split \<longrightarrow> 0 < n"
  shows "\<exists>r s'. find_freeblock n split s = Some (r, s') \<and>
     (case r of
        None \<Rightarrow> s' = s \<and> (\<forall>i. n \<le> i \<longrightarrow> i \<le> 10 \<longrightarrow> freeblocks s i = [])
      | Some p \<Rightarrow> \<exists>H'. buddy_inv (pagemap_end s) s' H' {p} \<and> same_alloc s H s' H'
          \<and> ord s' p = (if split then n - 1 else n))"
  using assms
proof (induction n split s rule: find_freeblock.induct)
  case (1 n split s)
  show ?case
  proof (cases "n > 10")
    case True
    then show ?thesis by (subst find_freeblock.simps) simp
  next
    case False
    have "\<exists>r s1. (if freeblocks s n \<noteq> [] then do {
             let p = hd (freeblocks s n);
             s \<leftarrow> freeblocks_remove p s;
             Some (Some p, s)
           }
           else find_freeblock (n + 1) True s) = Some (r, s1) \<and>
        (case r of
           None \<Rightarrow> s1 = s \<and> (\<forall>i. n \<le> i \<longrightarrow> i \<le> 10 \<longrightarrow> freeblocks s i = [])
         | Some p \<Rightarrow> \<exists>H'. buddy_inv (pagemap_end s) s1 H' {p} \<and> same_alloc s H s1 H' \<and> ord s1 p = n)"
    proof (cases "freeblocks s n = []")
      case empty: True
      have up: "i = n \<or> n + 1 \<le> i" if "n \<le> i" for i using that by auto
      from "1.IH" [OF False] empty "1.prems"(1) show ?thesis
        by (fastforce split: option.splits dest: up)
    next
      case ne: False
      then have "hd (freeblocks s n) \<in> set (freeblocks s n)" by simp
      from take_out [OF "1.prems"(1) this] obtain s1 where s1:
        "freeblocks_remove (hd (freeblocks s n)) s = Some s1"
        "buddy_inv (pagemap_end s) s1 H {hd (freeblocks s n)}" "pages s1 = pages s"
        "pagemap_end s1 = pagemap_end s" "ord s (hd (freeblocks s n)) = n" by blast
      have "pagemap_initialized s1 = pagemap_initialized s"
        using s1(1) by (auto simp: freeblocks_remove_def split: if_splits)
      then have "same_alloc s H s1 H" using s1(3,4) by (simp add: same_alloc_def allocated_def)
      then show ?thesis using ne s1 by auto
    qed
    then obtain r s1 where r: "(if freeblocks s n \<noteq> [] then do {
             let p = hd (freeblocks s n);
             s \<leftarrow> freeblocks_remove p s;
             Some (Some p, s)
           }
           else find_freeblock (n + 1) True s) = Some (r, s1)"
      "case r of
           None \<Rightarrow> s1 = s \<and> (\<forall>i. n \<le> i \<longrightarrow> i \<le> 10 \<longrightarrow> freeblocks s i = [])
         | Some p \<Rightarrow> \<exists>H'. buddy_inv (pagemap_end s) s1 H' {p} \<and> same_alloc s H s1 H' \<and> ord s1 p = n" by blast
    show ?thesis
    proof (cases r)
      case None
      then show ?thesis using r False by (subst find_freeblock.simps) simp
    next
      case (Some p)
      then obtain H1 where H1: "buddy_inv (pagemap_end s) s1 H1 {p}" "same_alloc s H s1 H1" "ord s1 p = n"
        using r(2) by auto
      show ?thesis
      proof (cases split)
        case no: False
        then show ?thesis using r(1) Some H1 False by (subst find_freeblock.simps) auto
      next
        case yes: True
        then obtain q where q: "n = Suc q" using "1.prems"(2) gr0_implies_Suc by blast
        have L: "pagemap_end s1 = pagemap_end s" using H1(2) by (simp add: same_alloc_def)
        obtain b s2 where "find_buddy p (set_order p q s1) = Some (Some b)"
            "freeblocks_insert b (set_order b q (set_order p q s1)) = Some s2"
            "buddy_inv (pagemap_end s) s2 (insert b H1) {p}" "same_alloc s1 H1 s2 (insert b H1)" "ord s2 p = q"
          using split_step [of s1 H1 p q] H1(1,3) q L by auto
        then show ?thesis
          using r(1) Some False yes q same_alloc_trans [OF H1(2)]
          by (subst find_freeblock.simps) (auto simp: Let_def)
      qed
    qed
  qed
qed

lemma remove_buddy:
  assumes inv: "buddy_inv L s H {p}" and b: "b \<in> H" "ref s b = 0"
  shows "freeblocks_remove b s = Some (s\<lparr>freeblocks := (freeblocks s)(ord s b := remove1 b (freeblocks s (ord s b)))\<rparr>)"
  using invD(1) [OF inv b(1)] b(2) by (simp add: freeblocks_remove_def)

lemma same_alloc_merge:
  assumes "ref s m = 0" "ref s u = 0" "\<And>h. h \<noteq> m \<Longrightarrow> pages s' h = pages s h" "ref s' m = 0"
    "pagemap_end s' = pagemap_end s" "pagemap_initialized s' = pagemap_initialized s"
  shows "same_alloc s H s' (H - {u})"
proof -
  have "ref s' h = ref s h" for h using assms(1,3,4) by (cases "h = m") simp_all
  then have "allocated s' (H - {u}) = allocated s H" using assms(2) by (auto simp: allocated_def)
  moreover have "pages s' h = pages s h" if "h \<in> allocated s H" for h
    using that assms(1) assms(3) [of h] by (cases "h = m") (auto simp: allocated_def)
  ultimately show ?thesis using assms(5,6) by (simp add: same_alloc_def)
qed

lemma merge_block_ok:
  assumes "buddy_inv (pagemap_end s) s H {p}"
  shows "\<exists>p' s' H'. merge_block p s = Some (p', s') \<and> buddy_inv (pagemap_end s) s' H' {p'} \<and> same_alloc s H s' H'"
  using assms
proof (induction p s arbitrary: H rule: merge_block.induct)
  case (1 p s)
  note inv = "1.prems"
  have p: "p \<in> H" "ref s p = 0" using invD(9,10) [OF inv] by auto
  have o10: "ord s p \<le> 10" using invD(1) [OF inv p(1)] .
  let ?b = "buddy_of (ord s p) p"
  have stop: "\<exists>p' s' H'. Some (p, s) = Some (p', s') \<and> buddy_inv (pagemap_end s) s' H' {p'} \<and> same_alloc s H s' H'"
    using inv same_alloc_refl by blast
  show ?case
  proof (cases "ord s p = 10 \<or> ?b \<ge> pagemap_end s \<or> \<not> (ref s ?b = 0 \<and> ord s ?b = ord s p)")
    case True
    then have "merge_block p s = Some (p, s)"
      using p o10 find_buddy_eq [OF inv p(1)] by (subst merge_block.simps) auto
    then show ?thesis using stop by simp
  next
    case False
    then have q: "ord s p < 10" and bl: "?b < pagemap_end s" and br: "ref s ?b = 0" "ord s ?b = ord s p"
      using o10 by auto
    have bH: "?b \<in> H" using buddy_is_head [OF inv p(1) bl] by simp
    obtain m where m: "2 ^ Suc (ord s p) dvd m"
        "p = m \<and> ?b = m + 2 ^ ord s p \<or> p = m + 2 ^ ord s p \<and> ?b = m"
      using buddy_of_pair [OF invD(2) [OF inv p(1)]] by blast
    define u where "u = m + 2 ^ ord s p"
    have pb: "{p, ?b} = {m, u}" and ne: "?b \<noteq> p" using m(2) by (auto simp: u_def)
    have min: "(if p < ?b then p else ?b) = m" using m(2) by (auto split: if_splits)
    have z: "ref s m = 0" "ref s u = 0" "ord s m = ord s p" using pb p(2) br by (metis insertCI insertE singletonD)+
    define s1 where "s1 = s\<lparr>freeblocks := (freeblocks s)(ord s ?b := remove1 ?b (freeblocks s (ord s ?b)))\<rparr>"
    define s2 where "s2 = set_order m (ord s p + 1) s1"
    have rm: "freeblocks_remove ?b s = Some s1" using remove_buddy [OF inv bH br(1)] by (simp add: s1_def)
    have fbq: "find_buddy p s = Some (Some ?b)" using find_buddy_eq [OF inv p(1)] bl by simp
    have inv2: "buddy_inv (pagemap_end s) s2 (H - {u}) {m}"
      unfolding u_def
      by (rule inv_merge [OF inv bH ne br(1) refl br(2) q m(1) pb [unfolded u_def]])
        (use z br in \<open>auto simp: s2_def s1_def set_order_def\<close>)
    have al: "same_alloc s H s2 (H - {u})"
      by (rule same_alloc_merge [of _ m]) (use z in \<open>auto simp: s2_def s1_def set_order_def\<close>)
    have e2: "pagemap_end s2 = pagemap_end s" using al by (simp add: same_alloc_def)
    have step: "merge_block p s = merge_block m s2"
      using p q br rm fbq min by (subst merge_block.simps) (auto simp: s2_def split: if_splits)
    have "\<exists>p' s' H'. merge_block m s2 = Some (p', s') \<and> buddy_inv (pagemap_end s2) s' H' {p'} \<and> same_alloc s2 (H - {u}) s' H'"
    proof (cases "p < ?b")
      case True
      then have "m = p" using min by simp
      then show ?thesis
        using "1.IH"(1) [OF _ _ fbq refl _ rm True, of "H - {u}"] p o10 q br inv2 e2
        by (auto simp: s2_def)
    next
      case nl: False
      then have "m = ?b" using min by simp
      then show ?thesis
        using "1.IH"(2) [OF _ _ fbq refl _ rm nl, of "H - {u}"] p o10 q br inv2 e2
        by (auto simp: s2_def)
    qed
    then show ?thesis using same_alloc_trans [OF al] unfolding step e2 by blast
  qed
qed

end
