(* ===== verification/Frames.thy ===== *)
theory Frames
  imports Buddy
begin

text \<open>
  The entry points of the physical memory allocator: allocation, release, reference counts, and the
  interface \<open>frame_allocator\<close> that the rest of the kernel relies on.
\<close>

section \<open>Allocation and release\<close>

text \<open>Handing a block out, and taking one back.\<close>

lemma inv_ref:
  assumes inv: "buddy_inv L s H X" and n: "0 \<le> ref s' p" and p: "p \<in> H"
    and pg: "ord s' p = ord s p" "\<And>h. h \<noteq> p \<Longrightarrow> pages s' h = pages s h" "freeblocks s' = freeblocks s"
    and X: "X = {} \<and> X' = {p} \<and> ref s p \<noteq> 0 \<and> ref s' p = 0 \<or> X = {p} \<and> X' = {} \<and> ref s' p \<noteq> 0"
  shows "buddy_inv L s' H X'"
proof (rule invI)
  have o: "ord s' h = ord s h" for h using pg(1,2) by (cases "h = p") simp_all
  then have b: "blk s' = blk s" by (simp add: blk_def fun_eq_iff)
  have r: "h \<noteq> p \<Longrightarrow> ref s' h = ref s h" for h using pg(2) by simp
  show "ord s' h \<le> 10" if "h \<in> H" for h using invD(1) [OF inv that] by (simp add: o)
  show "2 ^ ord s' h dvd h" if "h \<in> H" for h using invD(2) [OF inv that] by (simp add: o)
  show "h + 2 ^ ord s' h \<le> L" if "h \<in> H" for h using invD(3) [OF inv that] by (simp add: o)
  show "0 \<le> ref s' h" if "h \<in> H" for h using invD(4) [OF inv that] n r by (cases "h = p") simp_all
  show "\<exists>h\<in>H. x \<in> blk s' h" if "x < L" for x using invD(5) [OF inv that] by (simp add: b)
  show "blk s' h \<inter> blk s' k = {}" if "h \<in> H" "k \<in> H" "h \<noteq> k" for h k
    using invD(6) [OF inv that] by (simp add: b)
  show "distinct (freeblocks s' i)" for i using invD(7) [OF inv] by (simp add: pg(3))
  show "set (freeblocks s' i) = {h \<in> H - X'. ord s' h = i \<and> ref s' h = 0}" for i
    unfolding pg(3) invD(8) [OF inv] o using X r by (elim disjE conjE) (safe; force)+
  show "ref s' x = 0" if "x < L" "x \<notin> H" for x
    using invD(11) [OF inv that] r [of x] that(2) p by (cases "x = p") auto
qed (use X p in auto)

lemma allocated_change:
  assumes "p \<in> H" "\<And>h. h \<noteq> p \<Longrightarrow> pages s' h = pages s h" "ref s' p \<noteq> 0"
  shows "allocated s' H = insert p (allocated s H)"
proof -
  have "ref s' h \<noteq> 0 \<longleftrightarrow> h = p \<or> ref s h \<noteq> 0" for h using assms(2) [of h] assms(3) by (cases "h = p") auto
  then show ?thesis using assms(1) by (auto simp: allocated_def)
qed

lemma min_order_loop_ok:
  "n \<le> 2 ^ 10 \<Longrightarrow> i \<le> 10 \<Longrightarrow> \<exists>k. min_order_loop n i = Some k \<and> i \<le> k \<and> k \<le> 10 \<and> n \<le> 2 ^ k
     \<and> (\<forall>j. i \<le> j \<longrightarrow> j < k \<longrightarrow> 2 ^ j < n)"
proof (induction n i rule: min_order_loop.induct)
  case (1 n i)
  show ?case
  proof (cases "n \<le> 2 ^ i")
    case True
    then show ?thesis using "1.prems" by (subst min_order_loop.simps) auto
  next
    case False
    then have "i \<noteq> 10" using "1.prems"(1) by auto
    then have "i + 1 \<le> 10" using "1.prems"(2) by simp
    then obtain k where k: "min_order_loop n (i + 1) = Some k" "i + 1 \<le> k" "k \<le> 10" "n \<le> 2 ^ k"
        "\<forall>j. i + 1 \<le> j \<longrightarrow> j < k \<longrightarrow> 2 ^ j < n"
      using "1.IH" "1.prems" False by auto
    have "2 ^ j < n" if "i \<le> j" "j < k" for j using that k(5) False by (cases "j = i") auto
    then show ?thesis using k False "1.prems"(2) by (subst min_order_loop.simps) auto
  qed
qed

text \<open>A consistent allocator: the pages below the end of memory are partitioned, and page 0 is in use.\<close>

definition pmem_ok :: "pmem \<Rightarrow> nat set \<Rightarrow> bool" where
  "pmem_ok s H \<longleftrightarrow> pagemap_initialized s \<and> buddy_inv (pagemap_end s) s H {} \<and> 0 \<in> allocated s H"

text \<open>One more block in use, and one less; nothing else in use is touched.\<close>

definition handed_out :: "pmem \<Rightarrow> nat set \<Rightarrow> nat \<Rightarrow> pmem \<Rightarrow> nat set \<Rightarrow> bool" where
  "handed_out s H p s' H' \<longleftrightarrow> pmem_ok s' H' \<and> p \<in> H' \<and> p \<notin> allocated s H
     \<and> allocated s' H' = insert p (allocated s H) \<and> (\<forall>h\<in>allocated s H. pages s' h = pages s h)
     \<and> ref s' p = 1 \<and> pagemap_end s' = pagemap_end s"

definition given_back :: "pmem \<Rightarrow> nat set \<Rightarrow> nat \<Rightarrow> pmem \<Rightarrow> nat set \<Rightarrow> bool" where
  "given_back s H p s' H' \<longleftrightarrow> pmem_ok s' H' \<and> allocated s' H' = allocated s H - {p}
     \<and> (\<forall>h\<in>allocated s H - {p}. pages s' h = pages s h) \<and> pagemap_end s' = pagemap_end s"

lemma nalloc_ok:
  assumes ok: "pmem_ok s H" and n: "0 < n" "n \<le> 2 ^ 10"
  shows "\<exists>er pa s'. pmem_nalloc n s = Some (er, pa, s') \<and>
     (er = ERR_OK \<and> (\<exists>H' p. pa = page_to_paddr p \<and> handed_out s H p s' H'
         \<and> get_min_page_order n = Some (ord s' p) \<and> n \<le> 2 ^ ord s' p)
      \<or> er = ERR_NOMEM \<and> s' = s \<and> (\<forall>h\<in>H. ref s h = 0 \<longrightarrow> 2 ^ ord s h < n))"
proof -
  have init: "pagemap_initialized s" and inv: "buddy_inv (pagemap_end s) s H {}" and zero: "0 \<in> allocated s H"
    using ok by (simp_all add: pmem_ok_def)
  obtain k where k: "get_min_page_order n = Some k" "k \<le> 10" "n \<le> 2 ^ k" "\<forall>j<k. 2 ^ j < n"
    using min_order_loop_ok [OF n(2), of 0] by (auto simp: get_min_page_order_def)
  obtain r s1 where r: "find_freeblock k False s = Some (r, s1)"
      "case r of
        None \<Rightarrow> s1 = s \<and> (\<forall>i. k \<le> i \<longrightarrow> i \<le> 10 \<longrightarrow> freeblocks s i = [])
      | Some p \<Rightarrow> \<exists>H'. buddy_inv (pagemap_end s) s1 H' {p} \<and> same_alloc s H s1 H' \<and> ord s1 p = k"
    using find_freeblock_ok [OF inv, of False k] unfolding if_False by blast
  show ?thesis
  proof (cases r)
    case None
    have "2 ^ ord s h < n" if "h \<in> H" "ref s h = 0" for h
    proof (rule ccontr)
      assume "\<not> 2 ^ ord s h < n"
      then have "k \<le> ord s h" using k(4) not_le by blast
      then have "freeblocks s (ord s h) = []" using r(2) None invD(1) [OF inv that(1)] by auto
      moreover have "h \<in> set (freeblocks s (ord s h))" unfolding invD(8) [OF inv] using that by simp
      ultimately show False by simp
    qed
    then show ?thesis
      using None r n k init by (simp add: pmem_nalloc_def pmem_nalloc_internal_def)
  next
    case (Some p)
    then obtain H1 where H1: "buddy_inv (pagemap_end s) s1 H1 {p}" "same_alloc s H s1 H1" "ord s1 p = k"
      using r(2) by auto
    have p: "p \<in> H1" "ref s1 p = 0" using invD(9,10) [OF H1(1)] by auto
    have pn: "p \<notin> allocated s H" using H1(2) p by (auto simp: same_alloc_def allocated_def)
    then have p0: "p \<noteq> 0" using zero by metis
    define s2 where "s2 = set_refcnt p 1 (s1\<lparr>pages := (pages s1)(p := (pages s1 p)\<lparr>dirty := False\<rparr>)\<rparr>)"
    have f: "ord s2 p = k" "ref s2 p = 1" "\<And>h. h \<noteq> p \<Longrightarrow> pages s2 h = pages s1 h"
        "freeblocks s2 = freeblocks s1" "pagemap_end s2 = pagemap_end s" "pagemap_initialized s2"
      using H1(2,3) init by (simp_all add: s2_def set_refcnt_def same_alloc_def)
    have inv2: "buddy_inv (pagemap_end s) s2 H1 {}"
      by (rule inv_ref [OF H1(1) _ p(1)]) (use f H1(3) in auto)
    have al: "allocated s2 H1 = insert p (allocated s H)"
      using allocated_change [OF p(1) f(3)] f(2) H1(2) by (simp add: same_alloc_def)
    have "\<forall>h\<in>allocated s H. pages s2 h = pages s h"
    proof
      fix h assume h: "h \<in> allocated s H"
      then have "h \<noteq> p" using pn by blast
      then show "pages s2 h = pages s h" using H1(2) f(3) h by (simp add: same_alloc_def)
    qed
    moreover have "pmem_nalloc n s = Some (ERR_OK, page_to_paddr p, s2)"
      using Some r(1) n k(1) init p p0
      by (simp add: pmem_nalloc_def pmem_nalloc_internal_def s2_def page_to_paddr_def Let_def)
    moreover have "pmem_ok s2 H1" using inv2 f al zero by (simp add: pmem_ok_def)
    ultimately have "handed_out s H p s2 H1 \<and> get_min_page_order n = Some (ord s2 p) \<and> n \<le> 2 ^ ord s2 p"
      using pn al f k p by (simp add: handed_out_def)
    then show ?thesis using \<open>pmem_nalloc n s = Some _\<close> by blast
  qed
qed

lemma allocated_eq: "buddy_inv L s H X \<Longrightarrow> allocated s H = {p. p < L \<and> ref s p \<noteq> 0}"
proof -
  assume inv: "buddy_inv L s H X"
  have "h < L" if "h \<in> H" for h
    using invD(3) [OF inv that] zero_less_power [of "2 :: nat" "ord s h"] by linarith
  then show ?thesis using invD(11) [OF inv] by (auto simp: allocated_def)
qed

lemma page_paddr [simp]: "paddr_to_page (page_to_paddr p) = p"
  by (simp add: paddr_to_page_def page_to_paddr_def)

lemma nfree_ok:
  assumes ok: "pmem_ok s H" and p: "p \<in> allocated s H" "p \<noteq> 0" and n: "0 < n"
  shows "\<exists>s' H'. pmem_nfree (page_to_paddr p) n s = Some s' \<and> given_back s H p s' H'"
proof -
  have init: "pagemap_initialized s" and inv: "buddy_inv (pagemap_end s) s H {}" and zero: "0 \<in> allocated s H"
    using ok by (simp_all add: pmem_ok_def)
  have pH: "p \<in> H" "ref s p \<noteq> 0" using p(1) by (simp_all add: allocated_def)
  let ?s1 = "set_refcnt p 0 s"
  have e1: "pagemap_end ?s1 = pagemap_end s" "pagemap_initialized ?s1 = pagemap_initialized s"
    by (simp_all add: set_refcnt_def)
  have inv1: "buddy_inv (pagemap_end s) ?s1 H {p}"
    by (rule inv_ref [OF inv _ pH(1)]) (use pH in \<open>auto simp: set_refcnt_def\<close>)
  obtain p' s2 H2 where m: "merge_block p ?s1 = Some (p', s2)" "buddy_inv (pagemap_end s) s2 H2 {p'}"
      "same_alloc ?s1 H s2 H2"
    using merge_block_ok [of ?s1 H p] inv1 e1 by auto
  obtain s3 where s3: "freeblocks_insert p' s2 = Some s3" "buddy_inv (pagemap_end s) s3 H2 {}" "pages s3 = pages s2"
      "pagemap_end s3 = pagemap_end s2"
    using put_back [OF m(2)] by blast
  have i3: "pagemap_initialized s3 = pagemap_initialized s2"
    using s3(1) by (auto simp: freeblocks_insert_def Let_def set_refcnt_def split: if_splits)
  have al1: "allocated ?s1 H = allocated s H - {p}" by (auto simp: allocated_def)
  have al: "allocated s3 H2 = allocated s H - {p}"
    using m(3) al1 s3(3) by (simp add: same_alloc_def allocated_def)
  have pg: "pages s3 h = pages s h" if "h \<in> allocated s H - {p}" for h
    using m(3) that al1 s3(3) by (auto simp: same_alloc_def set_refcnt_def)
  have "pmem_nfree (page_to_paddr p) n s = Some s3"
    using init n m(1) s3(1) by (simp add: pmem_nfree_def pmem_nfree_internal_def Let_def)
  moreover have "pmem_ok s3 H2"
    using s3 m(3) e1 init i3 al zero p(2) by (simp add: pmem_ok_def same_alloc_def)
  moreover have "pagemap_end s3 = pagemap_end s" using m(3) s3(4) e1 by (simp add: same_alloc_def)
  ultimately have "given_back s H p s3 H2" using al pg by (simp add: given_back_def)
  then show ?thesis using \<open>pmem_nfree _ n s = Some s3\<close> by blast
qed

lemma inc_refcnt_ok:
  assumes ok: "pmem_ok s H" and p: "p \<in> allocated s H" "ord s p = 0" and n: "0 \<le> n"
  shows "\<exists>s'. pmem_inc_refcnt (page_to_paddr p) n s = Some s' \<and> pmem_ok s' H
     \<and> allocated s' H = allocated s H \<and> ref s' p = ref s p + n \<and> (\<forall>h. h \<noteq> p \<longrightarrow> pages s' h = pages s h)"
proof -
  have inv: "buddy_inv (pagemap_end s) s H {}" using ok by (simp add: pmem_ok_def)
  have pH: "p \<in> H" "ref s p > 0" using p(1) invD(4) [OF inv, of p] by (auto simp: allocated_def)
  let ?s = "set_refcnt p (ref s p + n) s"
  have "buddy_inv (pagemap_end s) ?s H {}"
  proof -
    have "buddy_inv (pagemap_end s) (set_refcnt p 0 s) H {p}"
      by (rule inv_ref [OF inv _ pH(1)]) (use pH in \<open>auto simp: set_refcnt_def\<close>)
    then show ?thesis
      by (rule inv_ref [OF _ _ pH(1)]) (use pH n in \<open>auto simp: set_refcnt_def\<close>)
  qed
  moreover have "allocated ?s H = allocated s H" using pH n by (auto simp: allocated_def)
  ultimately show ?thesis
    using ok pH p by (auto simp: pmem_inc_refcnt_def pmem_ok_def Let_def set_refcnt_def)
qed

lemma dec_refcnt_ok:
  assumes ok: "pmem_ok s H" and p: "p \<in> allocated s H" "ord s p = 0" "p \<noteq> 0"
  shows "\<exists>s' H'. pmem_dec_refcnt (page_to_paddr p) s = Some s' \<and> pmem_ok s' H'
     \<and> allocated s' H' = (if ref s p = 1 then allocated s H - {p} else allocated s H)
     \<and> (ref s p > 1 \<longrightarrow> ref s' p = ref s p - 1)
     \<and> (\<forall>h\<in>allocated s H - {p}. pages s' h = pages s h)"
proof -
  have init: "pagemap_initialized s" and inv: "buddy_inv (pagemap_end s) s H {}" using ok by (simp_all add: pmem_ok_def)
  have pH: "p \<in> H" "ref s p > 0" using p(1) invD(4) [OF inv, of p] by (auto simp: allocated_def)
  show ?thesis
  proof (cases "ref s p = 1")
    case True
    have zz: "set_refcnt p 0 (set_refcnt p 0 s) = set_refcnt p 0 s" by (simp add: set_refcnt_def)
    have "pagemap_initialized (set_refcnt p 0 s)" using init by (simp add: set_refcnt_def)
    then have "pmem_dec_refcnt (page_to_paddr p) s = pmem_nfree (page_to_paddr p) 1 s"
      using True p init zz
      by (simp add: pmem_dec_refcnt_def pmem_nfree_def pmem_nfree_internal_def Let_def)
    moreover obtain s' H' where "pmem_nfree (page_to_paddr p) 1 s = Some s'" "given_back s H p s' H'"
      using nfree_ok [OF ok p(1,3), of 1] by auto
    ultimately show ?thesis using True unfolding given_back_def by (intro exI [of _ s'] exI [of _ H']) simp
  next
    case False
    let ?s = "set_refcnt p (ref s p - 1) s"
    have "buddy_inv (pagemap_end s) (set_refcnt p 0 s) H {p}"
      by (rule inv_ref [OF inv _ pH(1)]) (use pH in \<open>auto simp: set_refcnt_def\<close>)
    then have "buddy_inv (pagemap_end s) ?s H {}"
      by (rule inv_ref [OF _ _ pH(1)]) (use pH False in \<open>auto simp: set_refcnt_def\<close>)
    moreover have "allocated ?s H = allocated s H" using pH False by (auto simp: allocated_def)
    ultimately show ?thesis
      using ok pH p False by (auto simp: pmem_dec_refcnt_def pmem_ok_def Let_def set_refcnt_def)
  qed
qed

section \<open>The interface of a page frame allocator\<close>

text \<open>The frames in the free lists.\<close>

definition free_frames :: "pmem \<Rightarrow> nat set" where
  "free_frames s = (\<Union>i\<le>10. \<Union>h\<in>set (freeblocks s i). {h..<h + 2 ^ i})"

lemma free_frames_eq:
  assumes "buddy_inv L s H {}"
  shows "free_frames s = free_pages s H"
proof -
  have "(\<exists>i\<in>{..10}. \<exists>h\<in>set (freeblocks s i). x \<in> {h..<h + 2 ^ i}) \<longleftrightarrow> (\<exists>h\<in>{h \<in> H. ref s h = 0}. x \<in> blk s h)" for x
    unfolding invD(8) [OF assms] blk_def using invD(1) [OF assms] by auto
  then show ?thesis unfolding free_frames_def free_pages_def by (intro set_eqI) (simp only: UN_iff)
qed

lemma ok_free: "pmem_ok s H \<Longrightarrow> free_frames s = {..<pagemap_end s} - used_pages s H"
  using free_frames_eq free_complement by (auto simp: pmem_ok_def)

lemma used_pages_same:
  assumes "\<forall>h\<in>A. pages s' h = pages s h"
  shows "(\<Union>h\<in>A. blk s' h) = (\<Union>h\<in>A. blk s h)"
  using assms by (simp add: blk_def)

lemma used_disjoint:
  assumes "buddy_inv L s H X" "p \<in> H" "A \<subseteq> H" "p \<notin> A"
  shows "blk s p \<inter> (\<Union>h\<in>A. blk s h) = {}"
proof -
  have "blk s p \<inter> blk s h = {}" if "h \<in> A" for h
    using invD(6) [OF assms(1,2), of h] that assms(3,4) by blast
  then show ?thesis by blast
qed

lemma handed_out_free:
  assumes "pmem_ok s H" "handed_out s H p s' H'"
  shows "blk s' p \<subseteq> free_frames s" "free_frames s' = free_frames s - blk s' p"
proof -
  have ok': "pmem_ok s' H'" and al: "allocated s' H' = insert p (allocated s H)"
    and pg: "\<forall>h\<in>allocated s H. pages s' h = pages s h" and L: "pagemap_end s' = pagemap_end s"
    and p: "p \<in> H'" "p \<notin> allocated s H"
    using assms(2) by (simp_all add: handed_out_def)
  have inv': "buddy_inv (pagemap_end s) s' H' {}" using ok' L by (simp add: pmem_ok_def)
  have u': "used_pages s' H' = blk s' p \<union> used_pages s H"
    using used_pages_same [OF pg] by (simp add: used_pages_def al)
  have "allocated s H \<subseteq> H'" using al by (auto simp: allocated_def)
  then have d: "blk s' p \<inter> used_pages s H = {}"
    using used_disjoint [OF inv' p(1) _ p(2)] used_pages_same [OF pg] by (simp add: used_pages_def)
  have "blk s' p \<subseteq> {..<pagemap_end s}" using blk_below [OF inv' p(1)] by blast
  then show "blk s' p \<subseteq> free_frames s" using d ok_free [OF assms(1)] by blast
  show "free_frames s' = free_frames s - blk s' p"
    unfolding ok_free [OF assms(1)] ok_free [OF ok'] u' L by auto
qed

lemma given_back_free:
  assumes "pmem_ok s H" "given_back s H p s' H'" "p \<in> allocated s H"
  shows "free_frames s' = free_frames s \<union> blk s p"
proof -
  have ok': "pmem_ok s' H'" and al: "allocated s' H' = allocated s H - {p}"
    and pg: "\<forall>h\<in>allocated s H - {p}. pages s' h = pages s h" and L: "pagemap_end s' = pagemap_end s"
    using assms(2) by (simp_all add: given_back_def)
  have inv: "buddy_inv (pagemap_end s) s H {}" using assms(1) by (simp add: pmem_ok_def)
  have pH: "p \<in> H" using assms(3) by (simp add: allocated_def)
  let ?U = "\<Union>h\<in>allocated s H - {p}. blk s h"
  have u: "used_pages s H = blk s p \<union> ?U" using assms(3) by (auto simp: used_pages_def)
  have u': "used_pages s' H' = ?U" using used_pages_same [OF pg] by (simp add: used_pages_def al)
  have d: "blk s p \<inter> ?U = {}"
    by (rule used_disjoint [OF inv pH]) (auto simp: allocated_def)
  have "blk s p \<subseteq> {..<pagemap_end s}" using blk_below [OF inv pH] by blast
  then show ?thesis unfolding ok_free [OF assms(1)] ok_free [OF ok'] u u' L using d by auto
qed

text \<open>A frame that was handed out on its own, and is not shared.\<close>

definition owned :: "pmem \<Rightarrow> nat \<Rightarrow> bool" where
  "owned s f \<longleftrightarrow> f \<noteq> 0 \<and> f < pagemap_end s \<and> ref s f = 1 \<and> ord s f = 0"

text \<open>A client that takes frames one at a time, and one that gives a list of frames back.\<close>

fun alloc_all :: "('s \<Rightarrow> (err \<times> nat \<times> 's) option) \<Rightarrow> nat \<Rightarrow> 's \<Rightarrow> (nat list \<times> 's) option" where
  "alloc_all alloc 0 s = Some ([], s)"
| "alloc_all alloc (Suc n) s = do {
     (er, pa, s) \<leftarrow> alloc s;
     (if er \<noteq> ERR_OK then None else do { (pas, s) \<leftarrow> alloc_all alloc n s; Some (pa # pas, s) })
   }"

fun release_all :: "(nat \<Rightarrow> 's \<Rightarrow> 's option) \<Rightarrow> nat list \<Rightarrow> 's \<Rightarrow> 's option" where
  "release_all release [] s = Some s"
| "release_all release (pa # pas) s = do { s \<leftarrow> release pa s; release_all release pas s }"

locale frame_allocator =
  fixes inv :: "'s \<Rightarrow> bool" and free :: "'s \<Rightarrow> nat set" and own :: "'s \<Rightarrow> nat \<Rightarrow> bool"
    and alloc :: "'s \<Rightarrow> (err \<times> nat \<times> 's) option" and release :: "nat \<Rightarrow> 's \<Rightarrow> 's option"
  assumes alloc_law: "inv s \<Longrightarrow> free s \<noteq> {} \<Longrightarrow> \<exists>f s'. alloc s = Some (ERR_OK, page_to_paddr f, s') \<and> inv s'
       \<and> f \<in> free s \<and> free s' = free s - {f} \<and> own s' f \<and> (\<forall>g. own s g \<longrightarrow> own s' g)"
    and exhausted: "inv s \<Longrightarrow> free s = {} \<Longrightarrow> alloc s = Some (ERR_NOMEM, 0, s)"
    and release_law: "inv s \<Longrightarrow> own s f \<Longrightarrow> \<exists>s'. release (page_to_paddr f) s = Some s' \<and> inv s'
       \<and> free s' = insert f (free s) \<and> (\<forall>g. g \<noteq> f \<longrightarrow> own s g \<longrightarrow> own s' g)"
    and finite_free: "inv s \<Longrightarrow> finite (free s)"
begin

lemma alloc_many:
  "inv s \<Longrightarrow> n \<le> card (free s) \<Longrightarrow>
   \<exists>fs s'. alloc_all alloc n s = Some (map page_to_paddr fs, s') \<and> inv s' \<and> length fs = n \<and> distinct fs
     \<and> set fs \<subseteq> free s \<and> free s' = free s - set fs \<and> (\<forall>g. g \<in> set fs \<or> own s g \<longrightarrow> own s' g)"
proof (induction n arbitrary: s)
  case (Suc n)
  then have "free s \<noteq> {}" by auto
  then obtain f t where t: "alloc s = Some (ERR_OK, page_to_paddr f, t)" "inv t" "f \<in> free s" "free t = free s - {f}"
      "own t f" "\<forall>g. own s g \<longrightarrow> own t g"
    using alloc_law Suc.prems(1) by blast
  have "n \<le> card (free t)" using t(3,4) Suc.prems finite_free by simp
  then obtain fs s' where fs: "alloc_all alloc n t = Some (map page_to_paddr fs, s')" "inv s'" "length fs = n" "distinct fs"
      "set fs \<subseteq> free t" "free s' = free t - set fs" "\<forall>g. g \<in> set fs \<or> own t g \<longrightarrow> own s' g"
    using Suc.IH [OF t(2)] by blast
  have "alloc_all alloc (Suc n) s = Some (map page_to_paddr (f # fs), s')" using t(1) fs(1) by simp
  moreover have "length (f # fs) = Suc n \<and> distinct (f # fs) \<and> set (f # fs) \<subseteq> free s \<and> free s' = free s - set (f # fs)"
    using fs(3-6) t(3,4) by auto
  moreover have "\<forall>g. g \<in> set (f # fs) \<or> own s g \<longrightarrow> own s' g" using fs(7) t(5,6) by auto
  ultimately show ?case using fs(2) by blast
qed simp

lemma release_many:
  "inv s \<Longrightarrow> distinct fs \<Longrightarrow> \<forall>f\<in>set fs. own s f \<Longrightarrow>
   \<exists>s'. release_all release (map page_to_paddr fs) s = Some s' \<and> inv s' \<and> free s' = free s \<union> set fs"
proof (induction fs arbitrary: s)
  case (Cons f fs)
  obtain t where t: "release (page_to_paddr f) s = Some t" "inv t" "free t = insert f (free s)"
      "\<forall>g. g \<noteq> f \<longrightarrow> own s g \<longrightarrow> own t g"
    using release_law [OF Cons.prems(1), of f] Cons.prems(3) by auto
  have "\<forall>g\<in>set fs. own t g" using t(4) Cons.prems(2,3) by auto
  then show ?case using Cons.IH [OF t(2)] t Cons.prems(2) by auto
qed simp

lemma round_trip:
  assumes "inv s" "n \<le> card (free s)"
  shows "\<exists>fs s'. alloc_all alloc n s = Some (map page_to_paddr fs, s') \<and> length fs = n \<and> distinct fs \<and> set fs \<subseteq> free s
     \<and> free s' = free s - set fs \<and> (\<forall>gs. distinct gs \<and> set gs = set fs \<longrightarrow>
        (\<exists>s''. release_all release (map page_to_paddr gs) s' = Some s'' \<and> inv s'' \<and> free s'' = free s))"
proof -
  obtain fs s' where fs: "alloc_all alloc n s = Some (map page_to_paddr fs, s')" "inv s'" "length fs = n" "distinct fs"
      "set fs \<subseteq> free s" "free s' = free s - set fs" "\<forall>g. g \<in> set fs \<or> own s g \<longrightarrow> own s' g"
    using alloc_many [OF assms] by blast
  have "\<exists>s''. release_all release (map page_to_paddr gs) s' = Some s'' \<and> inv s'' \<and> free s'' = free s"
    if "distinct gs \<and> set gs = set fs" for gs
    using release_many [OF fs(2), of gs] that fs(5,6,7) by auto
  then show ?thesis using fs by blast
qed

end

text \<open>A consistent allocator, with the partition left implicit.\<close>

definition frames_ok :: "pmem \<Rightarrow> bool" where
  "frames_ok s \<longleftrightarrow> (\<exists>H. pmem_ok s H)"

lemma owned_allocated: "pmem_ok s H \<Longrightarrow> owned s f \<Longrightarrow> f \<in> allocated s H"
  using allocated_eq [of "pagemap_end s" s H "{}"] by (auto simp: pmem_ok_def owned_def)

lemma min_order_one: "get_min_page_order 1 = Some 0"
  by (simp add: get_min_page_order_def min_order_loop.simps)

lemma owned_kept:
  assumes "pages s' g = pages s g" "pagemap_end s' = pagemap_end s"
  shows "owned s' g = owned s g"
  using assms by (simp add: owned_def)

lemma pmem_alloc_some:
  assumes "pmem_ok s H" "free_frames s \<noteq> {}"
  shows "\<exists>f s'. pmem_alloc s = Some (ERR_OK, page_to_paddr f, s') \<and> frames_ok s' \<and> f \<in> free_frames s
     \<and> free_frames s' = free_frames s - {f} \<and> owned s' f \<and> (\<forall>g. owned s g \<longrightarrow> owned s' g)"
proof -
  have inv: "buddy_inv (pagemap_end s) s H {}" and z: "0 \<in> allocated s H" using assms(1) by (simp_all add: pmem_ok_def)
  obtain h where "h \<in> H" "ref s h = 0" using assms(2) free_frames_eq [OF inv] by (auto simp: free_pages_def)
  then obtain H' f s' where f: "pmem_alloc s = Some (ERR_OK, page_to_paddr f, s')" "handed_out s H f s' H'" "ord s' f = 0"
    using nalloc_ok [OF assms(1), of 1] unfolding pmem_alloc_def min_order_one by fastforce
  have b: "blk s' f = {f}" using f(3) by (simp add: blk_def atLeastLessThan_singleton)
  have ho: "pmem_ok s' H'" "f \<notin> allocated s H" "\<forall>h\<in>allocated s H. pages s' h = pages s h" "ref s' f = 1"
      "pagemap_end s' = pagemap_end s" "f \<in> H'"
    using f(2) by (simp_all add: handed_out_def)
  have "owned s' g" if "owned s g" for g
    using owned_kept [of s' g s] ho(3,5) that owned_allocated [OF assms(1) that] by blast
  moreover have "f \<noteq> 0" using z ho(2) by metis
  moreover have "f < pagemap_end s'" using blk_below [OF _ ho(6), of "pagemap_end s'" s' "{}" f] ho(1) by (simp add: pmem_ok_def)
  ultimately show ?thesis
    using f handed_out_free [OF assms(1) f(2)] b ho(1,4) by (auto simp: frames_ok_def owned_def)
qed

lemma pmem_alloc_none:
  assumes "pmem_ok s H" "free_frames s = {}"
  shows "pmem_alloc s = Some (ERR_NOMEM, 0, s)"
proof -
  have "\<not> handed_out s H p s' H'" for p s' H'
    using handed_out_free(1) [OF assms(1), of p s' H'] assms(2) head_in_blk [of p s'] by blast
  then obtain pa where pa: "pmem_nalloc 1 s = Some (ERR_NOMEM, pa, s)"
    using nalloc_ok [OF assms(1), of 1] by auto
  then have "pa = 0" using assms(1)
    by (auto simp: pmem_nalloc_def pmem_nalloc_internal_def pmem_ok_def bind_Some_iff Let_def
        split: option.splits if_splits)
  then show ?thesis using pa by (simp add: pmem_alloc_def)
qed

lemma pmem_free_owned:
  assumes "pmem_ok s H" "owned s f"
  shows "\<exists>s'. pmem_free (page_to_paddr f) s = Some s' \<and> frames_ok s' \<and> free_frames s' = insert f (free_frames s)
     \<and> (\<forall>g. g \<noteq> f \<longrightarrow> owned s g \<longrightarrow> owned s' g)"
proof -
  have f: "f \<in> allocated s H" "f \<noteq> 0" "blk s f = {f}"
    using owned_allocated [OF assms] assms(2) by (auto simp: owned_def blk_def)
  obtain s' H' where s': "pmem_nfree (page_to_paddr f) 1 s = Some s'" "given_back s H f s' H'"
    using nfree_ok [OF assms(1) f(1,2), of 1] by auto
  have gb: "pmem_ok s' H'" "\<forall>h\<in>allocated s H - {f}. pages s' h = pages s h" "pagemap_end s' = pagemap_end s"
    using s'(2) by (simp_all add: given_back_def)
  have "owned s' g" if "g \<noteq> f" "owned s g" for g
    using owned_kept [of s' g s] gb(2,3) that owned_allocated [OF assms(1) that(2)] by blast
  then show ?thesis
    using s'(1) gb(1) given_back_free [OF assms(1) s'(2) f(1)] f(3) by (auto simp: pmem_free_def frames_ok_def)
qed

interpretation fr: frame_allocator frames_ok free_frames owned pmem_alloc pmem_free
proof unfold_locales
  fix s f assume ok: "frames_ok s"
  then obtain H where H: "pmem_ok s H" by (auto simp: frames_ok_def)
  show "free_frames s \<noteq> {} \<Longrightarrow> \<exists>f s'. pmem_alloc s = Some (ERR_OK, page_to_paddr f, s') \<and> frames_ok s'
     \<and> f \<in> free_frames s \<and> free_frames s' = free_frames s - {f} \<and> owned s' f \<and> (\<forall>g. owned s g \<longrightarrow> owned s' g)"
    by (rule pmem_alloc_some [OF H])
  show "free_frames s = {} \<Longrightarrow> pmem_alloc s = Some (ERR_NOMEM, 0, s)" by (rule pmem_alloc_none [OF H])
  show "owned s f \<Longrightarrow> \<exists>s'. pmem_free (page_to_paddr f) s = Some s' \<and> frames_ok s'
     \<and> free_frames s' = insert f (free_frames s) \<and> (\<forall>g. g \<noteq> f \<longrightarrow> owned s g \<longrightarrow> owned s' g)"
    by (rule pmem_free_owned [OF H])
  show "finite (free_frames s)" using ok_free [OF H] by simp
qed

end
