(* ===== verification/Boot.thy ===== *)
theory Boot
  imports Frames
begin

text \<open>
  From the boot bitmap to the buddy allocator. During boot, frames are handed out in order, so the
  set bits of the bitmap form a prefix; \<^verbatim>\<open>pmem_init\<close> turns such a bitmap into free lists that satisfy the invariant
  of the allocator. The lemmas extend the partition of \<open>Buddy\<close> block by block, in the order in which
  \<^verbatim>\<open>freeblocks_init\<close> visits the pages.
\<close>

section \<open>Extending the partition\<close>

definition prefix_inv :: "nat \<Rightarrow> pmem \<Rightarrow> nat set \<Rightarrow> bool" where
  "prefix_inv L s H \<longleftrightarrow> buddy_inv L s H {} \<and> (\<forall>p\<ge>L. ref s p = 0) \<and> (\<forall>h\<in>H. ref s h \<noteq> 0 \<longrightarrow> ord s h = 0)"

lemma prefixD:
  assumes "prefix_inv L s H"
  shows "buddy_inv L s H {}" "p \<ge> L \<Longrightarrow> ref s p = 0" "h \<in> H \<Longrightarrow> h < L"
    "h \<in> H \<Longrightarrow> ref s h \<noteq> 0 \<Longrightarrow> ord s h = 0"
proof -
  show "buddy_inv L s H {}" "p \<ge> L \<Longrightarrow> ref s p = 0" "h \<in> H \<Longrightarrow> ref s h \<noteq> 0 \<Longrightarrow> ord s h = 0" using assms by (simp_all add: prefix_inv_def)
  then show "h \<in> H \<Longrightarrow> h < L" using blk_below head_in_blk by blast
qed

lemma prefix_extend:
  assumes pre: "prefix_inv L s H" and q: "q \<le> 10" "2 ^ q dvd L" and r: "0 \<le> r" "r \<noteq> 0 \<Longrightarrow> q = 0"
    and same: "\<And>p. p \<noteq> L \<Longrightarrow> ord s' p = ord s p" "\<And>p. p \<noteq> L \<Longrightarrow> ref s' p = ref s p"
    and new: "ord s' L = q" "ref s' L = r"
    and lists: "\<And>i. freeblocks s' i = (if r = 0 \<and> i = q then freeblocks s i @ [L] else freeblocks s i)"
  shows "prefix_inv (L + 2 ^ q) s' (insert L H)"
proof -
  note inv = prefixD(1) [OF pre] and lt = prefixD(3) [OF pre]
  have nL: "L \<notin> H" using lt by blast
  have o: "ord s' h = ord s h" "ref s' h = ref s h" "blk s' h = blk s h" if "h \<in> H" for h
    using same nL that unfolding blk_def by (metis, metis, metis)
  have bL: "blk s' L = {L..<L + 2 ^ q}" by (simp add: blk_def new)
  have below: "blk s h \<subseteq> {..<L}" if "h \<in> H" for h using blk_below [OF inv that] by blast
  have "buddy_inv (L + 2 ^ q) s' (insert L H) {}"
  proof (rule invI, goal_cases)
    case (1 h) then show ?case using invD(1) [OF inv] o new q by auto
  next
    case (2 h) then show ?case using invD(2) [OF inv] o new q by auto
  next
    case (3 h) then show ?case using invD(3) [OF inv] o new by fastforce
  next
    case (4 h) then show ?case using invD(4) [OF inv] o new r(1) by auto
  next
    case (5 p)
    show ?case
    proof (cases "p < L")
      case True
      then obtain h where "h \<in> H" "p \<in> blk s h" using invD(5) [OF inv] by blast
      then show ?thesis using o(3) by blast
    next
      case False then show ?thesis using 5 bL by simp
    qed
  next
    case (6 h k)
    have d: "blk s' j \<inter> blk s' L = {}" if "j \<in> H" for j using below [OF that] o(3) [OF that] bL by auto
    show ?case
    proof (cases "h = L \<or> k = L")
      case True then show ?thesis using 6 d by blast
    next
      case False then show ?thesis using 6 o(3) invD(6) [OF inv] by blast
    qed
  next
    case (7 i)
    have "L \<notin> set (freeblocks s i)" using nL invD(8) [OF inv, of i] by blast
    then show ?case using lists [of i] invD(7) [OF inv, of i] by auto
  next
    case (8 i)
    have "{h \<in> insert L H - {}. ord s' h = i \<and> ref s' h = 0} =
        (if r = 0 \<and> i = q then insert L {h \<in> H - {}. ord s h = i \<and> ref s h = 0} else {h \<in> H - {}. ord s h = i \<and> ref s h = 0})"
      using o new nL by auto
    then show ?case using lists [of i] invD(8) [OF inv, of i] by (cases "r = 0 \<and> i = q") auto
  next
    case (11 p)
    then have pL: "p \<noteq> L" "p \<notin> H" by auto
    then have "ref s p = 0" using invD(11) [OF inv, of p] prefixD(2) [OF pre, of p] by (meson not_le)
    then show ?case using same(2) [OF pL(1)] by simp
  qed simp_all
  moreover have "ref s' p = 0" if "p \<ge> L + 2 ^ q" for p
  proof -
    have "p \<noteq> L" "p \<ge> L" using that zero_less_power [of "2 :: nat" q] by linarith+
    then show ?thesis using same(2) prefixD(2) [OF pre, of p] by simp
  qed
  moreover have "\<forall>h\<in>insert L H. ref s' h \<noteq> 0 \<longrightarrow> ord s' h = 0"
    using prefixD(4) [OF pre] o new r(2) by auto
  ultimately show ?thesis by (simp add: prefix_inv_def)
qed

text \<open>What initialisation never changes.\<close>

definition same_conf :: "pmem \<Rightarrow> pmem \<Rightarrow> bool" where
  "same_conf s s' \<longleftrightarrow> pmem_start s' = pmem_start s \<and> pmem_end s' = pmem_end s \<and> pagemap_end s' = pagemap_end s
     \<and> bitmap s' = bitmap s \<and> bitmap_contig_start s' = bitmap_contig_start s"

lemma prefix_used:
  assumes "prefix_inv L s H"
  shows "prefix_inv (Suc L) (mark_allocated L s) (insert L H)"
  using prefix_extend [OF assms, of 0 1 "mark_allocated L s"] by (simp add: mark_allocated_def)

lemma mark_conf [simp]: "same_conf s (mark_allocated p s)"
  by (simp add: same_conf_def mark_allocated_def set_order_def set_refcnt_def)

lemma mark_ref [simp]: "ref (mark_allocated p s) q = (if q = p then 1 else ref s q)"
  by (simp add: mark_allocated_def)

lemma prefix_free:
  assumes "prefix_inv L s H" "q \<le> 10" "2 ^ q dvd L"
  shows "\<exists>s'. freeblocks_insert L (set_order L q s) = Some s' \<and> prefix_inv (L + 2 ^ q) s' (insert L H)
     \<and> same_conf s s' \<and> (\<forall>p. ref s' p = ref s p)"
proof -
  define t where "t = set_refcnt L 0 (set_order L q s)"
  define s' where "s' = t\<lparr>freeblocks := (freeblocks s)(q := freeblocks s q @ [L])\<rparr>"
  have r: "ref s L = 0" using prefixD(2) [OF assms(1)] by simp
  have "prefix_inv (L + 2 ^ q) s' (insert L H)"
    by (rule prefix_extend [OF assms, of 0]) (simp_all add: s'_def t_def)
  moreover have "freeblocks_insert L (set_order L q s) = Some s'"
    using assms(2) by (simp add: freeblocks_insert_def s'_def t_def Let_def)
  moreover have "same_conf s s'" by (simp add: same_conf_def s'_def t_def set_order_def set_refcnt_def)
  moreover have "ref s' p = ref s p" for p using r by (simp add: s'_def t_def)
  ultimately show ?thesis by blast
qed

lemma same_conf_trans: "same_conf s t \<Longrightarrow> same_conf t u \<Longrightarrow> same_conf s u"
  by (simp add: same_conf_def)

section \<open>The loops of initialisation\<close>

lemma max_order_loop_ok:
  "max_order_loop m a b \<le> m \<and> 2 ^ max_order_loop m a b dvd a \<and> (a < b \<longrightarrow> a + 2 ^ max_order_loop m a b \<le> b)"
  by (induction m) auto

lemma insert_range_ok:
  "prefix_inv a s H \<Longrightarrow> a \<le> b \<Longrightarrow>
   \<exists>s' H'. freeblocks_insert_range (a * PG) (b * PG) s = Some s' \<and> prefix_inv b s' H' \<and> same_conf s s'
     \<and> (\<forall>p. ref s' p = ref s p)"
proof (induction "b - a" arbitrary: a s H rule: less_induct)
  case less
  show ?case
  proof (cases "a < b")
    case False
    then show ?thesis using less.prems
      by (subst freeblocks_insert_range.simps) (auto simp: same_conf_def)
  next
    case True
    define q where "q = max_order_loop 10 a b"
    have q: "q \<le> 10" "2 ^ q dvd a" "a + 2 ^ q \<le> b" using max_order_loop_ok [of 10 a b] True by (auto simp: q_def)
    obtain t where t: "freeblocks_insert a (set_order a q s) = Some t" "prefix_inv (a + 2 ^ q) t (insert a H)"
        "same_conf s t" "\<forall>p. ref t p = ref s p"
      using prefix_free [OF less.prems(1) q(1,2)] by blast
    have "b - (a + 2 ^ q) < b - a" using True by (simp add: diff_less_mono2)
    from less.hyps [OF this t(2) q(3)] obtain s' H' where
      s': "freeblocks_insert_range ((a + 2 ^ q) * PG) (b * PG) t = Some s'" "prefix_inv b s' H'" "same_conf t s'"
        "\<forall>p. ref s' p = ref t p" by blast
    have "get_max_page_order (a * PG) (b * PG) = Some q" using True by (simp add: get_max_page_order_def q_def)
    then have "freeblocks_insert_range (a * PG) (b * PG) s = Some s'"
      using True t(1) s'(1)
      by (subst freeblocks_insert_range.simps) (simp add: paddr_to_page_def add_mult_distrib)
    then show ?thesis using s'(2,4) t(4) same_conf_trans [OF t(3) s'(3)] by auto
  qed
qed

lemma probe_free_ok:
  "i \<le> lim \<Longrightarrow> probe_free b lim i \<le> lim \<and> (\<forall>j. i \<le> j \<longrightarrow> j < probe_free b lim i \<longrightarrow> \<not> b j)"
proof (induction b lim i rule: probe_free.induct)
  case (1 b lim i)
  show ?case
  proof (cases "i < lim \<and> \<not> b i")
    case True
    then have "\<not> b j" if "i \<le> j" "j < probe_free b lim (i + 1)" for j
      using "1.IH" that by (cases "j = i") auto
    then show ?thesis using True "1.IH" by (subst (1 2) probe_free.simps) auto
  next
    case False
    then show ?thesis using "1.prems" by (subst (1 2) probe_free.simps) auto
  qed
qed

definition marked :: "(nat \<Rightarrow> bool) \<Rightarrow> nat \<Rightarrow> nat \<Rightarrow> nat \<Rightarrow> nat set" where
  "marked b ps i j = (\<lambda>k. ps + k) ` {k. i \<le> k \<and> k < j \<and> b k}"

lemma init_loop_ok:
  "prefix_inv (ps + i) s H \<Longrightarrow> i \<le> lim \<Longrightarrow> pmem_start s = ps * PG \<Longrightarrow>
   \<exists>s' H'. freeblocks_init_loop b lim i s = Some s' \<and> prefix_inv (ps + lim) s' H' \<and> same_conf s s'
     \<and> {p. ref s' p \<noteq> 0} = {p. ref s p \<noteq> 0} \<union> marked b ps i lim"
proof (induction "lim - i" arbitrary: i s H rule: less_induct)
  case less
  consider "i = lim" | "i < lim" "b i" | "i < lim" "\<not> b i" using less.prems(2) by linarith
  then show ?case
  proof cases
    case 1
    then show ?thesis using less.prems
      by (subst freeblocks_init_loop.simps) (auto simp: same_conf_def marked_def)
  next
    case 2
    let ?t = "mark_allocated (ps + i) s"
    have m: "prefix_inv (ps + (i + 1)) ?t (insert (ps + i) H)" using prefix_used [OF less.prems(1)] by simp
    have "pmem_start ?t = ps * PG" using less.prems(3) mark_conf [of s "ps + i"] by (simp add: same_conf_def)
    then obtain s' H' where s': "freeblocks_init_loop b lim (i + 1) ?t = Some s'" "prefix_inv (ps + lim) s' H'"
        "same_conf ?t s'" "{p. ref s' p \<noteq> 0} = {p. ref ?t p \<noteq> 0} \<union> marked b ps (i + 1) lim"
      using less.hyps [OF diff_less_mono2 [OF _ 2(1)] m] 2(1) by fastforce
    have "paddr_to_page (i * PG + pmem_start s) = ps + i"
      using less.prems(3) by (simp add: paddr_to_page_def)
    then have "freeblocks_init_loop b lim i s = Some s'"
      using 2 s'(1) by (subst freeblocks_init_loop.simps) simp
    moreover have "{k. i \<le> k \<and> k < lim \<and> b k} = insert i {k. i + 1 \<le> k \<and> k < lim \<and> b k}"
      using 2 by (auto simp: Suc_le_eq le_less)
    then have "marked b ps i lim = insert (ps + i) (marked b ps (i + 1) lim)" by (simp add: marked_def)
    moreover have "{p. ref ?t p \<noteq> 0} = insert (ps + i) {p. ref s p \<noteq> 0}" by auto
    ultimately show ?thesis using s'(2,4) same_conf_trans [OF mark_conf s'(3)] by auto
  next
    case 3
    define pr where "pr = probe_free b lim (i + 1)"
    have q: "pr \<le> lim \<and> (\<forall>j. i + 1 \<le> j \<longrightarrow> j < pr \<longrightarrow> \<not> b j)"
      using probe_free_ok [of "i + 1" lim b] 3(1) unfolding pr_def by simp
    have "\<not> b j" if "i \<le> j" "j < pr" for j using q that 3(2) by (cases "j = i") auto
    then have pr: "i < pr" "pr \<le> lim" "\<forall>j. i \<le> j \<longrightarrow> j < pr \<longrightarrow> \<not> b j"
      using q probe_free_ge [of "i + 1" b lim] unfolding pr_def by auto
    obtain t H1 where t: "freeblocks_insert_range ((ps + i) * PG) ((ps + pr) * PG) s = Some t" "prefix_inv (ps + pr) t H1"
        "same_conf s t" "\<forall>p. ref t p = ref s p"
      using insert_range_ok [OF less.prems(1), of "ps + pr"] pr(1) by auto
    have "pmem_start t = ps * PG" using t(3) less.prems(3) by (simp add: same_conf_def)
    then obtain s' H' where s': "freeblocks_init_loop b lim pr t = Some s'" "prefix_inv (ps + lim) s' H'"
        "same_conf t s'" "{p. ref s' p \<noteq> 0} = {p. ref t p \<noteq> 0} \<union> marked b ps pr lim"
      using less.hyps [OF diff_less_mono2 [OF pr(1) 3(1)] t(2) pr(2)] by blast
    have e: "i * PG + pmem_start s = (ps + i) * PG" "pr * PG + pmem_start s = (ps + pr) * PG"
      using less.prems(3) by (simp_all add: algebra_simps)
    have "freeblocks_init_loop b lim i s = Some s'"
      using 3 s'(1) t(1) e pr_def by (subst freeblocks_init_loop.simps) (simp add: Let_def add.commute)
    moreover have "{k. i \<le> k \<and> k < lim \<and> b k} = {k. pr \<le> k \<and> k < lim \<and> b k}"
      using pr by (metis less_le_not_le nle_le order.trans)
    then have "marked b ps i lim = marked b ps pr lim" by (simp add: marked_def)
    ultimately show ?thesis using s'(2,4) t(4) same_conf_trans [OF t(3) s'(3)] by auto
  qed
qed

lemma mark_low:
  "\<lbrakk>freeblocks s = (\<lambda>_. []); \<forall>p. ref s p = 0\<rbrakk> \<Longrightarrow>
   \<exists>H. prefix_inv m (fold mark_allocated [0..<m] s) H \<and> same_conf s (fold mark_allocated [0..<m] s)
     \<and> {p. ref (fold mark_allocated [0..<m] s) p \<noteq> 0} = {..<m}"
proof (induction m)
  case 0
  have "buddy_inv 0 s {} {}" by (rule invI) (use 0 in auto)
  then have "prefix_inv 0 s {}" using 0 by (simp add: prefix_inv_def)
  then show ?case using 0 by (auto simp: same_conf_def)
next
  case (Suc m)
  then obtain H where H: "prefix_inv m (fold mark_allocated [0..<m] s) H" "same_conf s (fold mark_allocated [0..<m] s)"
     "{p. ref (fold mark_allocated [0..<m] s) p \<noteq> 0} = {..<m}" by blast
  have "{p. ref (mark_allocated m (fold mark_allocated [0..<m] s)) p \<noteq> 0} = insert m {..<m}"
    unfolding H(3) [symmetric] by auto
  then show ?case using prefix_used [OF H(1)] same_conf_trans [OF H(2) mark_conf] by (auto simp: lessThan_Suc)
qed

section \<open>The boot bitmap and the hand-over\<close>

text \<open>During boot the first \<open>k\<close> frames above \<^verbatim>\<open>pmem_start\<close> are in use and all others are free.\<close>

definition boot_ok :: "pmem \<Rightarrow> nat \<Rightarrow> nat \<Rightarrow> bool" where
  "boot_ok s ps k \<longleftrightarrow> \<not> pagemap_initialized s \<and> pmem_start s = ps * PG \<and> pmem_end s = (ps + bitmap_end s) * PG \<and> 0 < ps
     \<and> bitmap_pages s \<le> k \<and> k \<le> bitmap_end s \<and> 0 < bitmap_pages s \<and> bitmap_contig_start s = k
     \<and> (\<forall>i. bitmap s i \<longleftrightarrow> i < k)"

lemma bitmap_set_range_ok:
  "(\<forall>j. i \<le> j \<longrightarrow> j < i + n \<longrightarrow> \<not> b j) \<Longrightarrow> bitmap_set_range i n b = Some (\<lambda>j. b j \<or> i \<le> j \<and> j < i + n)"
proof (induction n arbitrary: i b)
  case 0
  have "(\<lambda>j. b j \<or> i \<le> j \<and> j < i) = b" by (auto simp: fun_eq_iff)
  then show ?case by simp
next
  case (Suc n)
  have "(\<lambda>j. (b(i := True)) j \<or> Suc i \<le> j \<and> j < Suc i + n) = (\<lambda>j. b j \<or> i \<le> j \<and> j < i + Suc n)"
    by (auto simp: fun_eq_iff Suc_le_eq le_less)
  then show ?case using Suc.prems Suc.IH [of "Suc i" "b(i := True)"] by (simp del: fun_upd_apply) (simp add: fun_upd_def)
qed

lemma bitmap_unset_range_ok:
  "(\<forall>j. i \<le> j \<longrightarrow> j < i + n \<longrightarrow> b j) \<Longrightarrow> bitmap_unset_range i n b = Some (\<lambda>j. b j \<and> \<not> (i \<le> j \<and> j < i + n))"
proof (induction n arbitrary: i b)
  case 0
  have "(\<lambda>j. b j \<and> \<not> (i \<le> j \<and> j < i)) = b" by (auto simp: fun_eq_iff)
  then show ?case by simp
next
  case (Suc n)
  have "(\<lambda>j. (b(i := False)) j \<and> \<not> (Suc i \<le> j \<and> j < Suc i + n)) = (\<lambda>j. b j \<and> \<not> (i \<le> j \<and> j < i + Suc n))"
    by (auto simp: fun_eq_iff Suc_le_eq le_less)
  then show ?case using Suc.prems Suc.IH [of "Suc i" "b(i := False)"] by (simp del: fun_upd_apply) (simp add: fun_upd_def)
qed

text \<open>On a prefix of set bits the search skips the prefix and then counts free pages.\<close>

lemma find_in_free:
  "\<lbrakk>\<forall>i\<ge>k. \<not> b i; k \<le> i; f = i - k; f < n\<rbrakk> \<Longrightarrow>
   bitmap_find_loop b e n i k f = (if k + n \<le> e then Some k else None)"
proof (induction "e - i" arbitrary: i f)
  case 0
  then show ?case by (subst bitmap_find_loop.simps) auto
next
  case (Suc m)
  show ?case
  proof (cases "f + 1 \<ge> n")
    case True
    then show ?thesis using Suc by (subst bitmap_find_loop.simps) auto
  next
    case False
    then have "bitmap_find_loop b e n (i + 1) k (f + 1) = (if k + n \<le> e then Some k else None)"
      using Suc.prems Suc.hyps(2) by (intro Suc.hyps(1)) auto
    then show ?thesis using Suc.prems Suc.hyps(2) False by (subst bitmap_find_loop.simps) auto
  qed
qed

lemma find_prefix:
  "\<lbrakk>\<forall>i. b i \<longleftrightarrow> i < k; i \<le> k; k \<le> e; 0 < n\<rbrakk> \<Longrightarrow>
   bitmap_find_loop b e n i i 0 = (if k + n \<le> e then Some k else None)"
proof (induction "k - i" arbitrary: i)
  case 0
  then have "i = k" "\<forall>i\<ge>k. \<not> b i" by auto
  then show ?case using find_in_free [of k b k 0 n e] "0.prems"(4) by simp
next
  case (Suc m)
  then have "bitmap_find_loop b e n (i + 1) (i + 1) 0 = (if k + n \<le> e then Some k else None)"
    by (intro Suc.hyps(1)) auto
  moreover have "b i" "i < e" using Suc.prems Suc.hyps(2) by auto
  ultimately show ?case by (subst bitmap_find_loop.simps) simp
qed

lemma boot_nalloc:
  assumes ok: "boot_ok s ps k" and n: "0 < n"
  shows "if k + n \<le> bitmap_end s
     then \<exists>s'. pmem_nalloc_internal n s = Some (ERR_OK, page_to_paddr (ps + k), s') \<and> boot_ok s' ps (k + n)
       \<and> bitmap_pages s' = bitmap_pages s \<and> bitmap_end s' = bitmap_end s \<and> pmem_end s' = pmem_end s
     else pmem_nalloc_internal n s = Some (ERR_NOMEM, 0, s)"
proof -
  have f: "bitmap_find n s = Some (if k + n \<le> bitmap_end s then Some k else None)"
    using find_prefix [of "bitmap s" k 0 "bitmap_end s" n] ok n by (simp add: boot_ok_def bitmap_find_def)
  show ?thesis
  proof (cases "k + n \<le> bitmap_end s")
    case True
    define s' where "s' = s\<lparr>bitmap := (\<lambda>j. bitmap s j \<or> k \<le> j \<and> j < k + n), bitmap_contig_start := k + n\<rparr>"
    have "bitmap_set_range k n (bitmap s) = Some (\<lambda>j. bitmap s j \<or> k \<le> j \<and> j < k + n)"
      using ok by (intro bitmap_set_range_ok) (simp add: boot_ok_def)
    then have "bitmap_alloc k n s = Some s'"
      using True ok n by (simp add: bitmap_alloc_def boot_ok_def s'_def)
    then have "pmem_nalloc_internal n s = Some (ERR_OK, page_to_paddr (ps + k), s')"
      using f True ok n
      by (simp add: pmem_nalloc_internal_def boot_ok_def s'_def page_to_paddr_def add_mult_distrib)
    moreover have p: "bitmap_pages s' = bitmap_pages s" by (simp add: s'_def bitmap_pages_def)
    have b: "bitmap s i \<longleftrightarrow> i < k" for i using ok by (simp add: boot_ok_def)
    have "bitmap s' i \<longleftrightarrow> i < k + n" for i by (auto simp: s'_def b)
    then have "boot_ok s' ps (k + n)" using ok True p by (simp add: boot_ok_def) (simp add: s'_def)
    moreover have "bitmap_end s' = bitmap_end s" "pmem_end s' = pmem_end s" by (simp_all add: s'_def)
    ultimately show ?thesis using True p by simp
  next
    case False
    then show ?thesis using f ok n by (simp add: pmem_nalloc_internal_def boot_ok_def)
  qed
qed

lemma scan_down_free: "(\<forall>j<i. \<not> b j) \<Longrightarrow> bitmap_scan_down b i = 0"
  by (induction i) auto

lemma boot_bitmap_free:
  assumes ok: "boot_ok s ps k"
  defines "m \<equiv> bitmap_pages s"
  shows "\<exists>s' c. pmem_nfree_internal (pmem_start s) m s = Some s' \<and> pmem_start s' = pmem_start s \<and> pmem_end s' = pmem_end s
     \<and> pages s' = pages s \<and> pagemap_end s' = pagemap_end s \<and> bitmap_contig_start s' = c \<and> c \<le> k \<and> c \<le> bitmap_end s
     \<and> (\<forall>j. bitmap s' j \<longleftrightarrow> m \<le> j \<and> j < k) \<and> (c = k \<or> c = 0 \<and> m = k)"
proof -
  have f: "m \<le> k" "k \<le> bitmap_end s" "0 < m" "bitmap_contig_start s = k" "\<not> pagemap_initialized s"
    and b: "\<And>i. bitmap s i \<longleftrightarrow> i < k"
    using ok by (simp_all add: boot_ok_def m_def)
  define b' where "b' = (\<lambda>j. bitmap s j \<and> \<not> (0 \<le> j \<and> j < 0 + m))"
  have u: "bitmap_unset_range 0 m (bitmap s) = Some b'"
    unfolding b'_def by (rule bitmap_unset_range_ok) (use f b in auto)
  have b'': "b' j \<longleftrightarrow> m \<le> j \<and> j < k" for j by (auto simp: b'_def b)
  define s' where "s' = (if m = k then s\<lparr>bitmap := b', bitmap_contig_start := 0\<rparr> else s\<lparr>bitmap := b'\<rparr>)"
  have "pmem_nfree_internal (pmem_start s) m s = Some s'"
    using f u by (simp add: pmem_nfree_internal_def bitmap_free_def s'_def Let_def)
  moreover have "pmem_start s' = pmem_start s" "pmem_end s' = pmem_end s" "pages s' = pages s"
    "pagemap_end s' = pagemap_end s" "bitmap s' = b'" "bitmap_contig_start s' = (if m = k then 0 else k)"
    using f by (simp_all add: s'_def)
  ultimately show ?thesis using f b''
    by (intro exI [of _ s'] exI [of _ "if m = k then 0 else k"]) simp
qed

lemma freeblocks_init_ok:
  assumes ok: "boot_ok s ps k" and pe: "pagemap_end s = ps + bitmap_end s" and z: "\<forall>p. ref s p = 0"
  shows "\<exists>s' H. freeblocks_init s = Some s' \<and> buddy_inv (pagemap_end s') s' H {} \<and> pagemap_end s' = pagemap_end s
     \<and> {p. ref s' p \<noteq> 0} = {..<ps} \<union> {ps + bitmap_pages s..<ps + k} \<and> (\<forall>h\<in>H. ref s' h \<noteq> 0 \<longrightarrow> ord s' h = 0)"
proof -
  let ?m = "bitmap_pages s"
  have start: "pmem_start s = ps * PG" "pmem_end s = (ps + bitmap_end s) * PG" using ok by (simp_all add: boot_ok_def)
  obtain s1 c where s1: "pmem_nfree_internal (pmem_start s) ?m s = Some s1" "pmem_start s1 = pmem_start s"
      "pmem_end s1 = pmem_end s" "pages s1 = pages s" "pagemap_end s1 = pagemap_end s" "bitmap_contig_start s1 = c" "c \<le> k"
      "c \<le> bitmap_end s" "\<forall>j. bitmap s1 j \<longleftrightarrow> ?m \<le> j \<and> j < k" "c = k \<or> c = 0 \<and> ?m = k"
    using boot_bitmap_free [OF ok] by blast
  define s2 where "s2 = s1\<lparr>freeblocks := (\<lambda>_. [])\<rparr>"
  define s3 where "s3 = fold mark_allocated [0..<ps] s2"
  have "\<forall>p. ref s2 p = 0" "freeblocks s2 = (\<lambda>_. [])" using z s1(4) by (simp_all add: s2_def)
  then obtain H3 where s3: "prefix_inv (ps + 0) s3 H3" "same_conf s2 s3" "{p. ref s3 p \<noteq> 0} = {..<ps}"
    using mark_low [of s2 ps] by (auto simp: s3_def)
  have c3: "pmem_start s3 = ps * PG" "pmem_end s3 = (ps + bitmap_end s) * PG" "bitmap s3 = bitmap s1"
      "bitmap_contig_start s3 = c" "pagemap_end s3 = pagemap_end s"
    using s3(2) s1 start by (simp_all add: same_conf_def s2_def)
  obtain s4 H4 where s4: "freeblocks_init_loop (bitmap s1) c 0 s3 = Some s4" "prefix_inv (ps + c) s4 H4" "same_conf s3 s4"
      "{p. ref s4 p \<noteq> 0} = {..<ps} \<union> marked (bitmap s1) ps 0 c"
    using init_loop_ok [OF s3(1) le0 c3(1), of "bitmap s1" c] s3(3) by auto
  obtain s5 H5 where s5: "freeblocks_insert_range ((ps + c) * PG) ((ps + bitmap_end s) * PG) s4 = Some s5"
      "prefix_inv (ps + bitmap_end s) s5 H5" "same_conf s4 s5" "\<forall>p. ref s5 p = ref s4 p"
    using insert_range_ok [OF s4(2), of "ps + bitmap_end s"] s1(8) by auto
  have pp: "map paddr_to_page (map (\<lambda>i. i * PG) [0..<ps]) = [0..<ps]"
    by (simp add: paddr_to_page_def map_idI comp_def)
  have c4: "pmem_start s4 = ps * PG" "pmem_end s4 = (ps + bitmap_end s) * PG" "bitmap_contig_start s4 = c"
    using s4(3) c3 by (simp_all add: same_conf_def)
  have "c * PG + ps * PG = (ps + c) * PG" by simp
  then have "freeblocks_init s = Some s5"
    unfolding freeblocks_init_def s1(1)
    using s4(1) s5(1) c3 c4 pp start s1(2)
    by (simp del: map_map add: s2_def [symmetric] s3_def [symmetric] add.commute)
  moreover have b: "bitmap s1 i \<longleftrightarrow> ?m \<le> i \<and> i < k" for i using s1(9) by blast
  have "{i. 0 \<le> i \<and> i < c \<and> bitmap s1 i} = {?m..<k}" unfolding b using s1(10) by auto
  then have "marked (bitmap s1) ps 0 c = {ps + ?m..<ps + k}" by (simp add: marked_def add.commute)
  moreover have "pagemap_end s5 = ps + bitmap_end s" using s5(3) s4(3) c3 pe by (simp add: same_conf_def)
  ultimately show ?thesis using s5(2) s4(4) s5(4) pe unfolding prefix_inv_def by auto
qed

lemma interval_rest:
  fixes m k n e ps :: nat
  assumes "m \<le> k" "k + n \<le> e"
  shows "{..<ps + e} - ({..<ps} \<union> {ps + m..<ps + (k + n)}) = {ps..<ps + m} \<union> {ps + k + n..<ps + e}"
  using assms by auto

lemma pmem_init_ok:
  assumes ok: "boot_ok s ps k" and sz: "0 < sz"
  defines "n \<equiv> ((ps + bitmap_end s) * sz + (PG - 1)) div PG"
  assumes room: "k + n \<le> bitmap_end s"
  shows "\<exists>s' H. pmem_init sz s = Some s' \<and> pmem_ok s' H \<and> pagemap_end s' = ps + bitmap_end s
     \<and> free_frames s' = {ps..<ps + bitmap_pages s} \<union> {ps + k + n..<ps + bitmap_end s}"
proof -
  have b: "pmem_end s = (ps + bitmap_end s) * PG" "0 < ps" "bitmap_pages s \<le> k" "k \<le> bitmap_end s"
    using ok by (simp_all add: boot_ok_def)
  have "1 * 1 \<le> (ps + bitmap_end s) * sz" using b(2) sz by (intro mult_le_mono) simp_all
  then have "0 < n" unfolding n_def by (simp add: div_greater_zero_iff)
  then obtain s1 where s1: "pmem_nalloc_internal n s = Some (ERR_OK, page_to_paddr (ps + k), s1)" "boot_ok s1 ps (k + n)"
      "bitmap_pages s1 = bitmap_pages s" "bitmap_end s1 = bitmap_end s"
    using boot_nalloc [OF ok, of n] room by auto
  define s2 where "s2 = s1\<lparr>pages := (\<lambda>_. \<lparr>refcnt = 0, order = 0, dirty = False\<rparr>), pagemap_end := ps + bitmap_end s\<rparr>"
  have i: "pagemap_init sz s = Some s2" using s1(1) b(1) by (simp add: pagemap_init_def s2_def n_def)
  have p2: "bitmap_pages s2 = bitmap_pages s" "bitmap_end s2 = bitmap_end s" using s1 by (simp_all add: s2_def bitmap_pages_def)
  have ok2: "boot_ok s2 ps (k + n)" using s1(2,3) p2(1) by (simp add: boot_ok_def) (simp add: s2_def)
  have z: "\<forall>p. ref s2 p = 0" by (simp add: s2_def)
  obtain s3 H where s3: "freeblocks_init s2 = Some s3" "buddy_inv (pagemap_end s3) s3 H {}" "pagemap_end s3 = pagemap_end s2"
      "{p. ref s3 p \<noteq> 0} = {..<ps} \<union> {ps + bitmap_pages s2..<ps + (k + n)}" "\<forall>h\<in>H. ref s3 h \<noteq> 0 \<longrightarrow> ord s3 h = 0"
    using freeblocks_init_ok [OF ok2 _ z] p2(2) s2_def by fastforce
  define s4 where "s4 = s3\<lparr>pagemap_initialized := True\<rparr>"
  have e: "pagemap_end s3 = ps + bitmap_end s" using s3(3) by (simp add: s2_def)
  have inv: "buddy_inv (pagemap_end s4) s4 H {}" using s3(2) by (simp add: buddy_inv_def blk_def s4_def)
  have al: "allocated s4 H = {..<ps} \<union> {ps + bitmap_pages s..<ps + (k + n)}"
  proof -
    have "allocated s4 H = {p. p < pagemap_end s3 \<and> ref s3 p \<noteq> 0}" using allocated_eq [OF inv] by (simp add: s4_def)
    also have "\<dots> = {..<pagemap_end s3} \<inter> {p. ref s3 p \<noteq> 0}" by blast
    also have "\<dots> = {..<ps} \<union> {ps + bitmap_pages s..<ps + (k + n)}"
      unfolding s3(4) e p2 using room by auto
    finally show ?thesis .
  qed
  have pok: "pmem_ok s4 H" using inv al b(2) by (simp add: pmem_ok_def) (simp add: s4_def)
  have "blk s4 h = {h}" if "h \<in> allocated s4 H" for h
    using s3(5) that by (simp add: blk_def allocated_def) (auto simp: s4_def)
  then have "used_pages s4 H = allocated s4 H" by (simp add: used_pages_def)
  moreover have "pagemap_end s4 = ps + bitmap_end s" "pmem_init sz s = Some s4"
    using e i s3(1) by (simp_all add: s4_def pmem_init_def)
  ultimately have "free_frames s4 = {ps..<ps + bitmap_pages s} \<union> {ps + k + n..<ps + bitmap_end s}"
    using ok_free [OF pok] al interval_rest [OF b(3) room, of ps] by simp
  then show ?thesis using pok \<open>pmem_init sz s = Some s4\<close> \<open>pagemap_end s4 = _\<close> by blast
qed

lemma boot_init_ok:
  assumes ps: "0 < ps" and n: "8 \<le> n"
  shows "\<exists>s'. pmem_boot_init (ps * PG) ((ps + n) * PG) s = Some s' \<and> boot_ok s' ps (bitmap_pages s')
     \<and> bitmap_end s' = n \<and> bitmap_pages s' = (n div 8 + (PG - 1)) div PG"
proof -
  let ?m = "(n div 8 + (PG - 1)) div PG"
  define s0 where "s0 = s\<lparr>pmem_start := ps * PG, pmem_end := (ps + n) * PG, bitmap_contig_start := 0, bitmap_end := n,
     bitmap := (\<lambda>_. False)\<rparr>"
  define s' where "s' = s0\<lparr>bitmap := (\<lambda>j. False \<or> 0 \<le> j \<and> j < 0 + ?m), bitmap_contig_start := ?m,
     pagemap_initialized := False\<rparr>"
  have d: "1 \<le> n div 8" "n div 8 \<le> n" using n by simp_all
  have m: "0 < ?m" "?m < n"
  proof -
    show "0 < ?m" using d by (simp add: div_greater_zero_iff)
    have "n div 8 + (PG - 1) < n * PG" using d n by simp
    then show "?m < n" by (rule less_mult_imp_div_less)
  qed
  have bp: "bitmap_pages t = ?m" if "pmem_start t = ps * PG" "pmem_end t = (ps + n) * PG" for t
    using that by (simp add: bitmap_pages_def)
  have "bitmap_set_range 0 ?m (\<lambda>_. False) = Some (\<lambda>j. False \<or> 0 \<le> j \<and> j < 0 + ?m)"
    by (rule bitmap_set_range_ok) simp
  then have a: "bitmap_alloc 0 ?m s0 = Some (s0\<lparr>bitmap := (\<lambda>j. False \<or> 0 \<le> j \<and> j < 0 + ?m), bitmap_contig_start := ?m\<rparr>)"
    using m by (simp add: bitmap_alloc_def s0_def)
  have "pmem_boot_init (ps * PG) ((ps + n) * PG) s = Some s'"
    using a m n unfolding pmem_boot_init_def bitmap_init_def
    by (simp add: bp s'_def s0_def Let_def)
  moreover have "bitmap_pages s' = ?m" by (rule bp) (simp_all add: s'_def s0_def)
  moreover have "boot_ok s' ps ?m"
    using m ps \<open>bitmap_pages s' = ?m\<close> by (simp add: boot_ok_def) (simp add: s'_def s0_def)
  ultimately show ?thesis by (simp add: s'_def s0_def)
qed

section \<open>Properties of the physical memory allocator\<close>

text \<open>Sharing a frame: \<open>dec_times pa j\<close> drops \<open>j\<close> references.\<close>

fun dec_times :: "nat \<Rightarrow> nat \<Rightarrow> pmem \<Rightarrow> pmem option" where
  "dec_times pa 0 s = Some s"
| "dec_times pa (Suc j) s = do { s \<leftarrow> pmem_dec_refcnt pa s; dec_times pa j s }"

lemma shared_free:
  assumes "pmem_ok s H" "pmem_ok s' H'" "allocated s' H' = allocated s H" "pagemap_end s' = pagemap_end s"
    "\<forall>h\<in>allocated s H. ord s' h = ord s h"
  shows "free_frames s' = free_frames s"
proof -
  have "used_pages s' H' = used_pages s H" unfolding used_pages_def assms(3) using assms(5) by (simp add: blk_def)
  then show ?thesis using ok_free [OF assms(1)] ok_free [OF assms(2)] assms(4) by simp
qed

lemma dec_keeps:
  assumes ok: "pmem_ok s H" and f: "f \<noteq> 0" "f < pagemap_end s" "ord s f = 0" "1 < ref s f"
  shows "\<exists>s'. pmem_dec_refcnt (page_to_paddr f) s = Some s' \<and> frames_ok s' \<and> free_frames s' = free_frames s
     \<and> pagemap_end s' = pagemap_end s \<and> ord s' f = 0 \<and> ref s' f = ref s f - 1"
proof -
  have inv: "buddy_inv (pagemap_end s) s H {}" using ok by (simp add: pmem_ok_def)
  have a: "f \<in> allocated s H" using allocated_eq [OF inv] f by auto
  let ?s = "set_refcnt f (ref s f - 1) s"
  obtain s' H' where s': "pmem_dec_refcnt (page_to_paddr f) s = Some s'" "pmem_ok s' H'" "allocated s' H' = allocated s H"
    using dec_refcnt_ok [OF ok a f(3,1)] f(4) by auto
  have e: "s' = ?s" using s'(1) f by (simp add: pmem_dec_refcnt_def Let_def)
  have "free_frames s' = free_frames s" by (rule shared_free [OF ok s'(2,3)]) (simp_all add: e)
  then show ?thesis using s' f unfolding frames_ok_def e by auto
qed

lemma dec_times_keeps:
  "\<lbrakk>frames_ok s; f \<noteq> 0; f < pagemap_end s; ord s f = 0; int j < ref s f\<rbrakk> \<Longrightarrow>
   \<exists>s'. dec_times (page_to_paddr f) j s = Some s' \<and> frames_ok s' \<and> free_frames s' = free_frames s
     \<and> pagemap_end s' = pagemap_end s \<and> ord s' f = 0 \<and> ref s' f = ref s f - int j"
proof (induction j arbitrary: s)
  case (Suc j)
  obtain H where "pmem_ok s H" using Suc.prems(1) by (auto simp: frames_ok_def)
  then obtain t where t: "pmem_dec_refcnt (page_to_paddr f) s = Some t" "frames_ok t" "free_frames t = free_frames s"
     "pagemap_end t = pagemap_end s" "ord t f = 0" "ref t f = ref s f - 1"
    using dec_keeps [of s H f] Suc.prems by auto
  then show ?case using Suc.IH [OF t(2)] Suc.prems by fastforce
qed simp

lemma dec_last:
  assumes "frames_ok s" "owned s f"
  shows "\<exists>s'. pmem_dec_refcnt (page_to_paddr f) s = Some s' \<and> frames_ok s' \<and> free_frames s' = insert f (free_frames s)
     \<and> (\<forall>g. g \<noteq> f \<longrightarrow> owned s g \<longrightarrow> owned s' g)"
proof -
  have "pmem_dec_refcnt (page_to_paddr f) s = pmem_free (page_to_paddr f) s"
    using assms by (auto simp: pmem_dec_refcnt_def owned_def pmem_free_def pmem_nfree_def pmem_nfree_internal_def Let_def
      frames_ok_def pmem_ok_def set_refcnt_def)
  then show ?thesis using fr.release_law [OF assms] by auto
qed

lemma inc_shares:
  assumes "frames_ok s" "owned s f"
  shows "\<exists>s'. pmem_inc_refcnt (page_to_paddr f) (int k) s = Some s' \<and> frames_ok s' \<and> free_frames s' = free_frames s
     \<and> pagemap_end s' = pagemap_end s \<and> ord s' f = 0 \<and> ref s' f = 1 + int k"
proof -
  obtain H where H: "pmem_ok s H" using assms(1) by (auto simp: frames_ok_def)
  have f: "f \<in> allocated s H" "ord s f = 0" "ref s f = 1" using owned_allocated [OF H assms(2)] assms(2) by (auto simp: owned_def)
  obtain s' where s': "pmem_inc_refcnt (page_to_paddr f) (int k) s = Some s'" "pmem_ok s' H" "allocated s' H = allocated s H"
    using inc_refcnt_ok [OF H f(1,2), of "int k"] by auto
  have e: "s' = set_refcnt f (1 + int k) s" using s'(1) f by (simp add: pmem_inc_refcnt_def Let_def)
  have "free_frames s' = free_frames s" by (rule shared_free [OF H s'(2,3)]) (simp_all add: e)
  then show ?thesis using s' f unfolding frames_ok_def e by auto
qed

text \<open>A small memory of four pages, for evaluating the properties: pages 0 and 1 in use, a free block of two.\<close>

definition small_pmem :: pmem where
  "small_pmem = \<lparr>pages = (\<lambda>p. \<lparr>refcnt = (if p < 2 then 1 else 0), order = (if p = 2 then 1 else 0), dirty = False\<rparr>),
     pagemap_end = 4, freeblocks = (\<lambda>i. if i = 1 then [2] else []), bitmap = (\<lambda>_. False), bitmap_contig_start = 0,
     bitmap_end = 4, pagemap_initialized = True, pmem_start = 0, pmem_end = 16384\<rparr>"

lemma small_pmem_ok: "frames_ok small_pmem" "free_frames small_pmem = {2, 3}" "owned small_pmem 1"
proof -
  have "buddy_inv 4 small_pmem {0, 1, 2} {}"
    by (rule invI) (auto simp: small_pmem_def blk_def)
  then have "pmem_ok small_pmem {0, 1, 2}" by (simp add: pmem_ok_def allocated_def) (simp add: small_pmem_def)
  then show "frames_ok small_pmem" by (auto simp: frames_ok_def)
  show "free_frames small_pmem = {2, 3}" by (auto simp: free_frames_def small_pmem_def split: if_splits)
  show "owned small_pmem 1" by (simp add: owned_def small_pmem_def)
qed

text \<open>C8: A consistent allocator with at least \<open>n\<close> free frames serves \<open>n\<close> calls of \<^verbatim>\<open>pmem_alloc\<close> with \<open>n\<close> different free
  frames, and giving these frames back with \<^verbatim>\<open>pmem_free\<close>, in any order, succeeds and restores the set of free
  frames.\<close>

theorem pmem_frames_round_trip:
  assumes "frames_ok s" "n \<le> card (free_frames s)"
  shows "\<exists>fs s'. alloc_all pmem_alloc n s = Some (map page_to_paddr fs, s') \<and> length fs = n \<and> distinct fs
     \<and> set fs \<subseteq> free_frames s \<and> free_frames s' = free_frames s - set fs
     \<and> (\<forall>gs. distinct gs \<and> set gs = set fs \<longrightarrow>
          (\<exists>s''. release_all pmem_free (map page_to_paddr gs) s' = Some s'' \<and> frames_ok s'' \<and> free_frames s'' = free_frames s))"
  by (rule fr.round_trip [OF assms])

theorem pmem_frames_round_trip_witness:
  "\<exists>fs s'. alloc_all pmem_alloc 2 small_pmem = Some (map page_to_paddr fs, s') \<and> length fs = 2 \<and> distinct fs
     \<and> set fs \<subseteq> {2, 3} \<and> free_frames s' = {2, 3} - set fs
     \<and> (\<forall>gs. distinct gs \<and> set gs = set fs \<longrightarrow>
          (\<exists>s''. release_all pmem_free (map page_to_paddr gs) s' = Some s'' \<and> frames_ok s'' \<and> free_frames s'' = {2, 3}))"
  using pmem_frames_round_trip [of small_pmem 2] by (simp add: small_pmem_ok)

lemma nalloc_free:
  assumes "pmem_ok s H" "handed_out s H p s' H'" "p \<noteq> 0" "0 < n"
  shows "\<exists>s''. pmem_nfree (page_to_paddr p) n s' = Some s'' \<and> frames_ok s'' \<and> free_frames s'' = free_frames s"
proof -
  have ho: "pmem_ok s' H'" "p \<in> allocated s' H'" using assms(2) by (simp_all add: handed_out_def)
  obtain s'' H'' where s'': "pmem_nfree (page_to_paddr p) n s' = Some s''" "given_back s' H' p s'' H''"
    using nfree_ok [OF ho assms(3,4)] by blast
  moreover have "free_frames s'' = free_frames s"
    using given_back_free [OF ho(1) s''(2) ho(2)] handed_out_free [OF assms(1,2)] by blast
  ultimately show ?thesis by (auto simp: frames_ok_def given_back_def)
qed

text \<open>C22: \<^verbatim>\<open>pmem_nalloc\<close> never panics for 1 to 1024 pages. When it succeeds, the block is a run of free frames of at least the
  requested length, exactly this run stops being free, no page in use is touched, and \<^verbatim>\<open>pmem_nfree\<close> of the block
  restores the free frames. When it fails, the state is unchanged and every free list of large enough blocks is empty.\<close>

theorem pmem_nalloc_block:
  assumes "frames_ok s" "0 < n" "n \<le> 1024"
  shows "\<exists>er pa s'. pmem_nalloc n s = Some (er, pa, s') \<and>
     (er = ERR_OK \<and> frames_ok s' \<and> (\<exists>p q. pa = page_to_paddr p \<and> n \<le> 2 ^ q \<and> {p..<p + 2 ^ q} \<subseteq> free_frames s
         \<and> free_frames s' = free_frames s - {p..<p + 2 ^ q})
       \<and> (\<forall>g<pagemap_end s. ref s g \<noteq> 0 \<longrightarrow> pages s' g = pages s g)
       \<and> (\<exists>s''. pmem_nfree pa n s' = Some s'' \<and> frames_ok s'' \<and> free_frames s'' = free_frames s)
      \<or> er = ERR_NOMEM \<and> s' = s \<and> (\<forall>i\<le>10. n \<le> 2 ^ i \<longrightarrow> freeblocks s i = []))"
proof -
  obtain H where H: "pmem_ok s H" using assms(1) by (auto simp: frames_ok_def)
  then have inv: "buddy_inv (pagemap_end s) s H {}" and z: "0 \<in> allocated s H" by (simp_all add: pmem_ok_def)
  have n: "n \<le> 2 ^ 10" using assms(3) by simp
  obtain er pa s' where r: "pmem_nalloc n s = Some (er, pa, s')"
      "er = ERR_OK \<and> (\<exists>H' p. pa = page_to_paddr p \<and> handed_out s H p s' H'
         \<and> get_min_page_order n = Some (ord s' p) \<and> n \<le> 2 ^ ord s' p)
      \<or> er = ERR_NOMEM \<and> s' = s \<and> (\<forall>h\<in>H. ref s h = 0 \<longrightarrow> 2 ^ ord s h < n)"
    using nalloc_ok [OF H assms(2) n] by blast
  from r(2) show ?thesis
  proof
    assume "er = ERR_OK \<and> (\<exists>H' p. pa = page_to_paddr p \<and> handed_out s H p s' H'
         \<and> get_min_page_order n = Some (ord s' p) \<and> n \<le> 2 ^ ord s' p)"
    then obtain H' p where p: "er = ERR_OK" "pa = page_to_paddr p" "handed_out s H p s' H'" "n \<le> 2 ^ ord s' p" by blast
    have "p \<noteq> 0" using p(3) z unfolding handed_out_def by metis
    then have "\<exists>s''. pmem_nfree pa n s' = Some s'' \<and> frames_ok s'' \<and> free_frames s'' = free_frames s"
      using nalloc_free [OF H p(3) _ assms(2)] p(2) by simp
    moreover have "\<forall>g<pagemap_end s. ref s g \<noteq> 0 \<longrightarrow> pages s' g = pages s g"
      using p(3) allocated_eq [OF inv] by (simp add: handed_out_def)
    moreover have "frames_ok s'" using p(3) by (auto simp: handed_out_def frames_ok_def)
    ultimately show ?thesis using r(1) p handed_out_free [OF H p(3)] unfolding blk_def by blast
  next
    assume f: "er = ERR_NOMEM \<and> s' = s \<and> (\<forall>h\<in>H. ref s h = 0 \<longrightarrow> 2 ^ ord s h < n)"
    have "freeblocks s i = []" if "n \<le> 2 ^ i" for i
    proof -
      have "set (freeblocks s i) = {}" unfolding invD(8) [OF inv] using f that by fastforce
      then show ?thesis by simp
    qed
    then show ?thesis using r(1) f by blast
  qed
qed

theorem pmem_nalloc_block_witness:
  "\<exists>er pa s'. pmem_nalloc 2 small_pmem = Some (er, pa, s') \<and>
     (er = ERR_OK \<and> frames_ok s' \<and> (\<exists>p q. pa = page_to_paddr p \<and> 2 \<le> (2::nat) ^ q \<and> {p..<p + 2 ^ q} \<subseteq> {2, 3}
         \<and> free_frames s' = {2, 3} - {p..<p + 2 ^ q})
       \<and> (\<forall>g<pagemap_end small_pmem. ref small_pmem g \<noteq> 0 \<longrightarrow> pages s' g = pages small_pmem g)
       \<and> (\<exists>s''. pmem_nfree pa 2 s' = Some s'' \<and> frames_ok s'' \<and> free_frames s'' = {2, 3})
      \<or> er = ERR_NOMEM \<and> s' = small_pmem \<and> (\<forall>i\<le>10. 2 \<le> (2::nat) ^ i \<longrightarrow> freeblocks small_pmem i = []))"
  using pmem_nalloc_block [OF small_pmem_ok(1), of 2] unfolding small_pmem_ok(2) by simp

text \<open>Sharing a frame: after \<^verbatim>\<open>pmem_inc_refcnt\<close> has added \<open>k\<close> references to a frame in use, the first \<open>k\<close> calls of
  \<^verbatim>\<open>pmem_dec_refcnt\<close> keep it allocated and count down, and exactly the next call makes it free again.\<close>

theorem refcnt_frees_last:
  assumes "frames_ok s" "owned s f"
  shows "\<exists>s1. pmem_inc_refcnt (page_to_paddr f) (int k) s = Some s1 \<and> pmem_get_refcnt (page_to_paddr f) s1 = int k + 1
     \<and> (\<forall>j\<le>k. \<exists>s2. dec_times (page_to_paddr f) j s1 = Some s2 \<and> pmem_get_refcnt (page_to_paddr f) s2 = int (k - j) + 1
          \<and> free_frames s2 = free_frames s)
     \<and> (\<exists>s3. (do { s2 \<leftarrow> dec_times (page_to_paddr f) k s1; pmem_dec_refcnt (page_to_paddr f) s2 }) = Some s3
          \<and> frames_ok s3 \<and> free_frames s3 = insert f (free_frames s))"
proof -
  have f: "f \<noteq> 0" "f < pagemap_end s" using assms(2) by (simp_all add: owned_def)
  obtain s1 where s1: "pmem_inc_refcnt (page_to_paddr f) (int k) s = Some s1" "frames_ok s1" "free_frames s1 = free_frames s"
      "pagemap_end s1 = pagemap_end s" "ord s1 f = 0" "ref s1 f = 1 + int k"
    using inc_shares [OF assms] by blast
  have d: "\<exists>s2. dec_times (page_to_paddr f) j s1 = Some s2 \<and> frames_ok s2 \<and> free_frames s2 = free_frames s
      \<and> pagemap_end s2 = pagemap_end s \<and> ord s2 f = 0 \<and> ref s2 f = int (k - j) + 1" if "j \<le> k" for j
    using dec_times_keeps [OF s1(2) f(1) _ s1(5), of j] f(2) s1 that by (auto simp: of_nat_diff)
  obtain s2 where s2: "dec_times (page_to_paddr f) k s1 = Some s2" "frames_ok s2" "free_frames s2 = free_frames s"
      "pagemap_end s2 = pagemap_end s" "ord s2 f = 0" "ref s2 f = int (k - k) + 1" using d [of k] by blast
  then have "owned s2 f" using f by (simp add: owned_def)
  then have l: "\<exists>s3. (do { s2 \<leftarrow> dec_times (page_to_paddr f) k s1; pmem_dec_refcnt (page_to_paddr f) s2 }) = Some s3
      \<and> frames_ok s3 \<and> free_frames s3 = insert f (free_frames s)"
    using dec_last [OF s2(2), of f] s2(1,3) by auto
  have "pmem_get_refcnt (page_to_paddr f) s1 = int k + 1" using s1(6) by (simp add: pmem_get_refcnt_def)
  moreover have "\<forall>j\<le>k. \<exists>s2. dec_times (page_to_paddr f) j s1 = Some s2
      \<and> pmem_get_refcnt (page_to_paddr f) s2 = int (k - j) + 1 \<and> free_frames s2 = free_frames s"
    unfolding pmem_get_refcnt_def page_paddr using d by blast
  ultimately show ?thesis using s1(1) l by blast
qed

theorem refcnt_frees_last_witness:
  "\<exists>s1. pmem_inc_refcnt (page_to_paddr 1) (int 2) small_pmem = Some s1 \<and> pmem_get_refcnt (page_to_paddr 1) s1 = int 2 + 1
     \<and> (\<forall>j\<le>2. \<exists>s2. dec_times (page_to_paddr 1) j s1 = Some s2 \<and> pmem_get_refcnt (page_to_paddr 1) s2 = int (2 - j) + 1
          \<and> free_frames s2 = {2, 3})
     \<and> (\<exists>s3. (do { s2 \<leftarrow> dec_times (page_to_paddr 1) 2 s1; pmem_dec_refcnt (page_to_paddr 1) s2 }) = Some s3
          \<and> frames_ok s3 \<and> free_frames s3 = insert 1 {2, 3})"
  using refcnt_frees_last [OF small_pmem_ok(1,3), of 2] unfolding small_pmem_ok(2) .

lemma boot_alloc_all:
  "boot_ok s ps k \<Longrightarrow> k + j \<le> bitmap_end s \<Longrightarrow>
   \<exists>s'. alloc_all pmem_alloc j s = Some (map page_to_paddr [ps + k..<ps + k + j], s') \<and> boot_ok s' ps (k + j)
     \<and> bitmap_pages s' = bitmap_pages s \<and> bitmap_end s' = bitmap_end s"
proof (induction j arbitrary: s k)
  case (Suc j)
  obtain t where t: "pmem_alloc s = Some (ERR_OK, page_to_paddr (ps + k), t)" "boot_ok t ps (k + 1)"
      "bitmap_pages t = bitmap_pages s" "bitmap_end t = bitmap_end s"
    using boot_nalloc [OF Suc.prems(1), of 1] Suc.prems(2) by (auto simp: pmem_alloc_def pmem_nalloc_def)
  then obtain s' where s': "alloc_all pmem_alloc j t = Some (map page_to_paddr [ps + (k + 1)..<ps + (k + 1) + j], s')"
     "boot_ok s' ps (k + 1 + j)" "bitmap_pages s' = bitmap_pages t" "bitmap_end s' = bitmap_end t"
    using Suc.IH [OF t(2)] Suc.prems(2) by auto
  have "[ps + k..<ps + k + Suc j] = (ps + k) # [ps + (k + 1)..<ps + (k + 1) + j]"
    by (subst upt_rec) simp
  then show ?case using t s' by (simp del: upt_Suc)
qed simp

text \<open>C23: Boot to normal operation: with at least eight pages of memory after the kernel image, \<^verbatim>\<open>pmem_boot_init\<close> succeeds, the
  frames handed out before \<^verbatim>\<open>pmem_init\<close> are the consecutive ones after the bitmap, and \<^verbatim>\<open>pmem_init\<close> builds a consistent
  allocator whose free frames are exactly the bitmap's own pages and everything after the page map.\<close>

theorem pmem_boot_handover:
  assumes "0 < ps" "8 \<le> n" "0 < sizeof_page"
  defines "b \<equiv> (n div 8 + (PG - 1)) div PG" and "m \<equiv> ((ps + n) * sizeof_page + (PG - 1)) div PG"
  assumes "b + j + m \<le> n"
  shows "\<exists>s1 s2 s3. pmem_boot_init (ps * PG) ((ps + n) * PG) s = Some s1
     \<and> alloc_all pmem_alloc j s1 = Some (map page_to_paddr [ps + b..<ps + b + j], s2)
     \<and> pmem_init sizeof_page s2 = Some s3 \<and> frames_ok s3 \<and> pagemap_end s3 = ps + n
     \<and> free_frames s3 = {ps..<ps + b} \<union> {ps + b + j + m..<ps + n}"
proof -
  obtain s1 where s1: "pmem_boot_init (ps * PG) ((ps + n) * PG) s = Some s1" "boot_ok s1 ps (bitmap_pages s1)"
     "bitmap_end s1 = n" "bitmap_pages s1 = b"
    using boot_init_ok [OF assms(1,2)] unfolding b_def by blast
  obtain s2 where s2: "alloc_all pmem_alloc j s1 = Some (map page_to_paddr [ps + b..<ps + b + j], s2)" "boot_ok s2 ps (b + j)"
     "bitmap_pages s2 = b" "bitmap_end s2 = n"
    using boot_alloc_all [of s1 ps b j] s1 assms(6) by auto
  have "b + j + ((ps + bitmap_end s2) * sizeof_page + (PG - 1)) div PG \<le> bitmap_end s2"
    using assms(6) s2(4) by (simp add: m_def)
  then show ?thesis
    using pmem_init_ok [OF s2(2) assms(3)] s1(1) s2
    unfolding frames_ok_def m_def [symmetric] s2(3,4) by (auto simp: add.assoc)
qed

theorem pmem_boot_handover_witness:
  "\<exists>s1 s2 s3. pmem_boot_init (256 * PG) ((256 + 64) * PG) small_pmem = Some s1
     \<and> alloc_all pmem_alloc 2 s1 = Some (map page_to_paddr [257..<259], s2)
     \<and> pmem_init 64 s2 = Some s3 \<and> frames_ok s3 \<and> pagemap_end s3 = 320
     \<and> free_frames s3 = {256..<257} \<union> {264..<320}"
  using pmem_boot_handover [of 256 64 64 2 small_pmem] by (simp del: alloc_all.simps upt_rec_numeral)

lemma find_loop_step:
  "i < e \<Longrightarrow> b i \<Longrightarrow> bitmap_find_loop b e n i first f = bitmap_find_loop b e n (Suc i) (Suc first) 0"
  "i < e \<Longrightarrow> \<not> b i \<Longrightarrow> n \<le> Suc f \<Longrightarrow> bitmap_find_loop b e n i first f = Some first"
  "i < e \<Longrightarrow> \<not> b i \<Longrightarrow> \<not> n \<le> Suc f \<Longrightarrow> bitmap_find_loop b e n i first f = bitmap_find_loop b e n (Suc i) first (Suc f)"
  by (simp_all add: bitmap_find_loop.simps [of b e n i])

text \<open>\<^verbatim>\<open>bitmap_find\<close> counts the pages in use instead of remembering where the current run of free pages starts. With a free
  page before a page in use, it answers a run that contains the page in use, and allocating the run fails an
  assertion.\<close>

theorem bitmap_find_wrong_after_hole:
  assumes "4 \<le> bitmap_end s" "\<not> bitmap s 0" "bitmap s 1" "\<not> bitmap s 2" "\<not> bitmap s 3"
  shows "bitmap_find 2 s = Some (Some 1) \<and> bitmap_alloc 1 2 s = None \<and>
    (\<not> pagemap_initialized s \<longrightarrow> pmem_nalloc 2 s = None)"
proof -
  have "bitmap_find_loop (bitmap s) (bitmap_end s) 2 0 0 0 = Some 1"
    using assms by (simp add: find_loop_step numeral_2_eq_2 numeral_3_eq_3)
  then have "bitmap_find 2 s = Some (Some 1)" by (simp add: bitmap_find_def)
  moreover have "bitmap_alloc 1 2 s = None"
    using assms by (simp add: bitmap_alloc_def numeral_2_eq_2 Let_def)
  ultimately show ?thesis by (simp add: pmem_nalloc_def pmem_nalloc_internal_def)
qed

theorem bitmap_find_wrong_after_hole_witness:
  "bitmap_find 2 (small_pmem\<lparr>bitmap := (\<lambda>i. i = 1)\<rparr>) = Some (Some 1) \<and> bitmap_alloc 1 2 (small_pmem\<lparr>bitmap := (\<lambda>i. i = 1)\<rparr>) = None"
  using bitmap_find_wrong_after_hole [of "small_pmem\<lparr>bitmap := (\<lambda>i. i = 1)\<rparr>"] by (simp add: small_pmem_def)

end
