(* ===== verification/Cstring.thy ===== *)
theory Cstring
  imports Prelude
begin

text \<open>
  The memory and string functions of \<^verbatim>\<open>lib/string.c\<close> and the bit helpers of \<^verbatim>\<open>lib/bits.c\<close>.

  Memory is a function from addresses to bytes. Addresses are natural numbers: a pointer of the
  source stays inside one object, so it does not wrap. \<^verbatim>\<open>char\<close> is a signed byte on this target. A loop that
  ends only at a terminating zero byte is a \<open>partial_function\<close>; running on forever is \<open>None\<close>.
\<close>

type_synonym mem = "nat \<Rightarrow> u8"

section \<open>Blocks of memory\<close>

function memset_loop :: "u8 \<Rightarrow> nat \<Rightarrow> nat \<Rightarrow> mem \<Rightarrow> mem" where
  "memset_loop c p e m = (if p < e then memset_loop c (p + 1) e (m(p := c)) else m)"
  by pat_completeness auto
termination
  by (relation "measure (\<lambda>(c, p, e, m). e - p)") auto

declare memset_loop.simps [simp del]

definition memset :: "nat \<Rightarrow> int \<Rightarrow> nat \<Rightarrow> mem \<Rightarrow> mem" where
  "memset s c n m = memset_loop (word_of_int c) s (s + n) m"

fun copy_up :: "nat \<Rightarrow> nat \<Rightarrow> nat \<Rightarrow> mem \<Rightarrow> mem" where
  "copy_up d s 0 m = m"
| "copy_up d s (Suc n) m = copy_up (d + 1) (s + 1) n (m(d := m s))"

fun copy_down :: "nat \<Rightarrow> nat \<Rightarrow> nat \<Rightarrow> mem \<Rightarrow> mem" where
  "copy_down d s 0 m = m"
| "copy_down d s (Suc n) m = copy_down (d - 1) (s - 1) n (m(d - 1 := m (s - 1)))"

definition memcpy :: "nat \<Rightarrow> nat \<Rightarrow> nat \<Rightarrow> mem \<Rightarrow> mem" where
  "memcpy dest src n m = copy_up dest src n m"

definition memmove :: "nat \<Rightarrow> nat \<Rightarrow> nat \<Rightarrow> mem \<Rightarrow> mem" where
  "memmove dest src n m =
     (if src < dest \<and> src + n > dest then copy_down (dest + n) (src + n) n m else copy_up dest src n m)"

fun memcmp :: "mem \<Rightarrow> nat \<Rightarrow> nat \<Rightarrow> nat \<Rightarrow> int" where
  "memcmp m s1 s2 0 = 0"
| "memcmp m s1 s2 (Suc n) = (if m s1 \<noteq> m s2 then uint (m s1) - uint (m s2) else memcmp m (s1 + 1) (s2 + 1) n)"

section \<open>Strings\<close>

partial_function (option) strlen_loop :: "mem \<Rightarrow> nat \<Rightarrow> nat \<Rightarrow> nat option" where
  "strlen_loop m s len = (if m s \<noteq> 0 then strlen_loop m (s + 1) (len + 1) else Some len)"

definition strlen :: "mem \<Rightarrow> nat \<Rightarrow> nat option" where
  "strlen m s = strlen_loop m s 0"

partial_function (option) strcpy_loop :: "nat \<Rightarrow> nat \<Rightarrow> mem \<Rightarrow> mem option" where
  "strcpy_loop d src m =
     (let m' = m(d := m src) in if m src \<noteq> 0 then strcpy_loop (d + 1) (src + 1) m' else Some m')"

definition strcpy :: "nat \<Rightarrow> nat \<Rightarrow> mem \<Rightarrow> mem option" where
  "strcpy dest src m = strcpy_loop dest src m"

text \<open>The first loop of \<^verbatim>\<open>strncpy\<close> returns the position and the count it stops with.\<close>

fun strncpy_copy :: "nat \<Rightarrow> nat \<Rightarrow> nat \<Rightarrow> mem \<Rightarrow> nat \<times> nat \<times> mem" where
  "strncpy_copy d src 0 m = (d, 0, m)"
| "strncpy_copy d src (Suc n) m =
     (let m' = m(d := m src) in if m src \<noteq> 0 then strncpy_copy (d + 1) (src + 1) n m' else (d + 1, Suc n, m'))"

fun strncpy_pad :: "nat \<Rightarrow> nat \<Rightarrow> mem \<Rightarrow> mem" where
  "strncpy_pad d 0 m = m"
| "strncpy_pad d (Suc n) m = strncpy_pad (d + 1) n (m(d := 0))"

definition strncpy :: "nat \<Rightarrow> nat \<Rightarrow> nat \<Rightarrow> mem \<Rightarrow> mem" where
  "strncpy dest src n m = (case strncpy_copy dest src n m of (d, n, m) \<Rightarrow> strncpy_pad d n m)"

partial_function (option) strcmp :: "mem \<Rightarrow> nat \<Rightarrow> nat \<Rightarrow> int option" where
  "strcmp m s1 s2 =
     (if m s1 \<noteq> 0 \<and> m s1 = m s2 then strcmp m (s1 + 1) (s2 + 1) else Some (sint (m s1) - sint (m s2)))"

fun strncmp :: "mem \<Rightarrow> nat \<Rightarrow> nat \<Rightarrow> nat \<Rightarrow> int" where
  "strncmp m s1 s2 0 = 0"
| "strncmp m s1 s2 (Suc n) =
     (if m s1 \<noteq> 0 \<and> m s1 = m s2 then strncmp m (s1 + 1) (s2 + 1) n else sint (m s1) - sint (m s2))"

text \<open>A pointer that may be null is an \<open>option\<close>; so the outer \<open>None\<close> below is a search that does not end.\<close>

partial_function (option) strchr_loop :: "mem \<Rightarrow> u8 \<Rightarrow> nat \<Rightarrow> nat option option" where
  "strchr_loop m c s = (if m s = c then Some (Some s) else if m s = 0 then Some None else strchr_loop m c (s + 1))"

definition strchr :: "mem \<Rightarrow> nat option \<Rightarrow> int \<Rightarrow> nat option option" where
  "strchr m s c = (case s of None \<Rightarrow> Some None | Some s \<Rightarrow> strchr_loop m (word_of_int c) s)"

text \<open>The two loops of \<^verbatim>\<open>strtok_r\<close>. The first one ends at the terminating zero byte with the inner \<open>None\<close>.\<close>

partial_function (option) skip_delims :: "mem \<Rightarrow> nat \<Rightarrow> nat \<Rightarrow> (nat + nat) option" where
  "skip_delims m delims s = do {
     r \<leftarrow> strchr m (Some delims) (sint (m s));
     (if r \<noteq> None then (if m s = 0 then Some (Inl s) else skip_delims m delims (s + 1))
      else Some (Inr s))
   }"

partial_function (option) skip_token :: "mem \<Rightarrow> nat \<Rightarrow> nat \<Rightarrow> nat option" where
  "skip_token m delims s = do {
     r \<leftarrow> strchr m (Some delims) (sint (m s));
     (if r = None then skip_token m delims (s + 1) else Some s)
   }"

text \<open>\<open>save\<close> is \<open>None\<close> when \<^verbatim>\<open>save_ptr\<close> is null; the result is the token, the new \<^verbatim>\<open>*save_ptr\<close> and the memory.\<close>

definition strtok_r :: "nat option \<Rightarrow> nat option \<Rightarrow> nat option \<Rightarrow> mem \<Rightarrow> (nat option \<times> nat option \<times> mem) option" where
  "strtok_r s delimiters save m =
     (case (delimiters, save) of
        (Some delims, Some sv) \<Rightarrow> do {
          let p = (case s of None \<Rightarrow> sv | Some p \<Rightarrow> p);
          r \<leftarrow> skip_delims m delims p;
          (case r of
             Inl e \<Rightarrow> Some (None, Some e, m)
           | Inr token \<Rightarrow> do {
               e \<leftarrow> skip_token m delims token;
               (if m e \<noteq> 0 then Some (Some token, Some (e + 1), m(e := 0))
                else Some (Some token, Some e, m))
             })
        }
      | _ \<Rightarrow> Some (None, save, m))"

text \<open>The loop of \<^verbatim>\<open>sys_spawn\<close> (\<^verbatim>\<open>kernel/syscall.c\<close>) that fills \<^verbatim>\<open>argv\<close> with the tokens of the argument string.\<close>

partial_function (option) spawn_parse :: "nat \<Rightarrow> nat \<Rightarrow> mem \<Rightarrow> (nat list \<times> mem) option" where
  "spawn_parse delims buf m = do {
     (t, sv, m) \<leftarrow> strtok_r None (Some delims) (Some buf) m;
     (case t of
        None \<Rightarrow> Some ([], m)
      | Some token \<Rightarrow> do {
          buf \<leftarrow> sv;
          (rest, m) \<leftarrow> spawn_parse delims buf m;
          Some (token # rest, m)
        })
   }"

section \<open>State bits\<close>

type_synonym state_t = u32

definition get_state_bit :: "state_t \<Rightarrow> nat \<Rightarrow> bool" where
  "get_state_bit state b \<longleftrightarrow> \<not> state AND push_bit b 1 = 0"

definition set_state_bit :: "state_t \<Rightarrow> nat \<Rightarrow> bool \<Rightarrow> state_t" where
  "set_state_bit state b v = (if v then state OR push_bit b 1 else state AND NOT (push_bit b 1))"

lemma get_set_state_bit:
  "b < 32 \<Longrightarrow> b' < 32 \<Longrightarrow> get_state_bit (set_state_bit st b v) b' = (if b' = b then v else get_state_bit st b')"
proof -
  assume "b < 32" "b' < 32"
  have *: "get_state_bit w k \<longleftrightarrow> bit w k" for w k
    unfolding get_state_bit_def bit_iff_and_push_bit_not_eq_0 by simp
  show ?thesis using \<open>b < 32\<close> \<open>b' < 32\<close>
    unfolding * by (auto simp: set_state_bit_def bit_simps)
qed

section \<open>Copying\<close>

definition copied :: "nat \<Rightarrow> nat \<Rightarrow> nat \<Rightarrow> mem \<Rightarrow> mem" where
  "copied d s n m = (\<lambda>a. if d \<le> a \<and> a < d + n then m (s + (a - d)) else m a)"

lemma copy_up_copied: "d \<le> s \<or> s + n \<le> d \<Longrightarrow> copy_up d s n m = copied d s n m"
proof (induction n arbitrary: d s m)
  case (Suc n)
  have "copy_up (d + 1) (s + 1) n (m(d := m s)) = copied (d + 1) (s + 1) n (m(d := m s))"
    using Suc.prems by (intro Suc.IH) auto
  also have "\<dots> = copied d s (Suc n) m"
  proof
    fix a
    show "copied (d + 1) (s + 1) n (m(d := m s)) a = copied d s (Suc n) m a"
    proof (cases "d < a \<and> a < d + Suc n")
      case True
      then have "s + 1 + (a - (d + 1)) = s + (a - d)" "s + (a - d) \<noteq> d" using Suc.prems by auto
      then show ?thesis using True by (simp add: copied_def)
    qed (auto simp: copied_def)
  qed
  finally show ?case by simp
qed (auto simp: copied_def fun_eq_iff)

lemma copy_down_copied: "s \<le> d \<Longrightarrow> copy_down (d + n) (s + n) n m = copied d s n m"
proof (induction n arbitrary: m)
  case (Suc n)
  have "copy_down (d + n) (s + n) n (m(d + n := m (s + n))) = copied d s (Suc n) m"
    unfolding Suc.IH [OF Suc.prems]
  proof
    fix a show "copied d s n (m(d + n := m (s + n))) a = copied d s (Suc n) m a"
      using Suc.prems by (cases "a = d + n") (auto simp: copied_def)
  qed
  then show ?case by simp
qed (auto simp: copied_def fun_eq_iff)

section \<open>Zero-terminated strings in memory\<close>

fun cstr :: "mem \<Rightarrow> nat \<Rightarrow> u8 list \<Rightarrow> bool" where
  "cstr m p [] \<longleftrightarrow> m p = 0"
| "cstr m p (c # cs) \<longleftrightarrow> m p = c \<and> c \<noteq> 0 \<and> cstr m (p + 1) cs"

lemma cstr_cong: "\<forall>i\<le>length s. m' (p + i) = m (p + i) \<Longrightarrow> cstr m' p s = cstr m p s"
proof (induction s arbitrary: p)
  case (Cons c cs)
  have "cstr m' (p + 1) cs = cstr m (p + 1) cs"
  proof (rule Cons.IH, intro allI impI)
    fix i assume "i \<le> length cs"
    then show "m' (p + 1 + i) = m (p + 1 + i)" using Cons.prems [rule_format, of "Suc i"] by simp
  qed
  then show ?case using Cons.prems [rule_format, of 0] by simp
qed simp

lemma cstr_append: "cstr m p (xs @ ys) \<longleftrightarrow> (\<forall>i<length xs. m (p + i) = xs ! i \<and> xs ! i \<noteq> 0) \<and> cstr m (p + length xs) ys"
proof (induction xs arbitrary: p)
  case (Cons x xs)
  have "(\<forall>i<Suc (length xs). m (p + i) = (x # xs) ! i \<and> (x # xs) ! i \<noteq> 0)
      \<longleftrightarrow> m p = x \<and> x \<noteq> 0 \<and> (\<forall>i<length xs. m (p + 1 + i) = xs ! i \<and> xs ! i \<noteq> 0)"
    by (simp add: All_less_Suc2)
  then show ?case using Cons.IH [of "p + 1"] by auto
qed simp

lemma strlen_cstr: "cstr m p s \<Longrightarrow> strlen m p = Some (length s)"
proof -
  have "cstr m p s \<Longrightarrow> strlen_loop m p k = Some (k + length s)" for k
    by (induction s arbitrary: p k) (simp_all add: strlen_loop.simps)
  then show "cstr m p s \<Longrightarrow> strlen m p = Some (length s)" by (simp add: strlen_def)
qed

lemma strcmp_cstr: "cstr m p s \<Longrightarrow> cstr m q t \<Longrightarrow> \<exists>r. strcmp m p q = Some r \<and> (r = 0 \<longleftrightarrow> s = t)"
proof (induction s arbitrary: p q t)
  case Nil
  then show ?case by (cases t) (auto simp: strcmp.simps [of m p q] signed_eq_0_iff)
next
  case (Cons c cs)
  show ?case
  proof (cases t)
    case Nil
    then show ?thesis using Cons.prems by (auto simp: strcmp.simps [of m p q] signed_eq_0_iff)
  next
    case (Cons d ds)
    show ?thesis
    proof (cases "c = d")
      case True
      then show ?thesis using Cons Cons.prems Cons.IH [of "p + 1" "q + 1" ds] by (simp add: strcmp.simps [of m p q])
    next
      case False
      then show ?thesis using Cons Cons.prems by (auto simp: strcmp.simps [of m p q] dest: signed_word_eqI)
    qed
  qed
qed

text \<open>The effect of storing a list of bytes, one after the other.\<close>

fun stored :: "nat \<Rightarrow> u8 list \<Rightarrow> mem \<Rightarrow> mem" where
  "stored d [] m = m"
| "stored d (b # bs) m = stored (d + 1) bs (m(d := b))"

lemma stored_append: "stored d (xs @ ys) m = stored (d + length xs) ys (stored d xs m)"
  by (induction xs arbitrary: d m) simp_all

lemma stored_apply: "stored d bs m a = (if d \<le> a \<and> a < d + length bs then bs ! (a - d) else m a)"
  by (induction bs arbitrary: d m) (auto simp: nth_Cons' Suc_le_eq)

lemma strncpy_pad_stored: "strncpy_pad d k m = stored d (replicate k 0) m"
  by (induction k arbitrary: d m) simp_all

lemma strncpy_copy_stored:
  "\<lbrakk>cstr m src s; \<forall>i\<le>length s. src + i < d \<or> d + n < src + i\<rbrakk> \<Longrightarrow>
   strncpy_copy d src n m =
     (if length s < n then (d + length s + 1, n - length s, stored d (s @ [0]) m) else (d + n, 0, stored d (take n s) m))"
proof (induction s arbitrary: d src n m)
  case Nil
  then show ?case by (cases n) simp_all
next
  case (Cons c cs)
  show ?case
  proof (cases n)
    case (Suc k)
    have dj: "\<forall>i\<le>length cs. src + 1 + i < d + 1 \<or> d + 1 + k < src + 1 + i"
    proof (intro allI impI)
      fix i assume "i \<le> length cs"
      then show "src + 1 + i < d + 1 \<or> d + 1 + k < src + 1 + i" using Cons.prems(2) [rule_format, of i] Suc by auto
    qed
    have "src + 1 + i \<noteq> d" if "i \<le> length cs" for i
      using Cons.prems(2) [rule_format, of "Suc i"] that Suc by auto
    then have "cstr (m(d := m src)) (src + 1) cs"
      using Cons.prems(1) by (subst cstr_cong [of cs _ _ m]) auto
    from Cons.IH [OF this dj] show ?thesis using Cons.prems(1) Suc by (simp add: Let_def del: fun_upd_apply)
  qed simp
qed

lemma strncpy_stored:
  assumes "cstr m src s" "\<forall>i\<le>length s. src + i < d \<or> d + n < src + i"
  shows "strncpy d src n m = stored d (if length s < n then s @ replicate (n - length s + 1) 0 else take n s) m"
  unfolding strncpy_def strncpy_copy_stored [OF assms]
  by (simp add: strncpy_pad_stored stored_append)

section \<open>Tokens\<close>

lemma strchr_cstr:
  assumes "cstr m d ds"
  shows "\<exists>r. strchr m (Some d) (sint c) = Some r \<and> (r = None \<longleftrightarrow> c \<noteq> 0 \<and> c \<notin> set ds)"
proof -
  have "cstr m d ds \<Longrightarrow> \<exists>r. strchr_loop m c d = Some r \<and> (r = None \<longleftrightarrow> c \<noteq> 0 \<and> c \<notin> set ds)"
    by (induction ds arbitrary: d) (auto simp: strchr_loop.simps)
  then show ?thesis using assms by (simp add: strchr_def)
qed

lemma skip_delims_cstr:
  assumes "cstr m d ds"
  shows "cstr m p str \<Longrightarrow> skip_delims m d p =
    Some (if dropWhile (\<lambda>c. c \<in> set ds) str = [] then Inl (p + length str)
          else Inr (p + length (takeWhile (\<lambda>c. c \<in> set ds) str)))"
proof (induction str arbitrary: p)
  case Nil
  then show ?case using strchr_cstr [OF assms, of "m p"] by (auto simp: skip_delims.simps [of m d p])
next
  case (Cons c cs)
  then show ?case using strchr_cstr [OF assms, of "m p"] by (auto simp: skip_delims.simps [of m d p])
qed

lemma skip_token_cstr:
  assumes "cstr m d ds"
  shows "cstr m p str \<Longrightarrow> skip_token m d p = Some (p + length (takeWhile (\<lambda>c. c \<notin> set ds) str))"
proof (induction str arbitrary: p)
  case Nil
  then show ?case using strchr_cstr [OF assms, of "m p"] by (auto simp: skip_token.simps [of m d p])
next
  case (Cons c cs)
  then show ?case using strchr_cstr [OF assms, of "m p"] by (auto simp: skip_token.simps [of m d p])
qed

text \<open>The reference definition: the maximal words without delimiters, in order.\<close>

function words :: "u8 list \<Rightarrow> u8 list \<Rightarrow> u8 list list" where
  "words ds str =
     (let rest = dropWhile (\<lambda>c. c \<in> set ds) str in
      if rest = [] then []
      else takeWhile (\<lambda>c. c \<notin> set ds) rest # words ds (drop 1 (dropWhile (\<lambda>c. c \<notin> set ds) rest)))"
  by pat_completeness auto
termination
proof (relation "measure (\<lambda>(ds, str). length str)", goal_cases)
  case (2 ds str rest)
  have "length (dropWhile (\<lambda>c. c \<notin> set ds) rest) \<le> length rest" "length rest \<le> length str"
    using 2(1) by (simp_all add: length_dropWhile_le)
  then show ?case using 2(2) by (cases rest) auto
qed simp

declare words.simps [simp del]

lemma drop_token_split:
  assumes "rest = dropWhile P str"
  shows "str = takeWhile P str @ takeWhile Q rest @ dropWhile Q rest"
  using assms by simp

lemma strtok_step:
  assumes d: "cstr m d ds" and p: "cstr m p str" and dj: "\<forall>i\<le>length ds. \<forall>j\<le>length str. d + i \<noteq> p + j"
    and rest: "rest = dropWhile (\<lambda>c. c \<in> set ds) str" "rest \<noteq> []"
  defines "tok \<equiv> takeWhile (\<lambda>c. c \<notin> set ds) rest" and "aft \<equiv> drop 1 (dropWhile (\<lambda>c. c \<notin> set ds) rest)"
  shows "\<exists>a q m'. strtok_r None (Some d) (Some p) m = Some (Some a, Some q, m') \<and> cstr m' a tok \<and> cstr m' q aft \<and> cstr m' d ds
     \<and> p \<le> a \<and> (a + length tok < q \<or> q = a + length tok \<and> aft = []) \<and> q + length aft = p + length str
     \<and> (\<forall>x. x < p \<or> p + length str \<le> x \<longrightarrow> m' x = m x)"
proof -
  let ?k = "length (takeWhile (\<lambda>c. c \<in> set ds) str)"
  define a where "a = p + ?k"
  define fin where "fin = dropWhile (\<lambda>c. c \<notin> set ds) rest"
  define e where "e = a + length tok"
  have sp: "str = takeWhile (\<lambda>c. c \<in> set ds) str @ tok @ fin"
    unfolding tok_def fin_def by (rule drop_token_split [OF rest(1)])
  have tf: "cstr m a (tok @ fin)" using p unfolding a_def by (subst (asm) sp) (simp add: cstr_append)
  then have t: "\<forall>i<length tok. m (a + i) = tok ! i \<and> tok ! i \<noteq> 0" and f: "cstr m e fin"
    unfolding e_def by (simp_all add: cstr_append)
  have len: "p + length str = e + length fin"
    using arg_cong [OF sp, of length] unfolding e_def a_def by simp
  have "rest = tok @ fin" unfolding tok_def fin_def by simp
  then have r: "cstr m a rest" using tf by simp
  have s1: "skip_delims m d p = Some (Inr a)" using skip_delims_cstr [OF d p] rest by (simp add: a_def)
  have s2: "skip_token m d a = Some e" using skip_token_cstr [OF d r] by (simp add: e_def tok_def)
  show ?thesis
  proof (cases fin)
    case Nil
    then have "m e = 0" using f by simp
    then have "strtok_r None (Some d) (Some p) m = Some (Some a, Some e, m)" using s1 s2 by (simp add: strtok_r_def)
    moreover have "cstr m a tok" using tf Nil by simp
    moreover have "aft = []" using Nil by (simp add: aft_def fin_def [symmetric])
    moreover have "p \<le> a" "e = a + length tok" "e = p + length str" using len Nil by (simp_all add: a_def e_def)
    ultimately show ?thesis using \<open>m e = 0\<close> d by (intro exI [of _ a] exI [of _ e] exI [of _ m]) simp
  next
    case (Cons c cs)
    then have e: "m e = c" "c \<noteq> 0" "cstr m (e + 1) cs" using f by auto
    have aft: "aft = cs" using Cons by (simp add: aft_def fin_def)
    have ep: "e = p + (e - p)" "e - p \<le> length str" "e < p + length str" using len Cons by (auto simp: e_def a_def)
    let ?m = "m(e := 0)"
    have "strtok_r None (Some d) (Some p) m = Some (Some a, Some (e + 1), ?m)" using s1 s2 e by (simp add: strtok_r_def)
    moreover have "cstr ?m a tok"
      using cstr_append [of ?m a tok "[]"] t by (simp add: e_def)
    moreover have "cstr ?m (e + 1) aft" using e(3) aft by (subst cstr_cong [of _ _ _ m]) auto
    moreover have "cstr ?m d ds"
    proof (subst cstr_cong [of _ _ _ m])
      show "\<forall>i\<le>length ds. ?m (d + i) = m (d + i)" using dj ep by (metis fun_upd_other)
    qed (rule d)
    moreover have "p \<le> a" "a + length tok < e + 1" "e + 1 + length aft = p + length str"
      using len Cons aft by (simp_all add: a_def e_def)
    ultimately show ?thesis using ep by (intro exI [of _ a] exI [of _ "e + 1"] exI [of _ ?m]) auto
  qed
qed

lemma spawn_parse_words:
  "\<lbrakk>cstr m d ds; cstr m p str; \<forall>i\<le>length ds. \<forall>j\<le>length str. d + i \<noteq> p + j\<rbrakk> \<Longrightarrow>
   \<exists>ts m'. spawn_parse d p m = Some (ts, m') \<and> list_all2 (cstr m') ts (words ds str)
     \<and> (\<forall>x. x < p \<or> p + length str \<le> x \<longrightarrow> m' x = m x)"
proof (induction ds str arbitrary: p m rule: words.induct)
  case (1 ds str)
  define rest where "rest = dropWhile (\<lambda>c. c \<in> set ds) str"
  show ?case
  proof (cases "rest = []")
    case True
    then have "strtok_r None (Some d) (Some p) m = Some (None, Some (p + length str), m)"
      using skip_delims_cstr [OF "1.prems"(1,2)] by (simp add: strtok_r_def rest_def)
    then show ?thesis using True by (simp add: spawn_parse.simps [of d p] words.simps [of ds str] rest_def Let_def)
  next
    case False
    define tok where "tok = takeWhile (\<lambda>c. c \<notin> set ds) rest"
    define aft where "aft = drop 1 (dropWhile (\<lambda>c. c \<notin> set ds) rest)"
    obtain a q m' where s: "strtok_r None (Some d) (Some p) m = Some (Some a, Some q, m')" "cstr m' a tok" "cstr m' q aft" "cstr m' d ds"
        "p \<le> a" "a + length tok < q \<or> q = a + length tok \<and> aft = []" "q + length aft = p + length str"
        "\<forall>x. x < p \<or> p + length str \<le> x \<longrightarrow> m' x = m x"
      using strtok_step [OF "1.prems" rest_def False] unfolding tok_def aft_def by blast
    have pq: "p \<le> q" using s(5,6) by auto
    have "\<forall>i\<le>length ds. \<forall>j\<le>length aft. d + i \<noteq> q + j"
    proof (intro allI impI)
      fix i j assume "i \<le> length ds" "j \<le> length aft"
      then have "q - p + j \<le> length str" using s(7) pq by simp
      then have "d + i \<noteq> p + (q - p + j)" using "1.prems"(3) \<open>i \<le> length ds\<close> by blast
      then show "d + i \<noteq> q + j" using pq by simp
    qed
    then obtain ts m'' where ts: "spawn_parse d q m' = Some (ts, m'')" "list_all2 (cstr m'') ts (words ds aft)"
        "\<forall>x. x < q \<or> q + length aft \<le> x \<longrightarrow> m'' x = m' x"
      using "1.IH" [OF rest_def False, of m' q] s(3,4) unfolding aft_def by blast
    have "words ds str = tok # words ds aft"
      unfolding words.simps [of ds str] using False by (simp add: rest_def [symmetric] tok_def aft_def Let_def)
    moreover have "cstr m'' a tok"
    proof (subst cstr_cong [of _ _ _ m'])
      show "\<forall>i\<le>length tok. m'' (a + i) = m' (a + i)" using s(6) ts(3) by auto
    qed (rule s(2))
    moreover have "m'' x = m x" if "x < p \<or> p + length str \<le> x" for x
      using ts(3) s(7,8) pq that by auto
    ultimately show ?thesis using s(1) ts by (simp add: spawn_parse.simps [of d p])
  qed
qed

lemma words_bound: "2 * length (words ds str) \<le> length str + 1"
proof (induction ds str rule: words.induct)
  case (1 ds str)
  define rest where "rest = dropWhile (\<lambda>c. c \<in> set ds) str"
  show ?case
  proof (cases "rest = []")
    case False
    define tok where "tok = takeWhile (\<lambda>c. c \<notin> set ds) rest"
    define fin where "fin = dropWhile (\<lambda>c. c \<notin> set ds) rest"
    have r: "rest = tok @ fin" by (simp add: tok_def fin_def)
    have "hd rest \<notin> set ds" using hd_dropWhile [of "\<lambda>c. c \<in> set ds" str] False by (auto simp: rest_def)
    then have "tok \<noteq> []" using False by (cases rest) (simp_all add: tok_def)
    then have "1 \<le> length tok" by (cases tok) auto
    moreover have "length rest \<le> length str" unfolding rest_def by (rule length_dropWhile_le)
    moreover have "length (words ds str) = Suc (length (words ds (drop 1 fin)))"
      unfolding words.simps [of ds str] using False by (simp add: rest_def [symmetric] fin_def Let_def)
    moreover have "fin = [] \<Longrightarrow> words ds (drop 1 fin) = []" by (simp add: words.simps)
    moreover have "2 * length (words ds (drop 1 fin)) \<le> length fin - 1 + 1"
      using "1.IH" [OF rest_def False] by (simp add: fin_def)
    moreover have "length rest = length tok + length fin" using r by simp
    ultimately show ?thesis by (cases "fin = []") auto
  qed (simp add: words.simps [of ds str] rest_def [symmetric])
qed

section \<open>Properties\<close>

text \<open>C24: \<^verbatim>\<open>memmove\<close> copies as if through a temporary buffer, for every overlap of the two areas, and changes nothing else;
  \<^verbatim>\<open>memcpy\<close> does the same when the destination does not start inside the source.\<close>

theorem memmove_copies:
  "memmove dest src n m = (\<lambda>a. if dest \<le> a \<and> a < dest + n then m (src + (a - dest)) else m a)
   \<and> (dest \<le> src \<or> src + n \<le> dest \<longrightarrow> memcpy dest src n m = memmove dest src n m)"
  using copy_up_copied [of dest src n m] copy_down_copied [of src dest n m]
  by (auto simp: memmove_def memcpy_def copied_def fun_eq_iff)

theorem memmove_copies_witness:
  "memmove 1 0 3 (\<lambda>a. word_of_nat a) 3 = 2 \<and> memcpy 0 1 3 (\<lambda>a. word_of_nat a) = memmove 0 1 3 (\<lambda>a. word_of_nat a)"
  using memmove_copies [of 1 0 3 "\<lambda>a. word_of_nat a"] memmove_copies [of 0 1 3 "\<lambda>a. word_of_nat a"] by simp

text \<open>C25: The parser of \<^verbatim>\<open>spawn\<close> arguments finds exactly the maximal words between delimiters, in order, each as a
  zero-terminated string in place. A string of \<open>n\<close> characters has at most \<open>(n + 1) / 2\<close> words, so \<^verbatim>\<open>argv\<close> is large enough
  unless its size was cut to \<^verbatim>\<open>PROC_MAX_ARG\<close>.\<close>

theorem spawn_arguments:
  assumes "cstr m delims ds" "cstr m buf str" "\<forall>i\<le>length ds. \<forall>j\<le>length str. delims + i \<noteq> buf + j"
  shows "\<exists>argv m'. spawn_parse delims buf m = Some (argv, m') \<and> list_all2 (cstr m') argv (words ds str)
     \<and> length argv \<le> (length str + 1) div 2"
proof -
  obtain ts m' where ts: "spawn_parse delims buf m = Some (ts, m')" "list_all2 (cstr m') ts (words ds str)"
    using spawn_parse_words [OF assms] by blast
  have "length ts \<le> (length str + 1) div 2"
    using list_all2_lengthD [OF ts(2)] words_bound [of ds str] by linarith
  then show ?thesis using ts by blast
qed

theorem spawn_arguments_witness:
  "\<exists>argv m'. spawn_parse 100 0 (stored 0 [97, 32, 32, 98, 0] (stored 100 [32, 0] (\<lambda>_. 0))) = Some (argv, m')
     \<and> list_all2 (cstr m') argv [[97], [98]] \<and> length argv \<le> Suc (Suc 0)"
proof -
  have "words [32] [97, 32, 32, 98] = [[97], [98]]" by (simp add: words.simps)
  then show ?thesis
    using spawn_arguments [of "stored 0 [97, 32, 32, 98, 0] (stored 100 [32, 0] (\<lambda>_. 0))" 100 "[32]" 0 "[97, 32, 32, 98]"] by simp
qed

text \<open>\<^verbatim>\<open>strncpy\<close> writes one byte more than its bound \<open>n\<close> whenever the source is shorter than \<open>n\<close>: the count is not decremented
  for the terminating zero, and the padding then runs one byte past the destination. For a source of \<open>n\<close> or more characters
  it writes exactly \<open>n\<close> bytes.\<close>

theorem strncpy_overruns:
  assumes "cstr m src s" "\<forall>i\<le>length s. src + i < dest \<or> dest + n < src + i"
  shows "strncpy dest src n m = (\<lambda>a. if dest \<le> a \<and> a < dest + n + (if length s < n then 1 else 0)
           then (if a - dest < length s then s ! (a - dest) else 0) else m a)"
  unfolding strncpy_stored [OF assms] by (auto simp: fun_eq_iff stored_apply nth_append nth_Cons')

theorem strncpy_overruns_witness:
  "strncpy 10 20 4 ((\<lambda>_. 7)(20 := 65, 21 := 0)) 14 = 0 \<and> ((\<lambda>_ :: nat. 7 :: u8)(20 := 65, 21 := 0)) 14 = 7"
  using strncpy_overruns [of "(\<lambda>_. 7)(20 := 65, 21 := 0)" 20 "[65]" 10 4] by (simp add: le_Suc_eq)

end
