(* ===== verification/Console.thy ===== *)
theory Console
  imports Prelude
begin

text \<open>
  The console: \<^verbatim>\<open>kernel/console.c\<close> with its output devices \<^verbatim>\<open>kernel/drivers/cga.c\<close> and \<^verbatim>\<open>uart.c\<close> and the keyboard
  driver \<^verbatim>\<open>keyboard.c\<close>.

  The CGA screen is 80 by 25 cells with a cursor register; the serial line is the list of bytes sent.
  \<^verbatim>\<open>console_storec\<close> and \<^verbatim>\<open>console_read\<close> run with \<^verbatim>\<open>console_lock\<close> held; a read that has to wait returns what it has read
  so far and is resumed from there. A port read is an argument of the function that makes it.
\<close>

section \<open>Output devices\<close>

record cga =
  cga_on :: bool
  cga_mem :: "nat \<Rightarrow> u16"
  cursor :: nat

abbreviation (input) RES_X :: nat where "RES_X \<equiv> 80"
abbreviation (input) RES_Y :: nat where "RES_Y \<equiv> 25"
abbreviation (input) BACKSPACE :: int where "BACKSPACE \<equiv> 0x100"
abbreviation (input) ATB_NORMAL :: int where "ATB_NORMAL \<equiv> 0x0700"

definition cga_init :: "cga \<Rightarrow> cga" where
  "cga_init d = d\<lparr>cga_on := True\<rparr>"

definition cga_scroll :: "cga \<Rightarrow> cga" where
  "cga_scroll d =
     (let m = (\<lambda>i. if i < RES_X * (RES_Y - 1) then cga_mem d (i + RES_X) else cga_mem d i);
          c = cursor d - RES_X in
      d\<lparr>cga_mem := (\<lambda>i. if c \<le> i \<and> i < RES_X * RES_Y then 0 else m i), cursor := c\<rparr>)"

definition cga_putc :: "int \<Rightarrow> cga \<Rightarrow> cga" where
  "cga_putc c d =
     (if \<not> cga_on d then d
      else
        let d = (if c = 10 then d\<lparr>cursor := cursor d + (RES_X - cursor d mod RES_X)\<rparr>
                 else if c = BACKSPACE then (if cursor d > 0 then d\<lparr>cursor := cursor d - 1\<rparr> else d)
                 else d\<lparr>cga_mem := (cga_mem d)(cursor d := word_of_int (c OR ATB_NORMAL)), cursor := cursor d + 1\<rparr>) in
        if cursor d \<ge> RES_X * RES_Y then cga_scroll d else d)"

record uart =
  uart_initialized :: bool
  uart_out :: "u8 list"

definition uart_putc :: "u8 \<Rightarrow> uart \<Rightarrow> uart" where
  "uart_putc c u = (if \<not> uart_initialized u then u else u\<lparr>uart_out := uart_out u @ [c]\<rparr>)"

text \<open>\<open>lsr\<close> and \<open>rbr\<close> are the bytes read from the two registers.\<close>

definition uart_getc :: "u8 \<Rightarrow> u8 \<Rightarrow> uart \<Rightarrow> u8" where
  "uart_getc lsr rbr u = (if \<not> uart_initialized u then -1 else if lsr AND 1 = 0 then -1 else rbr)"

definition uart_init :: "uart \<Rightarrow> uart" where
  "uart_init u = uart_putc 10 (u\<lparr>uart_initialized := True\<rparr>)"

section \<open>The console\<close>

abbreviation (input) BUF_LEN :: nat where "BUF_LEN \<equiv> 256"

record console =
  ibuf :: "nat \<Rightarrow> u8"
  ir :: u32
  iw :: u32
  ie :: u32
  dev_uart :: uart
  dev_cga :: cga

definition console_putc :: "int \<Rightarrow> console \<Rightarrow> console" where
  "console_putc c s =
     s\<lparr>dev_uart :=
         (if c = BACKSPACE then uart_putc 8 (uart_putc 32 (uart_putc 8 (dev_uart s)))
          else uart_putc (word_of_int c) (dev_uart s)),
       dev_cga := cga_putc c (dev_cga s)\<rparr>"

definition slot_of :: "u32 \<Rightarrow> nat" where
  "slot_of i = unat (i mod 256)"

function kill_line :: "console \<Rightarrow> console" where
  "kill_line s =
     (if ie s \<noteq> iw s \<and> ibuf s (slot_of (ie s - 1)) \<noteq> 10
      then kill_line (console_putc BACKSPACE (s\<lparr>ie := ie s - 1\<rparr>)) else s)"
  by pat_completeness auto
termination
proof (relation "measure (\<lambda>s. unat (ie s - iw s))", goal_cases)
  case (2 s)
  then have "ie s - iw s \<noteq> 0" by simp
  then have "unat (ie s - iw s - 1) < unat (ie s - iw s)" by (simp add: unat_gt_0 unat_minus_one)
  then show ?case by (simp add: console_putc_def algebra_simps)
qed simp

declare kill_line.simps [simp del]

definition console_storec :: "u8 \<Rightarrow> console \<Rightarrow> console" where
  "console_storec c s =
     (if c = 21 then kill_line s
      else if c = 8 \<or> c = 0x7f then
        (if ie s \<noteq> iw s then console_putc BACKSPACE (s\<lparr>ie := ie s - 1\<rparr>) else s)
      else if c \<noteq> 0 \<and> ie s - ir s < of_nat BUF_LEN then
        let c = (if c = 13 then 10 else c);
            s = s\<lparr>ibuf := (ibuf s)(slot_of (ie s) := c), ie := ie s + 1\<rparr>;
            s = (if c = 10 \<or> c = 4 \<or> ie s = ir s + of_nat BUF_LEN then s\<lparr>iw := ie s\<rparr> else s) in
        console_putc (sint c) s
      else s)"

text \<open>\<open>Wait n got\<close>: no committed character is left, \<open>n\<close> more are wanted and \<open>got\<close> have been delivered.\<close>

datatype read_result = Wait nat "u8 list" console | Done "u8 list" console

fun console_read_loop :: "nat \<Rightarrow> nat \<Rightarrow> u8 list \<Rightarrow> console \<Rightarrow> read_result" where
  "console_read_loop sz 0 got s = Done got s"
| "console_read_loop sz (Suc n) got s =
     (if ir s = iw s then Wait (Suc n) got s
      else
        let c = ibuf s (slot_of (ir s)); s = s\<lparr>ir := ir s + 1\<rparr> in
        if c = 4 then Done got (if Suc n < sz then s\<lparr>ir := ir s - 1\<rparr> else s)
        else if c = 10 then Done (got @ [c]) s
        else console_read_loop sz n (got @ [c]) s)"

definition console_read :: "nat \<Rightarrow> console \<Rightarrow> read_result" where
  "console_read sz s = console_read_loop sz sz [] s"

definition console_write :: "u8 list \<Rightarrow> console \<Rightarrow> nat \<times> console" where
  "console_write buf s = (length buf, fold (\<lambda>c. console_putc (sint c)) buf s)"

definition uart_input_handler :: "u8 \<Rightarrow> u8 \<Rightarrow> console \<Rightarrow> console" where
  "uart_input_handler lsr rbr s = console_storec (uart_getc lsr rbr (dev_uart s)) s"

definition console_init :: "console \<Rightarrow> console" where
  "console_init s = s\<lparr>dev_cga := cga_init (dev_cga s), dev_uart := uart_init (dev_uart s)\<rparr>"

section \<open>The keyboard\<close>

text \<open>An initialised C array of 256 bytes: the leading entries in order, then the designated ones, the rest zero.\<close>

definition table :: "u8 list \<Rightarrow> (nat \<times> u8) list \<Rightarrow> nat \<Rightarrow> u8" where
  "table pre desg i = (case map_of desg i of Some v \<Rightarrow> v | None \<Rightarrow> if i < length pre then pre ! i else 0)"

abbreviation (input) SHIFT :: u32 where "SHIFT \<equiv> 1"
abbreviation (input) CTL :: u32 where "CTL \<equiv> 2"
abbreviation (input) CAPSLOCK :: u32 where "CAPSLOCK \<equiv> 8"
abbreviation (input) E0ESC :: u32 where "E0ESC \<equiv> 64"

definition shiftcode :: "nat \<Rightarrow> u8" where
  "shiftcode = table [] [(0x1D, 2), (0x2A, 1), (0x36, 1), (0x38, 4), (0x9D, 2), (0xB8, 4)]"

definition togglecode :: "nat \<Rightarrow> u8" where
  "togglecode = table [] [(0x3A, 8), (0x45, 16), (0x46, 32)]"

definition normalmap :: "nat \<Rightarrow> u8" where
  "normalmap = table
     [0, 27, 49, 50, 51, 52, 53, 54,
      55, 56, 57, 48, 45, 61, 8, 9,
      113, 119, 101, 114, 116, 121, 117, 105,
      111, 112, 91, 93, 10, 0, 97, 115,
      100, 102, 103, 104, 106, 107, 108, 59,
      39, 96, 0, 92, 122, 120, 99, 118,
      98, 110, 109, 44, 46, 47, 0, 42,
      0, 32, 0, 0, 0, 0, 0, 0,
      0, 0, 0, 0, 0, 0, 0, 55,
      56, 57, 45, 52, 53, 54, 43, 49,
      50, 51, 48, 46, 0, 0, 0, 0]
     [(0x9C, 10), (0xB5, 47), (0xC8, 0xe2), (0xD0, 0xe3), (0xC9, 0xe6), (0xD1, 0xe7),
      (0xCB, 0xe4), (0xCD, 0xe5), (0x97, 0xe0), (0xCF, 0xe1), (0xD2, 0xe8), (0xD3, 0xe9)]"

definition shiftmap :: "nat \<Rightarrow> u8" where
  "shiftmap = table
     [0, 27, 33, 64, 35, 36, 37, 94,
      38, 42, 40, 41, 95, 43, 8, 9,
      81, 87, 69, 82, 84, 89, 85, 73,
      79, 80, 123, 125, 10, 0, 65, 83,
      68, 70, 71, 72, 74, 75, 76, 58,
      34, 126, 0, 124, 90, 88, 67, 86,
      66, 78, 77, 60, 62, 63, 0, 42,
      0, 32, 0, 0, 0, 0, 0, 0,
      0, 0, 0, 0, 0, 0, 0, 55,
      56, 57, 45, 52, 53, 54, 43, 49,
      50, 51, 48, 46, 0, 0, 0, 0]
     [(0x9C, 10), (0xB5, 47), (0xC8, 0xe2), (0xD0, 0xe3), (0xC9, 0xe6), (0xD1, 0xe7),
      (0xCB, 0xe4), (0xCD, 0xe5), (0x97, 0xe0), (0xCF, 0xe1), (0xD2, 0xe8), (0xD3, 0xe9)]"

definition ctlmap :: "nat \<Rightarrow> u8" where
  "ctlmap = table
     [0, 0, 0, 0, 0, 0, 0, 0,
      0, 0, 0, 0, 0, 0, 0, 0,
      17, 23, 5, 18, 20, 25, 21, 9,
      15, 16, 0, 0, 13, 0, 1, 19,
      4, 6, 7, 8, 10, 11, 12, 0,
      0, 0, 0, 28, 26, 24, 3, 22,
      2, 14, 13, 0, 0, 239, 0, 0]
     [(0x9C, 13), (0xB5, 239), (0xC8, 0xe2), (0xD0, 0xe3), (0xC9, 0xe6), (0xD1, 0xe7),
      (0xCB, 0xe4), (0xCD, 0xe5), (0x97, 0xe0), (0xCF, 0xe1), (0xD2, 0xe8), (0xD3, 0xe9)]"

definition charcode :: "u32 \<Rightarrow> nat \<Rightarrow> u8" where
  "charcode i = (if i = 0 then normalmap else if i = 1 then shiftmap else ctlmap)"

text \<open>\<open>readb\<close> is what a read of a port returns. The static variable \<^verbatim>\<open>shift\<close> is passed in and out. Both reads of the
  handler use \<^verbatim>\<open>KB_STATUS\<close>, port 0x64. A return before \<^verbatim>\<open>done\<close> stores no character.\<close>

definition keyboard_input_handler :: "(nat \<Rightarrow> u8) \<Rightarrow> u32 \<times> console \<Rightarrow> u32 \<times> console" where
  "keyboard_input_handler readb = (\<lambda>(shift, s).
     let st = (ucast (readb 0x64) :: u32) in
     if st AND 1 = 0 then (shift, s)
     else
       let data = (ucast (readb 0x64) :: u32) in
       if data = 0xE0 then (shift OR E0ESC, console_storec 0 s)
       else if data AND 0x80 \<noteq> 0 then
         let data = (if shift AND E0ESC \<noteq> 0 then data else data AND 0x7F) in
         (shift AND NOT (ucast (shiftcode (unat data)) OR E0ESC), console_storec 0 s)
       else
         let (data, shift) = (if shift AND E0ESC \<noteq> 0 then (data OR 0x80, shift AND NOT E0ESC) else (data, shift));
             shift = shift OR ucast (shiftcode (unat data));
             shift = shift XOR ucast (togglecode (unat data));
             c = charcode (shift AND (CTL OR SHIFT)) (unat data);
             c = (if shift AND CAPSLOCK \<noteq> 0 then
                    (if 97 \<le> c \<and> c \<le> 122 then c - 32 else if 65 \<le> c \<and> c \<le> 90 then c + 32 else c)
                  else c) in
         (shift, console_storec c s))"

section \<open>Formatted output\<close>

definition digit_chars :: "u8 list" where
  "digit_chars = [48, 49, 50, 51, 52, 53, 54, 55, 56, 57, 65, 66, 67, 68, 69, 70]"

text \<open>The digits in the order in which the loop stores them, least significant first. The bases used are 10 and 16.\<close>

function digits_loop :: "nat \<Rightarrow> nat \<Rightarrow> u8 list" where
  "digits_loop base num =
     digit_chars ! (num mod base) # (if num div base \<noteq> 0 \<and> 2 \<le> base then digits_loop base (num div base) else [])"
  by pat_completeness auto
termination
  by (relation "measure (\<lambda>(base, num). num)") (auto intro!: div_less_dividend simp: div_greater_zero_iff)

declare digits_loop.simps [simp del]

definition print_chars :: "bool \<Rightarrow> nat \<Rightarrow> nat \<Rightarrow> u8 list" where
  "print_chars neg base num =
     (if neg then [45] else []) @ (if base = 16 then [48, 120] else []) @ rev (digits_loop base num)"

definition printnum64 :: "u64 \<Rightarrow> nat \<Rightarrow> bool \<Rightarrow> u8 list" where
  "printnum64 num base sign =
     (let neg = (sign \<and> sint num < 0); num = (if neg then - num else num) in print_chars neg base (unat num))"

definition printnum :: "u32 \<Rightarrow> nat \<Rightarrow> bool \<Rightarrow> u8 list" where
  "printnum num base sign =
     (let neg = (sign \<and> sint num < 0); num = (if neg then - num else num) in print_chars neg base (unat num))"

text \<open>A variable argument is a machine word or a string pointer. Taking more arguments than were passed is \<open>None\<close>.\<close>

datatype va_arg = Num u64 | Str "u8 list option"

fun kformat :: "u8 list \<Rightarrow> va_arg list \<Rightarrow> int list option" where
  "kformat [] args = Some []"
| "kformat [f] args = Some (if f = 37 then [] else [sint f])"
| "kformat (f # g # format) args =
     (if f \<noteq> 37 then map_option ((#) (sint f)) (kformat (g # format) args)
      else if g = 99 then
        (case args of Num w # args \<Rightarrow> map_option ((#) (sint (ucast w :: u32))) (kformat format args) | _ \<Rightarrow> None)
      else if g = 100 then
        (case args of Num w # args \<Rightarrow> map_option ((@) (map sint (printnum (ucast w) 10 True))) (kformat format args) | _ \<Rightarrow> None)
      else if g = 117 then
        (case args of Num w # args \<Rightarrow> map_option ((@) (map sint (printnum (ucast w) 10 False))) (kformat format args) | _ \<Rightarrow> None)
      else if g = 120 \<or> g = 112 then
        (case args of Num w # args \<Rightarrow> map_option ((@) (map sint (printnum64 w 16 False))) (kformat format args) | _ \<Rightarrow> None)
      else if g = 115 then
        (case args of
           Str p # args \<Rightarrow>
             map_option ((@) (map sint (case p of None \<Rightarrow> [40, 110, 117, 108, 108, 41] | Some cs \<Rightarrow> cs))) (kformat format args)
         | _ \<Rightarrow> None)
      else if g = 37 then map_option ((#) 37) (kformat format args)
      else map_option (\<lambda>out. 37 # sint g # out) (kformat format args))"

text \<open>A null format panics.\<close>

definition kprintf :: "u8 list option \<Rightarrow> va_arg list \<Rightarrow> console \<Rightarrow> console option" where
  "kprintf format args s = do {
     format \<leftarrow> format;
     out \<leftarrow> kformat format args;
     Some (fold console_putc out s)
   }"

section \<open>Formatted output of user programs\<close>

text \<open>\<^verbatim>\<open>lib/stdio.c\<close>, linked into user programs, has its own copies of the functions; they write to file descriptor 1.
  The result is the sequence of bytes written.\<close>

definition user_printnum64 :: "u64 \<Rightarrow> nat \<Rightarrow> bool \<Rightarrow> u8 list" where
  "user_printnum64 num base sign =
     (let neg = (sign \<and> sint num < 0); num = (if neg then - num else num) in
      (if neg then [45] else []) @ (if base = 16 then [48, 120] else []) @ rev (digits_loop base (unat num)))"

definition user_printnum :: "u32 \<Rightarrow> nat \<Rightarrow> bool \<Rightarrow> u8 list" where
  "user_printnum num base sign =
     (let neg = (sign \<and> sint num < 0); num = (if neg then - num else num) in
      (if neg then [45] else []) @ (if base = 16 then [48, 120] else []) @ rev (digits_loop base (unat num)))"

text \<open>The \<^verbatim>\<open>%c\<close> case takes no argument and writes nothing, and an unknown conversion writes only its letter.\<close>

fun user_format :: "u8 list \<Rightarrow> va_arg list \<Rightarrow> u8 list option" where
  "user_format [] args = Some []"
| "user_format [f] args = Some (if f = 37 then [] else [f])"
| "user_format (f # g # format) args =
     (if f \<noteq> 37 then map_option ((#) f) (user_format (g # format) args)
      else if g = 99 then user_format format args
      else if g = 100 then
        (case args of Num w # args \<Rightarrow> map_option ((@) (user_printnum (ucast w) 10 True)) (user_format format args) | _ \<Rightarrow> None)
      else if g = 117 then
        (case args of Num w # args \<Rightarrow> map_option ((@) (user_printnum (ucast w) 10 False)) (user_format format args) | _ \<Rightarrow> None)
      else if g = 120 \<or> g = 112 then
        (case args of Num w # args \<Rightarrow> map_option ((@) (user_printnum64 w 16 False)) (user_format format args) | _ \<Rightarrow> None)
      else if g = 115 then
        (case args of
           Str p # args \<Rightarrow>
             map_option ((@) (case p of None \<Rightarrow> [40, 110, 117, 108, 108, 41] | Some cs \<Rightarrow> cs)) (user_format format args)
         | _ \<Rightarrow> None)
      else map_option ((#) g) (user_format format args))"

text \<open>A null format writes the three bytes of \<^verbatim>\<open>"hi"\<close>, the terminator included.\<close>

definition printf :: "u8 list option \<Rightarrow> va_arg list \<Rightarrow> u8 list option" where
  "printf format args = (case format of None \<Rightarrow> Some [104, 105, 0] | Some format \<Rightarrow> user_format format args)"

text \<open>\<^verbatim>\<open>gets\<close>: \<open>input\<close> are the results of the one-byte reads, \<open>None\<close> a read that returns less than one byte.
  The result is the string stored in \<^verbatim>\<open>buf\<close>.\<close>

fun gets_loop :: "nat \<Rightarrow> nat \<Rightarrow> u8 option list \<Rightarrow> u8 list" where
  "gets_loop i mx (Some c # input) =
     (if i + 1 < mx then (if c = 10 \<or> c = 13 then [c] else c # gets_loop (i + 1) mx input) else [])"
| "gets_loop i mx _ = []"

definition gets :: "nat \<Rightarrow> u8 option list \<Rightarrow> u8 list" where
  "gets mx input = gets_loop 0 mx input @ [0]"

lemma user_print_same: "user_printnum64 w base sign = printnum64 w base sign" "user_printnum v base sign = printnum v base sign"
  by (simp_all add: user_printnum64_def printnum64_def user_printnum_def printnum_def print_chars_def Let_def)

lemma gets_fits: "0 < mx \<Longrightarrow> length (gets mx input) \<le> mx"
proof -
  have "i < mx \<Longrightarrow> length (gets_loop i mx input) + i < mx" for i
    by (induction i mx input rule: gets_loop.induct) auto
  then show "0 < mx \<Longrightarrow> length (gets mx input) \<le> mx" using Suc_leI by (fastforce simp: gets_def)
qed

section \<open>Printed numbers denote their argument\<close>

definition digit_value :: "u8 \<Rightarrow> nat" where
  "digit_value c = (if c \<le> 57 then unat c - 48 else unat c - 55)"

definition number_of :: "nat \<Rightarrow> u8 list \<Rightarrow> nat" where
  "number_of base cs = foldl (\<lambda>a c. a * base + digit_value c) 0 cs"

text \<open>The reference reader: an optional sign, \<^verbatim>\<open>0x\<close> for base 16, then digits.\<close>

definition parse_num :: "u8 list \<Rightarrow> int" where
  "parse_num cs =
     (if take 1 cs = [45] then - int (number_of 10 (drop 1 cs))
      else if take 2 cs = [48, 120] then int (number_of 16 (drop 2 cs))
      else int (number_of 10 cs))"

lemma digit_value_chars:
  assumes "d < 16"
  shows "digit_value (digit_chars ! d) = d"
proof -
  have "\<forall>d\<in>set [0..<16]. digit_value (digit_chars ! d) = d" by code_simp
  then show ?thesis using assms by simp
qed

lemma mod_digit: "2 \<le> base \<Longrightarrow> base \<le> 16 \<Longrightarrow> n mod base < (16 :: nat)"
  using mod_less_divisor [of base n] by linarith

lemma number_of_digits: "2 \<le> base \<Longrightarrow> base \<le> 16 \<Longrightarrow> number_of base (rev (digits_loop base num)) = num"
proof (induction base num rule: digits_loop.induct)
  case (1 base n)
  have d: "digit_value (digit_chars ! (n mod base)) = n mod base"
    using 1(2,3) by (intro digit_value_chars mod_digit)
  show ?case
  proof (cases "n div base = 0")
    case True
    then have "n mod base = n" using 1(2) by (auto simp: div_eq_0_iff)
    then show ?thesis using True d by (simp add: digits_loop.simps [of base n] number_of_def)
  next
    case False
    then have "number_of base (rev (digits_loop base (n div base))) = n div base"
      using 1 by simp
    then show ?thesis using False d 1(2) by (simp add: digits_loop.simps [of base n] number_of_def)
  qed
qed

lemma digits_loop_chars: "2 \<le> base \<Longrightarrow> base \<le> 16 \<Longrightarrow> set (digits_loop base num) \<subseteq> set digit_chars"
proof (induction base num rule: digits_loop.induct)
  case (1 base num)
  have "num mod base < 16" using 1(2,3) by (rule mod_digit)
  then have "digit_chars ! (num mod base) \<in> set digit_chars" by (intro nth_mem) (simp add: digit_chars_def)
  then show ?case using 1 by (subst digits_loop.simps) auto
qed

lemma digits_loop_nonempty: "digits_loop base num \<noteq> []"
  by (subst digits_loop.simps) simp

lemma digits_loop_length: "2 \<le> base \<Longrightarrow> num < base ^ k \<Longrightarrow> 0 < k \<Longrightarrow> length (digits_loop base num) \<le> k"
proof (induction k arbitrary: num)
  case (Suc k)
  show ?case
  proof (cases "num div base = 0")
    case False
    have "num div base < base ^ k" using Suc.prems by (simp add: less_mult_imp_div_less mult.commute)
    moreover have "0 < k" using False calculation by (cases k) auto
    ultimately show ?thesis using Suc.IH Suc.prems(1) False by (subst digits_loop.simps) simp
  qed (subst digits_loop.simps, simp)
qed simp

lemma parse_print:
  assumes "base = 10 \<or> base = 16 \<and> \<not> neg"
  shows "parse_num (print_chars neg base n) = (if neg then - int n else int n)"
proof -
  have b: "2 \<le> base" "base \<le> 16" using assms by auto
  let ?ds = "rev (digits_loop base n)"
  have n: "number_of base ?ds = n" by (rule number_of_digits [OF b])
  have c: "set ?ds \<subseteq> set digit_chars" using digits_loop_chars [OF b] by simp
  have ne: "(45 :: u8) \<notin> set digit_chars" "(120 :: u8) \<notin> set digit_chars" by (simp_all add: digit_chars_def)
  have t: "take 1 ?ds \<noteq> [45]" "take 2 ?ds \<noteq> [48, 120]"
  proof -
    show "take 1 ?ds \<noteq> [45]"
    proof
      assume "take 1 ?ds = [45]"
      then have "45 \<in> set ?ds" using in_set_takeD [of 45 1 ?ds] by simp
      then show False using c ne by blast
    qed
    show "take 2 ?ds \<noteq> [48, 120]"
    proof
      assume "take 2 ?ds = [48, 120]"
      then have "120 \<in> set ?ds" using in_set_takeD [of 120 2 ?ds] by simp
      then show False using c ne by blast
    qed
  qed
  from assms show ?thesis
  proof
    assume "base = 10"
    then show ?thesis using t n by (cases neg) (simp_all add: print_chars_def parse_num_def)
  next
    assume "base = 16 \<and> \<not> neg"
    then show ?thesis using n by (simp add: print_chars_def parse_num_def)
  qed
qed

lemma uint_minus_neg:
  fixes w :: "'a::len word"
  assumes "sint w < 0"
  shows "uint (- w) = - sint w"
proof -
  have "- w = word_of_int (- sint w)" by (simp add: word_of_int_minus)
  then have "uint (- w) = take_bit LENGTH('a) (- sint w)" by (simp only: uint_word_of_int_eq)
  also have "\<dots> = - sint w"
  proof (rule take_bit_int_eq_self)
    show "0 \<le> - sint w" using assms by simp
    have "- (2 ^ (LENGTH('a) - 1)) \<le> sint w" by (rule sint_ge)
    moreover have "(2 :: int) ^ (LENGTH('a) - 1) < 2 ^ LENGTH('a)" by (intro power_strict_increasing) auto
    ultimately show "- sint w < 2 ^ LENGTH('a)" by linarith
  qed
  finally show ?thesis .
qed

lemma uint_sint_pos:
  fixes w :: "'a::len word"
  assumes "\<not> sint w < 0"
  shows "uint w = sint w"
proof -
  have "uint w = uint (word_of_int (sint w) :: 'a word)" by simp
  also have "\<dots> = take_bit LENGTH('a) (sint w)" by (simp only: uint_word_of_int_eq)
  also have "\<dots> = sint w"
  proof (rule take_bit_int_eq_self)
    show "0 \<le> sint w" using assms by simp
    have "sint w < 2 ^ (LENGTH('a) - 1)" by (rule sint_lt)
    moreover have "(2 :: int) ^ (LENGTH('a) - 1) < 2 ^ LENGTH('a)" by (intro power_strict_increasing) auto
    ultimately show "sint w < 2 ^ LENGTH('a)" by linarith
  qed
  finally show ?thesis .
qed

lemma parse_print_signed:
  fixes x :: "'a::len word"
  shows "parse_num (print_chars (sint x < 0) 10 (unat (if sint x < 0 then - x else x))) = sint x"
  using uint_minus_neg [of x] uint_sint_pos [of x] by (cases "sint x < 0") (simp_all add: parse_print)

text \<open>C31: Printed numbers read back as the number that was printed, for the signed and unsigned decimal formats and for
  hexadecimal, at both widths, the smallest negative numbers included; and the digits never exceed the local buffers of 32 and 16
  characters.\<close>

theorem printnum_round_trip:
  "parse_num (printnum64 w 10 True) = sint w \<and> parse_num (printnum64 w 10 False) = uint w
   \<and> parse_num (printnum64 w 16 False) = uint w
   \<and> parse_num (printnum v 10 True) = sint v \<and> parse_num (printnum v 10 False) = uint v
   \<and> parse_num (printnum v 16 False) = uint v
   \<and> length (digits_loop 10 (unat w)) \<le> 20 \<and> length (digits_loop 16 (unat w)) \<le> 16
   \<and> length (digits_loop 10 (unat v)) \<le> 10 \<and> length (digits_loop 16 (unat v)) \<le> 8"
proof -
  have w: "unat w < 10 ^ 20" "unat w < 16 ^ 16" using unsigned_less [of w, where ?'a = nat] by simp_all
  have v: "unat v < 10 ^ 10" "unat v < 16 ^ 8" using unsigned_less [of v, where ?'a = nat] by simp_all
  show ?thesis
    using digits_loop_length [OF _ w(1)] digits_loop_length [OF _ w(2)] digits_loop_length [OF _ v(1)] digits_loop_length [OF _ v(2)]
    by (simp add: printnum64_def printnum_def parse_print_signed parse_print Let_def)
qed

section \<open>The input buffer refines a line editor\<close>

text \<open>The characters between two indices of the ring, and the two parts of the buffer: lines that can be read, and the line
  that is still being edited.\<close>

definition window :: "(nat \<Rightarrow> u8) \<Rightarrow> u32 \<Rightarrow> nat \<Rightarrow> u8 list" where
  "window buf i n = map (\<lambda>k. buf (slot_of (i + of_nat k))) [0..<n]"

definition committed :: "console \<Rightarrow> u8 list" where
  "committed s = window (ibuf s) (ir s) (unat (iw s - ir s))"

definition editing :: "console \<Rightarrow> u8 list" where
  "editing s = window (ibuf s) (iw s) (unat (ie s - iw s))"

definition console_inv :: "console \<Rightarrow> bool" where
  "console_inv s \<longleftrightarrow> unat (iw s - ir s) + unat (ie s - iw s) \<le> BUF_LEN \<and> 10 \<notin> set (editing s)
     \<and> (unat (iw s - ir s) + unat (ie s - iw s) = BUF_LEN \<longrightarrow> editing s = [])"

text \<open>The abstract line editor, on the pair of the readable text and the edited line.\<close>

definition line_store :: "u8 \<Rightarrow> u8 list \<times> u8 list \<Rightarrow> u8 list \<times> u8 list" where
  "line_store c = (\<lambda>(com, ed).
     if c = 21 then (com, [])
     else if c = 8 \<or> c = 0x7f then (com, butlast ed)
     else if c \<noteq> 0 \<and> length com + length ed < BUF_LEN then
       let c = (if c = 13 then 10 else c); ed = ed @ [c] in
       if c = 10 \<or> c = 4 \<or> length com + length ed = BUF_LEN then (com @ ed, []) else (com, ed)
     else (com, ed))"

fun line_read :: "nat \<Rightarrow> nat \<Rightarrow> u8 list \<Rightarrow> u8 list \<Rightarrow> bool \<times> u8 list \<times> u8 list" where
  "line_read sz 0 got com = (True, got, com)"
| "line_read sz (Suc n) got [] = (False, got, [])"
| "line_read sz (Suc n) got (c # com) =
     (if c = 4 then (True, got, if Suc n < sz then c # com else com)
      else if c = 10 then (True, got @ [c], com)
      else line_read sz n (got @ [c]) com)"

lemma slot_of_unat: "slot_of x = unat x mod 256"
  by (simp add: slot_of_def unat_mod)

lemma slot_add: "slot_of (i + of_nat k) = (unat i + k) mod 256"
proof -
  have "unat (i + of_nat k) = (unat i + k) mod 2 ^ 32"
    by (simp add: unat_word_ariths unat_of_nat mod_add_right_eq)
  then show ?thesis by (simp add: slot_of_unat mod_mod_cancel)
qed

lemma slot_ne: "k < q \<Longrightarrow> q - k < 256 \<Longrightarrow> slot_of (i + of_nat k) \<noteq> slot_of (i + of_nat q)"
proof
  assume k: "k < q" "q - k < 256" and "slot_of (i + of_nat k) = slot_of (i + of_nat q)"
  then have "(unat i + q) mod 256 = (unat i + k) mod 256" by (simp add: slot_add)
  then have "256 dvd (unat i + q) - (unat i + k)" by (rule mod_eq_dvd_iff_nat [THEN iffD1, rotated]) (use k in simp)
  then have "256 dvd q - k" by simp
  then show False using k by (auto dest: dvd_imp_le)
qed

lemma window_0 [simp]: "window buf i 0 = []"
  by (simp add: window_def)

lemma length_window [simp]: "length (window buf i n) = n"
  by (simp add: window_def)

lemma window_Suc: "window buf i (Suc n) = window buf i n @ [buf (slot_of (i + of_nat n))]"
  by (simp add: window_def)

lemma window_Cons: "window buf i (Suc n) = buf (slot_of i) # window buf (i + 1) n"
proof -
  have "map (\<lambda>k. buf (slot_of (i + of_nat (Suc k)))) [0..<n] = window buf (i + 1) n"
    unfolding window_def by (rule map_cong) (simp_all add: algebra_simps)
  then show ?thesis by (simp add: window_def map_upt_Suc del: upt_Suc)
qed

lemma window_append: "window buf i (a + b) = window buf i a @ window buf (i + of_nat a) b"
proof (induction a arbitrary: i)
  case (Suc a)
  show ?case using Suc.IH [of "i + 1"] by (simp add: window_Cons algebra_simps)
qed simp

lemma window_upd: "n \<le> q \<Longrightarrow> q < 256 \<Longrightarrow> window (buf(slot_of (i + of_nat q) := c)) i n = window buf i n"
  unfolding window_def by (rule map_cong) (use slot_ne [of _ q i] in auto)

lemma putc_fields [simp]:
  "ibuf (console_putc c s) = ibuf s" "ir (console_putc c s) = ir s" "iw (console_putc c s) = iw s" "ie (console_putc c s) = ie s"
  by (simp_all add: console_putc_def)

lemma unat_offset: "a \<le> 512 \<Longrightarrow> unat (x + of_nat a - x :: u32) = a"
  by (simp add: unat_of_nat)

text \<open>Everything about the buffer follows from the two lengths.\<close>

definition shaped :: "console \<Rightarrow> nat \<Rightarrow> nat \<Rightarrow> bool" where
  "shaped s a b \<longleftrightarrow> iw s = ir s + of_nat a \<and> ie s = iw s + of_nat b \<and> a + b \<le> 256"

lemma shapedD:
  assumes "shaped s a b"
  shows "unat (iw s - ir s) = a" "unat (ie s - iw s) = b" "ie s = ir s + of_nat (a + b)" "unat (ie s - ir s) = a + b"
    "committed s = window (ibuf s) (ir s) a" "editing s = window (ibuf s) (iw s) b"
proof -
  have ab: "a + b \<le> 256" "iw s = ir s + of_nat a" "ie s = iw s + of_nat b" using assms by (simp_all add: shaped_def)
  show e: "ie s = ir s + of_nat (a + b)" using ab(2,3) by simp
  show "unat (iw s - ir s) = a" unfolding ab(2) using ab(1) by (intro unat_offset) simp
  moreover show "unat (ie s - iw s) = b" unfolding ab(3) using ab(1) by (intro unat_offset) simp
  ultimately show "committed s = window (ibuf s) (ir s) a" "editing s = window (ibuf s) (iw s) b"
    by (simp_all add: committed_def editing_def)
  show "unat (ie s - ir s) = a + b" unfolding e using ab(1) by (intro unat_offset) simp
qed

lemma console_inv_shaped: "console_inv s \<Longrightarrow> shaped s (length (committed s)) (length (editing s))"
  by (simp add: shaped_def console_inv_def committed_def editing_def)

lemma console_invI: "shaped s a b \<Longrightarrow> 10 \<notin> set (editing s) \<Longrightarrow> (a + b = 256 \<Longrightarrow> b = 0) \<Longrightarrow> console_inv s"
  using shapedD [of s a b] by (auto simp: console_inv_def shaped_def)

lemma kill_line_ok:
  "\<lbrakk>ie s = iw s + of_nat b; b \<le> 256; 10 \<notin> set (window (ibuf s) (iw s) b)\<rbrakk> \<Longrightarrow>
   ie (kill_line s) = iw s \<and> iw (kill_line s) = iw s \<and> ir (kill_line s) = ir s \<and> ibuf (kill_line s) = ibuf s"
proof (induction b arbitrary: s)
  case 0
  then show ?case by (simp add: kill_line.simps [of s])
next
  case (Suc b)
  define t where "t = console_putc BACKSPACE (s\<lparr>ie := ie s - 1\<rparr>)"
  have e: "ie s - 1 = iw s + of_nat b" using Suc.prems(1) by simp
  have "unat (ie s - iw s) = Suc b" unfolding Suc.prems(1) using Suc.prems(2) by (intro unat_offset) simp
  then have "ie s \<noteq> iw s" by auto
  moreover have "ibuf s (slot_of (ie s - 1)) \<noteq> 10" using Suc.prems(3) e by (simp add: window_Suc)
  ultimately have k: "kill_line s = kill_line t" by (simp add: kill_line.simps [of s] t_def)
  show ?case unfolding k using Suc.IH [of t] Suc.prems e by (simp add: t_def window_Suc)
qed

lemma storec_kill:
  assumes "shaped s a b" "10 \<notin> set (editing s)"
  shows "shaped (kill_line s) a 0 \<and> committed (kill_line s) = committed s \<and> editing (kill_line s) = []"
proof -
  have sh: "ie s = iw s + of_nat b" "b \<le> 256" "a + b \<le> 256" "iw s = ir s + of_nat a" using assms(1) by (auto simp: shaped_def)
  have "10 \<notin> set (window (ibuf s) (iw s) b)" using assms(2) shapedD(6) [OF assms(1)] by simp
  then show ?thesis
    using kill_line_ok [OF sh(1,2)] sh by (auto simp: shaped_def committed_def editing_def)
qed

lemma storec_back:
  assumes sh: "shaped s a (Suc b)"
  defines "t \<equiv> console_putc BACKSPACE (s\<lparr>ie := ie s - 1\<rparr>)"
  shows "shaped t a b \<and> committed t = committed s \<and> editing t = butlast (editing s)"
proof -
  have t: "shaped t a b" using sh by (simp add: shaped_def t_def)
  then show ?thesis using shapedD(5,6) [OF t] shapedD(5,6) [OF sh] by (simp add: t_def window_Suc)
qed

lemma storec_add:
  fixes c :: u8
  assumes sh: "shaped s a b" and lt: "a + b < 256"
  defines "t \<equiv> s\<lparr>ibuf := (ibuf s)(slot_of (ie s) := c), ie := ie s + 1\<rparr>"
  shows "shaped t a (Suc b)" "committed t = committed s" "editing t = editing s @ [c]"
    "shaped (t\<lparr>iw := ie t\<rparr>) (a + Suc b) 0" "committed (t\<lparr>iw := ie t\<rparr>) = committed s @ editing s @ [c]"
    "editing (t\<lparr>iw := ie t\<rparr>) = []"
proof -
  have e: "ie s = ir s + of_nat (a + b)" "ie s = iw s + of_nat b" "iw s = ir s + of_nat a"
    using sh by (simp_all add: shaped_def)
  show t: "shaped t a (Suc b)" using sh lt by (simp add: shaped_def t_def)
  have f: "ibuf t = (ibuf s)(slot_of (ie s) := c)" "ir t = ir s" "iw t = iw s" "ie t = ie s + 1" by (simp_all add: t_def)
  have w1: "window (ibuf t) (ir s) a = window (ibuf s) (ir s) a"
    unfolding f e(1) by (rule window_upd) (use lt in auto)
  have "window (ibuf t) (iw s) b = window (ibuf s) (iw s) b"
    unfolding f e(2) by (rule window_upd) (use lt in auto)
  then have w2: "window (ibuf t) (iw s) (Suc b) = window (ibuf s) (iw s) b @ [c]"
    by (simp add: window_Suc f e(2) [symmetric])
  show "committed t = committed s" "editing t = editing s @ [c]"
    using shapedD(5,6) [OF t] shapedD(5,6) [OF sh] w1 w2 f by simp_all
  have u: "shaped (t\<lparr>iw := ie t\<rparr>) (a + Suc b) 0" using e lt f by (simp add: shaped_def)
  then show "shaped (t\<lparr>iw := ie t\<rparr>) (a + Suc b) 0" .
  have "committed (t\<lparr>iw := ie t\<rparr>) = window (ibuf t) (ir s) (a + Suc b)" using shapedD(5) [OF u] f by simp
  also have "\<dots> = window (ibuf s) (ir s) a @ window (ibuf s) (iw s) b @ [c]"
    unfolding window_append w1 using w2 e(3) by simp
  finally show "committed (t\<lparr>iw := ie t\<rparr>) = committed s @ editing s @ [c]" using shapedD(5,6) [OF sh] by simp
  show "editing (t\<lparr>iw := ie t\<rparr>) = []" using shapedD(6) [OF u] by simp
qed

lemma shaped_putc [simp]:
  "shaped (console_putc c s) a b = shaped s a b" "committed (console_putc c s) = committed s" "editing (console_putc c s) = editing s"
  by (simp_all add: shaped_def committed_def editing_def)

lemma storec_refines:
  assumes inv: "console_inv s"
  shows "console_inv (console_storec c s) \<and>
    (committed (console_storec c s), editing (console_storec c s)) = line_store c (committed s, editing s)"
proof -
  define a where "a = length (committed s)"
  define b where "b = length (editing s)"
  have sh: "shaped s a b" unfolding a_def b_def by (rule console_inv_shaped [OF inv])
  have ed: "10 \<notin> set (editing s)" and ab: "a + b \<le> 256" using inv sh by (simp_all add: console_inv_def shaped_def)
  consider (kill) "c = 21" | (bksp) "c = 8 \<or> c = 0x7f" | (skip) "c \<noteq> 21" "c \<noteq> 8" "c \<noteq> 0x7f" "c = 0 \<or> a + b = 256"
    | (add) "c \<noteq> 21" "c \<noteq> 8" "c \<noteq> 0x7f" "c \<noteq> 0" "a + b < 256" using ab by force
  then show ?thesis
  proof cases
    case kill
    then show ?thesis using storec_kill [OF sh ed] ab console_invI [of "kill_line s" a 0]
      by (simp add: console_storec_def line_store_def)
  next
    case bksp
    show ?thesis
    proof (cases b)
      case 0
      then have "ie s = iw s" "editing s = []" using sh shapedD(6) [OF sh] by (simp_all add: shaped_def)
      then show ?thesis using bksp inv by (auto simp: console_storec_def line_store_def)
    next
      case (Suc n)
      then have ne: "ie s \<noteq> iw s" using shapedD(2) [OF sh] by auto
      note bk = storec_back [OF sh [unfolded Suc]]
      have "10 \<notin> set (butlast (editing s))" using ed by (auto dest: in_set_butlastD)
      then show ?thesis using bksp ne bk Suc ab console_invI [of "console_putc BACKSPACE (s\<lparr>ie := ie s - 1\<rparr>)" a n]
        by (auto simp: console_storec_def line_store_def)
    qed
  next
    case skip
    then have "\<not> (c \<noteq> 0 \<and> ie s - ir s < 256)" using shapedD(4) [OF sh] by (auto simp: word_less_nat_alt)
    then have "console_storec c s = s" using skip(1-3) by (auto simp: console_storec_def)
    then show ?thesis using skip inv by (auto simp: line_store_def a_def b_def)
  next
    case add
    then have "ie s - ir s < 256" using shapedD(4) [OF sh] by (simp add: word_less_nat_alt)
    define c' where "c' = (if c = 13 then 10 else c)"
    define t where "t = s\<lparr>ibuf := (ibuf s)(slot_of (ie s) := c'), ie := ie s + 1\<rparr>"
    note st = storec_add [OF sh add(5), of c', folded t_def]
    have fl: "ie t = ir t + 256 \<longleftrightarrow> a + Suc b = 256"
    proof -
      have "ie t - ir t = 256 \<longleftrightarrow> unat (ie t - ir t) = 256" by (simp add: word_unat_eq_iff)
      then show ?thesis using shapedD(4) [OF st(1)] by (auto simp: algebra_simps)
    qed
    have cs: "console_storec c s = console_putc (sint c') (if c' = 10 \<or> c' = 4 \<or> a + Suc b = 256 then t\<lparr>iw := ie t\<rparr> else t)"
      using add \<open>ie s - ir s < 256\<close> fl by (simp add: console_storec_def Let_def c'_def t_def)
    have ls: "line_store c (committed s, editing s) =
        (if c' = 10 \<or> c' = 4 \<or> a + Suc b = 256 then (committed s @ editing s @ [c'], []) else (committed s, editing s @ [c']))"
      using add by (simp add: line_store_def Let_def c'_def a_def b_def)
    show ?thesis
    proof (cases "c' = 10 \<or> c' = 4 \<or> a + Suc b = 256")
      case True
      have "console_inv (console_putc (sint c') (t\<lparr>iw := ie t\<rparr>))" by (rule console_invI [of _ "a + Suc b" 0]) (use st in simp_all)
      then show ?thesis using True cs ls st by simp
    next
      case False
      have "console_inv (console_putc (sint c') t)" by (rule console_invI [of _ a "Suc b"]) (use st ed False in auto)
      then show ?thesis using False cs ls st by simp
    qed
  qed
qed

lemma read_refines:
  "\<lbrakk>shaped s a b; 10 \<notin> set (editing s); a + b = 256 \<longrightarrow> b = 0; n \<le> sz\<rbrakk> \<Longrightarrow>
   (case console_read_loop sz n got s of
      Done g s' \<Rightarrow> line_read sz n got (committed s) = (True, g, committed s') \<and> editing s' = editing s \<and> console_inv s'
    | Wait k g s' \<Rightarrow> line_read sz n got (committed s) = (False, g, committed s') \<and> editing s' = editing s \<and> console_inv s'
        \<and> k + length g = n + length got)"
proof (induction n arbitrary: a s got)
  case 0
  then show ?case using console_invI [of s a b] by simp
next
  case (Suc n)
  show ?case
  proof (cases a)
    case 0
    then have "committed s = []" "ir s = iw s" using Suc.prems(1) shapedD(5) [OF Suc.prems(1)] by (simp_all add: shaped_def)
    then show ?thesis using console_invI [of s a b] Suc.prems by simp
  next
    case (Suc a')
    define t where "t = s\<lparr>ir := ir s + 1\<rparr>"
    define c where "c = ibuf s (slot_of (ir s))"
    have ne: "ir s \<noteq> iw s" using shapedD(1) [OF Suc.prems(1)] Suc by auto
    have sh: "shaped t a' b" using Suc.prems(1) Suc by (simp add: shaped_def t_def)
    have com: "committed s = c # committed t"
      unfolding shapedD(5) [OF Suc.prems(1)] shapedD(5) [OF sh] Suc window_Cons c_def by (simp add: t_def)
    have ed: "editing t = editing s" by (simp add: editing_def t_def)
    have lt: "a' + b \<noteq> 256" using Suc.prems(1) Suc by (simp add: shaped_def)
    have it: "console_inv t" by (rule console_invI [OF sh]) (use ed lt Suc.prems in auto)
    have invs: "console_inv s" by (rule console_invI [OF Suc.prems(1)]) (use Suc.prems in auto)
    have undo: "t\<lparr>ir := ir t - 1\<rparr> = s" by (simp add: t_def)
    have IH: "case console_read_loop sz n (got @ [c]) t of
      Done g s' \<Rightarrow> line_read sz n (got @ [c]) (committed t) = (True, g, committed s') \<and> editing s' = editing t \<and> console_inv s'
    | Wait k g s' \<Rightarrow> line_read sz n (got @ [c]) (committed t) = (False, g, committed s') \<and> editing s' = editing t \<and> console_inv s'
        \<and> k + length g = n + length (got @ [c])"
      by (rule Suc.IH [OF sh]) (use ed lt Suc.prems in auto)
    have u: "console_read_loop sz (Suc n) got s =
        (if c = 4 then Done got (if Suc n < sz then s else t) else if c = 10 then Done (got @ [c]) t
         else console_read_loop sz n (got @ [c]) t)"
      using ne undo by (simp add: c_def [symmetric] t_def [symmetric] Let_def)
    show ?thesis unfolding u using com ed it invs IH by (auto split: read_result.splits)
  qed
qed

text \<open>C20: The console refines a line editor on two lists, the readable text and the line being edited: every stored character has the
  effect the editor has on it (erase, kill, line end, end of file), with ring indices that may wrap around, and a
  read delivers and consumes exactly what the editor's read does, waiting only when no readable text is left. When the buffer is full the
  editor drops the new character, as \<^verbatim>\<open>console_storec\<close> does; the comment in \<^verbatim>\<open>console.h\<close> says that the oldest one is overwritten.\<close>

theorem console_line_editor:
  assumes "console_inv s"
  shows "console_inv (console_storec c s) \<and>
     (committed (console_storec c s), editing (console_storec c s)) = line_store c (committed s, editing s) \<and>
     (length (committed s) + length (editing s) = BUF_LEN \<and> c \<notin> {21, 8, 0x7f} \<longrightarrow>
        committed (console_storec c s) = committed s \<and> editing (console_storec c s) = editing s) \<and>
     (case console_read sz s of
        Done g s' \<Rightarrow> line_read sz sz [] (committed s) = (True, g, committed s') \<and> editing s' = editing s \<and> console_inv s'
      | Wait k g s' \<Rightarrow> line_read sz sz [] (committed s) = (False, g, committed s') \<and> editing s' = editing s \<and> console_inv s'
          \<and> k + length g = sz)"
proof -
  have sh: "shaped s (length (committed s)) (length (editing s))" by (rule console_inv_shaped [OF assms])
  have "10 \<notin> set (editing s)" "length (committed s) + length (editing s) = 256 \<longrightarrow> length (editing s) = 0"
    using assms by (auto simp: console_inv_def committed_def editing_def)
  note r = read_refines [OF sh this order_refl, of sz "[]"]
  have "line_store c (committed s, editing s) = (committed s, editing s)"
    if "length (committed s) + length (editing s) = BUF_LEN" "c \<notin> {21, 8, 0x7f}" using that by (simp add: line_store_def)
  with storec_refines [OF assms, of c] r show ?thesis by (auto simp: console_read_def split: read_result.splits)
qed

text \<open>The buffers as the loader leaves them: zero.\<close>

definition boot_console :: console where
  "boot_console = \<lparr>ibuf = (\<lambda>_. 0), ir = 0, iw = 0, ie = 0,
     dev_uart = \<lparr>uart_initialized = False, uart_out = []\<rparr>, dev_cga = \<lparr>cga_on = False, cga_mem = (\<lambda>_. 0), cursor = 0\<rparr>\<rparr>"

theorem console_line_editor_witness:
  "console_inv boot_console \<and> console_inv (console_storec 97 boot_console)
   \<and> (committed (console_storec 97 boot_console), editing (console_storec 97 boot_console)) = ([], [97])
   \<and> console_read 3 boot_console = Wait 3 [] boot_console"
proof -
  have inv: "console_inv boot_console" by (simp add: console_inv_def editing_def boot_console_def)
  have e: "committed boot_console = []" "editing boot_console = []" by (simp_all add: committed_def editing_def boot_console_def)
  have "line_store 97 ([], []) = ([], [97])" by (simp add: line_store_def)
  moreover have "console_read 3 boot_console = Wait 3 [] boot_console"
    by (simp add: console_read_def boot_console_def numeral_3_eq_3)
  ultimately show ?thesis using console_line_editor [OF inv, of 97 3] inv e by simp
qed

text \<open>C32: The screen driver stays on the screen: from a cursor on the 80 by 25 screen, printing any character leaves the cursor on the
  screen and no cell outside it is written; a printed character is in the cell where the cursor was, one line higher
  when the screen scrolled, and scrolling moves every line up by one.\<close>

theorem cga_stays_on_screen:
  assumes "cursor d < RES_X * RES_Y" "cga_on d"
  shows "cursor (cga_putc c d) < RES_X * RES_Y \<and> (\<forall>i\<ge>RES_X * RES_Y. cga_mem (cga_putc c d) i = cga_mem d i)
    \<and> (c \<noteq> 10 \<and> c \<noteq> BACKSPACE \<longrightarrow>
        (if cursor d = RES_X * RES_Y - 1
         then cga_mem (cga_putc c d) (cursor d - RES_X) = word_of_int (c OR ATB_NORMAL)
            \<and> (\<forall>i<RES_X * (RES_Y - 1) - 1. cga_mem (cga_putc c d) i = cga_mem d (i + RES_X))
         else cga_mem (cga_putc c d) = (cga_mem d)(cursor d := word_of_int (c OR ATB_NORMAL))
            \<and> cursor (cga_putc c d) = cursor d + 1))"
proof -
  have "cursor d + (80 - cursor d mod 80) \<le> 2000"
  proof -
    have "cursor d div 80 < 25" using assms(1) by simp
    then have "80 * (cursor d div 80) \<le> 1920" by simp
    moreover have "cursor d = 80 * (cursor d div 80) + cursor d mod 80" by simp
    ultimately show ?thesis using mod_less_divisor [of 80 "cursor d"] by linarith
  qed
  then show ?thesis using assms by (auto simp: cga_putc_def cga_scroll_def Let_def)
qed

theorem cga_stays_on_screen_witness:
  "cursor (cga_putc 65 \<lparr>cga_on = True, cga_mem = (\<lambda>_. 0), cursor = 1999\<rparr>) < 2000
   \<and> cga_mem (cga_putc 65 \<lparr>cga_on = True, cga_mem = (\<lambda>_. 0), cursor = 1999\<rparr>) 1919 = 0x741"
  using cga_stays_on_screen [of "\<lparr>cga_on = True, cga_mem = (\<lambda>_. 0), cursor = 1999\<rparr>" 65] by simp

end
