(* ===== verification/Vpmap.thy ===== *)
theory Vpmap
  imports Frames
begin

text \<open>
  Page tables: \<^verbatim>\<open>arch/x86_64/kernel/mm/vpmap.c\<close>.

  Physical memory is seen as frames of 512 entries of 64 bits. A pointer into a table is the pair of the frame
  number and the index; the kernel reaches frames through the fixed mapping at \<^verbatim>\<open>KMAP_BASE\<close>, so the conversions
  \<^verbatim>\<open>KMAP_P2V\<close> and \<^verbatim>\<open>KMAP_V2P\<close> cancel. A \<^verbatim>\<open>struct vpmap\<close> is the frame of its top level table. Frames come from the
  buddy allocator of \<open>Pmem\<close>. The outer \<open>None\<close> of a result is a panic; loops that count up to an end address are
  \<open>partial_function\<close>s, for which it also stands for not ending. Loading \<^verbatim>\<open>cr3\<close> is an update of a field.
\<close>

section \<open>Entries and addresses\<close>

record vmem =
  pm :: pmem
  tabs :: "nat \<Rightarrow> nat \<Rightarrow> u64"
  cr3 :: nat

datatype memperm = MEMPERM_R | MEMPERM_RW | MEMPERM_UR | MEMPERM_URW

abbreviation (input) PTE_P :: u64 where "PTE_P \<equiv> 1"
abbreviation (input) PTE_W :: u64 where "PTE_W \<equiv> 2"
abbreviation (input) PTE_U :: u64 where "PTE_U \<equiv> 4"
abbreviation (input) PTE_A :: u64 where "PTE_A \<equiv> 0x20"
abbreviation (input) PTE_D :: u64 where "PTE_D \<equiv> 0x40"
abbreviation (input) PHYS_ADDR_MASK :: u64 where "PHYS_ADDR_MASK \<equiv> NOT 0xFFF8000000000000"
abbreviation (input) KMAP_BASE :: u64 where "KMAP_BASE \<equiv> 0xFFFFFFFF80000000"
abbreviation (input) USTACK_UPPERBOUND :: u64 where "USTACK_UPPERBOUND \<equiv> 0xFFFFFF7FFFFFF000"
abbreviation (input) ERR_VPMAP_NOTPRESENT :: err where "ERR_VPMAP_NOTPRESENT \<equiv> 1"
abbreviation (input) ERR_VPMAP_MAP :: err where "ERR_VPMAP_MAP \<equiv> 2"

definition VPN :: "vaddr \<Rightarrow> vaddr" where "VPN v = v AND NOT 0xFFF"
definition PPN :: "u64 \<Rightarrow> paddr" where "PPN p = p AND NOT 0xFFF AND PHYS_ADDR_MASK"
definition ENTRY_ADDR :: "u64 \<Rightarrow> paddr" where "ENTRY_ADDR e = e AND NOT 0xFFF AND PHYS_ADDR_MASK"
definition ENTRY_FLAGS :: "u64 \<Rightarrow> u64" where "ENTRY_FLAGS e = e AND 0xFFF"

definition ENTRY_IDX :: "vaddr \<Rightarrow> nat \<Rightarrow> nat" where
  "ENTRY_IDX v shift = unat (drop_bit shift v AND 0x1FF)"

abbreviation (input) PTX :: "vaddr \<Rightarrow> nat" where "PTX v \<equiv> ENTRY_IDX v 12"
abbreviation (input) PDX :: "vaddr \<Rightarrow> nat" where "PDX v \<equiv> ENTRY_IDX v 21"
abbreviation (input) PDPTX :: "vaddr \<Rightarrow> nat" where "PDPTX v \<equiv> ENTRY_IDX v 30"
abbreviation (input) PML4X :: "vaddr \<Rightarrow> nat" where "PML4X v \<equiv> ENTRY_IDX v 39"

text \<open>The frame an entry points to, and the store of an entry.\<close>

definition entry_frame :: "u64 \<Rightarrow> nat" where
  "entry_frame e = unat (ENTRY_ADDR e) div PG"

definition set_entry :: "nat \<Rightarrow> nat \<Rightarrow> u64 \<Rightarrow> vmem \<Rightarrow> vmem" where
  "set_entry tab i e st = st\<lparr>tabs := (tabs st)(tab := (tabs st tab)(i := e))\<rparr>"

definition zero_frame :: "nat \<Rightarrow> vmem \<Rightarrow> vmem" where
  "zero_frame f st = st\<lparr>tabs := (tabs st)(f := (\<lambda>_. 0))\<rparr>"

fun memperm_to_pteperm :: "memperm \<Rightarrow> u64" where
  "memperm_to_pteperm MEMPERM_R = 0"
| "memperm_to_pteperm MEMPERM_RW = PTE_W"
| "memperm_to_pteperm MEMPERM_UR = PTE_U"
| "memperm_to_pteperm MEMPERM_URW = PTE_U OR PTE_W"

section \<open>Walking the tables\<close>

text \<open>One level of the walk: the table the entry refers to, made on demand. The inner \<open>None\<close> is the null pointer.\<close>

definition walk_level :: "bool \<Rightarrow> nat \<Rightarrow> nat \<Rightarrow> vmem \<Rightarrow> (nat option \<times> vmem) option" where
  "walk_level alloc tab i st =
     (if tabs st tab i AND PTE_P = 0 then
        (if \<not> alloc then Some (None, st)
         else do {
           (er, pa, p) \<leftarrow> pmem_alloc (pm st);
           let st = st\<lparr>pm := p\<rparr>;
           (if er \<noteq> ERR_OK then Some (None, st)
            else
              let st = zero_frame (paddr_to_page pa) st;
                  st = set_entry tab i (of_nat pa OR PTE_P OR PTE_W OR PTE_U) st in
              Some (Some (entry_frame (tabs st tab i)), st))
         })
      else Some (Some (entry_frame (tabs st tab i)), st))"

definition find_pte :: "nat \<Rightarrow> vaddr \<Rightarrow> bool \<Rightarrow> vmem \<Rightarrow> ((nat \<times> nat) option \<times> vmem) option" where
  "find_pte pml4 vaddr alloc st = do {
     (r, st) \<leftarrow> walk_level alloc pml4 (PML4X vaddr) st;
     (case r of None \<Rightarrow> Some (None, st) | Some pdpt \<Rightarrow> do {
        (r, st) \<leftarrow> walk_level alloc pdpt (PDPTX vaddr) st;
        (case r of None \<Rightarrow> Some (None, st) | Some pgdir \<Rightarrow> do {
           (r, st) \<leftarrow> walk_level alloc pgdir (PDX vaddr) st;
           (case r of None \<Rightarrow> Some (None, st) | Some pgtab \<Rightarrow> Some (Some (pgtab, PTX vaddr), st))
        })
     })
   }"

definition clear_pte :: "nat \<Rightarrow> nat \<Rightarrow> vmem \<Rightarrow> vmem option" where
  "clear_pte tab i st = do {
     st \<leftarrow> (if tabs st tab i AND PTE_P \<noteq> 0
           then do { p \<leftarrow> pmem_dec_refcnt (unat (PPN (tabs st tab i))) (pm st); Some (st\<lparr>pm := p\<rparr>) }
           else Some st);
     Some (set_entry tab i 0 st)
   }"

section \<open>Mapping and unmapping\<close>

partial_function (option) map_loop :: "nat \<Rightarrow> vaddr \<Rightarrow> vaddr \<Rightarrow> paddr \<Rightarrow> u64 \<Rightarrow> vmem \<Rightarrow> (err \<times> vmem) option" where
  "map_loop pml4 v vend paddr perm st =
     (if v \<noteq> vend then do {
        (r, st) \<leftarrow> find_pte pml4 v True st;
        (case r of
           None \<Rightarrow> Some (ERR_VPMAP_MAP, st)
         | Some p \<Rightarrow>
             map_loop pml4 (v + pg_size) vend (paddr + pg_size) perm (set_entry (fst p) (snd p) (PPN paddr OR PTE_P OR perm) st))
      }
      else Some (ERR_OK, st))"

definition map_pages :: "nat \<Rightarrow> vaddr \<Rightarrow> paddr \<Rightarrow> u64 \<Rightarrow> u64 \<Rightarrow> vmem \<Rightarrow> (err \<times> vmem) option" where
  "map_pages pml4 vaddr paddr size' perm st =
     map_loop pml4 (pg_round_down vaddr) (pg_round_down (vaddr + size')) (pg_round_down paddr) perm st"

function clear_range :: "nat \<Rightarrow> nat \<Rightarrow> nat \<Rightarrow> vmem \<Rightarrow> vmem option" where
  "clear_range tab ptx limit st =
     (if ptx < limit then do { st \<leftarrow> clear_pte tab ptx st; clear_range tab (ptx + 1) limit st } else Some st)"
  by pat_completeness auto
termination
  by (relation "measure (\<lambda>(tab, ptx, limit, st). limit - ptx)") auto

declare clear_range.simps [simp del]

definition free_table :: "bool \<Rightarrow> u64 \<Rightarrow> vmem \<Rightarrow> vmem option" where
  "free_table free_imm e st =
     (if free_imm then do { p \<leftarrow> pmem_free (unat (ENTRY_ADDR e)) (pm st); Some (st\<lparr>pm := p\<rparr>) } else Some st)"

text \<open>The three nested loops. The lower index starts at the start address in the first round and at 0 afterwards.\<close>

function unmap_pd_loop :: "nat \<Rightarrow> vaddr \<Rightarrow> nat \<Rightarrow> nat \<Rightarrow> nat \<Rightarrow> bool \<Rightarrow> vmem \<Rightarrow> vmem option" where
  "unmap_pd_loop pde end_addr pdx ptx pdx_end free_imm st =
     (if pdx < pdx_end then do {
        st \<leftarrow> (if tabs st pde pdx AND PTE_P \<noteq> 0 then do {
              let limit = (if ptx < PTX end_addr then 512 else PTX end_addr + 1);
              st \<leftarrow> clear_range (entry_frame (tabs st pde pdx)) ptx limit st;
              free_table free_imm (tabs st pde pdx) st
            }
            else Some st);
        unmap_pd_loop pde end_addr (pdx + 1) 0 pdx_end free_imm st
      }
      else Some st)"
  by pat_completeness auto
termination
  by (relation "measure (\<lambda>(pde, e, pdx, ptx, pdx_end, f, st). pdx_end - pdx)") auto

declare unmap_pd_loop.simps [simp del]

definition unmap_pd :: "nat \<Rightarrow> vaddr \<Rightarrow> vaddr \<Rightarrow> nat \<Rightarrow> nat \<Rightarrow> bool \<Rightarrow> vmem \<Rightarrow> vmem option" where
  "unmap_pd pde start_addr end_addr pdx_start pdx_end free_imm st =
     unmap_pd_loop pde end_addr pdx_start (PTX start_addr) pdx_end free_imm st"

function unmap_pdpt_loop :: "nat \<Rightarrow> vaddr \<Rightarrow> vaddr \<Rightarrow> nat \<Rightarrow> nat \<Rightarrow> nat \<Rightarrow> bool \<Rightarrow> vmem \<Rightarrow> vmem option" where
  "unmap_pdpt_loop pdpt start_addr end_addr pdptx pdx pdptx_end free_imm st =
     (if pdptx < pdptx_end then do {
        st \<leftarrow> (if tabs st pdpt pdptx AND PTE_P \<noteq> 0 then do {
              let limit = (if pdx < PDX end_addr then 512 else PDX end_addr + 1);
              st \<leftarrow> unmap_pd (entry_frame (tabs st pdpt pdptx)) start_addr end_addr pdx limit free_imm st;
              free_table free_imm (tabs st pdpt pdptx) st
            }
            else Some st);
        unmap_pdpt_loop pdpt start_addr end_addr (pdptx + 1) 0 pdptx_end free_imm st
      }
      else Some st)"
  by pat_completeness auto
termination
  by (relation "measure (\<lambda>(pdpt, sa, e, pdptx, pdx, pdptx_end, f, st). pdptx_end - pdptx)") auto

declare unmap_pdpt_loop.simps [simp del]

definition unmap_pdpt :: "nat \<Rightarrow> vaddr \<Rightarrow> vaddr \<Rightarrow> nat \<Rightarrow> nat \<Rightarrow> bool \<Rightarrow> vmem \<Rightarrow> vmem option" where
  "unmap_pdpt pdpt start_addr end_addr pdptx_start pdptx_end free_imm st =
     unmap_pdpt_loop pdpt start_addr end_addr pdptx_start (PDX start_addr) pdptx_end free_imm st"

function unmap_loop :: "nat \<Rightarrow> vaddr \<Rightarrow> vaddr \<Rightarrow> nat \<Rightarrow> nat \<Rightarrow> bool \<Rightarrow> vmem \<Rightarrow> vmem option" where
  "unmap_loop pml4 start end' pml4x pdptx free_imm st =
     (if pml4x \<le> PML4X (end' - 1) then do {
        st \<leftarrow> (if tabs st pml4 pml4x AND PTE_P \<noteq> 0 then do {
              let limit = (if pdptx < PDPTX end' then 512 else PDPTX end' + 1);
              st \<leftarrow> unmap_pdpt (entry_frame (tabs st pml4 pml4x)) start end' pdptx limit free_imm st;
              free_table free_imm (tabs st pml4 pml4x) st
            }
            else Some st);
        unmap_loop pml4 start end' (pml4x + 1) 0 free_imm st
      }
      else Some st)"
  by pat_completeness auto
termination
  by (relation "measure (\<lambda>(pml4, sa, e, pml4x, pdptx, f, st). Suc (PML4X (e - 1)) - pml4x)") auto

declare unmap_loop.simps [simp del]

definition unmap_pages :: "nat \<Rightarrow> vaddr \<Rightarrow> vaddr \<Rightarrow> bool \<Rightarrow> vmem \<Rightarrow> vmem option" where
  "unmap_pages pml4 start end' free_imm st = do {
     kassert (PML4X start \<le> PML4X (end' - 1));
     unmap_loop pml4 start end' (PML4X start) (PDPTX start) free_imm st
   }"

section \<open>The operations on a vpmap\<close>

definition vpmap_load :: "nat \<Rightarrow> vmem \<Rightarrow> err \<times> vmem" where
  "vpmap_load vpmap st = (ERR_OK, st\<lparr>cr3 := vpmap\<rparr>)"

text \<open>The kernel mappings of \<^verbatim>\<open>vpmap_init\<close>: virtual address, physical start and end, permission. \<open>data\<close> is the address of the kernel's
  data section, set by the linker.\<close>

definition kernel_mappings :: "vaddr \<Rightarrow> paddr \<Rightarrow> (vaddr \<times> paddr \<times> paddr \<times> u64) list" where
  "kernel_mappings data pend =
     [(KMAP_BASE, 0, 0x00100000, PTE_W),
      (KMAP_BASE + 0x00100000, 0x00100000, data - KMAP_BASE, 0),
      (data, data - KMAP_BASE, pend, PTE_W),
      (0xFFFFFFFFFE000000, 0xFE000000, 0x100000000, PTE_W)]"

fun map_all :: "nat \<Rightarrow> (vaddr \<times> paddr \<times> paddr \<times> u64) list \<Rightarrow> vmem \<Rightarrow> vmem option" where
  "map_all pml4 [] st = Some st"
| "map_all pml4 ((v, p, e, perm) # ms) st = do {
     (er, st) \<leftarrow> map_pages pml4 v p (e - p) perm st;
     kassert (er = ERR_OK);
     map_all pml4 ms st
   }"

text \<open>The result is the kernel vpmap.\<close>

definition vpmap_init :: "vaddr \<Rightarrow> vmem \<Rightarrow> (nat \<times> vmem) option" where
  "vpmap_init data st = do {
     (er, pa, p) \<leftarrow> pmem_alloc (pm st);
     kassert (er = ERR_OK);
     let kvpmap = paddr_to_page pa;
     let st = zero_frame kvpmap (st\<lparr>pm := p\<rparr>);
     st \<leftarrow> map_all kvpmap (kernel_mappings data (of_nat (pmem_end (pm st)))) st;
     let (er, st) = vpmap_load kvpmap st;
     kassert (er = ERR_OK);
     Some (kvpmap, st)
   }"

text \<open>\<open>have_struct\<close>: whether the cache of \<^verbatim>\<open>struct vpmap\<close> could deliver one; the inner \<open>None\<close> is the null pointer.\<close>

definition vpmap_create :: "bool \<Rightarrow> vmem \<Rightarrow> (nat option \<times> vmem) option" where
  "vpmap_create have_struct st =
     (if \<not> have_struct then Some (None, st)
      else do {
        (er, pa, p) \<leftarrow> pmem_alloc (pm st);
        let st = st\<lparr>pm := p\<rparr>;
        (if er \<noteq> ERR_OK then Some (None, st)
         else Some (Some (paddr_to_page pa), zero_frame (paddr_to_page pa) st))
      })"

definition vpmap_map :: "nat \<Rightarrow> vaddr \<Rightarrow> paddr \<Rightarrow> u64 \<Rightarrow> memperm \<Rightarrow> vmem \<Rightarrow> (err \<times> vmem) option" where
  "vpmap_map vpmap vaddr paddr n perm st =
     (if n = 0 then Some (ERR_OK, st)
      else map_pages vpmap (pg_round_down vaddr) (pg_round_down paddr) (n * pg_size) (memperm_to_pteperm perm) st)"

definition vpmap_unmap :: "nat option \<Rightarrow> vaddr \<Rightarrow> u64 \<Rightarrow> vmem \<Rightarrow> vmem option" where
  "vpmap_unmap vpmap vaddr n st =
     (case vpmap of
        None \<Rightarrow> Some st
      | Some pml4 \<Rightarrow>
          if n = 0 then Some st
          else do {
            let start = pg_round_down vaddr;
            let end' = start + n * pg_size;
            kassert (PML4X start \<le> PML4X end');
            unmap_pages pml4 start end' False st
          })"

definition vpmap_destroy :: "nat \<Rightarrow> nat option \<Rightarrow> vmem \<Rightarrow> vmem option" where
  "vpmap_destroy kvpmap vpmap st =
     (case vpmap of
        None \<Rightarrow> Some st
      | Some pml4 \<Rightarrow> do {
          kassert (pml4 \<noteq> kvpmap);
          st \<leftarrow> unmap_pages pml4 0 USTACK_UPPERBOUND True st;
          p \<leftarrow> pmem_free (page_to_paddr pml4) (pm st);
          Some (st\<lparr>pm := p\<rparr>)
        })"

fun vpmap_copy_loop :: "nat \<Rightarrow> nat \<Rightarrow> vaddr \<Rightarrow> vaddr \<Rightarrow> nat \<Rightarrow> u64 \<Rightarrow> vmem \<Rightarrow> (err \<times> vmem) option" where
  "vpmap_copy_loop srcp dstp srcaddr dstaddr 0 perm st = Some (ERR_OK, st)"
| "vpmap_copy_loop srcp dstp srcaddr dstaddr (Suc n) perm st = do {
     (src_pte, st) \<leftarrow> find_pte srcp srcaddr False st;
     (case src_pte of
        None \<Rightarrow> vpmap_copy_loop srcp dstp (srcaddr + pg_size) (dstaddr + pg_size) n perm st
      | Some (tab, i) \<Rightarrow>
          if PPN (tabs st tab i) = 0 then vpmap_copy_loop srcp dstp (srcaddr + pg_size) (dstaddr + pg_size) n perm st
          else do {
            (dst_pte, st) \<leftarrow> find_pte dstp dstaddr True st;
            (case dst_pte of
               None \<Rightarrow> Some (ERR_VPMAP_MAP, st)
             | Some (dtab, j) \<Rightarrow>
                 if PPN (tabs st dtab j) \<noteq> 0 then Some (ERR_VPMAP_MAP, st)
                 else do {
                   (er, pa, p) \<leftarrow> pmem_alloc (pm st);
                   let st = st\<lparr>pm := p\<rparr>;
                   (if er \<noteq> ERR_OK then Some (er, st)
                    else
                      let st = st\<lparr>tabs := (tabs st)(paddr_to_page pa := tabs st (entry_frame (tabs st tab i)))\<rparr>;
                          st = set_entry dtab j (PPN (of_nat pa) OR PTE_P OR perm) st in
                      vpmap_copy_loop srcp dstp (srcaddr + pg_size) (dstaddr + pg_size) n perm st)
                 })
          })
   }"

definition vpmap_copy :: "nat \<Rightarrow> nat \<Rightarrow> vaddr \<Rightarrow> vaddr \<Rightarrow> nat \<Rightarrow> memperm \<Rightarrow> vmem \<Rightarrow> (err \<times> vmem) option" where
  "vpmap_copy srcp dstp srcaddr dstaddr n perm st =
     vpmap_copy_loop srcp dstp (pg_round_down srcaddr) (pg_round_down dstaddr) n (memperm_to_pteperm perm) st"

fun cow_copy_loop :: "nat \<Rightarrow> nat \<Rightarrow> vaddr \<Rightarrow> vaddr \<Rightarrow> nat \<Rightarrow> vmem \<Rightarrow> (err \<times> vmem) option" where
  "cow_copy_loop srcp dstp srcaddr dstaddr 0 st = Some (ERR_OK, st)"
| "cow_copy_loop srcp dstp srcaddr dstaddr (Suc n) st = do {
     (src_pte, st) \<leftarrow> find_pte srcp srcaddr False st;
     (case src_pte of
        None \<Rightarrow> cow_copy_loop srcp dstp (srcaddr + pg_size) (dstaddr + pg_size) n st
      | Some (tab, i) \<Rightarrow>
          if PPN (tabs st tab i) = 0 then cow_copy_loop srcp dstp (srcaddr + pg_size) (dstaddr + pg_size) n st
          else do {
            let st = set_entry tab i (NOT PTE_W AND tabs st tab i) st;
            p \<leftarrow> pmem_inc_refcnt (unat (ENTRY_ADDR (tabs st tab i))) 1 (pm st);
            let st = st\<lparr>pm := p\<rparr>;
            (dst_pte, st) \<leftarrow> find_pte dstp dstaddr True st;
            (case dst_pte of
               None \<Rightarrow> Some (ERR_VPMAP_MAP, st)
             | Some (dtab, j) \<Rightarrow>
                 if PPN (tabs st dtab j) \<noteq> 0 then Some (ERR_VPMAP_MAP, st)
                 else cow_copy_loop srcp dstp (srcaddr + pg_size) (dstaddr + pg_size) n (set_entry dtab j (tabs st tab i) st))
          })
   }"

definition vpmap_cow_copy :: "nat \<Rightarrow> nat \<Rightarrow> vaddr \<Rightarrow> vaddr \<Rightarrow> nat \<Rightarrow> vmem \<Rightarrow> (err \<times> vmem) option" where
  "vpmap_cow_copy srcp dstp srcaddr dstaddr n st =
     cow_copy_loop srcp dstp (pg_round_down srcaddr) (pg_round_down dstaddr) n st"

definition vpmap_copy_kernel_mapping :: "nat \<Rightarrow> nat \<Rightarrow> vmem \<Rightarrow> err \<times> vmem" where
  "vpmap_copy_kernel_mapping kvpmap dstvpmap st =
     (ERR_OK, fold (\<lambda>i st. if tabs st kvpmap i AND PTE_P \<noteq> 0 then set_entry dstvpmap i (tabs st kvpmap i) st else st)
                [PML4X KMAP_BASE..<512] st)"

text \<open>The swap identifier is always \<^verbatim>\<open>SWAPID_NONE\<close>; \<^verbatim>\<open>PADDR_NONE\<close> is 0.\<close>

definition vpmap_lookup_vaddr :: "nat \<Rightarrow> vaddr \<Rightarrow> vmem \<Rightarrow> (err \<times> paddr) option" where
  "vpmap_lookup_vaddr vpmap vaddr st = do {
     (r, st) \<leftarrow> find_pte vpmap vaddr False st;
     Some (case r of
             None \<Rightarrow> (ERR_VPMAP_NOTPRESENT, 0)
           | Some (tab, i) \<Rightarrow>
               if tabs st tab i AND PTE_P \<noteq> 0 then (ERR_OK, PPN (tabs st tab i) + (vaddr - VPN vaddr))
               else (ERR_VPMAP_NOTPRESENT, 0))
   }"

definition kmap_v2p :: "paddr \<Rightarrow> vaddr \<Rightarrow> paddr option" where
  "kmap_v2p pend vaddr = do {
     kassert (vaddr \<ge> KMAP_BASE \<and> vaddr < KMAP_BASE + pend);
     Some (vaddr - KMAP_BASE)
   }"

definition kmap_p2v :: "paddr \<Rightarrow> vaddr" where "kmap_p2v paddr = paddr + KMAP_BASE"
definition kmap_io2v :: "paddr \<Rightarrow> vaddr" where "kmap_io2v paddr = paddr + 0xFFFFFFFF00000000"

fun set_perm_loop :: "nat \<Rightarrow> vaddr \<Rightarrow> nat \<Rightarrow> nat \<Rightarrow> u64 \<Rightarrow> vmem \<Rightarrow> vmem option" where
  "set_perm_loop vpmap vaddr i 0 perm st = Some st"
| "set_perm_loop vpmap vaddr i (Suc n) perm st = do {
     (r, st) \<leftarrow> find_pte vpmap (vaddr + of_nat i * pg_size) False st;
     (let st = (case r of
         None \<Rightarrow> st
       | Some (tab, j) \<Rightarrow> set_entry tab j (PPN (tabs st tab j) OR (ENTRY_FLAGS (tabs st tab j) AND PTE_P) OR perm) st) in
      set_perm_loop vpmap vaddr (i + 1) n perm st)
   }"

definition vpmap_set_perm :: "nat \<Rightarrow> vaddr \<Rightarrow> nat \<Rightarrow> memperm \<Rightarrow> vmem \<Rightarrow> vmem option" where
  "vpmap_set_perm vpmap vaddr n perm st = set_perm_loop vpmap (pg_round_down vaddr) 0 n (memperm_to_pteperm perm) st"

definition vpmap_set_dirty :: "nat \<Rightarrow> vaddr \<Rightarrow> vmem \<Rightarrow> vmem option" where
  "vpmap_set_dirty vpmap vaddr st = do {
     (r, st) \<leftarrow> find_pte vpmap vaddr False st;
     Some (case r of None \<Rightarrow> st | Some (tab, i) \<Rightarrow> set_entry tab i (tabs st tab i OR PTE_D) st)
   }"

definition vpmap_get_dirty :: "nat \<Rightarrow> vaddr \<Rightarrow> vmem \<Rightarrow> (err \<times> u64) option" where
  "vpmap_get_dirty vpmap vaddr st = do {
     (r, st) \<leftarrow> find_pte vpmap vaddr False st;
     Some (case r of None \<Rightarrow> (ERR_VPMAP_NOTPRESENT, 0) | Some (tab, i) \<Rightarrow> (ERR_OK, tabs st tab i AND PTE_D))
   }"

definition vpmap_get_accessed :: "nat \<Rightarrow> vaddr \<Rightarrow> vmem \<Rightarrow> (err \<times> u64) option" where
  "vpmap_get_accessed vpmap vaddr st = do {
     (r, st) \<leftarrow> find_pte vpmap vaddr False st;
     Some (case r of None \<Rightarrow> (ERR_VPMAP_NOTPRESENT, 0) | Some (tab, i) \<Rightarrow> (ERR_OK, tabs st tab i AND PTE_A))
   }"

text \<open>\<open>current\<close> is the vpmap of the running process, if there is one.\<close>

definition vpmap_flush_tlb :: "nat \<Rightarrow> nat option \<Rightarrow> vmem \<Rightarrow> vmem" where
  "vpmap_flush_tlb kvpmap current st = st\<lparr>cr3 := (case current of None \<Rightarrow> kvpmap | Some p \<Rightarrow> p)\<rparr>"

end
