(* ===== verification/Pagetable.thy ===== *)
theory Pagetable
  imports Vpmap Boot "HOL-Library.Sublist"
begin

text \<open>
  Correctness of the page tables of \<open>Vpmap\<close>. The tables below the top level tables form a forest whose nodes are
  different frames, none of them free. Walking with allocation adds empty tables and keeps every translation; storing
  an entry changes the translation of exactly one page.
\<close>

section \<open>Bits of entries and addresses\<close>

lemma mask_12: "(0xFFF :: u64) = mask 12" and mask_9: "(0x1FF :: u64) = mask 9"
  by (simp_all add: mask_eq_exp_minus_1)

lemma high_mask: "(0xFFF8000000000000 :: u64) = NOT (mask 51)"
proof -
  have "(0xFFF8000000000000 :: u64) = - (2 ^ 51)" by simp
  also have "\<dots> = NOT (mask 51)" by (simp add: mask_eq_exp_minus_1 not_eq_complement)
  finally show ?thesis .
qed

lemma bit_ENTRY_ADDR: "bit (ENTRY_ADDR e) n \<longleftrightarrow> 12 \<le> n \<and> n < 51 \<and> bit e n"
  unfolding ENTRY_ADDR_def mask_12 high_mask by (auto simp: bit_simps dest: bit_imp_le_length)

lemma PPN_ENTRY: "PPN e = ENTRY_ADDR e"
  by (simp add: PPN_def ENTRY_ADDR_def)

lemma bit_frame_addr: "bit (of_nat (page_to_paddr f) :: u64) n \<longleftrightarrow> 12 \<le> n \<and> n < 64 \<and> bit f (n - 12)"
proof -
  have "(of_nat (page_to_paddr f) :: u64) = push_bit 12 (of_nat f)"
    by (simp add: page_to_paddr_def push_bit_eq_mult)
  then show ?thesis by (auto simp: bit_simps)
qed

lemma small_bits: "w < 2 ^ k \<Longrightarrow> bit (w :: nat) n \<Longrightarrow> n < k"
  by (metis bit_take_bit_iff take_bit_nat_eq_self)

lemma entry_addr_or:
  assumes "f < 2 ^ 39" "\<And>n. bit w n \<Longrightarrow> n < 12"
  shows "ENTRY_ADDR (of_nat (page_to_paddr f) OR w) = of_nat (page_to_paddr f)"
proof (rule bit_eqI)
  fix n
  have "bit f (n - 12) \<Longrightarrow> n - 12 < 39" using small_bits [OF assms(1)] by blast
  then show "bit (ENTRY_ADDR (of_nat (page_to_paddr f) OR w)) n = bit (of_nat (page_to_paddr f) :: u64) n"
    using assms(2) [of n] by (auto simp: bit_ENTRY_ADDR bit_or_iff bit_frame_addr)
qed

lemma bit_flags: "bit (7 :: u64) n \<Longrightarrow> n < 12"
proof -
  have "(7 :: u64) = mask 3" by (simp add: mask_eq_exp_minus_1)
  then show "bit (7 :: u64) n \<Longrightarrow> n < 12" by (simp only: bit_mask_iff) linarith
qed

lemma unat_frame_addr: "f < 2 ^ 39 \<Longrightarrow> unat (of_nat (page_to_paddr f) :: u64) = page_to_paddr f"
proof -
  assume "f < 2 ^ 39"
  then have "page_to_paddr f < 2 ^ 64" by (simp add: page_to_paddr_def)
  then show "unat (of_nat (page_to_paddr f) :: u64) = page_to_paddr f" by (simp add: unat_of_nat)
qed

lemma entry_of_frame:
  assumes "f < 2 ^ 39"
  shows "entry_frame (of_nat (page_to_paddr f) OR 1 OR 2 OR 4) = f"
proof -
  have "of_nat (page_to_paddr f) OR 1 OR 2 OR 4 = of_nat (page_to_paddr f) OR (7 :: u64)" by (simp add: or.assoc)
  moreover have "ENTRY_ADDR (of_nat (page_to_paddr f) OR 7) = of_nat (page_to_paddr f)"
    by (rule entry_addr_or [OF assms]) (rule bit_flags)
  ultimately have "entry_frame (of_nat (page_to_paddr f) OR 1 OR 2 OR 4) = page_to_paddr f div PG"
    unfolding entry_frame_def using unat_frame_addr [OF assms] by simp
  then show ?thesis by (simp add: page_to_paddr_def)
qed

lemma present_entry: "(x OR 1 OR y OR z :: u64) AND 1 \<noteq> 0" "(x OR 1 OR y :: u64) AND 1 \<noteq> 0"
proof -
  have "bit ((x OR 1 OR y OR z :: u64) AND 1) 0" "bit ((x OR 1 OR y :: u64) AND 1) 0" by (simp_all add: bit_simps)
  then show "(x OR 1 OR y OR z :: u64) AND 1 \<noteq> 0" "(x OR 1 OR y :: u64) AND 1 \<noteq> 0" by (metis bit_0_eq bot_apply bot_bool_def)+
qed

lemma ENTRY_IDX_unat: "s < 64 \<Longrightarrow> ENTRY_IDX v s = unat v div 2 ^ s mod 512"
proof -
  assume s: "s < 64"
  have "drop_bit s v AND 0x1FF = take_bit 9 (drop_bit s v)" unfolding mask_9 by (simp only: take_bit_eq_mask)
  then have "ENTRY_IDX v s = take_bit 9 (unat (drop_bit s v))" unfolding ENTRY_IDX_def by (simp only: unsigned_take_bit_eq)
  moreover have "unat (drop_bit s v) = unat v div 2 ^ s"
  proof -
    have "(2 :: nat) ^ s < 2 ^ 64" using s by (intro power_strict_increasing) auto
    then have "unat (of_nat (2 ^ s) :: u64) = 2 ^ s" unfolding unat_of_nat by simp
    then have "unat (2 ^ s :: u64) = 2 ^ s" by simp
    then show ?thesis by (simp add: drop_bit_eq_div unat_div)
  qed
  ultimately show ?thesis by (simp add: take_bit_eq_mod)
qed

section \<open>Pages and paths\<close>

definition page_no :: "vaddr \<Rightarrow> nat" where
  "page_no v = unat v div PG mod 2 ^ 36"

definition path :: "vaddr \<Rightarrow> nat list" where
  "path v = [PML4X v, PDPTX v, PDX v]"

lemma page_digits:
  "PTX v = page_no v mod 512" "PDX v = page_no v div 512 mod 512" "PDPTX v = page_no v div 2 ^ 18 mod 512"
  "PML4X v = page_no v div 2 ^ 27"
proof -
  have d: "unat v div 2 ^ (12 + k) mod 512 = unat v div 2 ^ 12 mod 2 ^ 36 div 2 ^ k mod 512" if "k + 9 \<le> 36" for k
  proof -
    have "unat v div 2 ^ (12 + k) = unat v div 2 ^ 12 div 2 ^ k" by (simp add: power_add div_mult2_eq)
    moreover have "x mod 2 ^ 36 div 2 ^ k mod 2 ^ 9 = x div 2 ^ k mod 2 ^ 9" for x :: nat
    proof -
      have "x mod (2 ^ k * 2 ^ (36 - k)) div 2 ^ k = x div 2 ^ k mod 2 ^ (36 - k)" by (simp add: mod_mult2_eq)
      moreover have "(2 :: nat) ^ k * 2 ^ (36 - k) = 2 ^ 36" using that by (simp flip: power_add)
      moreover have "(2 :: nat) ^ 9 dvd 2 ^ (36 - k)" using that by (intro le_imp_power_dvd) simp
      ultimately show ?thesis by (simp add: mod_mod_cancel)
    qed
    ultimately show ?thesis by simp
  qed
  show "PTX v = page_no v mod 512" using d [of 0] by (simp add: ENTRY_IDX_unat page_no_def)
  show "PDX v = page_no v div 512 mod 512" using d [of 9] by (simp add: ENTRY_IDX_unat page_no_def)
  show "PDPTX v = page_no v div 2 ^ 18 mod 512" using d [of 18] by (simp add: ENTRY_IDX_unat page_no_def)
  have "page_no v div 2 ^ 27 < 512" by (simp add: page_no_def less_mult_imp_div_less)
  then show "PML4X v = page_no v div 2 ^ 27" using d [of 27] by (simp add: ENTRY_IDX_unat page_no_def)
qed

lemma div_mod_eqI: "x div m = y div m \<Longrightarrow> x mod m = y mod m \<Longrightarrow> x = (y :: nat)"
  by (metis div_mult_mod_eq)

lemma same_page: "path v = path w \<and> PTX v = PTX w \<longleftrightarrow> page_no v = page_no w"
proof
  have e: "n div 2 ^ 27 = n div 2 ^ 18 div 512" "n div 2 ^ 18 = n div 512 div 512" for n :: nat
    by (simp_all add: div_mult2_eq [symmetric])
  assume "path v = path w \<and> PTX v = PTX w"
  then have d: "page_no v div 2 ^ 27 = page_no w div 2 ^ 27" "page_no v div 2 ^ 18 mod 512 = page_no w div 2 ^ 18 mod 512"
      "page_no v div 512 mod 512 = page_no w div 512 mod 512" "page_no v mod 512 = page_no w mod 512"
    by (simp_all add: path_def page_digits)
  have "page_no v div 2 ^ 18 = page_no w div 2 ^ 18" using d(1,2) unfolding e(1) by (rule div_mod_eqI)
  then have "page_no v div 512 = page_no w div 512" using d(3) unfolding e(2) by (rule div_mod_eqI)
  then show "page_no v = page_no w" using d(4) by (rule div_mod_eqI)
qed (simp add: path_def page_digits)

section \<open>The forest of tables\<close>

type_synonym tables = "nat \<Rightarrow> nat \<Rightarrow> u64"

fun node :: "tables \<Rightarrow> nat \<Rightarrow> nat list \<Rightarrow> nat option" where
  "node m r [] = Some r"
| "node m r (i # p) = (if m r i AND 1 = 0 then None else node m (entry_frame (m r i)) p)"

lemma node_append: "node m r (p @ q) = Option.bind (node m r p) (\<lambda>f. node m f q)"
  by (induction p arbitrary: r) auto

lemma node_snoc:
  "node m r (p @ [i]) = (case node m r p of None \<Rightarrow> None | Some f \<Rightarrow> if m f i AND 1 = 0 then None else Some (entry_frame (m f i)))"
  by (simp add: node_append split: option.split)

text \<open>User paths: the last entry of a top level table belongs to the kernel mapping, which all processes share.\<close>

definition upath :: "nat list \<Rightarrow> bool" where
  "upath p \<longleftrightarrow> length p \<le> 3 \<and> (\<forall>i\<in>set p. i < 512) \<and> (p \<noteq> [] \<longrightarrow> hd p < 511)"

definition user_page :: "vaddr \<Rightarrow> bool" where
  "user_page v \<longleftrightarrow> PML4X v < 511"

lemma upath_prefix: "upath (p @ q) \<Longrightarrow> upath p"
  by (auto simp: upath_def hd_append split: if_splits)

lemma idx_less: "s < 64 \<Longrightarrow> ENTRY_IDX v s < 512"
  by (simp add: ENTRY_IDX_unat)

lemma upath_path: "user_page v \<Longrightarrow> upath (path v)"
  by (simp add: upath_def path_def user_page_def idx_less)

definition pt_inv :: "tables \<Rightarrow> nat set \<Rightarrow> nat set \<Rightarrow> bool" where
  "pt_inv m R F \<longleftrightarrow>
     (\<forall>r\<in>R. \<forall>r'\<in>R. \<forall>p q f. upath p \<longrightarrow> upath q \<longrightarrow> node m r p = Some f \<longrightarrow> node m r' q = Some f \<longrightarrow> r = r' \<and> p = q)
     \<and> (\<forall>r\<in>R. \<forall>p f. upath p \<longrightarrow> node m r p = Some f \<longrightarrow> f \<notin> F)"

lemma pt_invD:
  assumes "pt_inv m R F"
  shows "\<lbrakk>r \<in> R; r' \<in> R; upath p; upath q; node m r p = Some f; node m r' q = Some f\<rbrakk> \<Longrightarrow> r = r' \<and> p = q"
    "\<lbrakk>r \<in> R; upath p; node m r p = Some f\<rbrakk> \<Longrightarrow> f \<notin> F"
  using assms unfolding pt_inv_def by blast+

definition xlate :: "tables \<Rightarrow> nat \<Rightarrow> vaddr \<Rightarrow> u64 option" where
  "xlate m r v =
     (case node m r (path v) of None \<Rightarrow> None | Some f \<Rightarrow> if m f (PTX v) AND 1 = 0 then None else Some (m f (PTX v)))"

text \<open>The frames that are tables of user pages.\<close>

definition nodes :: "nat set \<Rightarrow> tables \<Rightarrow> nat set" where
  "nodes R m = {f. \<exists>r\<in>R. \<exists>p. upath p \<and> node m r p = Some f}"

lemma nodesI: "r \<in> R \<Longrightarrow> upath p \<Longrightarrow> node m r p = Some f \<Longrightarrow> f \<in> nodes R m"
  by (auto simp: nodes_def)

lemma node_new_table:
  assumes inv: "pt_inv m R F" and r: "r \<in> R" "upath (p @ [i])" "node m r p = Some tab" and f: "f \<in> F" "entry_frame e = f" "e AND 1 \<noteq> 0"
    and r': "r' \<in> R" "upath q"
  defines "m' \<equiv> (m(f := (\<lambda>_. 0)))(tab := ((m(f := (\<lambda>_. 0))) tab)(i := e))"
  shows "node m' r' q = (if r' = r \<and> prefix (p @ [i]) q then (if q = p @ [i] then Some f else None) else node m r' q)"
  using r'(2)
proof (induction q rule: rev_induct)
  case (snoc j q)
  have q: "upath q" using snoc.prems by (rule upath_prefix)
  have tF: "tab \<notin> F" using pt_invD(2) [OF inv r(1) upath_prefix [OF r(2)] r(3)] .
  then have tf: "tab \<noteq> f" using f(1) by blast
  have mf: "m' f = (\<lambda>_. 0)" "m' tab = (m tab)(i := e)" "\<And>g. g \<noteq> f \<Longrightarrow> g \<noteq> tab \<Longrightarrow> m' g = m g"
    using tf by (auto simp: m'_def)
  note IH = snoc.IH [OF q]
  show ?case
  proof (cases "r' = r \<and> prefix (p @ [i]) q")
    case True
    then have "prefix (p @ [i]) (q @ [j])" "q @ [j] \<noteq> p @ [i]" by auto
    then show ?thesis using True IH mf(1) by (simp add: node_snoc)
  next
    case False
    have eq: "node m' r' q = node m r' q" using IH False by simp
    show ?thesis
    proof (cases "node m r' q")
      case None
      then have "\<not> (r' = r \<and> q = p)" using r(3) by auto
      then show ?thesis using None eq False by (auto simp: node_snoc)
    next
      case (Some g)
      have gF: "g \<noteq> f" using pt_invD(2) [OF inv r'(1) q Some] f(1) by blast
      show ?thesis
      proof (cases "g = tab")
        case True
        then have "r' = r \<and> q = p"
          using pt_invD(1) [OF inv r'(1) r(1) q upath_prefix [OF r(2)] Some] r(3) by simp
        then show ?thesis using True Some eq mf(2) f(2,3) by (auto simp: node_snoc)
      next
        case g: False
        then have "\<not> (r' = r \<and> q @ [j] = p @ [i])" using Some r(3) by auto
        then have "\<not> (r' = r \<and> prefix (p @ [i]) (q @ [j]))" using False by auto
        then show ?thesis using Some eq mf(3) [OF gF g] by (auto simp: node_snoc)
      qed
    qed
  qed
qed (use r in auto)

lemma new_table:
  assumes inv: "pt_inv m R F" and r: "r \<in> R" "upath (p @ [i])" "node m r p = Some tab" "m tab i AND 1 = 0"
    and f: "f \<in> F" "entry_frame e = f" "e AND 1 \<noteq> 0"
  defines "m' \<equiv> (m(f := (\<lambda>_. 0)))(tab := ((m(f := (\<lambda>_. 0))) tab)(i := e))"
  shows "pt_inv m' R (F - {f})" "node m' r (p @ [i]) = Some f" "nodes R m' \<subseteq> insert f (nodes R m)"
    "r' \<in> R \<Longrightarrow> user_page w \<Longrightarrow> xlate m' r' w = xlate m r' w"
proof -
  have n: "node m' r' q = (if r' = r \<and> prefix (p @ [i]) q then (if q = p @ [i] then Some f else None) else node m r' q)"
    if "r' \<in> R" "upath q" for r' q
    unfolding m'_def by (rule node_new_table [OF inv r(1-3) f that])
  have none: "node m r (p @ [i]) = None" using r(3,4) by (simp add: node_snoc)
  have old: "g \<notin> F" if "r' \<in> R" "upath q" "node m r' q = Some g" for r' q g using pt_invD(2) [OF inv that] .
  show "pt_inv m' R (F - {f})"
    unfolding pt_inv_def
  proof (intro conjI ballI allI impI)
    fix r1 r2 p1 p2 g
    assume a: "r1 \<in> R" "r2 \<in> R" "upath p1" "upath p2" "node m' r1 p1 = Some g" "node m' r2 p2 = Some g"
    have "r1 = r2 \<and> p1 = p2"
      using a(5,6) n [OF a(1,3)] n [OF a(2,4)] pt_invD(1) [OF inv a(1-4)] old [OF a(1,3)] old [OF a(2,4)] f(1)
      by (auto split: if_splits)
    then show "r1 = r2" "p1 = p2" by auto
  next
    fix r1 p1 g assume a: "r1 \<in> R" "upath p1" "node m' r1 p1 = Some g"
    then show "g \<notin> F - {f}" using n [OF a(1,2)] old [OF a(1,2)] by (auto split: if_splits)
  qed
  show "node m' r (p @ [i]) = Some f" using n [OF r(1,2)] by simp
  show "nodes R m' \<subseteq> insert f (nodes R m)"
  proof
    fix g assume "g \<in> nodes R m'"
    then obtain r1 p1 where a: "r1 \<in> R" "upath p1" "node m' r1 p1 = Some g" by (auto simp: nodes_def)
    then show "g \<in> insert f (nodes R m)" using n [OF a(1,2)] nodesI [OF a(1,2)] by (auto split: if_splits)
  qed
  assume w: "r' \<in> R" "user_page w"
  note pw = upath_path [OF w(2)]
  have tF: "tab \<notin> F" using old [OF r(1) upath_prefix [OF r(2)] r(3)] .
  have mf: "m' f = (\<lambda>_. 0)" "\<And>g. g \<noteq> f \<Longrightarrow> g \<noteq> tab \<Longrightarrow> m' g = m g"
    using tF f(1) by (auto simp: m'_def)
  show "xlate m' r' w = xlate m r' w"
  proof (cases "r' = r \<and> prefix (p @ [i]) (path w)")
    case True
    then obtain t where t: "path w = (p @ [i]) @ t" by (auto simp: prefix_def)
    have "node m r' (path w) = Option.bind (node m r (p @ [i])) (\<lambda>f. node m f t)"
      unfolding t using True node_append [of m r "p @ [i]" t] by blast
    then have "node m r' (path w) = None" using none by simp
    then show ?thesis using n [OF w(1) pw] True mf(1) by (auto simp: xlate_def split: if_splits)
  next
    case False
    then have e: "node m' r' (path w) = node m r' (path w)" unfolding n [OF w(1) pw] by (rule if_not_P)
    show ?thesis
    proof (cases "node m r' (path w)")
      case (Some g)
      have "g \<noteq> tab"
      proof
        assume "g = tab"
        then have "path w = p" using pt_invD(1) [OF inv w(1) r(1) pw upath_prefix [OF r(2)] Some] r(3) by simp
        then show False using r(2) by (auto simp: path_def upath_def)
      qed
      moreover have "g \<noteq> f" using old [OF w(1) pw Some] f(1) by blast
      ultimately show ?thesis using e Some mf(2) by (simp add: xlate_def)
    qed (use e in \<open>simp add: xlate_def\<close>)
  qed
qed

text \<open>Changing a page table, the lowest level, changes no table.\<close>

lemma leaf_nodes:
  assumes inv: "pt_inv m R F" and r: "r \<in> R" "user_page v" "node m r (path v) = Some tab" and r': "r' \<in> R" "upath q"
  shows "node (m(tab := t)) r' q = node m r' q"
  using r'(2)
proof (induction q rule: rev_induct)
  case (snoc j q)
  have q: "upath q" "length q < 3" using snoc.prems upath_prefix [OF snoc.prems] by (auto simp: upath_def)
  show ?case
  proof (cases "node m r' q")
    case (Some g)
    have "g \<noteq> tab"
      using pt_invD(1) [OF inv r'(1) r(1) q(1) upath_path [OF r(2)] Some] r(3) q(2) by (auto simp: path_def)
    then show ?thesis using snoc.IH [OF q(1)] Some by (simp add: node_snoc)
  qed (use snoc.IH [OF q(1)] in \<open>simp add: node_snoc\<close>)
qed simp

lemma leaf_store:
  fixes e :: u64
  assumes inv: "pt_inv m R F" and r: "r \<in> R" "user_page v" "node m r (path v) = Some tab"
  defines "m' \<equiv> m(tab := (m tab)(PTX v := e))"
  shows "r' \<in> R \<Longrightarrow> upath q \<Longrightarrow> node m' r' q = node m r' q" "pt_inv m' R F"
    "r' \<in> R \<Longrightarrow> user_page w \<Longrightarrow> xlate m' r' w =
       (if r' = r \<and> page_no w = page_no v then (if e AND 1 = 0 then None else Some e) else xlate m r' w)"
proof -
  note pv = upath_path [OF r(2)]
  have n: "node m' r' q = node m r' q" if "r' \<in> R" "upath q" for r' q
    unfolding m'_def by (rule leaf_nodes [OF inv r that])
  then show "r' \<in> R \<Longrightarrow> upath q \<Longrightarrow> node m' r' q = node m r' q" .
  show "pt_inv m' R F"
    unfolding pt_inv_def
  proof (intro conjI ballI allI impI)
    fix r1 r2 p1 p2 g
    assume a: "r1 \<in> R" "r2 \<in> R" "upath p1" "upath p2" "node m' r1 p1 = Some g" "node m' r2 p2 = Some g"
    then have "r1 = r2 \<and> p1 = p2" using pt_invD(1) [OF inv a(1-4)] n [OF a(1,3)] n [OF a(2,4)] by simp
    then show "r1 = r2" "p1 = p2" by auto
  next
    fix r1 p1 g assume a: "r1 \<in> R" "upath p1" "node m' r1 p1 = Some g"
    then show "g \<notin> F" using pt_invD(2) [OF inv a(1,2)] n [OF a(1,2)] by simp
  qed
  assume w: "r' \<in> R" "user_page w"
  note pw = upath_path [OF w(2)]
  show "xlate m' r' w = (if r' = r \<and> page_no w = page_no v then (if e AND 1 = 0 then None else Some e) else xlate m r' w)"
  proof (cases "node m r' (path w)")
    case None
    then have "\<not> (r' = r \<and> page_no w = page_no v)" using r(3) same_page [of w v] by auto
    then show ?thesis using None n [OF w(1) pw] by (simp add: xlate_def)
  next
    case (Some g)
    have "g = tab \<longleftrightarrow> r' = r \<and> path w = path v"
      using pt_invD(1) [OF inv w(1) r(1) pw pv Some] r(3) Some by auto
    then show ?thesis using Some n [OF w(1) pw] same_page [of w v] by (auto simp: xlate_def m'_def)
  qed
qed

section \<open>Walking and mapping\<close>

text \<open>A consistent state: frames, tables, and physical memory small enough for the address field of an entry.\<close>

definition vm_ok :: "nat set \<Rightarrow> vmem \<Rightarrow> bool" where
  "vm_ok R st \<longleftrightarrow> frames_ok (pm st) \<and> pt_inv (tabs st) R (free_frames (pm st)) \<and> free_frames (pm st) \<subseteq> {..<2 ^ 39}"

text \<open>\<open>st'\<close> has the same translations as \<open>st\<close>, free frames only left the free lists, the top level entry of the kernel half is the
  same, and so are the contents of frames that are neither tables nor free.\<close>

definition same_maps :: "nat set \<Rightarrow> vmem \<Rightarrow> vmem \<Rightarrow> bool" where
  "same_maps R st st' \<longleftrightarrow> (\<forall>r\<in>R. \<forall>w. user_page w \<longrightarrow> xlate (tabs st') r w = xlate (tabs st) r w)
     \<and> free_frames (pm st') \<subseteq> free_frames (pm st) \<and> (\<forall>g. owned (pm st) g \<longrightarrow> owned (pm st') g)
     \<and> nodes R (tabs st') \<subseteq> nodes R (tabs st) \<union> free_frames (pm st) \<and> (\<forall>r\<in>R. tabs st' r 511 = tabs st r 511)
     \<and> (\<forall>g. g \<notin> nodes R (tabs st) \<union> free_frames (pm st) \<longrightarrow> tabs st' g = tabs st g)"

lemma same_maps_refl: "same_maps R st st"
  by (simp add: same_maps_def)

lemma same_maps_trans: "same_maps R st t \<Longrightarrow> same_maps R t u \<Longrightarrow> same_maps R st u"
  unfolding same_maps_def by (elim conjE, intro conjI) (metis, blast, blast, blast, metis, metis Un_iff subsetD)

lemma walk_level_ok:
  assumes ok: "vm_ok R st" and r: "r \<in> R" "upath (p @ [i])" "node (tabs st) r p = Some tab"
  shows "\<exists>x st'. walk_level True tab i st = Some (x, st') \<and> vm_ok R st' \<and> same_maps R st st' \<and>
    (case x of None \<Rightarrow> free_frames (pm st') = {} | Some f \<Rightarrow> node (tabs st') r (p @ [i]) = Some f)"
proof (cases "tabs st tab i AND 1 = 0")
  case False
  then show ?thesis using ok r(3) same_maps_refl by (auto simp: walk_level_def node_snoc)
next
  case True
  have fo: "frames_ok (pm st)" and inv: "pt_inv (tabs st) R (free_frames (pm st))" and sm: "free_frames (pm st) \<subseteq> {..<2 ^ 39}"
    using ok by (simp_all add: vm_ok_def)
  show ?thesis
  proof (cases "free_frames (pm st) = {}")
    case e: True
    then have "walk_level True tab i st = Some (None, st)" using True fr.exhausted [OF fo e] by (simp add: walk_level_def)
    then show ?thesis using ok e same_maps_refl by auto
  next
    case False
    then obtain f s' where f: "pmem_alloc (pm st) = Some (ERR_OK, page_to_paddr f, s')" "frames_ok s'" "f \<in> free_frames (pm st)"
        "free_frames s' = free_frames (pm st) - {f}" "\<forall>g. owned (pm st) g \<longrightarrow> owned s' g"
      using fr.alloc_law [OF fo] by blast
    define e where "e = of_nat (page_to_paddr f) OR 1 OR 2 OR (4 :: u64)"
    have "f < 2 ^ 39" using f(3) sm by blast
    then have e1: "entry_frame e = f" unfolding e_def by (rule entry_of_frame)
    have e2: "e AND 1 \<noteq> 0" unfolding e_def by (rule present_entry)
    note e = e1 e2
    define st' where "st' = set_entry tab i e (zero_frame f (st\<lparr>pm := s'\<rparr>))"
    have t': "tabs st' = ((tabs st)(f := (\<lambda>_. 0)))(tab := (((tabs st)(f := (\<lambda>_. 0))) tab)(i := e))" "pm st' = s'"
      by (simp_all add: st'_def set_entry_def zero_frame_def)
    note nt = new_table [OF inv r True f(3) e, folded t'(1)]
    have "tabs st' tab i = e" by (simp add: t'(1))
    then have run: "walk_level True tab i st = Some (Some f, st')"
      using True f(1) e by (simp add: walk_level_def Let_def st'_def e_def)
    have okn: "vm_ok R st'" using nt(1) f(2,4) sm by (auto simp: vm_ok_def t'(2))
    have tn: "tab \<in> nodes R (tabs st)" by (rule nodesI [OF r(1) upath_prefix [OF r(2)] r(3)])
    have same: "tabs st' g = tabs st g" if "g \<notin> nodes R (tabs st) \<union> free_frames (pm st)" for g
      using that f(3) tn unfolding t'(1) by auto
    have root: "tabs st' r' 511 = tabs st r' 511" if "r' \<in> R" for r'
    proof -
      have root: "upath []" "node (tabs st) r' [] = Some r'" by (simp_all add: upath_def)
      have "r' \<noteq> f" using pt_invD(2) [OF inv that root] f(3) by blast
      moreover have "i \<noteq> 511" if "r' = tab"
        using pt_invD(1) [OF inv \<open>r' \<in> R\<close> r(1) root(1) upath_prefix [OF r(2)] root(2)] r(2,3) that by (auto simp: upath_def)
      ultimately show ?thesis unfolding t'(1) by auto
    qed
    have "same_maps R st st'" using nt(3,4) f(3,4,5) root same by (auto simp: same_maps_def t'(2))
    then show ?thesis using nt(2) okn run by auto
  qed
qed

lemma find_pte_alloc:
  assumes ok: "vm_ok R st" and r: "r \<in> R" and v: "user_page v"
  shows "\<exists>x st'. find_pte r v True st = Some (x, st') \<and> vm_ok R st' \<and> same_maps R st st' \<and>
    (case x of None \<Rightarrow> free_frames (pm st') = {} | Some (tab, i) \<Rightarrow> node (tabs st') r (path v) = Some tab \<and> i = PTX v)"
proof -
  have u: "upath ([PML4X v, PDPTX v] @ [PDX v])" using upath_path [OF v] by (simp add: path_def)
  have u1: "upath ([] @ [PML4X v])" using upath_prefix [of "[PML4X v]" "[PDPTX v, PDX v]"] u by simp
  have u2: "upath ([PML4X v] @ [PDPTX v])" using upath_prefix [OF u] by simp
  obtain x1 s1 where 1: "walk_level True r (PML4X v) st = Some (x1, s1)" "vm_ok R s1" "same_maps R st s1"
     "case x1 of None \<Rightarrow> free_frames (pm s1) = {} | Some f \<Rightarrow> node (tabs s1) r ([] @ [PML4X v]) = Some f"
    using walk_level_ok [OF ok r u1, of r] by auto
  show ?thesis
  proof (cases x1)
    case None
    then show ?thesis using 1 by (auto simp: find_pte_def)
  next
    case (Some f1)
    then have n1: "node (tabs s1) r [PML4X v] = Some f1" using 1(4) by simp
    obtain x2 s2 where 2: "walk_level True f1 (PDPTX v) s1 = Some (x2, s2)" "vm_ok R s2" "same_maps R s1 s2"
      "case x2 of None \<Rightarrow> free_frames (pm s2) = {} | Some f \<Rightarrow> node (tabs s2) r ([PML4X v] @ [PDPTX v]) = Some f"
      using walk_level_ok [OF 1(2) r u2 n1] by auto
    show ?thesis
    proof (cases x2)
      case None
      then show ?thesis using 1 2 Some same_maps_trans [OF 1(3) 2(3)] by (auto simp: find_pte_def)
    next
      case s2: (Some f2)
      then have n2: "node (tabs s2) r [PML4X v, PDPTX v] = Some f2" using 2(4) by simp
      obtain x3 s3 where 3: "walk_level True f2 (PDX v) s2 = Some (x3, s3)" "vm_ok R s3" "same_maps R s2 s3"
        "case x3 of None \<Rightarrow> free_frames (pm s3) = {} | Some f \<Rightarrow> node (tabs s3) r ([PML4X v, PDPTX v] @ [PDX v]) = Some f"
        using walk_level_ok [OF 2(2) r u n2] by auto
      have "same_maps R st s3" using same_maps_trans [OF same_maps_trans [OF 1(3) 2(3)] 3(3)] .
      then show ?thesis using 1(1) 2(1) 3 Some s2
        by (cases x3) (auto simp: find_pte_def path_def)
    qed
  qed
qed

lemma page_no_add: "page_no (v + of_nat k * 4096) = (page_no v + k) mod 2 ^ 36"
proof -
  have "unat (v + of_nat k * 4096) = (unat v + k * 4096) mod 2 ^ 64"
    by (simp add: unat_word_ariths unat_of_nat mod_add_right_eq mod_mult_left_eq)
  then have "page_no (v + of_nat k * 4096) = (unat v + k * 4096) mod (4096 * 2 ^ 52) div 4096 mod 2 ^ 36"
    by (simp add: page_no_def)
  also have "\<dots> = (unat v + k * 4096) div 4096 mod 2 ^ 52 mod 2 ^ 36" by (simp only: mod_mult2_eq) simp
  also have "\<dots> = (unat v div 4096 + k) mod 2 ^ 36" by (simp add: mod_mod_cancel add.commute)
  also have "\<dots> = (page_no v + k) mod 2 ^ 36" by (simp add: page_no_def mod_add_left_eq)
  finally show ?thesis .
qed

lemma page_no_less: "page_no v < 2 ^ 36"
  by (simp add: page_no_def)

lemma page_no_ne:
  assumes "0 < k" "k < 2 ^ 36"
  shows "page_no (v + of_nat k * 4096) \<noteq> page_no v"
proof
  assume "page_no (v + of_nat k * 4096) = page_no v"
  then have "(page_no v + k) mod 2 ^ 36 = page_no v mod 2 ^ 36" using page_no_less [of v] by (simp add: page_no_add)
  then have "2 ^ 36 dvd page_no v + k - page_no v" by (subst mod_eq_dvd_iff_nat [symmetric]) simp_all
  then show False using assms by (auto dest: dvd_imp_le)
qed

lemma xlate_page: "page_no v = page_no w \<Longrightarrow> xlate m r v = xlate m r w"
  using same_page [of v w] by (auto simp: xlate_def split: option.split)

lemma user_page_cong: "page_no v = page_no w \<Longrightarrow> user_page v = user_page w"
  by (simp add: user_page_def page_digits)

text \<open>The effect of mapping \<open>n\<close> pages from \<open>v\<close> in the space \<open>r\<close>: all other pages keep their translation.\<close>

definition kept_outside :: "nat set \<Rightarrow> nat \<Rightarrow> vaddr \<Rightarrow> nat \<Rightarrow> vmem \<Rightarrow> vmem \<Rightarrow> bool" where
  "kept_outside R r v n st st' \<longleftrightarrow> (\<forall>r'\<in>R. \<forall>w. user_page w \<longrightarrow>
     \<not> (r' = r \<and> (\<exists>k<n. page_no w = page_no (v + of_nat k * 4096))) \<longrightarrow> xlate (tabs st') r' w = xlate (tabs st) r' w)"

lemma keptD: "kept_outside R r v n st st' \<Longrightarrow> r' \<in> R \<Longrightarrow> user_page w \<Longrightarrow>
    (r' = r \<Longrightarrow> \<forall>k<n. page_no w \<noteq> page_no (v + of_nat k * 4096)) \<Longrightarrow> xlate (tabs st') r' w = xlate (tabs st) r' w"
  unfolding kept_outside_def by blast

lemma map_one:
  fixes x y :: u64
  assumes ok: "vm_ok R st" and r: "r \<in> R" and v: "user_page v" and n: "node (tabs st) r (path v) = Some tab"
  defines "st' \<equiv> set_entry tab (PTX v) (x OR 1 OR y) st"
  shows "vm_ok R st'" "xlate (tabs st') r v = Some (x OR 1 OR y)" "kept_outside R r v 1 st st'" "pm st' = pm st"
proof -
  have t: "tabs st' = (tabs st)(tab := (tabs st tab)(PTX v := x OR 1 OR y))" and p: "pm st' = pm st"
    by (simp_all add: st'_def set_entry_def)
  have inv: "pt_inv (tabs st) R (free_frames (pm st))" using ok by (simp add: vm_ok_def)
  note ls = leaf_store [OF inv r v n, where e = "x OR 1 OR y", folded t]
  show "vm_ok R st'" using ok ls(2) p by (simp add: vm_ok_def)
  show "xlate (tabs st') r v = Some (x OR 1 OR y)" using ls(3) [OF r v] present_entry(2) [of x y] by simp
  show "kept_outside R r v 1 st st'" using ls(3) by (auto simp: kept_outside_def)
  show "pm st' = pm st" by (rule p)
qed

lemma same_maps_kept: "same_maps R st t \<Longrightarrow> kept_outside R r v n t u \<Longrightarrow> kept_outside R r v n st u"
  unfolding same_maps_def kept_outside_def by metis

text \<open>A frame that is neither free nor a table may be filled with anything.\<close>

lemma node_agree:
  assumes "\<forall>g\<in>nodes R m. m' g = m g" "r \<in> R" "upath q"
  shows "node m' r q = node m r q"
  using assms(3)
proof (induction q rule: rev_induct)
  case (snoc j q)
  have q: "upath q" by (rule upath_prefix [OF snoc.prems])
  show ?case
  proof (cases "node m r q")
    case (Some g)
    then have "m' g = m g" using assms(1) nodesI [OF assms(2) q] by blast
    then show ?thesis using snoc.IH [OF q] Some by (simp add: node_snoc)
  qed (use snoc.IH [OF q] in \<open>simp add: node_snoc\<close>)
qed simp

lemma agree_tables:
  assumes "\<forall>g\<in>nodes R m. m' g = m g"
  shows "pt_inv m R F \<Longrightarrow> pt_inv m' R F" "nodes R m' = nodes R m"
    "r \<in> R \<Longrightarrow> user_page w \<Longrightarrow> xlate m' r w = xlate m r w"
proof -
  note n = node_agree [OF assms]
  show "pt_inv m R F \<Longrightarrow> pt_inv m' R F" unfolding pt_inv_def using n by simp
  show "nodes R m' = nodes R m" unfolding nodes_def using n by (metis (no_types, lifting))
  assume r: "r \<in> R" "user_page w"
  note p = upath_path [OF r(2)]
  show "xlate m' r w = xlate m r w"
    using n [OF r(1) p] assms nodesI [OF r(1) p] by (auto simp: xlate_def split: option.split)
qed

lemma fill_new_frame:
  fixes c :: "nat \<Rightarrow> u64"
  assumes ok: "vm_ok R st" and f: "frames_ok s'" "f \<in> free_frames (pm st)" "free_frames s' = free_frames (pm st) - {f}"
      "\<forall>g. owned (pm st) g \<longrightarrow> owned s' g"
  defines "st' \<equiv> st\<lparr>pm := s', tabs := (tabs st)(f := c)\<rparr>"
  shows "vm_ok R st'" "same_maps R st st'" "nodes R (tabs st') = nodes R (tabs st)" "f \<notin> nodes R (tabs st)"
proof -
  have inv: "pt_inv (tabs st) R (free_frames (pm st))" using ok by (simp add: vm_ok_def)
  show nf: "f \<notin> nodes R (tabs st)" using pt_invD(2) [OF inv] f(2) by (auto simp: nodes_def)
  have t: "tabs st' = (tabs st)(f := c)" "pm st' = s'" by (simp_all add: st'_def)
  have eq: "\<forall>g\<in>nodes R (tabs st). tabs st' g = tabs st g" using nf by (auto simp: t)
  note ag = agree_tables [OF eq]
  show "nodes R (tabs st') = nodes R (tabs st)" by (rule ag(2))
  have "pt_inv (tabs st') R (free_frames (pm st))" by (rule ag(1) [OF inv])
  then have "pt_inv (tabs st') R (free_frames s')" using f(3) unfolding pt_inv_def by blast
  then show "vm_ok R st'" using ok f(1,3) by (auto simp: vm_ok_def t(2))
  have "tabs st' r 511 = tabs st r 511" if "r \<in> R" for r
    using eq nodesI [OF that, of "[]" "tabs st" r] by (simp add: upath_def)
  then show "same_maps R st st'"
    using ag(2,3) f(2-4) t by (simp add: same_maps_def del: fun_upd_apply) auto
qed

lemma offset_Suc: "v + of_nat (Suc k) * 4096 = v + 4096 + of_nat k * (4096 :: u64)"
  by (simp add: algebra_simps)

lemma kept_Suc:
  assumes "kept_outside R r v 1 st t" "kept_outside R r (v + 4096) n t u"
  shows "kept_outside R r v (Suc n) st u"
  unfolding kept_outside_def
proof (intro ballI allI impI)
  fix r' w assume w: "r' \<in> R" "user_page w" "\<not> (r' = r \<and> (\<exists>k<Suc n. page_no w = page_no (v + of_nat k * 4096)))"
  have a: "page_no w \<noteq> page_no (v + of_nat k * 4096)" if "r' = r" "k < Suc n" for k using w(3) that by blast
  have "xlate (tabs u) r' w = xlate (tabs t) r' w"
  proof (rule keptD [OF assms(2) w(1,2)], intro allI impI)
    fix k assume "r' = r" "k < n"
    then show "page_no w \<noteq> page_no (v + 4096 + of_nat k * 4096)" using a [of "Suc k"] unfolding offset_Suc by simp
  qed
  also have "\<dots> = xlate (tabs st) r' w"
    by (rule keptD [OF assms(1) w(1,2)]) (use a [of 0] in auto)
  finally show "xlate (tabs u) r' w = xlate (tabs st) r' w" .
qed

lemma map_loop_ok:
  "\<lbrakk>vm_ok R st; r \<in> R; n \<le> 2 ^ 36; \<forall>k<n. user_page (v + of_nat k * 4096)\<rbrakk> \<Longrightarrow>
   \<exists>er st'. map_loop r v (v + of_nat n * 4096) pa perm st = Some (er, st') \<and> vm_ok R st' \<and> kept_outside R r v n st st' \<and>
     (er = ERR_OK \<and> (\<forall>k<n. xlate (tabs st') r (v + of_nat k * 4096) = Some (PPN (pa + of_nat k * 4096) OR 1 OR perm))
      \<or> er = ERR_VPMAP_MAP \<and> free_frames (pm st') = {})"
proof (induction n arbitrary: v pa st)
  case 0
  then show ?case by (auto simp: map_loop.simps kept_outside_def)
next
  case (Suc n)
  have v: "user_page v" using Suc.prems(4) [rule_format, of 0] by simp
  have ne: "v \<noteq> v + of_nat (Suc n) * 4096"
  proof -
    have "Suc n * 4096 < 2 ^ 64" using Suc.prems(3) by simp
    then have "unat (of_nat (Suc n * 4096) :: u64) = Suc n * 4096" unfolding unat_of_nat by simp
    then have "(of_nat (Suc n * 4096) :: u64) \<noteq> 0" by (metis nat.distinct(1) mult_is_0 unat_0 zero_neq_numeral)
    then show ?thesis by (simp add: add.commute)
  qed
  obtain x t where t: "find_pte r v True st = Some (x, t)" "vm_ok R t" "same_maps R st t"
      "case x of None \<Rightarrow> free_frames (pm t) = {} | Some (tab, i) \<Rightarrow> node (tabs t) r (path v) = Some tab \<and> i = PTX v"
    using find_pte_alloc [OF Suc.prems(1,2) v] by blast
  show ?case
  proof (cases x)
    case None
    then have "map_loop r v (v + of_nat (Suc n) * 4096) pa perm st = Some (ERR_VPMAP_MAP, t)"
      using ne t(1) by (subst map_loop.simps) simp
    moreover have "kept_outside R r v (Suc n) st t" using t(3) by (simp add: same_maps_def kept_outside_def)
    ultimately show ?thesis using t None by auto
  next
    case (Some ti)
    obtain tab where tab: "x = Some (tab, PTX v)" "node (tabs t) r (path v) = Some tab" using t(4) Some by (cases ti) auto
    let ?e = "PPN pa OR 1 OR perm"
    define u where "u = set_entry tab (PTX v) ?e t"
    note mo = map_one [OF t(2) Suc.prems(2) v tab(2), of "PPN pa" perm, folded u_def]
    have up: "\<forall>k<n. user_page (v + 4096 + of_nat k * 4096)"
      using Suc.prems(4) offset_Suc [of v] by (metis Suc_less_eq)
    obtain er st' where L: "map_loop r (v + 4096) (v + 4096 + of_nat n * 4096) (pa + 4096) perm u = Some (er, st')" "vm_ok R st'"
        "kept_outside R r (v + 4096) n u st'"
        "er = ERR_OK \<and> (\<forall>k<n. xlate (tabs st') r (v + 4096 + of_nat k * 4096) = Some (PPN (pa + 4096 + of_nat k * 4096) OR 1 OR perm))
         \<or> er = ERR_VPMAP_MAP \<and> free_frames (pm st') = {}"
      using Suc.IH [OF mo(1) Suc.prems(2) _ up, of "pa + 4096"] Suc.prems(3) by auto
    have run: "map_loop r v (v + of_nat (Suc n) * 4096) pa perm st = Some (er, st')"
      using ne t(1) tab(1) L(1) unfolding offset_Suc [of v n] by (subst map_loop.simps) (simp add: u_def)
    have kept: "kept_outside R r v (Suc n) st st'" by (rule kept_Suc [OF same_maps_kept [OF t(3) mo(3)] L(3)])
    have first: "xlate (tabs st') r v = Some ?e"
    proof -
      have "page_no v \<noteq> page_no (v + 4096 + of_nat k * 4096)" if "k < n" for k
      proof -
        have "page_no (v + of_nat (Suc k) * 4096) \<noteq> page_no v" using that Suc.prems(3) by (intro page_no_ne) simp_all
        then show ?thesis unfolding offset_Suc by simp
      qed
      then show ?thesis using keptD [OF L(3) Suc.prems(2) v] mo(2) by simp
    qed
    have "xlate (tabs st') r (v + of_nat k * 4096) = Some (PPN (pa + of_nat k * 4096) OR 1 OR perm)" if "er = ERR_OK" "k < Suc n" for k
    proof (cases k)
      case 0 then show ?thesis using first by simp
    next
      case (Suc j)
      then show ?thesis using L(4) that unfolding Suc offset_Suc by simp
    qed
    then show ?thesis using run L(2,4) kept by auto
  qed
qed

section \<open>Looking up\<close>

lemma walk_level_lookup: "walk_level False tab i st = Some (if tabs st tab i AND 1 = 0 then None else Some (entry_frame (tabs st tab i)), st)"
  by (simp add: walk_level_def)

lemma find_pte_lookup: "find_pte r v False st = Some (map_option (\<lambda>tab. (tab, PTX v)) (node (tabs st) r (path v)), st)"
  by (simp add: find_pte_def walk_level_lookup path_def)

lemma lookup_xlate:
  "vpmap_lookup_vaddr r v st =
     Some (case xlate (tabs st) r v of None \<Rightarrow> (ERR_VPMAP_NOTPRESENT, 0) | Some e \<Rightarrow> (ERR_OK, PPN e + (v - VPN v)))"
  by (auto simp: vpmap_lookup_vaddr_def find_pte_lookup xlate_def split: option.split)

lemma pg_round_down_aligned: "pg_aligned a \<Longrightarrow> pg_round_down a = a"
proof -
  assume "pg_aligned a"
  then have "unat (pg_round_down a) = unat a" by (simp add: unat_pg_round_down pg_aligned_iff)
  then show "pg_round_down a = a" by (simp add: word_unat_eq_iff)
qed

lemma pg_aligned_down [simp]: "pg_aligned (pg_round_down a)"
  by (simp add: pg_aligned_iff unat_pg_round_down)

lemma pg_aligned_add:
  assumes "pg_aligned a"
  shows "pg_aligned (a + of_nat k * 4096)"
proof -
  have "unat (a + of_nat k * 4096) = (unat a + k * 4096) mod 2 ^ 64"
    by (simp add: unat_word_ariths unat_of_nat mod_add_right_eq mod_mult_left_eq)
  moreover have "4096 dvd unat a + k * 4096" using assms by (simp add: pg_aligned_iff)
  moreover have "(4096 :: nat) dvd 2 ^ 64" by simp
  ultimately show ?thesis unfolding pg_aligned_iff by (simp only: dvd_mod)
qed

lemma perm_bits: "bit (1 OR memperm_to_pteperm perm :: u64) n \<Longrightarrow> n < 12"
proof -
  have "(1 OR memperm_to_pteperm perm :: u64) \<in> {1, 3, 5, 7}" by (cases perm) simp_all
  then have "(1 OR memperm_to_pteperm perm :: u64) AND 7 = 1 OR memperm_to_pteperm perm" by auto
  then have "bit (1 OR memperm_to_pteperm perm) n \<Longrightarrow> bit (7 :: u64) n" by (metis bit_and_iff)
  then show "bit (1 OR memperm_to_pteperm perm) n \<Longrightarrow> n < 12" using bit_flags by blast
qed

lemma PPN_of_entry: "PPN (PPN x OR 1 OR memperm_to_pteperm perm) = PPN x"
proof (rule bit_eqI)
  fix n
  show "bit (PPN (PPN x OR 1 OR memperm_to_pteperm perm)) n = bit (PPN x) n"
    unfolding PPN_ENTRY using perm_bits [of perm n] by (auto simp: bit_ENTRY_ADDR bit_or_iff)
qed

text \<open>C7: After \<^verbatim>\<open>vpmap_map\<close> of \<open>n\<close> user pages succeeds, a lookup of any address in the range finds the corresponding physical
  address, and every other user address of this and of all other address spaces translates as before. It can fail only
  when no frame is free, and the page tables stay consistent in both cases.\<close>

theorem vpmap_map_lookup:
  assumes "vm_ok R st" "vpmap \<in> R" "n \<le> 2 ^ 36" "\<forall>k<n. user_page (pg_round_down v + of_nat k * 4096)"
  shows "\<exists>er st'. vpmap_map vpmap v pa (of_nat n) perm st = Some (er, st') \<and> vm_ok R st' \<and>
     (er = ERR_OK \<and> (\<forall>k<n. \<forall>w. page_no w = page_no (pg_round_down v + of_nat k * 4096) \<longrightarrow>
         vpmap_lookup_vaddr vpmap w st' = Some (ERR_OK, PPN (pg_round_down pa + of_nat k * 4096) + (w - VPN w)))
      \<or> er = ERR_VPMAP_MAP \<and> free_frames (pm st') = {}) \<and>
     (\<forall>r\<in>R. \<forall>w. user_page w \<longrightarrow> \<not> (r = vpmap \<and> (\<exists>k<n. page_no w = page_no (pg_round_down v + of_nat k * 4096))) \<longrightarrow>
         vpmap_lookup_vaddr r w st' = vpmap_lookup_vaddr r w st)"
proof (cases "n = 0")
  case True
  then show ?thesis using assms(1) by (auto simp: vpmap_map_def)
next
  case False
  define a where "a = pg_round_down v"
  define pp where "pp = pg_round_down pa"
  let ?perm = "memperm_to_pteperm perm"
  have "unat (of_nat n :: u64) = n" using assms(3) by (simp add: unat_of_nat)
  then have n0: "(of_nat n :: u64) \<noteq> 0" using False by auto
  have "vpmap_map vpmap v pa (of_nat n) perm st = map_loop vpmap a (a + of_nat n * 4096) pp ?perm st"
    using n0 pg_round_down_aligned [OF pg_aligned_down, of v] pg_round_down_aligned [OF pg_aligned_down, of pa]
      pg_round_down_aligned [OF pg_aligned_add [OF pg_aligned_down], of v n]
    by (simp add: vpmap_map_def map_pages_def a_def pp_def)
  moreover obtain er st' where m: "map_loop vpmap a (a + of_nat n * 4096) pp ?perm st = Some (er, st')" "vm_ok R st'"
      "kept_outside R vpmap a n st st'"
      "er = ERR_OK \<and> (\<forall>k<n. xlate (tabs st') vpmap (a + of_nat k * 4096) = Some (PPN (pp + of_nat k * 4096) OR 1 OR ?perm))
       \<or> er = ERR_VPMAP_MAP \<and> free_frames (pm st') = {}"
    using map_loop_ok [OF assms(1-3), of a pp ?perm] assms(4) unfolding a_def by blast
  moreover have "vpmap_lookup_vaddr vpmap w st' = Some (ERR_OK, PPN (pp + of_nat k * 4096) + (w - VPN w))"
    if "xlate (tabs st') vpmap (a + of_nat k * 4096) = Some (PPN (pp + of_nat k * 4096) OR 1 OR ?perm)"
      "page_no w = page_no (a + of_nat k * 4096)" for k w
    using xlate_page [OF that(2)] that(1) by (simp add: lookup_xlate PPN_of_entry)
  moreover have "\<forall>r\<in>R. \<forall>w. user_page w \<longrightarrow> \<not> (r = vpmap \<and> (\<exists>k<n. page_no w = page_no (a + of_nat k * 4096))) \<longrightarrow>
      vpmap_lookup_vaddr r w st' = vpmap_lookup_vaddr r w st"
    using m(3) unfolding kept_outside_def lookup_xlate by simp
  ultimately show ?thesis unfolding a_def [symmetric] pp_def [symmetric] by auto
qed

text \<open>The case of one page, with what happens to the other frames.\<close>

lemma vpmap_map_one:
  assumes ok: "vm_ok R st" and r: "r \<in> R" and v: "user_page v"
  shows "\<exists>er st'. vpmap_map r v pa 1 perm st = Some (er, st') \<and> vm_ok R st' \<and> kept_outside R r v 1 st st' \<and>
     (er = ERR_OK \<and> xlate (tabs st') r v = Some (PPN (pg_round_down pa) OR 1 OR memperm_to_pteperm perm)
      \<or> er = ERR_VPMAP_MAP \<and> free_frames (pm st') = {}) \<and>
     (\<forall>g. g \<notin> nodes R (tabs st) \<union> free_frames (pm st) \<longrightarrow> tabs st' g = tabs st g) \<and>
     (\<forall>r\<in>R. tabs st' r 511 = tabs st r 511) \<and> (\<forall>g. owned (pm st) g \<longrightarrow> owned (pm st') g)"
proof -
  define a where "a = pg_round_down v"
  let ?perm = "memperm_to_pteperm perm"
  have pg: "page_no a = page_no v" by (simp add: a_def page_no_def unat_pg_round_down)
  then have ua: "user_page a" using v user_page_cong by blast
  have "a + 4096 \<noteq> a" by simp
  then have run: "vpmap_map r v pa 1 perm st = (case find_pte r a True st of None \<Rightarrow> None
       | Some (None, t) \<Rightarrow> Some (ERR_VPMAP_MAP, t)
       | Some (Some p, t) \<Rightarrow> Some (ERR_OK, set_entry (fst p) (snd p) (PPN (pg_round_down pa) OR 1 OR ?perm) t))"
    using pg_round_down_aligned [OF pg_aligned_down, of v] pg_round_down_aligned [OF pg_aligned_down, of pa]
      pg_round_down_aligned [OF pg_aligned_add [OF pg_aligned_down], of v 1]
    by (auto simp: vpmap_map_def map_pages_def a_def map_loop.simps split: option.split)
  obtain x t where t: "find_pte r a True st = Some (x, t)" "vm_ok R t" "same_maps R st t"
      "case x of None \<Rightarrow> free_frames (pm t) = {} | Some (tab, i) \<Rightarrow> node (tabs t) r (path a) = Some tab \<and> i = PTX a"
    using find_pte_alloc [OF ok r ua] by blast
  have sm: "\<forall>g. g \<notin> nodes R (tabs st) \<union> free_frames (pm st) \<longrightarrow> tabs t g = tabs st g" "\<forall>r\<in>R. tabs t r 511 = tabs st r 511"
      "\<forall>g. owned (pm st) g \<longrightarrow> owned (pm t) g" "nodes R (tabs t) \<subseteq> nodes R (tabs st) \<union> free_frames (pm st)"
    using t(3) by (simp_all add: same_maps_def)
  have ko: "kept_outside R r v 1 st u" if "kept_outside R r a 1 st u" for u
    using that pg by (simp add: kept_outside_def)
  show ?thesis
  proof (cases x)
    case None
    have "kept_outside R r v 1 st t" using t(3) by (simp add: same_maps_def kept_outside_def)
    then show ?thesis using t None sm run by auto
  next
    case (Some ti)
    obtain tab where tab: "x = Some (tab, PTX a)" "node (tabs t) r (path a) = Some tab" using t(4) Some by (cases ti) auto
    define u where "u = set_entry tab (PTX a) (PPN (pg_round_down pa) OR 1 OR ?perm) t"
    note mo = map_one [OF t(2) r ua tab(2), of "PPN (pg_round_down pa)" ?perm, folded u_def]
    have inv: "pt_inv (tabs t) R (free_frames (pm t))" using t(2) by (simp add: vm_ok_def)
    have tn: "tab \<in> nodes R (tabs t)" by (rule nodesI [OF r upath_path [OF ua] tab(2)])
    have "tabs u g = tabs t g" if "g \<noteq> tab" for g using that by (simp add: u_def set_entry_def)
    then have same: "\<forall>g. g \<notin> nodes R (tabs st) \<union> free_frames (pm st) \<longrightarrow> tabs u g = tabs st g" using sm(1,4) tn by (metis UnCI subsetD)
    have root: "tabs u r' 511 = tabs st r' 511" if "r' \<in> R" for r'
    proof -
      have "r' \<noteq> tab" using pt_invD(1) [OF inv that r, of "[]" "path a" r'] upath_path [OF ua] tab(2) by (auto simp: upath_def path_def)
      then show ?thesis using sm(2) that by (simp add: u_def set_entry_def)
    qed
    have "xlate (tabs u) r v = Some (PPN (pg_round_down pa) OR 1 OR ?perm)" using mo(2) xlate_page [OF pg] by simp
    then show ?thesis
      using run t(1) tab(1) mo(1,4) ko [OF same_maps_kept [OF t(3) mo(3)]] same root sm(3)
      by (auto simp: u_def [symmetric])
  qed
qed

section \<open>Unmapping\<close>

lemma unat_ENTRY_ADDR: "unat (ENTRY_ADDR e) = page_to_paddr (entry_frame e)"
proof -
  have "take_bit 12 (ENTRY_ADDR e) = 0" by (rule bit_eqI) (simp add: bit_take_bit_iff bit_ENTRY_ADDR)
  then have "take_bit 12 (unat (ENTRY_ADDR e)) = 0" by (metis unsigned_0 unsigned_take_bit_eq)
  then have "unat (ENTRY_ADDR e) mod PG = 0" by (simp add: take_bit_eq_mod)
  then show ?thesis by (auto simp: entry_frame_def page_to_paddr_def)
qed

definition owned_range :: "vmem \<Rightarrow> nat \<Rightarrow> nat \<Rightarrow> nat \<Rightarrow> bool" where
  "owned_range st tab i lim \<longleftrightarrow>
     (\<forall>j. i \<le> j \<longrightarrow> j < lim \<longrightarrow> tabs st tab j AND 1 \<noteq> 0 \<longrightarrow> owned (pm st) (entry_frame (tabs st tab j)))
     \<and> (\<forall>j k. i \<le> j \<longrightarrow> j < k \<longrightarrow> k < lim \<longrightarrow> tabs st tab j AND 1 \<noteq> 0 \<longrightarrow> tabs st tab k AND 1 \<noteq> 0 \<longrightarrow>
          entry_frame (tabs st tab j) \<noteq> entry_frame (tabs st tab k))"

lemma owned_rangeD:
  assumes "owned_range st tab i lim"
  shows "i \<le> j \<Longrightarrow> j < lim \<Longrightarrow> tabs st tab j AND 1 \<noteq> 0 \<Longrightarrow> owned (pm st) (entry_frame (tabs st tab j))"
    "i \<le> j \<Longrightarrow> j < k \<Longrightarrow> k < lim \<Longrightarrow> tabs st tab j AND 1 \<noteq> 0 \<Longrightarrow> tabs st tab k AND 1 \<noteq> 0 \<Longrightarrow>
      entry_frame (tabs st tab j) \<noteq> entry_frame (tabs st tab k)"
  using assms unfolding owned_range_def by blast+

lemma clear_pte_ok:
  assumes "frames_ok (pm st)" "owned_range st tab i lim" "i < lim"
  shows "\<exists>st'. clear_pte tab i st = Some st' \<and> frames_ok (pm st') \<and> owned_range st' tab (i + 1) lim
     \<and> tabs st' = (tabs st)(tab := (tabs st tab)(i := 0))"
proof (cases "tabs st tab i AND 1 = 0")
  case True
  then have "clear_pte tab i st = Some (set_entry tab i 0 st)" by (simp add: clear_pte_def)
  then show ?thesis using assms by (auto simp: set_entry_def owned_range_def)
next
  case False
  define f where "f = entry_frame (tabs st tab i)"
  have "owned (pm st) f" using assms False by (auto simp: owned_range_def f_def)
  then obtain s' where s': "pmem_dec_refcnt (page_to_paddr f) (pm st) = Some s'" "frames_ok s'"
      "\<forall>g. g \<noteq> f \<longrightarrow> owned (pm st) g \<longrightarrow> owned s' g"
    using dec_last [OF assms(1)] by blast
  define st' where "st' = set_entry tab i 0 (st\<lparr>pm := s'\<rparr>)"
  have "clear_pte tab i st = Some st'"
    using False s'(1) by (simp add: clear_pte_def PPN_ENTRY unat_ENTRY_ADDR f_def st'_def)
  moreover have t: "tabs st' = (tabs st)(tab := (tabs st tab)(i := 0))" "pm st' = s'" by (simp_all add: st'_def set_entry_def)
  moreover have "owned_range st' tab (i + 1) lim"
    unfolding owned_range_def t
  proof (intro conjI allI impI)
    fix j assume j: "i + 1 \<le> j" "j < lim" "((tabs st)(tab := (tabs st tab)(i := 0))) tab j AND 1 \<noteq> 0"
    then have p: "tabs st tab j AND 1 \<noteq> 0" by auto
    then have "owned (pm st) (entry_frame (tabs st tab j))" "entry_frame (tabs st tab i) \<noteq> entry_frame (tabs st tab j)"
      using owned_rangeD(1) [OF assms(2), of j] owned_rangeD(2) [OF assms(2), of i j] j False by auto
    then show "owned s' (entry_frame (((tabs st)(tab := (tabs st tab)(i := 0))) tab j))" using s'(3) j by (auto simp: f_def)
  next
    fix j k assume "i + 1 \<le> j" "j < k" "k < lim" "((tabs st)(tab := (tabs st tab)(i := 0))) tab j AND 1 \<noteq> 0"
      "((tabs st)(tab := (tabs st tab)(i := 0))) tab k AND 1 \<noteq> 0"
    then show "entry_frame (((tabs st)(tab := (tabs st tab)(i := 0))) tab j) \<noteq> entry_frame (((tabs st)(tab := (tabs st tab)(i := 0))) tab k)"
      using assms(2) unfolding owned_range_def by auto
  qed
  ultimately show ?thesis using s'(2) by auto
qed

lemma clear_range_ok:
  "\<lbrakk>frames_ok (pm st); owned_range st tab i lim\<rbrakk> \<Longrightarrow>
   \<exists>st'. clear_range tab i lim st = Some st' \<and> tabs st' = (tabs st)(tab := (\<lambda>j. if i \<le> j \<and> j < lim then 0 else tabs st tab j))"
proof (induction "lim - i" arbitrary: i st)
  case 0
  then have "(\<lambda>j. if i \<le> j \<and> j < lim then 0 else tabs st tab j) = tabs st tab" by (auto simp: fun_eq_iff)
  then show ?case using 0 by (simp add: clear_range.simps)
next
  case (Suc n)
  then have i: "i < lim" by simp
  obtain t where t: "clear_pte tab i st = Some t" "frames_ok (pm t)" "owned_range t tab (i + 1) lim"
      "tabs t = (tabs st)(tab := (tabs st tab)(i := 0))"
    using clear_pte_ok [OF Suc.prems i] by blast
  have "n = lim - (i + 1)" using Suc.hyps(2) by simp
  then obtain st' where st': "clear_range tab (i + 1) lim t = Some st'"
      "tabs st' = (tabs t)(tab := (\<lambda>j. if i + 1 \<le> j \<and> j < lim then 0 else tabs t tab j))"
    using Suc.hyps(1) [OF _ t(2,3)] by blast
  have "tabs st' = (tabs st)(tab := (\<lambda>j. if i \<le> j \<and> j < lim then 0 else tabs st tab j))"
    unfolding st'(2) t(4) using i by (auto simp: fun_eq_iff Suc_le_eq le_less)
  then show ?case using t(1) st'(1) i by (simp add: clear_range.simps [of tab i])
qed

lemma next_page_digits:
  assumes "pg_aligned v" "PTX v < 511"
  shows "PTX (v + 4096) = PTX v + 1" "path (v + 4096) = path v" "page_no (v + 4096 - 1) = page_no v"
proof -
  have p: "page_no (v + 4096) = (page_no v + 1) mod 2 ^ 36" using page_no_add [of v 1] by simp
  have lt: "page_no v mod 512 + 1 < 512" using assms(2) by (simp add: page_digits)
  have "page_no v + 1 < 2 ^ 36"
  proof (rule ccontr)
    assume "\<not> page_no v + 1 < 2 ^ 36"
    then have "page_no v = 2 ^ 36 - 1" using page_no_less [of v] by simp
    then show False using lt by simp
  qed
  then have q: "page_no (v + 4096) = page_no v + 1" using p by simp
  have d: "(page_no v + 1) div 512 = page_no v div 512" "(page_no v + 1) mod 512 = page_no v mod 512 + 1"
    using lt by (simp_all add: div_add1_eq mod_add_eq [symmetric, of "page_no v"] mod_Suc Suc_eq_plus1 [symmetric] div_Suc del: Suc_eq_plus1)
  then show "PTX (v + 4096) = PTX v + 1" by (simp add: page_digits q)
  have e: "n div 2 ^ 27 = n div 512 div 2 ^ 18" "n div 2 ^ 18 = n div 512 div 512" for n :: nat
    by (simp_all add: div_mult2_eq [symmetric])
  show "path (v + 4096) = path v" unfolding path_def page_digits q e d(1) ..
  have "4096 dvd unat v" using assms(1) by (simp add: pg_aligned_iff)
  then obtain k where k: "unat v = 4096 * k" by (auto elim: dvdE)
  have "unat v < 2 ^ 64" using unsigned_less [of v, where ?'a = nat] by simp
  then have "unat v + 4095 < 2 ^ 64" using k by simp
  then have "unat (v + 4095) = unat v + 4095" by (simp add: unat_word_ariths)
  moreover have "v + 4096 - 1 = v + 4095" by simp
  ultimately show "page_no (v + 4096 - 1) = page_no v" unfolding page_no_def k by (simp only:) simp
qed

lemma unmap_one_page:
  assumes v: "pg_aligned v" "PTX v < 511" and n: "node (tabs st) r (path v) = Some tab"
    and fo: "frames_ok (pm st)" and own: "owned_range st tab (PTX v) 512"
  shows "\<exists>st'. unmap_pages r v (v + 4096) False st = Some st'
     \<and> tabs st' = (tabs st)(tab := (\<lambda>j. if PTX v \<le> j \<and> j < 512 then 0 else tabs st tab j))"
proof -
  note d = next_page_digits [OF v]
  have i: "PML4X (v + 4096) = PML4X v" "PDPTX (v + 4096) = PDPTX v" "PDX (v + 4096) = PDX v" using d(2) by (simp_all add: path_def)
  have l: "PML4X (v + 4096 - 1) = PML4X v" using d(3) by (simp add: page_digits)
  obtain f1 f2 where w: "tabs st r (PML4X v) AND 1 \<noteq> 0" "entry_frame (tabs st r (PML4X v)) = f1"
      "tabs st f1 (PDPTX v) AND 1 \<noteq> 0" "entry_frame (tabs st f1 (PDPTX v)) = f2"
      "tabs st f2 (PDX v) AND 1 \<noteq> 0" "entry_frame (tabs st f2 (PDX v)) = tab"
    using n by (auto simp: path_def split: if_splits)
  obtain st' where c: "clear_range tab (PTX v) 512 st = Some st'"
      "tabs st' = (tabs st)(tab := (\<lambda>j. if PTX v \<le> j \<and> j < 512 then 0 else tabs st tab j))"
    using clear_range_ok [OF fo own] by blast
  have a: "unmap_pd_loop f2 (v + 4096) (PDX v) (PTX v) (Suc (PDX v)) False st = Some st'"
    using w c(1) d(1) by (simp add: unmap_pd_loop.simps [of f2] free_table_def)
  have b: "unmap_pdpt_loop f1 v (v + 4096) (PDPTX v) (PDX v) (Suc (PDPTX v)) False st = Some st'"
    using w a i by (simp add: unmap_pdpt_loop.simps [of f1] free_table_def unmap_pd_def)
  have "unmap_loop r v (v + 4096) (PML4X v) (PDPTX v) False st = Some st'"
    using w b i l by (simp add: unmap_loop.simps [of r] free_table_def unmap_pdpt_def)
  then show ?thesis using c(2) l by (simp add: unmap_pages_def)
qed

text \<open>\<^verbatim>\<open>vpmap_unmap\<close> does not stop at the end of its range: asked to unmap a single page, it clears the entries of all
  following pages in the same page table and gives their frames back, because the limit of the innermost loop is the
  whole table whenever the start index is below the end index.\<close>

theorem vpmap_unmap_overruns:
  assumes "user_page v" "pg_aligned v" "PTX v < 511" "node (tabs st) r (path v) = Some tab" "r \<in> R" "vm_ok R st"
    "owned_range st tab (PTX v) 512"
  shows "\<exists>st'. vpmap_unmap (Some r) v 1 st = Some st' \<and>
    (\<forall>w. path w = path v \<and> PTX v \<le> PTX w \<longrightarrow> vpmap_lookup_vaddr r w st' = Some (ERR_VPMAP_NOTPRESENT, 0))"
proof -
  have fo: "frames_ok (pm st)" and inv: "pt_inv (tabs st) R (free_frames (pm st))" using assms(6) by (simp_all add: vm_ok_def)
  obtain st' where st': "unmap_pages r v (v + 4096) False st = Some st'"
      "tabs st' = (tabs st)(tab := (\<lambda>j. if PTX v \<le> j \<and> j < 512 then 0 else tabs st tab j))"
    using unmap_one_page [OF assms(2-4) fo assms(7)] by blast
  have "PML4X (v + 4096) = PML4X v" using next_page_digits(2) [OF assms(2,3)] by (simp add: path_def)
  then have "vpmap_unmap (Some r) v 1 st = Some st'"
    using st'(1) pg_round_down_aligned [OF assms(2)] by (simp add: vpmap_unmap_def)
  moreover have "xlate (tabs st') r w = None" if "path w = path v" "PTX v \<le> PTX w" for w
  proof -
    have "node (tabs st') r (path v) = Some tab"
      unfolding st'(2) using leaf_nodes [OF inv assms(5,1,4,5) upath_path [OF assms(1)]] assms(4) by simp
    then show ?thesis using that st'(2) idx_less [of 12 w] by (simp add: xlate_def)
  qed
  ultimately show ?thesis by (auto simp: lookup_xlate)
qed

section \<open>A small address space\<close>

text \<open>Eight frames; frame 1 is a top level table, 2, 3 and 4 the tables below it, and pages 1 and 2 are mapped to frames 5 and 6.
  Frame 7 is free.\<close>

definition demo_pmem :: pmem where
  "demo_pmem = \<lparr>pages = (\<lambda>p. \<lparr>refcnt = (if p < 7 then 1 else 0), order = 0, dirty = False\<rparr>),
     pagemap_end = 8, freeblocks = (\<lambda>i. if i = 0 then [7] else []), bitmap = (\<lambda>_. False), bitmap_contig_start = 0,
     bitmap_end = 8, pagemap_initialized = True, pmem_start = 0, pmem_end = 32768\<rparr>"

definition demo_tabs :: tables where
  "demo_tabs = (\<lambda>f i. if f = 1 \<and> i = 0 then 8199 else if f = 2 \<and> i = 0 then 12295 else if f = 3 \<and> i = 0 then 16391
     else if f = 4 \<and> i = 1 then 20487 else if f = 4 \<and> i = 2 then 24583 else 0)"

definition demo_vm :: vmem where
  "demo_vm = \<lparr>pm = demo_pmem, tabs = demo_tabs, cr3 = 1\<rparr>"

lemma demo_frames: "frames_ok demo_pmem" "free_frames demo_pmem = {7}" "0 < f \<Longrightarrow> f < 7 \<Longrightarrow> owned demo_pmem f"
proof -
  have "buddy_inv 8 demo_pmem {..<8} {}"
    by (rule invI) (auto simp: demo_pmem_def blk_def)
  then have "pmem_ok demo_pmem {..<8}" by (simp add: pmem_ok_def allocated_def) (simp add: demo_pmem_def)
  then show "frames_ok demo_pmem" by (auto simp: frames_ok_def)
  show "free_frames demo_pmem = {7}" by (auto simp: free_frames_def demo_pmem_def split: if_splits)
  show "0 < f \<Longrightarrow> f < 7 \<Longrightarrow> owned demo_pmem f" by (simp add: owned_def demo_pmem_def)
qed

lemma demo_entries:
  "entry_frame 8199 = 2" "entry_frame 12295 = 3" "entry_frame 16391 = 4" "entry_frame 20487 = 5" "entry_frame 24583 = 6"
  by (simp_all add: entry_frame_def ENTRY_ADDR_def)

lemma demo_nodes: "node demo_tabs 1 p = Some f \<Longrightarrow> (p, f) \<in> {([], 1), ([0], 2), ([0, 0], 3), ([0, 0, 0], 4)} \<or> 3 < length p"
proof -
  have 4: "node demo_tabs 4 p = Some f \<Longrightarrow> p = [] \<and> f = 4 \<or> p \<noteq> []" for p by (cases p) auto
  have 3: "node demo_tabs 3 p = Some f \<Longrightarrow> p = [] \<and> f = 3 \<or> (\<exists>q. p = 0 # q \<and> node demo_tabs 4 q = Some f)" for p
    by (cases p) (auto simp: demo_tabs_def demo_entries split: if_splits)
  have 2: "node demo_tabs 2 p = Some f \<Longrightarrow> p = [] \<and> f = 2 \<or> (\<exists>q. p = 0 # q \<and> node demo_tabs 3 q = Some f)" for p
    by (cases p) (auto simp: demo_tabs_def demo_entries split: if_splits)
  have 1: "node demo_tabs 1 p = Some f \<Longrightarrow> p = [] \<and> f = 1 \<or> (\<exists>q. p = 0 # q \<and> node demo_tabs 2 q = Some f)" for p
    by (cases p) (auto simp: demo_tabs_def demo_entries split: if_splits)
  assume "node demo_tabs 1 p = Some f"
  then show ?thesis using 1 2 3 4 by (cases "3 < length p") (fastforce)+
qed

lemma demo_ok: "vm_ok {1} demo_vm"
proof -
  have n: "(p, f) \<in> {([], 1), ([0], 2), ([0, 0], 3), ([0, 0, 0], 4)}" if "upath p" "node demo_tabs 1 p = Some f" for p f
    using demo_nodes [OF that(2)] that(1) by (auto simp: upath_def)
  have "pt_inv demo_tabs {1} {7}"
    unfolding pt_inv_def
  proof (intro conjI ballI allI impI)
    fix r r' p q f
    assume a: "r \<in> {1}" "r' \<in> {1}" "upath p" "upath q" "node demo_tabs r p = Some f" "node demo_tabs r' q = Some f"
    then show "r = r'" "p = q" using n [of p f] n [of q f] by auto
  next
    fix r p f assume "r \<in> {1}" "upath p" "node demo_tabs r p = Some f"
    then show "f \<notin> {7}" using n [of p f] by auto
  qed
  then show ?thesis using demo_frames by (simp add: vm_ok_def demo_vm_def)
qed

lemma demo_idx: "PML4X 4096 = 0" "PDPTX 4096 = 0" "PDX 4096 = 0" "PTX 4096 = 1"
  by (simp_all add: ENTRY_IDX_unat)

lemma demo_user: "user_page 4096" "user_page 12288"
  by (simp_all add: user_page_def ENTRY_IDX_unat)

theorem vpmap_map_lookup_witness:
  "\<exists>er st'. vpmap_map 1 12288 20480 (of_nat 1) MEMPERM_URW demo_vm = Some (er, st') \<and> vm_ok {1} st' \<and>
     (er = ERR_OK \<and> vpmap_lookup_vaddr 1 12288 st' = Some (ERR_OK, 20480) \<or> er = ERR_VPMAP_MAP \<and> free_frames (pm st') = {})"
proof -
  have a: "pg_round_down 12288 = 12288" "pg_round_down 20480 = 20480" by (simp_all add: pg_round_down_def)
  have b: "PPN 20480 = 20480" "VPN 12288 = 12288" by (simp_all add: PPN_def VPN_def)
  show ?thesis
    using vpmap_map_lookup [OF demo_ok, of 1 1 12288 20480 MEMPERM_URW] demo_user(2) unfolding a
    by (fastforce simp: a b)
qed

theorem vpmap_unmap_overruns_witness:
  "\<exists>st'. vpmap_unmap (Some 1) 4096 1 demo_vm = Some st' \<and> vpmap_lookup_vaddr 1 8192 demo_vm = Some (ERR_OK, 24576)
     \<and> vpmap_lookup_vaddr 1 8192 st' = Some (ERR_VPMAP_NOTPRESENT, 0)"
proof -
  have n: "node (tabs demo_vm) 1 (path 4096) = Some 4" by (simp add: path_def demo_idx demo_vm_def demo_tabs_def demo_entries)
  have o: "owned_range demo_vm 4 (PTX 4096) 512"
    using demo_frames(3) by (auto simp: owned_range_def demo_idx demo_vm_def demo_tabs_def demo_entries split: if_splits)
  have p: "path 8192 = path 4096" "PTX 8192 = 2" by (simp_all add: path_def ENTRY_IDX_unat)
  have "vpmap_lookup_vaddr 1 8192 demo_vm = Some (ERR_OK, 24576)"
    using n p by (simp add: lookup_xlate xlate_def demo_vm_def demo_tabs_def PPN_def VPN_def)
  then show ?thesis
    using vpmap_unmap_overruns [of 4096 demo_vm 1 4 "{1}", OF demo_user(1) _ _ n _ demo_ok o] p
    by (auto simp: demo_idx pg_aligned_def)
qed

end
