(* ===== verification/Vm.thy ===== *)
theory Vm
  imports Pagetable Klist
begin

text \<open>
  Address spaces: \<^verbatim>\<open>kernel/mm/vm.c\<close> and the page fault handler \<^verbatim>\<open>kernel/pgfault.c\<close>.

  An address space owns a list of memory regions and a vpmap. Region structures live in memory: \<open>mrs\<close> is the contents of every
  \<^verbatim>\<open>struct memregion\<close>, also of those that are not in use, since \<^verbatim>\<open>memregion_map_internal\<close> links a region before it
  fills it in. \<open>pool\<close> holds the structures the cache can still deliver. Region lists are sequences of region addresses; \<open>Klist\<close>
  shows that the rings of \<^verbatim>\<open>kernel/list.c\<close> implement them, with \<open>insert_ordered\<close> for \<^verbatim>\<open>list_append_ordered\<close>. Every operation
  runs with \<^verbatim>\<open>as_lock\<close> held and is one step; \<open>None\<close> is a panic or a null dereference.
\<close>

section \<open>State\<close>

record memregion =
  mr_as :: nat
  mr_start :: vaddr
  mr_end :: vaddr
  mr_perm :: memperm
  mr_shared :: bool
  mr_store :: "nat option"
  mr_ofs :: u64

record addrspace =
  as_regions :: "nat list"
  as_vpmap :: "nat option"
  as_heap :: "nat option"

text \<open>\<open>kas\<close> is address space 0. \<open>cur\<close> is the address space of the running process.\<close>

record vmst =
  vm :: vmem
  spaces :: "nat \<Rightarrow> addrspace"
  mrs :: "nat \<Rightarrow> memregion"
  pool :: "nat list"
  kvpmap :: nat
  cur :: "nat option"

abbreviation (input) kas :: nat where "kas \<equiv> 0"
abbreviation (input) ADDR_ANYWHERE :: vaddr where "ADDR_ANYWHERE \<equiv> 0xFFFFFFF"
abbreviation (input) USTACK_LOWERBOUND :: vaddr where "USTACK_LOWERBOUND \<equiv> USTACK_UPPERBOUND - 40960"
abbreviation (input) ERR_VM_BOUND :: err where "ERR_VM_BOUND \<equiv> 1"
abbreviation (input) ERR_VM_INVALID :: err where "ERR_VM_INVALID \<equiv> 2"
abbreviation (input) ERR_VM_RESOURCE_UNAVAIL :: err where "ERR_VM_RESOURCE_UNAVAIL \<equiv> 3"

definition is_user_addr :: "vaddr \<Rightarrow> bool" where
  "is_user_addr addr \<longleftrightarrow> addr < KMAP_BASE"

definition is_kern_memperm :: "memperm \<Rightarrow> bool" where
  "is_kern_memperm perm \<longleftrightarrow> perm = MEMPERM_R \<or> perm = MEMPERM_RW"

definition is_write_memperm :: "memperm \<Rightarrow> bool" where
  "is_write_memperm perm \<longleftrightarrow> perm = MEMPERM_RW \<or> perm = MEMPERM_URW"

definition set_space :: "nat \<Rightarrow> (addrspace \<Rightarrow> addrspace) \<Rightarrow> vmst \<Rightarrow> vmst" where
  "set_space a f st = st\<lparr>spaces := (spaces st)(a := f (spaces st a))\<rparr>"

text \<open>\<^verbatim>\<open>vpmap_flush_tlb\<close> with the running process of this state.\<close>

definition flush_tlb :: "vmst \<Rightarrow> vmst option" where
  "flush_tlb st =
     (case cur st of
        None \<Rightarrow> Some (st\<lparr>vm := vpmap_flush_tlb (kvpmap st) None (vm st)\<rparr>)
      | Some a \<Rightarrow> do {
          p \<leftarrow> as_vpmap (spaces st a);
          Some (st\<lparr>vm := vpmap_flush_tlb (kvpmap st) (Some p) (vm st)\<rparr>)
        })"

section \<open>Regions\<close>

definition memregion_find_internal :: "nat \<Rightarrow> vaddr \<Rightarrow> u64 \<Rightarrow> vmst \<Rightarrow> nat option" where
  "memregion_find_internal a addr size' st =
     find (\<lambda>r. addr \<ge> mr_start (mrs st r) \<and> addr + size' \<le> pg_round_up (mr_end (mrs st r))) (as_regions (spaces st a))"

text \<open>The two results of \<^verbatim>\<open>find_free_vaddr\<close>: an address, or a failure.\<close>

fun free_vaddr_loop :: "(nat \<Rightarrow> memregion) \<Rightarrow> u64 \<Rightarrow> vaddr \<Rightarrow> nat list \<Rightarrow> vaddr option" where
  "free_vaddr_loop m size' addr [] =
     (if pg_round_up (addr + size') < USTACK_LOWERBOUND - size' then Some addr else None)"
| "free_vaddr_loop m size' addr (r # rs) =
     (if pg_round_up (addr + size') < mr_start (m r) then Some addr
      else free_vaddr_loop m size' (pg_round_up (mr_end (m r))) rs)"

definition find_free_vaddr :: "nat \<Rightarrow> u64 \<Rightarrow> vmst \<Rightarrow> vaddr option option" where
  "find_free_vaddr a size' st = do {
     kassert (a \<noteq> kas);
     Some (free_vaddr_loop (mrs st) size'
             (case as_regions (spaces st a) of [] \<Rightarrow> 0 | r # _ \<Rightarrow> mr_end (mrs st r)) (as_regions (spaces st a)))
   }"

definition memregion_comparator :: "(nat \<Rightarrow> memregion) \<Rightarrow> nat \<Rightarrow> nat \<Rightarrow> int" where
  "memregion_comparator m a b = (if mr_start (m a) \<ge> mr_end (m b) then 1 else 0)"

text \<open>The result is the new region, or \<open>None\<close> for the null pointer. The region joins the list with whatever its structure held
  before.\<close>

definition map_region_at ::
    "nat \<Rightarrow> vaddr \<Rightarrow> u64 \<Rightarrow> memperm \<Rightarrow> nat option \<Rightarrow> u64 \<Rightarrow> bool \<Rightarrow> vmst \<Rightarrow> (nat option \<times> vmst) option" where
  "map_region_at a addr size' perm store ofs shared st = do {
     kassert (pg_aligned addr);
     kassert (addr + pg_round_up size' \<ge> addr);
     (if a \<noteq> kas \<and> (is_kern_memperm perm \<or> \<not> is_user_addr (pg_round_up (addr + size') AND NOT 0xFFF)) then Some (None, st)
      else if memregion_find_internal a addr (addr + size') st \<noteq> None then Some (None, st)
      else
        (case pool st of
           [] \<Rightarrow> Some (None, st)
         | r # rs \<Rightarrow>
             let st = st\<lparr>pool := rs\<rparr>;
                 st = set_space a (\<lambda>s. s\<lparr>as_regions := insert_ordered (memregion_comparator (mrs st)) r (as_regions s)\<rparr>) st;
                 st = st\<lparr>mrs := (mrs st)(r := \<lparr>mr_as = a, mr_start = addr, mr_end = addr + size', mr_perm = perm,
                        mr_shared = shared, mr_store = store, mr_ofs = ofs\<rparr>)\<rparr> in
             Some (Some r, st)))
   }"

definition memregion_map_internal ::
    "nat \<Rightarrow> vaddr \<Rightarrow> u64 \<Rightarrow> memperm \<Rightarrow> nat option \<Rightarrow> u64 \<Rightarrow> bool \<Rightarrow> vmst \<Rightarrow> (nat option \<times> vmst) option" where
  "memregion_map_internal a addr size' perm store ofs shared st =
     (if addr = ADDR_ANYWHERE then do {
        x \<leftarrow> find_free_vaddr a size' st;
        (case x of None \<Rightarrow> Some (None, st) | Some addr \<Rightarrow> map_region_at a addr size' perm store ofs shared st)
      }
      else map_region_at a addr size' perm store ofs shared st)"

definition memregion_unmap_internal :: "nat \<Rightarrow> vmst \<Rightarrow> vmst option" where
  "memregion_unmap_internal region st = do {
     let r = mrs st region;
     let a = mr_as r;
     v \<leftarrow> vpmap_unmap (as_vpmap (spaces st a)) (mr_start r) (pg_round_up (mr_end r - mr_start r) div pg_size) (vm st);
     let st = set_space a (\<lambda>s. s\<lparr>as_regions := remove1 region (as_regions s)\<rparr>) (st\<lparr>vm := v\<rparr>);
     st \<leftarrow> flush_tlb st;
     Some (st\<lparr>pool := region # pool st\<rparr>)
   }"

definition memregion_copy_internal :: "nat \<Rightarrow> nat \<Rightarrow> vaddr \<Rightarrow> vmst \<Rightarrow> (nat option \<times> vmst) option" where
  "memregion_copy_internal a src addr st = do {
     let s = mrs st src;
     (dst, st) \<leftarrow> memregion_map_internal a addr (mr_end s - mr_start s) (mr_perm s) (mr_store s) (mr_ofs s) (mr_shared s) st;
     (case dst of
        None \<Rightarrow> do { st \<leftarrow> flush_tlb st; Some (None, st) }
      | Some d \<Rightarrow> do {
          svp \<leftarrow> as_vpmap (spaces st (mr_as s));
          dvp \<leftarrow> as_vpmap (spaces st a);
          (er, v) \<leftarrow> vpmap_cow_copy svp dvp (mr_start s) addr (unat (pg_round_up (mr_end s - mr_start s) div pg_size)) (vm st);
          let st = st\<lparr>vm := v\<rparr>;
          (if er \<noteq> ERR_OK then do {
             st \<leftarrow> memregion_unmap_internal d st;
             st \<leftarrow> flush_tlb st;
             Some (None, st)
           }
           else do { st \<leftarrow> flush_tlb st; Some (Some d, st) })
        })
   }"

section \<open>Address spaces\<close>

definition kas_init :: "vmst \<Rightarrow> vmst" where
  "kas_init st = set_space kas (\<lambda>s. s\<lparr>as_regions := [], as_vpmap := Some (kvpmap st)\<rparr>) st"

definition as_init :: "nat \<Rightarrow> bool \<Rightarrow> vmst \<Rightarrow> (err \<times> vmst) option" where
  "as_init a have_struct st = do {
     (r, v) \<leftarrow> vpmap_create have_struct (vm st);
     let st = set_space a (\<lambda>s. s\<lparr>as_regions := [], as_vpmap := r\<rparr>) (st\<lparr>vm := v\<rparr>);
     (case r of
        None \<Rightarrow> Some (ERR_VM_RESOURCE_UNAVAIL, st)
      | Some p \<Rightarrow>
          let st = set_space a (\<lambda>s. s\<lparr>as_heap := None\<rparr>) st;
              (er, v) = vpmap_copy_kernel_mapping (kvpmap st) p (vm st) in
          Some (er, st\<lparr>vm := v\<rparr>))
   }"

fun unmap_all :: "nat list \<Rightarrow> vmst \<Rightarrow> vmst option" where
  "unmap_all [] st = Some st"
| "unmap_all (r # rs) st = do { st \<leftarrow> memregion_unmap_internal r st; unmap_all rs st }"

definition as_destroy :: "nat \<Rightarrow> vmst \<Rightarrow> vmst option" where
  "as_destroy a st = do {
     kassert (a \<noteq> kas);
     v \<leftarrow> vpmap_destroy (kvpmap st) (as_vpmap (spaces st a)) (vm st);
     let st = set_space a (\<lambda>s. s\<lparr>as_vpmap := None\<rparr>) (st\<lparr>vm := v\<rparr>);
     unmap_all (as_regions (spaces st a)) st
   }"

fun copy_regions :: "nat \<Rightarrow> nat \<Rightarrow> nat list \<Rightarrow> vmst \<Rightarrow> (err \<times> vmst) option" where
  "copy_regions src_as dst_as [] st = Some (ERR_OK, st)"
| "copy_regions src_as dst_as (r # rs) st = do {
     (d, st) \<leftarrow> memregion_copy_internal dst_as r (mr_start (mrs st r)) st;
     (case d of
        None \<Rightarrow> Some (ERR_NOMEM, st)
      | Some dst_r \<Rightarrow>
          copy_regions src_as dst_as rs
            (if as_heap (spaces st src_as) = Some r then set_space dst_as (\<lambda>s. s\<lparr>as_heap := Some dst_r\<rparr>) st else st))
   }"

definition as_copy_as :: "nat \<Rightarrow> nat \<Rightarrow> vmst \<Rightarrow> (err \<times> vmst) option" where
  "as_copy_as src_as dst_as st = do {
     kassert (src_as \<noteq> dst_as);
     copy_regions src_as dst_as (as_regions (spaces st src_as)) st
   }"

definition as_map_memregion ::
    "nat \<Rightarrow> vaddr \<Rightarrow> u64 \<Rightarrow> memperm \<Rightarrow> nat option \<Rightarrow> u64 \<Rightarrow> bool \<Rightarrow> vmst \<Rightarrow> (nat option \<times> vmst) option" where
  "as_map_memregion a addr size' perm store ofs shared st = memregion_map_internal a addr size' perm store ofs shared st"

definition as_find_memregion :: "nat \<Rightarrow> vaddr \<Rightarrow> u64 \<Rightarrow> vmst \<Rightarrow> nat option" where
  "as_find_memregion a addr size' st = (if addr > addr + size' then None else memregion_find_internal a addr size' st)"

definition as_copy_memregion :: "nat \<Rightarrow> nat \<Rightarrow> vaddr \<Rightarrow> vmst \<Rightarrow> (nat option \<times> vmst) option" where
  "as_copy_memregion a src addr st = do {
     kassert (pg_aligned addr);
     memregion_copy_internal a src addr st
   }"

text \<open>A conversion to \<^verbatim>\<open>int\<close> and back: the low 32 bits, sign extended.\<close>

definition through_int :: "u64 \<Rightarrow> u64" where
  "through_int x = signed_take_bit 31 x"

text \<open>The result holds the error and the old bound, which is not set on the first return. A missing heap region is a null dereference.\<close>

definition memregion_extend :: "nat \<Rightarrow> u64 \<Rightarrow> vmst \<Rightarrow> (err \<times> vaddr option \<times> vmst) option" where
  "memregion_extend region size' st =
     (let r = mrs st region;
          old_mem_bound = through_int (mr_end r);
          new_bound = through_int (mr_end r + size') in
      if new_bound < mr_start r then Some (ERR_VM_INVALID, None, st)
      else do {
        let old_bound = mr_end r;
        shrink \<leftarrow> (if size' <s 0
                   then do { h \<leftarrow> as_heap (spaces st (mr_as r)); Some (- size' > mr_end (mrs st h) - mr_start (mrs st h)) }
                   else Some False);
        (if shrink then Some (ERR_OK, Some old_bound, st)
         else if \<exists>c\<in>set (as_regions (spaces st (mr_as r))).
                   mr_start (mrs st c) > old_mem_bound \<and> mr_end r > mr_start (mrs st c) \<and> mr_start r < mr_end (mrs st c)
         then Some (ERR_VM_BOUND, Some old_bound, st)
         else Some (ERR_OK, Some old_bound, st\<lparr>mrs := (mrs st)(region := r\<lparr>mr_end := new_bound\<rparr>)\<rparr>))
      })"

definition memregion_set_perm :: "nat \<Rightarrow> memperm \<Rightarrow> vmst \<Rightarrow> (err \<times> vmst) option" where
  "memregion_set_perm region perm st =
     (let r = mrs st region in
      if is_kern_memperm perm \<and> mr_as r \<noteq> kas then Some (ERR_VM_INVALID, st)
      else do {
        p \<leftarrow> as_vpmap (spaces st (mr_as r));
        v \<leftarrow> vpmap_set_perm p (mr_start r) (unat (pg_round_up (mr_end r - mr_start r) div pg_size)) perm (vm st);
        let st = st\<lparr>vm := v, mrs := (mrs st)(region := r\<lparr>mr_perm := perm\<rparr>)\<rparr>;
        st \<leftarrow> flush_tlb st;
        Some (ERR_OK, st)
      })"

definition memregion_unmap :: "nat \<Rightarrow> vmst \<Rightarrow> vmst option" where
  "memregion_unmap region st = memregion_unmap_internal region st"

section \<open>Page faults\<close>

text \<open>A fault ends with the process leaving through \<^verbatim>\<open>proc_exit(-1)\<close>, which does not return, or with a return to the program.\<close>

datatype fault_result = Exit vmst | Resume vmst

definition handle_page_fault :: "nat \<Rightarrow> vaddr \<Rightarrow> bool \<Rightarrow> bool \<Rightarrow> bool \<Rightarrow> vmst \<Rightarrow> fault_result option" where
  "handle_page_fault a fault_addr present write user st = do {
     kassert user;
     let cur_memregion = as_find_memregion a fault_addr 1 st;
     (case cur_memregion of
        None \<Rightarrow> Some (Exit st)
      | Some r \<Rightarrow>
          let perm = mr_perm (mrs st r) in
          if present \<and> write \<and> (perm = MEMPERM_RW \<or> perm = MEMPERM_URW) then do {
            (er, paddr, p) \<leftarrow> pmem_alloc (pm (vm st));
            let v = (vm st)\<lparr>pm := p\<rparr>;
            (if er \<noteq> ERR_OK then Some (Exit (st\<lparr>vm := v\<rparr>))
             else do {
               (er, src) \<leftarrow> vpmap_lookup_vaddr (cr3 v) (pg_round_down fault_addr) v;
               kassert (er = ERR_OK);
               let v = v\<lparr>tabs := (tabs v)(paddr_to_page paddr := tabs v (paddr_to_page (unat src)))\<rparr>;
               vp \<leftarrow> as_vpmap (spaces st (mr_as (mrs st r)));
               v \<leftarrow> vpmap_set_perm vp (kmap_p2v (of_nat paddr)) 4096 perm v;
               (_, pfault_addr) \<leftarrow> vpmap_lookup_vaddr vp (pg_round_down fault_addr) v;
               (_, v) \<leftarrow> vpmap_map vp fault_addr (of_nat paddr) 1 perm v;
               p \<leftarrow> pmem_dec_refcnt (unat pfault_addr) (pm v);
               Some (Resume (st\<lparr>vm := v\<lparr>pm := p\<rparr>\<rparr>))
             })
          }
          else if present then Some (Exit st)
          else if write \<and> (perm = MEMPERM_R \<or> perm = MEMPERM_UR) then Some (Exit st)
          else do {
            (er, paddr, p) \<leftarrow> pmem_alloc (pm (vm st));
            let v = (vm st)\<lparr>pm := p\<rparr>;
            (if er \<noteq> ERR_OK then Some (Exit (st\<lparr>vm := v\<rparr>))
             else do {
               let v = zero_frame (paddr_to_page paddr) v;
               vp \<leftarrow> as_vpmap (spaces st (mr_as (mrs st r)));
               (er, v) \<leftarrow> vpmap_map vp fault_addr (of_nat paddr) 1 perm v;
               Some (if er \<noteq> ERR_OK then Exit (st\<lparr>vm := v\<rparr>) else Resume (st\<lparr>vm := v\<rparr>))
             })
          })
   }"

text \<open>The error code of the processor: bit 0 for a present page, bit 1 for a write, bit 2 for user mode. \<open>cr2\<close> is the faulting
  address.\<close>

definition x86_64_pgfault_trap_handler :: "nat \<Rightarrow> vaddr \<Rightarrow> u32 \<Rightarrow> vmst \<Rightarrow> fault_result option" where
  "x86_64_pgfault_trap_handler a cr2 err_code st =
     handle_page_fault a cr2 (err_code AND 1 \<noteq> 0) (err_code AND 2 \<noteq> 0) (err_code AND 4 \<noteq> 0) st"

end
