(* ===== verification/Pgfault.thy ===== *)
theory Pgfault
  imports Vm
begin

text \<open>
  What the page fault handler of \<open>Vm\<close> does to memory: the demand zero path, and the copy on write path with its effect on the
  kernel's page tables.
\<close>

section \<open>Demand zero\<close>

lemma PPN_frame: "f < 2 ^ 39 \<Longrightarrow> PPN (pg_round_down (of_nat (page_to_paddr f))) = of_nat (page_to_paddr f)"
proof -
  assume f: "f < 2 ^ 39"
  have u: "unat (of_nat (page_to_paddr f) :: u64) = page_to_paddr f" by (rule unat_frame_addr [OF f])
  then have "pg_aligned (of_nat (page_to_paddr f))" by (simp add: pg_aligned_iff page_to_paddr_def)
  then have "pg_round_down (of_nat (page_to_paddr f)) = of_nat (page_to_paddr f)" by (rule pg_round_down_aligned)
  moreover have "ENTRY_ADDR (of_nat (page_to_paddr f) OR 0) = of_nat (page_to_paddr f)"
    by (rule entry_addr_or [OF f]) simp
  ultimately show ?thesis by (simp add: PPN_ENTRY)
qed

lemma VPN_ofs: "v - VPN v = pg_ofs v"
  using and_not_mask [of v 4095] by (simp add: VPN_def pg_ofs_def)

text \<open>Allocating a frame, filling it and mapping it at one user page.\<close>

lemma map_new_frame:
  fixes c :: "nat \<Rightarrow> u64"
  assumes ok: "vm_ok R st" and f: "frames_ok s'" "f \<in> free_frames (pm st)" "free_frames s' = free_frames (pm st) - {f}" "owned s' f"
      "\<forall>g. owned (pm st) g \<longrightarrow> owned s' g" and vp: "vp \<in> R" "user_page va"
  shows "\<exists>er v. vpmap_map vp va (of_nat (page_to_paddr f)) 1 perm (st\<lparr>pm := s', tabs := (tabs st)(f := c)\<rparr>) = Some (er, v) \<and> vm_ok R v \<and>
    (er = ERR_OK \<and> vpmap_lookup_vaddr vp va v = Some (ERR_OK, of_nat (page_to_paddr f) + pg_ofs va)
     \<or> er = ERR_VPMAP_MAP \<and> free_frames (pm v) = {}) \<and> owned (pm v) f \<and> tabs v f = c \<and>
    (\<forall>r\<in>R. \<forall>w. user_page w \<longrightarrow> \<not> (r = vp \<and> page_no w = page_no va) \<longrightarrow> vpmap_lookup_vaddr r w v = vpmap_lookup_vaddr r w st)"
proof -
  define u where "u = st\<lparr>pm := s', tabs := (tabs st)(f := c)\<rparr>"
  note fu = fill_new_frame(1-3) [OF ok f(1-3,5), where c = c, folded u_def]
    and nf = fill_new_frame(4) [OF ok f(1-3,5)]
  have u: "pm u = s'" "tabs u f = c" by (simp_all add: u_def)
  obtain er v where v: "vpmap_map vp va (of_nat (page_to_paddr f)) 1 perm u = Some (er, v)" "vm_ok R v" "kept_outside R vp va 1 u v"
      "er = ERR_OK \<and> xlate (tabs v) vp va = Some (PPN (pg_round_down (of_nat (page_to_paddr f))) OR 1 OR memperm_to_pteperm perm)
       \<or> er = ERR_VPMAP_MAP \<and> free_frames (pm v) = {}"
      "\<forall>g. g \<notin> nodes R (tabs u) \<union> free_frames (pm u) \<longrightarrow> tabs v g = tabs u g" "\<forall>g. owned (pm u) g \<longrightarrow> owned (pm v) g"
    using vpmap_map_one [OF fu(1) vp, of "of_nat (page_to_paddr f)" perm] by blast
  have f39: "f < 2 ^ 39" using f(2) ok by (auto simp: vm_ok_def)
  have "vpmap_lookup_vaddr vp va v = Some (ERR_OK, of_nat (page_to_paddr f) + pg_ofs va)" if "er = ERR_OK"
    using v(4) that PPN_of_entry [of "pg_round_down (of_nat (page_to_paddr f))" perm] PPN_frame [OF f39]
    by (simp add: lookup_xlate VPN_ofs)
  moreover have "tabs v f = c" using v(5) fu(3) nf f(3) u by auto
  moreover have "vpmap_lookup_vaddr r' w v = vpmap_lookup_vaddr r' w st"
    if "r' \<in> R" "user_page w" "\<not> (r' = vp \<and> page_no w = page_no va)" for r' w
    using same_maps_kept [OF fu(2) v(3)] that by (simp add: kept_outside_def lookup_xlate)
  ultimately show ?thesis using v(1,2,4,6) f(4) u(1) unfolding u_def [symmetric] by auto
qed

text \<open>C15: A user fault on an absent page of a region that allows the access ends with the page mapped to a frame that was free and is now
  all zero, at the offset of the faulting address; no other translation of any address space changes. The process is
  killed only when memory is exhausted.\<close>

theorem pgfault_demand_zero:
  assumes "vm_ok R (vm st)" "as_find_memregion a va 1 st = Some r" "as_vpmap (spaces st (mr_as (mrs st r))) = Some vp" "vp \<in> R"
    "user_page va" "write \<longrightarrow> is_write_memperm (mr_perm (mrs st r))"
  shows "\<exists>res. handle_page_fault a va False write True st = Some res \<and>
    (case res of
       Exit st' \<Rightarrow> free_frames (pm (vm st')) = {}
     | Resume st' \<Rightarrow> vm_ok R (vm st') \<and>
         (\<exists>f\<in>free_frames (pm (vm st)). owned (pm (vm st')) f \<and> tabs (vm st') f = (\<lambda>_. 0) \<and>
            vpmap_lookup_vaddr vp va (vm st') = Some (ERR_OK, of_nat (page_to_paddr f) + pg_ofs va)) \<and>
         (\<forall>r\<in>R. \<forall>w. user_page w \<longrightarrow> \<not> (r = vp \<and> page_no w = page_no va) \<longrightarrow>
            vpmap_lookup_vaddr r w (vm st') = vpmap_lookup_vaddr r w (vm st)))"
proof -
  have fo: "frames_ok (pm (vm st))" using assms(1) by (simp add: vm_ok_def)
  let ?perm = "mr_perm (mrs st r)"
  have perm: "\<not> (write \<and> (?perm = MEMPERM_R \<or> ?perm = MEMPERM_UR))" using assms(6) by (auto simp: is_write_memperm_def)
  show ?thesis
  proof (cases "free_frames (pm (vm st)) = {}")
    case True
    then have "handle_page_fault a va False write True st = Some (Exit (st\<lparr>vm := (vm st)\<lparr>pm := pm (vm st)\<rparr>\<rparr>))"
      using fr.exhausted [OF fo True] assms(2) perm by (simp add: handle_page_fault_def Let_def)
    then show ?thesis using True by simp
  next
    case False
    then obtain f s' where f: "pmem_alloc (pm (vm st)) = Some (ERR_OK, page_to_paddr f, s')" "frames_ok s'" "f \<in> free_frames (pm (vm st))"
        "free_frames s' = free_frames (pm (vm st)) - {f}" "owned s' f" "\<forall>g. owned (pm (vm st)) g \<longrightarrow> owned s' g"
      using fr.alloc_law [OF fo] by blast
    have z: "zero_frame f ((vm st)\<lparr>pm := s'\<rparr>) = (vm st)\<lparr>pm := s', tabs := (tabs (vm st))(f := (\<lambda>_. 0))\<rparr>"
      by (simp add: zero_frame_def)
    obtain er v where v: "vpmap_map vp va (of_nat (page_to_paddr f)) 1 ?perm (zero_frame f ((vm st)\<lparr>pm := s'\<rparr>)) = Some (er, v)"
        "vm_ok R v" "er = ERR_OK \<and> vpmap_lookup_vaddr vp va v = Some (ERR_OK, of_nat (page_to_paddr f) + pg_ofs va)
         \<or> er = ERR_VPMAP_MAP \<and> free_frames (pm v) = {}" "owned (pm v) f" "tabs v f = (\<lambda>_. 0)"
        "\<forall>r\<in>R. \<forall>w. user_page w \<longrightarrow> \<not> (r = vp \<and> page_no w = page_no va) \<longrightarrow> vpmap_lookup_vaddr r w v = vpmap_lookup_vaddr r w (vm st)"
      using map_new_frame [OF assms(1) f(2-6) assms(4,5), of ?perm "\<lambda>_. 0"] unfolding z by blast
    have run: "handle_page_fault a va False write True st = Some (if er \<noteq> ERR_OK then Exit (st\<lparr>vm := v\<rparr>) else Resume (st\<lparr>vm := v\<rparr>))"
      using f(1) assms(2,3) perm v(1) by (auto simp: handle_page_fault_def Let_def)
    show ?thesis
    proof (cases "er = ERR_OK")
      case True
      then have "vpmap_lookup_vaddr vp va v = Some (ERR_OK, of_nat (page_to_paddr f) + pg_ofs va)" using v(3) by auto
      then have "\<exists>f\<in>free_frames (pm (vm st)). owned (pm v) f \<and> tabs v f = (\<lambda>_. 0) \<and>
          vpmap_lookup_vaddr vp va v = Some (ERR_OK, of_nat (page_to_paddr f) + pg_ofs va)" using v(4,5) f(3) by blast
      then show ?thesis
        by (intro exI [of _ "Resume (st\<lparr>vm := v\<rparr>)"]) (use run True v(2,6) in simp)
    next
      case False
      then have "free_frames (pm v) = {}" using v(3) by blast
      then show ?thesis unfolding run using False by simp
    qed
  qed
qed

section \<open>The kernel half of an address space\<close>

text \<open>The entries the processor checks on the way to a page: all of them must allow user writes. Kernel tables are shared by all address
  spaces; they form a tree of their own below the last top level entry.\<close>

fun writable :: "tables \<Rightarrow> nat \<Rightarrow> nat list \<Rightarrow> bool" where
  "writable m f [] = True"
| "writable m f (i # p) = (m f i AND 7 = 7 \<and> writable m (entry_frame (m f i)) p)"

definition user_writable :: "tables \<Rightarrow> nat \<Rightarrow> vaddr \<Rightarrow> bool" where
  "user_writable m r w \<longleftrightarrow> writable m r (path w @ [PTX w])"

definition kpath :: "nat list \<Rightarrow> bool" where
  "kpath p \<longleftrightarrow> p \<noteq> [] \<and> length p \<le> 3 \<and> hd p = 511"

definition kernel_tree :: "tables \<Rightarrow> nat \<Rightarrow> nat set \<Rightarrow> bool" where
  "kernel_tree m r X \<longleftrightarrow> (\<forall>p q f. kpath p \<longrightarrow> kpath q \<longrightarrow> node m r p = Some f \<longrightarrow> node m r q = Some f \<longrightarrow> p = q)
     \<and> (\<forall>p f. kpath p \<longrightarrow> node m r p = Some f \<longrightarrow> f \<notin> X)"

lemma kernel_treeD:
  assumes "kernel_tree m r X"
  shows "\<lbrakk>kpath p; kpath q; node m r p = Some f; node m r q = Some f\<rbrakk> \<Longrightarrow> p = q" "\<lbrakk>kpath p; node m r p = Some f\<rbrakk> \<Longrightarrow> f \<notin> X"
  using assms unfolding kernel_tree_def by blast+

definition knodes :: "tables \<Rightarrow> nat \<Rightarrow> nat set" where
  "knodes m r = {f. \<exists>p. kpath p \<and> node m r p = Some f}"

definition kinner :: "tables \<Rightarrow> nat \<Rightarrow> nat set" where
  "kinner m r = {f. \<exists>p. kpath p \<and> length p < 3 \<and> node m r p = Some f}"

lemma kinner_knodes: "kinner m r \<subseteq> knodes m r"
  by (auto simp: kinner_def knodes_def)

lemma kpath_snoc: "kpath (p @ [j]) \<Longrightarrow> p = [] \<and> j = 511 \<or> kpath p \<and> length p < 3"
  by (cases p) (auto simp: kpath_def)

lemma knode_agree:
  assumes "m' r 511 = m r 511" "\<forall>g\<in>kinner m r. m' g = m g" "kpath q"
  shows "node m' r q = node m r q"
  using assms(3)
proof (induction q rule: rev_induct)
  case (snoc j q)
  show ?case
  proof (cases "q = []")
    case True
    then show ?thesis using snoc.prems assms(1) by (simp add: kpath_def)
  next
    case False
    then have q: "kpath q" "length q < 3" using kpath_snoc [OF snoc.prems] by blast+
    show ?thesis
    proof (cases "node m r q")
      case (Some g)
      then have "m' g = m g" using assms(2) q by (auto simp: kinner_def)
      then show ?thesis using snoc.IH [OF q(1)] Some by (simp add: node_snoc)
    qed (use snoc.IH [OF q(1)] in \<open>simp add: node_snoc\<close>)
  qed
qed (simp add: kpath_def)

lemma writable_append: "writable m r (p @ q) \<Longrightarrow> writable m r p"
  by (induction p arbitrary: r) auto

lemma and_7_present: "e AND 7 = (7 :: u64) \<Longrightarrow> e AND 1 \<noteq> 0"
proof
  assume a: "e AND 7 = 7" "e AND 1 = 0"
  have "e AND 1 = e AND (7 AND 1)" by simp
  also have "\<dots> = 7 AND 1" unfolding and.assoc [symmetric] a(1) ..
  finally show False using a(2) by simp
qed

lemma writable_node: "writable m r p \<Longrightarrow> \<exists>f. node m r p = Some f"
  using and_7_present by (induction p arbitrary: r) auto

lemma writable_snoc: "node m r p = Some f \<Longrightarrow> writable m r (p @ [i]) \<longleftrightarrow> writable m r p \<and> m f i AND 7 = 7"
  by (induction p arbitrary: r) (auto split: if_splits)

lemma kwritable_agree:
  assumes "m' r 511 = m r 511" "\<forall>g\<in>kinner m r. m' g = m g" "kpath q" "writable m r q"
  shows "writable m' r q"
  using assms(3,4)
proof (induction q rule: rev_induct)
  case (snoc j q)
  show ?case
  proof (cases "q = []")
    case True
    then show ?thesis using snoc.prems assms(1) by (simp add: kpath_def)
  next
    case False
    then have q: "kpath q" "length q < 3" using kpath_snoc [OF snoc.prems(1)] by blast+
    obtain g where g: "node m r q = Some g" using writable_node [OF writable_append [OF snoc.prems(2)]] by blast
    then have "m' g = m g" "node m' r q = Some g" using assms(2) q knode_agree [OF assms(1,2) q(1)] by (auto simp: kinner_def)
    then show ?thesis
      using snoc.IH [OF q(1) writable_append [OF snoc.prems(2)]] snoc.prems(2) writable_snoc [OF g] writable_snoc [of m' r q g j] by simp
  qed
qed simp

lemma kernel_path: "PML4X w = 511 \<Longrightarrow> kpath (path w)" "length (path w) = 3"
  by (simp_all add: kpath_def path_def)

text \<open>Rewriting one entry of a kernel page table.\<close>

lemma kernel_leaf_store:
  fixes e :: u64
  assumes tree: "kernel_tree m r X" "r \<in> X" and v: "PML4X v = 511" "node m r (path v) = Some t"
  defines "m' \<equiv> m(t := (m t)(PTX v := e))"
  shows "kpath q \<Longrightarrow> node m' r q = node m r q" "kpath q \<Longrightarrow> writable m r q \<Longrightarrow> writable m' r q" "kernel_tree m' r X"
    "PML4X w = 511 \<Longrightarrow> node m r (path w) = Some f \<Longrightarrow> m' f (PTX w) = (if page_no w = page_no v then e else m f (PTX w))"
    "t \<in> knodes m r"
proof -
  show t: "t \<in> knodes m r" using v kernel_path(1) by (auto simp: knodes_def)
  have tr: "t \<noteq> r" using kernel_treeD(2) [OF tree(1) kernel_path(1) [OF v(1)] v(2)] tree(2) by blast
  then have a: "m' r 511 = m r 511" by (simp add: m'_def)
  have "g \<noteq> t" if gi: "g \<in> kinner m r" for g
  proof
    assume "g = t"
    then obtain p where p: "kpath p" "length p < 3" "node m r p = Some t" using gi by (auto simp: kinner_def)
    then have "p = path v" using kernel_treeD(1) [OF tree(1) p(1) kernel_path(1) [OF v(1)] p(3) v(2)] by simp
    then show False using p(2) kernel_path(2) by simp
  qed
  then have b: "\<forall>g\<in>kinner m r. m' g = m g" by (simp add: m'_def)
  note n = knode_agree [OF a b]
  then show "kpath q \<Longrightarrow> node m' r q = node m r q" .
  show "kpath q \<Longrightarrow> writable m r q \<Longrightarrow> writable m' r q" by (rule kwritable_agree [OF a b])
  show "kernel_tree m' r X" using tree(1) n unfolding kernel_tree_def by simp
  assume w: "PML4X w = 511" "node m r (path w) = Some f"
  have "f = t \<longleftrightarrow> path w = path v"
    using kernel_treeD(1) [OF tree(1) kernel_path(1) [OF w(1)] kernel_path(1) [OF v(1)] w(2)] v(2) w(2) by auto
  then show "m' f (PTX w) = (if page_no w = page_no v then e else m f (PTX w))"
    using same_page [of w v] by (auto simp: m'_def)
qed

text \<open>\<^verbatim>\<open>vpmap_set_perm\<close> on a range of kernel pages.\<close>

definition with_perm :: "u64 \<Rightarrow> u64 \<Rightarrow> u64" where
  "with_perm perm e = PPN e OR (ENTRY_FLAGS e AND 1) OR perm"

definition entries_set :: "nat \<Rightarrow> (vaddr \<Rightarrow> bool) \<Rightarrow> u64 \<Rightarrow> vmem \<Rightarrow> vmem \<Rightarrow> bool" where
  "entries_set r S perm st st' \<longleftrightarrow> pm st' = pm st \<and> cr3 st' = cr3 st
     \<and> (\<forall>g. g \<notin> knodes (tabs st) r \<longrightarrow> tabs st' g = tabs st g)
     \<and> (\<forall>q. kpath q \<longrightarrow> node (tabs st') r q = node (tabs st) r q)
     \<and> (\<forall>q. kpath q \<longrightarrow> writable (tabs st) r q \<longrightarrow> writable (tabs st') r q)
     \<and> (\<forall>w f. PML4X w = 511 \<longrightarrow> node (tabs st) r (path w) = Some f \<longrightarrow>
          tabs st' f (PTX w) = (if S w then with_perm perm (tabs st f (PTX w)) else tabs st f (PTX w)))"

lemma entries_set_refl: "\<forall>w. PML4X w = 511 \<and> S w \<longrightarrow> node (tabs st) r (path w) = None \<Longrightarrow> entries_set r S perm st st"
  by (auto simp: entries_set_def)

lemma entries_set_trans:
  assumes "entries_set r S perm st t" "entries_set r S' perm t u" "\<forall>w. \<not> (S w \<and> S' w)"
  shows "entries_set r (\<lambda>w. S w \<or> S' w) perm st u"
proof -
  have n: "node (tabs t) r q = node (tabs st) r q" if "kpath q" for q using assms(1) that by (simp add: entries_set_def)
  then have k: "knodes (tabs t) r = knodes (tabs st) r" by (auto simp: knodes_def)
  have e: "tabs t f (PTX w) = (if S w then with_perm perm (tabs st f (PTX w)) else tabs st f (PTX w))"
      "tabs u f (PTX w) = (if S' w then with_perm perm (tabs t f (PTX w)) else tabs t f (PTX w))"
    if "PML4X w = 511" "node (tabs st) r (path w) = Some f" for w f
    using assms(1,2) that n [OF kernel_path(1) [OF that(1)]] by (simp_all add: entries_set_def)
  show ?thesis
    unfolding entries_set_def
  proof (intro conjI allI impI)
    fix w f assume w: "PML4X w = 511" "node (tabs st) r (path w) = Some f"
    show "tabs u f (PTX w) = (if S w \<or> S' w then with_perm perm (tabs st f (PTX w)) else tabs st f (PTX w))"
      using e [OF w] assms(3) by auto
  qed (use assms(1,2) n k in \<open>simp_all add: entries_set_def\<close>)
qed

lemma set_perm_kernel:
  "\<lbrakk>kernel_tree (tabs st) r X; r \<in> X; \<forall>k<n. PML4X (v + of_nat (i + k) * 4096) = 511; n \<le> 4096\<rbrakk> \<Longrightarrow>
   \<exists>st'. set_perm_loop r v i n perm st = Some st' \<and>
     entries_set r (\<lambda>w. \<exists>k<n. page_no w = page_no (v + of_nat (i + k) * 4096)) perm st st'"
proof (induction n arbitrary: i st)
  case 0
  then show ?case by (auto intro!: entries_set_refl)
next
  case (Suc n)
  let ?w = "v + of_nat i * 4096"
  let ?S = "\<lambda>w. page_no w = page_no ?w" and ?S' = "\<lambda>w. \<exists>k<n. page_no w = page_no (v + of_nat (Suc i + k) * 4096)"
  have w: "PML4X ?w = 511" using Suc.prems(3) [rule_format, of 0] by simp
  define t where "t = (case node (tabs st) r (path ?w) of None \<Rightarrow> st | Some f \<Rightarrow> set_entry f (PTX ?w) (with_perm perm (tabs st f (PTX ?w))) st)"
  have t: "kernel_tree (tabs t) r X \<and> entries_set r ?S perm st t"
  proof (cases "node (tabs st) r (path ?w)")
    case None
    have pw: "path w' = path ?w" if "?S w'" for w' using same_page that by blast
    have "entries_set r ?S perm st st"
    proof (intro entries_set_refl allI impI)
      fix w' assume "PML4X w' = 511 \<and> ?S w'"
      then have "path w' = path ?w" using pw by blast
      then show "node (tabs st) r (path w') = None" by (simp only: None)
    qed
    then show ?thesis using None Suc.prems(1) by (simp add: t_def)
  next
    case (Some f)
    have tt: "tabs t = (tabs st)(f := (tabs st f)(PTX ?w := with_perm perm (tabs st f (PTX ?w))))" "pm t = pm st" "cr3 t = cr3 st"
      using Some by (simp_all add: t_def set_entry_def)
    note ls = kernel_leaf_store(1-4) [OF Suc.prems(1,2) w Some, where e = "with_perm perm (tabs st f (PTX ?w))", folded tt(1)]
    have same: "\<forall>g. g \<notin> knodes (tabs st) r \<longrightarrow> tabs t g = tabs st g"
      using kernel_leaf_store(5) [OF Suc.prems(1,2) w Some] by (auto simp: tt(1))
    have "tabs t g (PTX w') = (if ?S w' then with_perm perm (tabs st g (PTX w')) else tabs st g (PTX w'))"
      if "PML4X w' = 511" "node (tabs st) r (path w') = Some g" for w' g
    proof (cases "?S w'")
      case True
      then have "path w' = path ?w" "PTX w' = PTX ?w" using same_page [of w' ?w] by blast+
      then show ?thesis using ls(4) [OF that] that(2) Some True by (metis option.inject)
    qed (use ls(4) [OF that] in simp)
    then show ?thesis unfolding entries_set_def using ls(1-3) same tt(2,3) by blast
  qed
  have shift: "\<forall>k<n. PML4X (v + of_nat (Suc i + k) * 4096) = 511"
    using Suc.prems(3) by (metis Suc_less_eq add_Suc_shift)
  obtain u where u: "set_perm_loop r v (Suc i) n perm t = Some u" "entries_set r ?S' perm t u"
    using Suc.IH [of t "Suc i"] t Suc.prems(2,4) shift by auto
  have run: "set_perm_loop r v i (Suc n) perm st = Some u"
    using u(1) by (simp add: find_pte_lookup t_def with_perm_def split: option.splits)
  have "\<not> (?S w' \<and> ?S' w')" for w'
  proof
    assume "?S w' \<and> ?S' w'"
    then obtain k where k: "k < n" "page_no ?w = page_no (v + of_nat (Suc i + k) * 4096)" by auto
    have e: "v + of_nat (Suc i + k) * 4096 = ?w + of_nat (Suc k) * 4096" by (simp add: algebra_simps)
    have "page_no (?w + of_nat (Suc k) * 4096) \<noteq> page_no ?w" by (rule page_no_ne) (use k(1) Suc.prems(4) in simp_all)
    then show False using k(2) unfolding e by simp
  qed
  then have "entries_set r (\<lambda>w. ?S w \<or> ?S' w) perm st u" using entries_set_trans [OF _ u(2)] t by blast
  moreover have "(\<lambda>w. ?S w \<or> ?S' w) = (\<lambda>w. \<exists>k<Suc n. page_no w = page_no (v + of_nat (i + k) * 4096))"
    by (simp only: Ex_less_Suc2 add_0_right add_Suc add_Suc_right)
  ultimately show ?case using run by auto
qed

lemma kmap_pages:
  assumes "f + k < 2 ^ 19"
  shows "kmap_p2v (of_nat (page_to_paddr f)) + of_nat k * 4096 = kmap_p2v (of_nat (page_to_paddr (f + k)))"
    "PML4X (kmap_p2v (of_nat (page_to_paddr (f + k)))) = 511"
proof -
  show "kmap_p2v (of_nat (page_to_paddr f)) + of_nat k * 4096 = kmap_p2v (of_nat (page_to_paddr (f + k)))"
    by (simp add: kmap_p2v_def page_to_paddr_def algebra_simps)
  have x: "page_to_paddr (f + k) < 2 ^ 31" using assms by (simp add: page_to_paddr_def)
  then have "unat (of_nat (page_to_paddr (f + k)) :: u64) = page_to_paddr (f + k)" unfolding unat_of_nat by simp
  then have u: "unat (kmap_p2v (of_nat (page_to_paddr (f + k)))) = page_to_paddr (f + k) + (2 ^ 64 - 2 ^ 31)"
    using x by (simp add: kmap_p2v_def unat_word_ariths)
  have "(page_to_paddr (f + k) + (2 ^ 64 - 2 ^ 31)) div 2 ^ 39 = 2 ^ 25 - 1"
    by (rule div_nat_eqI) (use x in simp_all)
  then show "PML4X (kmap_p2v (of_nat (page_to_paddr (f + k)))) = 511" by (simp add: ENTRY_IDX_unat u)
qed

lemma round_down_kmap: "f < 2 ^ 19 \<Longrightarrow> pg_round_down (kmap_p2v (of_nat (page_to_paddr f))) = kmap_p2v (of_nat (page_to_paddr f))"
proof (rule pg_round_down_aligned)
  assume f: "f < 2 ^ 19"
  then have x: "page_to_paddr f < 2 ^ 31" by (simp add: page_to_paddr_def)
  then have "unat (of_nat (page_to_paddr f) :: u64) = page_to_paddr f" unfolding unat_of_nat by simp
  then have "unat (kmap_p2v (of_nat (page_to_paddr f))) = page_to_paddr f + (2 ^ 64 - 2 ^ 31)"
    using x by (simp add: kmap_p2v_def unat_word_ariths)
  then show "pg_aligned (kmap_p2v (of_nat (page_to_paddr f)))" by (simp add: pg_aligned_iff page_to_paddr_def)
qed

text \<open>Kernel pages whose entry got user permissions translate as before and are writable in user mode.\<close>

lemma with_perm_user: "e AND 1 \<noteq> 0 \<Longrightarrow> with_perm 6 e AND 7 = 7" "PPN (with_perm 6 e) = PPN e"
proof -
  have b: "bit (6 :: u64) n \<longleftrightarrow> n = 1 \<or> n = 2" for n
    by (cases n; cases "n - 1"; cases "n - 2") (auto simp: bit_numeral_rec)
  have b7: "bit (7 :: u64) n \<longleftrightarrow> n = 0 \<or> n = 1 \<or> n = 2" for n
    by (cases n; cases "n - 1"; cases "n - 2") (auto simp: bit_numeral_rec)
  have w: "bit (with_perm 6 e) n \<longleftrightarrow> 12 \<le> n \<and> n < 51 \<and> bit e n \<or> n = 0 \<and> bit e 0 \<or> n = 1 \<or> n = 2" for n
    unfolding with_perm_def ENTRY_FLAGS_def PPN_ENTRY bit_or_iff bit_and_iff bit_ENTRY_ADDR b mask_12 bit_mask_iff
    by (auto simp: bit_1_iff)
  show "PPN (with_perm 6 e) = PPN e"
    unfolding PPN_ENTRY by (rule bit_eqI) (auto simp: bit_ENTRY_ADDR w)
  assume "e AND 1 \<noteq> 0"
  then have "bit e 0" by (simp add: and_one_eq odd_iff_mod_2_eq_one [symmetric] bit_0)
  then show "with_perm 6 e AND 7 = 7"
    by (intro bit_eqI) (unfold bit_and_iff b7 w, auto)
qed

lemma kernel_pages_exposed:
  assumes tree: "kernel_tree (tabs st) r X" "r \<in> X" and f: "f + 4096 \<le> 2 ^ 19"
  shows "\<exists>st'. vpmap_set_perm r (kmap_p2v (of_nat (page_to_paddr f))) 4096 MEMPERM_URW st = Some st' \<and>
    pm st' = pm st \<and> (\<forall>g. g \<notin> knodes (tabs st) r \<longrightarrow> tabs st' g = tabs st g) \<and> kernel_tree (tabs st') r X \<and>
    (\<forall>k<4096. let w = kmap_p2v (of_nat (page_to_paddr (f + k))) in
       \<forall>x. writable (tabs st) r (path w) \<longrightarrow> xlate (tabs st) r w = Some x \<longrightarrow>
         user_writable (tabs st') r w \<and> (\<exists>y. xlate (tabs st') r w = Some y \<and> PPN y = PPN x))"
proof -
  let ?v = "kmap_p2v (of_nat (page_to_paddr f))"
  have perm: "memperm_to_pteperm MEMPERM_URW = 6" by simp
  have k: "PML4X (?v + of_nat (0 + k) * 4096) = 511" if "k < 4096" for k
    using kmap_pages [of f k] f that by simp
  obtain st' where st': "set_perm_loop r ?v 0 4096 6 st = Some st'"
      "entries_set r (\<lambda>w. \<exists>k<4096. page_no w = page_no (?v + of_nat (0 + k) * 4096)) 6 st st'"
    using set_perm_kernel [OF tree, of 4096 ?v 0 6] k by auto
  have run: "vpmap_set_perm r ?v 4096 MEMPERM_URW st = Some st'"
    using st'(1) round_down_kmap [of f] f unfolding vpmap_set_perm_def perm by simp
  have n: "node (tabs st') r q = node (tabs st) r q" "writable (tabs st) r q \<Longrightarrow> writable (tabs st') r q" if "kpath q" for q
    using st'(2) that by (simp_all add: entries_set_def)
  have exposed: "user_writable (tabs st') r w \<and> (\<exists>y. xlate (tabs st') r w = Some y \<and> PPN y = PPN x)"
    if w: "w = kmap_p2v (of_nat (page_to_paddr (f + k)))" "k < 4096" "writable (tabs st) r (path w)" "xlate (tabs st) r w = Some x" for w k x
  proof -
    have kw: "PML4X w = 511" "w = ?v + of_nat (0 + k) * 4096" using kmap_pages [of f k] f w(1,2) by simp_all
    note kp = kernel_path(1) [OF kw(1)]
    obtain t where t: "node (tabs st) r (path w) = Some t" "tabs st t (PTX w) = x" "x AND 1 \<noteq> 0"
      using w(4) by (auto simp: xlate_def split: option.splits if_splits)
    have S: "\<exists>k<4096. page_no w = page_no (?v + of_nat (0 + k) * 4096)" using kw(2) w(2) by blast
    have e: "tabs st' t (PTX w) = with_perm 6 x"
      using st'(2) kw(1) t(1,2) S unfolding entries_set_def by metis
    have t': "node (tabs st') r (path w) = Some t" using n(1) [OF kp] t(1) by simp
    have "user_writable (tabs st') r w"
      unfolding user_writable_def writable_snoc [OF t'] using n(2) [OF kp w(3)] e with_perm_user(1) [OF t(3)] by simp
    moreover have "xlate (tabs st') r w = Some (with_perm 6 x)"
      using t' e and_7_present [OF with_perm_user(1) [OF t(3)]] by (simp add: xlate_def)
    ultimately show ?thesis using with_perm_user(2) by blast
  qed
  have "kernel_tree (tabs st') r X" using tree(1) n(1) unfolding kernel_tree_def by simp
  moreover have "pm st' = pm st" "\<forall>g. g \<notin> knodes (tabs st) r \<longrightarrow> tabs st' g = tabs st g"
    using st'(2) by (simp_all add: entries_set_def)
  ultimately show ?thesis using run exposed unfolding Let_def by blast
qed

lemma kernel_same:
  assumes "m' r 511 = m r 511" "\<forall>g\<in>knodes m r. m' g = m g"
  shows "kernel_tree m r X \<Longrightarrow> kernel_tree m' r X"
    "PML4X w = 511 \<Longrightarrow> xlate m' r w = xlate m r w"
    "PML4X w = 511 \<Longrightarrow> writable m r (path w) \<Longrightarrow> writable m' r (path w)"
    "PML4X w = 511 \<Longrightarrow> user_writable m r w \<Longrightarrow> user_writable m' r w"
proof -
  have i: "\<forall>g\<in>kinner m r. m' g = m g" using assms(2) kinner_knodes by blast
  note n = knode_agree [OF assms(1) i] and wr = kwritable_agree [OF assms(1) i]
  show "kernel_tree m r X \<Longrightarrow> kernel_tree m' r X" using n unfolding kernel_tree_def by simp
  assume w: "PML4X w = 511"
  note k = kernel_path(1) [OF w]
  have e: "m' t = m t" if "node m r (path w) = Some t" for t using assms(2) k that by (auto simp: knodes_def)
  show "xlate m' r w = xlate m r w" using n [OF k] e by (auto simp: xlate_def split: option.split)
  show "writable m r (path w) \<Longrightarrow> writable m' r (path w)" by (rule wr [OF k])
  assume u: "user_writable m r w"
  then have u1: "writable m r (path w)" unfolding user_writable_def by (rule writable_append)
  then obtain t where t: "node m r (path w) = Some t" using writable_node by blast
  then have t': "node m' r (path w) = Some t" using n [OF k] by simp
  show "user_writable m' r w"
    using u wr [OF k u1] e [OF t] unfolding user_writable_def writable_snoc [OF t] writable_snoc [OF t'] by simp
qed

lemma source_frame:
  assumes "xlate (tabs st) r va = Some e"
  shows "vpmap_lookup_vaddr r (pg_round_down va) st = Some (ERR_OK, PPN e)" "unat (PPN e) = page_to_paddr (entry_frame e)"
proof -
  have pg: "page_no (pg_round_down va) = page_no va" by (simp add: page_no_def unat_pg_round_down)
  have "unat (pg_ofs (pg_round_down va)) = 0" by (simp add: unat_pg_ofs unat_pg_round_down)
  then have "pg_ofs (pg_round_down va) = 0" by (simp add: unat_eq_0)
  then show "vpmap_lookup_vaddr r (pg_round_down va) st = Some (ERR_OK, PPN e)"
    using xlate_page [OF pg] assms by (simp add: lookup_xlate VPN_ofs)
  show "unat (PPN e) = page_to_paddr (entry_frame e)" by (simp add: PPN_ENTRY unat_ENTRY_ADDR)
qed

text \<open>The memory after the copy on write branch filled the new frame, changed the permissions and mapped the page.\<close>

lemma cow_memory:
  assumes ok: "vm_ok R st" and f: "frames_ok s'" "f \<in> free_frames (pm st)" "free_frames s' = free_frames (pm st) - {f}"
      "\<forall>g. owned (pm st) g \<longrightarrow> owned s' g" "f + 4096 \<le> 2 ^ 19" and vp: "vp \<in> R" "user_page va" "xlate (tabs st) vp va = Some e"
    and tree: "kernel_tree (tabs st) vp (nodes R (tabs st) \<union> free_frames (pm st))"
  shows "\<exists>t er v. vpmap_set_perm vp (kmap_p2v (of_nat (page_to_paddr f))) 4096 MEMPERM_URW (st\<lparr>pm := s', tabs := (tabs st)(f := c)\<rparr>) = Some t
     \<and> xlate (tabs t) vp va = Some e \<and> vpmap_map vp va (of_nat (page_to_paddr f)) 1 MEMPERM_URW t = Some (er, v)
     \<and> frames_ok (pm v) \<and> (\<forall>g. owned (pm st) g \<longrightarrow> owned (pm v) g)
     \<and> (\<forall>k<4096. let w = kmap_p2v (of_nat (page_to_paddr (f + k))) in
         \<forall>x. writable (tabs st) vp (path w) \<longrightarrow> xlate (tabs st) vp w = Some x \<longrightarrow>
           user_writable (tabs v) vp w \<and> (\<exists>y. xlate (tabs v) vp w = Some y \<and> PPN y = PPN x))"
proof -
  let ?X = "nodes R (tabs st) \<union> free_frames (pm st)"
  define u where "u = st\<lparr>pm := s', tabs := (tabs st)(f := c)\<rparr>"
  note fu = fill_new_frame(1-3) [OF ok f(1-4), where c = c, folded u_def] and nf = fill_new_frame(4) [OF ok f(1-4)]
  have upm: "pm u = s'" by (simp add: u_def)
  have root: "vp \<in> nodes R (tabs st)" using nodesI [OF vp(1), of "[]"] by (simp add: upath_def)
  have "f \<notin> knodes (tabs st) vp" using kernel_treeD(2) [OF tree] f(2) by (auto simp: knodes_def)
  then have ks: "tabs u vp 511 = tabs st vp 511" "\<forall>g\<in>knodes (tabs st) vp. tabs u g = tabs st g"
    using root nf by (auto simp: u_def)
  note ku = kernel_same [OF ks]
  obtain t where t: "vpmap_set_perm vp (kmap_p2v (of_nat (page_to_paddr f))) 4096 MEMPERM_URW u = Some t" "pm t = pm u"
      "\<forall>g. g \<notin> knodes (tabs u) vp \<longrightarrow> tabs t g = tabs u g" "kernel_tree (tabs t) vp ?X"
      "\<forall>k<4096. let w = kmap_p2v (of_nat (page_to_paddr (f + k))) in
       \<forall>x. writable (tabs u) vp (path w) \<longrightarrow> xlate (tabs u) vp w = Some x \<longrightarrow>
         user_writable (tabs t) vp w \<and> (\<exists>y. xlate (tabs t) vp w = Some y \<and> PPN y = PPN x)"
    using kernel_pages_exposed [OF ku(1) [OF tree] UnI1 [OF root] f(5)] by blast
  have "\<forall>g\<in>nodes R (tabs u). tabs t g = tabs u g"
    using kernel_treeD(2) [OF ku(1) [OF tree]] t(3) unfolding fu(3) knodes_def by blast
  note ag = agree_tables [OF this]
  have okt: "vm_ok R t" using fu(1) ag(1) by (simp add: vm_ok_def t(2))
  have "xlate (tabs u) vp va = Some e" using fu(2) vp by (simp add: same_maps_def)
  then have xt: "xlate (tabs t) vp va = Some e" using ag(3) [OF vp(1,2)] by simp
  obtain er v where v: "vpmap_map vp va (of_nat (page_to_paddr f)) 1 MEMPERM_URW t = Some (er, v)" "vm_ok R v"
      "\<forall>g. g \<notin> nodes R (tabs t) \<union> free_frames (pm t) \<longrightarrow> tabs v g = tabs t g" "\<forall>r\<in>R. tabs v r 511 = tabs t r 511"
      "\<forall>g. owned (pm t) g \<longrightarrow> owned (pm v) g"
    using vpmap_map_one [OF okt vp(1,2), of "of_nat (page_to_paddr f)" MEMPERM_URW] by blast
  have "nodes R (tabs t) \<union> free_frames (pm t) \<subseteq> ?X" using ag(2) fu(3) f(3) t(2) upm by auto
  then have kt: "\<forall>g\<in>knodes (tabs t) vp. tabs v g = tabs t g"
    using kernel_treeD(2) [OF t(4)] v(3) unfolding knodes_def by blast
  note kv = kernel_same [OF v(4) [rule_format, OF vp(1)] kt]
  have "user_writable (tabs v) vp w \<and> (\<exists>y. xlate (tabs v) vp w = Some y \<and> PPN y = PPN x)"
    if w: "w = kmap_p2v (of_nat (page_to_paddr (f + k)))" "k < 4096" "writable (tabs st) vp (path w)" "xlate (tabs st) vp w = Some x" for w k x
  proof -
    have kw: "PML4X w = 511" using kmap_pages(2) [of f k] f(5) w(1,2) by simp
    have "writable (tabs u) vp (path w)" "xlate (tabs u) vp w = Some x" using ku(2,3) [OF kw] w(3,4) by simp_all
    then show ?thesis using t(5) w(1,2) kv(2,4) [OF kw] unfolding Let_def by metis
  qed
  moreover have "frames_ok (pm v)" "\<forall>g. owned (pm st) g \<longrightarrow> owned (pm v) g" using v(2,5) f(4) t(2) upm by (simp_all add: vm_ok_def)
  ultimately show ?thesis using t(1) xt v(1) unfolding u_def [symmetric] Let_def by blast
qed

text \<open>C33: A copy on write fault opens kernel memory to the program. After a write fault on a present page of a user read-write region is
  resolved, up to 4096 pages of the kernel's mapping of physical memory, starting at the frame just allocated, still
  translate as before but are writable in user mode: the handler passes the page size where \<^verbatim>\<open>vpmap_set_perm\<close>
  takes a number of pages, and the kernel address of the frame where it takes the address to change. The hypotheses describe a
  consistent address space whose kernel tables are its own tree, as \<^verbatim>\<open>vpmap_init\<close> builds it.\<close>

theorem cow_fault_exposes_kernel:
  assumes ok: "vm_ok R (vm st)" and reg: "as_find_memregion a va 1 st = Some r" "mr_perm (mrs st r) = MEMPERM_URW"
      "as_vpmap (spaces st (mr_as (mrs st r))) = Some vp" "cr3 (vm st) = vp" and vp: "vp \<in> R" "user_page va"
    and e: "xlate (tabs (vm st)) vp va = Some e" "owned (pm (vm st)) (entry_frame e)"
    and free: "free_frames (pm (vm st)) \<noteq> {}" "free_frames (pm (vm st)) \<subseteq> {..<2 ^ 19 - 4096}"
    and tree: "kernel_tree (tabs (vm st)) vp (nodes R (tabs (vm st)) \<union> free_frames (pm (vm st)))"
  shows "\<exists>f\<in>free_frames (pm (vm st)). \<exists>st'. handle_page_fault a va True True True st = Some (Resume st') \<and>
    (\<forall>k<4096. let w = kmap_p2v (of_nat (page_to_paddr (f + k))) in
       \<forall>x. writable (tabs (vm st)) vp (path w) \<longrightarrow> vpmap_lookup_vaddr vp w (vm st) = Some (ERR_OK, x) \<longrightarrow>
         user_writable (tabs (vm st')) vp w \<and> vpmap_lookup_vaddr vp w (vm st') = Some (ERR_OK, x))"
proof -
  have fo: "frames_ok (pm (vm st))" using ok by (simp add: vm_ok_def)
  obtain f s' where f: "pmem_alloc (pm (vm st)) = Some (ERR_OK, page_to_paddr f, s')" "frames_ok s'" "f \<in> free_frames (pm (vm st))"
      "free_frames s' = free_frames (pm (vm st)) - {f}" "\<forall>g. owned (pm (vm st)) g \<longrightarrow> owned s' g"
    using fr.alloc_law [OF fo free(1)] by blast
  have f19: "f + 4096 \<le> 2 ^ 19" using f(3) free(2) by auto
  let ?u = "(vm st)\<lparr>pm := s', tabs := (tabs (vm st))(f := tabs (vm st) (entry_frame e))\<rparr>"
  obtain t er v where t: "vpmap_set_perm vp (kmap_p2v (of_nat (page_to_paddr f))) 4096 MEMPERM_URW ?u = Some t"
      "xlate (tabs t) vp va = Some e" "vpmap_map vp va (of_nat (page_to_paddr f)) 1 MEMPERM_URW t = Some (er, v)"
      "frames_ok (pm v)" "\<forall>g. owned (pm (vm st)) g \<longrightarrow> owned (pm v) g"
      "\<forall>k<4096. let w = kmap_p2v (of_nat (page_to_paddr (f + k))) in
         \<forall>x. writable (tabs (vm st)) vp (path w) \<longrightarrow> xlate (tabs (vm st)) vp w = Some x \<longrightarrow>
           user_writable (tabs v) vp w \<and> (\<exists>y. xlate (tabs v) vp w = Some y \<and> PPN y = PPN x)"
    using cow_memory [OF ok f(2-5) f19 vp e(1) tree, of "tabs (vm st) (entry_frame e)"] by blast
  have "owned (pm v) (entry_frame e)" using t(5) e(2) by blast
  then obtain p where p: "pmem_dec_refcnt (page_to_paddr (entry_frame e)) (pm v) = Some p"
    using dec_last [of "pm v" "entry_frame e"] t(4) by auto
  have "vpmap_lookup_vaddr vp (pg_round_down va) ((vm st)\<lparr>pm := s'\<rparr>) = Some (ERR_OK, PPN e)"
    by (rule source_frame(1)) (simp add: e(1))
  then have run: "handle_page_fault a va True True True st = Some (Resume (st\<lparr>vm := v\<lparr>pm := p\<rparr>\<rparr>))"
    using f(1) reg t(1,3) source_frame [OF t(2)] p by (simp add: handle_page_fault_def del: fun_upd_apply)
  have "user_writable (tabs v) vp w \<and> vpmap_lookup_vaddr vp w (v\<lparr>pm := p\<rparr>) = Some (ERR_OK, x)"
    if w: "w = kmap_p2v (of_nat (page_to_paddr (f + k)))" "k < 4096" "writable (tabs (vm st)) vp (path w)"
      "vpmap_lookup_vaddr vp w (vm st) = Some (ERR_OK, x)" for w k x
  proof -
    obtain y where y: "xlate (tabs (vm st)) vp w = Some y" "x = PPN y + (w - VPN w)"
      using w(4) by (auto simp: lookup_xlate split: option.splits)
    then obtain z where "user_writable (tabs v) vp w" "xlate (tabs v) vp w = Some z" "PPN z = PPN y"
      using t(6) w(1-3) unfolding Let_def by blast
    then show ?thesis using y(2) by (simp add: lookup_xlate)
  qed
  then show ?thesis using run f(3) unfolding Let_def by (intro bexI [of _ f] exI [of _ "st\<lparr>vm := v\<lparr>pm := p\<rparr>\<rparr>"]) auto
qed

section \<open>A small address space with a kernel half\<close>

text \<open>The tables of \<open>demo_tabs\<close>, in a memory of 16 frames of which frame 15 is free, and the kernel's tables in frames 8, 9 and 10,
  which map frame 15 for the kernel alone.\<close>

definition kdemo_pmem :: pmem where
  "kdemo_pmem = \<lparr>pages = (\<lambda>p. \<lparr>refcnt = (if p < 15 then 1 else 0), order = 0, dirty = False\<rparr>),
     pagemap_end = 16, freeblocks = (\<lambda>i. if i = 0 then [15] else []), bitmap = (\<lambda>_. False), bitmap_contig_start = 0,
     bitmap_end = 16, pagemap_initialized = True, pmem_start = 0, pmem_end = 65536\<rparr>"

definition kdemo_tabs :: tables where
  "kdemo_tabs = (\<lambda>f i. if f = 1 \<and> i = 511 then 32775 else if f = 8 \<and> i = 510 then 36871 else if f = 9 \<and> i = 0 then 40967
     else if f = 10 \<and> i = 15 then 61443 else demo_tabs f i)"

definition kdemo :: vmst where
  "kdemo = \<lparr>vm = \<lparr>pm = kdemo_pmem, tabs = kdemo_tabs, cr3 = 1\<rparr>,
     spaces = (\<lambda>_. \<lparr>as_regions = [0], as_vpmap = Some 1, as_heap = None\<rparr>),
     mrs = (\<lambda>_. \<lparr>mr_as = 1, mr_start = 4096, mr_end = 16384, mr_perm = MEMPERM_URW, mr_shared = False, mr_store = None, mr_ofs = 0\<rparr>),
     pool = [1], kvpmap = 0, cur = Some 1\<rparr>"

lemma kdemo_frames: "frames_ok kdemo_pmem" "free_frames kdemo_pmem = {15}" "0 < f \<Longrightarrow> f < 15 \<Longrightarrow> owned kdemo_pmem f"
proof -
  have "buddy_inv 16 kdemo_pmem {..<16} {}"
    by (rule invI) (auto simp: kdemo_pmem_def blk_def)
  then have "pmem_ok kdemo_pmem {..<16}" by (simp add: pmem_ok_def allocated_def) (simp add: kdemo_pmem_def)
  then show "frames_ok kdemo_pmem" by (auto simp: frames_ok_def)
  show "free_frames kdemo_pmem = {15}" by (auto simp: free_frames_def kdemo_pmem_def split: if_splits)
  show "0 < f \<Longrightarrow> f < 15 \<Longrightarrow> owned kdemo_pmem f" by (simp add: owned_def kdemo_pmem_def)
qed

lemma kdemo_entries: "entry_frame 32775 = 8" "entry_frame 36871 = 9" "entry_frame 40967 = 10"
  by (simp_all add: entry_frame_def ENTRY_ADDR_def)

lemma kdemo_user_nodes: "upath p \<Longrightarrow> node kdemo_tabs 1 p = Some f \<Longrightarrow> (p, f) \<in> {([], 1), ([0], 2), ([0, 0], 3), ([0, 0, 0], 4)}"
proof -
  assume p: "upath p" "node kdemo_tabs 1 p = Some f"
  have 4: "node kdemo_tabs 4 q = Some f \<Longrightarrow> q = [] \<and> f = 4 \<or> q \<noteq> []" for q by (cases q) auto
  have 3: "node kdemo_tabs 3 q = Some f \<Longrightarrow> q = [] \<and> f = 3 \<or> (\<exists>q'. q = 0 # q' \<and> node kdemo_tabs 4 q' = Some f)" for q
    by (cases q) (auto simp: kdemo_tabs_def demo_tabs_def demo_entries split: if_splits)
  have 2: "node kdemo_tabs 2 q = Some f \<Longrightarrow> q = [] \<and> f = 2 \<or> (\<exists>q'. q = 0 # q' \<and> node kdemo_tabs 3 q' = Some f)" for q
    by (cases q) (auto simp: kdemo_tabs_def demo_tabs_def demo_entries split: if_splits)
  have "p = [] \<and> f = 1 \<or> (\<exists>q. p = 0 # q \<and> node kdemo_tabs 2 q = Some f)"
    using p by (cases p) (auto simp: kdemo_tabs_def demo_tabs_def demo_entries upath_def split: if_splits)
  then show ?thesis using 2 3 4 p(1) by (fastforce simp: upath_def)
qed

lemma kdemo_kernel_nodes: "kpath p \<Longrightarrow> node kdemo_tabs 1 p = Some f \<Longrightarrow> (p, f) \<in> {([511], 8), ([511, 510], 9), ([511, 510, 0], 10)}"
proof -
  assume p: "kpath p" "node kdemo_tabs 1 p = Some f"
  have 10: "node kdemo_tabs 10 q = Some f \<Longrightarrow> q = [] \<and> f = 10 \<or> q \<noteq> []" for q by (cases q) auto
  have 9: "node kdemo_tabs 9 q = Some f \<Longrightarrow> q = [] \<and> f = 9 \<or> (\<exists>q'. q = 0 # q' \<and> node kdemo_tabs 10 q' = Some f)" for q
    by (cases q) (auto simp: kdemo_tabs_def demo_tabs_def kdemo_entries split: if_splits)
  have 8: "node kdemo_tabs 8 q = Some f \<Longrightarrow> q = [] \<and> f = 8 \<or> (\<exists>q'. q = 510 # q' \<and> node kdemo_tabs 9 q' = Some f)" for q
    by (cases q) (auto simp: kdemo_tabs_def demo_tabs_def kdemo_entries split: if_splits)
  have "\<exists>q. p = 511 # q \<and> node kdemo_tabs 8 q = Some f"
    using p by (cases p) (auto simp: kdemo_tabs_def kdemo_entries kpath_def)
  then show ?thesis using 8 9 10 p(1) by (fastforce simp: kpath_def)
qed

lemma kdemo_nodes: "nodes {1} kdemo_tabs \<subseteq> {1, 2, 3, 4}"
  using kdemo_user_nodes by (auto simp: nodes_def)

lemma kdemo_ok: "vm_ok {1} (vm kdemo)"
proof -
  have "pt_inv kdemo_tabs {1} {15}"
    unfolding pt_inv_def
  proof (intro conjI ballI allI impI)
    fix r r' p q f
    assume a: "r \<in> {1}" "r' \<in> {1}" "upath p" "upath q" "node kdemo_tabs r p = Some f" "node kdemo_tabs r' q = Some f"
    then show "r = r'" "p = q" using kdemo_user_nodes [of p f] kdemo_user_nodes [of q f] by auto
  next
    fix r p f assume "r \<in> {1}" "upath p" "node kdemo_tabs r p = Some f"
    then show "f \<notin> {15}" using kdemo_user_nodes [of p f] by auto
  qed
  then show ?thesis using kdemo_frames by (simp add: vm_ok_def kdemo_def)
qed

lemma kdemo_tree: "kernel_tree kdemo_tabs 1 (nodes {1} kdemo_tabs \<union> {15})"
  unfolding kernel_tree_def
proof (intro conjI allI impI)
  fix p q f assume "kpath p" "kpath q" "node kdemo_tabs 1 p = Some f" "node kdemo_tabs 1 q = Some f"
  then show "p = q" using kdemo_kernel_nodes [of p f] kdemo_kernel_nodes [of q f] by auto
next
  fix p f assume "kpath p" "node kdemo_tabs 1 p = Some f"
  then show "f \<notin> nodes {1} kdemo_tabs \<union> {15}" using kdemo_kernel_nodes [of p f] kdemo_nodes by auto
qed

theorem pgfault_demand_zero_witness:
  "\<exists>res. handle_page_fault 1 12289 False True True kdemo = Some res \<and>
    (case res of
       Exit st' \<Rightarrow> free_frames (pm (vm st')) = {}
     | Resume st' \<Rightarrow> vpmap_lookup_vaddr 1 12289 (vm st') = Some (ERR_OK, 61441) \<and> tabs (vm st') 15 = (\<lambda>_. 0))"
proof -
  have r: "as_find_memregion 1 12289 1 kdemo = Some 0"
    by (simp add: as_find_memregion_def memregion_find_internal_def kdemo_def pg_round_up_def)
  have fr: "free_frames (pm (vm kdemo)) = {15}" using kdemo_frames(2) by (simp add: kdemo_def)
  have v: "as_vpmap (spaces kdemo (mr_as (mrs kdemo 0))) = Some 1" "True \<longrightarrow> is_write_memperm (mr_perm (mrs kdemo 0))"
    by (simp_all add: kdemo_def is_write_memperm_def)
  have u: "user_page 12289" by (simp add: user_page_def ENTRY_IDX_unat)
  have o: "of_nat (page_to_paddr 15) + pg_ofs 12289 = 61441" by (simp add: page_to_paddr_def pg_ofs_def)
  obtain res where res: "handle_page_fault 1 12289 False True True kdemo = Some res"
      "case res of Exit st' \<Rightarrow> free_frames (pm (vm st')) = {}
       | Resume st' \<Rightarrow> vm_ok {1} (vm st') \<and> (\<exists>f\<in>{15}. owned (pm (vm st')) f \<and> tabs (vm st') f = (\<lambda>_. 0) \<and>
           vpmap_lookup_vaddr 1 12289 (vm st') = Some (ERR_OK, of_nat (page_to_paddr f) + pg_ofs 12289)) \<and>
         (\<forall>r\<in>{1}. \<forall>w. user_page w \<longrightarrow> \<not> (r = 1 \<and> page_no w = page_no 12289) \<longrightarrow>
            vpmap_lookup_vaddr r w (vm st') = vpmap_lookup_vaddr r w (vm kdemo))"
    using pgfault_demand_zero [OF kdemo_ok r v(1) _ u v(2), unfolded fr] by blast
  then show ?thesis using o by (cases res) simp_all
qed

theorem cow_fault_exposes_kernel_witness:
  "\<exists>st'. handle_page_fault 1 4096 True True True kdemo = Some (Resume st') \<and>
     \<not> user_writable (tabs (vm kdemo)) 1 (kmap_p2v 61440) \<and> user_writable (tabs (vm st')) 1 (kmap_p2v 61440)"
proof -
  have r: "as_find_memregion 1 4096 1 kdemo = Some 0" "mr_perm (mrs kdemo 0) = MEMPERM_URW"
      "as_vpmap (spaces kdemo (mr_as (mrs kdemo 0))) = Some 1" "cr3 (vm kdemo) = 1"
    by (simp_all add: as_find_memregion_def memregion_find_internal_def kdemo_def pg_round_up_def)
  have t: "tabs (vm kdemo) = kdemo_tabs" "free_frames (pm (vm kdemo)) = {15}" using kdemo_frames(2) by (simp_all add: kdemo_def)
  have x: "xlate (tabs (vm kdemo)) 1 4096 = Some 20487" "owned (pm (vm kdemo)) (entry_frame 20487)"
    using kdemo_frames(3) by (simp_all add: xlate_def path_def demo_idx kdemo_def kdemo_tabs_def demo_tabs_def demo_entries)
  have f: "free_frames (pm (vm kdemo)) \<noteq> {}" "free_frames (pm (vm kdemo)) \<subseteq> {..<2 ^ 19 - 4096}" by (simp_all add: t(2))
  have tr: "kernel_tree (tabs (vm kdemo)) 1 (nodes {1} (tabs (vm kdemo)) \<union> free_frames (pm (vm kdemo)))" unfolding t by (rule kdemo_tree)
  let ?w = "kmap_p2v 61440"
  have w: "path ?w = [511, 510, 0]" "PTX ?w = 15" by (simp_all add: path_def ENTRY_IDX_unat kmap_p2v_def)
  have n: "node kdemo_tabs 1 (path ?w) = Some 10" "writable kdemo_tabs 1 (path ?w)"
    unfolding w by (simp_all add: kdemo_tabs_def kdemo_entries)
  have "\<exists>x. vpmap_lookup_vaddr 1 ?w (vm kdemo) = Some (ERR_OK, x)"
    using n(1) w(2) by (simp add: lookup_xlate xlate_def t(1)) (simp add: kdemo_tabs_def)
  moreover have "\<not> user_writable kdemo_tabs 1 ?w"
    unfolding user_writable_def writable_snoc [OF n(1)] by (simp add: w kdemo_tabs_def)
  moreover have "page_to_paddr (15 + 0) = 61440" by (simp add: page_to_paddr_def)
  ultimately show ?thesis
    using cow_fault_exposes_kernel [OF kdemo_ok r _ demo_user(1) x f tr] n(2)
    unfolding t Let_def by fastforce
qed

end
