(* ===== verification/Regions.thy ===== *)
theory Regions
  imports Vm
begin

text \<open>
  Properties of the memory regions of \<open>Vm\<close>: what \<^verbatim>\<open>as_map_memregion\<close> and \<^verbatim>\<open>memregion_extend\<close> check, and what they do not.
\<close>

section \<open>Mapping\<close>

lemma find_none: "\<forall>x\<in>set xs. \<not> P x \<Longrightarrow> find P xs = None"
  by (simp add: find_None_iff)

text \<open>\<^verbatim>\<open>as_map_memregion\<close> accepts a range that is already taken. The overlap check passes the end address \<^verbatim>\<open>addr+size\<close> where
  \<^verbatim>\<open>memregion_find_internal\<close> takes a size, so a region that covers exactly the requested range is not noticed; only
  regions reaching to twice the address would be.\<close>

theorem as_map_memregion_overlaps:
  assumes "a \<noteq> kas" "pg_aligned addr" "addr + pg_round_up size' \<ge> addr" "\<not> is_kern_memperm perm"
    "is_user_addr (pg_round_up (addr + size') AND NOT 0xFFF)" "pool st = r # rs"
    and q: "q \<in> set (as_regions (spaces st a))" "mr_start (mrs st q) = addr" "mr_end (mrs st q) = addr + size'" "r \<noteq> q"
    and low: "\<forall>c\<in>set (as_regions (spaces st a)). mr_start (mrs st c) \<le> addr \<longrightarrow> pg_round_up (mr_end (mrs st c)) < addr + (addr + size')"
  shows "\<exists>st'. as_map_memregion a addr size' perm store ofs shared st = Some (Some r, st') \<and>
     {q, r} \<subseteq> set (as_regions (spaces st' a)) \<and>
     mr_start (mrs st' r) = mr_start (mrs st' q) \<and> mr_end (mrs st' r) = mr_end (mrs st' q)"
proof -
  have "addr \<noteq> ADDR_ANYWHERE" using assms(2) by (auto simp: pg_aligned_def)
  moreover have "memregion_find_internal a addr (addr + size') st = None"
    unfolding memregion_find_internal_def by (rule find_none) (use low in \<open>auto simp: not_le\<close>)
  ultimately show ?thesis
    using assms by (auto simp: as_map_memregion_def memregion_map_internal_def map_region_at_def set_space_def Let_def set_insert_ordered)
qed

section \<open>Growing the heap\<close>

lemma through_int_small:
  assumes x: "unat x < 2 ^ 31"
  shows "through_int x = x"
proof (rule bit_eqI)
  fix n
  have "\<not> bit x m" if "31 \<le> m" for m
  proof -
    have "\<not> bit (unat x) m" using small_bits [OF x, of m] that by auto
    then show ?thesis by (simp add: bit_unsigned_iff)
  qed
  then show "bit (through_int x) n = bit x n"
    by (auto simp: through_int_def bit_signed_take_bit_iff min_def)
qed

text \<open>A region that stays below 2 GB always grows.\<close>

lemma memregion_extend_grows:
  assumes r: "mrs st region = m" "mr_start m \<le> mr_end m" and sz: "unat (mr_end m) + unat size' < 2 ^ 31"
  shows "memregion_extend region size' st = Some (ERR_OK, Some (mr_end m), st\<lparr>mrs := (mrs st)(region := m\<lparr>mr_end := mr_end m + size'\<rparr>)\<rparr>)"
proof -
  have add: "unat (mr_end m + size') = unat (mr_end m) + unat size'"
    using sz by (simp add: unat_word_ariths)
  have b: "through_int (mr_end m) = mr_end m" "through_int (mr_end m + size') = mr_end m + size'"
    using sz add by (simp_all add: through_int_small)
  have new: "\<not> mr_end m + size' < mr_start m" using r(2) add by (simp add: word_le_nat_alt word_less_nat_alt)
  have pos: "\<not> size' <s 0"
  proof -
    have "uint size' < int (2 ^ 31)" by (rule uint_less_of_unat) (use sz in simp)
    then have "sint size' = uint size'" unfolding sint_uint by (intro signed_take_bit_int_eq_self order_trans [OF _ uint_ge_0]) simp_all
    then have "0 \<le> sint size'" by simp
    then show ?thesis by (simp add: word_sless_alt)
  qed
  show ?thesis using r new pos by (auto simp: memregion_extend_def b Let_def)
qed

text \<open>\<^verbatim>\<open>memregion_extend\<close> never refuses to grow a region below 2 GB, whatever other regions lie in the way: its overlap test
  compares the old end, not the new one, with the regions that start after the old end. The documented \<^verbatim>\<open>ERR_VM_BOUND\<close> does
  not occur, and the grown region overlaps any region that starts inside the new part.\<close>

theorem memregion_extend_ignores_neighbours:
  assumes r: "mrs st region = m" "mr_start m \<le> mr_end m" and sz: "unat (mr_end m) + unat size' < 2 ^ 31"
    and c: "c \<in> set (as_regions (spaces st (mr_as m)))" "c \<noteq> region" "mr_end m \<le> mr_start (mrs st c)"
      "mr_start (mrs st c) < mr_end m + size'"
  shows "\<exists>st'. memregion_extend region size' st = Some (ERR_OK, Some (mr_end m), st') \<and>
     mr_end (mrs st' region) = mr_end m + size' \<and> mrs st' c = mrs st c \<and>
     mr_start (mrs st' region) \<le> mr_start (mrs st' c) \<and> mr_start (mrs st' c) < mr_end (mrs st' region)"
proof -
  have "mr_start m \<le> mr_start (mrs st c)" using r(2) c(3) by order
  then show ?thesis using memregion_extend_grows [OF r sz] c r(1) by simp
qed

section \<open>Two regions\<close>

definition two_regions :: vmst where
  "two_regions = \<lparr>vm = demo_vm, spaces = (\<lambda>_. \<lparr>as_regions = [0, 1], as_vpmap = Some 1, as_heap = Some 0\<rparr>),
     mrs = (\<lambda>i. \<lparr>mr_as = 1, mr_start = (if i = 0 then 0x400000 else 0x402000), mr_end = (if i = 0 then 0x401000 else 0x403000),
        mr_perm = MEMPERM_URW, mr_shared = False, mr_store = None, mr_ofs = 0\<rparr>),
     pool = [7], kvpmap = 0, cur = Some 1\<rparr>"

theorem as_map_memregion_overlaps_witness:
  "\<exists>st'. as_map_memregion 1 0x400000 0x1000 MEMPERM_URW None 0 False two_regions = Some (Some 7, st') \<and>
     {0, 7} \<subseteq> set (as_regions (spaces st' 1)) \<and>
     mr_start (mrs st' 7) = mr_start (mrs st' 0) \<and> mr_end (mrs st' 7) = mr_end (mrs st' 0)"
  by (rule as_map_memregion_overlaps [where rs = "[]"])
    (simp_all add: two_regions_def pg_aligned_def pg_round_up_def is_kern_memperm_def is_user_addr_def)

theorem memregion_extend_ignores_neighbours_witness:
  "\<exists>st'. memregion_extend 0 0x2000 two_regions = Some (ERR_OK, Some 0x401000, st') \<and> mr_end (mrs st' 0) = 0x403000 \<and>
     mr_start (mrs st' 1) = 0x402000"
  using memregion_extend_ignores_neighbours [of two_regions 0 "mrs two_regions 0" "0x2000" 1]
  by (simp add: two_regions_def) auto

end
