(* ===== verification/Kmalloc.thy ===== *)
theory Kmalloc
  imports Frames
begin

text \<open>
  The slab allocator: \<^verbatim>\<open>kernel/mm/kmalloc.c\<close>.

  Addresses are physical: the kernel reaches them through its fixed mapping, so \<^verbatim>\<open>kmap_p2v\<close> and \<^verbatim>\<open>kmap_v2p\<close> cancel. A slab is known by
  the address of its first page. Its fields and its array of free indices are kept in \<open>slabs\<close>, the bytes of the objects in
  \<open>bytes\<close>; the properties show that objects lie behind the fields and the array. \<open>page_slab\<close> and \<open>page_cache\<close> are the fields
  of \<^verbatim>\<open>struct page\<close> of the same name. Sizes are below 2 to the 32, so the arithmetic of \<^verbatim>\<open>size_t\<close> does not wrap and is on \<open>nat\<close>.
  The cache lock is held during a call, which is one step. \<open>None\<close> is a panic.
\<close>

section \<open>State\<close>

record slab =
  objs :: nat
  free :: int
  n_pages :: nat
  freearr :: "nat \<Rightarrow> int"

record kmem_cache =
  full_slabs :: "nat list"
  free_slabs :: "nat list"
  obj_size :: nat

record kheap =
  kpm :: pmem
  slabs :: "nat \<Rightarrow> slab"
  page_slab :: "nat \<Rightarrow> nat option"
  page_cache :: "nat \<Rightarrow> nat option"
  caches :: "nat \<Rightarrow> kmem_cache"
  kmallocs :: "nat list"
  bytes :: "nat \<Rightarrow> u8"

abbreviation (input) MIN_OBJS_PER_SLAB :: nat where "MIN_OBJS_PER_SLAB \<equiv> 128"

text \<open>The size of \<^verbatim>\<open>struct slab\<close>: two list pointers, the object pointer, the padded index and the page count.\<close>

abbreviation (input) sizeof_slab :: nat where "sizeof_slab \<equiv> 40"

text \<open>\<^verbatim>\<open>allocator_cache\<close> is a variable of the kernel image; it is cache 0, where no object can be.\<close>

abbreviation (input) allocator_cache :: nat where "allocator_cache \<equiv> 0"

definition set_slab :: "nat \<Rightarrow> (slab \<Rightarrow> slab) \<Rightarrow> kheap \<Rightarrow> kheap" where
  "set_slab s f st = st\<lparr>slabs := (slabs st)(s := f (slabs st s))\<rparr>"

definition set_cache :: "nat \<Rightarrow> (kmem_cache \<Rightarrow> kmem_cache) \<Rightarrow> kheap \<Rightarrow> kheap" where
  "set_cache c f st = st\<lparr>caches := (caches st)(c := f (caches st c))\<rparr>"

definition fill :: "nat \<Rightarrow> u8 \<Rightarrow> nat \<Rightarrow> kheap \<Rightarrow> kheap" where
  "fill a v n st = st\<lparr>bytes := (\<lambda>x. if a \<le> x \<and> x < a + n then v else bytes st x)\<rparr>"

section \<open>Slabs\<close>

text \<open>The pages of a slab with room for at least 128 objects, their indices and the slab structure.\<close>

definition slab_n_pages :: "nat \<Rightarrow> nat" where
  "slab_n_pages sz = (sizeof_slab + (sz + 4) * MIN_OBJS_PER_SLAB + PG - 1) div PG"

definition slab_create :: "nat \<Rightarrow> kheap \<Rightarrow> (nat option \<times> kheap) option" where
  "slab_create c st = do {
     let sz = obj_size (caches st c);
     kassert (sz > 0);
     let np = slab_n_pages sz;
     (er, paddr, p) \<leftarrow> pmem_nalloc np (kpm st);
     let st = st\<lparr>kpm := p\<rparr>;
     (if er \<noteq> ERR_OK then Some (None, st)
      else do {
        let n_objs = (np * PG - sizeof_slab) div (sz + 4);
        kassert (n_objs \<ge> MIN_OBJS_PER_SLAB);
        let st = set_slab paddr (\<lambda>_. \<lparr>objs = paddr + sizeof_slab + 4 * n_objs, free = 0, n_pages = np,
                   freearr = (\<lambda>i. if i = n_objs - 1 then -1 else int i + 1)\<rparr>) st;
        let st = st\<lparr>page_cache := (\<lambda>q. if paddr div PG \<le> q \<and> q < paddr div PG + np then Some c else page_cache st q),
                    page_slab := (\<lambda>q. if paddr div PG \<le> q \<and> q < paddr div PG + np then Some paddr else page_slab st q)\<rparr>;
        let st = set_cache c (\<lambda>k. k\<lparr>free_slabs := free_slabs k @ [paddr]\<rparr>) st;
        Some (Some paddr, st)
      })
   }"

definition slab_destroy :: "nat \<Rightarrow> kheap \<Rightarrow> kheap option" where
  "slab_destroy s st = do {
     p \<leftarrow> pmem_nfree s (n_pages (slabs st s)) (kpm st);
     Some (st\<lparr>kpm := p\<rparr>)
   }"

fun slab_list_destroy :: "nat list \<Rightarrow> kheap \<Rightarrow> kheap option" where
  "slab_list_destroy [] st = Some st"
| "slab_list_destroy (s # ss) st = do { st \<leftarrow> slab_destroy s st; slab_list_destroy ss st }"

section \<open>Caches\<close>

definition kmem_cache_alloc :: "nat \<Rightarrow> kheap \<Rightarrow> (nat option \<times> kheap) option" where
  "kmem_cache_alloc c st = do {
     (r, st) \<leftarrow> (case free_slabs (caches st c) of
        [] \<Rightarrow> slab_create c st
      | s # _ \<Rightarrow> Some (Some s, st));
     (case r of
        None \<Rightarrow> Some (None, st)
      | Some s \<Rightarrow> do {
          kassert (free (slabs st s) \<noteq> -1);
          let sz = obj_size (caches st c);
          let obj = objs (slabs st s) + sz * nat (free (slabs st s));
          let st = set_slab s (\<lambda>b. b\<lparr>free := freearr b (nat (free b))\<rparr>) st;
          let st = (if free (slabs st s) = -1
                    then set_cache c (\<lambda>k. k\<lparr>free_slabs := remove1 s (free_slabs k), full_slabs := full_slabs k @ [s]\<rparr>) st
                    else st);
          Some (Some obj, fill obj 0x2b sz st)
        })
   }"

definition kmem_cache_free :: "nat \<Rightarrow> nat \<Rightarrow> kheap \<Rightarrow> kheap option" where
  "kmem_cache_free c obj st = do {
     let sz = obj_size (caches st c);
     let st = fill obj 0x2b sz st;
     s \<leftarrow> page_slab st (paddr_to_page obj);
     let full = (free (slabs st s) = -1);
     let index = (obj - objs (slabs st s)) div sz;
     let st = set_slab s (\<lambda>b. b\<lparr>freearr := (freearr b)(index := free b)\<rparr>) st;
     let st = set_slab s (\<lambda>b. b\<lparr>free := int index\<rparr>) st;
     Some (if full
           then set_cache c (\<lambda>k. k\<lparr>full_slabs := remove1 s (full_slabs k), free_slabs := free_slabs k @ [s]\<rparr>) st
           else st)
   }"

definition kmem_cache_create :: "nat \<Rightarrow> kheap \<Rightarrow> (nat option \<times> kheap) option" where
  "kmem_cache_create size' st = do {
     (r, st) \<leftarrow> kmem_cache_alloc allocator_cache st;
     Some (case r of
        None \<Rightarrow> (None, st)
      | Some k \<Rightarrow> (Some k, set_cache k (\<lambda>_. \<lparr>full_slabs = [], free_slabs = [], obj_size = size'\<rparr>) st))
   }"

definition kmem_cache_destroy :: "nat \<Rightarrow> kheap \<Rightarrow> kheap option" where
  "kmem_cache_destroy c st = do {
     st \<leftarrow> slab_list_destroy (free_slabs (caches st c)) st;
     st \<leftarrow> slab_list_destroy (full_slabs (caches st c)) (set_cache c (\<lambda>k. k\<lparr>free_slabs := []\<rparr>) st);
     kmem_cache_free allocator_cache c (set_cache c (\<lambda>k. k\<lparr>full_slabs := []\<rparr>) st)
   }"

section \<open>kmalloc\<close>

definition kmalloc_allocators :: "nat list" where
  "kmalloc_allocators = [32, 64, 128, 256, 512, 1024, 2048, 4096]"

fun create_all :: "nat list \<Rightarrow> kheap \<Rightarrow> kheap option" where
  "create_all [] st = Some st"
| "create_all (n # ns) st = do {
     (r, st) \<leftarrow> kmem_cache_create n st;
     k \<leftarrow> r;
     create_all ns (st\<lparr>kmallocs := kmallocs st @ [k]\<rparr>)
   }"

definition kmalloc_init :: "nat \<Rightarrow> kheap \<Rightarrow> kheap option" where
  "kmalloc_init sizeof_kmem_cache st =
     create_all kmalloc_allocators
       (set_cache allocator_cache (\<lambda>_. \<lparr>full_slabs = [], free_slabs = [], obj_size = sizeof_kmem_cache\<rparr>) (st\<lparr>kmallocs := []\<rparr>))"

fun find_allocator :: "nat \<Rightarrow> (nat \<times> nat) list \<Rightarrow> nat option" where
  "find_allocator size' [] = None"
| "find_allocator size' ((k, n) # ks) = (if n \<ge> size' then Some k else find_allocator size' ks)"

definition kmalloc :: "nat \<Rightarrow> kheap \<Rightarrow> (nat option \<times> kheap) option" where
  "kmalloc size' st =
     (if size' = 0 then Some (None, st)
      else if size' > last kmalloc_allocators then Some (None, st)
      else do {
        c \<leftarrow> find_allocator size' (zip (kmallocs st) kmalloc_allocators);
        kmem_cache_alloc c st
      })"

definition kfree :: "nat \<Rightarrow> kheap \<Rightarrow> kheap option" where
  "kfree ptr st = do {
     c \<leftarrow> page_cache st (paddr_to_page ptr);
     kmem_cache_free c ptr st
   }"

end
