(* ===== verification/Slabs.thy ===== *)
theory Slabs
  imports Kmalloc
begin

text \<open>
  Correctness of the slab allocator of \<open>Kmalloc\<close>: a cache is a set of live objects that do not overlap; allocation adds one, release
  removes it.
\<close>

section \<open>Slabs and their objects\<close>

definition capacity :: "nat \<Rightarrow> slab \<Rightarrow> nat" where
  "capacity sz b = (n_pages b * PG - sizeof_slab) div (sz + 4)"

definition slab_range :: "nat \<Rightarrow> slab \<Rightarrow> nat set" where
  "slab_range s b = {s div PG..<s div PG + n_pages b}"

text \<open>The free indices, in the order of the linked list in the array.\<close>

fun chained :: "(nat \<Rightarrow> int) \<Rightarrow> int \<Rightarrow> nat list \<Rightarrow> bool" where
  "chained a h [] = (h = -1)"
| "chained a h (i # is) = (h = int i \<and> chained a (a i) is)"

lemma chained_upd: "i \<notin> set is \<Longrightarrow> chained (a(i := x)) h is = chained a h is"
  by (induction "is" arbitrary: h) auto

definition slab_ok :: "nat \<Rightarrow> nat \<Rightarrow> slab \<Rightarrow> nat list \<Rightarrow> bool" where
  "slab_ok sz s b ch \<longleftrightarrow> PG dvd s \<and> 0 < sz \<and> sizeof_slab \<le> n_pages b * PG \<and> objs b = s + sizeof_slab + 4 * capacity sz b
     \<and> chained (freearr b) (free b) ch \<and> distinct ch \<and> set ch \<subseteq> {..<capacity sz b}"

definition live_in :: "nat \<Rightarrow> slab \<Rightarrow> nat list \<Rightarrow> nat set" where
  "live_in sz b ch = {objs b + sz * i |i. i < capacity sz b \<and> i \<notin> set ch}"

text \<open>An object lies behind the array and inside the pages of its slab.\<close>

lemma object_place:
  assumes "slab_ok sz s b ch" "i < capacity sz b" "objs b + sz * i \<le> x" "x < objs b + sz * i + sz"
  shows "x div PG \<in> slab_range s b" "s + sizeof_slab + 4 * capacity sz b \<le> x"
proof -
  have "sz * i + sz \<le> sz * capacity sz b" using assms(2) by (metis Suc_leI add.commute mult_Suc_right mult_le_mono2)
  moreover have "capacity sz b * (sz + 4) \<le> n_pages b * PG - sizeof_slab" by (simp add: capacity_def)
  moreover have b: "objs b = s + sizeof_slab + 4 * capacity sz b" "sizeof_slab \<le> n_pages b * PG" "PG dvd s"
    using assms(1) by (simp_all add: slab_ok_def)
  ultimately have x: "x < s + n_pages b * PG" using assms(4) by (simp add: algebra_simps)
  show l: "s + sizeof_slab + 4 * capacity sz b \<le> x" using assms(3) b(1) by simp
  obtain k where k: "s = PG * k" using b(3) by (elim dvdE)
  have "x < PG * (k + n_pages b)" "PG * k \<le> x" using x l k by (simp_all add: algebra_simps)
  then show "x div PG \<in> slab_range s b"
    by (simp add: slab_range_def k less_mult_imp_div_less mult.commute)
qed

lemma same_index:
  fixes i j sz :: nat
  assumes "sz * i \<le> y" "y < sz * i + sz" "sz * j \<le> y" "y < sz * j + sz"
  shows "i = j"
proof -
  have "y div sz = i" using assms(1,2) by (intro div_nat_eqI) (simp_all add: mult.commute)
  moreover have "y div sz = j" using assms(3,4) by (intro div_nat_eqI) (simp_all add: mult.commute)
  ultimately show ?thesis by simp
qed

section \<open>The cache invariant\<close>

text \<open>\<open>fs\<close> and \<open>us\<close> are the slabs with and without free slots, \<open>ch s\<close> the free indices of slab \<open>s\<close>.\<close>

definition cache_chains :: "kheap \<Rightarrow> nat \<Rightarrow> nat list \<Rightarrow> nat list \<Rightarrow> nat \<Rightarrow> (nat \<Rightarrow> nat list) \<Rightarrow> bool" where
  "cache_chains st c fs us sz ch \<longleftrightarrow> frames_ok (kpm st) \<and> 0 < sz \<and> sz \<le> 4096 \<and> caches st c = \<lparr>full_slabs = us, free_slabs = fs, obj_size = sz\<rparr>
     \<and> distinct (fs @ us)
     \<and> (\<forall>s\<in>set (fs @ us). slab_ok sz s (slabs st s) (ch s)
            \<and> (\<forall>p\<in>slab_range s (slabs st s). page_slab st p = Some s \<and> page_cache st p = Some c \<and> p \<notin> free_frames (kpm st)))
     \<and> (\<forall>s\<in>set fs. ch s \<noteq> []) \<and> (\<forall>s\<in>set us. ch s = [])"

definition live :: "kheap \<Rightarrow> nat list \<Rightarrow> nat \<Rightarrow> (nat \<Rightarrow> nat list) \<Rightarrow> nat set" where
  "live st ss sz ch = (\<Union>s\<in>set ss. live_in sz (slabs st s) (ch s))"

definition cache_inv :: "kheap \<Rightarrow> nat \<Rightarrow> nat set \<Rightarrow> bool" where
  "cache_inv st c L \<longleftrightarrow> (\<exists>fs us sz ch. cache_chains st c fs us sz ch \<and> L = live st (fs @ us) sz ch)"

lemma chainsD:
  assumes "cache_chains st c fs us sz ch"
  shows "frames_ok (kpm st)" "0 < sz" "sz \<le> 4096" "caches st c = \<lparr>full_slabs = us, free_slabs = fs, obj_size = sz\<rparr>" "distinct (fs @ us)"
    "s \<in> set (fs @ us) \<Longrightarrow> slab_ok sz s (slabs st s) (ch s)"
    "s \<in> set (fs @ us) \<Longrightarrow> p \<in> slab_range s (slabs st s) \<Longrightarrow> page_slab st p = Some s \<and> page_cache st p = Some c \<and> p \<notin> free_frames (kpm st)"
    "s \<in> set fs \<Longrightarrow> ch s \<noteq> []" "s \<in> set us \<Longrightarrow> ch s = []"
  using assms unfolding cache_chains_def by blast+

lemma object_slab:
  assumes "cache_chains st c fs us sz ch" "s \<in> set (fs @ us)" "i < capacity sz (slabs st s)"
    "objs (slabs st s) + sz * i \<le> x" "x < objs (slabs st s) + sz * i + sz"
  shows "page_slab st (x div PG) = Some s" "page_cache st (x div PG) = Some c"
  using chainsD(7) [OF assms(1,2) object_place(1) [OF chainsD(6) [OF assms(1,2)] assms(3-5)]] by blast+

text \<open>No byte belongs to two objects.\<close>

lemma objects_disjoint:
  assumes "cache_chains st c fs us sz ch" "s \<in> set (fs @ us)" "i < capacity sz (slabs st s)" "t \<in> set (fs @ us)" "j < capacity sz (slabs st t)"
    and "objs (slabs st s) + sz * i \<le> x" "x < objs (slabs st s) + sz * i + sz"
      "objs (slabs st t) + sz * j \<le> x" "x < objs (slabs st t) + sz * j + sz"
  shows "s = t \<and> i = j"
proof -
  have st: "s = t" using object_slab(1) [OF assms(1-3,6,7)] object_slab(1) [OF assms(1,4,5,8,9)] by simp
  have "i = j" by (rule same_index [of sz i "x - objs (slabs st s)" j]) (use assms(6-9) st in auto)
  then show ?thesis using st by simp
qed

section \<open>Changing the free list of one slab\<close>

lemma live_split: "s \<in> set ss \<Longrightarrow> live st ss sz ch = (\<Union>t\<in>set ss - {s}. live_in sz (slabs st t) (ch t)) \<union> live_in sz (slabs st s) (ch s)"
  unfolding live_def by blast

lemma chains_update:
  assumes cc: "cache_chains st c fs us sz ch" and s: "s \<in> set (fs @ us)"
    and b: "slabs st' = (slabs st)(s := b')" "n_pages b' = n_pages (slabs st s)" "slab_ok sz s b' ch'"
    and l: "distinct (fs' @ us')" "set (fs' @ us') = set (fs @ us)" "caches st' c = \<lparr>full_slabs = us', free_slabs = fs', obj_size = sz\<rparr>"
    and k: "kpm st' = kpm st" "page_slab st' = page_slab st" "page_cache st' = page_cache st"
    and e: "\<forall>t\<in>set fs'. (ch(s := ch')) t \<noteq> []" "\<forall>t\<in>set us'. (ch(s := ch')) t = []"
  shows "cache_chains st' c fs' us' sz (ch(s := ch'))"
    "live st' (fs' @ us') sz (ch(s := ch')) = (\<Union>t\<in>set (fs @ us) - {s}. live_in sz (slabs st t) (ch t)) \<union> live_in sz b' ch'"
proof -
  have t: "slab_ok sz t (slabs st' t) ((ch(s := ch')) t) \<and>
      (\<forall>p\<in>slab_range t (slabs st' t). page_slab st' p = Some t \<and> page_cache st' p = Some c \<and> p \<notin> free_frames (kpm st'))" if "t \<in> set (fs @ us)" for t
    using chainsD(6,7) [OF cc that] b k by (auto simp: slab_range_def)
  show "cache_chains st' c fs' us' sz (ch(s := ch'))"
    unfolding cache_chains_def l(2) using chainsD(1-3) [OF cc] l(1,3) e k(1) t by (intro conjI ballI) simp_all
  show "live st' (fs' @ us') sz (ch(s := ch')) = (\<Union>t\<in>set (fs @ us) - {s}. live_in sz (slabs st t) (ch t)) \<union> live_in sz b' ch'"
  proof -
    have "(\<Union>t\<in>set (fs @ us) - {s}. live_in sz (slabs st' t) ((ch(s := ch')) t)) = (\<Union>t\<in>set (fs @ us) - {s}. live_in sz (slabs st t) (ch t))"
      by (rule SUP_cong) (simp_all add: b(1))
    then show ?thesis using s live_split [of s "fs' @ us'" st' sz "ch(s := ch')"] unfolding l(2) b(1) by simp
  qed
qed

lemma live_in_take:
  assumes "i < capacity sz b" "i \<notin> set is" "objs b' = objs b" "capacity sz b' = capacity sz b"
  shows "live_in sz b' is = insert (objs b + sz * i) (live_in sz b (i # is))"
  using assms by (auto simp: live_in_def)

lemma live_in_put:
  assumes "0 < sz" "objs b' = objs b" "capacity sz b' = capacity sz b"
  shows "live_in sz b' (i # is) = live_in sz b is - {objs b + sz * i}"
  using assms by (auto simp: live_in_def)

lemma other_slabs:
  assumes "cache_chains st c fs us sz ch" "s \<in> set (fs @ us)" "i < capacity sz (slabs st s)"
  shows "objs (slabs st s) + sz * i \<notin> (\<Union>t\<in>set (fs @ us) - {s}. live_in sz (slabs st t) (ch t))"
proof
  let ?x = "objs (slabs st s) + sz * i"
  assume "?x \<in> (\<Union>t\<in>set (fs @ us) - {s}. live_in sz (slabs st t) (ch t))"
  then obtain t j where t: "t \<in> set (fs @ us)" "t \<noteq> s" "j < capacity sz (slabs st t)" "?x = objs (slabs st t) + sz * j"
    by (auto simp: live_in_def)
  have "s = t \<and> i = j"
    by (rule objects_disjoint [OF assms t(1,3), of ?x]) (use t(4) chainsD(2) [OF assms(1)] in auto)
  then show False using t(2) by simp
qed

section \<open>Allocation\<close>

lemma take_slot:
  assumes cc: "cache_chains st c (s # fs) us sz ch"
  shows "\<exists>i is. ch s = i # is \<and> free (slabs st s) = int i \<and> i < capacity sz (slabs st s) \<and> i \<notin> set is
    \<and> slab_ok sz s (slabs st s\<lparr>free := freearr (slabs st s) i\<rparr>) is \<and> (freearr (slabs st s) i = -1 \<longleftrightarrow> is = [])"
proof -
  have ok: "slab_ok sz s (slabs st s) (ch s)" using chainsD(6) [OF cc, of s] by simp
  obtain i "is" where i: "ch s = i # is" using chainsD(8) [OF cc, of s] by (cases "ch s") auto
  have "freearr (slabs st s) i = -1 \<longleftrightarrow> is = []" using ok i by (cases "is") (auto simp: slab_ok_def)
  then show ?thesis using ok i by (auto simp: slab_ok_def capacity_def)
qed

lemma alloc_from_slab:
  assumes cc: "cache_chains st c (s # fs) us sz ch"
  shows "\<exists>o' st'. kmem_cache_alloc c st = Some (Some o', st') \<and> o' \<notin> live st ((s # fs) @ us) sz ch
    \<and> cache_inv st' c (insert o' (live st ((s # fs) @ us) sz ch)) \<and> obj_size (caches st' c) = sz \<and> (\<forall>x. \<not> (o' \<le> x \<and> x < o' + sz) \<longrightarrow> bytes st' x = bytes st x)"
proof -
  obtain i "is" where i: "ch s = i # is" "free (slabs st s) = int i" "i < capacity sz (slabs st s)" "i \<notin> set is"
      "slab_ok sz s (slabs st s\<lparr>free := freearr (slabs st s) i\<rparr>) is" "freearr (slabs st s) i = -1 \<longleftrightarrow> is = []"
    using take_slot [OF cc] by blast
  let ?b = "slabs st s\<lparr>free := freearr (slabs st s) i\<rparr>" and ?o = "objs (slabs st s) + sz * i"
  define fs' us' where "fs' = (if is = [] then fs else s # fs)" and "us' = (if is = [] then us @ [s] else us)"
  have ca: "caches st c = \<lparr>full_slabs = us, free_slabs = s # fs, obj_size = sz\<rparr>" by (rule chainsD(4) [OF cc])
  define st1 where "st1 = st\<lparr>slabs := (slabs st)(s := ?b)\<rparr>"
  define st' where "st' = fill ?o 0x2b sz (if is = []
      then set_cache c (\<lambda>k. k\<lparr>free_slabs := remove1 s (free_slabs k), full_slabs := full_slabs k @ [s]\<rparr>) st1 else st1)"
  have "set_slab s (\<lambda>b. b\<lparr>free := freearr b (nat (free b))\<rparr>) st = st1" using i(2) by (simp add: set_slab_def st1_def)
  then have run: "kmem_cache_alloc c st = Some (Some ?o, st')"
    using i(2,6) ca by (simp add: kmem_cache_alloc_def Let_def st'_def) (simp add: st1_def)
  have st': "slabs st' = (slabs st)(s := ?b)" "caches st' c = \<lparr>full_slabs = us', free_slabs = fs', obj_size = sz\<rparr>" "kpm st' = kpm st"
      "page_slab st' = page_slab st" "page_cache st' = page_cache st" "\<forall>x. \<not> (?o \<le> x \<and> x < ?o + sz) \<longrightarrow> bytes st' x = bytes st x"
    using ca by (simp_all add: st'_def st1_def fs'_def us'_def fill_def set_cache_def)
  have d: "distinct ((s # fs) @ us)" by (rule chainsD(5) [OF cc])
  note up = chains_update [OF cc _ st'(1) _ i(5) _ _ st'(2-5)]
  have e: "\<forall>t\<in>set fs'. (ch(s := is)) t \<noteq> []" "\<forall>t\<in>set us'. (ch(s := is)) t = []"
    using chainsD(8,9) [OF cc] d by (auto simp: fs'_def us'_def)
  have d': "distinct (fs' @ us')" "set (fs' @ us') = set ((s # fs) @ us)" using d by (auto simp: fs'_def us'_def)
  have cc': "cache_chains st' c fs' us' sz (ch(s := is))"
    and lv: "live st' (fs' @ us') sz (ch(s := is)) = (\<Union>t\<in>set ((s # fs) @ us) - {s}. live_in sz (slabs st t) (ch t)) \<union> live_in sz ?b is"
    using up [OF _ _ d' e] by simp_all
  have "live_in sz ?b is = insert ?o (live_in sz (slabs st s) (ch s))"
    unfolding i(1) by (rule live_in_take [OF i(3,4)]) (simp_all add: capacity_def)
  then have "live st' (fs' @ us') sz (ch(s := is)) = insert ?o (live st ((s # fs) @ us) sz ch)"
    unfolding lv using live_split [of s "(s # fs) @ us" st sz ch] by simp
  moreover have "?o \<notin> live_in sz (slabs st s) (ch s)" using chainsD(2) [OF cc] i(1) by (auto simp: live_in_def)
  then have "?o \<notin> live st ((s # fs) @ us) sz ch"
    using other_slabs [OF cc _ i(3)] live_split [of s "(s # fs) @ us" st sz ch] by simp
  ultimately show ?thesis using cc' run st'(2,6) unfolding cache_inv_def by (metis kmem_cache.select_convs(3))
qed

section \<open>A new slab\<close>

lemma nalloc_block:
  assumes "frames_ok s" "0 < n" "n \<le> 1024"
  shows "\<exists>er pa s'. pmem_nalloc n s = Some (er, pa, s') \<and>
    (er = ERR_OK \<and> frames_ok s' \<and> (\<exists>p. pa = page_to_paddr p \<and> {p..<p + n} \<subseteq> free_frames s) \<and> free_frames s' \<subseteq> free_frames s
       \<and> (\<forall>q\<in>{paddr_to_page pa..<paddr_to_page pa + n}. q \<notin> free_frames s')
     \<or> er = ERR_NOMEM \<and> s' = s)"
proof -
  obtain H where H: "pmem_ok s H" using assms(1) by (auto simp: frames_ok_def)
  have n10: "n \<le> 2 ^ 10" using assms(3) by simp
  obtain er pa s' where r: "pmem_nalloc n s = Some (er, pa, s')" "er = ERR_OK \<and> (\<exists>H' p. pa = page_to_paddr p \<and> handed_out s H p s' H'
         \<and> get_min_page_order n = Some (ord s' p) \<and> n \<le> 2 ^ ord s' p) \<or> er = ERR_NOMEM \<and> s' = s"
    using nalloc_ok [OF H assms(2) n10] by blast
  show ?thesis
  proof (cases "er = ERR_OK")
    case True
    then obtain H' p where p: "pa = page_to_paddr p" "handed_out s H p s' H'" "n \<le> 2 ^ ord s' p" using r(2) by auto
    have b: "{p..<p + n} \<subseteq> blk s' p" using p(3) by (auto simp: blk_def)
    have "frames_ok s'" using p(2) by (auto simp: handed_out_def frames_ok_def)
    moreover have "blk s' p \<subseteq> free_frames s" "free_frames s' = free_frames s - blk s' p"
      using handed_out_free [OF H p(2)] by auto
    ultimately show ?thesis using r(1) True p(1) b by auto
  next
    case False
    then show ?thesis using r by auto
  qed
qed

lemma chained_upt: "m < n \<Longrightarrow> chained (\<lambda>i. if i = n - 1 then -1 else int i + 1) (int m) [m..<n]"
proof (induction "n - m" arbitrary: m)
  case (Suc k)
  show ?case
  proof (cases "Suc m = n")
    case True
    then have "[m..<n] = [m]" by auto
    then show ?thesis using True by auto
  next
    case False
    then have "chained (\<lambda>i. if i = n - 1 then -1 else int i + 1) (int (Suc m)) [Suc m..<n]" using Suc.hyps(2) Suc.prems by (intro Suc.hyps(1)) auto
    then show ?thesis using False Suc.prems by (simp add: upt_conv_Cons add.commute)
  qed
qed simp

lemma new_slab_ok:
  assumes "0 < sz" "sizeof_slab + (sz + 4) * MIN_OBJS_PER_SLAB \<le> np * PG" "n = (np * PG - sizeof_slab) div (sz + 4)" "PG dvd s"
  shows "MIN_OBJS_PER_SLAB \<le> n"
    "slab_ok sz s \<lparr>objs = s + sizeof_slab + 4 * n, free = 0, n_pages = np, freearr = (\<lambda>i. if i = n - 1 then -1 else int i + 1)\<rparr> [0..<n]"
proof -
  have "MIN_OBJS_PER_SLAB * (sz + 4) \<le> np * PG - sizeof_slab" using assms(2) by (simp add: algebra_simps)
  then show n: "MIN_OBJS_PER_SLAB \<le> n" unfolding assms(3) by (simp add: less_eq_div_iff_mult_less_eq)
  then show "slab_ok sz s \<lparr>objs = s + sizeof_slab + 4 * n, free = 0, n_pages = np, freearr = (\<lambda>i. if i = n - 1 then -1 else int i + 1)\<rparr> [0..<n]"
    using assms chained_upt [of 0 n] by (simp add: slab_ok_def capacity_def atLeast0LessThan) 
qed

lemma slab_pages_enough: "sizeof_slab + (sz + 4) * MIN_OBJS_PER_SLAB \<le> slab_n_pages sz * PG"
proof -
  define x where "x = sizeof_slab + (sz + 4) * MIN_OBJS_PER_SLAB"
  have "(x + PG - 1) div PG * PG + (x + PG - 1) mod PG = x + PG - 1" by (rule div_mult_mod_eq)
  moreover have "(x + PG - 1) mod PG < PG" by simp
  ultimately have "x \<le> (x + PG - 1) div PG * PG" by linarith
  then show ?thesis by (simp only: x_def slab_n_pages_def)
qed

lemma slab_pages_few: "0 < sz \<Longrightarrow> sz \<le> 4096 \<Longrightarrow> 0 < slab_n_pages sz \<and> slab_n_pages sz \<le> 1024"
  using slab_pages_enough [of sz] by (auto simp: slab_n_pages_def less_mult_imp_div_less intro!: less_imp_le)

lemma slab_create_ok:
  assumes cc: "cache_chains st c fs us sz ch"
  shows "\<exists>r st'. slab_create c st = Some (r, st') \<and> bytes st' = bytes st \<and>
    (case r of None \<Rightarrow> st' = st
     | Some s \<Rightarrow> \<exists>ch'. cache_chains st' c (fs @ [s]) us sz ch' \<and> live st' ((fs @ [s]) @ us) sz ch' = live st (fs @ us) sz ch)"
proof -
  have ca: "caches st c = \<lparr>full_slabs = us, free_slabs = fs, obj_size = sz\<rparr>" and sz: "0 < sz" "sz \<le> 4096" and fo: "frames_ok (kpm st)"
    and d: "distinct (fs @ us)" by (rule chainsD [OF cc])+
  define np where "np = slab_n_pages sz"
  have big: "sizeof_slab + (sz + 4) * MIN_OBJS_PER_SLAB \<le> np * PG" unfolding np_def by (rule slab_pages_enough)
  have np: "0 < np" "np \<le> 1024" using slab_pages_few [OF sz] by (auto simp: np_def)
  obtain er pa s' where al: "pmem_nalloc np (kpm st) = Some (er, pa, s')" "er = ERR_OK \<and> frames_ok s' \<and>
      (\<exists>p. pa = page_to_paddr p \<and> {p..<p + np} \<subseteq> free_frames (kpm st)) \<and> free_frames s' \<subseteq> free_frames (kpm st)
       \<and> (\<forall>q\<in>{paddr_to_page pa..<paddr_to_page pa + np}. q \<notin> free_frames s') \<or> er = ERR_NOMEM \<and> s' = kpm st"
    using nalloc_block [OF fo np] by blast
  show ?thesis
  proof (cases "er = ERR_OK")
    case False
    then have "slab_create c st = Some (None, st)" using al ca sz by (auto simp: slab_create_def np_def [symmetric] Let_def)
    then show ?thesis by auto
  next
    case True
    then obtain p where p: "pa = page_to_paddr p" "{p..<p + np} \<subseteq> free_frames (kpm st)" "frames_ok s'" "free_frames s' \<subseteq> free_frames (kpm st)"
        "\<forall>q\<in>{p..<p + np}. q \<notin> free_frames s'" using al(2) by auto
    have pa: "pa div PG = p" "PG dvd pa" using p(1) by (simp_all add: page_to_paddr_def)
    define n where "n = (np * PG - sizeof_slab) div (sz + 4)"
    note new = new_slab_ok [OF sz(1) big n_def pa(2)]
    let ?b = "\<lparr>objs = pa + sizeof_slab + 4 * n, free = 0, n_pages = np, freearr = (\<lambda>i. if i = n - 1 then -1 else int i + 1)\<rparr>"
    obtain st' where st': "slab_create c st = Some (Some pa, st')" "slabs st' = (slabs st)(pa := ?b)" "kpm st' = s'" "bytes st' = bytes st"
        "caches st' c = \<lparr>full_slabs = us, free_slabs = fs @ [pa], obj_size = sz\<rparr>"
        "\<And>q. page_slab st' q = (if q \<in> {p..<p + np} then Some pa else page_slab st q)"
        "\<And>q. page_cache st' q = (if q \<in> {p..<p + np} then Some c else page_cache st q)"
    proof
      show "slab_create c st = Some (Some pa, (let st = set_slab pa (\<lambda>_. ?b) (st\<lparr>kpm := s'\<rparr>);
          st = st\<lparr>page_cache := (\<lambda>q. if pa div PG \<le> q \<and> q < pa div PG + np then Some c else page_cache st q),
                    page_slab := (\<lambda>q. if pa div PG \<le> q \<and> q < pa div PG + np then Some pa else page_slab st q)\<rparr> in
          set_cache c (\<lambda>k. k\<lparr>free_slabs := free_slabs k @ [pa]\<rparr>) st))"
        using al(1) True ca sz(1) new(1) by (simp add: slab_create_def np_def [symmetric] n_def [symmetric] Let_def)
    qed (use ca pa(1) in \<open>auto simp: Let_def set_slab_def set_cache_def\<close>)
    have old: "q \<notin> {p..<p + np}" if "t \<in> set (fs @ us)" "q \<in> slab_range t (slabs st t)" for t q
      using chainsD(7) [OF cc that] p(2) by blast
    have "pa \<notin> set (fs @ us)"
    proof
      assume t: "pa \<in> set (fs @ us)"
      have "p \<in> slab_range pa (slabs st pa)" using chainsD(6) [OF cc t] pa(1) by (auto simp: slab_range_def slab_ok_def)
      then show False using old [OF t, of p] np(1) by simp
    qed
    then have fresh: "pa \<notin> set (fs @ us)" "distinct ((fs @ [pa]) @ us)" using d by auto
    have "slab_ok sz t (slabs st' t) ((ch(pa := [0..<n])) t) \<and> (\<forall>q\<in>slab_range t (slabs st' t). page_slab st' q = Some t \<and> page_cache st' q = Some c \<and> q \<notin> free_frames (kpm st'))"
      if t: "t \<in> set ((fs @ [pa]) @ us)" for t
    proof (cases "t = pa")
      case True
      then show ?thesis using new(2) p(5) pa(1) by (simp add: st' slab_range_def)
    next
      case False
      then have t': "t \<in> set (fs @ us)" using t by auto
      then show ?thesis using chainsD(6,7) [OF cc t'] old [OF t'] False p(4) by (auto simp: st')
    qed
    then have "cache_chains st' c (fs @ [pa]) us sz (ch(pa := [0..<n]))"
      unfolding cache_chains_def using p(3) sz st'(3,5) fresh new(1) chainsD(8,9) [OF cc] by (intro conjI ballI) auto
    moreover have "live st' ((fs @ [pa]) @ us) sz (ch(pa := [0..<n])) = live st (fs @ us) sz ch"
    proof -
      have "live_in sz ?b [0..<n] = {}" by (auto simp: live_in_def capacity_def n_def)
      moreover have "live_in sz (slabs st' t) ((ch(pa := [0..<n])) t) = live_in sz (slabs st t) (ch t)" if "t \<in> set (fs @ us)" for t
        using that fresh(1) by (auto simp: st'(2))
      ultimately show ?thesis unfolding live_def by (auto simp: st'(2))
    qed
    ultimately show ?thesis using st'(1,4) by auto
  qed
qed

section \<open>Release\<close>

lemma free_object:
  assumes cc: "cache_chains st c fs us sz ch" and o': "o' \<in> live st (fs @ us) sz ch"
  shows "\<exists>st'. kmem_cache_free c o' st = Some st' \<and> cache_inv st' c (live st (fs @ us) sz ch - {o'})"
proof -
  obtain s i where s: "s \<in> set (fs @ us)" "i < capacity sz (slabs st s)" "i \<notin> set (ch s)" "o' = objs (slabs st s) + sz * i"
    using o' by (auto simp: live_def live_in_def)
  have ca: "caches st c = \<lparr>full_slabs = us, free_slabs = fs, obj_size = sz\<rparr>" and sz: "0 < sz" and d: "distinct (fs @ us)"
    by (rule chainsD [OF cc])+
  have ok: "slab_ok sz s (slabs st s) (ch s)" by (rule chainsD(6) [OF cc s(1)])
  have pg: "page_slab st (paddr_to_page o') = Some s"
    using object_slab(1) [OF cc s(1,2), of o'] s(4) sz by (simp add: paddr_to_page_def)
  have full: "free (slabs st s) = -1 \<longleftrightarrow> ch s = []" using ok by (cases "ch s") (auto simp: slab_ok_def)
  let ?b = "slabs st s\<lparr>freearr := (freearr (slabs st s))(i := free (slabs st s)), free := int i\<rparr>"
  define fs' us' where "fs' = (if ch s = [] then fs @ [s] else fs)" and "us' = (if ch s = [] then remove1 s us else us)"
  define st1 where "st1 = (fill o' 0x2b sz st)\<lparr>slabs := (slabs st)(s := ?b)\<rparr>"
  define st' where "st' = (if ch s = [] then set_cache c (\<lambda>k. k\<lparr>full_slabs := remove1 s (full_slabs k), free_slabs := free_slabs k @ [s]\<rparr>) st1 else st1)"
  have run: "kmem_cache_free c o' st = Some st'"
    using pg full sz ca s(4) by (simp add: kmem_cache_free_def Let_def set_slab_def fill_def st1_def st'_def)
  have st': "slabs st' = (slabs st)(s := ?b)" "caches st' c = \<lparr>full_slabs = us', free_slabs = fs', obj_size = sz\<rparr>" "kpm st' = kpm st"
      "page_slab st' = page_slab st" "page_cache st' = page_cache st"
    using ca by (simp_all add: st'_def st1_def fs'_def us'_def fill_def set_cache_def)
  have okb: "slab_ok sz s ?b (i # ch s)" using ok s(2,3) by (auto simp: slab_ok_def capacity_def chained_upd)
  have empty: "ch s = [] \<longleftrightarrow> s \<in> set us" using chainsD(8,9) [OF cc, of s] s(1) by auto
  have d': "distinct (fs' @ us')" "set (fs' @ us') = set (fs @ us)"
    using d s(1) empty by (auto simp: fs'_def us'_def)
  have e: "\<forall>t\<in>set fs'. (ch(s := i # ch s)) t \<noteq> []" "\<forall>t\<in>set us'. (ch(s := i # ch s)) t = []"
    using chainsD(8,9) [OF cc] d empty by (auto simp: fs'_def us'_def)
  note up = chains_update [OF cc s(1) st'(1) _ okb d' st'(2-5) e]
  have "live_in sz ?b (i # ch s) = live_in sz (slabs st s) (ch s) - {o'}"
    unfolding s(4) by (rule live_in_put [OF sz]) (simp_all add: capacity_def)
  then have "live st' (fs' @ us') sz (ch(s := i # ch s)) = live st (fs @ us) sz ch - {o'}"
    using up(2) live_split [OF s(1), of st sz ch] other_slabs [OF cc s(1,2)] s(4) by auto
  moreover have "cache_chains st' c fs' us' sz (ch(s := i # ch s))" using up(1) by simp
  ultimately show ?thesis using run unfolding cache_inv_def by metis
qed

section \<open>The cache as a set of objects\<close>

lemma cache_invE:
  assumes "cache_inv st c L"
  obtains fs us ch where "cache_chains st c fs us (obj_size (caches st c)) ch" "L = live st (fs @ us) (obj_size (caches st c)) ch"
proof -
  obtain fs us sz ch where c: "cache_chains st c fs us sz ch" "L = live st (fs @ us) sz ch" using assms unfolding cache_inv_def by blast
  have "obj_size (caches st c) = sz" using chainsD(4) [OF c(1)] by simp
  then show ?thesis using c that by blast
qed

lemma live_disjoint:
  assumes "cache_inv st c L" "o1 \<in> L" "o2 \<in> L" "o1 \<noteq> o2"
  defines "sz \<equiv> obj_size (caches st c)"
  shows "{o1..<o1 + sz} \<inter> {o2..<o2 + sz} = {}"
proof (rule ccontr)
  assume "{o1..<o1 + sz} \<inter> {o2..<o2 + sz} \<noteq> {}"
  then obtain x where "x \<in> {o1..<o1 + sz} \<inter> {o2..<o2 + sz}" by blast
  then have x: "o1 \<le> x" "x < o1 + sz" "o2 \<le> x" "x < o2 + sz" by simp_all
  obtain fs us ch where cc: "cache_chains st c fs us sz ch" and L: "L = live st (fs @ us) sz ch"
    using cache_invE [OF assms(1)] unfolding sz_def by blast
  obtain s i t j where s: "s \<in> set (fs @ us)" "i < capacity sz (slabs st s)" "o1 = objs (slabs st s) + sz * i"
    "t \<in> set (fs @ us)" "j < capacity sz (slabs st t)" "o2 = objs (slabs st t) + sz * j"
    using assms(2,3) L by (auto simp: live_def live_in_def)
  then have "s = t \<and> i = j" using objects_disjoint [OF cc s(1,2,4,5)] x by simp
  then show False using assms(4) s(3,6) by simp
qed

lemma live_behind:
  assumes "cache_inv st c L" "o1 \<in> L"
  defines "sz \<equiv> obj_size (caches st c)"
  assumes x: "x \<in> {o1..<o1 + sz}"
  shows "\<exists>s. page_slab st (paddr_to_page x) = Some s \<and> s + sizeof_slab + 4 * capacity sz (slabs st s) \<le> x"
proof -
  obtain fs us ch where cc: "cache_chains st c fs us sz ch" and L: "L = live st (fs @ us) sz ch"
    using cache_invE [OF assms(1)] unfolding sz_def by blast
  obtain s i where s: "s \<in> set (fs @ us)" "i < capacity sz (slabs st s)" "o1 = objs (slabs st s) + sz * i"
    using assms(2) L by (auto simp: live_def live_in_def)
  have x: "objs (slabs st s) + sz * i \<le> x" "x < objs (slabs st s) + sz * i + sz" using x s(3) by simp_all
  show ?thesis
    using object_slab(1) [OF cc s(1,2) x] object_place(2) [OF chainsD(6) [OF cc s(1)] s(2) x] by (auto simp: paddr_to_page_def)
qed

lemma alloc_object:
  assumes "cache_chains st c fs us sz ch" "L = live st (fs @ us) sz ch"
  shows "\<exists>r st'. kmem_cache_alloc c st = Some (r, st') \<and>
    (case r of None \<Rightarrow> st' = st
     | Some o' \<Rightarrow> o' \<notin> L \<and> cache_inv st' c (insert o' L) \<and> obj_size (caches st' c) = sz
         \<and> (\<forall>x. \<not> (o' \<le> x \<and> x < o' + sz) \<longrightarrow> bytes st' x = bytes st x))"
proof (cases fs)
  case (Cons s fs')
  then show ?thesis using alloc_from_slab [of st c s fs' us sz ch] assms by auto
next
  case Nil
  have ca: "free_slabs (caches st c) = []" using chainsD(4) [OF assms(1)] Nil by simp
  obtain r st1 where r: "slab_create c st = Some (r, st1)" "bytes st1 = bytes st" "case r of None \<Rightarrow> st1 = st
     | Some s \<Rightarrow> \<exists>ch'. cache_chains st1 c (fs @ [s]) us sz ch' \<and> live st1 ((fs @ [s]) @ us) sz ch' = live st (fs @ us) sz ch"
    using slab_create_ok [OF assms(1)] by blast
  show ?thesis
  proof (cases r)
    case None
    then show ?thesis using r ca by (simp add: kmem_cache_alloc_def)
  next
    case (Some s)
    then obtain ch' where ch': "cache_chains st1 c [s] us sz ch'" "live st1 ([s] @ us) sz ch' = L" using r(3) Nil assms(2) by auto
    have "kmem_cache_alloc c st = kmem_cache_alloc c st1"
      using r(1) ca Some chainsD(4) [OF ch'(1)] by (simp add: kmem_cache_alloc_def)
    then show ?thesis using alloc_from_slab [OF ch'(1)] ch'(2) r(2) by auto
  qed
qed

text \<open>C13: A cache hands out objects that do not overlap. \<^verbatim>\<open>kmem_cache_alloc\<close> never panics: it fails without any change, or it returns an
  object that is not live, whose bytes are disjoint from all live objects and lie behind the bookkeeping of the slab, and which
  becomes live; only its own bytes are overwritten. \<^verbatim>\<open>kmem_cache_free\<close> of any live object succeeds and removes exactly it.\<close>

theorem kmem_cache_objects:
  assumes "cache_inv st c L" "obj_size (caches st c) = sz"
  shows "\<exists>r st'. kmem_cache_alloc c st = Some (r, st') \<and>
     (case r of None \<Rightarrow> st' = st
      | Some o' \<Rightarrow> o' \<notin> L \<and> cache_inv st' c (insert o' L) \<and> (\<forall>o2\<in>L. {o'..<o' + sz} \<inter> {o2..<o2 + sz} = {}) \<and>
          (\<forall>x\<in>{o'..<o' + sz}. \<exists>s. page_slab st' (paddr_to_page x) = Some s \<and> s + sizeof_slab + 4 * capacity sz (slabs st' s) \<le> x) \<and>
          (\<forall>x. x \<notin> {o'..<o' + sz} \<longrightarrow> bytes st' x = bytes st x)) \<and>
     (\<forall>o2\<in>L. \<exists>st''. kmem_cache_free c o2 st = Some st'' \<and> cache_inv st'' c (L - {o2}))"
proof -
  obtain fs us ch where cc: "cache_chains st c fs us sz ch" and L: "L = live st (fs @ us) sz ch"
    using cache_invE [OF assms(1)] unfolding assms(2) by blast
  obtain r st' where r: "kmem_cache_alloc c st = Some (r, st')" "case r of None \<Rightarrow> st' = st
     | Some o' \<Rightarrow> o' \<notin> L \<and> cache_inv st' c (insert o' L) \<and> obj_size (caches st' c) = sz
         \<and> (\<forall>x. \<not> (o' \<le> x \<and> x < o' + sz) \<longrightarrow> bytes st' x = bytes st x)"
    using alloc_object [OF cc L] by blast
  have "\<forall>o2\<in>L. {o'..<o' + sz} \<inter> {o2..<o2 + sz} = {}"
      "\<forall>x\<in>{o'..<o' + sz}. \<exists>s. page_slab st' (paddr_to_page x) = Some s \<and> s + sizeof_slab + 4 * capacity sz (slabs st' s) \<le> x"
    if "r = Some o'" for o'
  proof -
    have o': "o' \<notin> L" "cache_inv st' c (insert o' L)" "obj_size (caches st' c) = sz" using r(2) that by simp_all
    have "o' \<noteq> o2" if "o2 \<in> L" for o2 using that o'(1) by blast
    then show "\<forall>o2\<in>L. {o'..<o' + sz} \<inter> {o2..<o2 + sz} = {}"
      using live_disjoint [OF o'(2) insertI1 insertI2] unfolding o'(3) by blast
    show "\<forall>x\<in>{o'..<o' + sz}. \<exists>s. page_slab st' (paddr_to_page x) = Some s \<and> s + sizeof_slab + 4 * capacity sz (slabs st' s) \<le> x"
      using live_behind [OF o'(2) insertI1] unfolding o'(3) by blast
  qed
  moreover have "\<forall>x. x \<notin> {o'..<o' + sz} \<longrightarrow> bytes st' x = bytes st x" if "r = Some o'" for o' using r(2) that by simp
  moreover have "\<forall>o2\<in>L. \<exists>st''. kmem_cache_free c o2 st = Some st'' \<and> cache_inv st'' c (L - {o2})" using free_object [OF cc] L by blast
  ultimately show ?thesis using r by (cases r) simp_all
qed

section \<open>A cache with one slab\<close>

text \<open>A memory of four pages; page 1 is a slab with room for four objects of 1000 bytes, the first of which is live.\<close>

definition one_slab :: kheap where
  "one_slab = \<lparr>kpm = \<lparr>pages = (\<lambda>p. \<lparr>refcnt = (if p < 2 then 1 else 0), order = (if p = 2 then 1 else 0), dirty = False\<rparr>),
       pagemap_end = 4, freeblocks = (\<lambda>i. if i = 1 then [2] else []), bitmap = (\<lambda>_. False), bitmap_contig_start = 0,
       bitmap_end = 4, pagemap_initialized = True, pmem_start = 0, pmem_end = 16384\<rparr>,
     slabs = (\<lambda>_. \<lparr>objs = 4152, free = 1, n_pages = 1, freearr = (\<lambda>i. if i = 3 then -1 else int i + 1)\<rparr>),
     page_slab = (\<lambda>p. if p = 1 then Some 4096 else None), page_cache = (\<lambda>p. if p = 1 then Some 0 else None),
     caches = (\<lambda>_. \<lparr>full_slabs = [], free_slabs = [4096], obj_size = 1000\<rparr>), kmallocs = [], bytes = (\<lambda>_. 0)\<rparr>"

lemma one_slab_inv: "cache_inv one_slab 0 {4152}"
proof -
  have inv: "buddy_inv 4 (kpm one_slab) {0, 1, 2} {}"
    by (rule invI) (auto simp: one_slab_def blk_def)
  then have "pmem_ok (kpm one_slab) {0, 1, 2}" by (simp add: pmem_ok_def allocated_def) (simp add: one_slab_def)
  then have fo: "frames_ok (kpm one_slab)" by (auto simp: frames_ok_def)
  have f: "1 \<notin> free_frames (kpm one_slab)" by (auto simp: free_frames_def one_slab_def)
  have c: "capacity 1000 (slabs one_slab 4096) = 4" by (simp add: capacity_def one_slab_def)
  have ok: "slab_ok 1000 4096 (slabs one_slab 4096) [1, 2, 3]" using c by (simp add: slab_ok_def) (simp add: one_slab_def)
  have "slab_range 4096 (slabs one_slab 4096) = {1}" by (auto simp: slab_range_def one_slab_def)
  then have "cache_chains one_slab 0 [4096] [] 1000 (\<lambda>_. [1, 2, 3])"
    using fo f ok by (simp add: cache_chains_def) (simp add: one_slab_def)
  moreover have "i < 4 \<and> i \<noteq> 1 \<and> i \<noteq> 2 \<and> i \<noteq> 3 \<longleftrightarrow> i = (0 :: nat)" for i by auto
  then have "live one_slab ([4096] @ []) 1000 (\<lambda>_. [1, 2, 3]) = {4152}"
    using c by (simp add: live_def live_in_def) (simp add: one_slab_def)
  ultimately show ?thesis unfolding cache_inv_def by metis
qed

theorem kmem_cache_objects_witness:
  "(\<exists>r st'. kmem_cache_alloc 0 one_slab = Some (r, st') \<and>
     (case r of None \<Rightarrow> st' = one_slab
      | Some o' \<Rightarrow> o' \<noteq> 4152 \<and> cache_inv st' 0 {o', 4152} \<and> {o'..<o' + 1000} \<inter> {4152..<5152} = {})) \<and>
   (\<exists>st''. kmem_cache_free 0 4152 one_slab = Some st'' \<and> cache_inv st'' 0 {})"
proof -
  have sz: "obj_size (caches one_slab 0) = 1000" by (simp add: one_slab_def)
  obtain r st' where r: "kmem_cache_alloc 0 one_slab = Some (r, st')" "case r of None \<Rightarrow> st' = one_slab
      | Some o' \<Rightarrow> o' \<notin> {4152} \<and> cache_inv st' 0 (insert o' {4152}) \<and> (\<forall>o2\<in>{4152}. {o'..<o' + 1000} \<inter> {o2..<o2 + 1000} = {}) \<and>
          (\<forall>x\<in>{o'..<o' + 1000}. \<exists>s. page_slab st' (paddr_to_page x) = Some s \<and> s + 40 + 4 * capacity 1000 (slabs st' s) \<le> x) \<and>
          (\<forall>x. x \<notin> {o'..<o' + 1000} \<longrightarrow> bytes st' x = bytes one_slab x)"
      "\<forall>o2\<in>{4152}. \<exists>st''. kmem_cache_free 0 o2 one_slab = Some st'' \<and> cache_inv st'' 0 ({4152} - {o2})"
    using kmem_cache_objects [OF one_slab_inv sz] by blast
  have "case r of None \<Rightarrow> st' = one_slab
      | Some o' \<Rightarrow> o' \<noteq> 4152 \<and> cache_inv st' 0 {o', 4152} \<and> {o'..<o' + 1000} \<inter> {4152..<5152} = {}"
    using r(2) by (cases r) simp_all
  moreover have "\<exists>st''. kmem_cache_free 0 4152 one_slab = Some st'' \<and> cache_inv st'' 0 {}" using r(3) by simp
  ultimately show ?thesis using r(1) by blast
qed

end
