(* ===== verification/Ide.thy ===== *)
theory Ide
  imports Prelude
begin

text \<open>
  Block requests and the disk driver: \<^verbatim>\<open>bdev_make_request\<close> of \<^verbatim>\<open>kernel/bdev.c\<close> and \<^verbatim>\<open>kernel/drivers/ide.c\<close>.

  A request is known by a number; its \<^verbatim>\<open>struct bio\<close> is kept in \<open>bios\<close>. The request queue holds the numbers in order. \<open>regs\<close> are the
  registers of the controller as the driver last wrote them, and \<open>sectors\<close> the contents of the disk. The controller works as its
  documentation says: after a command it transfers the data and raises one interrupt; this is the step \<open>Irq\<close>. Busy
  waiting for the ready bit and the locks are not modelled, every handler is one step. \<open>None\<close> is a panic.
\<close>

section \<open>State\<close>

datatype bio_op = BIO_READ | BIO_WRITE
datatype bio_status = BIO_PENDING | BIO_COMPLETE
datatype ide_status = IDE_IDLE | IDE_BUSY

record bio =
  blk :: nat
  bsize :: nat
  buffer :: "u8 list"
  op :: bio_op
  status :: bio_status

record ide_regs =
  r_count :: u8
  r_sector :: u8
  r_cyl_l :: u8
  r_cyl_h :: u8
  r_drive :: u8
  r_cmd :: u8
  r_data :: "u8 list"

record ide =
  ide_status :: ide_status
  ide_index :: u8
  queue :: "nat list"
  bios :: "nat \<Rightarrow> bio"
  regs :: ide_regs
  sectors :: "nat \<Rightarrow> u8 list"

abbreviation (input) BLK_SIZE :: nat where "BLK_SIZE \<equiv> 512"
abbreviation (input) IDE_CMD_READ :: u8 where "IDE_CMD_READ \<equiv> 0x20"
abbreviation (input) IDE_CMD_WRITE :: u8 where "IDE_CMD_WRITE \<equiv> 0x30"
abbreviation (input) IDE_CMD_RDMUL :: u8 where "IDE_CMD_RDMUL \<equiv> 0xC4"
abbreviation (input) IDE_CMD_WRMUL :: u8 where "IDE_CMD_WRMUL \<equiv> 0xC5"

definition set_bio :: "nat \<Rightarrow> (bio \<Rightarrow> bio) \<Rightarrow> ide \<Rightarrow> ide" where
  "set_bio b f d = d\<lparr>bios := (bios d)(b := f (bios d b))\<rparr>"

section \<open>The driver\<close>

definition bdev_front_bio :: "bool \<Rightarrow> ide \<Rightarrow> nat option \<times> ide" where
  "bdev_front_bio pop d =
     (case queue d of
        [] \<Rightarrow> (None, d)
      | b # q \<Rightarrow> (Some b, if pop then d\<lparr>queue := q\<rparr> else d))"

text \<open>Blocks and sectors have the same size. The sector number is an \<^verbatim>\<open>int\<close> of 32 bits.\<close>

definition ide_issue_cmd :: "nat \<Rightarrow> ide \<Rightarrow> ide option" where
  "ide_issue_cmd b d = do {
     let bio = bios d b;
     let sector = (of_nat (blk bio) :: u32);
     let num_sectors = bsize bio;
     kassert (num_sectors > 0 \<and> num_sectors \<le> 8);
     let cmd = (case op bio of
          BIO_READ \<Rightarrow> if num_sectors > 1 then IDE_CMD_RDMUL else IDE_CMD_READ
        | BIO_WRITE \<Rightarrow> if num_sectors > 1 then IDE_CMD_WRMUL else IDE_CMD_WRITE);
     Some (d\<lparr>regs := \<lparr>r_count = of_nat num_sectors, r_sector = ucast (sector AND 0xFF), r_cyl_l = ucast (drop_bit 8 sector AND 0xFF),
                r_cyl_h = ucast (drop_bit 16 sector AND 0xFF),
                r_drive = 0xE0 OR push_bit 4 (ide_index d) OR ucast (drop_bit 24 sector AND 0x0F), r_cmd = cmd,
                r_data = (case op bio of BIO_WRITE \<Rightarrow> take (bsize bio * BLK_SIZE) (buffer bio) | BIO_READ \<Rightarrow> r_data (regs d))\<rparr>,
              ide_status := IDE_BUSY\<rparr>)
   }"

definition ide_request_handler :: "ide \<Rightarrow> ide option" where
  "ide_request_handler d =
     (if ide_status d = IDE_IDLE then
        (case bdev_front_bio False d of
           (None, d) \<Rightarrow> Some d
         | (Some b, d) \<Rightarrow> do { kassert (status (bios d b) = BIO_PENDING); ide_issue_cmd b d })
      else Some d)"

text \<open>\<open>dat\<close> is what the data register delivers.\<close>

definition ide_trap_handler :: "u8 list \<Rightarrow> ide \<Rightarrow> ide option" where
  "ide_trap_handler dat d =
     (if ide_status d = IDE_BUSY then
        (case bdev_front_bio True d of
           (None, d) \<Rightarrow> None
         | (Some b, d) \<Rightarrow> do {
             kassert (status (bios d b) = BIO_PENDING);
             let d = (if op (bios d b) = BIO_READ
                      then set_bio b (\<lambda>x. x\<lparr>buffer := take (bsize x * BLK_SIZE) dat @ drop (bsize x * BLK_SIZE) (buffer x)\<rparr>) d else d);
             let d = set_bio b (\<lambda>x. x\<lparr>status := BIO_COMPLETE\<rparr>) d;
             (case bdev_front_bio False d of
                (None, d) \<Rightarrow> Some (d\<lparr>ide_status := IDE_IDLE\<rparr>)
              | (Some b, d) \<Rightarrow> do { kassert (status (bios d b) = BIO_PENDING); ide_issue_cmd b d })
           })
      else Some d)"

text \<open>The part of \<^verbatim>\<open>bdev_make_request\<close> before it waits for completion.\<close>

definition bdev_make_request :: "nat \<Rightarrow> ide \<Rightarrow> ide option" where
  "bdev_make_request b d = do {
     let d = set_bio b (\<lambda>x. x\<lparr>status := BIO_PENDING\<rparr>) d;
     let d = d\<lparr>queue := queue d @ [b]\<rparr>;
     ide_request_handler d
   }"

definition ide_alloc :: "u8 \<Rightarrow> (nat \<Rightarrow> bio) \<Rightarrow> ide_regs \<Rightarrow> (nat \<Rightarrow> u8 list) \<Rightarrow> ide" where
  "ide_alloc ix bs rs ss = \<lparr>ide_status = IDE_IDLE, ide_index = ix, queue = [], bios = bs, regs = rs, sectors = ss\<rparr>"

section \<open>The controller\<close>

text \<open>The sector number it reads from its registers, in the addressing mode the driver selects, and what it does with a command.\<close>

definition reg_sector :: "ide_regs \<Rightarrow> nat" where
  "reg_sector r = unat (r_sector r) + 2 ^ 8 * unat (r_cyl_l r) + 2 ^ 16 * unat (r_cyl_h r) + 2 ^ 24 * (unat (r_drive r) mod 16)"

definition reg_count :: "ide_regs \<Rightarrow> nat" where
  "reg_count r = unat (r_count r)"

definition put_sectors :: "nat \<Rightarrow> nat \<Rightarrow> u8 list \<Rightarrow> (nat \<Rightarrow> u8 list) \<Rightarrow> nat \<Rightarrow> u8 list" where
  "put_sectors s n dat ss = (\<lambda>i. if s \<le> i \<and> i < s + n then take BLK_SIZE (drop ((i - s) * BLK_SIZE) dat) else ss i)"

definition get_sectors :: "nat \<Rightarrow> nat \<Rightarrow> (nat \<Rightarrow> u8 list) \<Rightarrow> u8 list" where
  "get_sectors s n ss = concat (map ss [s..<s + n])"

definition controller :: "ide_regs \<Rightarrow> (nat \<Rightarrow> u8 list) \<Rightarrow> u8 list \<times> (nat \<Rightarrow> u8 list)" where
  "controller r ss =
     (if r_cmd r = IDE_CMD_WRITE \<or> r_cmd r = IDE_CMD_WRMUL then ([], put_sectors (reg_sector r) (reg_count r) (r_data r) ss)
      else (get_sectors (reg_sector r) (reg_count r) ss, ss))"

text \<open>The events: a thread submits a request, or the controller finishes a command and interrupts.\<close>

datatype event = Submit nat | Irq

fun step :: "event \<Rightarrow> ide \<Rightarrow> ide option" where
  "step (Submit b) d = bdev_make_request b d"
| "step Irq d = (if ide_status d = IDE_BUSY
     then (case controller (regs d) (sectors d) of (dat, ss) \<Rightarrow> ide_trap_handler dat (d\<lparr>sectors := ss\<rparr>))
     else ide_trap_handler [] d)"

fun run :: "event list \<Rightarrow> ide \<Rightarrow> ide option" where
  "run [] d = Some d"
| "run (e # es) d = do { d \<leftarrow> step e d; run es d }"

section \<open>The registers name the right sectors\<close>

lemma base_256: "(n :: nat) < 2 ^ 28 \<Longrightarrow> n mod 256 + 2 ^ 8 * (n div 2 ^ 8 mod 256) + 2 ^ 16 * (n div 2 ^ 16 mod 256) + 2 ^ 24 * (n div 2 ^ 24 mod 16) = n"
proof -
  assume n: "n < 2 ^ 28"
  define a b c where "a = n div 256" and "b = a div 256" and "c = b div 256"
  have e: "n div 2 ^ 8 = a" "n div 2 ^ 16 = b" "n div 2 ^ 24 = c" by (simp_all add: a_def b_def c_def flip: div_mult2_eq)
  have "c < 16" using n by (simp add: c_def b_def a_def less_mult_imp_div_less flip: div_mult2_eq)
  moreover have "n = 256 * a + n mod 256" "a = 256 * b + a mod 256" "b = 256 * c + b mod 256" by (simp_all add: a_def b_def c_def)
  ultimately show ?thesis unfolding e by simp
qed

lemma unat_low_byte: "unat (ucast (w AND 0xFF) :: u8) = unat (w :: u32) mod 256"
proof -
  have "(0xFF :: u32) = mask 8" by (simp add: mask_eq_exp_minus_1)
  then have "unat (w AND 0xFF) = take_bit 8 (unat w)" by (simp only: flip: take_bit_eq_mask) (simp only: unsigned_take_bit_eq)
  then show ?thesis by (simp add: unsigned_ucast_eq take_bit_eq_mod)
qed

lemma unat_drive: "unat (0xE0 OR push_bit 4 ix OR ucast (w AND 0x0F) :: u8) mod 16 = unat (w :: u32) mod 16"
proof -
  have m: "(0x0F :: u32) = mask 4" by (simp add: mask_eq_exp_minus_1)
  have "unat (w AND 0x0F) = take_bit 4 (unat w)" unfolding m by (simp only: flip: take_bit_eq_mask) (simp only: unsigned_take_bit_eq)
  then have y: "unat (ucast (w AND 0x0F) :: u8) = unat w mod 16" by (simp add: unsigned_ucast_eq take_bit_eq_mod)
  have "take_bit 4 (0xE0 OR push_bit 4 ix OR ucast (w AND 0x0F) :: u8) = take_bit 4 (ucast (w AND 0x0F))"
    by (simp add: take_bit_or take_bit_push_bit)
  then have "unat (take_bit 4 (0xE0 OR push_bit 4 ix OR ucast (w AND 0x0F) :: u8)) = unat (take_bit 4 (ucast (w AND 0x0F) :: u8))" by simp
  then have "unat (0xE0 OR push_bit 4 ix OR ucast (w AND 0x0F) :: u8) mod 2 ^ 4 = unat (ucast (w AND 0x0F) :: u8) mod 2 ^ 4"
    unfolding unsigned_take_bit_eq by (simp only: take_bit_eq_mod)
  then show ?thesis unfolding y by simp
qed

text \<open>Requests the driver can handle: sector numbers of 28 bits, one to eight sectors, and a buffer of that size.\<close>

definition bio_ok :: "bio \<Rightarrow> bool" where
  "bio_ok x \<longleftrightarrow> blk x + bsize x \<le> 2 ^ 28 \<and> 0 < bsize x \<and> bsize x \<le> 8 \<and> length (buffer x) = bsize x * BLK_SIZE"

definition issued :: "ide_regs \<Rightarrow> bio \<Rightarrow> bool" where
  "issued r x \<longleftrightarrow> reg_sector r = blk x \<and> reg_count r = bsize x \<and>
     (case op x of BIO_WRITE \<Rightarrow> r_cmd r \<in> {IDE_CMD_WRITE, IDE_CMD_WRMUL} \<and> r_data r = buffer x
      | BIO_READ \<Rightarrow> r_cmd r \<notin> {IDE_CMD_WRITE, IDE_CMD_WRMUL})"

lemma issue_ok:
  assumes "bio_ok (bios d b)"
  shows "\<exists>r. ide_issue_cmd b d = Some (d\<lparr>regs := r, ide_status := IDE_BUSY\<rparr>) \<and> issued r (bios d b)"
proof -
  let ?x = "bios d b"
  have x: "blk ?x < 2 ^ 28" "0 < bsize ?x" "bsize ?x \<le> 8" "length (buffer ?x) = bsize ?x * BLK_SIZE" using assms by (auto simp: bio_ok_def)
  then have u: "unat (of_nat (blk ?x) :: u32) = blk ?x" by (simp add: unat_of_nat)
  have c: "unat (of_nat (bsize ?x) :: u8) = bsize ?x" using x(3) by (simp add: unat_of_nat)
  have dr: "unat (drop_bit k (of_nat (blk ?x) :: u32)) = blk ?x div 2 ^ k" for k
    unfolding unsigned_drop_bit_eq by (simp only: drop_bit_eq_div u take_bit_eq_mod) (use x(1) in simp)
  define r where "r = \<lparr>r_count = of_nat (bsize ?x), r_sector = ucast ((of_nat (blk ?x) :: u32) AND 0xFF),
      r_cyl_l = ucast (drop_bit 8 (of_nat (blk ?x) :: u32) AND 0xFF), r_cyl_h = ucast (drop_bit 16 (of_nat (blk ?x) :: u32) AND 0xFF),
      r_drive = 0xE0 OR push_bit 4 (ide_index d) OR ucast (drop_bit 24 (of_nat (blk ?x) :: u32) AND 0x0F),
      r_cmd = (case op ?x of BIO_READ \<Rightarrow> if bsize ?x > 1 then IDE_CMD_RDMUL else IDE_CMD_READ
        | BIO_WRITE \<Rightarrow> if bsize ?x > 1 then IDE_CMD_WRMUL else IDE_CMD_WRITE),
      r_data = (case op ?x of BIO_WRITE \<Rightarrow> take (bsize ?x * BLK_SIZE) (buffer ?x) | BIO_READ \<Rightarrow> r_data (regs d))\<rparr>"
  have "ide_issue_cmd b d = Some (d\<lparr>regs := r, ide_status := IDE_BUSY\<rparr>)"
    unfolding ide_issue_cmd_def r_def Let_def using x(2,3) by (simp only: kassert_bind) simp
  moreover have "reg_sector r = blk ?x" "reg_count r = bsize ?x"
    using base_256 [OF x(1)] by (simp_all only: r_def reg_sector_def reg_count_def ide_regs.select_convs unat_low_byte unat_drive u c dr)
  then have "issued r ?x" using x(4) by (cases "op ?x") (auto simp: issued_def r_def)
  ultimately show ?thesis by blast
qed

section \<open>Requests are served one after the other\<close>

text \<open>The specification: a disk that serves a list of requests in order, on the requests and the sectors.\<close>

definition serve1 :: "nat \<Rightarrow> (nat \<Rightarrow> bio) \<times> (nat \<Rightarrow> u8 list) \<Rightarrow> (nat \<Rightarrow> bio) \<times> (nat \<Rightarrow> u8 list)" where
  "serve1 b p = (case p of (bs, ss) \<Rightarrow> let x = bs b in
     case op x of
       BIO_READ \<Rightarrow> (bs(b := x\<lparr>buffer := get_sectors (blk x) (bsize x) ss, status := BIO_COMPLETE\<rparr>), ss)
     | BIO_WRITE \<Rightarrow> (bs(b := x\<lparr>status := BIO_COMPLETE\<rparr>), put_sectors (blk x) (bsize x) (buffer x) ss))"

definition serve :: "nat list \<Rightarrow> (nat \<Rightarrow> bio) \<times> (nat \<Rightarrow> u8 list) \<Rightarrow> (nat \<Rightarrow> bio) \<times> (nat \<Rightarrow> u8 list)" where
  "serve bs p = fold serve1 bs p"

lemma serve_snoc: "serve (bs @ [b]) p = serve1 b (serve bs p)"
  by (simp add: serve_def)

lemma serve1_other: "c \<noteq> b \<Longrightarrow> fst (serve1 b p) c = fst p c"
  by (simp add: serve1_def Let_def split: prod.split bio_op.split)

lemma serve_other: "c \<notin> set bs \<Longrightarrow> fst (serve bs p) c = fst p c"
  by (induction bs rule: rev_induct) (auto simp: serve_def serve1_other)

definition pending :: "(nat \<Rightarrow> bio) \<Rightarrow> nat list \<Rightarrow> (nat \<Rightarrow> bio) \<Rightarrow> nat \<Rightarrow> bio" where
  "pending bs0 q bs = (\<lambda>b. if b \<in> set q then (bs0 b)\<lparr>status := BIO_PENDING\<rparr> else bs b)"

definition ide_inv :: "ide \<Rightarrow> nat list \<Rightarrow> nat list \<Rightarrow> ide \<Rightarrow> bool" where
  "ide_inv d0 dn q d \<longleftrightarrow> queue d = q \<and> distinct (dn @ q) \<and> (\<forall>b\<in>set (dn @ q). bio_ok (bios d0 b))
     \<and> bios d = pending (bios d0) q (fst (serve dn (bios d0, sectors d0)))
     \<and> sectors d = snd (serve dn (bios d0, sectors d0)) \<and> (\<forall>i. length (sectors d i) = BLK_SIZE)
     \<and> ide_status d = (if q = [] then IDE_IDLE else IDE_BUSY) \<and> (q \<noteq> [] \<longrightarrow> issued (regs d) (bios d0 (hd q)))"

lemma ide_invD:
  assumes "ide_inv d0 dn q d"
  shows "queue d = q" "distinct (dn @ q)" "b \<in> set (dn @ q) \<Longrightarrow> bio_ok (bios d0 b)"
    "bios d = pending (bios d0) q (fst (serve dn (bios d0, sectors d0)))" "sectors d = snd (serve dn (bios d0, sectors d0))"
    "length (sectors d i) = BLK_SIZE" "ide_status d = (if q = [] then IDE_IDLE else IDE_BUSY)"
    "q \<noteq> [] \<Longrightarrow> issued (regs d) (bios d0 (hd q))"
  using assms unfolding ide_inv_def by auto

lemma status_irrelevant [simp]: "bio_ok (x\<lparr>status := z\<rparr>) = bio_ok x" "issued r (x\<lparr>status := z\<rparr>) = issued r x"
  by (auto simp: bio_ok_def issued_def split: bio_op.split)

text \<open>Starting the request at the front of the queue.\<close>

lemma start_front:
  assumes "queue d = b # q" "bio_ok (bios d b)" "status (bios d b) = BIO_PENDING"
  shows "\<exists>r. (case bdev_front_bio False d of (None, d) \<Rightarrow> Some (d\<lparr>ide_status := IDE_IDLE\<rparr>)
      | (Some b, d) \<Rightarrow> do { kassert (status (bios d b) = BIO_PENDING); ide_issue_cmd b d }) = Some (d\<lparr>regs := r, ide_status := IDE_BUSY\<rparr>)
      \<and> issued r (bios d b)"
  using issue_ok [OF assms(2)] assms(1,3) by (simp add: bdev_front_bio_def)

lemma submit_inv:
  assumes inv: "ide_inv d0 dn q d" and b: "b \<notin> set (dn @ q)" "bio_ok (bios d0 b)"
  shows "\<exists>d'. bdev_make_request b d = Some d' \<and> ide_inv d0 dn (q @ [b]) d'"
proof -
  define d1 where "d1 = set_bio b (\<lambda>x. x\<lparr>status := BIO_PENDING\<rparr>) d\<lparr>queue := queue d @ [b]\<rparr>"
  have "bios d b = bios d0 b" using b(1) serve_other [of b dn "(bios d0, sectors d0)"] ide_invD(4) [OF inv] by (simp add: pending_def)
  then have d1: "bios d1 = pending (bios d0) (q @ [b]) (fst (serve dn (bios d0, sectors d0)))" "queue d1 = q @ [b]" "sectors d1 = sectors d"
      "ide_status d1 = ide_status d" "regs d1 = regs d"
    using ide_invD(1,4) [OF inv] by (auto simp: d1_def set_bio_def pending_def fun_eq_iff)
  have base: "distinct (dn @ q @ [b])" "\<forall>c\<in>set (dn @ q @ [b]). bio_ok (bios d0 c)" using ide_invD(2,3) [OF inv] b by auto
  show ?thesis
  proof (cases q)
    case Nil
    have p: "bios d1 b = (bios d0 b)\<lparr>status := BIO_PENDING\<rparr>" using Nil by (simp add: d1(1) pending_def)
    then obtain r where r: "ide_issue_cmd b d1 = Some (d1\<lparr>regs := r, ide_status := IDE_BUSY\<rparr>)" "issued r (bios d1 b)"
      using issue_ok [of d1 b] b(2) by auto
    have "bdev_make_request b d = ide_request_handler d1" by (simp add: bdev_make_request_def d1_def Let_def set_bio_def)
    also have "\<dots> = Some (d1\<lparr>regs := r, ide_status := IDE_BUSY\<rparr>)"
      using Nil r(1) p d1(2,4) ide_invD(7) [OF inv] by (simp add: ide_request_handler_def bdev_front_bio_def)
    finally show ?thesis using Nil r(2) p d1 base ide_invD(5,6) [OF inv] by (simp add: ide_inv_def)
  next
    case (Cons c q')
    then have "bdev_make_request b d = Some d1"
      using d1(4) ide_invD(7) [OF inv] by (simp add: bdev_make_request_def d1_def Let_def ide_request_handler_def set_bio_def)
    then show ?thesis using Cons d1 base ide_invD(5-8) [OF inv] by (simp add: ide_inv_def)
  qed
qed

lemma length_get_sectors: "\<forall>i. length (ss i) = BLK_SIZE \<Longrightarrow> length (get_sectors s n ss) = n * BLK_SIZE"
  by (induction n) (simp_all add: get_sectors_def)

lemma length_put_sectors:
  assumes "\<forall>i. length (ss i) = BLK_SIZE" "length dat = n * BLK_SIZE"
  shows "length (put_sectors s n dat ss i) = BLK_SIZE"
proof -
  have "BLK_SIZE \<le> (n - (i - s)) * BLK_SIZE" if "s \<le> i" "i < s + n" using that by simp
  then show ?thesis using assms by (auto simp: put_sectors_def diff_mult_distrib)
qed

text \<open>The controller and the handler together serve the request at the front.\<close>

lemma irq_serves:
  assumes "issued (regs d) x" "bio_ok x" "\<forall>i. length (sectors d i) = BLK_SIZE" "controller (regs d) (sectors d) = (dat, ss)"
  shows "op x = BIO_READ \<Longrightarrow> dat = get_sectors (blk x) (bsize x) (sectors d) \<and> ss = sectors d \<and> length dat = bsize x * BLK_SIZE"
    "op x = BIO_WRITE \<Longrightarrow> ss = put_sectors (blk x) (bsize x) (buffer x) (sectors d)" "\<forall>i. length (ss i) = BLK_SIZE"
proof -
  show r: "op x = BIO_READ \<Longrightarrow> dat = get_sectors (blk x) (bsize x) (sectors d) \<and> ss = sectors d \<and> length dat = bsize x * BLK_SIZE"
    using assms length_get_sectors [OF assms(3)] by (auto simp: issued_def controller_def)
  show w: "op x = BIO_WRITE \<Longrightarrow> ss = put_sectors (blk x) (bsize x) (buffer x) (sectors d)"
    using assms by (auto simp: issued_def controller_def)
  show "\<forall>i. length (ss i) = BLK_SIZE"
    using r w assms(2,3) length_put_sectors [OF assms(3)] by (cases "op x") (auto simp: bio_ok_def)
qed

lemma irq_inv:
  assumes inv: "ide_inv d0 dn (b # q) d"
  shows "\<exists>d'. step Irq d = Some d' \<and> ide_inv d0 (dn @ [b]) q d'"
proof -
  let ?x = "bios d0 b" and ?S = "serve dn (bios d0, sectors d0)"
  obtain dat ss where c: "controller (regs d) (sectors d) = (dat, ss)" by fastforce
  have x: "issued (regs d) ?x" "bio_ok ?x" "bios d b = ?x\<lparr>status := BIO_PENDING\<rparr>" "length (buffer ?x) = bsize ?x * BLK_SIZE"
    using ide_invD(3,4,8) [OF inv] by (auto simp: pending_def bio_ok_def)
  note sv = irq_serves [OF x(1,2) _ c]
  have sb: "fst ?S b = ?x" using serve_other [of b dn] ide_invD(2) [OF inv] by simp
  define d1 where "d1 = d\<lparr>sectors := ss, queue := q, bios := (bios d)(b := fst (serve1 b ?S) b)\<rparr>"
  have S1: "serve (dn @ [b]) (bios d0, sectors d0) = serve1 b ?S" by (rule serve_snoc)
  have ss: "ss = snd (serve1 b ?S)"
    using sv(1,2) ide_invD(5,6) [OF inv] sb by (cases "op ?x") (auto simp: serve1_def Let_def split: prod.splits)
  have fin: "fst (serve1 b ?S) b = (if op ?x = BIO_READ then ?x\<lparr>buffer := dat, status := BIO_COMPLETE\<rparr> else ?x\<lparr>status := BIO_COMPLETE\<rparr>)"
    using sv(1) ide_invD(5,6) [OF inv] sb by (cases "op ?x") (auto simp: serve1_def Let_def split: prod.splits)
  have bs: "bios d1 = pending (bios d0) q (fst (serve (dn @ [b]) (bios d0, sectors d0)))"
    unfolding S1 using ide_invD(2,4) [OF inv] serve1_other [of _ b ?S]
    by (auto simp: d1_def pending_def fun_eq_iff)
  have run: "step Irq d = (case bdev_front_bio False d1 of (None, d) \<Rightarrow> Some (d\<lparr>ide_status := IDE_IDLE\<rparr>)
      | (Some b, d) \<Rightarrow> do { kassert (status (bios d b) = BIO_PENDING); ide_issue_cmd b d })"
  proof -
    have q: "queue d = b # q" "ide_status d = IDE_BUSY" using ide_invD(1,7) [OF inv] by simp_all
    have "set_bio b (\<lambda>x. x\<lparr>status := BIO_COMPLETE\<rparr>) (if op ?x = BIO_READ
        then set_bio b (\<lambda>x. x\<lparr>buffer := take (bsize x * BLK_SIZE) dat @ drop (bsize x * BLK_SIZE) (buffer x)\<rparr>) (d\<lparr>sectors := ss, queue := q\<rparr>)
        else d\<lparr>sectors := ss, queue := q\<rparr>) = d1"
      using fin sv(1) ide_invD(6) [OF inv] x(3,4) length_get_sectors [of "sectors d" "blk ?x" "bsize ?x"] by (cases "op ?x") (simp_all add: set_bio_def d1_def)
    then show ?thesis using q c x(3) by (simp add: ide_trap_handler_def bdev_front_bio_def [of True])
  qed
  have base: "distinct ((dn @ [b]) @ q)" "\<forall>c\<in>set ((dn @ [b]) @ q). bio_ok (bios d0 c)" "sectors d1 = snd (serve (dn @ [b]) (bios d0, sectors d0))"
      "queue d1 = q" "\<forall>i. length (sectors d1 i) = BLK_SIZE"
    using ide_invD(2,3) [OF inv] ss S1 sv(3) ide_invD(6) [OF inv] by (auto simp: d1_def)
  show ?thesis
  proof (cases q)
    case Nil
    then have "step Irq d = Some (d1\<lparr>ide_status := IDE_IDLE\<rparr>)" using run base(4) by (simp add: bdev_front_bio_def)
    then show ?thesis using Nil base bs by (simp add: ide_inv_def)
  next
    case (Cons e q')
    have "bios d1 e = (bios d0 e)\<lparr>status := BIO_PENDING\<rparr>" using Cons by (simp add: bs pending_def)
    then obtain r where r: "step Irq d = Some (d1\<lparr>regs := r, ide_status := IDE_BUSY\<rparr>)" "issued r (bios d0 e)"
      using start_front [of d1 e q'] base(2,4) Cons unfolding run by auto
    then show ?thesis using Cons base bs by (simp add: ide_inv_def)
  qed
qed

definition submitted :: "event list \<Rightarrow> nat list" where
  "submitted es = concat (map (\<lambda>e. case e of Submit b \<Rightarrow> [b] | Irq \<Rightarrow> []) es)"

lemma run_append: "run (es @ fs) d = do { d \<leftarrow> run es d; run fs d }"
  by (induction es arbitrary: d) (auto split: bind_splits)

lemma run_inv:
  assumes "ide_inv d0 dn q d" "distinct (dn @ q @ submitted es)" "\<forall>b\<in>set (submitted es). bio_ok (bios d0 b)"
  shows "\<exists>d' dn' q'. run es d = Some d' \<and> ide_inv d0 dn' q' d' \<and> dn' @ q' = dn @ q @ submitted es"
  using assms
proof (induction es arbitrary: dn q d)
  case (Cons e es)
  show ?case
  proof (cases e)
    case (Submit b)
    then have b: "b \<notin> set (dn @ q)" "bio_ok (bios d0 b)" using Cons.prems(2,3) by (auto simp: submitted_def)
    obtain d1 where d1: "step e d = Some d1" "ide_inv d0 dn (q @ [b]) d1" using submit_inv [OF Cons.prems(1) b] Submit by auto
    then show ?thesis using Cons.IH [OF d1(2)] Cons.prems(2,3) Submit by (auto simp: submitted_def)
  next
    case Irq
    show ?thesis
    proof (cases q)
      case Nil
      then have "step e d = Some d" using Irq ide_invD(7) [OF Cons.prems(1)] by (simp add: ide_trap_handler_def)
      then show ?thesis using Cons.IH [OF Cons.prems(1)] Cons.prems(2,3) Irq by (auto simp: submitted_def)
    next
      case q: (Cons b q')
      obtain d1 where d1: "step e d = Some d1" "ide_inv d0 (dn @ [b]) q' d1" using irq_inv [of d0 dn b q' d] Cons.prems(1) Irq q by auto
      then show ?thesis using Cons.IH [OF d1(2)] Cons.prems(2,3) Irq q by (auto simp: submitted_def)
    qed
  qed
qed (auto simp: submitted_def)

lemma drain:
  "ide_inv d0 dn q d \<Longrightarrow> \<exists>d'. run (replicate (length q) Irq) d = Some d' \<and> ide_inv d0 (dn @ q) [] d'"
proof (induction q arbitrary: dn d)
  case (Cons b q)
  obtain d1 where d1: "step Irq d = Some d1" "ide_inv d0 (dn @ [b]) q d1" using irq_inv [OF Cons.prems] by blast
  then show ?case using Cons.IH [OF d1(2)] by auto
qed auto

text \<open>C14: For every interleaving of submissions and disk interrupts, starting from an idle driver, the driver never panics; the requests
  that are complete are the first ones submitted, in order, and the sectors and the buffers of the completed requests are what a disk
  that serves exactly these requests one after the other produces. The rest of the requests is still queued and pending, and as many
  further interrupts as there are queued requests complete all of them.\<close>

theorem ide_serves_in_order:
  assumes "queue d0 = []" "ide_status d0 = IDE_IDLE" "\<forall>i. length (sectors d0 i) = BLK_SIZE"
    "distinct (submitted es)" "\<forall>b\<in>set (submitted es). bio_ok (bios d0 b)"
  shows "\<exists>d dn. run es d0 = Some d \<and> submitted es = dn @ queue d \<and> sectors d = snd (serve dn (bios d0, sectors d0)) \<and>
     (\<forall>b\<in>set dn. bios d b = fst (serve dn (bios d0, sectors d0)) b) \<and> (\<forall>b\<in>set (queue d). status (bios d b) = BIO_PENDING) \<and>
     (\<exists>d'. run (es @ replicate (length (queue d)) Irq) d0 = Some d' \<and> queue d' = [] \<and> ide_status d' = IDE_IDLE \<and>
        sectors d' = snd (serve (submitted es) (bios d0, sectors d0)) \<and> (\<forall>b\<in>set (submitted es). bios d' b = fst (serve (submitted es) (bios d0, sectors d0)) b))"
proof -
  have "ide_inv d0 [] [] d0" using assms by (simp add: ide_inv_def pending_def serve_def)
  then obtain d dn q where d: "run es d0 = Some d" "ide_inv d0 dn q d" "dn @ q = submitted es"
    using run_inv [of d0 "[]" "[]" d0 es] assms(4,5) by auto
  note i = ide_invD [OF d(2)]
  have "\<forall>b\<in>set dn. bios d b = fst (serve dn (bios d0, sectors d0)) b" "\<forall>b\<in>set (queue d). status (bios d b) = BIO_PENDING"
    using i(1,2,4) by (auto simp: pending_def)
  moreover obtain d' where d': "run (replicate (length q) Irq) d = Some d'" "ide_inv d0 (submitted es) [] d'"
    using drain [OF d(2)] unfolding d(3) by blast
  note j = ide_invD [OF d'(2)]
  have "run (es @ replicate (length (queue d)) Irq) d0 = Some d'" using d(1) d'(1) i(1) by (simp add: run_append)
  moreover have "\<forall>b\<in>set (submitted es). bios d' b = fst (serve (submitted es) (bios d0, sectors d0)) b" using j(4) by (simp add: pending_def)
  ultimately show ?thesis using d(1) d(3) [symmetric] i(1,5) j(1,5,7) by (intro exI [of _ d] exI [of _ dn]) auto
qed

definition two_bios :: ide where
  "two_bios = ide_alloc 1 (\<lambda>b. \<lparr>blk = 3, bsize = 1, buffer = replicate 512 7, op = (if b = 0 then BIO_WRITE else BIO_READ), status = BIO_COMPLETE\<rparr>)
     \<lparr>r_count = 0, r_sector = 0, r_cyl_l = 0, r_cyl_h = 0, r_drive = 0, r_cmd = 0, r_data = []\<rparr> (\<lambda>_. replicate 512 0)"

theorem ide_serves_in_order_witness:
  "\<exists>d dn. run [Submit 0, Submit 1, Irq] two_bios = Some d \<and> [0, 1] = dn @ queue d \<and>
     (\<exists>d'. run ([Submit 0, Submit 1, Irq] @ replicate (length (queue d)) Irq) two_bios = Some d' \<and>
        sectors d' = snd (serve [0, 1] (bios two_bios, sectors two_bios)))"
proof -
  have s: "submitted [Submit 0, Submit 1, Irq] = [0, 1]" by (simp add: submitted_def)
  show ?thesis
    using ide_serves_in_order [of two_bios "[Submit 0, Submit 1, Irq]"] unfolding s
    by (auto simp: two_bios_def ide_alloc_def bio_ok_def)
qed

end
