(* ===== verification/Jbd.thy ===== *)
theory Jbd
  imports Prelude
begin

text \<open>
  The journal: \<^verbatim>\<open>kernel/fs/jbd.c\<close>, over the block cache of \<^verbatim>\<open>kernel/bdev.c\<close>.

  \<open>disk\<close> is the contents of the device, \<open>buf\<close> the contents of the block buffers in the page cache; pages are never evicted, so a
  block that was not loaded yet has the contents of the disk. \<open>wlog\<close> records the completed block writes, oldest first: a
  crash leaves the disk after some prefix of it. \<open>locks\<close> are the block locks held by the thread and \<open>refs\<close> the
  reference counts. \<open>mem\<close> tells which of the next allocations succeed; once it is used up all do. \<open>None\<close> is a panic or a
  thread that waits for its own lock. The wait for a running transaction is \<open>Blocked\<close>.
\<close>

section \<open>Blocks\<close>

record blocks =
  disk :: "nat \<Rightarrow> u8 list"
  buf :: "nat \<Rightarrow> u8 list"
  wlog :: "(nat \<times> u8 list) list"
  locks :: "nat set"
  refs :: "nat \<Rightarrow> nat"
  dirty_blks :: "nat set"
  mem :: "bool list"

definition take_mem :: "blocks \<Rightarrow> bool \<times> blocks" where
  "take_mem st = (case mem st of [] \<Rightarrow> (True, st) | b # bs \<Rightarrow> (b, st\<lparr>mem := bs\<rparr>))"

definition sleeplock_acquire :: "nat \<Rightarrow> blocks \<Rightarrow> blocks option" where
  "sleeplock_acquire b st = do { kassert (b \<notin> locks st); Some (st\<lparr>locks := insert b (locks st)\<rparr>) }"

definition sleeplock_release :: "nat \<Rightarrow> blocks \<Rightarrow> blocks option" where
  "sleeplock_release b st = do { kassert (b \<in> locks st); Some (st\<lparr>locks := locks st - {b}\<rparr>) }"

text \<open>The page, the headers and the reference; the inner \<open>False\<close> is the null pointer.\<close>

definition bdev_get_blk_unlocked :: "nat \<Rightarrow> blocks \<Rightarrow> bool \<times> blocks" where
  "bdev_get_blk_unlocked b st = (case take_mem st of (ok, st) \<Rightarrow>
     if \<not> ok then (False, st) else (True, st\<lparr>refs := (refs st)(b := refs st b + 1)\<rparr>))"

definition bdev_get_blk :: "nat \<Rightarrow> blocks \<Rightarrow> (bool \<times> blocks) option" where
  "bdev_get_blk b st = (case bdev_get_blk_unlocked b st of (ok, st) \<Rightarrow>
     if ok then do { st \<leftarrow> sleeplock_acquire b st; Some (True, st) } else Some (False, st))"

definition bdev_release_blk_unlocked :: "nat \<Rightarrow> blocks \<Rightarrow> blocks option" where
  "bdev_release_blk_unlocked b st = do {
     kassert (refs st b > 0);
     Some (st\<lparr>refs := (refs st)(b := refs st b - 1)\<rparr>)
   }"

definition bdev_release_blk :: "nat \<Rightarrow> blocks \<Rightarrow> blocks option" where
  "bdev_release_blk b st = do {
     st \<leftarrow> sleeplock_release b st;
     bdev_release_blk_unlocked b st
   }"

definition bdev_set_blk_dirty :: "nat \<Rightarrow> bool \<Rightarrow> blocks \<Rightarrow> blocks" where
  "bdev_set_blk_dirty b d st = st\<lparr>dirty_blks := (if d then insert b (dirty_blks st) else dirty_blks st - {b})\<rparr>"

definition bdev_write_blk :: "nat \<Rightarrow> blocks \<Rightarrow> err \<times> blocks" where
  "bdev_write_blk b st = (case take_mem st of (ok, st) \<Rightarrow>
     if \<not> ok then (ERR_NOMEM, st)
     else (ERR_OK, bdev_set_blk_dirty b False
             (st\<lparr>disk := (disk st)(b := buf st b), wlog := wlog st @ [(b, buf st b)]\<rparr>)))"

definition set_buf :: "nat \<Rightarrow> u8 list \<Rightarrow> blocks \<Rightarrow> blocks" where
  "set_buf b d st = st\<lparr>buf := (buf st)(b := d)\<rparr>"

section \<open>The journal\<close>

datatype journal_state = IDLE | BUSY

text \<open>\<open>datablks\<close> are the numbers of the logged blocks; their number is \<^verbatim>\<open>next_index\<close>. \<open>jstart\<close> is \<^verbatim>\<open>s_journal_start\<close> of the file system.\<close>

record journal =
  enabled :: bool
  jstate :: journal_state
  datablks :: "nat list"
  jstart :: nat

abbreviation (input) JOURNAL_SIZE :: nat where "JOURNAL_SIZE \<equiv> 128"
abbreviation (input) HEADER_BLK :: nat where "HEADER_BLK \<equiv> 0"
abbreviation (input) BMAP_START_BLK :: nat where "BMAP_START_BLK \<equiv> 1"
abbreviation (input) BMAP_BLKS :: nat where "BMAP_BLKS \<equiv> 1"
abbreviation (input) JDATA_START_BLK :: nat where "JDATA_START_BLK \<equiv> 2"

definition sfs_journal_bmap :: "journal \<Rightarrow> nat \<Rightarrow> nat" where
  "sfs_journal_bmap j lb = jstart j + lb"

text \<open>A 32-bit number in memory.\<close>

definition enc32 :: "nat \<Rightarrow> u8 list" where
  "enc32 n = [of_nat n, of_nat (n div 2 ^ 8), of_nat (n div 2 ^ 16), of_nat (n div 2 ^ 24)]"

definition dec32 :: "u8 list \<Rightarrow> nat" where
  "dec32 xs = unat (xs ! 0) + 2 ^ 8 * unat (xs ! 1) + 2 ^ 16 * unat (xs ! 2) + 2 ^ 24 * unat (xs ! 3)"

text \<open>\<^verbatim>\<open>memmove\<close> to the start of a buffer.\<close>

definition put_front :: "u8 list \<Rightarrow> u8 list \<Rightarrow> u8 list" where
  "put_front xs old = xs @ drop (length xs) old"

fun write_data_blks :: "journal \<Rightarrow> nat \<Rightarrow> nat list \<Rightarrow> blocks \<Rightarrow> (err \<times> blocks) option" where
  "write_data_blks j i [] st = Some (ERR_OK, st)"
| "write_data_blks j i (b # bs) st = do {
     let pb = sfs_journal_bmap j (JDATA_START_BLK + i);
     (ok, st) \<leftarrow> bdev_get_blk pb st;
     (if \<not> ok then Some (ERR_NOMEM, st)
      else do {
        st \<leftarrow> sleeplock_acquire b st;
        let st = set_buf pb (buf st b) st;
        st \<leftarrow> sleeplock_release b st;
        (case bdev_write_blk pb st of (er, st) \<Rightarrow>
           if er \<noteq> ERR_OK then Some (er, st)
           else do { st \<leftarrow> bdev_release_blk pb st; write_data_blks j (i + 1) bs st })
      })
   }"

text \<open>The map of at most 127 block numbers fits into one block, so its loop runs at most once.\<close>

definition write_bmap_blk :: "journal \<Rightarrow> blocks \<Rightarrow> (err \<times> blocks) option" where
  "write_bmap_blk j st =
     (if datablks j = [] then Some (ERR_OK, st)
      else do {
        let pb = sfs_journal_bmap j BMAP_START_BLK;
        (ok, st) \<leftarrow> bdev_get_blk pb st;
        (if \<not> ok then Some (ERR_NOMEM, st)
         else do {
           let st = set_buf pb (put_front (concat (map enc32 (datablks j))) (buf st pb)) st;
           (case bdev_write_blk pb st of (er, st) \<Rightarrow>
              if er \<noteq> ERR_OK then Some (er, st)
              else do { st \<leftarrow> bdev_release_blk pb st; Some (ERR_OK, st) })
         })
      })"

definition write_journal_blks :: "journal \<Rightarrow> blocks \<Rightarrow> (err \<times> blocks) option" where
  "write_journal_blks j st = do {
     kassert (length (datablks j) < JOURNAL_SIZE);
     (er, st) \<leftarrow> write_data_blks j 0 (datablks j) st;
     (if er \<noteq> ERR_OK then Some (er, st) else write_bmap_blk j st)
   }"

definition write_journal_header :: "journal \<Rightarrow> blocks \<Rightarrow> (err \<times> blocks) option" where
  "write_journal_header j st = do {
     let pb = sfs_journal_bmap j HEADER_BLK;
     (ok, st) \<leftarrow> bdev_get_blk pb st;
     (if \<not> ok then Some (ERR_NOMEM, st)
      else do {
        let st = set_buf pb (put_front (enc32 (length (datablks j))) (buf st pb)) st;
        (case bdev_write_blk pb st of (er, st) \<Rightarrow>
           if er \<noteq> ERR_OK then Some (er, st)
           else do { st \<leftarrow> bdev_release_blk pb st; Some (ERR_OK, st) })
      })
   }"

fun apply_journal :: "nat list \<Rightarrow> blocks \<Rightarrow> (err \<times> blocks) option" where
  "apply_journal [] st = Some (ERR_OK, st)"
| "apply_journal (b # bs) st = do {
     st \<leftarrow> sleeplock_acquire b st;
     (case bdev_write_blk b st of (er, st) \<Rightarrow>
        if er \<noteq> ERR_OK then Some (er, st)
        else do {
          let st = bdev_set_blk_dirty b False st;
          st \<leftarrow> bdev_release_blk b st;
          apply_journal bs st
        })
   }"

definition erase_journal :: "journal \<Rightarrow> blocks \<Rightarrow> (err \<times> journal \<times> blocks) option" where
  "erase_journal j st = do {
     let j = j\<lparr>datablks := []\<rparr>;
     (er, st) \<leftarrow> write_journal_header j st;
     Some (er, j, st)
   }"

definition commit_journal :: "journal \<Rightarrow> blocks \<Rightarrow> (err \<times> journal \<times> blocks) option" where
  "commit_journal j st = do {
     (er, st) \<leftarrow> write_journal_blks j st;
     (if er \<noteq> ERR_OK then Some (er, j, st)
      else do {
        (er, st) \<leftarrow> write_journal_header j st;
        (if er \<noteq> ERR_OK then Some (er, j, st)
         else do {
           (er, st) \<leftarrow> apply_journal (datablks j) st;
           (if er \<noteq> ERR_OK then Some (er, j, st) else erase_journal j st)
         })
      })
   }"

section \<open>Transactions\<close>

definition jbd_alloc_journal :: "nat \<Rightarrow> journal" where
  "jbd_alloc_journal start = \<lparr>enabled = True, jstate = IDLE, datablks = [], jstart = start\<rparr>"

definition jbd_begin_txn :: "journal \<Rightarrow> journal outcome" where
  "jbd_begin_txn j =
     (if \<not> enabled j then Ret j else if jstate j \<noteq> IDLE then Blocked else Ret (j\<lparr>jstate := BUSY\<rparr>))"

text \<open>The commit is repeated until it succeeds. Not coming to an end is \<open>None\<close>, too.\<close>

partial_function (option) commit_loop :: "journal \<Rightarrow> blocks \<Rightarrow> (journal \<times> blocks) option" where
  "commit_loop j st = do {
     (er, j, st) \<leftarrow> commit_journal j st;
     (if er \<noteq> ERR_OK then commit_loop j st else Some (j, st))
   }"

definition jbd_end_txn :: "journal \<Rightarrow> blocks \<Rightarrow> (journal \<times> blocks) option" where
  "jbd_end_txn j st =
     (if \<not> enabled j then Some (j, st)
      else do {
        kassert (jstate j = BUSY);
        (j, st) \<leftarrow> (if datablks j \<noteq> [] then commit_loop j st else Some (j, st));
        Some (j\<lparr>jstate := IDLE\<rparr>, st)
      })"

definition jbd_write_blk :: "journal \<Rightarrow> nat \<Rightarrow> blocks \<Rightarrow> (journal \<times> blocks) option" where
  "jbd_write_blk j b st =
     (if \<not> enabled j then Some (j, st)
      else do {
        kassert (jstate j = BUSY);
        (if b \<in> set (datablks j) then Some (j, st)
         else do {
           kassert (length (datablks j) < JOURNAL_SIZE);
           Some (j\<lparr>datablks := datablks j @ [b]\<rparr>, st\<lparr>refs := (refs st)(b := refs st b + 1)\<rparr>)
         })
      })"

definition jbd_recover :: "journal \<Rightarrow> err" where
  "jbd_recover j = ERR_OK"

end
