(* ===== verification/Sfs.thy ===== *)
theory Sfs
  imports Jbd Cstring
begin

text \<open>
  The file system on the disk: \<^verbatim>\<open>kernel/fs/sfs/sfs.c\<close>, over the block buffers and the journal of \<open>Jbd\<close>, with the
  inode cache of \<^verbatim>\<open>kernel/fs/fs.c\<close>, which it calls and which calls it.

  There is one mounted file system. \<open>bl\<close> and \<open>jn\<close> are its block buffers and its journal, \<open>sbi\<close> is \<^verbatim>\<open>struct sfs_sb_info\<close>. The
  in-memory inodes live at the addresses of \<open>ino\<close>; \<open>icache\<close> is the radix tree \<^verbatim>\<open>s_icache\<close>, by the laws of \<open>Radix_Tree\<close> a map from inode
  numbers to addresses. \<open>ipool\<close> holds the free inode structures: when it is empty the allocation fails. \<open>ilocks\<close> are
  the inode locks held by the thread. Blocks hold bytes; the structures of the source are at their byte offsets, numbers
  with the least significant byte first. A result of \<open>None\<close> is a panic, or a thread that waits for a lock it holds itself.
\<close>

section \<open>State\<close>

record sb_info =
  s_size :: nat
  s_num_inodes :: nat
  s_data_bmap_start :: nat
  s_journal_start :: nat
  s_data_start :: nat

record inode =
  i_inum :: nat
  i_ref :: nat
  i_nlink :: nat
  i_ftype :: nat
  i_mode :: nat
  i_size :: nat
  i_addrs :: "nat list"
  i_valid :: bool
  i_dirty :: bool

record fsst =
  bl :: blocks
  jn :: journal
  sbi :: sb_info
  ino :: "nat \<Rightarrow> inode"
  icache :: "nat \<Rightarrow> nat option"
  ipool :: "nat list"
  ilocks :: "nat set"
  cleanup :: "nat list"

abbreviation (input) BDEV_BLK_SIZE :: nat where "BDEV_BLK_SIZE \<equiv> 512"
abbreviation (input) SFS_SUPER_BLK :: nat where "SFS_SUPER_BLK \<equiv> 2"
abbreviation (input) SFS_INODE_BMAP_BLK :: nat where "SFS_INODE_BMAP_BLK \<equiv> 3"
abbreviation (input) SFS_INODE_TABLE_BLK :: nat where "SFS_INODE_TABLE_BLK \<equiv> 4"
abbreviation (input) SFS_ROOT_INUM :: nat where "SFS_ROOT_INUM \<equiv> 1"
abbreviation (input) SFS_NDIRECT :: nat where "SFS_NDIRECT \<equiv> 12"
abbreviation (input) SFS_NINDIRECT :: nat where "SFS_NINDIRECT \<equiv> 2"
abbreviation (input) PER_BLK :: nat where "PER_BLK \<equiv> 128"
abbreviation (input) sizeof_sfs_inode :: nat where "sizeof_sfs_inode \<equiv> 64"
abbreviation (input) sizeof_sfs_dirent :: nat where "sizeof_sfs_dirent \<equiv> 32"
abbreviation (input) SFS_DIRENT_NAMELEN :: nat where "SFS_DIRENT_NAMELEN \<equiv> 28"
abbreviation (input) FTYPE_DIR :: nat where "FTYPE_DIR \<equiv> 1"
abbreviation (input) FTYPE_FILE :: nat where "FTYPE_FILE \<equiv> 2"

definition SFS_MAX_FILE_SIZE :: nat where
  "SFS_MAX_FILE_SIZE = (SFS_NDIRECT + SFS_NINDIRECT * PER_BLK) * BDEV_BLK_SIZE"

definition set_ino :: "nat \<Rightarrow> (inode \<Rightarrow> inode) \<Rightarrow> fsst \<Rightarrow> fsst" where
  "set_ino a g f = f\<lparr>ino := (ino f)(a := g (ino f a))\<rparr>"

text \<open>Numbers in the bytes of a block: reading one, and storing a sequence of bytes.\<close>

definition rd32 :: "nat \<Rightarrow> u8 list \<Rightarrow> nat" where
  "rd32 ofs xs = dec32 (drop ofs xs)"

definition put_bytes :: "nat \<Rightarrow> u8 list \<Rightarrow> u8 list \<Rightarrow> u8 list" where
  "put_bytes ofs bs xs = take ofs xs @ bs @ drop (ofs + length bs) xs"

section \<open>Block buffers of the file system\<close>

definition get_blk :: "nat \<Rightarrow> fsst \<Rightarrow> (bool \<times> fsst) option" where
  "get_blk b f = do { (ok, s) \<leftarrow> bdev_get_blk b (bl f); Some (ok, f\<lparr>bl := s\<rparr>) }"

definition release_blk :: "nat \<Rightarrow> fsst \<Rightarrow> fsst option" where
  "release_blk b f = do { s \<leftarrow> bdev_release_blk b (bl f); Some (f\<lparr>bl := s\<rparr>) }"

definition get_unlocked :: "nat \<Rightarrow> fsst \<Rightarrow> bool \<times> fsst" where
  "get_unlocked b f = (case bdev_get_blk_unlocked b (bl f) of (ok, s) \<Rightarrow> (ok, f\<lparr>bl := s\<rparr>))"

definition release_unlocked :: "nat \<Rightarrow> fsst \<Rightarrow> fsst option" where
  "release_unlocked b f = do { s \<leftarrow> bdev_release_blk_unlocked b (bl f); Some (f\<lparr>bl := s\<rparr>) }"

text \<open>A change of the buffer, followed by the two calls that mark the block dirty and log it.\<close>

definition change_blk :: "nat \<Rightarrow> (u8 list \<Rightarrow> u8 list) \<Rightarrow> fsst \<Rightarrow> fsst option" where
  "change_blk b g f = do {
     let s = bdev_set_blk_dirty b True (set_buf b (g (buf (bl f) b)) (bl f));
     (j, s) \<leftarrow> jbd_write_blk (jn f) b s;
     Some (f\<lparr>jn := j, bl := s\<rparr>)
   }"

section \<open>Bitmaps\<close>

definition inum_to_blk :: "nat \<Rightarrow> nat" where
  "inum_to_blk inum = SFS_INODE_TABLE_BLK + (inum - 1) div (BDEV_BLK_SIZE div sizeof_sfs_inode)"

definition inum_to_ofs :: "nat \<Rightarrow> nat" where
  "inum_to_ofs inum = ((inum - 1) * sizeof_sfs_inode) mod BDEV_BLK_SIZE"

definition free_bit :: "u8 \<Rightarrow> nat option" where
  "free_bit w = find (\<lambda>k. w AND push_bit k 1 = 0) [0..<8]"

fun find_free :: "nat \<Rightarrow> u8 list \<Rightarrow> nat option" where
  "find_free byte [] = None"
| "find_free byte (w # ws) = (case free_bit w of Some k \<Rightarrow> Some (byte * 8 + k) | None \<Rightarrow> find_free (byte + 1) ws)"

definition set_bmap :: "nat \<Rightarrow> u8 list \<Rightarrow> u8 list" where
  "set_bmap i xs = xs[i div 8 := xs ! (i div 8) OR push_bit (i mod 8) 1]"

definition clear_bmap :: "nat \<Rightarrow> u8 list \<Rightarrow> u8 list" where
  "clear_bmap i xs = xs[i div 8 := xs ! (i div 8) AND NOT (push_bit (i mod 8) 1)]"

text \<open>\<open>None\<close> inside the result is the source's \<^verbatim>\<open>-1\<close>.\<close>

definition bmap_alloc_element :: "nat \<Rightarrow> nat \<Rightarrow> fsst \<Rightarrow> (nat option \<times> fsst) option" where
  "bmap_alloc_element b size' f =
     (case find_free 0 (take size' (buf (bl f) b)) of
        None \<Rightarrow> Some (None, f)
      | Some i \<Rightarrow> do { f \<leftarrow> change_blk b (set_bmap i) f; Some (Some i, f) })"

definition bmap_free_element :: "nat \<Rightarrow> nat \<Rightarrow> fsst \<Rightarrow> fsst option" where
  "bmap_free_element b i f = change_blk b (clear_bmap i) f"

section \<open>Inodes on the disk\<close>

definition enc16 :: "nat \<Rightarrow> u8 list" where
  "enc16 n = [of_nat n, of_nat (n div 2 ^ 8)]"

definition dec16 :: "u8 list \<Rightarrow> nat" where
  "dec16 xs = unat (xs ! 0) + 2 ^ 8 * unat (xs ! 1)"

text \<open>The 64 bytes of \<^verbatim>\<open>struct sfs_inode\<close>.\<close>

definition sfs_inode :: "nat \<Rightarrow> nat \<Rightarrow> nat \<Rightarrow> nat \<Rightarrow> nat list \<Rightarrow> u8 list" where
  "sfs_inode ftype mode nlink size' addrs =
     [of_nat ftype, of_nat mode] @ enc16 nlink @ enc32 size' @ concat (map enc32 addrs)"

definition sfs_read_inode :: "nat \<Rightarrow> fsst \<Rightarrow> (err \<times> fsst) option" where
  "sfs_read_inode a f = do {
     kassert (i_inum (ino f a) \<noteq> 0);
     kassert (\<not> i_dirty (ino f a));
     let b = inum_to_blk (i_inum (ino f a));
     (ok, f) \<leftarrow> get_blk b f;
     (if \<not> ok then Some (ERR_NOMEM, f)
      else do {
        let d = drop (inum_to_ofs (i_inum (ino f a))) (buf (bl f) b);
        let f = set_ino a (\<lambda>i. i\<lparr>i_ftype := unat (d ! 0), i_mode := unat (d ! 1), i_nlink := dec16 (drop 2 d), i_size := rd32 4 d,
                  i_addrs := map (\<lambda>k. rd32 (8 + 4 * k) d) [0..<SFS_NDIRECT + SFS_NINDIRECT], i_valid := True\<rparr>) f;
        f \<leftarrow> release_blk b f;
        Some (ERR_OK, f)
      })
   }"

definition sfs_write_inode :: "nat \<Rightarrow> fsst \<Rightarrow> (err \<times> fsst) option" where
  "sfs_write_inode a f = do {
     kassert (i_inum (ino f a) \<noteq> 0);
     let b = inum_to_blk (i_inum (ino f a));
     (ok, f) \<leftarrow> get_blk b f;
     (if \<not> ok then Some (ERR_NOMEM, f)
      else do {
        let i = ino f a;
        f \<leftarrow> change_blk b (put_bytes (inum_to_ofs (i_inum i))
               (sfs_inode (i_ftype i) (i_mode i) (i_nlink i) (i_size i) (i_addrs i))) f;
        let f = set_ino a (\<lambda>i. i\<lparr>i_dirty := False\<rparr>) f;
        f \<leftarrow> release_blk b f;
        Some (ERR_OK, f)
      })
   }"

definition alloc_disk_inode :: "nat \<Rightarrow> nat \<Rightarrow> fsst \<Rightarrow> (err \<times> nat \<times> fsst) option" where
  "alloc_disk_inode ftype mode f = do {
     (ok, f) \<leftarrow> get_blk SFS_INODE_BMAP_BLK f;
     (if \<not> ok then Some (ERR_NOMEM, 0, f)
      else do {
        (r, f) \<leftarrow> bmap_alloc_element SFS_INODE_BMAP_BLK (s_num_inodes (sbi f) div 8) f;
        (case r of
           None \<Rightarrow> do { f \<leftarrow> release_blk SFS_INODE_BMAP_BLK f; Some (ERR_NORES, 0, f) }
         | Some index \<Rightarrow> do {
             let inum = index + 1;
             let b = inum_to_blk inum;
             (ok, f) \<leftarrow> get_blk b f;
             (if \<not> ok then do {
                f \<leftarrow> bmap_free_element SFS_INODE_BMAP_BLK index f;
                f \<leftarrow> release_blk SFS_INODE_BMAP_BLK f;
                Some (ERR_NOMEM, inum, f)
              }
              else do {
                f \<leftarrow> release_blk SFS_INODE_BMAP_BLK f;
                f \<leftarrow> change_blk b (put_bytes (inum_to_ofs inum)
                       (sfs_inode ftype mode 1 0 (replicate (SFS_NDIRECT + SFS_NINDIRECT) 0))) f;
                f \<leftarrow> release_blk b f;
                Some (ERR_OK, inum, f)
              })
           })
      })
   }"

definition free_disk_inode :: "nat \<Rightarrow> fsst \<Rightarrow> (err \<times> fsst) option" where
  "free_disk_inode inum f = do {
     kassert (inum \<noteq> 0);
     (ok, f) \<leftarrow> get_blk SFS_INODE_BMAP_BLK f;
     (if \<not> ok then Some (ERR_NOMEM, f)
      else do {
        f \<leftarrow> bmap_free_element SFS_INODE_BMAP_BLK (inum - 1) f;
        f \<leftarrow> release_blk SFS_INODE_BMAP_BLK f;
        Some (ERR_OK, f)
      })
   }"

section \<open>Data blocks\<close>

lemma get_blk_sbi: "get_blk b f = Some (ok, g) \<Longrightarrow> sbi g = sbi f"
  by (auto simp: get_blk_def bind_Some_iff)

lemma release_blk_sbi: "release_blk b f = Some g \<Longrightarrow> sbi g = sbi f"
  by (auto simp: release_blk_def bind_Some_iff)

lemma alloc_element_sbi: "bmap_alloc_element b n f = Some (r, g) \<Longrightarrow> sbi g = sbi f"
  by (auto simp: bmap_alloc_element_def change_blk_def bind_Some_iff Let_def split: option.splits)

text \<open>The loop over the blocks of the data bitmap. \<open>num_blks\<close> is a 64-bit unsigned number.\<close>

function alloc_data_loop :: "nat \<Rightarrow> u64 \<Rightarrow> fsst \<Rightarrow> (err \<times> nat \<times> fsst) option" where
  "alloc_data_loop bmap_blk num_blks f =
     (if bmap_blk < s_journal_start (sbi f) then
        (case get_blk bmap_blk f of
           None \<Rightarrow> None
         | Some (ok, g) \<Rightarrow>
             if \<not> ok then Some (ERR_NOMEM, 0, g)
             else
               (case bmap_alloc_element bmap_blk (min BDEV_BLK_SIZE (unat num_blks div 8)) g of
                  None \<Rightarrow> None
                | Some (Some index, g) \<Rightarrow> do {
                    let blk = s_data_start (sbi g) + BDEV_BLK_SIZE * 8 * (bmap_blk - s_data_bmap_start (sbi g)) + index;
                    (ok, g) \<leftarrow> get_blk blk g;
                    (if \<not> ok then do {
                       g \<leftarrow> bmap_free_element bmap_blk index g;
                       g \<leftarrow> release_blk bmap_blk g;
                       Some (ERR_NOMEM, blk, g)
                     }
                     else do {
                       g \<leftarrow> release_blk bmap_blk g;
                       g \<leftarrow> change_blk blk (\<lambda>_. replicate BDEV_BLK_SIZE 0) g;
                       g \<leftarrow> release_blk blk g;
                       Some (ERR_OK, blk, g)
                     })
                  }
                | Some (None, g) \<Rightarrow>
                    (case release_blk bmap_blk g of
                       None \<Rightarrow> None
                     | Some g \<Rightarrow> alloc_data_loop (bmap_blk + 1) (num_blks - of_nat (BDEV_BLK_SIZE * 8)) g)))
      else Some (ERR_NORES, 0, f))"
  by pat_completeness auto
termination
  by (relation "measure (\<lambda>(b, _, f). s_journal_start (sbi f) - b)") (auto dest!: get_blk_sbi alloc_element_sbi release_blk_sbi)

definition alloc_data_block :: "fsst \<Rightarrow> (err \<times> nat \<times> fsst) option" where
  "alloc_data_block f = alloc_data_loop (s_data_bmap_start (sbi f)) (of_nat (s_size (sbi f))) f"

definition free_data_block :: "nat \<Rightarrow> fsst \<Rightarrow> (err \<times> fsst) option" where
  "free_data_block blk f = do {
     kassert (blk \<ge> s_data_start (sbi f));
     let bmap_blk = s_data_bmap_start (sbi f) + (blk - s_data_start (sbi f)) div (BDEV_BLK_SIZE * 8);
     (ok, f) \<leftarrow> get_blk bmap_blk f;
     (if \<not> ok then Some (ERR_NOMEM, f)
      else do {
        f \<leftarrow> bmap_free_element bmap_blk ((blk - s_data_start (sbi f)) mod (BDEV_BLK_SIZE * 8)) f;
        f \<leftarrow> release_blk bmap_blk f;
        Some (ERR_OK, f)
      })
   }"

text \<open>The block an offset of a file is in. The number in the result is the block whose buffer the source returns; its lock is held.
  An entry of \<^verbatim>\<open>i_addrs\<close> is filled in the same way for a direct and for an indirect block; \<open>indirect_entry\<close> is the entry in an indirect
  block. When the final \<^verbatim>\<open>bdev_get_blk\<close> fails, the source releases the indirect block a second time.\<close>

definition direct_block :: "nat \<Rightarrow> nat \<Rightarrow> bool \<Rightarrow> fsst \<Rightarrow> (err \<times> nat \<times> fsst) option" where
  "direct_block a blk_index alloc f =
     (let blk = i_addrs (ino f a) ! blk_index in
      if blk = 0 then
        (if \<not> alloc then Some (ERR_NOTEXIST, 0, f)
         else do {
           (er, blk, f) \<leftarrow> alloc_data_block f;
           (if er \<noteq> ERR_OK then Some (er, 0, f)
            else do {
              let f = set_ino a (\<lambda>i. i\<lparr>i_addrs := (i_addrs i)[blk_index := blk], i_dirty := True\<rparr>) f;
              (_, f) \<leftarrow> sfs_write_inode a f;
              Some (ERR_OK, blk, f)
            })
         })
      else Some (ERR_OK, blk, f))"

definition indirect_entry :: "nat \<Rightarrow> nat \<Rightarrow> bool \<Rightarrow> fsst \<Rightarrow> (err \<times> nat \<times> fsst) option" where
  "indirect_entry ib k alloc f = do {
     (ok, f) \<leftarrow> get_blk ib f;
     (if \<not> ok then Some (ERR_NOMEM, 0, f)
      else do {
        let blk = rd32 (4 * k) (buf (bl f) ib);
        (if blk = 0 then
           (if \<not> alloc then do { f \<leftarrow> release_blk ib f; Some (ERR_NOTEXIST, 0, f) }
            else do {
              (er, blk, f) \<leftarrow> alloc_data_block f;
              (if er \<noteq> ERR_OK then do { f \<leftarrow> release_blk ib f; Some (er, 0, f) }
               else do {
                 f \<leftarrow> change_blk ib (put_bytes (4 * k) (enc32 blk)) f;
                 f \<leftarrow> release_blk ib f;
                 Some (ERR_OK, blk, f)
               })
            })
         else do { f \<leftarrow> release_blk ib f; Some (ERR_OK, blk, f) })
      })
   }"

text \<open>The two branches of \<^verbatim>\<open>get_data_block\<close>: direct and indirect blocks.\<close>

definition locate_block :: "nat \<Rightarrow> nat \<Rightarrow> bool \<Rightarrow> fsst \<Rightarrow> (err \<times> nat \<times> fsst) option" where
  "locate_block a k alloc f =
     (if k < SFS_NDIRECT then direct_block a k alloc f
      else do {
        let indir = SFS_NDIRECT + (k - SFS_NDIRECT) div PER_BLK;
        kassert (indir < SFS_NDIRECT + SFS_NINDIRECT);
        (er, _, f) \<leftarrow> direct_block a indir alloc f;
        (if er \<noteq> ERR_OK then Some (er, 0, f)
         else do {
           kassert (i_addrs (ino f a) ! indir > 0);
           indirect_entry (i_addrs (ino f a) ! indir) ((k - SFS_NDIRECT) mod PER_BLK) alloc f
         })
      })"

definition get_data_block :: "nat \<Rightarrow> nat \<Rightarrow> bool \<Rightarrow> fsst \<Rightarrow> (err \<times> nat \<times> fsst) option" where
  "get_data_block a ofs alloc f = do {
     kassert (ofs < SFS_MAX_FILE_SIZE);
     let inode_blk = inum_to_blk (i_inum (ino f a));
     (case get_unlocked inode_blk f of (ok, f) \<Rightarrow>
        if \<not> ok then Some (ERR_NOMEM, 0, f)
        else do {
          let blk_index = ofs div BDEV_BLK_SIZE;
          (er, blk, f) \<leftarrow> locate_block a blk_index alloc f;
          (if er \<noteq> ERR_OK then do { f \<leftarrow> release_unlocked inode_blk f; Some (er, 0, f) }
           else do {
             kassert (blk > 0);
             (ok, f) \<leftarrow> get_blk blk f;
             (if ok then do { f \<leftarrow> release_unlocked inode_blk f; Some (ERR_OK, blk, f) }
              else do {
                f \<leftarrow> (if blk_index < SFS_NDIRECT then Some f
                     else release_blk (i_addrs (ino f a) ! (SFS_NDIRECT + (blk_index - SFS_NDIRECT) div PER_BLK)) f);
                f \<leftarrow> release_unlocked inode_blk f;
                Some (ERR_NOMEM, 0, f)
              })
           })
        })
   }"

section \<open>Contents of files\<close>

text \<open>The loops are over the bytes that are left; what is read comes back as a list.\<close>

partial_function (option) read_loop :: "nat \<Rightarrow> nat \<Rightarrow> nat \<Rightarrow> fsst \<Rightarrow> (u8 list \<times> fsst) option" where
  "read_loop a n ofs f =
     (if n > 0 \<and> ofs < i_size (ino f a) then do {
        (er, b, f) \<leftarrow> get_data_block a ofs False f;
        (if er \<noteq> ERR_OK then Some ([], f)
         else do {
           let s = min (min (BDEV_BLK_SIZE - ofs mod BDEV_BLK_SIZE) n) (i_size (ino f a) - ofs);
           let bs = take s (drop (ofs mod BDEV_BLK_SIZE) (buf (bl f) b));
           f \<leftarrow> release_blk b f;
           (rs, f) \<leftarrow> read_loop a (n - s) (ofs + s) f;
           Some (bs @ rs, f)
         })
      }
      else Some ([], f))"

definition read_data :: "nat \<Rightarrow> nat \<Rightarrow> nat \<Rightarrow> fsst \<Rightarrow> (u8 list \<times> fsst) option" where
  "read_data a count ofs f = read_loop a count ofs f"

text \<open>The number of bytes written and the offset behind them.\<close>

partial_function (option) write_loop :: "nat \<Rightarrow> u8 list \<Rightarrow> nat \<Rightarrow> nat \<Rightarrow> fsst \<Rightarrow> (nat \<times> nat \<times> fsst) option" where
  "write_loop a bs tot ofs f =
     (if bs \<noteq> [] then do {
        (er, b, f) \<leftarrow> get_data_block a ofs True f;
        (if er \<noteq> ERR_OK then Some (tot, ofs, f)
         else do {
           let s = min (BDEV_BLK_SIZE - ofs mod BDEV_BLK_SIZE) (length bs);
           f \<leftarrow> change_blk b (put_bytes (ofs mod BDEV_BLK_SIZE) (take s bs)) f;
           f \<leftarrow> release_blk b f;
           write_loop a (drop s bs) (tot + s) (ofs + s) f
         })
      }
      else Some (tot, ofs, f))"

definition write_data :: "nat \<Rightarrow> u8 list \<Rightarrow> nat \<Rightarrow> fsst \<Rightarrow> (nat \<times> fsst) option" where
  "write_data a bs ofs f = do {
     (tot, ofs, f) \<leftarrow> write_loop a bs 0 ofs f;
     (if bs \<noteq> [] \<and> ofs > i_size (ino f a) then do {
        let f = set_ino a (\<lambda>i. i\<lparr>i_size := ofs, i_dirty := True\<rparr>) f;
        (_, f) \<leftarrow> sfs_write_inode a f;
        Some (tot, f)
      }
      else Some (tot, f))
   }"

section \<open>Directories\<close>

text \<open>
  The entry at an offset of a block buffer: its inode number, and the comparison of its name with a C string. The string functions
  are those of \<open>Cstring\<close>, on a memory that holds the buffer and the string. A name shorter than 28 characters makes
  \<^verbatim>\<open>strncpy\<close> write 29 bytes: for the last entry of a block the last byte lands in the first byte of the block behind it in the page.
  For the last block of a page it lands outside of the page; that byte is not modelled.
\<close>

definition dirent_matches :: "u8 list \<Rightarrow> nat \<Rightarrow> u8 list \<Rightarrow> bool" where
  "dirent_matches name o' xs \<longleftrightarrow>
     strncmp (stored 0 xs (stored 1024 (name @ [0]) (\<lambda>_. 0))) (o' + 4) 1024 SFS_DIRENT_NAMELEN = 0"

definition copy_name :: "u8 list \<Rightarrow> nat \<Rightarrow> u8 list \<Rightarrow> u8 list" where
  "copy_name name o' xs = map (strncpy (o' + 4) 1024 SFS_DIRENT_NAMELEN (stored 0 xs (stored 1024 (name @ [0]) (\<lambda>_. 0)))) [0..<length xs]"

definition write_dirent :: "nat \<Rightarrow> nat \<Rightarrow> nat \<Rightarrow> u8 list \<Rightarrow> fsst \<Rightarrow> fsst option" where
  "write_dirent b o' inum name f = do {
     let d = put_bytes o' (enc32 inum) (buf (bl f) b);
     let xs = copy_name name o' (d @ take 1 (buf (bl f) (b + 1)));
     let xs = xs[o' + 4 + SFS_DIRENT_NAMELEN - 1 := 0];
     let f = (if (b + 1) mod 8 \<noteq> 0
              then f\<lparr>bl := set_buf (b + 1) (put_bytes 0 (drop BDEV_BLK_SIZE xs) (buf (bl f) (b + 1))) (bl f)\<rparr> else f);
     change_blk b (\<lambda>_. take BDEV_BLK_SIZE xs) f
   }"

text \<open>\<open>cur\<close> is the block the loop holds, the source's \<^verbatim>\<open>bh\<close>.\<close>

definition release_cur :: "nat option \<Rightarrow> fsst \<Rightarrow> fsst option" where
  "release_cur cur f = (case cur of None \<Rightarrow> Some f | Some b \<Rightarrow> release_blk b f)"

text \<open>The start of an iteration: at a block boundary the next block replaces the one held.\<close>

definition next_dirent_blk :: "nat \<Rightarrow> nat \<Rightarrow> bool \<Rightarrow> nat option \<Rightarrow> fsst \<Rightarrow> (err \<times> nat \<times> fsst) option" where
  "next_dirent_blk a ofs alloc cur f =
     (if ofs mod BDEV_BLK_SIZE = 0 then do {
        f \<leftarrow> release_cur cur f;
        get_data_block a ofs alloc f
      }
      else do { b \<leftarrow> cur; Some (ERR_OK, b, f) })"

partial_function (option) search_dir_loop :: "nat \<Rightarrow> u8 list \<Rightarrow> nat \<Rightarrow> nat option \<Rightarrow> fsst \<Rightarrow> (nat \<times> fsst) option" where
  "search_dir_loop a name ofs cur f =
     (if ofs < i_size (ino f a) then do {
        (er, b, f) \<leftarrow> next_dirent_blk a ofs False cur f;
        (if er \<noteq> ERR_OK then Some (0, f)
         else do {
           let o' = ofs mod BDEV_BLK_SIZE;
           (if rd32 o' (buf (bl f) b) > 0 \<and> dirent_matches name o' (buf (bl f) b) then do {
              let inum = rd32 o' (buf (bl f) b);
              f \<leftarrow> release_blk b f;
              Some (inum, f)
            }
            else search_dir_loop a name (ofs + sizeof_sfs_dirent) (Some b) f)
         })
      }
      else do { f \<leftarrow> release_cur cur f; Some (0, f) })"

definition search_dir :: "nat \<Rightarrow> u8 list \<Rightarrow> fsst \<Rightarrow> (nat \<times> fsst) option" where
  "search_dir a name f = search_dir_loop a name 0 None f"

partial_function (option) is_dir_empty_loop :: "nat \<Rightarrow> nat \<Rightarrow> nat option \<Rightarrow> fsst \<Rightarrow> (err \<times> bool \<times> fsst) option" where
  "is_dir_empty_loop a ofs cur f =
     (if ofs < i_size (ino f a) then do {
        (er, b, f) \<leftarrow> next_dirent_blk a ofs False cur f;
        (if er \<noteq> ERR_OK then Some (er, False, f)
         else if rd32 (ofs mod BDEV_BLK_SIZE) (buf (bl f) b) > 0 then do { f \<leftarrow> release_blk b f; Some (ERR_OK, False, f) }
         else is_dir_empty_loop a (ofs + sizeof_sfs_dirent) (Some b) f)
      }
      else do { f \<leftarrow> release_cur cur f; Some (ERR_OK, True, f) })"

definition is_dir_empty :: "nat \<Rightarrow> fsst \<Rightarrow> (err \<times> bool \<times> fsst) option" where
  "is_dir_empty a f = is_dir_empty_loop a 0 None f"

partial_function (option) free_dirent_loop :: "nat \<Rightarrow> u8 list \<Rightarrow> nat \<Rightarrow> nat option \<Rightarrow> fsst \<Rightarrow> (err \<times> fsst) option" where
  "free_dirent_loop a name ofs cur f =
     (if ofs < i_size (ino f a) then do {
        (er, b, f) \<leftarrow> next_dirent_blk a ofs False cur f;
        (if er \<noteq> ERR_OK then Some (er, f)
         else do {
           let o' = ofs mod BDEV_BLK_SIZE;
           (if rd32 o' (buf (bl f) b) > 0 \<and> dirent_matches name o' (buf (bl f) b) then do {
              f \<leftarrow> change_blk b (put_bytes o' (enc32 0)) f;
              f \<leftarrow> release_blk b f;
              Some (ERR_OK, f)
            }
            else free_dirent_loop a name (ofs + sizeof_sfs_dirent) (Some b) f)
         })
      }
      else do { f \<leftarrow> release_cur cur f; Some (ERR_NOTEXIST, f) })"

definition free_dirent :: "nat \<Rightarrow> u8 list \<Rightarrow> fsst \<Rightarrow> (err \<times> fsst) option" where
  "free_dirent a name f = free_dirent_loop a name 0 None f"

partial_function (option) alloc_dirent_loop :: "nat \<Rightarrow> u8 list \<Rightarrow> nat \<Rightarrow> nat \<Rightarrow> nat option \<Rightarrow> fsst \<Rightarrow> (err \<times> fsst) option" where
  "alloc_dirent_loop a name inum ofs cur f =
     (if ofs < SFS_MAX_FILE_SIZE then do {
        (er, b, f) \<leftarrow> next_dirent_blk a ofs True cur f;
        (if er \<noteq> ERR_OK then Some (er, f)
         else do {
           let o' = ofs mod BDEV_BLK_SIZE;
           (if ofs \<ge> i_size (ino f a) \<or> rd32 o' (buf (bl f) b) = 0 then do {
              f \<leftarrow> (if ofs \<ge> i_size (ino f a) then do {
                      let f = set_ino a (\<lambda>i. i\<lparr>i_size := ofs + sizeof_sfs_dirent, i_dirty := True\<rparr>) f;
                      (_, f) \<leftarrow> sfs_write_inode a f;
                      Some f
                    }
                    else Some f);
              f \<leftarrow> write_dirent b o' inum name f;
              f \<leftarrow> release_blk b f;
              Some (ERR_OK, f)
            }
            else alloc_dirent_loop a name inum (ofs + sizeof_sfs_dirent) (Some b) f)
         })
      }
      else do { f \<leftarrow> release_cur cur f; Some (ERR_NORES, f) })"

definition alloc_dirent :: "nat \<Rightarrow> u8 list \<Rightarrow> nat \<Rightarrow> fsst \<Rightarrow> (err \<times> fsst) option" where
  "alloc_dirent a name inum f = do {
     let inode_blk = inum_to_blk (i_inum (ino f a));
     (case get_unlocked inode_blk f of (ok, f) \<Rightarrow>
        if \<not> ok then Some (ERR_NOMEM, f)
        else do {
          (er, f) \<leftarrow> alloc_dirent_loop a name inum 0 None f;
          f \<leftarrow> release_unlocked inode_blk f;
          Some (er, f)
        })
   }"

section \<open>Inodes in memory\<close>

definition ilock :: "nat \<Rightarrow> fsst \<Rightarrow> fsst option" where
  "ilock a f = do { kassert (a \<notin> ilocks f); Some (f\<lparr>ilocks := insert a (ilocks f)\<rparr>) }"

definition iunlock :: "nat \<Rightarrow> fsst \<Rightarrow> fsst option" where
  "iunlock a f = do { kassert (a \<in> ilocks f); Some (f\<lparr>ilocks := ilocks f - {a}\<rparr>) }"

text \<open>A new structure has all fields zero, one reference, and an initialised lock.\<close>

definition fs_free_inode :: "nat \<Rightarrow> fsst \<Rightarrow> fsst option" where
  "fs_free_inode a f = do { kassert (i_ref (ino f a) = 0); Some (f\<lparr>ipool := a # ipool f\<rparr>) }"

definition sfs_alloc_inode :: "fsst \<Rightarrow> (nat option \<times> fsst) option" where
  "sfs_alloc_inode f =
     (case ipool f of
        [] \<Rightarrow> Some (None, f)
      | a # as \<Rightarrow>
          (let f = f\<lparr>ipool := as, ilocks := ilocks f - {a},
                     ino := (ino f)(a := \<lparr>i_inum = 0, i_ref = 1, i_nlink = 0, i_ftype = 0, i_mode = 0, i_size = 0,
                       i_addrs = replicate (SFS_NDIRECT + SFS_NINDIRECT) 0, i_valid = False, i_dirty = False\<rparr>)\<rparr> in
           case take_mem (bl f) of (ok, s) \<Rightarrow>
             (let f = f\<lparr>bl := s\<rparr> in
              if ok then Some (Some a, f) else do { f \<leftarrow> fs_free_inode a f; Some (None, f) })))"

definition sfs_free_inode :: "nat \<Rightarrow> fsst \<Rightarrow> fsst option" where
  "sfs_free_inode a f = fs_free_inode a f"

text \<open>The freed structure keeps its lock, as in the source; allocation initialises it again.\<close>

definition fs_release_inode :: "nat \<Rightarrow> fsst \<Rightarrow> fsst option" where
  "fs_release_inode a f = do {
     f \<leftarrow> ilock a f;
     kassert (i_inum (ino f a) > 0);
     kassert (i_ref (ino f a) > 0);
     let f = set_ino a (\<lambda>i. i\<lparr>i_ref := i_ref i - 1\<rparr>) f;
     (if i_ref (ino f a) = 0 then
        (if i_valid (ino f a) \<and> (i_nlink (ino f a) = 0 \<or> i_dirty (ino f a)) then
           iunlock a (set_ino a (\<lambda>i. i\<lparr>i_ref := i_ref i + 1\<rparr>) (f\<lparr>cleanup := cleanup f @ [a]\<rparr>))
         else do {
           kassert (icache f (i_inum (ino f a)) = Some a);
           sfs_free_inode a (f\<lparr>icache := (icache f)(i_inum (ino f a) := None)\<rparr>)
         })
      else iunlock a f)
   }"

text \<open>The cached or a new inode. The node of the radix tree may have to be allocated; the inner \<open>None\<close> stands for \<^verbatim>\<open>ERR_NOMEM\<close>.\<close>

definition cached_inode :: "nat \<Rightarrow> fsst \<Rightarrow> (nat option \<times> fsst) option" where
  "cached_inode inum f =
     (case icache f inum of
        Some a \<Rightarrow> Some (Some a, set_ino a (\<lambda>i. i\<lparr>i_ref := i_ref i + 1\<rparr>) f)
      | None \<Rightarrow> do {
          (r, f) \<leftarrow> sfs_alloc_inode f;
          (case r of
             None \<Rightarrow> Some (None, f)
           | Some a \<Rightarrow>
               (let f = set_ino a (\<lambda>i. i\<lparr>i_inum := inum\<rparr>) f in
                case take_mem (bl f) of (ok, s) \<Rightarrow>
                  (let f = f\<lparr>bl := s\<rparr> in
                   if ok then Some (Some a, f\<lparr>icache := (icache f)(inum := Some a)\<rparr>)
                   else do { f \<leftarrow> sfs_free_inode a f; Some (None, f) })))
        })"

definition fs_get_inode :: "nat \<Rightarrow> fsst \<Rightarrow> (err \<times> nat \<times> fsst) option" where
  "fs_get_inode inum f = do {
     (r, f) \<leftarrow> cached_inode inum f;
     (case r of
        None \<Rightarrow> Some (ERR_NOMEM, 0, f)
      | Some a \<Rightarrow> do {
          f \<leftarrow> ilock a f;
          (if \<not> i_valid (ino f a) then do {
             (er, f) \<leftarrow> sfs_read_inode a f;
             f \<leftarrow> iunlock a f;
             (if er \<noteq> ERR_OK then do { f \<leftarrow> fs_release_inode a f; Some (er, 0, f) } else Some (ERR_OK, a, f))
           }
           else do { f \<leftarrow> iunlock a f; Some (ERR_OK, a, f) })
        })
   }"

definition sfs_lookup :: "nat \<Rightarrow> u8 list \<Rightarrow> fsst \<Rightarrow> (err \<times> nat \<times> fsst) option" where
  "sfs_lookup a name f = do {
     (inum, f) \<leftarrow> search_dir a name f;
     (if inum = 0 then Some (ERR_NOTEXIST, 0, f) else fs_get_inode inum f)
   }"

section \<open>Operations on directories\<close>

definition create_inode_in_dir :: "nat \<Rightarrow> nat \<Rightarrow> u8 list \<Rightarrow> nat \<Rightarrow> fsst \<Rightarrow> (err \<times> fsst) option" where
  "create_inode_in_dir dir ftype name mode f = do {
     (inum, f) \<leftarrow> search_dir dir name f;
     (if inum \<noteq> 0 then Some (ERR_EXIST, f)
      else
        (case get_unlocked SFS_INODE_BMAP_BLK f of (ok, f) \<Rightarrow>
           if \<not> ok then Some (ERR_NOMEM, f)
           else do {
             (er, inum, f) \<leftarrow> alloc_disk_inode ftype mode f;
             (if er \<noteq> ERR_OK then do { f \<leftarrow> release_unlocked SFS_INODE_BMAP_BLK f; Some (er, f) }
              else do {
                (er, f) \<leftarrow> alloc_dirent dir name inum f;
                (if er \<noteq> ERR_OK then do {
                   (_, f) \<leftarrow> free_disk_inode inum f;
                   f \<leftarrow> release_unlocked SFS_INODE_BMAP_BLK f;
                   Some (er, f)
                 }
                 else do { f \<leftarrow> release_unlocked SFS_INODE_BMAP_BLK f; Some (ERR_OK, f) })
              })
           }))
   }"

text \<open>The part of \<^verbatim>\<open>unlink_inode_in_dir\<close> under the inode lock.\<close>

definition unlink_locked :: "nat \<Rightarrow> nat \<Rightarrow> u8 list \<Rightarrow> nat \<Rightarrow> fsst \<Rightarrow> (err \<times> fsst) option" where
  "unlink_locked dir ftype name a f = do {
     kassert (i_inum (ino f a) > 0);
     kassert (i_nlink (ino f a) > 0);
     kassert (i_valid (ino f a));
     (if i_ftype (ino f a) \<noteq> ftype then Some (ERR_FTYPE, f)
      else do {
        (er, empty', f) \<leftarrow> (if ftype = FTYPE_DIR then is_dir_empty a f else Some (ERR_OK, True, f));
        (if er \<noteq> ERR_OK then Some (er, f)
         else if \<not> empty' then Some (ERR_NOTEMPTY, f)
         else do {
           (er, f) \<leftarrow> free_dirent dir name f;
           (if er \<noteq> ERR_OK then do { kassert (er \<noteq> ERR_NOTEXIST); Some (er, f) }
            else do {
              let f = set_ino a (\<lambda>i. i\<lparr>i_nlink := i_nlink i - 1, i_dirty := True\<rparr>) f;
              (_, f) \<leftarrow> sfs_write_inode a f;
              Some (ERR_OK, f)
            })
         })
      })
   }"

definition unlink_inode_in_dir :: "nat \<Rightarrow> nat \<Rightarrow> u8 list \<Rightarrow> fsst \<Rightarrow> (err \<times> fsst) option" where
  "unlink_inode_in_dir dir ftype name f = do {
     (er, a, f) \<leftarrow> sfs_lookup dir name f;
     (if er \<noteq> ERR_OK then Some (er, f)
      else do {
        let inode_blk = inum_to_blk (i_inum (ino f a));
        (case get_unlocked inode_blk f of (ok, f) \<Rightarrow>
           if \<not> ok then Some (ERR_NOMEM, f)
           else do {
             f \<leftarrow> ilock a f;
             (er, f) \<leftarrow> unlink_locked dir ftype name a f;
             f \<leftarrow> iunlock a f;
             f \<leftarrow> release_unlocked inode_blk f;
             f \<leftarrow> fs_release_inode a f;
             Some (er, f)
           })
      })
   }"

definition sfs_create :: "nat \<Rightarrow> u8 list \<Rightarrow> nat \<Rightarrow> fsst \<Rightarrow> (err \<times> fsst) option" where
  "sfs_create dir name mode f = create_inode_in_dir dir FTYPE_FILE name mode f"

definition sfs_mkdir :: "nat \<Rightarrow> u8 list \<Rightarrow> nat \<Rightarrow> fsst \<Rightarrow> (err \<times> fsst) option" where
  "sfs_mkdir dir name mode f = create_inode_in_dir dir FTYPE_DIR name mode f"

definition sfs_rmdir :: "nat \<Rightarrow> u8 list \<Rightarrow> fsst \<Rightarrow> (err \<times> fsst) option" where
  "sfs_rmdir dir name f = unlink_inode_in_dir dir FTYPE_DIR name f"

definition sfs_unlink :: "nat \<Rightarrow> u8 list \<Rightarrow> fsst \<Rightarrow> (err \<times> fsst) option" where
  "sfs_unlink dir name f = unlink_inode_in_dir dir FTYPE_FILE name f"

definition sfs_link :: "nat \<Rightarrow> nat \<Rightarrow> u8 list \<Rightarrow> fsst \<Rightarrow> (err \<times> fsst) option" where
  "sfs_link dir src name f = do {
     kassert (i_ftype (ino f src) = FTYPE_FILE);
     (inum, f) \<leftarrow> search_dir dir name f;
     (if inum \<noteq> 0 then Some (ERR_EXIST, f)
      else do {
        let inode_blk = inum_to_blk (i_inum (ino f src));
        (case get_unlocked inode_blk f of (ok, f) \<Rightarrow>
           if \<not> ok then Some (ERR_NOMEM, f)
           else do {
             (er, f) \<leftarrow> alloc_dirent dir name (i_inum (ino f src)) f;
             (if er \<noteq> ERR_OK then do { f \<leftarrow> release_unlocked inode_blk f; Some (er, f) }
              else do {
                let f = set_ino src (\<lambda>i. i\<lparr>i_nlink := i_nlink i + 1, i_dirty := True\<rparr>) f;
                (_, f) \<leftarrow> sfs_write_inode src f;
                f \<leftarrow> release_unlocked inode_blk f;
                Some (ERR_OK, f)
              })
           })
      })
   }"

section \<open>Deleting an inode\<close>

text \<open>The loops end when the size of the file is reached. An index outside of the block buffer or of \<^verbatim>\<open>i_addrs\<close> is \<open>None\<close>, like a panic.\<close>

partial_function (option) delete_indir_loop :: "nat \<Rightarrow> nat \<Rightarrow> nat \<Rightarrow> nat \<Rightarrow> bool \<Rightarrow> fsst \<Rightarrow> (err \<times> nat \<times> fsst) option" where
  "delete_indir_loop a ib k size' is_journaled f =
     (if size' < i_size (ino f a) then do {
        kassert (k < PER_BLK);
        let e = rd32 (4 * k) (buf (bl f) ib);
        (if e = 0 then delete_indir_loop a ib (k + 1) (size' + BDEV_BLK_SIZE) is_journaled f
         else do {
           kassert (e \<ge> s_data_start (sbi f));
           (er, f) \<leftarrow> free_data_block e f;
           (if er \<noteq> ERR_OK then Some (er, size', f)
            else do {
              f \<leftarrow> (if is_journaled then Some (f\<lparr>bl := set_buf ib (put_bytes (4 * k) (enc32 0) (buf (bl f) ib)) (bl f)\<rparr>)
                   else change_blk ib (put_bytes (4 * k) (enc32 0)) f);
              delete_indir_loop a ib (k + 1) (size' + BDEV_BLK_SIZE) True f
            })
         })
      }
      else Some (ERR_OK, size', f))"

partial_function (option) delete_loop :: "nat \<Rightarrow> nat \<Rightarrow> nat \<Rightarrow> fsst \<Rightarrow> (err \<times> fsst) option" where
  "delete_loop a index size' f =
     (if size' < i_size (ino f a) then do {
        kassert (index < SFS_NDIRECT + SFS_NINDIRECT);
        let blk = i_addrs (ino f a) ! index;
        (if blk = 0 then delete_loop a (index + 1) size' f
         else do {
           kassert (blk \<ge> s_data_start (sbi f));
           (er, size', f) \<leftarrow>
             (if index < SFS_NDIRECT then Some (ERR_OK, size' + BDEV_BLK_SIZE, f)
              else do {
                (ok, f) \<leftarrow> get_blk blk f;
                (if \<not> ok then Some (ERR_NOMEM, size', f)
                 else do {
                   (er, size', f) \<leftarrow> delete_indir_loop a blk 0 size' False f;
                   (if er \<noteq> ERR_OK then Some (er, size', f)
                    else do { f \<leftarrow> release_blk blk f; Some (ERR_OK, size', f) })
                 })
              });
           (if er \<noteq> ERR_OK then Some (er, f)
            else do {
              (er, f) \<leftarrow> free_data_block blk f;
              (if er \<noteq> ERR_OK then Some (er, f)
               else delete_loop a (index + 1) size' (set_ino a (\<lambda>i. i\<lparr>i_addrs := (i_addrs i)[index := 0]\<rparr>) f))
            })
         })
      }
      else Some (ERR_OK, f))"

definition sfs_delete_inode :: "nat \<Rightarrow> fsst \<Rightarrow> (err \<times> fsst) option" where
  "sfs_delete_inode a f = do {
     kassert (i_inum (ino f a) > 0);
     kassert (i_nlink (ino f a) = 0);
     (er, f) \<leftarrow> delete_loop a 0 0 f;
     (if er \<noteq> ERR_OK then Some (er, f)
      else do {
        (er, f) \<leftarrow> free_disk_inode (i_inum (ino f a)) f;
        (if er \<noteq> ERR_OK then Some (er, f)
         else Some (ERR_OK, set_ino a (\<lambda>i. i\<lparr>i_inum := 0, i_valid := False, i_dirty := False\<rparr>) f))
      })
   }"

section \<open>The super block\<close>

text \<open>
  Mounting reads the five numbers of the super block. The allocations are, in this order, the super block structure, the \<^verbatim>\<open>sfs_sb_info\<close>,
  the block buffer and the journal. When one of the last three fails, \<^verbatim>\<open>fs_free_sb\<close> finds the reference count 1 that
  \<^verbatim>\<open>fs_alloc_sb\<close> set and panics.
\<close>

definition sfs_get_sb :: "blocks \<Rightarrow> ((sb_info \<times> journal) option \<times> blocks) option" where
  "sfs_get_sb s =
     (case take_mem s of (ok, s) \<Rightarrow>
        if \<not> ok then Some (None, s)
        else
          (case take_mem s of (ok, s) \<Rightarrow> do {
             kassert ok;
             (ok, s) \<leftarrow> bdev_get_blk SFS_SUPER_BLK s;
             kassert ok;
             let d = buf s SFS_SUPER_BLK;
             let info = \<lparr>s_size = rd32 0 d, s_num_inodes = rd32 4 d, s_data_bmap_start = rd32 8 d, s_journal_start = rd32 12 d, s_data_start = rd32 16 d\<rparr>;
             (case take_mem s of (ok, s) \<Rightarrow> do {
                kassert ok;
                let j = (jbd_alloc_journal (s_journal_start info))\<lparr>enabled := True\<rparr>;
                s \<leftarrow> bdev_release_blk SFS_SUPER_BLK s;
                Some (Some (info, j), s)
              })
           }))"

definition sfs_write_sb :: "fsst \<Rightarrow> (err \<times> fsst) option" where
  "sfs_write_sb f = do {
     (ok, f) \<leftarrow> get_blk SFS_SUPER_BLK f;
     (if \<not> ok then Some (ERR_NOMEM, f)
      else do {
        let i = sbi f;
        f \<leftarrow> change_blk SFS_SUPER_BLK (put_bytes 0 (concat (map enc32
               [s_size i, s_num_inodes i, s_data_bmap_start i, s_journal_start i, s_data_start i]))) f;
        f \<leftarrow> release_blk SFS_SUPER_BLK f;
        Some (ERR_OK, f)
      })
   }"

section \<open>File operations\<close>

text \<open>The file operations on the inode of an open file at its position, which they return advanced.\<close>

definition sfs_read :: "nat \<Rightarrow> nat \<Rightarrow> nat \<Rightarrow> fsst \<Rightarrow> (u8 list \<times> nat \<times> fsst) option" where
  "sfs_read a count ofs f = do {
     f \<leftarrow> ilock a f;
     (bs, f) \<leftarrow> read_data a count ofs f;
     f \<leftarrow> iunlock a f;
     Some (bs, ofs + length bs, f)
   }"

definition sfs_write :: "nat \<Rightarrow> u8 list \<Rightarrow> nat \<Rightarrow> fsst \<Rightarrow> (nat \<times> nat \<times> fsst) option" where
  "sfs_write a bs ofs f = do {
     f \<leftarrow> ilock a f;
     (ws, f) \<leftarrow> write_data a bs ofs f;
     f \<leftarrow> iunlock a f;
     Some (ws, ofs + ws, f)
   }"

text \<open>The directory entry is the inode number and the bytes of the name up to its zero byte.\<close>

definition sfs_readdir :: "nat \<Rightarrow> nat \<Rightarrow> fsst \<Rightarrow> (err \<times> (nat \<times> u8 list) \<times> nat \<times> fsst) option" where
  "sfs_readdir a ofs f = do {
     f \<leftarrow> ilock a f;
     (if i_size (ino f a) < ofs + 32 then do { f \<leftarrow> iunlock a f; Some (ERR_END, (0, []), ofs, f) }
      else do {
        (bs, f) \<leftarrow> read_data a 32 ofs f;
        f \<leftarrow> iunlock a f;
        (if length bs < 32 then Some (ERR_NOMEM, (0, []), ofs, f)
         else Some (ERR_OK, (rd32 0 bs, takeWhile (\<lambda>c. c \<noteq> 0) (drop 4 bs)), ofs + 32, f))
      })
   }"

end
