(* ===== verification/Journal.thy ===== *)
theory Journal
  imports Jbd
begin

text \<open>
  Crash safety of the journal of \<open>Jbd\<close>: the writes of a commit, in their order, and the disk after any number of them.
\<close>

section \<open>Numbers in blocks\<close>

lemma base_bytes: "(n :: nat) < 2 ^ 32 \<Longrightarrow> n mod 256 + 2 ^ 8 * (n div 2 ^ 8 mod 256) + 2 ^ 16 * (n div 2 ^ 16 mod 256) + 2 ^ 24 * (n div 2 ^ 24 mod 256) = n"
proof -
  assume n: "n < 2 ^ 32"
  define a b c where "a = n div 256" and "b = a div 256" and "c = b div 256"
  have e: "n div 2 ^ 8 = a" "n div 2 ^ 16 = b" "n div 2 ^ 24 = c" by (simp_all add: a_def b_def c_def flip: div_mult2_eq)
  have "c < 256" using n by (simp add: c_def b_def a_def less_mult_imp_div_less flip: div_mult2_eq)
  moreover have "n = 256 * a + n mod 256" "a = 256 * b + a mod 256" "b = 256 * c + b mod 256" by (simp_all add: a_def b_def c_def)
  ultimately show ?thesis unfolding e by simp
qed

lemma length_enc32 [simp]: "length (enc32 n) = 4"
  by (simp add: enc32_def)

lemma dec32_enc32: "n < 2 ^ 32 \<Longrightarrow> dec32 (enc32 n @ xs) = n"
  using base_bytes [of n] by (simp add: dec32_def enc32_def unat_of_nat)

lemma length_concat_enc: "length (concat (map enc32 bs)) = 4 * length bs"
  by (induction bs) simp_all

lemma drop_concat_enc: "i < length bs \<Longrightarrow> \<exists>ys. drop (4 * i) (concat (map enc32 bs) @ xs) = enc32 (bs ! i) @ ys"
proof (induction bs arbitrary: i)
  case (Cons b bs)
  show ?case
  proof (cases i)
    case (Suc k)
    then have "drop (4 * i) (concat (map enc32 (b # bs)) @ xs) = drop (4 * k) (concat (map enc32 bs) @ xs)" by simp
    then show ?thesis using Cons.IH [of k] Cons.prems Suc by simp
  qed simp
qed simp

section \<open>Sequences of block writes\<close>

definition writes :: "(nat \<times> u8 list) list \<Rightarrow> (nat \<Rightarrow> u8 list) \<Rightarrow> nat \<Rightarrow> u8 list" where
  "writes ws m = fold (\<lambda>(b, d) m. m(b := d)) ws m"

lemma writes_append: "writes (ws @ vs) m = writes vs (writes ws m)"
  by (simp add: writes_def)

lemma writes_Cons: "writes ((b, d) # ws) m = writes ws (m(b := d))"
  by (simp add: writes_def)

lemma writes_Nil [simp]: "writes [] m = m"
  by (simp add: writes_def)

lemma writes_other: "b \<notin> fst ` set ws \<Longrightarrow> writes ws m b = m b"
  by (induction ws arbitrary: m) (auto simp: writes_Cons)

lemma writes_at: "distinct (map fst ws) \<Longrightarrow> (b, d) \<in> set ws \<Longrightarrow> writes ws m b = d"
proof (induction ws arbitrary: m)
  case (Cons w ws)
  obtain c e where w: "w = (c, e)" by fastforce
  show ?case
  proof (cases "w = (b, d)")
    case True
    then have "b \<notin> fst ` set ws" using Cons.prems(1) by auto
    then show ?thesis using True by (simp add: writes_Cons writes_other)
  qed (use Cons w in \<open>auto simp: writes_Cons\<close>)
qed simp

text \<open>A group of block writes through journal blocks: buffers and disk get the data, locks and references are as before.\<close>

definition after :: "(nat \<times> u8 list) list \<Rightarrow> blocks \<Rightarrow> blocks" where
  "after ws st = st\<lparr>disk := writes ws (disk st), buf := writes ws (buf st), wlog := wlog st @ ws, dirty_blks := dirty_blks st - fst ` set ws\<rparr>"

lemma after_after: "after vs (after ws st) = after (ws @ vs) st"
  by (simp add: after_def writes_append image_Un Diff_eq Int_assoc)

lemma after_fields [simp]: "locks (after ws st) = locks st" "refs (after ws st) = refs st" "mem (after ws st) = mem st"
    "buf (after ws st) = writes ws (buf st)" "disk (after ws st) = writes ws (disk st)" "wlog (after ws st) = wlog st @ ws"
  by (simp_all add: after_def)

lemma after_refs: "after ws (st\<lparr>refs := r\<rparr>) = (after ws st)\<lparr>refs := r\<rparr>"
  by (simp add: after_def)

lemma get_ok: "mem st = [] \<Longrightarrow> b \<notin> locks st \<Longrightarrow>
    bdev_get_blk b st = Some (True, st\<lparr>refs := (refs st)(b := refs st b + 1), locks := insert b (locks st)\<rparr>)"
  by (simp add: bdev_get_blk_def bdev_get_blk_unlocked_def take_mem_def sleeplock_acquire_def)

lemma one_write:
  assumes "mem st = []" "b \<notin> locks st"
  shows "(do { (ok, st) \<leftarrow> bdev_get_blk b st;
     (if \<not> ok then Some (ERR_NOMEM, st)
      else do {
        let st = set_buf b (f (buf st b)) st;
        (case bdev_write_blk b st of (er, st) \<Rightarrow>
           if er \<noteq> ERR_OK then Some (er, st)
           else do { st \<leftarrow> bdev_release_blk b st; Some (ERR_OK, st) }) }) }) = Some (ERR_OK, after [(b, f (buf st b))] st)"
proof -
  have "insert b (locks st) - {b} = locks st" using assms(2) by auto
  then show ?thesis
    using assms by (simp add: get_ok set_buf_def bdev_write_blk_def take_mem_def bdev_release_blk_def bdev_release_blk_unlocked_def sleeplock_release_def
      bdev_set_blk_dirty_def after_def writes_Cons)
qed

lemma header_write:
  assumes "mem st = []" "jstart j \<notin> locks st"
  shows "write_journal_header j st = Some (ERR_OK, after [(jstart j, put_front (enc32 (length (datablks j))) (buf st (jstart j)))] st)"
  using one_write [OF assms, of "put_front (enc32 (length (datablks j)))"] by (simp add: write_journal_header_def sfs_journal_bmap_def Let_def)

lemma bmap_write:
  assumes "mem st = []" "jstart j + 1 \<notin> locks st" "datablks j \<noteq> []"
  shows "write_bmap_blk j st = Some (ERR_OK, after [(jstart j + 1, put_front (concat (map enc32 (datablks j))) (buf st (jstart j + 1)))] st)"
  unfolding write_bmap_blk_def sfs_journal_bmap_def if_not_P [OF assms(3)] Let_def
  by (rule one_write [OF assms(1,2), of "put_front (concat (map enc32 (datablks j)))", unfolded Let_def])

section \<open>The writes of a commit\<close>

definition data_writes :: "journal \<Rightarrow> nat \<Rightarrow> nat list \<Rightarrow> (nat \<Rightarrow> u8 list) \<Rightarrow> (nat \<times> u8 list) list" where
  "data_writes j i bs m = map (\<lambda>(k, b). (jstart j + 2 + k, m b)) (zip [i..<i + length bs] bs)"

definition journal_area :: "journal \<Rightarrow> nat set" where
  "journal_area j = {jstart j..<jstart j + 130}"

lemma data_writes_ok:
  "\<lbrakk>mem st = []; locks st = {}; set bs \<inter> journal_area j = {}; i + length bs \<le> 128\<rbrakk> \<Longrightarrow>
   write_data_blks j i bs st = Some (ERR_OK, after (data_writes j i bs (buf st)) st)"
proof (induction bs arbitrary: i st)
  case Nil
  then show ?case by (simp add: data_writes_def after_def)
next
  case (Cons b bs)
  let ?pb = "jstart j + 2 + i" and ?w = "[(jstart j + 2 + i, buf st b)]"
  have ne: "b \<noteq> ?pb" using Cons.prems(3,4) by (auto simp: journal_area_def)
  have l: "?pb \<notin> locks st" "b \<notin> locks st" "insert b (insert ?pb (locks st)) - {b} - {?pb} = locks st" using ne Cons.prems(2) by auto
  have one: "write_data_blks j i (b # bs) st = write_data_blks j (i + 1) bs (after ?w st)"
    using Cons.prems(1) ne l
    by (simp add: get_ok sfs_journal_bmap_def set_buf_def bdev_write_blk_def take_mem_def bdev_release_blk_def bdev_release_blk_unlocked_def sleeplock_release_def
      sleeplock_acquire_def bdev_set_blk_dirty_def after_def writes_Cons Let_def add.assoc) (rule arg_cong, simp)
  have off: "buf (after ?w st) c = buf st c" if "c \<in> set bs" for c
  proof -
    have "c \<noteq> ?pb" using that Cons.prems(3,4) by (auto simp: journal_area_def)
    then show ?thesis by (simp add: writes_Cons)
  qed
  have "data_writes j (i + 1) bs (buf (after ?w st)) = data_writes j (i + 1) bs (buf st)"
    using off by (auto simp: data_writes_def dest!: set_zip_rightD)
  moreover have "data_writes j i (b # bs) (buf st) = ?w @ data_writes j (i + 1) bs (buf st)"
  proof -
    have "[i..<i + length (b # bs)] = i # [i + 1..<i + 1 + length bs]" by (simp add: upt_conv_Cons del: upt_Suc)
    then show ?thesis by (simp only: data_writes_def zip_Cons_Cons list.map prod.case append_Cons append_Nil)
  qed
  ultimately show ?case
    using Cons.IH [of "after ?w st" "i + 1"] Cons.prems unfolding one by (simp add: after_after)
qed

definition home_writes :: "nat list \<Rightarrow> (nat \<Rightarrow> u8 list) \<Rightarrow> (nat \<times> u8 list) list" where
  "home_writes bs m = map (\<lambda>b. (b, m b)) bs"

lemma writes_home: "writes (home_writes bs m) m = m"
  by (induction bs) (simp_all add: home_writes_def writes_Cons)

lemma apply_ok:
  "\<lbrakk>mem st = []; locks st = {}; distinct bs; \<forall>b\<in>set bs. refs st b > 0\<rbrakk> \<Longrightarrow>
   \<exists>r. apply_journal bs st = Some (ERR_OK, (after (home_writes bs (buf st)) st)\<lparr>refs := r\<rparr>)"
proof (induction bs arbitrary: st)
  case Nil
  then show ?case by (auto simp: home_writes_def after_def intro!: exI [of _ "refs st"])
next
  case (Cons b bs)
  let ?t = "(after [(b, buf st b)] st)\<lparr>refs := (refs st)(b := refs st b - 1)\<rparr>"
  have l: "b \<notin> locks st" "insert b (locks st) - {b} = locks st" using Cons.prems(2) by auto
  have one: "apply_journal (b # bs) st = apply_journal bs ?t"
    using Cons.prems(1,4) l by (simp add: sleeplock_acquire_def bdev_write_blk_def take_mem_def bdev_set_blk_dirty_def
      bdev_release_blk_def bdev_release_blk_unlocked_def sleeplock_release_def after_def writes_Cons Let_def)
  have b: "buf ?t = buf st" by (simp add: writes_Cons)
  have pos: "\<forall>c\<in>set bs. refs ?t c > 0" using Cons.prems(3,4) by auto
  obtain r where "apply_journal bs ?t = Some (ERR_OK, (after (home_writes bs (buf ?t)) ?t)\<lparr>refs := r\<rparr>)"
    using Cons.IH [of ?t] Cons.prems pos by auto
  then show ?case unfolding one b after_refs after_after by (auto simp: home_writes_def intro!: exI [of _ r])
qed

definition commit_writes :: "journal \<Rightarrow> blocks \<Rightarrow> (nat \<times> u8 list) list" where
  "commit_writes j st =
     data_writes j 0 (datablks j) (buf st)
     @ [(jstart j + 1, put_front (concat (map enc32 (datablks j))) (buf st (jstart j + 1)))]
     @ [(jstart j, put_front (enc32 (length (datablks j))) (buf st (jstart j)))]
     @ home_writes (datablks j) (buf st)
     @ [(jstart j, put_front (enc32 0) (put_front (enc32 (length (datablks j))) (buf st (jstart j))))]"

text \<open>A transaction that can be committed.\<close>

definition txn_ok :: "journal \<Rightarrow> blocks \<Rightarrow> bool" where
  "txn_ok j st \<longleftrightarrow> enabled j \<and> jstate j = BUSY \<and> datablks j \<noteq> [] \<and> length (datablks j) < JOURNAL_SIZE \<and> distinct (datablks j)
     \<and> set (datablks j) \<inter> journal_area j = {} \<and> (\<forall>b\<in>set (datablks j). b < 2 ^ 32 \<and> refs st b > 0) \<and> locks st = {} \<and> mem st = []"

lemma data_fst: "map fst (data_writes j i bs m) = map (\<lambda>k. jstart j + 2 + k) [i..<i + length bs]"
proof -
  have "map fst (data_writes j i bs m) = map (\<lambda>k. jstart j + 2 + k) (map fst (zip [i..<i + length bs] bs))"
    by (simp only: data_writes_def map_map comp_def case_prod_unfold fst_conv)
  then show ?thesis by (simp only: map_fst_zip length_upt add_diff_cancel_left')
qed

lemma data_blocks: "fst ` set (data_writes j i bs m) = {jstart j + 2 + i..<jstart j + 2 + i + length bs}"
proof -
  have "fst ` set (data_writes j i bs m) = set (map fst (data_writes j i bs m))" by simp
  also have "\<dots> = (+) (jstart j + 2) ` {i..<i + length bs}" unfolding data_fst by (simp only: set_map set_upt)
  also have "\<dots> = {jstart j + 2 + i..<jstart j + 2 + i + length bs}" by (simp only: image_add_atLeastLessThan add.assoc add.commute add.left_commute)
  finally show ?thesis .
qed

lemma commit_ok:
  assumes "txn_ok j st"
  shows "\<exists>r. commit_journal j st = Some (ERR_OK, j\<lparr>datablks := []\<rparr>, (after (commit_writes j st) st)\<lparr>refs := r\<rparr>)"
proof -
  let ?D = "data_writes j 0 (datablks j) (buf st)"
  let ?M = "[(jstart j + 1, put_front (concat (map enc32 (datablks j))) (buf st (jstart j + 1)))]"
  let ?H = "[(jstart j, put_front (enc32 (length (datablks j))) (buf st (jstart j)))]"
  have t: "datablks j \<noteq> []" "length (datablks j) < 128" "distinct (datablks j)" "set (datablks j) \<inter> journal_area j = {}" "locks st = {}" "mem st = []"
      "\<forall>b\<in>set (datablks j). refs st b > 0"
    using assms by (auto simp: txn_ok_def)
  have off: "jstart j + 1 \<notin> fst ` set ?D" "jstart j \<notin> fst ` set (?D @ ?M)" by (auto simp: data_blocks)
  have h: "c \<notin> fst ` set (?D @ ?M @ ?H)" if "c \<in> set (datablks j)" for c
    using that t(2,4) by (auto simp: data_blocks journal_area_def)
  have 1: "write_journal_blks j st = Some (ERR_OK, after (?D @ ?M) st)"
    using data_writes_ok [OF t(6,5,4), of 0] t(2) bmap_write [of "after ?D st" j] t(1,5,6) off(1)
    by (simp add: write_journal_blks_def after_after writes_other)
  have 2: "write_journal_header j (after (?D @ ?M) st) = Some (ERR_OK, after ((?D @ ?M) @ ?H) st)"
    using header_write [of "after (?D @ ?M) st" j] t(5,6) writes_other [OF off(2), of "buf st"] by (simp add: after_after)
  have hb: "home_writes (datablks j) (buf (after (?D @ ?M @ ?H) st)) = home_writes (datablks j) (buf st)"
    using h by (simp add: home_writes_def writes_other)
  obtain r where 3: "apply_journal (datablks j) (after (?D @ ?M @ ?H) st)
      = Some (ERR_OK, (after (?D @ ?M @ ?H @ home_writes (datablks j) (buf st)) st)\<lparr>refs := r\<rparr>)"
    using apply_ok [of "after (?D @ ?M @ ?H) st" "datablks j"] t(3,5-7) unfolding hb by (auto simp: after_after)
  let ?W = "?D @ ?M @ ?H @ home_writes (datablks j) (buf st)"
  have "jstart j \<notin> fst ` set (home_writes (datablks j) (buf st))" using t(4) by (auto simp: home_writes_def journal_area_def)
  then have "writes ?W (buf st) (jstart j) = put_front (enc32 (length (datablks j))) (buf st (jstart j))"
    by (simp add: writes_append writes_Cons writes_other)
  then have 4: "write_journal_header (j\<lparr>datablks := []\<rparr>) ((after ?W st)\<lparr>refs := r\<rparr>) = Some (ERR_OK, (after (commit_writes j st) st)\<lparr>refs := r\<rparr>)"
    using header_write [of "(after ?W st)\<lparr>refs := r\<rparr>" "j\<lparr>datablks := []\<rparr>"] t(5,6)
    by (simp add: after_refs after_after commit_writes_def)
  show ?thesis using 1 2 3 4 by (intro exI [of _ r]) (simp add: commit_journal_def erase_journal_def Let_def)
qed

section \<open>Crashes\<close>

text \<open>
  What a mount is to do with the journal it finds: write the logged blocks back to their places, as many as the header says.
\<close>

definition replay :: "nat \<Rightarrow> (nat \<Rightarrow> u8 list) \<Rightarrow> nat \<Rightarrow> u8 list" where
  "replay js m = writes (map (\<lambda>i. (dec32 (drop (4 * i) (m (js + 1))), m (js + 2 + i))) [0..<dec32 (m js)]) m"

lemma replay_empty: "dec32 (m js) = 0 \<Longrightarrow> replay js m = m"
  by (simp add: replay_def)

lemma home_nth: "home_writes bs m = map (\<lambda>i. (bs ! i, m (bs ! i))) [0..<length bs]"
  by (rule nth_equalityI) (simp_all add: home_writes_def)

lemma replay_full:
  assumes "dec32 (m js) = length bs"
    and "\<And>i. i < length bs \<Longrightarrow> dec32 (drop (4 * i) (m (js + 1))) = bs ! i \<and> m (js + 2 + i) = d (bs ! i)"
  shows "replay js m = writes (home_writes bs d) m"
proof -
  have "map (\<lambda>i. (dec32 (drop (4 * i) (m (js + 1))), m (js + 2 + i))) [0..<length bs] = home_writes bs d"
    unfolding home_nth using assms(2) by (intro map_cong refl) simp
  then show ?thesis by (simp only: replay_def assms(1))
qed

lemma home_at: "distinct bs \<Longrightarrow> writes (home_writes bs d) m b = (if b \<in> set bs then d b else m b)"
proof (cases "b \<in> set bs")
  case True
  assume "distinct bs"
  then have "distinct (map fst (home_writes bs d))" by (simp add: home_writes_def comp_def)
  moreover have "(b, d b) \<in> set (home_writes bs d)" using True by (simp add: home_writes_def)
  ultimately show ?thesis using writes_at True by fastforce
next
  case False
  then have "b \<notin> fst ` set (home_writes bs d)" by (auto simp: home_writes_def)
  then show ?thesis using False by (simp add: writes_other)
qed

text \<open>The log of a transaction before its header, the header, and the two together.\<close>

definition log_writes :: "journal \<Rightarrow> blocks \<Rightarrow> (nat \<times> u8 list) list" where
  "log_writes j st = data_writes j 0 (datablks j) (buf st)
     @ [(jstart j + 1, put_front (concat (map enc32 (datablks j))) (buf st (jstart j + 1)))]"

definition head_write :: "journal \<Rightarrow> blocks \<Rightarrow> nat \<times> u8 list" where
  "head_write j st = (jstart j, put_front (enc32 (length (datablks j))) (buf st (jstart j)))"

lemma commit_parts: "commit_writes j st = log_writes j st @ head_write j st # home_writes (datablks j) (buf st)
    @ [(jstart j, put_front (enc32 0) (snd (head_write j st)))]"
  by (simp add: commit_writes_def log_writes_def head_write_def)

lemma log_area: "txn_ok j st \<Longrightarrow> fst ` set (log_writes j st) \<subseteq> journal_area j - {jstart j}"
  by (auto simp: log_writes_def journal_area_def txn_ok_def data_blocks)

lemma log_distinct: "distinct (map fst (log_writes j st))"
  by (simp add: log_writes_def data_fst distinct_map inj_on_def data_blocks del: set_map) auto

lemma log_data: "i < length (datablks j) \<Longrightarrow> (jstart j + 2 + i, buf st (datablks j ! i)) \<in> set (log_writes j st)"
proof -
  assume i: "i < length (datablks j)"
  then have "(i, datablks j ! i) \<in> set (zip [0..<length (datablks j)] (datablks j))" by (auto simp: set_zip intro!: exI [of _ i])
  then show ?thesis by (force simp: log_writes_def data_writes_def)
qed

lemma home_avoids: "txn_ok j st \<Longrightarrow> c \<in> journal_area j \<Longrightarrow> c \<notin> fst ` set (take n (home_writes (datablks j) (buf st)))"
  by (auto simp: txn_ok_def home_writes_def take_map dest!: in_set_takeD)

text \<open>With the header on the disk, and any number of blocks written to their places, the journal holds the whole transaction.\<close>

lemma replay_committed:
  fixes n :: nat
  assumes t: "txn_ok j st"
  defines "m \<equiv> writes (log_writes j st @ head_write j st # take n (home_writes (datablks j) (buf st))) (disk st)"
  shows "replay (jstart j) m = writes (home_writes (datablks j) (buf st)) m"
proof (rule replay_full)
  have len: "length (datablks j) < 128" and num: "\<forall>b\<in>set (datablks j). b < 2 ^ 32" using t by (auto simp: txn_ok_def)
  have m: "m c = ((writes (log_writes j st) (disk st))(jstart j := snd (head_write j st))) c" if "c \<in> journal_area j" for c
    using home_avoids [OF t that] by (simp add: m_def writes_append writes_Cons head_write_def writes_other)
  have "jstart j \<in> journal_area j" by (simp add: journal_area_def)
  then show "dec32 (m (jstart j)) = length (datablks j)"
    using len by (simp add: m head_write_def put_front_def dec32_enc32)
  fix i assume i: "i < length (datablks j)"
  have "jstart j + 1 \<in> journal_area j" "(jstart j + 1, put_front (concat (map enc32 (datablks j))) (buf st (jstart j + 1))) \<in> set (log_writes j st)"
    by (simp_all add: journal_area_def log_writes_def)
  then have "m (jstart j + 1) = put_front (concat (map enc32 (datablks j))) (buf st (jstart j + 1))"
    using writes_at [OF log_distinct] m by simp
  moreover obtain ys where "drop (4 * i) (put_front (concat (map enc32 (datablks j))) (buf st (jstart j + 1))) = enc32 (datablks j ! i) @ ys"
    using drop_concat_enc [OF i] unfolding put_front_def by blast
  ultimately have "dec32 (drop (4 * i) (m (jstart j + 1))) = datablks j ! i"
    using num i by (simp add: dec32_enc32)
  moreover have "m (jstart j + 2 + i) = buf st (datablks j ! i)"
    using writes_at [OF log_distinct log_data [OF i]] m [of "jstart j + 2 + i"] i len by (simp add: journal_area_def)
  ultimately show "dec32 (drop (4 * i) (m (jstart j + 1))) = datablks j ! i \<and> m (jstart j + 2 + i) = buf st (datablks j ! i)" ..
qed

lemma take_commit:
  "take k (commit_writes j st) =
    (if k \<le> length (log_writes j st) then take k (log_writes j st)
     else if k \<le> length (log_writes j st) + 1 + length (datablks j)
     then log_writes j st @ head_write j st # take (k - length (log_writes j st) - 1) (home_writes (datablks j) (buf st))
     else commit_writes j st)"
  by (auto simp: commit_parts home_writes_def take_Cons split: nat.split) (rule arg_cong2 [where f = take], arith, rule refl)

lemma commit_disk:
  assumes t: "txn_ok j st" and b: "b \<notin> journal_area j"
  shows "writes (commit_writes j st) m b = (if b \<in> set (datablks j) then buf st b else m b)"
proof -
  have "distinct (datablks j)" "b \<noteq> jstart j" "b \<notin> fst ` set (log_writes j st)"
    using t b log_area [OF t] by (auto simp: txn_ok_def journal_area_def)
  then show ?thesis by (simp add: commit_parts writes_append writes_Cons head_write_def home_at writes_other)
qed

lemma commit_header: "dec32 (writes (commit_writes j st) m (jstart j)) = 0"
  by (simp add: commit_parts writes_append writes_Cons head_write_def put_front_def dec32_enc32)

lemma crash_point:
  fixes k :: nat
  assumes t: "txn_ok j st" and clean: "dec32 (disk st (jstart j)) = 0"
  defines "m \<equiv> replay (jstart j) (writes (take k (commit_writes j st)) (disk st))"
  shows "(\<forall>b. b \<notin> journal_area j \<longrightarrow> m b = disk st b) \<or>
         (\<forall>b. b \<notin> journal_area j \<longrightarrow> m b = writes (commit_writes j st) (disk st) b)"
proof -
  let ?L = "log_writes j st" and ?bs = "datablks j"
  have d: "distinct ?bs" using t by (simp add: txn_ok_def)
  consider "k \<le> length ?L" | "length ?L < k" "k \<le> length ?L + 1 + length ?bs" | "length ?L + 1 + length ?bs < k" by linarith
  then show ?thesis
  proof cases
    case 1
    have off: "c \<notin> fst ` set (take k ?L)" if "c \<notin> journal_area j \<or> c = jstart j" for c
      using that log_area [OF t] set_take_subset [of k ?L] by blast
    have "writes (take k ?L) (disk st) c = disk st c" if "c \<notin> journal_area j \<or> c = jstart j" for c
      by (rule writes_other, rule off, rule that)
    then show ?thesis using 1 clean by (simp add: m_def take_commit replay_empty)
  next
    case 2
    let ?T = "?L @ head_write j st # take (k - length ?L - 1) (home_writes ?bs (buf st))"
    have "m b = writes (commit_writes j st) (disk st) b" if b: "b \<notin> journal_area j" for b
    proof -
      have "b \<notin> fst ` set ?T" if "b \<notin> set ?bs"
        using that b log_area [OF t] by (auto simp: head_write_def journal_area_def home_writes_def take_map dest!: in_set_takeD)
      then show ?thesis
        using 2 d by (simp add: m_def take_commit replay_committed [OF t] home_at commit_disk [OF t b] writes_other)
    qed
    then show ?thesis by blast
  next
    case 3
    then show ?thesis by (simp add: m_def take_commit replay_empty commit_header)
  qed
qed

section \<open>Transactions\<close>

text \<open>A transaction as the file system makes it: every change of a block buffer is followed by the call that logs the block.\<close>

fun txn_body :: "(nat \<times> u8 list) list \<Rightarrow> journal \<Rightarrow> blocks \<Rightarrow> (journal \<times> blocks) option" where
  "txn_body [] j st = Some (j, st)"
| "txn_body ((b, d) # ws) j st = do {
     (j, st) \<leftarrow> jbd_write_blk j b (bdev_set_blk_dirty b True (set_buf b d st));
     txn_body ws j st
   }"

lemma body_ok:
  "\<lbrakk>enabled j; jstate j = BUSY; distinct (datablks j); \<forall>b\<in>set (datablks j). refs st b > 0; card (set (datablks j) \<union> fst ` set ws) \<le> 128\<rbrakk> \<Longrightarrow>
   \<exists>ds r x. txn_body ws j st = Some (j\<lparr>datablks := ds\<rparr>, st\<lparr>buf := writes ws (buf st), refs := r, dirty_blks := x\<rparr>)
     \<and> distinct ds \<and> set ds = set (datablks j) \<union> fst ` set ws \<and> (\<forall>b\<in>set ds. r b > 0)"
proof (induction ws arbitrary: j st)
  case Nil
  then show ?case by (intro exI [of _ "datablks j"] exI [of _ "refs st"] exI [of _ "dirty_blks st"]) simp
next
  case (Cons w ws)
  obtain b d where w: "w = (b, d)" by fastforce
  let ?s = "bdev_set_blk_dirty b True (set_buf b d st)"
  show ?case
  proof (cases "b \<in> set (datablks j)")
    case True
    then have "insert b (set (datablks j)) = set (datablks j)" by auto
    then show ?thesis
      using True Cons.IH [of j ?s] Cons.prems by (fastforce simp: w jbd_write_blk_def bdev_set_blk_dirty_def set_buf_def writes_Cons insert_absorb)
  next
    case False
    let ?j = "j\<lparr>datablks := datablks j @ [b]\<rparr>" and ?t = "?s\<lparr>refs := (refs ?s)(b := refs ?s b + 1)\<rparr>"
    have "Suc (card (set (datablks j))) = card (insert b (set (datablks j)))" using False by simp
    also have "\<dots> \<le> card (set (datablks j) \<union> fst ` set (w # ws))" by (rule card_mono) (auto simp: w)
    finally have "length (datablks j) < 128" using Cons.prems(3,5) distinct_card by fastforce
    then have "txn_body (w # ws) j st = txn_body ws ?j ?t" using False Cons.prems(1,2) by (simp add: w jbd_write_blk_def)
    moreover have "\<exists>ds r x. txn_body ws ?j ?t = Some (?j\<lparr>datablks := ds\<rparr>, ?t\<lparr>buf := writes ws (buf ?t), refs := r, dirty_blks := x\<rparr>)
        \<and> distinct ds \<and> set ds = set (datablks ?j) \<union> fst ` set ws \<and> (\<forall>b\<in>set ds. r b > 0)"
      using False Cons.prems by (intro Cons.IH) (auto simp: w bdev_set_blk_dirty_def set_buf_def)
    ultimately show ?thesis by (fastforce simp: w bdev_set_blk_dirty_def set_buf_def writes_Cons)
  qed
qed

lemma writes_overwrite: "b \<in> fst ` set ws \<Longrightarrow> writes ws m b = writes ws m' b"
proof (induction ws arbitrary: m m')
  case (Cons w ws)
  obtain c e where w: "w = (c, e)" by fastforce
  show ?case
  proof (cases "b \<in> fst ` set ws")
    case True
    then show ?thesis using Cons.IH by (simp add: w writes_Cons)
  next
    case False
    then show ?thesis using Cons.prems by (simp add: w writes_Cons writes_other)
  qed
qed simp

text \<open>The end of a transaction with logged blocks.\<close>

lemma end_ok:
  assumes "txn_ok j st"
  shows "\<exists>r. jbd_end_txn j st = Some (j\<lparr>jstate := IDLE, datablks := []\<rparr>, (after (commit_writes j st) st)\<lparr>refs := r\<rparr>)"
  using commit_ok [OF assms] assms by (auto simp: jbd_end_txn_def txn_ok_def commit_loop.simps)

text \<open>An idle, empty journal, and the block changes of a transaction it has room for.\<close>

definition journal_idle :: "journal \<Rightarrow> blocks \<Rightarrow> bool" where
  "journal_idle j st \<longleftrightarrow> enabled j \<and> jstate j = IDLE \<and> datablks j = [] \<and> dec32 (disk st (jstart j)) = 0 \<and> locks st = {} \<and> mem st = []"

definition txn_fits :: "journal \<Rightarrow> (nat \<times> u8 list) list \<Rightarrow> bool" where
  "txn_fits j ws \<longleftrightarrow> ws \<noteq> [] \<and> card (fst ` set ws) < JOURNAL_SIZE \<and> (\<forall>b\<in>fst ` set ws. b < 2 ^ 32 \<and> b \<notin> journal_area j)"

lemma body_txn_ok:
  assumes "journal_idle j st" "txn_fits j ws"
  shows "\<exists>ds r x. txn_body ws (j\<lparr>jstate := BUSY\<rparr>) st = Some (j\<lparr>jstate := BUSY, datablks := ds\<rparr>, st\<lparr>buf := writes ws (buf st), refs := r, dirty_blks := x\<rparr>)
     \<and> set ds = fst ` set ws \<and> txn_ok (j\<lparr>jstate := BUSY, datablks := ds\<rparr>) (st\<lparr>buf := writes ws (buf st), refs := r, dirty_blks := x\<rparr>)"
proof -
  let ?j = "j\<lparr>jstate := BUSY\<rparr>"
  obtain ds r x where b: "txn_body ws ?j st = Some (?j\<lparr>datablks := ds\<rparr>, st\<lparr>buf := writes ws (buf st), refs := r, dirty_blks := x\<rparr>)"
      "distinct ds" "set ds = fst ` set ws" "\<forall>b\<in>set ds. r b > 0"
    using body_ok [of ?j st ws] assms by (auto simp: journal_idle_def txn_fits_def)
  have "length ds < 128" "ds \<noteq> []" using assms(2) b(2,3) distinct_card [OF b(2)] by (auto simp: txn_fits_def)
  then have "txn_ok (?j\<lparr>datablks := ds\<rparr>) (st\<lparr>buf := writes ws (buf st), refs := r, dirty_blks := x\<rparr>)"
    using assms b(2-4) by (auto simp: txn_ok_def journal_idle_def txn_fits_def journal_area_def)
  then show ?thesis using b by auto
qed

text \<open>C5: A transaction on an idle journal that changes fewer than 128 blocks comes to its end and leaves the journal idle and empty. Nothing
  is written to the disk before the commit; after it the disk, outside of the journal, is the old one with the changes. The commit is
  atomic: wherever a crash cuts off the sequence of its block writes, writing back what the journal on the disk holds gives the blocks
  outside of the journal either all as before the transaction or all as after it.\<close>

theorem jbd_transaction_atomic:
  assumes "journal_idle j st" "txn_fits j ws"
  shows "\<exists>j1 j2 st2 st' xs. jbd_begin_txn j = Ret j1 \<and> txn_body ws j1 st = Some (j2, st2) \<and> disk st2 = disk st \<and> wlog st2 = wlog st
     \<and> jbd_end_txn j2 st2 = Some (j, st') \<and> journal_idle j st' \<and> wlog st' = wlog st @ xs \<and> disk st' = writes xs (disk st)
     \<and> (\<forall>b. b \<notin> journal_area j \<longrightarrow> disk st' b = writes ws (disk st) b)
     \<and> (\<forall>k. let m = replay (jstart j) (writes (take k xs) (disk st)) in
          (\<forall>b. b \<notin> journal_area j \<longrightarrow> m b = disk st b) \<or> (\<forall>b. b \<notin> journal_area j \<longrightarrow> m b = writes ws (disk st) b))"
proof -
  let ?J = "\<lambda>ds. j\<lparr>jstate := BUSY, datablks := ds\<rparr>" and ?S = "\<lambda>r x. st\<lparr>buf := writes ws (buf st), refs := r, dirty_blks := x\<rparr>"
  obtain ds r x where body: "txn_body ws (j\<lparr>jstate := BUSY\<rparr>) st = Some (?J ds, ?S r x)" and ds: "set ds = fst ` set ws" and ok: "txn_ok (?J ds) (?S r x)"
    using body_txn_ok [OF assms] by blast
  let ?j = "?J ds" and ?s = "?S r x"
  obtain r' where e: "jbd_end_txn ?j ?s = Some (?j\<lparr>jstate := IDLE, datablks := []\<rparr>, (after (commit_writes ?j ?s) ?s)\<lparr>refs := r'\<rparr>)"
    using end_ok [OF ok] by blast
  let ?t = "(after (commit_writes ?j ?s) ?s)\<lparr>refs := r'\<rparr>" and ?xs = "commit_writes ?j ?s"
  have j: "enabled j" "jstate j = IDLE" "datablks j = []" "dec32 (disk ?s (jstart ?j)) = 0" "locks st = {}" "mem st = []"
    using assms(1) by (simp_all add: journal_idle_def)
  have jb: "?j\<lparr>jstate := IDLE, datablks := []\<rparr> = j" using j(2,3) by simp
  have area: "journal_area ?j = journal_area j" by (simp add: journal_area_def)
  have new: "writes ?xs (disk st) b = writes ws (disk st) b" if "b \<notin> journal_area j" for b
    using commit_disk [OF ok, of b "disk st"] that ds writes_overwrite [of b ws "buf st" "disk st"] by (auto simp: area writes_other)
  have idle: "journal_idle j ?t"
    using j commit_header [of ?j ?s "disk st"] by (simp add: journal_idle_def)
  have crash: "(\<forall>b. b \<notin> journal_area j \<longrightarrow> replay (jstart j) (writes (take k ?xs) (disk st)) b = disk st b)
      \<or> (\<forall>b. b \<notin> journal_area j \<longrightarrow> replay (jstart j) (writes (take k ?xs) (disk st)) b = writes ws (disk st) b)" for k
    using crash_point [OF ok j(4), of k] new by (simp add: area)
  have "jbd_begin_txn j = Ret (j\<lparr>jstate := BUSY\<rparr>)" using j by (simp add: jbd_begin_txn_def)
  then show ?thesis
    using body e idle new crash unfolding jb Let_def
    by (intro exI [of _ "j\<lparr>jstate := BUSY\<rparr>"] exI [of _ ?j] exI [of _ ?s] exI [of _ ?t] exI [of _ ?xs]) simp
qed

definition demo_journal :: journal where
  "demo_journal = jbd_alloc_journal 10"

definition demo_blocks :: blocks where
  "demo_blocks = \<lparr>disk = \<lambda>_. replicate 512 0, buf = \<lambda>_. replicate 512 0, wlog = [], locks = {}, refs = \<lambda>_. 0, dirty_blks = {}, mem = []\<rparr>"

theorem jbd_transaction_atomic_witness:
  "journal_idle demo_journal demo_blocks \<and> txn_fits demo_journal [(300, replicate 512 7), (301, replicate 512 8)]
   \<and> (\<exists>j2 st2 st'. txn_body [(300, replicate 512 7), (301, replicate 512 8)] (demo_journal\<lparr>jstate := BUSY\<rparr>) demo_blocks = Some (j2, st2)
        \<and> jbd_end_txn j2 st2 = Some (demo_journal, st')
        \<and> disk st' 300 = replicate 512 7 \<and> disk st' 301 = replicate 512 8 \<and> disk st' 302 = replicate 512 0)"
proof -
  let ?ws = "[(300, replicate 512 7), (301, replicate 512 8)] :: (nat \<times> u8 list) list"
  have t: "journal_idle demo_journal demo_blocks" by (simp add: journal_idle_def demo_journal_def jbd_alloc_journal_def demo_blocks_def dec32_def)
  have f: "txn_fits demo_journal ?ws" by (simp add: txn_fits_def demo_journal_def jbd_alloc_journal_def journal_area_def)
  have o: "b \<notin> journal_area demo_journal" if "b \<ge> 140" for b using that by (simp add: journal_area_def demo_journal_def jbd_alloc_journal_def)
  have w: "writes ?ws (disk demo_blocks) 300 = replicate 512 7" "writes ?ws (disk demo_blocks) 301 = replicate 512 8"
      "writes ?ws (disk demo_blocks) 302 = replicate 512 0"
    by (simp_all only: writes_Cons writes_Nil demo_blocks_def blocks.simps fun_upd_apply) simp_all
  have g: "jbd_begin_txn demo_journal = Ret (demo_journal\<lparr>jstate := BUSY\<rparr>)" by (simp add: jbd_begin_txn_def demo_journal_def jbd_alloc_journal_def)
  obtain j1 j2 st2 st' where "jbd_begin_txn demo_journal = Ret j1" "txn_body ?ws j1 demo_blocks = Some (j2, st2)"
      "jbd_end_txn j2 st2 = Some (demo_journal, st')" "\<forall>b. b \<notin> journal_area demo_journal \<longrightarrow> disk st' b = writes ?ws (disk demo_blocks) b"
    using jbd_transaction_atomic [OF t f] by blast
  moreover from this g have "j1 = demo_journal\<lparr>jstate := BUSY\<rparr>" by simp
  ultimately show ?thesis using t f w o [of 300] o [of 301] o [of 302] by auto
qed

end
