(* ===== verification/Blockmap.thy ===== *)
theory Blockmap
  imports Sfs Journal
begin

text \<open>
  What the block operations of \<open>Sfs\<close> do when the buffers can be had: bitmaps, the allocation of a data block, and the block
  map of a file, which grows by fresh zeroed blocks and never loses or shares one.
\<close>

section \<open>Buffers\<close>

text \<open>\<open>keeps n f g\<close>: the step from \<open>f\<close> to \<open>g\<close> releases the locks it takes, gives up no reference of its caller, writes nothing
  to the disk and logs at most \<open>n\<close> more blocks.\<close>

definition keeps :: "nat \<Rightarrow> fsst \<Rightarrow> fsst \<Rightarrow> bool" where
  "keeps n f g \<longleftrightarrow> locks (bl g) = locks (bl f) \<and> mem (bl g) = mem (bl f) \<and> disk (bl g) = disk (bl f) \<and> wlog (bl g) = wlog (bl f)
     \<and> (\<forall>b. refs (bl f) b \<le> refs (bl g) b) \<and> sbi g = sbi f \<and> icache g = icache f \<and> ipool g = ipool f \<and> ilocks g = ilocks f
     \<and> cleanup g = cleanup f \<and> enabled (jn g) = enabled (jn f) \<and> jstate (jn g) = jstate (jn f) \<and> jstart (jn g) = jstart (jn f)
     \<and> length (datablks (jn g)) \<le> length (datablks (jn f)) + n"

definition room :: "nat \<Rightarrow> fsst \<Rightarrow> bool" where
  "room n f \<longleftrightarrow> (enabled (jn f) \<longrightarrow> jstate (jn f) = BUSY \<and> length (datablks (jn f)) + n \<le> JOURNAL_SIZE)"

lemma keeps_refl [simp]: "keeps n f f"
  by (simp add: keeps_def)

lemma keeps_trans: "keeps n f g \<Longrightarrow> keeps m g h \<Longrightarrow> keeps (n + m) f h"
  by (fastforce simp: keeps_def intro: le_trans)

lemma keeps_mono: "keeps n f g \<Longrightarrow> n \<le> m \<Longrightarrow> keeps m f g"
  by (auto simp: keeps_def)

lemma keepsD:
  assumes "keeps n f g"
  shows "locks (bl g) = locks (bl f)" "mem (bl g) = mem (bl f)" "sbi g = sbi f"
  using assms by (simp_all add: keeps_def)

lemma room_keeps: "room k f \<Longrightarrow> keeps n f g \<Longrightarrow> n + m \<le> k \<Longrightarrow> room m g"
  by (auto simp: room_def keeps_def)

lemma room_mono: "room k f \<Longrightarrow> m \<le> k \<Longrightarrow> room m f"
  by (auto simp: room_def)

text \<open>The state with a block held, or only referenced.\<close>

definition lk :: "nat \<Rightarrow> fsst \<Rightarrow> fsst" where
  "lk b f = f\<lparr>bl := (bl f)\<lparr>refs := (refs (bl f))(b := refs (bl f) b + 1), locks := insert b (locks (bl f))\<rparr>\<rparr>"

definition rf :: "nat \<Rightarrow> fsst \<Rightarrow> fsst" where
  "rf b f = f\<lparr>bl := (bl f)\<lparr>refs := (refs (bl f))(b := refs (bl f) b + 1)\<rparr>\<rparr>"

lemma lk_simps [simp]: "buf (bl (lk b f)) = buf (bl f)" "ino (lk b f) = ino f" "sbi (lk b f) = sbi f" "mem (bl (lk b f)) = mem (bl f)"
    "locks (bl (lk b f)) = insert b (locks (bl f))" "room n (lk b f) = room n f"
  by (simp_all add: lk_def room_def)

lemma rf_simps [simp]: "buf (bl (rf b f)) = buf (bl f)" "ino (rf b f) = ino f" "sbi (rf b f) = sbi f" "mem (bl (rf b f)) = mem (bl f)"
    "locks (bl (rf b f)) = locks (bl f)" "room n (rf b f) = room n f"
  by (simp_all add: rf_def room_def)

lemma get_lk: "mem (bl f) = [] \<Longrightarrow> b \<notin> locks (bl f) \<Longrightarrow> get_blk b f = Some (True, lk b f)"
  by (simp add: get_blk_def get_ok lk_def)

lemma get_rf: "mem (bl f) = [] \<Longrightarrow> get_unlocked b f = (True, rf b f)"
  by (simp add: get_unlocked_def bdev_get_blk_unlocked_def take_mem_def rf_def)

lemma release_lk:
  assumes "keeps n (lk b f) g" "b \<notin> locks (bl f)"
  shows "\<exists>h. release_blk b g = Some h \<and> keeps n f h \<and> buf (bl h) = buf (bl g) \<and> ino h = ino g"
proof -
  have l: "locks (bl g) = insert b (locks (bl f))" and r: "\<forall>c. refs (bl (lk b f)) c \<le> refs (bl g) c" using assms(1) by (simp_all add: keeps_def)
  have "refs (bl (lk b f)) b = Suc (refs (bl f) b)" by (simp add: lk_def)
  then have rb: "Suc (refs (bl f) b) \<le> refs (bl g) b" using r by metis
  have rc: "refs (bl f) c \<le> refs (bl g) c" for c using spec [OF r, of c] by (simp add: lk_def split: if_splits)
  let ?h = "g\<lparr>bl := (bl g)\<lparr>locks := locks (bl g) - {b}, refs := (refs (bl g))(b := refs (bl g) b - 1)\<rparr>\<rparr>"
  have "release_blk b g = Some ?h"
    using l rb by (simp add: release_blk_def bdev_release_blk_def bdev_release_blk_unlocked_def sleeplock_release_def)
  moreover have "keeps n f ?h" using assms rb rc l by (auto simp: keeps_def lk_def)
  ultimately show ?thesis by auto
qed

lemma release_rf:
  assumes "keeps n (rf b f) g"
  shows "\<exists>h. release_unlocked b g = Some h \<and> keeps n f h \<and> buf (bl h) = buf (bl g) \<and> ino h = ino g"
proof -
  have r: "\<forall>c. refs (bl (rf b f)) c \<le> refs (bl g) c" using assms(1) by (simp_all add: keeps_def)
  have "refs (bl (rf b f)) b = Suc (refs (bl f) b)" by (simp add: rf_def)
  then have rb: "Suc (refs (bl f) b) \<le> refs (bl g) b" using r by metis
  have rc: "refs (bl f) c \<le> refs (bl g) c" for c using spec [OF r, of c] by (simp add: rf_def split: if_splits)
  let ?h = "g\<lparr>bl := (bl g)\<lparr>refs := (refs (bl g))(b := refs (bl g) b - 1)\<rparr>\<rparr>"
  have "release_unlocked b g = Some ?h" using rb by (simp add: release_unlocked_def bdev_release_blk_unlocked_def)
  moreover have "keeps n f ?h" using assms rb rc by (auto simp: keeps_def rf_def)
  ultimately show ?thesis by auto
qed

lemma change_ok:
  assumes "room 1 f"
  shows "\<exists>g. change_blk b h f = Some g \<and> keeps 1 f g \<and> buf (bl g) = (buf (bl f))(b := h (buf (bl f) b)) \<and> ino g = ino f"
  using assms by (auto simp: change_blk_def jbd_write_blk_def room_def keeps_def Let_def bdev_set_blk_dirty_def set_buf_def)

section \<open>Bitmaps\<close>

definition bmbit :: "u8 list \<Rightarrow> nat \<Rightarrow> bool" where
  "bmbit xs i \<longleftrightarrow> bit (xs ! (i div 8)) (i mod 8)"

lemma mask_zero: "w AND push_bit k 1 = 0 \<longleftrightarrow> \<not> bit w k" for w :: u8
  by (simp add: push_bit_eq_mult and_exp_eq_0_iff_not_bit)

lemma free_bit_Some: "free_bit w = Some k \<Longrightarrow> k < 8 \<and> \<not> bit w k"
  unfolding free_bit_def mask_zero by (auto simp: find_Some_iff)

lemma free_bit_None: "free_bit w = None \<Longrightarrow> j < 8 \<Longrightarrow> bit w j"
  unfolding free_bit_def mask_zero by (auto simp: find_None_iff)

lemma bmbit_Cons: "bmbit (w # ws) (8 + n) = bmbit ws n"
proof -
  have "(8 + n) div 8 = Suc (n div 8)" "(8 + n) mod 8 = n mod 8" by arith+
  then show ?thesis by (simp only: bmbit_def nth_Cons_Suc)
qed

lemma find_free_Some: "find_free b ws = Some i \<Longrightarrow> b * 8 \<le> i \<and> i < (b + length ws) * 8 \<and> \<not> bmbit ws (i - b * 8)"
proof (induction ws arbitrary: b)
  case (Cons w ws)
  show ?case
  proof (cases "free_bit w")
    case None
    then have i: "(b + 1) * 8 \<le> i" "i < (b + 1 + length ws) * 8" "\<not> bmbit ws (i - (b + 1) * 8)" using Cons.IH [of "b + 1"] Cons.prems by auto
    have e: "i - b * 8 = 8 + (i - (b + 1) * 8)" using i(1) by simp
    have "bmbit (w # ws) (i - b * 8) = bmbit ws (i - (b + 1) * 8)" unfolding e by (rule bmbit_Cons)
    then show ?thesis using i by auto
  next
    case (Some k)
    then show ?thesis using Cons.prems free_bit_Some [of w k] by (auto simp: bmbit_def)
  qed
qed simp

lemma find_free_None: "find_free b ws = None \<Longrightarrow> i < 8 * length ws \<Longrightarrow> bmbit ws i"
proof (induction ws arbitrary: b i)
  case (Cons w ws)
  then have w: "free_bit w = None" and t: "find_free (b + 1) ws = None" by (auto split: option.splits)
  show ?case
  proof (cases "i < 8")
    case True
    then show ?thesis using free_bit_None [OF w] by (simp add: bmbit_def)
  next
    case False
    then have "bmbit (w # ws) i = bmbit ws (i - 8)" by (simp add: bmbit_def le_div_geq le_mod_geq)
    then show ?thesis using Cons.IH [OF t, of "i - 8"] Cons.prems(2) False by simp
  qed
qed simp

lemma bmbit_take: "i < 8 * n \<Longrightarrow> bmbit (take n xs) i = bmbit xs i"
  by (simp add: bmbit_def less_mult_imp_div_less mult.commute)

lemma bmbit_set: "i < 8 * length xs \<Longrightarrow> bmbit (set_bmap i xs) j \<longleftrightarrow> bmbit xs j \<or> j = i"
proof -
  assume "i < 8 * length xs"
  then have l: "i div 8 < length xs" by auto
  have "j = i \<longleftrightarrow> j div 8 = i div 8 \<and> j mod 8 = i mod 8" by (metis div_mult_mod_eq)
  then show ?thesis using l by (auto simp: bmbit_def set_bmap_def nth_list_update bit_or_iff bit_exp_iff)
qed

lemma length_set_bmap [simp]: "length (set_bmap i xs) = length xs"
  by (simp add: set_bmap_def)

section \<open>The layout\<close>

abbreviation (input) PER_BMAP :: nat where "PER_BMAP \<equiv> 4096"

text \<open>The layout of the disk that \<^verbatim>\<open>mkfs\<close> makes: the inode table, the bitmap blocks, the journal, the data blocks.\<close>

definition sb_ok :: "sb_info \<Rightarrow> bool" where
  "sb_ok i \<longleftrightarrow> 0 < s_num_inodes i \<and> SFS_INODE_TABLE_BLK + (s_num_inodes i - 1) div 8 < s_data_bmap_start i
     \<and> s_data_bmap_start i < s_journal_start i \<and> s_journal_start i \<le> s_data_start i
     \<and> (s_journal_start i - s_data_bmap_start i - 1) * PER_BMAP < s_size i \<and> s_size i \<le> (s_journal_start i - s_data_bmap_start i) * PER_BMAP
     \<and> 8 dvd s_size i \<and> s_data_start i + s_size i < 2 ^ 32"

definition fs_ready :: "fsst \<Rightarrow> bool" where
  "fs_ready f \<longleftrightarrow> sb_ok (sbi f) \<and> mem (bl f) = [] \<and> (\<forall>b. length (buf (bl f) b) = BDEV_BLK_SIZE)"

definition bmap_of :: "fsst \<Rightarrow> nat \<Rightarrow> nat" where
  "bmap_of f c = s_data_bmap_start (sbi f) + (c - s_data_start (sbi f)) div PER_BMAP"

definition data_blk :: "fsst \<Rightarrow> nat \<Rightarrow> bool" where
  "data_blk f c \<longleftrightarrow> s_data_start (sbi f) \<le> c \<and> c < s_data_start (sbi f) + s_size (sbi f)"

definition used :: "fsst \<Rightarrow> nat \<Rightarrow> bool" where
  "used f c \<longleftrightarrow> data_blk f c \<and> bmbit (buf (bl f) (bmap_of f c)) ((c - s_data_start (sbi f)) mod PER_BMAP)"

lemma bmap_of_range: "sb_ok (sbi f) \<Longrightarrow> data_blk f c \<Longrightarrow> s_data_bmap_start (sbi f) \<le> bmap_of f c \<and> bmap_of f c < s_journal_start (sbi f)"
proof -
  assume s: "sb_ok (sbi f)" and d: "data_blk f c"
  have "c - s_data_start (sbi f) < (s_journal_start (sbi f) - s_data_bmap_start (sbi f)) * PER_BMAP" using s d by (auto simp: sb_ok_def data_blk_def)
  then have "(c - s_data_start (sbi f)) div PER_BMAP < s_journal_start (sbi f) - s_data_bmap_start (sbi f)" by (rule less_mult_imp_div_less)
  then show ?thesis by (auto simp: bmap_of_def)
qed

lemma bmap_not_data: "sb_ok (sbi f) \<Longrightarrow> data_blk f c \<Longrightarrow> data_blk f d \<Longrightarrow> bmap_of f c \<noteq> d"
  using bmap_of_range [of f c] by (auto simp: data_blk_def sb_ok_def)

section \<open>Allocation of a data block\<close>

declare alloc_data_loop.simps [simp del]

lemma release_comm: "b \<noteq> c \<Longrightarrow> release_blk b g = Some h \<Longrightarrow> release_blk b (lk c g) = Some (lk c h)"
  by (auto simp: release_blk_def bdev_release_blk_def bdev_release_blk_unlocked_def sleeplock_release_def lk_def bind_Some_iff fun_upd_twist insert_Diff_if split: if_splits)

lemma same_used: "buf (bl g) = buf (bl f) \<Longrightarrow> sbi g = sbi f \<Longrightarrow> used g = used f \<and> data_blk g = data_blk f \<and> bmap_of g = bmap_of f"
  by (simp add: used_def data_blk_def bmap_of_def fun_eq_iff)

definition alloc_eff :: "fsst \<Rightarrow> nat \<Rightarrow> nat \<Rightarrow> u8 list" where
  "alloc_eff f c = (buf (bl f))(bmap_of f c := set_bmap ((c - s_data_start (sbi f)) mod PER_BMAP) (buf (bl f) (bmap_of f c)), c := replicate BDEV_BLK_SIZE 0)"

text \<open>One bitmap block: the first clear bit in it, if any, is taken.\<close>

lemma alloc_here:
  assumes "mem (bl f) = []" "room 2 f" "B \<notin> locks (bl f)" "B < s_journal_start (sbi f)"
    and i: "find_free 0 (take (min BDEV_BLK_SIZE (unat N div 8)) (buf (bl f) B)) = Some i"
    and c: "c = s_data_start (sbi f) + PER_BMAP * (B - s_data_bmap_start (sbi f)) + i" "c \<noteq> B" "c \<notin> locks (bl f)"
  shows "\<exists>g. alloc_data_loop B N f = Some (ERR_OK, c, g) \<and> keeps 2 f g \<and> ino g = ino f
     \<and> buf (bl g) = (buf (bl f))(B := set_bmap i (buf (bl f) B), c := replicate BDEV_BLK_SIZE 0)"
proof -
  obtain g1 where g1: "change_blk B (set_bmap i) (lk B f) = Some g1" "keeps 1 (lk B f) g1"
      "buf (bl g1) = (buf (bl f))(B := set_bmap i (buf (bl f) B))" "ino g1 = ino f"
    using change_ok [of "lk B f" B "set_bmap i"] room_mono [OF assms(2), of 1] by auto
  have m1: "mem (bl g1) = []" "sbi g1 = sbi f" "locks (bl g1) = insert B (locks (bl f))" using keepsD [OF g1(2)] assms(1) by simp_all
  obtain g2 where g2: "release_blk B g1 = Some g2" "keeps 1 f g2" "buf (bl g2) = buf (bl g1)" "ino g2 = ino g1"
    using release_lk [OF g1(2) assms(3)] by blast
  have cl: "c \<notin> locks (bl g1)" "c \<notin> locks (bl g2)" using m1(3) keepsD(1) [OF g2(2)] c by auto
  obtain g3 where g3: "change_blk c (\<lambda>_. replicate BDEV_BLK_SIZE 0) (lk c g2) = Some g3" "keeps 1 (lk c g2) g3"
      "buf (bl g3) = (buf (bl g2))(c := replicate BDEV_BLK_SIZE 0)" "ino g3 = ino g2"
    using change_ok [of "lk c g2" c "\<lambda>_. replicate BDEV_BLK_SIZE 0"] room_keeps [OF assms(2) g2(2), of 1] by auto
  obtain g4 where g4: "release_blk c g3 = Some g4" "keeps 1 g2 g4" "buf (bl g4) = buf (bl g3)" "ino g4 = ino g3"
    using release_lk [OF g3(2) cl(2)] by blast
  have "bmap_alloc_element B (min BDEV_BLK_SIZE (unat N div 8)) (lk B f) = Some (Some i, g1)" using i g1(1) by (simp add: bmap_alloc_element_def)
  moreover have "release_blk B (lk c g1) = Some (lk c g2)" using release_comm [of B c g1 g2] c(2) g2(1) by simp
  ultimately have "alloc_data_loop B N f = Some (ERR_OK, c, g4)"
    using assms(1,3,4) g3(1) g4(1) get_lk [OF m1(1) cl(1)] by (subst alloc_data_loop.simps) (simp add: get_lk m1(2) c(1) [symmetric] Let_def)
  moreover have "keeps 2 f g4" using keeps_trans [OF g2(2) g4(2)] by (simp add: numeral_2_eq_2)
  ultimately show ?thesis using g1 g2 g3 g4 by auto
qed

lemma alloc_next:
  assumes "mem (bl f) = []" "B \<notin> locks (bl f)" "B < s_journal_start (sbi f)"
    and i: "find_free 0 (take (min BDEV_BLK_SIZE (unat N div 8)) (buf (bl f) B)) = None"
  shows "\<exists>g. alloc_data_loop B N f = alloc_data_loop (B + 1) (N - of_nat (BDEV_BLK_SIZE * 8)) g \<and> keeps 0 f g \<and> buf (bl g) = buf (bl f) \<and> ino g = ino f"
proof -
  obtain g where g: "release_blk B (lk B f) = Some g" "keeps 0 f g" "buf (bl g) = buf (bl f)" "ino g = ino f"
    using release_lk [of 0 B f "lk B f"] assms(2) by auto
  have "alloc_data_loop B N f = alloc_data_loop (B + 1) (N - of_nat (BDEV_BLK_SIZE * 8)) g"
    using assms g(1) by (subst alloc_data_loop.simps) (simp add: get_lk bmap_alloc_element_def)
  then show ?thesis using g by blast
qed

text \<open>A block in the range of the \<open>k\<close>-th bitmap block, and its bit there.\<close>

lemma nth_bmap:
  assumes "i < PER_BMAP"
  shows "bmap_of f (s_data_start (sbi f) + PER_BMAP * k + i) = s_data_bmap_start (sbi f) + k"
    "(s_data_start (sbi f) + PER_BMAP * k + i - s_data_start (sbi f)) mod PER_BMAP = i"
proof -
  have e: "s_data_start (sbi f) + PER_BMAP * k + i - s_data_start (sbi f) = PER_BMAP * k + i" by simp
  show "bmap_of f (s_data_start (sbi f) + PER_BMAP * k + i) = s_data_bmap_start (sbi f) + k" unfolding bmap_of_def e using assms by simp
  show "(s_data_start (sbi f) + PER_BMAP * k + i - s_data_start (sbi f)) mod PER_BMAP = i" unfolding e using assms by simp
qed

lemma in_bmap: "c \<ge> s_data_start (sbi f) \<Longrightarrow>
    c = s_data_start (sbi f) + PER_BMAP * ((c - s_data_start (sbi f)) div PER_BMAP) + (c - s_data_start (sbi f)) mod PER_BMAP"
  by simp

text \<open>The whole search: it takes a block that was not in use, or there is none.\<close>

definition alloc_result :: "fsst \<Rightarrow> (err \<times> nat \<times> fsst) option \<Rightarrow> bool" where
  "alloc_result f r \<longleftrightarrow>
     (\<exists>c g. r = Some (ERR_OK, c, g) \<and> data_blk f c \<and> \<not> used f c \<and> keeps 2 f g \<and> ino g = ino f \<and> buf (bl g) = alloc_eff f c)
     \<or> (\<exists>g. r = Some (ERR_NORES, 0, g) \<and> keeps 0 f g \<and> ino g = ino f \<and> buf (bl g) = buf (bl f) \<and> (\<forall>c. data_blk f c \<longrightarrow> used f c))"

lemma alloc_result_keeps:
  assumes "alloc_result g r" "keeps 0 f g" "buf (bl g) = buf (bl f)" "ino g = ino f"
  shows "alloc_result f r"
proof -
  have s: "sbi g = sbi f" by (rule keepsD(3) [OF assms(2)])
  have u: "used g = used f" "data_blk g = data_blk f" "bmap_of g = bmap_of f" using same_used [OF assms(3) s] by auto
  have "alloc_eff g = alloc_eff f" by (simp add: alloc_eff_def assms(3) s u fun_eq_iff)
  then show ?thesis
    using assms(1) keeps_trans [OF assms(2), of 2] keeps_trans [OF assms(2), of 0] unfolding alloc_result_def u assms(3,4) by (metis add_0)
qed

lemma alloc_loop_ok:
  "\<lbrakk>fs_ready f; \<forall>b\<in>locks (bl f). used f b; room 2 f; n = s_journal_start (sbi f) - s_data_bmap_start (sbi f); k \<le> n;
    k < n \<longrightarrow> N = of_nat (s_size (sbi f) - k * PER_BMAP); \<forall>c. data_blk f c \<and> (c - s_data_start (sbi f)) div PER_BMAP < k \<longrightarrow> used f c\<rbrakk> \<Longrightarrow>
   alloc_result f (alloc_data_loop (s_data_bmap_start (sbi f) + k) N f)"
proof (induction "n - k" arbitrary: k N f)
  case 0
  then have k: "k = n" "s_data_bmap_start (sbi f) + k = s_journal_start (sbi f)" by (auto simp: fs_ready_def sb_ok_def)
  have "used f c" if "data_blk f c" for c
    using bmap_of_range [of f c] that "0.prems"(1,4,7) k(1) by (auto simp: bmap_of_def fs_ready_def)
  then show ?case using k(2) by (subst alloc_data_loop.simps) (simp add: alloc_result_def)
next
  case (Suc d)
  let ?B = "s_data_bmap_start (sbi f) + k" and ?s = "s_size (sbi f)" and ?d = "s_data_start (sbi f)"
  have sb: "sb_ok (sbi f)" and m: "mem (bl f) = []" and len: "length (buf (bl f) ?B) = 512" using Suc.prems(1) by (auto simp: fs_ready_def)
  have k: "k < n" "?B < s_journal_start (sbi f)" using Suc.hyps(2) Suc.prems(4) by auto
  have sz: "?s < 2 ^ 32" "8 dvd ?s" "(n - 1) * PER_BMAP < ?s" "?s \<le> n * PER_BMAP" using sb Suc.prems(4) by (auto simp: sb_ok_def)
  have uN: "unat N = ?s - k * PER_BMAP" using Suc.prems(6) k(1) sz(1) by (simp add: unat_of_nat)
  have B: "?B \<notin> locks (bl f)" using Suc.prems(2) k(2) sb by (auto simp: used_def data_blk_def sb_ok_def)
  let ?n8 = "min 512 (unat N div 8)"
  have "8 dvd ?s - k * PER_BMAP" using sz(2) by (intro dvd_diff_nat) auto
  then have n8: "8 * ?n8 = min PER_BMAP (?s - k * PER_BMAP)" unfolding uN by (simp add: nat_mult_min_right)
  show ?case
  proof (cases "find_free 0 (take ?n8 (buf (bl f) ?B))")
    case (Some i)
    then have i: "i < 8 * ?n8" "\<not> bmbit (buf (bl f) ?B) i" using find_free_Some [OF Some] len by (auto simp: bmbit_take)
    then have i': "i < PER_BMAP" "k * PER_BMAP + i < ?s" unfolding n8 by auto
    let ?c = "?d + PER_BMAP * k + i"
    have c: "data_blk f ?c" "\<not> used f ?c" using i i' nth_bmap [OF i'(1), of f k] by (auto simp: data_blk_def used_def)
    then have "?c \<noteq> ?B" "?c \<notin> locks (bl f)" using bmap_not_data [OF sb c(1) c(1)] nth_bmap(1) [OF i'(1), of f k] Suc.prems(2) by auto
    then show ?thesis
      using alloc_here [OF m Suc.prems(3) B k(2) Some, of ?c] c nth_bmap [OF i'(1), of f k] by (auto simp: alloc_result_def alloc_eff_def)
  next
    case None
    obtain g where g: "alloc_data_loop ?B N f = alloc_data_loop (?B + 1) (N - of_nat PER_BMAP) g" "keeps 0 f g" "buf (bl g) = buf (bl f)" "ino g = ino f"
      using alloc_next [OF m B k(2) None] by auto
    have s: "sbi g = sbi f" and l: "locks (bl g) = locks (bl f)" using keepsD [OF g(2)] by auto
    have u: "used g = used f" "data_blk g = data_blk f" using same_used [OF g(3) s] by auto
    have more: "used f c" if "data_blk f c" "(c - ?d) div PER_BMAP = k" for c
    proof -
      let ?i = "(c - ?d) mod PER_BMAP"
      have "c = ?d + PER_BMAP * k + ?i" using in_bmap [of f c] that by (auto simp: data_blk_def)
      then have "?i < 8 * ?n8" "bmap_of f c = ?B" using that(1) nth_bmap(1) [of ?i f k] unfolding n8 by (auto simp: data_blk_def)
      then show ?thesis using find_free_None [OF None, of ?i] len that(1) by (simp add: used_def bmbit_take)
    qed
    have N': "N - of_nat PER_BMAP = of_nat (?s - (k + 1) * PER_BMAP)" if "k + 1 < n"
    proof -
      have "(k + 1) * PER_BMAP \<le> (n - 1) * PER_BMAP" using that by (intro mult_le_mono1) simp
      then have "PER_BMAP \<le> ?s - k * PER_BMAP" using sz(3) by simp
      then have "(of_nat (?s - k * PER_BMAP) :: u64) - of_nat PER_BMAP = of_nat (?s - k * PER_BMAP - PER_BMAP)" by (rule of_nat_diff [symmetric])
      moreover have "?s - k * PER_BMAP - PER_BMAP = ?s - (k + 1) * PER_BMAP" by simp
      ultimately show ?thesis using Suc.prems(6) k(1) by simp
    qed
    have "alloc_result g (alloc_data_loop (s_data_bmap_start (sbi g) + (k + 1)) (N - of_nat PER_BMAP) g)"
    proof (rule Suc.hyps(1))
      show "fs_ready g" using Suc.prems(1) g(3) s keepsD(2) [OF g(2)] by (simp add: fs_ready_def)
      show "room 2 g" using room_keeps [OF Suc.prems(3) g(2)] by simp
      show "\<forall>c. data_blk g c \<and> (c - s_data_start (sbi g)) div PER_BMAP < k + 1 \<longrightarrow> used g c"
        using Suc.prems(7) more unfolding u s by (auto simp: less_Suc_eq)
    qed (use Suc.hyps(2) Suc.prems(2,4) k(1) N' s l u in auto)
    then show ?thesis using alloc_result_keeps [OF _ g(2-4)] g(1) s by (simp add: add.assoc)
  qed
qed

lemma alloc_data_ok:
  assumes "fs_ready f" "\<forall>b\<in>locks (bl f). used f b" "room 2 f"
  shows "alloc_result f (alloc_data_block f)"
  using alloc_loop_ok [OF assms refl, of 0] by (simp add: alloc_data_block_def)

end
