(* ===== verification/Files.thy ===== *)
theory Files
  imports Blockmap
begin

text \<open>
  The block map of a file of \<open>Sfs\<close>: the twelve direct blocks and the entries of the two indirect blocks, the blocks that a file
  owns, and \<^verbatim>\<open>get_data_block\<close>, which finds the block of an offset or extends the file by free blocks that read as zeros.
\<close>

section \<open>Bytes of a block\<close>

lemma rd32_zeros: "o' + 4 \<le> n \<Longrightarrow> rd32 o' (replicate n 0) = 0"
  by (simp add: rd32_def dec32_def)

lemma length_put_bytes: "ofs + length bs \<le> length xs \<Longrightarrow> length (put_bytes ofs bs xs) = length xs"
  by (simp add: put_bytes_def)

lemma nth_put_bytes: "ofs + length bs \<le> length xs \<Longrightarrow> n < length xs \<Longrightarrow>
    put_bytes ofs bs xs ! n = (if ofs \<le> n \<and> n < ofs + length bs then bs ! (n - ofs) else xs ! n)"
  by (auto simp: put_bytes_def nth_append min_def)

lemma rd32_put_same: "ofs + 4 \<le> length xs \<Longrightarrow> v < 2 ^ 32 \<Longrightarrow> rd32 ofs (put_bytes ofs (enc32 v) xs) = v"
  by (simp add: rd32_def put_bytes_def dec32_enc32)

lemma rd32_cong: "ofs + 4 \<le> length xs \<Longrightarrow> length ys = length xs \<Longrightarrow> (\<And>i. i < 4 \<Longrightarrow> xs ! (ofs + i) = ys ! (ofs + i)) \<Longrightarrow> rd32 ofs xs = rd32 ofs ys"
proof -
  assume a: "ofs + 4 \<le> length xs" "length ys = length xs" and e: "\<And>i. i < 4 \<Longrightarrow> xs ! (ofs + i) = ys ! (ofs + i)"
  show ?thesis using e [of 0] e [of 1] e [of 2] e [of 3] a by (simp add: rd32_def dec32_def)
qed

lemma rd32_put_other:
  assumes "k \<noteq> j" "4 * k + 4 \<le> length xs" "4 * j + 4 \<le> length xs"
  shows "rd32 (4 * k) (put_bytes (4 * j) (enc32 v) xs) = rd32 (4 * k) xs"
proof (rule rd32_cong)
  fix i :: nat assume "i < 4"
  then have "\<not> (4 * j \<le> 4 * k + i \<and> 4 * k + i < 4 * j + 4)" using assms(1) by auto
  then show "put_bytes (4 * j) (enc32 v) xs ! (4 * k + i) = xs ! (4 * k + i)" using assms \<open>i < 4\<close> by (subst nth_put_bytes) auto
qed (use assms in \<open>auto simp: length_put_bytes\<close>)

section \<open>The block map of a file\<close>

text \<open>
  A file has 14 addresses in its inode, the last two of indirect blocks, and 256 addresses in those. They are numbered in this order:
  \<open>node f a p\<close> is the block at place \<open>p\<close>, 0 if there is none, and \<open>pos k\<close> the place of the \<open>k\<close>-th data block.
\<close>

abbreviation (input) NODES :: nat where "NODES \<equiv> 270"

definition node :: "fsst \<Rightarrow> nat \<Rightarrow> nat \<Rightarrow> nat" where
  "node f a p =
     (if p < 14 then i_addrs (ino f a) ! p
      else let ib = i_addrs (ino f a) ! (12 + (p - 14) div 128) in
           if ib = 0 then 0 else rd32 (4 * ((p - 14) mod 128)) (buf (bl f) ib))"

definition pos :: "nat \<Rightarrow> nat" where
  "pos k = (if k < SFS_NDIRECT then k else k + SFS_NINDIRECT)"

definition owned :: "fsst \<Rightarrow> nat \<Rightarrow> nat set" where
  "owned f a = {node f a p |p. p < NODES} - {0}"

definition inum_ok :: "fsst \<Rightarrow> nat \<Rightarrow> bool" where
  "inum_ok f n \<longleftrightarrow> 0 < n \<and> n \<le> s_num_inodes (sbi f)"

text \<open>Every block of a file is marked in the bitmap, and no block is at two places.\<close>

definition file_ok :: "fsst \<Rightarrow> nat \<Rightarrow> bool" where
  "file_ok f a \<longleftrightarrow> inum_ok f (i_inum (ino f a)) \<and> length (i_addrs (ino f a)) = 14
     \<and> (\<forall>p<NODES. node f a p \<noteq> 0 \<longrightarrow> used f (node f a p))
     \<and> (\<forall>p<NODES. \<forall>q<NODES. node f a p \<noteq> 0 \<and> node f a p = node f a q \<longrightarrow> p = q)"

definition fbyte :: "fsst \<Rightarrow> nat \<Rightarrow> nat \<Rightarrow> u8" where
  "fbyte f a n = (let b = node f a (pos (n div BDEV_BLK_SIZE)) in if b = 0 then 0 else buf (bl f) b ! (n mod BDEV_BLK_SIZE))"

lemma file_okD:
  assumes "file_ok f a"
  shows "inum_ok f (i_inum (ino f a))" "length (i_addrs (ino f a)) = 14" "\<And>p. p < NODES \<Longrightarrow> node f a p \<noteq> 0 \<Longrightarrow> used f (node f a p)"
    "\<And>p q. p < NODES \<Longrightarrow> q < NODES \<Longrightarrow> node f a p \<noteq> 0 \<Longrightarrow> node f a p = node f a q \<Longrightarrow> p = q"
  using assms by (auto simp: file_ok_def)

lemma pos_range: "n < SFS_MAX_FILE_SIZE \<Longrightarrow> pos (n div BDEV_BLK_SIZE) < NODES"
proof -
  assume "n < SFS_MAX_FILE_SIZE"
  then have "n < 268 * BDEV_BLK_SIZE" by (simp add: SFS_MAX_FILE_SIZE_def)
  then have "n div BDEV_BLK_SIZE < 268" by (rule less_mult_imp_div_less)
  then show ?thesis by (simp add: pos_def)
qed

lemma pos_data [simp]: "pos k \<noteq> 12" "pos k \<noteq> 13"
  by (auto simp: pos_def)

lemma pos_inj: "pos k = pos l \<Longrightarrow> k = l"
  by (auto simp: pos_def split: if_splits)

text \<open>
  The growth of a file: nothing that was in use is given up, and the blocks that are added were free. The blocks of other files
  keep their contents. In an extension no byte of the file changes.
\<close>

definition grow :: "nat \<Rightarrow> nat \<Rightarrow> fsst \<Rightarrow> fsst \<Rightarrow> bool" where
  "grow n a f g \<longleftrightarrow> keeps n f g \<and> fs_ready g \<and> file_ok g a \<and> (\<forall>c. used f c \<longrightarrow> used g c)
     \<and> (\<forall>p<NODES. node f a p \<noteq> 0 \<longrightarrow> node g a p = node f a p)
     \<and> (\<forall>p<NODES. node g a p \<noteq> 0 \<longrightarrow> node g a p = node f a p \<or> \<not> used f (node g a p))
     \<and> (\<forall>c. used f c \<and> c \<notin> owned f a \<longrightarrow> buf (bl g) c = buf (bl f) c)
     \<and> (\<forall>x. x \<noteq> a \<longrightarrow> ino g x = ino f x) \<and> (\<exists>ad d. ino g a = (ino f a)\<lparr>i_addrs := ad, i_dirty := d\<rparr>)"

definition ext :: "nat \<Rightarrow> nat \<Rightarrow> fsst \<Rightarrow> fsst \<Rightarrow> bool" where
  "ext n a f g \<longleftrightarrow> grow n a f g \<and> (\<forall>k<SFS_MAX_FILE_SIZE. fbyte g a k = fbyte f a k)"

lemma owned_used: "file_ok f a \<Longrightarrow> c \<in> owned f a \<Longrightarrow> used f c"
  by (auto simp: owned_def file_ok_def)

lemma growD:
  assumes "grow n a f g"
  shows "keeps n f g" "fs_ready g" "file_ok g a" "\<And>c. used f c \<Longrightarrow> used g c" "\<And>p. p < NODES \<Longrightarrow> node f a p \<noteq> 0 \<Longrightarrow> node g a p = node f a p"
    "\<And>p. p < NODES \<Longrightarrow> node g a p \<noteq> 0 \<Longrightarrow> node g a p = node f a p \<or> \<not> used f (node g a p)"
    "\<And>c. used f c \<Longrightarrow> c \<notin> owned f a \<Longrightarrow> buf (bl g) c = buf (bl f) c"
    "\<And>x. x \<noteq> a \<Longrightarrow> ino g x = ino f x" "\<exists>ad d. ino g a = (ino f a)\<lparr>i_addrs := ad, i_dirty := d\<rparr>"
  using assms by (simp_all add: grow_def)

lemma extD:
  assumes "ext n a f g"
  shows "grow n a f g" "\<And>k. k < SFS_MAX_FILE_SIZE \<Longrightarrow> fbyte g a k = fbyte f a k"
  using assms by (simp_all add: ext_def)

lemma ext_refl: "fs_ready f \<Longrightarrow> file_ok f a \<Longrightarrow> ext n a f f"
  by (auto simp: ext_def grow_def intro!: exI [of _ "i_addrs (ino f a)"] exI [of _ "i_dirty (ino f a)"])

lemma grow_trans:
  assumes fg: "grow n a f g" and gh: "grow m a g h"
  shows "grow (n + m) a f h"
proof -
  have own: "c \<notin> owned g a" if c: "used f c" "c \<notin> owned f a" for c
    using c growD(6) [OF fg] by (fastforce simp: owned_def)
  have new: "node h a p = node f a p \<or> \<not> used f (node h a p)" if "p < NODES" "node h a p \<noteq> 0" for p
    using growD(6) [OF gh that] growD(6) [OF fg that(1)] growD(4) [OF fg] that(2) by metis
  have old: "node h a p = node f a p" if "p < NODES" "node f a p \<noteq> 0" for p
    using growD(5) [OF fg that] growD(5) [OF gh that(1)] that(2) by simp
  obtain ad d ad' d' where "ino g a = (ino f a)\<lparr>i_addrs := ad, i_dirty := d\<rparr>" "ino h a = (ino g a)\<lparr>i_addrs := ad', i_dirty := d'\<rparr>"
    using growD(9) [OF fg] growD(9) [OF gh] by auto
  then have "\<exists>ad d. ino h a = (ino f a)\<lparr>i_addrs := ad, i_dirty := d\<rparr>" by auto
  then show ?thesis
    unfolding grow_def using keeps_trans [OF growD(1) [OF fg] growD(1) [OF gh]] growD(2,3,4,7,8) [OF gh] growD(4,7,8) [OF fg] own new old
    by (intro conjI allI impI) auto
qed

lemma ext_trans: "ext n a f g \<Longrightarrow> ext m a g h \<Longrightarrow> ext (n + m) a f h"
  by (auto simp: ext_def intro: grow_trans)

text \<open>One block is added at a place that was empty.\<close>

lemma fill_ext:
  assumes f: "fs_ready f" "file_ok f a" and p: "p < NODES" "node f a p = 0" and c: "c \<noteq> 0" "\<not> used f c"
    and u: "\<And>x. used g x \<longleftrightarrow> used f x \<or> x = c" and nd: "\<And>q. q < NODES \<Longrightarrow> node g a q = (if q = p then c else node f a q)"
    and bf: "\<And>q. q < NODES \<Longrightarrow> q \<noteq> 12 \<Longrightarrow> q \<noteq> 13 \<Longrightarrow> node f a q \<noteq> 0 \<Longrightarrow> buf (bl g) (node f a q) = buf (bl f) (node f a q)"
    and z: "buf (bl g) c = replicate BDEV_BLK_SIZE 0" and o: "\<And>x. used f x \<Longrightarrow> x \<notin> owned f a \<Longrightarrow> buf (bl g) x = buf (bl f) x"
    and g: "keeps n f g" "fs_ready g" and i: "\<And>x. x \<noteq> a \<Longrightarrow> ino g x = ino f x" "ino g a = (ino f a)\<lparr>i_addrs := ad, i_dirty := d\<rparr>" "length ad = 14"
  shows "ext n a f g"
proof -
  note fo = file_okD [OF f(2)]
  have "inum_ok g (i_inum (ino g a))" using fo(1) keepsD(3) [OF g(1)] i(2) by (simp add: inum_ok_def)
  moreover have "used g (node g a q)" if "q < NODES" "node g a q \<noteq> 0" for q using that fo(3) [of q] by (auto simp: nd u split: if_splits)
  moreover have "q = r" if "q < NODES" "r < NODES" "node g a q \<noteq> 0" "node g a q = node g a r" for q r
    using that fo(3) [of q] fo(3) [of r] fo(4) [of q r] c by (auto simp: nd split: if_splits)
  ultimately have ok: "file_ok g a" using i(2,3) by (simp add: file_ok_def)
  have "fbyte g a k = fbyte f a k" if "k < SFS_MAX_FILE_SIZE" for k
  proof -
    let ?q = "pos (k div BDEV_BLK_SIZE)"
    have q: "?q < NODES" by (rule pos_range [OF that])
    show ?thesis
    proof (cases "?q = p")
      case True
      then have "node g a ?q = c" "node f a ?q = 0" using nd [OF q] p(2) by simp_all
      then show ?thesis using c(1) z by (simp add: fbyte_def Let_def)
    next
      case False
      then have "node g a ?q = node f a ?q" using nd [OF q] by simp
      then show ?thesis using bf [OF q] by (simp add: fbyte_def Let_def)
    qed
  qed
  moreover have "node g a q = node f a q" if "q < NODES" "node f a q \<noteq> 0" for q using that p nd by auto
  moreover have "node g a q = node f a q \<or> \<not> used f (node g a q)" if "q < NODES" for q using nd [OF that] c(2) by auto
  ultimately show ?thesis unfolding ext_def grow_def using ok g u o i(1,2) by (intro conjI allI impI) auto
qed

section \<open>The steps that add a block\<close>

lemma inode_blk_range: "sb_ok (sbi f) \<Longrightarrow> inum_ok f n \<Longrightarrow> inum_to_blk n < s_data_bmap_start (sbi f)"
proof -
  assume s: "sb_ok (sbi f)" and n: "inum_ok f n"
  have "(n - 1) div 8 \<le> (s_num_inodes (sbi f) - 1) div 8" using n by (intro div_le_mono) (auto simp: inum_ok_def)
  then show ?thesis using s by (auto simp: inum_to_blk_def sb_ok_def)
qed

lemma inode_blk_other: "sb_ok (sbi f) \<Longrightarrow> inum_ok f n \<Longrightarrow> data_blk f c \<Longrightarrow> inum_to_blk n \<noteq> c \<and> inum_to_blk n \<noteq> bmap_of f c"
  using inode_blk_range [of f n] bmap_of_range [of f c] by (auto simp: data_blk_def sb_ok_def)

lemma length_sfs_inode: "length (sfs_inode ft md nl sz ad) = 8 + 4 * length ad"
  by (simp add: sfs_inode_def enc16_def length_concat_enc)

lemma inum_ofs_room: "inum_to_ofs n + 64 \<le> 512"
proof -
  have "(n - 1) * 64 mod 512 = 64 * ((n - 1) mod 8)" using mult_mod_right [of 64 "n - 1" 8] by (simp add: mult.commute)
  then show ?thesis by (simp add: inum_to_ofs_def)
qed

lemma write_inode_ok:
  assumes f: "fs_ready f" "inum_ok f (i_inum (ino f a))" "length (i_addrs (ino f a)) = 14" and l: "\<forall>b\<in>locks (bl f). used f b" and r: "room 1 f"
  shows "\<exists>g d. sfs_write_inode a f = Some (ERR_OK, g) \<and> keeps 1 f g \<and> fs_ready g \<and> ino g = (ino f)(a := (ino f a)\<lparr>i_dirty := False\<rparr>)
     \<and> buf (bl g) = (buf (bl f))(inum_to_blk (i_inum (ino f a)) := d)"
proof -
  let ?B = "inum_to_blk (i_inum (ino f a))" and ?i = "ino f a"
  let ?h = "put_bytes (inum_to_ofs (i_inum ?i)) (sfs_inode (i_ftype ?i) (i_mode ?i) (i_nlink ?i) (i_size ?i) (i_addrs ?i))"
  have sb: "sb_ok (sbi f)" "mem (bl f) = []" using f(1) by (auto simp: fs_ready_def)
  have B: "?B \<notin> locks (bl f)" using l inode_blk_other [OF sb(1) f(2)] by (auto simp: used_def)
  obtain g1 where g1: "change_blk ?B ?h (lk ?B f) = Some g1" "keeps 1 (lk ?B f) g1" "buf (bl g1) = (buf (bl f))(?B := ?h (buf (bl f) ?B))" "ino g1 = ino f"
    using change_ok [of "lk ?B f" ?B ?h] r by auto
  let ?g = "set_ino a (\<lambda>i. i\<lparr>i_dirty := False\<rparr>) g1"
  have "keeps 1 (lk ?B f) ?g" using g1(2) by (simp add: keeps_def set_ino_def)
  from release_lk [OF this B] obtain g2 where g2: "release_blk ?B ?g = Some g2" "keeps 1 f g2" "buf (bl g2) = buf (bl g1)" "ino g2 = (ino f)(a := ?i\<lparr>i_dirty := False\<rparr>)"
    using g1(4) by (auto simp: set_ino_def)
  have "sfs_write_inode a f = Some (ERR_OK, g2)"
    using f(2) g1(1) g2(1) get_lk [OF sb(2) B] by (simp add: sfs_write_inode_def inum_ok_def Let_def)
  moreover have "length (?h (buf (bl f) ?B)) = 512" using f inum_ofs_room by (subst length_put_bytes) (auto simp: length_sfs_inode fs_ready_def)
  then have "fs_ready g2" using f(1) keepsD [OF g2(2)] g1(3) g2(3) by (simp add: fs_ready_def)
  ultimately show ?thesis using g2 g1(3) by auto
qed

lemma alloc_used:
  assumes "fs_ready f" "data_blk f c" "buf (bl g) = alloc_eff f c" "sbi g = sbi f"
  shows "used g x \<longleftrightarrow> used f x \<or> x = c"
proof (cases "data_blk f x")
  case True
  let ?d = "s_data_start (sbi f)"
  have sb: "sb_ok (sbi f)" and len: "length (buf (bl f) (bmap_of f c)) = 512" using assms(1) by (auto simp: fs_ready_def)
  have b: "bmap_of f x \<noteq> c" "bmap_of f c \<noteq> c" using bmap_not_data [OF sb] True assms(2) by auto
  have e: "x = c \<longleftrightarrow> bmap_of f x = bmap_of f c \<and> (x - ?d) mod PER_BMAP = (c - ?d) mod PER_BMAP"
    using in_bmap [of f x] in_bmap [of f c] True assms(2) unfolding data_blk_def bmap_of_def by (metis add_left_cancel)
  have "bmbit (set_bmap ((c - ?d) mod PER_BMAP) (buf (bl f) (bmap_of f c))) j \<longleftrightarrow> bmbit (buf (bl f) (bmap_of f c)) j \<or> j = (c - ?d) mod PER_BMAP" for j
    using len by (intro bmbit_set) simp
  then have "bmbit (alloc_eff f c (bmap_of f x)) ((x - ?d) mod PER_BMAP) \<longleftrightarrow> bmbit (buf (bl f) (bmap_of f x)) ((x - ?d) mod PER_BMAP) \<or> x = c"
    unfolding e using b by (auto simp: alloc_eff_def)
  then show ?thesis using assms(3,4) True by (simp add: used_def data_blk_def bmap_of_def)
next
  case False
  then show ?thesis using assms by (auto simp: used_def data_blk_def)
qed

lemma alloc_ready: "fs_ready f \<Longrightarrow> buf (bl g) = alloc_eff f c \<Longrightarrow> keeps n f g \<Longrightarrow> fs_ready g"
  by (auto simp: fs_ready_def keeps_def alloc_eff_def)

text \<open>The buffers after an allocation and one more change, in a block that holds no bitmap.\<close>

lemma after_alloc:
  assumes f: "fs_ready f" and c: "data_blk f c" "\<not> used f c" and h: "buf (bl h) = (alloc_eff f c)(B := d)" "sbi h = sbi f"
    and B: "B \<noteq> c" "\<forall>x. data_blk f x \<longrightarrow> B \<noteq> bmap_of f x"
  shows "\<And>x. used h x \<longleftrightarrow> used f x \<or> x = c" "\<And>x. used f x \<Longrightarrow> x \<noteq> B \<Longrightarrow> buf (bl h) x = buf (bl f) x"
    "buf (bl h) c = replicate BDEV_BLK_SIZE 0"
proof -
  have sb: "sb_ok (sbi f)" using f by (simp add: fs_ready_def)
  let ?g = "f\<lparr>bl := (bl f)\<lparr>buf := alloc_eff f c\<rparr>\<rparr>"
  show "used h x \<longleftrightarrow> used f x \<or> x = c" for x
  proof (cases "data_blk f x")
    case True
    then have "buf (bl h) (bmap_of f x) = alloc_eff f c (bmap_of f x)" using B(2) True h(1) by auto
    then have "used h x = used ?g x" by (simp add: used_def data_blk_def bmap_of_def h(2))
    then show ?thesis using alloc_used [OF f c(1), of ?g] by simp
  qed (use c(1) in \<open>auto simp: used_def data_blk_def h(2)\<close>)
  show "buf (bl h) x = buf (bl f) x" if "used f x" "x \<noteq> B" for x
    using that c bmap_not_data [OF sb c(1), of x] by (auto simp: h(1) alloc_eff_def used_def)
  show "buf (bl h) c = replicate BDEV_BLK_SIZE 0" using B(1) by (simp add: h(1) alloc_eff_def)
qed

text \<open>The predicates depend only on the buffers, the inodes and the super block.\<close>

definition alike :: "fsst \<Rightarrow> fsst \<Rightarrow> bool" where
  "alike f g \<longleftrightarrow> buf (bl f) = buf (bl g) \<and> ino f = ino g \<and> sbi f = sbi g \<and> mem (bl f) = mem (bl g)"

lemma alike_simps:
  assumes "alike f g"
  shows "node f = node g" "used f = used g" "data_blk f = data_blk g" "owned f = owned g" "file_ok f = file_ok g" "fs_ready f = fs_ready g"
    "fbyte f = fbyte g" "inum_ok f = inum_ok g" "alloc_eff f = alloc_eff g"
proof -
  have a: "buf (bl f) = buf (bl g)" "ino f = ino g" "sbi f = sbi g" "mem (bl f) = mem (bl g)" using assms by (simp_all add: alike_def)
  show n: "node f = node g" by (simp add: node_def a fun_eq_iff Let_def)
  show u: "used f = used g" "data_blk f = data_blk g" using same_used [OF a(1,3)] by auto
  show "owned f = owned g" by (simp add: owned_def n fun_eq_iff)
  show i: "inum_ok f = inum_ok g" by (simp add: inum_ok_def a fun_eq_iff)
  show "file_ok f = file_ok g" by (simp add: file_ok_def n u i a fun_eq_iff)
  show "fs_ready f = fs_ready g" by (simp add: fs_ready_def a)
  show "fbyte f = fbyte g" by (simp add: fbyte_def n a fun_eq_iff Let_def)
  show "alloc_eff f = alloc_eff g" using same_used [OF a(1,3)] by (simp add: alloc_eff_def a fun_eq_iff)
qed

lemma alike_lk [simp]: "alike (lk b f) f" "alike (rf b f) f"
  by (simp_all add: alike_def)

lemma ext_alike: "ext n a f g \<Longrightarrow> alike f' f \<Longrightarrow> alike g' g \<Longrightarrow> keeps m f' g' \<Longrightarrow> ext m a f' g'"
  unfolding ext_def grow_def using alike_simps [of f' f] alike_simps [of g' g] by (simp add: alike_def)

lemma ext_same: "fs_ready f \<Longrightarrow> file_ok f a \<Longrightarrow> keeps n f g \<Longrightarrow> buf (bl g) = buf (bl f) \<Longrightarrow> ino g = ino f \<Longrightarrow> ext n a f g"
  by (rule ext_alike [OF ext_refl]) (auto simp: alike_def keeps_def)

lemma ext_mono: "ext n a f g \<Longrightarrow> n \<le> m \<Longrightarrow> ext m a f g"
  by (rule ext_alike [of n a f g]) (auto simp: alike_def ext_def grow_def intro: keeps_mono)

definition full :: "fsst \<Rightarrow> bool" where
  "full f \<longleftrightarrow> (\<forall>c. data_blk f c \<longrightarrow> used f c)"

text \<open>The outcome of an operation that finds or makes the block at place \<open>p\<close>.\<close>

definition grown :: "nat \<Rightarrow> nat \<Rightarrow> nat \<Rightarrow> fsst \<Rightarrow> (err \<times> nat \<times> fsst) option \<Rightarrow> bool" where
  "grown n a p f r \<longleftrightarrow> (\<exists>er b g. r = Some (er, b, g) \<and> ext n a f g \<and> (er = ERR_OK \<and> b = node g a p \<and> b \<noteq> 0 \<or> er = ERR_NORES \<and> full g))"

lemma direct_found: "p < 14 \<Longrightarrow> node f a p \<noteq> 0 \<Longrightarrow> direct_block a p al f = Some (ERR_OK, node f a p, f)"
  by (simp add: direct_block_def node_def)

lemma direct_ok:
  assumes f: "fs_ready f" "file_ok f a" and l: "\<forall>b\<in>locks (bl f). used f b" and r: "room 3 f" and p: "p < 14"
  shows "grown 3 a p f (direct_block a p True f)"
proof (cases "node f a p = 0")
  case False
  then show ?thesis using direct_found [OF p] ext_refl [OF f] by (auto simp: grown_def)
next
  case True
  note fo = file_okD [OF f(2)]
  have sb: "sb_ok (sbi f)" using f(1) by (simp add: fs_ready_def)
  from alloc_data_ok [OF f(1) l room_mono [OF r, of 2]] consider
    c g where "alloc_data_block f = Some (ERR_OK, c, g)" "data_blk f c" "\<not> used f c" "keeps 2 f g" "ino g = ino f" "buf (bl g) = alloc_eff f c"
    | g where "alloc_data_block f = Some (ERR_NORES, 0, g)" "keeps 0 f g" "ino g = ino f" "buf (bl g) = buf (bl f)" "full f"
    unfolding alloc_result_def full_def by auto
  then show ?thesis
  proof cases
    case 2
    then have "ext 3 a f g" using ext_same [OF f keeps_mono [OF 2(2)]] by simp
    moreover have "full g" using 2(5) same_used [OF 2(4) keepsD(3) [OF 2(2)]] by (simp add: full_def)
    ultimately show ?thesis using True p 2(1) by (auto simp: grown_def direct_block_def node_def)
  next
    case 1
    let ?ad = "(i_addrs (ino f a))[p := c]" and ?B = "inum_to_blk (i_inum (ino f a))"
    let ?g = "set_ino a (\<lambda>i. i\<lparr>i_addrs := (i_addrs i)[p := c], i_dirty := True\<rparr>) g"
    have g: "sbi g = sbi f" "locks (bl g) = locks (bl f)" using keepsD [OF 1(4)] by auto
    have ag: "used ?g = used g" "data_blk ?g = data_blk g" using same_used [of ?g g] by (simp_all add: set_ino_def)
    have ug: "used g x \<longleftrightarrow> used f x \<or> x = c" for x by (rule alloc_used [OF f(1) 1(2) 1(6) g(1)])
    have "fs_ready ?g" using alloc_ready [OF f(1) 1(6) 1(4)] by (simp add: fs_ready_def set_ino_def)
    moreover have "room 1 ?g" using room_keeps [OF r 1(4), of 1] by (simp add: room_def set_ino_def)
    ultimately obtain h d where h: "sfs_write_inode a ?g = Some (ERR_OK, h)" "keeps 1 ?g h" "fs_ready h"
        "ino h = (ino ?g)(a := (ino ?g a)\<lparr>i_dirty := False\<rparr>)" "buf (bl h) = (buf (bl ?g))(?B := d)"
      using write_inode_ok [of ?g a] fo(1,2) l g 1(5) ug ag by (auto simp: set_ino_def inum_ok_def)
    have k: "keeps 3 f h" using keeps_trans [OF 1(4), of 1 h] h(2) by (simp add: keeps_def set_ino_def eval_nat_numeral)
    have sh: "sbi h = sbi f" by (rule keepsD(3) [OF k])
    have B: "?B \<noteq> x" "?B \<noteq> bmap_of f x" if "data_blk f x" for x using inode_blk_other [OF sb fo(1) that] by auto
    have bh: "buf (bl h) = (alloc_eff f c)(?B := d)" by (simp add: h(5) set_ino_def 1(6))
    have "\<forall>x. data_blk f x \<longrightarrow> ?B \<noteq> bmap_of f x" using B(2) by blast
    note after = after_alloc [OF f(1) 1(2,3) bh sh B(1) [OF 1(2)] this]
    have bx: "buf (bl h) x = buf (bl f) x" if "used f x" for x using after(2) [OF that] B(1) [of x] that by (auto simp: used_def)
    have ih: "i_addrs (ino h a) = ?ad" using h(4) 1(5) by (simp add: set_ino_def)
    have nd: "node h a q = (if q = p then c else node f a q)" if q: "q < NODES" for q
    proof (cases "q < 14")
      case True
      then show ?thesis using ih fo(2) by (simp add: node_def nth_list_update)
    next
      case False
      let ?j = "12 + (q - 14) div 128"
      have j: "?j < 14" using q False by (simp add: less_mult_imp_div_less)
      have z: "rd32 (4 * ((q - 14) mod 128)) (replicate 512 0) = 0" by (rule rd32_zeros) simp
      have "c \<noteq> 0" using 1(2) sb by (auto simp: data_blk_def sb_ok_def)
      moreover have "used f (i_addrs (ino f a) ! ?j)" if "i_addrs (ino f a) ! ?j \<noteq> 0" using fo(3) [of ?j] j that by (simp add: node_def)
      ultimately show ?thesis
        using False p \<open>node f a p = 0\<close> j fo(2) after(3) z bx by (cases "?j = p") (auto simp: node_def ih nth_list_update Let_def)
    qed
    have ext: "ext 3 a f h"
    proof (rule fill_ext [OF f _ True _ 1(3) after(1) nd _ after(3) _ k h(3)])
      show "c \<noteq> 0" using 1(2) sb by (auto simp: data_blk_def sb_ok_def)
      show "ino h a = (ino f a)\<lparr>i_addrs := ?ad, i_dirty := False\<rparr>" using h(4) 1(5) by (simp add: set_ino_def)
    qed (use p fo bx h(4) 1(5) in \<open>auto simp: set_ino_def\<close>)
    moreover have "node h a p = c" "c \<noteq> 0" using nd [of p] p 1(2) sb by (auto simp: data_blk_def sb_ok_def)
    ultimately show ?thesis using True p 1(1) h(1) by (auto simp: grown_def direct_block_def node_def)
  qed
qed

section \<open>Indirect blocks\<close>

text \<open>\<open>P\<close> is the place of an indirect block, \<open>12\<close> or \<open>13\<close>, and \<open>k\<close> an entry in it.\<close>

lemma place_split: "P = (12 :: nat) \<or> P = 13 \<Longrightarrow> k < 128 \<Longrightarrow> (14 + (P - 12) * 128 + k - 14) div 128 = P - 12 \<and> (14 + (P - 12) * 128 + k - 14) mod 128 = k"
  by auto

lemma entry_node:
  assumes "P = 12 \<or> P = 13" "k < 128" "node f a P \<noteq> 0"
  shows "node f a (14 + (P - 12) * 128 + k) = rd32 (4 * k) (buf (bl f) (node f a P))"
  using assms place_split [OF assms(1,2)] by (auto simp: node_def)

lemma indirect_found:
  assumes f: "fs_ready f" "node f a P \<notin> locks (bl f)" and P: "P = 12 \<or> P = 13" "k < 128" "node f a P \<noteq> 0" and b: "node f a (14 + (P - 12) * 128 + k) \<noteq> 0"
  shows "\<exists>g. indirect_entry (node f a P) k al f = Some (ERR_OK, node f a (14 + (P - 12) * 128 + k), g) \<and> keeps 0 f g \<and> buf (bl g) = buf (bl f) \<and> ino g = ino f"
proof -
  let ?ib = "node f a P"
  obtain g where "release_blk ?ib (lk ?ib f) = Some g" "keeps 0 f g" "buf (bl g) = buf (bl f)" "ino g = ino f"
    using release_lk [of 0 ?ib f "lk ?ib f"] f(2) by auto
  then show ?thesis
    using f b entry_node [OF P] by (simp add: indirect_entry_def get_lk fs_ready_def Let_def)
qed

text \<open>The block map after entry \<open>k\<close> of an indirect block has been set.\<close>

lemma entry_set:
  assumes fo: "file_ok f a" and P: "P = 12 \<or> P = 13" "k < 128" "node f a P \<noteq> 0" and c: "c < 2 ^ 32" and i: "ino h a = ino f a"
    and bib: "buf (bl h) (node f a P) = put_bytes (4 * k) (enc32 c) (buf (bl f) (node f a P))" and lb: "length (buf (bl f) (node f a P)) = BDEV_BLK_SIZE"
    and same: "\<And>x. used f x \<Longrightarrow> x \<noteq> node f a P \<Longrightarrow> buf (bl h) x = buf (bl f) x" and q: "q < NODES"
  shows "node h a q = (if q = 14 + (P - 12) * 128 + k then c else node f a q)"
proof (cases "q < 14")
  case True
  then show ?thesis using i by (simp add: node_def)
next
  case False
  let ?j = "12 + (q - 14) div 128" and ?i = "(q - 14) mod 128" and ?p = "14 + (P - 12) * 128 + k"
  have j: "?j < 14" "?j = 12 \<or> ?j = 13" using q False by (auto simp: less_mult_imp_div_less)
  have qe: "q = 14 + (?j - 12) * 128 + ?i" using False by simp
  have nf: "node x a q = (if node x a ?j = 0 then 0 else rd32 (4 * ?i) (buf (bl x) (node x a ?j)))" for x using False j(1) by (simp add: node_def Let_def)
  have nj: "node h a ?j = node f a ?j" using j(1) i by (simp add: node_def)
  show ?thesis
  proof (cases "?j = P")
    case True
    then have "?p = 14 + (?j - 12) * 128 + k" by simp
    then have "q = ?p \<longleftrightarrow> ?i = k" using qe by (metis add_left_cancel)
    moreover have "rd32 (4 * ?i) (buf (bl h) (node f a P)) = (if ?i = k then c else rd32 (4 * ?i) (buf (bl f) (node f a P)))"
      using rd32_put_same [of "4 * k" "buf (bl f) (node f a P)" c] rd32_put_other [of ?i k "buf (bl f) (node f a P)" c] lb c P(2) bib by auto
    ultimately show ?thesis using True nf [of h] nf [of f] nj P(3) by simp
  next
    case False
    have "q \<noteq> ?p" using False place_split [OF P(1,2)] P(1) by auto
    moreover have "buf (bl h) (node f a ?j) = buf (bl f) (node f a ?j)" if "node f a ?j \<noteq> 0"
    proof (rule same)
      show "used f (node f a ?j)" using file_okD(3) [OF fo, of ?j] that j(1) by simp
      show "node f a ?j \<noteq> node f a P" using file_okD(4) [OF fo, of ?j P] that j(1) P(1) False by auto
    qed
    ultimately show ?thesis using nf [of h] nf [of f] nj by simp
  qed
qed

lemma indirect_ok:
  assumes f: "fs_ready f" "file_ok f a" and l: "locks (bl f) = {}" and r: "room 3 f" and P: "P = 12 \<or> P = 13" "k < 128" "node f a P \<noteq> 0"
  shows "grown 3 a (14 + (P - 12) * 128 + k) f (indirect_entry (node f a P) k True f)" (is "grown 3 a ?p f ?r")
proof (cases "node f a ?p = 0")
  case False
  then obtain g where g: "?r = Some (ERR_OK, node f a ?p, g)" "keeps 0 f g" "buf (bl g) = buf (bl f)" "ino g = ino f"
    using indirect_found [of f a P k True] f(1) l P by auto
  have "alike g f" using g keepsD [OF g(2)] by (simp add: alike_def)
  then show ?thesis using ext_same [OF f keeps_mono [OF g(2)] g(3,4), of 3] g(1) False alike_simps(1) [of g f] by (auto simp: grown_def)
next
  case True
  let ?ib = "node f a P"
  note fo = file_okD [OF f(2)]
  have sb: "sb_ok (sbi f)" and m: "mem (bl f) = []" using f(1) by (auto simp: fs_ready_def)
  have ib: "used f ?ib" using fo(3) [of P] P by auto
  have p: "?p < NODES" using P by auto
  have e0: "rd32 (4 * k) (buf (bl f) ?ib) = 0" using entry_node [OF P] True by simp
  note al = alike_simps [OF alike_lk(1) [of ?ib f]]
  have get: "get_blk ?ib f = Some (True, lk ?ib f)" using get_lk [OF m] l by simp
  from alloc_data_ok [of "lk ?ib f"] ib f(1) l room_mono [OF r, of 2] consider
    c g where "alloc_data_block (lk ?ib f) = Some (ERR_OK, c, g)" "data_blk f c" "\<not> used f c" "keeps 2 (lk ?ib f) g" "ino g = ino f" "buf (bl g) = alloc_eff f c"
    | g where "alloc_data_block (lk ?ib f) = Some (ERR_NORES, 0, g)" "keeps 0 (lk ?ib f) g" "ino g = ino f" "buf (bl g) = buf (bl f)" "full f"
    unfolding alloc_result_def full_def by (auto simp: al)
  then show ?thesis
  proof cases
    case 2
    obtain h where h: "release_blk ?ib g = Some h" "keeps 0 f h" "buf (bl h) = buf (bl f)" "ino h = ino f"
      using release_lk [OF 2(2)] l 2(3,4) by auto
    have "ext 3 a f h" using ext_same [OF f keeps_mono [OF h(2)] h(3,4)] by simp
    moreover have "full h" using 2(5) same_used [OF h(3) keepsD(3) [OF h(2)]] by (simp add: full_def)
    ultimately show ?thesis using e0 get 2(1) h(1) by (auto simp: grown_def indirect_entry_def Let_def)
  next
    case 1
    let ?h = "put_bytes (4 * k) (enc32 c)"
    have c: "c \<noteq> ?ib" "c \<noteq> 0" "c < 2 ^ 32" using 1(2,3) ib sb by (auto simp: data_blk_def sb_ok_def)
    have bib: "alloc_eff f c ?ib = buf (bl f) ?ib" using c(1) bmap_not_data [OF sb 1(2), of ?ib] ib by (auto simp: alloc_eff_def used_def)
    obtain g2 where g2: "change_blk ?ib ?h g = Some g2" "keeps 1 g g2" "buf (bl g2) = (alloc_eff f c)(?ib := ?h (buf (bl f) ?ib))" "ino g2 = ino f"
      using change_ok [of g ?ib ?h] room_keeps [of 3 "lk ?ib f" 2 g 1] r 1(4-6) bib by auto
    have "keeps 3 (lk ?ib f) g2" using keeps_trans [OF 1(4) g2(2)] by (simp add: eval_nat_numeral)
    from release_lk [OF this] l obtain h where h: "release_blk ?ib g2 = Some h" "keeps 3 f h" "buf (bl h) = (alloc_eff f c)(?ib := ?h (buf (bl f) ?ib))" "ino h = ino f"
      using g2(3,4) by auto
    have sh: "sbi h = sbi f" by (rule keepsD(3) [OF h(2)])
    have B: "\<forall>x. data_blk f x \<longrightarrow> ?ib \<noteq> bmap_of f x" 
    proof (intro allI impI)
      fix x assume "data_blk f x"
      then show "?ib \<noteq> bmap_of f x" using bmap_not_data [OF sb, of x ?ib] ib by (simp add: used_def)
    qed
    note after = after_alloc [OF f(1) 1(2,3) h(3) sh c(1) [symmetric] B]
    have lb: "length (buf (bl f) ?ib) = 512" using f(1) by (simp add: fs_ready_def)
    have ready: "fs_ready h" using f(1) alloc_ready [OF f(1), of "f\<lparr>bl := (bl f)\<lparr>buf := alloc_eff f c\<rparr>\<rparr>" c 0] keepsD [OF h(2)] h(3) lb P(2)
      by (auto simp: fs_ready_def keeps_def length_put_bytes)
    have nd: "node h a q = (if q = ?p then c else node f a q)" if "q < NODES" for q
      using entry_set [OF f(2) P c(3), of h q] h(3,4) lb after(2) that by simp
    have ext: "ext 3 a f h"
    proof (rule fill_ext [OF f p True c(2) 1(3) after(1) nd _ after(3) _ h(2) ready])
      show "buf (bl h) (node f a q) = buf (bl f) (node f a q)" if "q < NODES" "q \<noteq> 12" "q \<noteq> 13" "node f a q \<noteq> 0" for q

      proof -
        have "node f a q \<noteq> ?ib" using fo(4) [of q P] that P(1) by auto
        then show ?thesis using after(2) fo(3) [OF that(1,4)] by simp
      qed
      show "buf (bl h) x = buf (bl f) x" if "used f x" "x \<notin> owned f a" for x
      proof -
        have "?ib \<in> owned f a" using P by (auto simp: owned_def)
        then have "x \<noteq> ?ib" using that(2) by blast
        then show ?thesis by (rule after(2) [OF that(1)])
      qed
      show "ino h a = (ino f a)\<lparr>i_addrs := i_addrs (ino f a), i_dirty := i_dirty (ino f a)\<rparr>" using h(4) by simp
    qed (use fo(2) h(4) in auto)
    moreover have "node h a ?p = c" using nd [OF p] by simp
    ultimately show ?thesis using e0 get 1(1) g2(1) h(1) c(2) by (auto simp: grown_def indirect_entry_def Let_def)
  qed
qed

section \<open>Finding a data block\<close>

lemma release_rf_comm: "B \<noteq> b \<Longrightarrow> release_unlocked B g = Some h \<Longrightarrow> release_unlocked B (lk b g) = Some (lk b h)"
  by (auto simp: release_unlocked_def bdev_release_blk_unlocked_def lk_def bind_Some_iff fun_upd_twist split: if_splits)

lemma pos_indirect:
  assumes "k < 268" "\<not> k < 12"
  shows "12 + (k - 12) div 128 = 12 \<or> 12 + (k - 12) div 128 = 13" "pos k = 14 + (12 + (k - 12) div 128 - 12) * 128 + (k - 12) mod 128"
proof -
  have "(k - 12) div 128 < 2" using assms by (simp add: less_mult_imp_div_less)
  then show "12 + (k - 12) div 128 = 12 \<or> 12 + (k - 12) div 128 = 13" by auto
  have "(k - 12) div 128 * 128 + (k - 12) mod 128 = k - 12" by (rule div_mult_mod_eq)
  then show "pos k = 14 + (12 + (k - 12) div 128 - 12) * 128 + (k - 12) mod 128" using assms(2) by (simp add: pos_def)
qed

lemma locate_found:
  assumes f: "fs_ready f" "locks (bl f) = {}" and k: "k < 268" and b: "node f a (pos k) \<noteq> 0"
  shows "\<exists>g. locate_block a k al f = Some (ERR_OK, node f a (pos k), g) \<and> keeps 0 f g \<and> buf (bl g) = buf (bl f) \<and> ino g = ino f"
proof (cases "k < 12")
  case True
  then show ?thesis using direct_found [of k f a al] b by (simp add: locate_block_def pos_def)
next
  case False
  let ?P = "12 + (k - 12) div 128"
  note P = pos_indirect [OF k False]
  have nz: "node f a ?P \<noteq> 0"
  proof
    assume "node f a ?P = 0"
    then have "node f a (pos k) = 0" using place_split [OF P(1), of "(k - 12) mod 128"] P by (auto simp: node_def Let_def)
    then show False using b by simp
  qed
  then show ?thesis
    using indirect_found [of f a ?P "(k - 12) mod 128" al] f P b direct_found [of ?P f a al] False
    by (auto simp: locate_block_def node_def [of f a ?P])
qed

lemma locate_grown:
  assumes f: "fs_ready f" "file_ok f a" and l: "locks (bl f) = {}" and r: "room 6 f" and k: "k < 268"
  shows "grown 6 a (pos k) f (locate_block a k True f)"
proof (cases "k < 12")
  case True
  then have "grown 3 a (pos k) f (locate_block a k True f)" using direct_ok [OF f, of k] l room_mono [OF r, of 3] by (simp add: locate_block_def pos_def)
  then show ?thesis unfolding grown_def using ext_mono [of 3 a f _ 6] by fastforce
next
  case False
  let ?P = "12 + (k - 12) div 128"
  note P = pos_indirect [OF k False]
  have P14: "?P < 14" using P(1) by auto
  obtain er b g where g: "direct_block a ?P True f = Some (er, b, g)" "ext 3 a f g" "er = ERR_OK \<and> b = node g a ?P \<and> b \<noteq> 0 \<or> er = ERR_NORES \<and> full g"
    using direct_ok [OF f _ room_mono [OF r, of 3] P14] l unfolding grown_def by auto
  show ?thesis
  proof (cases "er = ERR_OK")
    case True
    then have nz: "node g a ?P \<noteq> 0" using g(3) by auto
    have "locks (bl g) = {}" "room 3 g" using l keepsD(1) [OF growD(1) [OF extD(1) [OF g(2)]]] room_keeps [OF r growD(1) [OF extD(1) [OF g(2)]], of 3] by simp_all
    then have "grown 3 a (14 + (?P - 12) * 128 + (k - 12) mod 128) g (indirect_entry (node g a ?P) ((k - 12) mod 128) True g)"
      by (intro indirect_ok [OF growD(2,3) [OF extD(1) [OF g(2)]] _ _ P(1) _ nz]) auto
    then have "grown 3 a (pos k) g (indirect_entry (node g a ?P) ((k - 12) mod 128) True g)" by (simp only: P(2))
    then obtain er' b' h where h: "indirect_entry (node g a ?P) ((k - 12) mod 128) True g = Some (er', b', h)" "ext 3 a g h"
        "er' = ERR_OK \<and> b' = node h a (pos k) \<and> b' \<noteq> 0 \<or> er' = ERR_NORES \<and> full h"
      unfolding grown_def by blast
    have "locate_block a k True f = Some (er', b', h)" using False P14 g(1) True nz h(1) by (simp add: locate_block_def node_def)
    moreover have "ext 6 a f h" using ext_trans [OF g(2) h(2)] by simp
    ultimately show ?thesis using h(3) unfolding grown_def by blast
  next
    case nok: False
    then have "locate_block a k True f = Some (er, 0, g)" using False P14 g(1) by (simp add: locate_block_def)
    then show ?thesis using g(3) nok ext_mono [OF g(2), of 6] by (auto simp: grown_def)
  qed
qed

lemma get_data_block_locate:
  assumes "mem (bl f) = []" "ofs < SFS_MAX_FILE_SIZE"
  shows "get_data_block a ofs alloc f = do {
     (er, blk, g) \<leftarrow> locate_block a (ofs div BDEV_BLK_SIZE) alloc (rf (inum_to_blk (i_inum (ino f a))) f);
     (if er \<noteq> ERR_OK then do { g \<leftarrow> release_unlocked (inum_to_blk (i_inum (ino f a))) g; Some (er, 0, g) }
      else do {
        kassert (blk > 0);
        (ok, g) \<leftarrow> get_blk blk g;
        (if ok then do { g \<leftarrow> release_unlocked (inum_to_blk (i_inum (ino f a))) g; Some (ERR_OK, blk, g) }
         else do {
           g \<leftarrow> (if ofs div BDEV_BLK_SIZE < SFS_NDIRECT then Some g
                else release_blk (i_addrs (ino g a) ! (SFS_NDIRECT + (ofs div BDEV_BLK_SIZE - SFS_NDIRECT) div PER_BLK)) g);
           g \<leftarrow> release_unlocked (inum_to_blk (i_inum (ino f a))) g;
           Some (ERR_NOMEM, 0, g)
         })
      })
   }"
  unfolding get_data_block_def using assms by (simp add: get_rf Let_def)

lemma get_data_found:
  assumes f: "fs_ready f" "file_ok f a" "locks (bl f) = {}" and ofs: "ofs < SFS_MAX_FILE_SIZE" and b: "node f a (pos (ofs div BDEV_BLK_SIZE)) = b" "b \<noteq> 0"
  shows "\<exists>g. get_data_block a ofs al f = Some (ERR_OK, b, lk b g) \<and> keeps 0 f g \<and> buf (bl g) = buf (bl f) \<and> ino g = ino f"
proof -
  let ?k = "ofs div BDEV_BLK_SIZE" and ?B = "inum_to_blk (i_inum (ino f a))"
  note rf = alike_simps [OF alike_lk(2) [of ?B f]]
  have sb: "sb_ok (sbi f)" "mem (bl f) = []" using f(1) by (auto simp: fs_ready_def)
  have k: "?k < 268" using ofs by (intro less_mult_imp_div_less) (simp add: SFS_MAX_FILE_SIZE_def)
  obtain g where g: "locate_block a ?k al (rf ?B f) = Some (ERR_OK, b, g)" "keeps 0 (rf ?B f) g" "buf (bl g) = buf (bl f)" "ino g = ino f"
    using locate_found [of "rf ?B f" ?k a al] f(1,3) k b by (auto simp: rf)
  have l: "mem (bl g) = []" "b \<notin> locks (bl g)" using keepsD [OF g(2)] f(3) sb(2) by auto
  obtain h where h: "release_unlocked ?B g = Some h" "keeps 0 f h" "buf (bl h) = buf (bl g)" "ino h = ino g" using release_rf [OF g(2)] by blast
  have "used f b" using file_okD(3) [OF f(2) pos_range [OF ofs]] b by simp
  then have "?B \<noteq> b" using inode_blk_other [OF sb(1) file_okD(1) [OF f(2)], of b] by (auto simp: used_def)
  then have "release_unlocked ?B (lk b g) = Some (lk b h)" using release_rf_comm h(1) by blast
  then have "get_data_block a ofs al f = Some (ERR_OK, b, lk b h)"
    using get_data_block_locate [OF sb(2) ofs, of a al] g(1) get_lk [OF l] b(2) by simp
  then show ?thesis using h g by auto
qed

lemma get_data_grown:
  assumes f: "fs_ready f" "file_ok f a" "locks (bl f) = {}" and ofs: "ofs < SFS_MAX_FILE_SIZE" and r: "room 6 f"
  shows "(\<exists>g. get_data_block a ofs True f = Some (ERR_OK, node g a (pos (ofs div BDEV_BLK_SIZE)), lk (node g a (pos (ofs div BDEV_BLK_SIZE))) g)
            \<and> ext 6 a f g \<and> node g a (pos (ofs div BDEV_BLK_SIZE)) \<noteq> 0)
     \<or> (\<exists>g. get_data_block a ofs True f = Some (ERR_NORES, 0, g) \<and> ext 6 a f g \<and> full g)"
proof -
  let ?k = "ofs div BDEV_BLK_SIZE" and ?B = "inum_to_blk (i_inum (ino f a))"
  note rf = alike_simps [OF alike_lk(2) [of ?B f]]
  have sb: "sb_ok (sbi f)" "mem (bl f) = []" using f(1) by (auto simp: fs_ready_def)
  have k: "?k < 268" using ofs by (intro less_mult_imp_div_less) (simp add: SFS_MAX_FILE_SIZE_def)
  obtain er b g where g: "locate_block a ?k True (rf ?B f) = Some (er, b, g)" "ext 6 a (rf ?B f) g"
      "er = ERR_OK \<and> b = node g a (pos ?k) \<and> b \<noteq> 0 \<or> er = ERR_NORES \<and> full g"
    using locate_grown [of "rf ?B f" a ?k] f k r unfolding grown_def by (auto simp: rf)
  note gr = growD [OF extD(1) [OF g(2)]]
  obtain h where h: "release_unlocked ?B g = Some h" "keeps 6 f h" "buf (bl h) = buf (bl g)" "ino h = ino g" using release_rf [OF gr(1)] by blast
  have al: "alike h g" using h keepsD [OF h(2)] keepsD [OF gr(1)] by (simp add: alike_def)
  have ext: "ext 6 a f h" by (rule ext_alike [OF g(2) _ al h(2)]) (simp add: alike_def)
  show ?thesis
  proof (cases "er = ERR_OK")
    case True
    then have b: "b = node h a (pos ?k)" "b \<noteq> 0" using g(3) alike_simps(1) [OF al] by auto
    have l: "mem (bl g) = []" "b \<notin> locks (bl g)" using keepsD [OF gr(1)] f(3) sb(2) by auto
    have "used g b" using file_okD(3) [OF gr(3) pos_range [OF ofs]] b alike_simps(1) [OF al] by simp
    then have "data_blk f b" using keepsD(3) [OF gr(1)] by (simp add: used_def data_blk_def)
    then have "?B \<noteq> b" using inode_blk_other [OF sb(1) file_okD(1) [OF f(2)], of b] by simp
    then have "release_unlocked ?B (lk b g) = Some (lk b h)" using release_rf_comm h(1) by blast
    then have "get_data_block a ofs True f = Some (ERR_OK, b, lk b h)"
      using get_data_block_locate [OF sb(2) ofs, of a True] g(1) get_lk [OF l] b(2) True by simp
    then show ?thesis using ext b by auto
  next
    case False
    then have "get_data_block a ofs True f = Some (ERR_NORES, 0, h)" "full h"
      using get_data_block_locate [OF sb(2) ofs, of a True] g(1,3) h(1) alike_simps [OF al] by (auto simp: full_def)
    then show ?thesis using ext by auto
  qed
qed

end
