(* ===== verification/Filedata.thy ===== *)
theory Filedata
  imports Files
begin

text \<open>
  The contents of a file of \<open>Sfs\<close> as a list of bytes: reading returns a part of the list, writing overwrites a part of it and
  changes no other file.
\<close>

section \<open>Reading\<close>

definition contents :: "fsst \<Rightarrow> nat \<Rightarrow> u8 list" where
  "contents f a = map (fbyte f a) [0..<i_size (ino f a)]"

text \<open>A file without holes, within the size limit.\<close>

definition dense :: "fsst \<Rightarrow> nat \<Rightarrow> bool" where
  "dense f a \<longleftrightarrow> i_size (ino f a) \<le> SFS_MAX_FILE_SIZE \<and> (\<forall>n<i_size (ino f a). node f a (pos (n div BDEV_BLK_SIZE)) \<noteq> 0)"

lemma same_block: "ofs mod BDEV_BLK_SIZE + i < BDEV_BLK_SIZE \<Longrightarrow> (ofs + i) div BDEV_BLK_SIZE = ofs div BDEV_BLK_SIZE \<and> (ofs + i) mod BDEV_BLK_SIZE = ofs mod BDEV_BLK_SIZE + i"
proof -
  assume "ofs mod BDEV_BLK_SIZE + i < BDEV_BLK_SIZE"
  moreover have "ofs + i = ofs div BDEV_BLK_SIZE * BDEV_BLK_SIZE + (ofs mod BDEV_BLK_SIZE + i)" by simp
  ultimately show ?thesis by (metis div_mult_self3 mod_mult_self3 div_less mod_less add.commute add_0_right zero_neq_numeral)
qed

lemma in_block: "ofs \<le> k \<Longrightarrow> k < ofs + n \<Longrightarrow> ofs mod BDEV_BLK_SIZE + n \<le> BDEV_BLK_SIZE \<Longrightarrow> k div BDEV_BLK_SIZE = ofs div BDEV_BLK_SIZE"
  using same_block [of ofs "k - ofs"] by simp

lemma block_bytes:
  assumes "node f a (pos (ofs div BDEV_BLK_SIZE)) = b" "b \<noteq> 0" "length (buf (bl f) b) = BDEV_BLK_SIZE" "ofs mod BDEV_BLK_SIZE + s \<le> BDEV_BLK_SIZE"
  shows "take s (drop (ofs mod BDEV_BLK_SIZE) (buf (bl f) b)) = map (fbyte f a) [ofs..<ofs + s]"
proof (rule nth_equalityI)
  fix i assume "i < length (take s (drop (ofs mod BDEV_BLK_SIZE) (buf (bl f) b)))"
  then have i: "i < s" "ofs mod BDEV_BLK_SIZE + i < BDEV_BLK_SIZE" using assms(3) by auto
  then show "take s (drop (ofs mod BDEV_BLK_SIZE) (buf (bl f) b)) ! i = map (fbyte f a) [ofs..<ofs + s] ! i"
    using same_block [OF i(2)] assms by (simp add: fbyte_def)
qed (use assms in simp)

lemma upt_split: "i \<le> j \<Longrightarrow> j \<le> k \<Longrightarrow> [i..<j] @ [j..<k] = [i..<k]"
  by (metis le_add_diff_inverse upt_add_eq_append)

lemma take_upt_min: "take n [i..<z] = [i..<min (i + n) z]"
  by (cases "i + n \<le> z") auto

lemma read_loop_ok:
  "\<lbrakk>fs_ready f; file_ok f a; locks (bl f) = {}; dense f a\<rbrakk> \<Longrightarrow>
   \<exists>g. read_loop a n ofs f = Some (map (fbyte f a) [ofs..<min (ofs + n) (i_size (ino f a))], g) \<and> keeps 0 f g \<and> buf (bl g) = buf (bl f) \<and> ino g = ino f"
proof (induction n arbitrary: ofs f rule: less_induct)
  case (less n)
  let ?z = "i_size (ino f a)"
  show ?case
  proof (cases "n > 0 \<and> ofs < ?z")
    case False
    then show ?thesis by (subst read_loop.simps) auto
  next
    case True
    let ?o = "ofs mod BDEV_BLK_SIZE" and ?b = "node f a (pos (ofs div BDEV_BLK_SIZE))"
    define s where "s = min (min (BDEV_BLK_SIZE - ?o) n) (?z - ofs)"
    have ofs: "ofs < SFS_MAX_FILE_SIZE" "?b \<noteq> 0" using True less.prems(4) by (auto simp: dense_def)
    obtain g where g: "get_data_block a ofs False f = Some (ERR_OK, ?b, lk ?b g)" "keeps 0 f g" "buf (bl g) = buf (bl f)" "ino g = ino f"
      using get_data_found [OF less.prems(1-3) ofs(1) refl ofs(2), of False] by blast
    have bl: "?b \<notin> locks (bl g)" using keepsD(1) [OF g(2)] less.prems(3) by simp
    obtain h where h: "release_blk ?b (lk ?b g) = Some h" "keeps 0 g h" "buf (bl h) = buf (bl g)" "ino h = ino g"
      using release_lk [of 0 ?b g "lk ?b g"] bl by auto
    have k: "keeps 0 f h" using keeps_trans [OF g(2) h(2)] by simp
    have "alike h f" using g(3,4) h(3,4) keepsD [OF k] by (simp add: alike_def)
    note al = alike_simps [OF this]
    have s: "0 < s" "n - s < n" "?o + s \<le> BDEV_BLK_SIZE" "ofs + s \<le> ?z" "s \<le> n" using True by (auto simp: s_def)
    have ih: "ino h a = ino f a" using g(4) h(4) by simp
    obtain g' where g': "read_loop a (n - s) (ofs + s) h = Some (map (fbyte f a) [ofs + s..<min (ofs + s + (n - s)) ?z], g')"
        "keeps 0 h g'" "buf (bl g') = buf (bl h)" "ino g' = ino h"
      using less.IH [OF s(2), of h "ofs + s"] less.prems keepsD [OF k] al ih by (auto simp: dense_def)
    have "take s (drop ?o (buf (bl f) ?b)) = map (fbyte f a) [ofs..<ofs + s]"
      using less.prems(1) ofs(2) s(3) by (intro block_bytes) (auto simp: fs_ready_def)
    moreover have "[ofs..<ofs + s] @ [ofs + s..<min (ofs + s + (n - s)) ?z] = [ofs..<min (ofs + n) ?z]"
      using s upt_split [of ofs "ofs + s" "min (ofs + n) ?z"] by simp
    then have "map (fbyte f a) [ofs..<ofs + s] @ map (fbyte f a) [ofs + s..<min (ofs + s + (n - s)) ?z] = map (fbyte f a) [ofs..<min (ofs + n) ?z]"
      by (metis map_append)
    ultimately have "read_loop a n ofs f = Some (map (fbyte f a) [ofs..<min (ofs + n) ?z], g')"
      using True g(1,3,4) h(1) g'(1) by (subst read_loop.simps) (simp add: Let_def s_def [symmetric])
    then show ?thesis using keeps_trans [OF k g'(2)] g g' h by auto
  qed
qed

lemma read_data_ok:
  assumes "fs_ready f" "file_ok f a" "locks (bl f) = {}" "dense f a"
  shows "\<exists>g. read_data a n ofs f = Some (take n (drop ofs (contents f a)), g) \<and> keeps 0 f g \<and> buf (bl g) = buf (bl f) \<and> ino g = ino f"
proof -
  have "take n (drop ofs (contents f a)) = map (fbyte f a) [ofs..<min (ofs + n) (i_size (ino f a))]"
    by (simp add: contents_def take_map drop_map take_upt_min)
  then show ?thesis using read_loop_ok [OF assms, of n ofs] by (simp add: read_data_def)
qed

section \<open>Writing\<close>

text \<open>A change in a data block of the file.\<close>

lemma change_data:
  assumes g: "fs_ready g" "file_ok g a" "b \<notin> locks (bl g)" and p: "p < NODES" "p \<noteq> 12" "p \<noteq> 13" and b: "node g a p = b" "b \<noteq> 0"
    and H: "length (H (buf (bl g) b)) = BDEV_BLK_SIZE" and r: "room 1 g"
  shows "\<exists>x h. change_blk b H (lk b g) = Some x \<and> release_blk b x = Some h \<and> grow 1 a g h \<and> buf (bl h) = (buf (bl g))(b := H (buf (bl g) b)) \<and> ino h = ino g
     \<and> (\<forall>q<NODES. node h a q = node g a q)"
proof -
  note fo = file_okD [OF g(2)]
  have sb: "sb_ok (sbi g)" using g(1) by (simp add: fs_ready_def)
  have ub: "used g b" using fo(3) [of p] p(1) b by simp
  obtain x where x: "change_blk b H (lk b g) = Some x" "keeps 1 (lk b g) x" "buf (bl x) = (buf (bl g))(b := H (buf (bl g) b))" "ino x = ino g"
    using change_ok [of "lk b g" b H] r by auto
  obtain h where h: "release_blk b x = Some h" "keeps 1 g h" "buf (bl h) = buf (bl x)" "ino h = ino x" using release_lk [OF x(2) g(3)] by blast
  have s: "sbi h = sbi g" by (rule keepsD(3) [OF h(2)])
  have u: "used h c = used g c" for c
  proof (cases "data_blk g c")
    case True
    then have "bmap_of g c \<noteq> b" using bmap_not_data [OF sb True, of b] ub by (simp add: used_def)
    then show ?thesis by (simp add: used_def data_blk_def bmap_of_def s h(3) x(3))
  qed (auto simp: used_def data_blk_def s)
  have nd: "node h a q = node g a q" if q: "q < NODES" for q
  proof (cases "q < 14")
    case True
    then show ?thesis by (simp add: node_def h(4) x(4))
  next
    case False
    let ?j = "12 + (q - 14) div 128"
    have "(q - 14) div 128 < 2" using q by (intro less_mult_imp_div_less) simp
    then have j: "?j < 14" "?j = 12 \<or> ?j = 13" by auto
    have "i_addrs (ino g a) ! ?j \<noteq> b" if "i_addrs (ino g a) ! ?j \<noteq> 0" using fo(4) [of ?j p] that j p b by (auto simp: node_def)
    then show ?thesis using False by (simp add: node_def h(3,4) x(3,4) Let_def)
  qed
  have "fs_ready h" using g(1) H keepsD [OF h(2)] by (simp add: fs_ready_def h(3) x(3))
  moreover have "file_ok h a" using g(2) nd u s by (simp add: file_ok_def h(4) x(4) inum_ok_def)
  moreover have "b \<in> owned g a" using p(1) b by (auto simp: owned_def)
  ultimately have "grow 1 a g h"
    unfolding grow_def using h x nd u by (intro conjI allI impI exI [of _ "i_addrs (ino g a)"] exI [of _ "i_dirty (ino g a)"]) auto
  then show ?thesis using x(1) h(1) h(3,4) x(3,4) nd by auto
qed

definition wrote :: "nat \<Rightarrow> nat \<Rightarrow> nat \<Rightarrow> u8 list \<Rightarrow> fsst \<Rightarrow> fsst \<Rightarrow> bool" where
  "wrote n a ofs xs f g \<longleftrightarrow> grow n a f g
     \<and> (\<forall>k<SFS_MAX_FILE_SIZE. fbyte g a k = (if ofs \<le> k \<and> k < ofs + length xs then xs ! (k - ofs) else fbyte f a k))
     \<and> (\<forall>k. ofs \<le> k \<and> k < ofs + length xs \<longrightarrow> node g a (pos (k div BDEV_BLK_SIZE)) \<noteq> 0)"

lemma ext_wrote: "ext n a f g \<Longrightarrow> wrote n a ofs [] f g"
  by (auto simp: ext_def wrote_def)

lemma wrote_trans:
  assumes fg: "wrote n a ofs xs f g" and gh: "wrote m a (ofs + length xs) ys g h" and max: "ofs + length xs \<le> SFS_MAX_FILE_SIZE"
  shows "wrote (n + m) a ofs (xs @ ys) f h"
proof -
  have "grow (n + m) a f h" using fg gh by (auto simp: wrote_def intro: grow_trans)
  moreover have "fbyte h a k = (if ofs \<le> k \<and> k < ofs + length (xs @ ys) then (xs @ ys) ! (k - ofs) else fbyte f a k)" if "k < SFS_MAX_FILE_SIZE" for k
    using fg gh that by (auto simp: wrote_def nth_append)
  moreover have "node h a (pos (k div BDEV_BLK_SIZE)) \<noteq> 0" if k: "ofs \<le> k" "k < ofs + length (xs @ ys)" for k
  proof (cases "k < ofs + length xs")
    case True
    then have "node g a (pos (k div BDEV_BLK_SIZE)) \<noteq> 0" using fg k by (simp add: wrote_def)
    moreover have "pos (k div BDEV_BLK_SIZE) < NODES" using True max by (intro pos_range) simp
    ultimately show ?thesis using growD(5) [of m a g h] gh by (simp add: wrote_def)
  qed (use gh k in \<open>simp add: wrote_def\<close>)
  ultimately show ?thesis by (simp add: wrote_def)
qed

text \<open>Bytes stored in a block of the file that is held.\<close>

lemma put_step:
  assumes g: "fs_ready g" "file_ok g a" "b \<notin> locks (bl g)" and r: "room 1 g" and b: "node g a (pos (ofs div BDEV_BLK_SIZE)) = b" "b \<noteq> 0"
    and xs: "ofs mod BDEV_BLK_SIZE + length xs \<le> BDEV_BLK_SIZE" "ofs < SFS_MAX_FILE_SIZE"
  shows "\<exists>x h. change_blk b (put_bytes (ofs mod BDEV_BLK_SIZE) xs) (lk b g) = Some x \<and> release_blk b x = Some h \<and> wrote 1 a ofs xs g h \<and> ino h = ino g"
proof -
  let ?p = "pos (ofs div BDEV_BLK_SIZE)" and ?o = "ofs mod BDEV_BLK_SIZE"
  have p: "?p < NODES" by (rule pos_range [OF xs(2)])
  have lb: "length (buf (bl g) b) = 512" using g(1) by (simp add: fs_ready_def)
  have "length (put_bytes ?o xs (buf (bl g) b)) = 512" using lb xs by (simp add: length_put_bytes)
  then obtain x h where h: "change_blk b (put_bytes ?o xs) (lk b g) = Some x" "release_blk b x = Some h" "grow 1 a g h"
      "buf (bl h) = (buf (bl g))(b := put_bytes ?o xs (buf (bl g) b))" "ino h = ino g" "\<forall>q<NODES. node h a q = node g a q"
    using change_data [OF g p pos_data b _ r, of "put_bytes ?o xs"] by auto
  have "fbyte h a k = (if ofs \<le> k \<and> k < ofs + length xs then xs ! (k - ofs) else fbyte g a k)" if k: "k < SFS_MAX_FILE_SIZE" for k
  proof -
    let ?q = "pos (k div BDEV_BLK_SIZE)"
    have q: "?q < NODES" by (rule pos_range [OF k])
    show ?thesis
    proof (cases "k div BDEV_BLK_SIZE = ofs div BDEV_BLK_SIZE")
      case True
      then have "k = ofs div BDEV_BLK_SIZE * BDEV_BLK_SIZE + k mod BDEV_BLK_SIZE" "ofs = ofs div BDEV_BLK_SIZE * BDEV_BLK_SIZE + ?o" by (metis div_mult_mod_eq)+
      then have e: "ofs \<le> k \<longleftrightarrow> ?o \<le> k mod BDEV_BLK_SIZE" "k < ofs + length xs \<longleftrightarrow> k mod BDEV_BLK_SIZE < ?o + length xs" "k - ofs = k mod BDEV_BLK_SIZE - ?o" by linarith+
      have "fbyte h a k = put_bytes ?o xs (buf (bl g) b) ! (k mod BDEV_BLK_SIZE)" using h(4,6) q True b by (simp add: fbyte_def)
      also have "\<dots> = (if ofs \<le> k \<and> k < ofs + length xs then xs ! (k - ofs) else buf (bl g) b ! (k mod BDEV_BLK_SIZE))"
        unfolding e using lb xs by (intro nth_put_bytes) auto
      finally show ?thesis using True b by (simp add: fbyte_def)
    next
      case False
      then have "\<not> (ofs \<le> k \<and> k < ofs + length xs)" using in_block [of ofs k "length xs"] xs(1) by blast
      moreover have "node g a ?q \<noteq> 0 \<Longrightarrow> node g a ?q \<noteq> b" using file_okD(4) [OF g(2) q p] False pos_inj b by auto
      then have "fbyte h a k = fbyte g a k" using h(4,6) q by (simp add: fbyte_def Let_def)
      ultimately show ?thesis by auto
    qed
  qed
  moreover have "node h a (pos (k div BDEV_BLK_SIZE)) \<noteq> 0" if "ofs \<le> k" "k < ofs + length xs" for k
    using in_block [OF that xs(1)] h(6) p b by auto
  ultimately show ?thesis using h(1-3,5) by (auto simp: wrote_def)
qed

text \<open>One block of the loop.\<close>

lemma write_step:
  assumes f: "fs_ready f" "file_ok f a" "locks (bl f) = {}" and ofs: "ofs < SFS_MAX_FILE_SIZE" and r: "room 7 f"
    and xs: "ofs mod BDEV_BLK_SIZE + length xs \<le> BDEV_BLK_SIZE"
  shows "(\<exists>b g x h. get_data_block a ofs True f = Some (ERR_OK, b, g) \<and> change_blk b (put_bytes (ofs mod BDEV_BLK_SIZE) xs) g = Some x \<and> release_blk b x = Some h
            \<and> wrote 7 a ofs xs f h)
     \<or> (\<exists>g. get_data_block a ofs True f = Some (ERR_NORES, 0, g) \<and> wrote 7 a ofs [] f g \<and> full g)"
proof -
  let ?p = "pos (ofs div BDEV_BLK_SIZE)" and ?o = "ofs mod BDEV_BLK_SIZE"
  from get_data_grown [OF f ofs room_mono [OF r, of 6]] consider
      g where "get_data_block a ofs True f = Some (ERR_OK, node g a ?p, lk (node g a ?p) g)" "ext 6 a f g" "node g a ?p \<noteq> 0"
    | g where "get_data_block a ofs True f = Some (ERR_NORES, 0, g)" "ext 6 a f g" "full g" by auto
  then show ?thesis
  proof cases
    case 1
    let ?b = "node g a ?p"
    note gr = growD [OF extD(1) [OF 1(2)]]
    have l: "?b \<notin> locks (bl g)" using keepsD(1) [OF gr(1)] f(3) by simp
    obtain x h where h: "change_blk ?b (put_bytes ?o xs) (lk ?b g) = Some x" "release_blk ?b x = Some h" "wrote 1 a ofs xs g h"
      using put_step [OF gr(2,3) l _ refl 1(3) xs ofs] room_keeps [OF r gr(1), of 1] by auto
    have "wrote 7 a ofs xs f h" using wrote_trans [OF ext_wrote [OF 1(2), of ofs], of 1 xs h] h(3) ofs by simp
    then show ?thesis using 1(1) h(1,2) by blast
  next
    case 2
    then show ?thesis using ext_wrote [OF ext_mono [OF 2(2), of 7]] by auto
  qed
qed

text \<open>The number of blocks that a range of bytes touches; at most 7 blocks are logged for each.\<close>

definition nblks :: "nat \<Rightarrow> nat \<Rightarrow> nat" where
  "nblks ofs n = (if n = 0 then 0 else (ofs mod BDEV_BLK_SIZE + n + (BDEV_BLK_SIZE - 1)) div BDEV_BLK_SIZE)"

lemma nblks_step:
  assumes "0 < n" "s = min (BDEV_BLK_SIZE - ofs mod BDEV_BLK_SIZE) n"
  shows "nblks ofs n = 1 + nblks (ofs + s) (n - s)"
proof (cases "ofs mod BDEV_BLK_SIZE + n \<le> BDEV_BLK_SIZE")
  case True
  then have "(ofs mod BDEV_BLK_SIZE + n + 511) div BDEV_BLK_SIZE = 1" using assms(1) by (intro div_nat_eqI) auto
  then show ?thesis using True assms by (simp add: nblks_def)
next
  case False
  let ?o = "ofs mod BDEV_BLK_SIZE"
  have o: "?o < BDEV_BLK_SIZE" by simp
  then have s: "s = BDEV_BLK_SIZE - ?o" "0 < n - s" "?o + n + 511 = BDEV_BLK_SIZE + (n - s + 511)" using False assms(2) by linarith+
  have "ofs + s = (ofs div BDEV_BLK_SIZE + 1) * BDEV_BLK_SIZE" 
  proof -
    have "s + ?o = BDEV_BLK_SIZE" using s(1) o by simp
    moreover have "ofs + s = ofs div BDEV_BLK_SIZE * BDEV_BLK_SIZE + (s + ?o)" by (metis add.assoc add.commute div_mult_mod_eq)
    ultimately show ?thesis by simp
  qed
  then have "(ofs + s) mod BDEV_BLK_SIZE = 0" by (metis mod_mult_self2_is_0)
  moreover have "(?o + n + 511) div BDEV_BLK_SIZE = 1 + (n - s + 511) div BDEV_BLK_SIZE" unfolding s(3) by simp
  ultimately show ?thesis using s(2) assms(1) by (simp add: nblks_def)
qed

lemma write_loop_ok:
  "\<lbrakk>fs_ready f; file_ok f a; locks (bl f) = {}; ofs + length bs \<le> SFS_MAX_FILE_SIZE; room (7 * nblks ofs (length bs)) f\<rbrakk> \<Longrightarrow>
   \<exists>m g. write_loop a bs tot ofs f = Some (tot + m, ofs + m, g) \<and> m \<le> length bs \<and> (m < length bs \<longrightarrow> full g)
     \<and> wrote (7 * nblks ofs (length bs)) a ofs (take m bs) f g"
proof (induction "length bs" arbitrary: bs tot ofs f rule: less_induct)
  case less
  show ?case
  proof (cases "bs = []")
    case True
    then show ?thesis using ext_wrote [OF ext_refl [OF less.prems(1,2)]] by (subst write_loop.simps) auto
  next
    case False
    define s where "s = min (BDEV_BLK_SIZE - ofs mod BDEV_BLK_SIZE) (length bs)"
    have s: "0 < s" "s \<le> length bs" "ofs mod BDEV_BLK_SIZE + s \<le> BDEV_BLK_SIZE" using False by (auto simp: s_def)
    have n: "nblks ofs (length bs) = 1 + nblks (ofs + s) (length (drop s bs))" using nblks_step [of "length bs" s ofs] False by (simp add: s_def)
    have r7: "room 7 f" using room_mono [OF less.prems(5)] n by simp
    have t: "length (take s bs) = s" using s by auto
    have "ofs < SFS_MAX_FILE_SIZE" using less.prems(4) s t by auto
    from write_step [OF less.prems(1-3) this r7, of "take s bs"] s(3) t consider
        b g x h where "get_data_block a ofs True f = Some (ERR_OK, b, g)" "change_blk b (put_bytes (ofs mod BDEV_BLK_SIZE) (take s bs)) g = Some x"
          "release_blk b x = Some h" "wrote 7 a ofs (take s bs) f h"
      | g where "get_data_block a ofs True f = Some (ERR_NORES, 0, g)" "wrote 7 a ofs [] f g" "full g" by auto
    then show ?thesis
    proof cases
      case 1
      have g: "grow 7 a f h" using 1(4) by (simp add: wrote_def)
      have "room (7 * nblks (ofs + s) (length (drop s bs))) h" using room_keeps [OF less.prems(5) growD(1) [OF g]] n by simp
      moreover have "locks (bl h) = {}" using keepsD(1) [OF growD(1) [OF g]] less.prems(3) by simp
      moreover have "length (drop s bs) < length bs" "ofs + s + length (drop s bs) \<le> SFS_MAX_FILE_SIZE" using s less.prems(4) by auto
      ultimately obtain m g' where g': "write_loop a (drop s bs) (tot + s) (ofs + s) h = Some (tot + s + m, ofs + s + m, g')" "m \<le> length (drop s bs)"
          "m < length (drop s bs) \<longrightarrow> full g'" "wrote (7 * nblks (ofs + s) (length (drop s bs))) a (ofs + s) (take m (drop s bs)) h g'"
        using less.hyps [of "drop s bs" h "ofs + s" "tot + s"] growD(2,3) [OF g] by blast
      have "write_loop a bs tot ofs f = Some (tot + (s + m), ofs + (s + m), g')"
        using False 1(1-3) g'(1) by (subst write_loop.simps) (simp add: s_def [symmetric] Let_def add.assoc)
      moreover have "wrote (7 * nblks ofs (length bs)) a ofs (take (s + m) bs) f g'"
        using wrote_trans [OF 1(4), of "7 * nblks (ofs + s) (length (drop s bs))" "take m (drop s bs)" g'] g'(4) t n less.prems(4) s(2) by (simp add: take_add)
      ultimately show ?thesis using g'(2,3) s(2) by (intro exI [of _ "s + m"] exI [of _ g']) auto
    next
      case 2
      then have "write_loop a bs tot ofs f = Some (tot + 0, ofs + 0, g)" using False by (subst write_loop.simps) simp
      moreover have "wrote (7 * nblks ofs (length bs)) a ofs [] f g" using 2(2) n keeps_mono [of 7 f g] by (simp add: wrote_def grow_def)
      ultimately show ?thesis using 2(3) by (intro exI [of _ 0] exI [of _ g]) simp
    qed
  qed
qed

section \<open>A set of files\<close>

text \<open>The files \<open>S\<close> of a file system: no two of them share a block.\<close>

definition files_ok :: "fsst \<Rightarrow> nat set \<Rightarrow> bool" where
  "files_ok f S \<longleftrightarrow> fs_ready f \<and> locks (bl f) = {} \<and> (\<forall>x\<in>S. file_ok f x \<and> dense f x)
     \<and> (\<forall>x\<in>S. \<forall>y\<in>S. x \<noteq> y \<longrightarrow> owned f x \<inter> owned f y = {})"

text \<open>Writing the bytes \<open>xs\<close> at an offset of a file.\<close>

definition overwrite :: "nat \<Rightarrow> 'a list \<Rightarrow> 'a list \<Rightarrow> 'a list" where
  "overwrite ofs xs c = take ofs c @ xs @ drop (ofs + length xs) c"

lemma fbyte_cong: "node g x (pos (k div BDEV_BLK_SIZE)) = node f x (pos (k div BDEV_BLK_SIZE)) \<Longrightarrow>
    (node f x (pos (k div BDEV_BLK_SIZE)) \<noteq> 0 \<Longrightarrow> buf (bl g) (node f x (pos (k div BDEV_BLK_SIZE))) = buf (bl f) (node f x (pos (k div BDEV_BLK_SIZE)))) \<Longrightarrow>
    fbyte g x k = fbyte f x k"
  by (simp add: fbyte_def Let_def)

text \<open>What a file is depends only on its inode, its blocks and their bits in the bitmap.\<close>

lemma owned_node: "p < NODES \<Longrightarrow> node f x p \<noteq> 0 \<Longrightarrow> node f x p \<in> owned f x"
  by (auto simp: owned_def)

lemma node_cong:
  assumes fo: "file_ok f x" and i: "i_addrs (ino g x) = i_addrs (ino f x)" and b: "\<And>c. c \<in> owned f x \<Longrightarrow> buf (bl g) c = buf (bl f) c" and p: "p < NODES"
  shows "node g x p = node f x p"
proof (cases "p < 14")
  case False
  let ?j = "12 + (p - 14) div 128"
  have "?j < 14" using p False by (auto simp: less_mult_imp_div_less)
  then have "buf (bl g) (i_addrs (ino f x) ! ?j) = buf (bl f) (i_addrs (ino f x) ! ?j)" if "i_addrs (ino f x) ! ?j \<noteq> 0"
    using b [OF owned_node, of ?j] that by (simp add: node_def)
  then show ?thesis using False i by (simp add: node_def Let_def)
qed (simp add: node_def i)

lemma file_cong:
  assumes fo: "file_ok f x" and i: "i_addrs (ino g x) = i_addrs (ino f x)" "i_inum (ino g x) = i_inum (ino f x)" and s: "sbi g = sbi f"
    and b: "\<And>c. c \<in> owned f x \<Longrightarrow> buf (bl g) c = buf (bl f) c" and u: "\<And>c. used f c \<Longrightarrow> used g c"
  shows "file_ok g x" "owned g x = owned f x" "k < SFS_MAX_FILE_SIZE \<Longrightarrow> fbyte g x k = fbyte f x k"
proof -
  note n = node_cong [OF fo i(1) b]
  show "file_ok g x" using fo i s u by (simp add: file_ok_def inum_ok_def n)
  have "{node g x p |p. p < NODES} = {node f x p |p. p < NODES}" using n by (intro Collect_cong) metis
  then show "owned g x = owned f x" by (simp only: owned_def)
  assume "k < SFS_MAX_FILE_SIZE"
  note p = pos_range [OF this]
  show "fbyte g x k = fbyte f x k" using b [OF owned_node] p by (intro fbyte_cong n) auto
qed

lemma same_contents:
  assumes "i_size (ino g x) = i_size (ino f x)" "i_size (ino f x) \<le> SFS_MAX_FILE_SIZE" "\<And>k. k < SFS_MAX_FILE_SIZE \<Longrightarrow> fbyte g x k = fbyte f x k"
  shows "contents g x = contents f x"
  using assms by (simp add: contents_def)

lemma dense_cong: "dense f x \<Longrightarrow> i_size (ino g x) = i_size (ino f x) \<Longrightarrow> (\<And>p. p < NODES \<Longrightarrow> node g x p = node f x p) \<Longrightarrow> dense g x"
  using pos_range by (simp add: dense_def)

text \<open>A file that shares no block with a growing file.\<close>

lemma grow_other:
  assumes g: "grow n a f g" and x: "x \<noteq> a" "file_ok f x" "dense f x" and o: "owned f x \<inter> owned f a = {}"
  shows "file_ok g x" "dense g x" "contents g x = contents f x" "owned g x = owned f x" "owned g x \<inter> owned g a = {}"
proof -
  have i: "ino g x = ino f x" using g x(1) by (simp add: grow_def)
  have b: "buf (bl g) c = buf (bl f) c" if "c \<in> owned f x" for c
    using g owned_used [OF x(2) that] that o unfolding grow_def by blast
  have u: "used f c \<Longrightarrow> used g c" for c using g by (simp add: grow_def)
  note fc = file_cong [OF x(2) _ _ keepsD(3) [OF growD(1) [OF g]] b u]
  show "file_ok g x" by (rule fc) (simp_all add: i)
  show ow: "owned g x = owned f x" by (rule fc) (simp_all add: i)
  show "contents g x = contents f x" using fc(3) i x(3) by (intro same_contents) (simp_all add: dense_def)
  show "dense g x" using node_cong [OF x(2) _ b] i by (intro dense_cong [OF x(3)]) simp_all
  have "c \<in> owned f a \<or> \<not> used f c" if "c \<in> owned g a" for c using g that unfolding grow_def owned_def by fastforce
  then show "owned g x \<inter> owned g a = {}" using ow o owned_used [OF x(2)] by blast
qed

lemma grow_files:
  assumes g: "grow n a f g" and f: "files_ok f S" "a \<in> S" and d: "dense g a"
  shows "files_ok g S" "\<forall>x\<in>S - {a}. contents g x = contents f x"
proof -
  have fx: "file_ok f x" "dense f x" "owned f x \<inter> owned f a = {}" if "x \<in> S - {a}" for x using f that by (auto simp: files_ok_def)
  note ot = grow_other [OF g _ fx]
  have a: "owned g x \<inter> owned g a = {}" "owned g a \<inter> owned g x = {}" if "x \<in> S - {a}" for x using ot(5) [of x] that by auto
  have "owned g x \<inter> owned g y = {}" if xy: "x \<in> S" "y \<in> S" "x \<noteq> y" for x y
  proof (cases "x = a \<or> y = a")
    case False
    then have "owned g x = owned f x" "owned g y = owned f y" using ot(4) xy by auto
    then show ?thesis using f(1) xy by (simp add: files_ok_def)
  qed (use a xy in auto)
  moreover have "file_ok g x \<and> dense g x" if "x \<in> S" for x using ot(1,2) [of x] that growD(3) [OF g] d by (cases "x = a") auto
  moreover have "locks (bl g) = {}" using keepsD(1) [OF growD(1) [OF g]] f(1) by (simp add: files_ok_def)
  ultimately show "files_ok g S" using growD(2) [OF g] by (simp add: files_ok_def)
  show "\<forall>x\<in>S - {a}. contents g x = contents f x" using ot(3) by auto
qed

lemma inode_blk_used:
  assumes "sb_ok (sbi f)" "inum_ok f m" "sbi g = sbi f" "buf (bl g) = (buf (bl f))(inum_to_blk m := d)" "used f c"
  shows "used g c"
  using assms inode_blk_other [OF assms(1,2), of c] by (simp add: used_def data_blk_def bmap_of_def)

text \<open>Writing back an inode changes no file, apart from the size that it records.\<close>

lemma resize_files:
  assumes f: "files_ok f S" "a \<in> S" "fs_ready g" "keeps n f g" and n: "inum_ok f m"
    and i: "ino g = (ino f)(a := (ino f a)\<lparr>i_size := sz, i_dirty := dt\<rparr>)" and b: "buf (bl g) = (buf (bl f))(inum_to_blk m := d)"
    and sz: "sz \<le> SFS_MAX_FILE_SIZE" "\<And>k. k < sz \<Longrightarrow> node f a (pos (k div BDEV_BLK_SIZE)) \<noteq> 0"
  shows "files_ok g S" "contents g a = map (fbyte f a) [0..<sz]" "\<forall>x\<in>S - {a}. contents g x = contents f x"
proof -
  have sb: "sb_ok (sbi f)" "sbi g = sbi f" using f(1) keepsD(3) [OF f(4)] by (auto simp: files_ok_def fs_ready_def)
  have nb: "inum_to_blk m \<noteq> c" if "used f c" for c using inode_blk_other [OF sb(1) n, of c] that by (simp add: used_def)
  note u = inode_blk_used [OF sb(1) n sb(2) b]
  have fx: "file_ok f x" "dense f x" if "x \<in> S" for x using f(1) that by (auto simp: files_ok_def)
  have bx: "buf (bl g) c = buf (bl f) c" if "x \<in> S" "c \<in> owned f x" for x c using nb [of c] owned_used [OF fx(1) that(2)] that b by auto
  have ad: "i_addrs (ino g x) = i_addrs (ino f x)" "i_inum (ino g x) = i_inum (ino f x)" for x by (simp_all add: i)
  note fc = file_cong [OF fx(1) ad sb(2) bx u]
  note nd = node_cong [OF fx(1) ad(1) bx]
  have dn: "dense g x" if "x \<in> S" for x
  proof (cases "x = a")
    case True
    then show ?thesis using sz nd [OF that that] pos_range by (auto simp: dense_def i)
  qed (use fx(2) [OF that] nd [OF that that] in \<open>auto intro: dense_cong simp: i\<close>)
  show "files_ok g S" using f(1,3) fc(1,2) dn keepsD(1) [OF f(4)] by (simp add: files_ok_def)
  show "contents g a = map (fbyte f a) [0..<sz]" using fc(3) [OF f(2) f(2)] sz(1) by (simp add: contents_def i)
  show "\<forall>x\<in>S - {a}. contents g x = contents f x" using fc(3) fx(2) by (auto simp: i dense_def intro!: same_contents)
qed

lemma overwrite_map:
  assumes "ofs \<le> n" "\<And>k. k < max n (ofs + length xs) \<Longrightarrow> G k = (if ofs \<le> k \<and> k < ofs + length xs then xs ! (k - ofs) else F k)"
  shows "map G [0..<max n (ofs + length xs)] = overwrite ofs xs (map F [0..<n])"
  using assms by (intro nth_equalityI) (auto simp: overwrite_def nth_append min_def max_def split: if_splits)

lemma wrote_nodes:
  assumes w: "wrote n a ofs xs f g" and d: "dense f a" "ofs \<le> i_size (ino f a)" and k: "k < max (i_size (ino f a)) (ofs + length xs)"
  shows "node g a (pos (k div BDEV_BLK_SIZE)) \<noteq> 0"
proof (cases "k < i_size (ino f a)")
  case True
  then have "k < SFS_MAX_FILE_SIZE" "node f a (pos (k div BDEV_BLK_SIZE)) \<noteq> 0" using d(1) by (auto simp: dense_def)
  then show ?thesis using growD(5) [of n a f g] w pos_range [of k] by (simp add: wrote_def)
qed (use w d(2) k in \<open>auto simp: wrote_def\<close>)

lemma set_size_ok:
  assumes f: "files_ok g S" "a \<in> S" "room 1 g" and sz: "sz \<le> SFS_MAX_FILE_SIZE" "\<And>k. k < sz \<Longrightarrow> node g a (pos (k div BDEV_BLK_SIZE)) \<noteq> 0"
  shows "\<exists>h. sfs_write_inode a (set_ino a (\<lambda>i. i\<lparr>i_size := sz, i_dirty := True\<rparr>) g) = Some (ERR_OK, h) \<and> keeps 1 g h \<and> files_ok h S
     \<and> (full g \<longrightarrow> full h) \<and> contents h a = map (fbyte g a) [0..<sz] \<and> (\<forall>x\<in>S - {a}. contents h x = contents g x)"
proof -
  let ?g = "set_ino a (\<lambda>i. i\<lparr>i_size := sz, i_dirty := True\<rparr>) g"
  have fo: "fs_ready g" "locks (bl g) = {}" "file_ok g a" using f(1,2) by (auto simp: files_ok_def)
  note ok = file_okD [OF fo(3)]
  have "room 1 ?g" using f(3) by (simp add: room_def set_ino_def)
  then obtain h d where h: "sfs_write_inode a ?g = Some (ERR_OK, h)" "keeps 1 ?g h" "fs_ready h"
      "ino h = (ino g)(a := (ino g a)\<lparr>i_size := sz, i_dirty := False\<rparr>)" "buf (bl h) = (buf (bl g))(inum_to_blk (i_inum (ino g a)) := d)"
    using write_inode_ok [of ?g a] fo ok(1,2) by (auto simp: set_ino_def fs_ready_def inum_ok_def)
  have k: "keeps 1 g h" using h(2) by (simp add: keeps_def set_ino_def)
  have "full h" if "full g"
    using that inode_blk_used [OF _ ok(1) keepsD(3) [OF k] h(5)] fo(1) keepsD(3) [OF k] by (simp add: full_def fs_ready_def data_blk_def)
  then show ?thesis using resize_files [OF f(1,2) h(3) k ok(1) h(4,5) sz] h(1) k by blast
qed

lemma write_data_ok:
  assumes f: "files_ok f S" "a \<in> S" and o: "ofs \<le> i_size (ino f a)" "ofs + length bs \<le> SFS_MAX_FILE_SIZE" and r: "room (7 * nblks ofs (length bs) + 1) f"
  shows "\<exists>m g. write_data a bs ofs f = Some (m, g) \<and> m \<le> length bs \<and> (m < length bs \<longrightarrow> full g) \<and> files_ok g S \<and> keeps (7 * nblks ofs (length bs) + 1) f g
     \<and> (\<forall>x\<in>S. contents g x = (if x = a then overwrite ofs (take m bs) (contents f a) else contents f x))"
proof -
  have fo: "fs_ready f" "file_ok f a" "locks (bl f) = {}" "dense f a" using f by (auto simp: files_ok_def)
  obtain m g where g: "write_loop a bs 0 ofs f = Some (m, ofs + m, g)" "m \<le> length bs" "m < length bs \<longrightarrow> full g" "wrote (7 * nblks ofs (length bs)) a ofs (take m bs) f g"
    using write_loop_ok [OF fo(1-3) o(2) room_mono [OF r], of 0] by auto
  have gr: "grow (7 * nblks ofs (length bs)) a f g" using g(4) by (simp add: wrote_def)
  have sz: "i_size (ino g a) = i_size (ino f a)" using growD(9) [OF gr] by auto
  have lm: "length (take m bs) = m" using g(2) by simp
  note nz = wrote_nodes [OF g(4) fo(4) o(1), unfolded lm]
  have mx: "max (i_size (ino f a)) (ofs + m) \<le> SFS_MAX_FILE_SIZE" using fo(4) o(2) g(2) by (simp add: dense_def)
  note gf = grow_files [OF gr f]
  have dg: "dense g a" using nz sz fo(4) by (simp add: dense_def)
  have "fbyte g a k = (if ofs \<le> k \<and> k < ofs + length (take m bs) then take m bs ! (k - ofs) else fbyte f a k)" if "k < max (i_size (ino f a)) (ofs + length (take m bs))" for k
  proof -
    have "k < SFS_MAX_FILE_SIZE" using mx that lm by linarith
    then show ?thesis using g(4) by (simp add: wrote_def)
  qed
  from overwrite_map [OF o(1) this, unfolded lm]
  have C: "map (fbyte g a) [0..<max (i_size (ino f a)) (ofs + m)] = overwrite ofs (take m bs) (contents f a)" by (simp add: contents_def)
  show ?thesis
  proof (cases "ofs + m > i_size (ino g a)")
    case False
    then have "write_data a bs ofs f = Some (m, g)" using g(1) by (simp add: write_data_def)
    moreover have "contents g a = overwrite ofs (take m bs) (contents f a)" using C False sz by (simp add: contents_def max_def)
    ultimately show ?thesis using g(2,3) gf [OF dg] keeps_mono [OF growD(1) [OF gr]] by (intro exI [of _ m] exI [of _ g]) auto
  next
    case True
    then have mxe: "max (i_size (ino f a)) (ofs + m) = ofs + m" using sz by simp
    obtain h where h: "sfs_write_inode a (set_ino a (\<lambda>i. i\<lparr>i_size := ofs + m, i_dirty := True\<rparr>) g) = Some (ERR_OK, h)" "keeps 1 g h" "files_ok h S"
        "full g \<longrightarrow> full h" "contents h a = map (fbyte g a) [0..<ofs + m]" "\<forall>x\<in>S - {a}. contents h x = contents g x"
      using set_size_ok [OF gf(1) [OF dg] f(2), of "ofs + m"] room_keeps [OF r growD(1) [OF gr], of 1] nz mx mxe by auto
    have "bs \<noteq> []" using True sz o(1) g(2) by auto
    then have "write_data a bs ofs f = Some (m, h)" using g(1) True h(1) by (simp add: write_data_def)
    then show ?thesis using g(2,3) h gf(2) [OF dg] C mxe keeps_trans [OF growD(1) [OF gr] h(2)] by (intro exI [of _ m] exI [of _ h]) auto
  qed
qed

lemma ilocks_only [simp]:
  "files_ok (f\<lparr>ilocks := L\<rparr>) S = files_ok f S" "contents (f\<lparr>ilocks := L\<rparr>) x = contents f x" "room n (f\<lparr>ilocks := L\<rparr>) = room n f" "full (f\<lparr>ilocks := L\<rparr>) = full f"
proof -
  have "alike (f\<lparr>ilocks := L\<rparr>) f" by (simp add: alike_def)
  note al = alike_simps [OF this]
  have o: "owned (f\<lparr>ilocks := L\<rparr>) x = owned f x" for x by (simp add: owned_def al)
  show "files_ok (f\<lparr>ilocks := L\<rparr>) S = files_ok f S" by (simp add: files_ok_def dense_def o al)
  show "contents (f\<lparr>ilocks := L\<rparr>) x = contents f x" by (simp add: contents_def al)
  show "room n (f\<lparr>ilocks := L\<rparr>) = room n f" by (simp add: room_def)
  show "full (f\<lparr>ilocks := L\<rparr>) = full f" by (simp add: full_def al)
qed

lemma sfs_read_ok:
  assumes "files_ok f S" "x \<in> S" "ilocks f = {}"
  shows "\<exists>h. sfs_read x n k f = Some (take n (drop k (contents f x)), k + length (take n (drop k (contents f x))), h)"
proof -
  let ?f = "f\<lparr>ilocks := {x}\<rparr>"
  have "files_ok ?f S" using assms(1) by simp
  then have "fs_ready ?f" "file_ok ?f x" "locks (bl ?f) = {}" "dense ?f x" using assms(2) by (auto simp: files_ok_def)
  from read_data_ok [OF this, of n k] obtain g where "read_data x n k ?f = Some (take n (drop k (contents f x)), g)" "keeps 0 ?f g" by auto
  then show ?thesis using assms(3) by (auto simp: sfs_read_def ilock_def iunlock_def keeps_def)
qed

text \<open>C2: On a file system in which no two files share a block, writing bytes into an open file at a position within the file stores a prefix of
  them there and advances the position by its length; the prefix is shorter than the bytes only when every data block is in use. Writing changes
  neither the rest of the file nor any other file of the system, keeps the files disjoint, and a later read of any file at any position returns
  exactly the bytes that the file then has there. The transaction has to have room for the blocks that the write changes.\<close>

theorem sfs_write_then_read:
  assumes "files_ok f S" "a \<in> S" "ilocks f = {}" "ofs \<le> i_size (ino f a)" "ofs + length bs \<le> SFS_MAX_FILE_SIZE" "room (7 * nblks ofs (length bs) + 1) f"
  shows "\<exists>m g. sfs_write a bs ofs f = Some (m, ofs + m, g) \<and> m \<le> length bs \<and> (m < length bs \<longrightarrow> full g) \<and> files_ok g S
     \<and> (\<forall>x\<in>S. contents g x = (if x = a then overwrite ofs (take m bs) (contents f a) else contents f x))
     \<and> (\<forall>x\<in>S. \<forall>n k. \<exists>h. sfs_read x n k g = Some (take n (drop k (contents g x)), k + length (take n (drop k (contents g x))), h))"
proof -
  let ?f = "f\<lparr>ilocks := {a}\<rparr>"
  obtain m g where g: "write_data a bs ofs ?f = Some (m, g)" "m \<le> length bs" "m < length bs \<longrightarrow> full g" "files_ok g S"
      "keeps (7 * nblks ofs (length bs) + 1) ?f g" "\<forall>x\<in>S. contents g x = (if x = a then overwrite ofs (take m bs) (contents f a) else contents f x)"
    using write_data_ok [of ?f S a ofs bs] assms by auto
  let ?g = "g\<lparr>ilocks := {}\<rparr>"
  have "sfs_write a bs ofs f = Some (m, ofs + m, ?g)" using g(1,5) assms(3) by (auto simp: sfs_write_def ilock_def iunlock_def keeps_def)
  moreover have "\<forall>x\<in>S. \<forall>n k. \<exists>h. sfs_read x n k ?g = Some (take n (drop k (contents ?g x)), k + length (take n (drop k (contents ?g x))), h)"
    using sfs_read_ok [of ?g S] g(4) by simp
  ultimately show ?thesis using g by (intro exI [of _ m] exI [of _ ?g]) simp
qed

text \<open>An empty file system with two empty files, in a transaction.\<close>

definition small_fs :: fsst where
  "small_fs = \<lparr>bl = \<lparr>disk = \<lambda>_. replicate 512 0, buf = \<lambda>_. replicate 512 0, wlog = [], locks = {}, refs = \<lambda>_. 0, dirty_blks = {}, mem = []\<rparr>,
     jn = \<lparr>enabled = True, jstate = BUSY, datablks = [], jstart = 6\<rparr>,
     sbi = \<lparr>s_size = 16, s_num_inodes = 8, s_data_bmap_start = 5, s_journal_start = 6, s_data_start = 136\<rparr>,
     ino = \<lambda>x. \<lparr>i_inum = Suc x, i_ref = 1, i_nlink = 1, i_ftype = 0, i_mode = 0, i_size = 0, i_addrs = replicate 14 0, i_valid = True, i_dirty = False\<rparr>,
     icache = \<lambda>_. None, ipool = [], ilocks = {}, cleanup = []\<rparr>"

lemma small_fs_ok: "files_ok small_fs {0, 1}"
proof -
  have n: "node small_fs x p = 0" if "p < NODES" for x p
  proof (cases "p < 14")
    case False
    then have "(p - 14) div 128 < 2" using that by (auto simp: less_mult_imp_div_less)
    then show ?thesis by (simp add: small_fs_def node_def Let_def)
  qed (simp add: small_fs_def node_def)
  have i: "ilocks small_fs = {}" "locks (bl small_fs) = {}" "i_size (ino small_fs x) = 0" "length (i_addrs (ino small_fs x)) = 14" for x by (simp_all add: small_fs_def)
  have "fs_ready small_fs" by (simp add: fs_ready_def small_fs_def sb_ok_def)
  moreover have "file_ok small_fs x" "owned small_fs x = {}" if "x \<in> {0, 1}" for x
    using n [of _ x] that i(4) by (auto simp: file_ok_def owned_def inum_ok_def small_fs_def)
  ultimately show ?thesis by (simp add: files_ok_def dense_def i)
qed

theorem sfs_write_then_read_witness:
  "files_ok small_fs {0, 1} \<and> (\<exists>m g. sfs_write 0 [1, 2, 3] 0 small_fs = Some (m, m, g) \<and> m \<le> 3 \<and> (m < 3 \<longrightarrow> full g)
     \<and> contents g 0 = take m [1, 2, 3] \<and> contents g 1 = []
     \<and> (\<exists>h. sfs_read 0 2 1 g = Some (take 2 (drop 1 (take m [1, 2, 3])), 1 + length (take 2 (drop 1 (take m [1 :: u8, 2, 3]))), h)))"
proof -
  have c: "contents small_fs x = []" for x by (simp add: contents_def small_fs_def)
  have "(0 :: nat) \<in> {0, 1}" "ilocks small_fs = {}" "0 \<le> i_size (ino small_fs 0)" "0 + length [1 :: u8, 2, 3] \<le> SFS_MAX_FILE_SIZE"
      "room (7 * nblks 0 (length [1 :: u8, 2, 3]) + 1) small_fs"
    by (simp_all add: room_def small_fs_def nblks_def SFS_MAX_FILE_SIZE_def)
  from sfs_write_then_read [OF small_fs_ok this] obtain m g where g: "sfs_write 0 [1, 2, 3] 0 small_fs = Some (m, 0 + m, g)" "m \<le> length [1 :: u8, 2, 3]"
      "m < length [1 :: u8, 2, 3] \<longrightarrow> full g"
      "\<forall>x\<in>{0, 1}. contents g x = (if x = 0 then overwrite 0 (take m [1, 2, 3]) (contents small_fs 0) else contents small_fs x)"
      "\<forall>x\<in>{0, 1}. \<forall>n k. \<exists>h. sfs_read x n k g = Some (take n (drop k (contents g x)), k + length (take n (drop k (contents g x))), h)"
    by blast
  then have "contents g 0 = take m [1, 2, 3]" "contents g 1 = []" by (simp_all add: overwrite_def c)
  moreover from this have "\<exists>h. sfs_read 0 2 1 g = Some (take 2 (drop 1 (take m [1, 2, 3])), 1 + length (take 2 (drop 1 (take m [1 :: u8, 2, 3]))), h)"
    using bspec [OF g(5), of 0] by (metis insertI1)
  ultimately show ?thesis using small_fs_ok g(1-3) by auto
qed

end
