(* ===== verification/Dirs.thy ===== *)
theory Dirs
  imports Filedata
begin

text \<open>
  Directories of \<open>Sfs\<close> as lists of entries: searching, adding and removing a name.
\<close>

section \<open>Names in entries\<close>

text \<open>The name that a field of bytes holds.\<close>

definition cname :: "u8 list \<Rightarrow> u8 list" where
  "cname xs = takeWhile (\<lambda>c. c \<noteq> 0) xs"

lemma strncmp_cname: "strncmp m p q n = 0 \<longleftrightarrow> cname (map (\<lambda>i. m (p + i)) [0..<n]) = cname (map (\<lambda>i. m (q + i)) [0..<n])"
proof (induction n arbitrary: p q)
  case (Suc n)
  have e: "map (\<lambda>i. m (r + i)) [0..<Suc n] = m r # map (\<lambda>i. m (r + 1 + i)) [0..<n]" for r
    by (simp add: upt_conv_Cons map_Suc_upt [symmetric] comp_def del: upt_Suc)
  show ?case using Suc [of "p + 1" "q + 1"] unfolding e by (auto simp: cname_def signed_eq_0_iff dest: signed_word_eqI)
qed (simp add: cname_def)

lemma cname_stored:
  assumes "0 \<notin> set name"
  shows "cname (map (\<lambda>i. stored q (name @ [0]) (\<lambda>_. 0) (q + i)) [0..<n]) = take n name"
proof -
  have s: "stored q (name @ [0]) (\<lambda>_. 0) (q + i) = (if i < length name then name ! i else 0)" for i by (simp add: stored_apply nth_append)
  have nz: "name ! i \<noteq> 0" if "i < length name" for i using assms that nth_mem by metis
  show ?thesis
  proof (cases "n \<le> length name")
    case True
    then have m: "map (\<lambda>i. if i < length name then name ! i else 0) [0..<n] = take n name" by (intro nth_equalityI) auto
    have "x \<noteq> 0" if "x \<in> set (take n name)" for x using that assms by (auto dest: in_set_takeD)
    then show ?thesis unfolding s m cname_def by (simp add: takeWhile_eq_all_conv)
  next
    case False
    then have m: "map (\<lambda>i. if i < length name then name ! i else 0) [0..<n] = name @ 0 # replicate (n - length name - 1) 0"
      by (intro nth_equalityI) (auto simp: nth_append nth_Cons')
    have "takeWhile (\<lambda>c. c \<noteq> 0) (name @ 0 # replicate (n - length name - 1) 0) = name" using assms by (subst takeWhile_append2) auto
    then show ?thesis unfolding s m cname_def using False by simp
  qed
qed

lemma dirent_matches_eq:
  assumes "0 \<notin> set name" "o' + 32 \<le> length xs" "length xs \<le> 1024"
  shows "dirent_matches name o' xs \<longleftrightarrow> cname (take 28 (drop (o' + 4) xs)) = take 28 name"
proof -
  let ?m = "stored 0 xs (stored 1024 (name @ [0]) (\<lambda>_. 0))"
  have "map (\<lambda>i. ?m (o' + 4 + i)) [0..<28] = take 28 (drop (o' + 4) xs)" using assms by (intro nth_equalityI) (auto simp: stored_apply)
  moreover have "map (\<lambda>i. ?m (1024 + i)) [0..<28] = map (\<lambda>i. stored 1024 (name @ [0]) (\<lambda>_. 0) (1024 + i)) [0..<28]" using assms by (simp add: stored_apply)
  ultimately show ?thesis using cname_stored [OF assms(1), of 1024 28] by (simp only: dirent_matches_def strncmp_cname)
qed

section \<open>Entries\<close>

definition dentry :: "fsst \<Rightarrow> nat \<Rightarrow> nat \<Rightarrow> nat \<times> u8 list" where
  "dentry f a k = (let xs = map (fbyte f a) [32 * k..<32 * k + 32] in (rd32 0 xs, drop 4 xs))"

definition dentries :: "fsst \<Rightarrow> nat \<Rightarrow> (nat \<times> u8 list) list" where
  "dentries f a = map (dentry f a) [0..<i_size (ino f a) div 32]"

text \<open>The inode number that a list of entries has for a name, 0 if there is none.\<close>

fun dir_lookup :: "u8 list \<Rightarrow> (nat \<times> u8 list) list \<Rightarrow> nat" where
  "dir_lookup name [] = 0"
| "dir_lookup name ((i, e) # es) = (if i > 0 \<and> cname e = take 28 name then i else dir_lookup name es)"

text \<open>A directory without holes whose size is a whole number of entries.\<close>

definition dir_ok :: "fsst \<Rightarrow> nat \<Rightarrow> bool" where
  "dir_ok f a \<longleftrightarrow> fs_ready f \<and> locks (bl f) = {} \<and> file_ok f a \<and> dense f a \<and> 32 dvd i_size (ino f a)"

text \<open>The block that a loop over the entries holds.\<close>

definition hold :: "nat option \<Rightarrow> fsst \<Rightarrow> fsst" where
  "hold cur f = (case cur of None \<Rightarrow> f | Some b \<Rightarrow> lk b f)"

lemma release_hold:
  assumes "locks (bl f) = {}"
  shows "\<exists>g. release_cur cur (hold cur f) = Some g \<and> keeps 0 f g \<and> buf (bl g) = buf (bl f) \<and> ino g = ino f"
  using assms release_lk [of 0 _ f "lk _ f"] by (cases cur) (auto simp: hold_def release_cur_def)

lemma dentries_same:
  assumes "keeps n f g" "buf (bl g) = buf (bl f)" "ino g = ino f"
  shows "node g = node f" "fbyte g = fbyte f" "dentries g a = dentries f a"
proof -
  have "alike g f" using assms by (simp add: alike_def keeps_def)
  from alike_simps [OF this] show n: "node g = node f" "fbyte g = fbyte f" by auto
  show "dentries g a = dentries f a" by (simp add: dentries_def dentry_def [abs_def] n assms(3))
qed

lemma dir_ok_keeps: "dir_ok f a \<Longrightarrow> keeps 0 f g \<Longrightarrow> buf (bl g) = buf (bl f) \<Longrightarrow> ino g = ino f \<Longrightarrow> dir_ok g a"
proof -
  assume d: "dir_ok f a" and k: "keeps 0 f g" and s: "buf (bl g) = buf (bl f)" "ino g = ino f"
  have "alike g f" using k s by (simp add: alike_def keeps_def)
  from alike_simps [OF this] show ?thesis using d keepsD(1) [OF k] s by (simp add: dir_ok_def dense_def)
qed

lemma entry_in_blk: "32 * k mod BDEV_BLK_SIZE + 32 \<le> BDEV_BLK_SIZE"
proof -
  have "32 * k mod (32 * 16) = 32 * (k mod 16)" by (rule mult_mod_right [symmetric])
  moreover have "k mod 16 < 16" by simp
  ultimately show ?thesis by simp
qed

lemma dentry_eq:
  assumes "node f a (pos (32 * k div BDEV_BLK_SIZE)) = b" "b \<noteq> 0" "length (buf (bl f) b) = BDEV_BLK_SIZE"
  shows "dentry f a k = (rd32 (32 * k mod BDEV_BLK_SIZE) (buf (bl f) b), take 28 (drop (32 * k mod BDEV_BLK_SIZE + 4) (buf (bl f) b)))"
proof -
  have "dentry f a k = (let xs = take 32 (drop (32 * k mod BDEV_BLK_SIZE) (buf (bl f) b)) in (rd32 0 xs, drop 4 xs))"
    unfolding dentry_def block_bytes [OF assms entry_in_blk] ..
  moreover have "rd32 0 (take 32 xs) = rd32 0 xs" for xs :: "u8 list" by (simp add: rd32_def dec32_def)
  ultimately show ?thesis by (simp add: rd32_def Let_def drop_take add.commute)
qed

lemma next_entry_blk: "32 * (k + 1) mod BDEV_BLK_SIZE \<noteq> 0 \<Longrightarrow> 32 * (k + 1) div BDEV_BLK_SIZE = 32 * k div BDEV_BLK_SIZE"
proof -
  assume nz: "32 * (k + 1) mod BDEV_BLK_SIZE \<noteq> 0"
  have "32 * k mod BDEV_BLK_SIZE + 32 \<noteq> BDEV_BLK_SIZE"
  proof
    assume "32 * k mod BDEV_BLK_SIZE + 32 = BDEV_BLK_SIZE"
    then have "(32 * k mod BDEV_BLK_SIZE + 32) mod BDEV_BLK_SIZE = 0" by simp
    then show False using nz by (simp add: mod_simps add.commute)
  qed
  then have "32 * k mod BDEV_BLK_SIZE + 32 < BDEV_BLK_SIZE" using entry_in_blk [of k] by linarith
  from same_block [OF this] show ?thesis by (simp add: add.commute)
qed

lemma next_blk:
  assumes d: "dir_ok f a" "32 * k < i_size (ino f a)" and c: "32 * k mod BDEV_BLK_SIZE \<noteq> 0 \<longrightarrow> cur = Some (node f a (pos (32 * k div BDEV_BLK_SIZE)))"
  shows "\<exists>g. next_dirent_blk a (32 * k) al cur (hold cur f) = Some (ERR_OK, node f a (pos (32 * k div BDEV_BLK_SIZE)), hold (Some (node f a (pos (32 * k div BDEV_BLK_SIZE)))) g)
     \<and> keeps 0 f g \<and> buf (bl g) = buf (bl f) \<and> ino g = ino f"
proof (cases "32 * k mod BDEV_BLK_SIZE = 0")
  case True
  obtain g where g: "release_cur cur (hold cur f) = Some g" "keeps 0 f g" "buf (bl g) = buf (bl f)" "ino g = ino f"
    using release_hold [of f cur] d(1) by (auto simp: dir_ok_def)
  have dg: "dir_ok g a" by (rule dir_ok_keeps [OF d(1) g(2-4)])
  note n = dentries_same(1) [OF g(2-4)]
  have s: "32 * k < i_size (ino g a)" using d(2) g(4) by simp
  have "node g a (pos (32 * k div BDEV_BLK_SIZE)) \<noteq> 0" "32 * k < SFS_MAX_FILE_SIZE" using dg s by (auto simp: dir_ok_def dense_def)
  with get_data_found [of g a "32 * k" _ al] dg obtain h where h: "get_data_block a (32 * k) al g = Some (ERR_OK, node f a (pos (32 * k div BDEV_BLK_SIZE)), lk (node f a (pos (32 * k div BDEV_BLK_SIZE))) h)"
      "keeps 0 g h" "buf (bl h) = buf (bl g)" "ino h = ino g"
    by (auto simp: dir_ok_def n)
  have "keeps 0 f h" using keeps_trans [OF g(2) h(2)] by simp
  then show ?thesis using True g h by (auto simp: next_dirent_blk_def hold_def)
next
  case False
  then show ?thesis using c by (auto simp: next_dirent_blk_def hold_def)
qed

lemma search_loop_ok:
  assumes "dir_ok f a" "0 \<notin> set name" "32 * k \<le> i_size (ino f a)" "32 * k mod BDEV_BLK_SIZE \<noteq> 0 \<longrightarrow> cur = Some (node f a (pos (32 * k div BDEV_BLK_SIZE)))"
  shows "\<exists>g. search_dir_loop a name (32 * k) cur (hold cur f) = Some (dir_lookup name (drop k (dentries f a)), g)
     \<and> keeps 0 f g \<and> buf (bl g) = buf (bl f) \<and> ino g = ino f"
  using assms
proof (induction "i_size (ino f a) div 32 - k" arbitrary: f k cur)
  case 0
  then have "32 * k = i_size (ino f a)" by (auto simp: dir_ok_def)
  then have "\<not> 32 * k < i_size (ino f a)" "drop k (dentries f a) = []" using 0 by (simp_all add: dentries_def)
  then show ?case using release_hold [of f cur] 0(2) by (subst search_dir_loop.simps) (auto simp: hold_def dir_ok_def split: option.splits)
next
  case (Suc n)
  let ?b = "node f a (pos (32 * k div BDEV_BLK_SIZE))" and ?o = "32 * k mod BDEV_BLK_SIZE"
  have lt: "32 * k < i_size (ino f a)" "k < length (dentries f a)" using Suc(2) by (auto simp: dentries_def)
  have dk: "drop k (dentries f a) = dentry f a k # drop (k + 1) (dentries f a)" using lt(2) by (simp add: Cons_nth_drop_Suc [symmetric] dentries_def)
  obtain g where g: "next_dirent_blk a (32 * k) False cur (hold cur f) = Some (ERR_OK, ?b, hold (Some ?b) g)" "keeps 0 f g" "buf (bl g) = buf (bl f)" "ino g = ino f"
    using next_blk [OF Suc.prems(1) lt(1) Suc.prems(4), of False] by blast
  have i: "ino (hold cur f) = ino f" by (simp add: hold_def split: option.split)
  have l: "length (buf (bl f) ?b) = BDEV_BLK_SIZE" "?b \<noteq> 0" using Suc.prems(1) lt(1) by (auto simp: dir_ok_def fs_ready_def dense_def)
  note de = dentry_eq [OF refl l(2,1)]
  have m: "dirent_matches name ?o (buf (bl f) ?b) \<longleftrightarrow> cname (snd (dentry f a k)) = take 28 name"
    using dirent_matches_eq [OF Suc.prems(2), of ?o "buf (bl f) ?b"] entry_in_blk [of k] l(1) by (simp add: de)
  show ?case
  proof (cases "rd32 ?o (buf (bl f) ?b) > 0 \<and> dirent_matches name ?o (buf (bl f) ?b)")
    case True
    obtain h where h: "release_blk ?b (lk ?b g) = Some h" "keeps 0 g h" "buf (bl h) = buf (bl g)" "ino h = ino g"
      using release_lk [of 0 ?b g "lk ?b g"] keepsD(1) [OF g(2)] Suc.prems(1) by (auto simp: dir_ok_def)
    have "dir_lookup name (drop k (dentries f a)) = rd32 ?o (buf (bl f) ?b)" using True m unfolding dk by (simp add: de)
    moreover have "search_dir_loop a name (32 * k) cur (hold cur f) = Some (rd32 ?o (buf (bl f) ?b), h)"
      using lt(1) g(1,3) True h(1) i by (subst search_dir_loop.simps) (simp add: hold_def [of "Some _"] Let_def)
    ultimately show ?thesis using h g keeps_trans [OF g(2) h(2)] by auto
  next
    case False
    have "dir_ok g a" by (rule dir_ok_keeps [OF Suc.prems(1) g(2-4)])
    moreover note dentries_same [OF g(2-4)]
    moreover have "32 * (k + 1) \<le> i_size (ino g a)" using lt(1) Suc.prems(1) g(4) by (auto simp: dir_ok_def)
    moreover have "n = i_size (ino g a) div 32 - (k + 1)" using Suc.hyps(2) g(4) by simp
    ultimately obtain h where h: "search_dir_loop a name (32 * (k + 1)) (Some ?b) (hold (Some ?b) g) = Some (dir_lookup name (drop (k + 1) (dentries f a)), h)"
        "keeps 0 g h" "buf (bl h) = buf (bl g)" "ino h = ino g"
      using Suc.hyps(1) [of g "k + 1" "Some ?b"] Suc.prems(2) next_entry_blk [of k] g(4) by auto
    have "dir_lookup name (drop k (dentries f a)) = dir_lookup name (drop (k + 1) (dentries f a))" using False m unfolding dk by (auto simp: de)
    moreover have "search_dir_loop a name (32 * k) cur (hold cur f) = search_dir_loop a name (32 * (k + 1)) (Some ?b) (hold (Some ?b) g)"
      using lt(1) g(1,3) False i by (subst search_dir_loop.simps) (auto simp: hold_def [of "Some _"] Let_def add.commute)
    ultimately show ?thesis using h g keeps_trans [OF g(2) h(2)] by auto
  qed
qed

section \<open>Adding an entry\<close>

text \<open>What \<^verbatim>\<open>alloc_dirent\<close> writes for a short name: one byte more than an entry has.\<close>

definition dirent_bytes :: "nat \<Rightarrow> u8 list \<Rightarrow> u8 list" where
  "dirent_bytes inum name = enc32 inum @ name @ replicate (29 - length name) 0"

lemma length_dirent_bytes: "length name < 28 \<Longrightarrow> length (dirent_bytes inum name) = 33"
  by (simp add: dirent_bytes_def)

lemma put_bytes_append: "ofs + length xs + length ys \<le> length zs \<Longrightarrow> put_bytes (ofs + length xs) ys (put_bytes ofs xs zs) = put_bytes ofs (xs @ ys) zs"
  by (rule nth_equalityI) (auto simp: length_put_bytes nth_put_bytes nth_append)

lemma put_bytes_front: "ofs + length ys \<le> length zs \<Longrightarrow> put_bytes ofs ys (zs @ ws) = put_bytes ofs ys zs @ ws"
  by (simp add: put_bytes_def)

lemma put_head: "ys \<noteq> [] \<Longrightarrow> put_bytes 0 (take 1 ys) ys = ys"
  by (cases ys) (simp_all add: put_bytes_def)

lemma cstr_name: "0 \<notin> set name \<Longrightarrow> (\<And>i. i \<le> length name \<Longrightarrow> m (p + i) = (name @ [0]) ! i) \<Longrightarrow> cstr m p name"
  using cstr_append [of m p name "[]"] by (auto simp: nth_append) (metis nth_mem)

lemma copy_name_short:
  assumes "0 \<notin> set name" "length name < 28" "length xs \<le> 1024" "o' + 33 \<le> length xs"
  shows "copy_name name o' xs = put_bytes (o' + 4) (name @ replicate (29 - length name) 0) xs"
proof -
  let ?m = "stored 0 xs (stored 1024 (name @ [0]) (\<lambda>_. 0))"
  have "cstr ?m 1024 name" using assms(1,3) by (intro cstr_name) (auto simp: stored_apply)
  then have "strncpy (o' + 4) 1024 28 ?m = stored (o' + 4) (name @ replicate (28 - length name + 1) 0) ?m"
    using strncpy_stored [of ?m 1024 name "o' + 4" 28] assms by auto
  moreover have "28 - length name + 1 = 29 - length name" using assms(2) by simp
  ultimately have "strncpy (o' + 4) 1024 28 ?m = stored (o' + 4) (name @ replicate (29 - length name) 0) ?m" by (simp only:)
  then show ?thesis unfolding copy_name_def using assms
    by (intro nth_equalityI) (auto simp: length_put_bytes nth_put_bytes stored_apply)
qed

lemma write_dirent_eq:
  assumes n: "0 \<notin> set name" "length name < 28" and b: "length (buf (bl f) b) = BDEV_BLK_SIZE" "length (buf (bl f) (b + 1)) = BDEV_BLK_SIZE" and o: "o' + 33 \<le> BDEV_BLK_SIZE"
  shows "write_dirent b o' inum name f = change_blk b (put_bytes o' (dirent_bytes inum name)) f"
proof -
  let ?w = "name @ replicate (29 - length name) 0" and ?t = "take 1 (buf (bl f) (b + 1))" and ?d = "put_bytes o' (enc32 inum) (buf (bl f) b)"
  let ?xs = "put_bytes o' (dirent_bytes inum name) (buf (bl f) b)"
  have d: "length ?d = BDEV_BLK_SIZE" "length ?t = 1" "length ?w = 29" using b o n(2) by (simp_all add: length_put_bytes)
  have x: "length ?xs = BDEV_BLK_SIZE" using b(1) o n(2) by (simp add: length_put_bytes length_dirent_bytes)
  have "copy_name name o' (?d @ ?t) = put_bytes (o' + 4) ?w (?d @ ?t)" using copy_name_short [OF n] d(1,2) o by simp
  also have "\<dots> = put_bytes (o' + 4) ?w ?d @ ?t" using put_bytes_front d(1,3) o by simp
  also have "put_bytes (o' + 4) ?w ?d = ?xs" using put_bytes_append [of o' "enc32 inum" ?w "buf (bl f) b"] d(3) b(1) o by (simp add: dirent_bytes_def)
  finally have c: "copy_name name o' (?d @ ?t) = ?xs @ ?t" .
  have "(dirent_bytes inum name) ! 31 = 0" using n(2) by (simp add: dirent_bytes_def nth_append)
  then have "?xs ! (o' + 31) = 0" using b(1) o n(2) by (simp add: nth_put_bytes length_dirent_bytes)
  then have z: "(?xs @ ?t)[o' + 4 + 28 - 1 := 0] = ?xs @ ?t" using x o by (intro list_update_same_conv [THEN iffD2]) (auto simp: nth_append add.commute)
  have s: "drop BDEV_BLK_SIZE (?xs @ ?t) = ?t" "take BDEV_BLK_SIZE (?xs @ ?t) = ?xs" using x by simp_all
  have "put_bytes 0 ?t (buf (bl f) (b + 1)) = buf (bl f) (b + 1)" using b(2) by (intro put_head) auto
  then have "(if (b + 1) mod 8 \<noteq> 0 then f\<lparr>bl := set_buf (b + 1) (put_bytes 0 ?t (buf (bl f) (b + 1))) (bl f)\<rparr> else f) = f" by (simp add: set_buf_def)
  then show ?thesis unfolding write_dirent_def Let_def c z s by (simp add: change_blk_def)
qed

definition slot :: "(nat \<times> u8 list) list \<Rightarrow> nat" where
  "slot es = length (takeWhile (\<lambda>(i, _). i \<noteq> 0) es)"

lemma slot_le: "slot es \<le> length es"
  by (simp add: slot_def length_takeWhile_le)

lemma slot_used: "j < slot es \<Longrightarrow> fst (es ! j) \<noteq> 0"
  unfolding slot_def by (metis (mono_tags, lifting) case_prod_beta' nth_mem set_takeWhileD takeWhile_nth)

lemma slot_free: "slot es < length es \<Longrightarrow> fst (es ! slot es) = 0"
  unfolding slot_def using nth_length_takeWhile [of "\<lambda>(i, _). i \<noteq> 0" es] by (simp add: case_prod_beta')

lemma alloc_skip:
  assumes "dir_ok f a" "k \<le> slot (dentries f a)" "32 * k mod BDEV_BLK_SIZE \<noteq> 0 \<longrightarrow> cur = Some (node f a (pos (32 * k div BDEV_BLK_SIZE)))"
  shows "\<exists>g cur'. alloc_dirent_loop a name inum (32 * k) cur (hold cur f) = alloc_dirent_loop a name inum (32 * slot (dentries f a)) cur' (hold cur' g)
     \<and> keeps 0 f g \<and> buf (bl g) = buf (bl f) \<and> ino g = ino f
     \<and> (32 * slot (dentries f a) mod BDEV_BLK_SIZE \<noteq> 0 \<longrightarrow> cur' = Some (node f a (pos (32 * slot (dentries f a) div BDEV_BLK_SIZE))))"
  using assms
proof (induction "slot (dentries f a) - k" arbitrary: f k cur)
  case 0
  then have "k = slot (dentries f a)" by simp
  then show ?case using 0(4) by (intro exI [of _ f] exI [of _ cur]) simp
next
  case (Suc n)
  let ?b = "node f a (pos (32 * k div BDEV_BLK_SIZE))" and ?o = "32 * k mod BDEV_BLK_SIZE"
  have k: "k < slot (dentries f a)" "k < length (dentries f a)" using Suc.hyps(2) slot_le [of "dentries f a"] by linarith+
  then have lt: "32 * k < i_size (ino f a)" by (simp add: dentries_def)
  have b: "length (buf (bl f) ?b) = BDEV_BLK_SIZE" "?b \<noteq> 0" "32 * k < SFS_MAX_FILE_SIZE" using Suc.prems(1) lt by (auto simp: dir_ok_def fs_ready_def dense_def)
  have "rd32 ?o (buf (bl f) ?b) \<noteq> 0" using slot_used [OF k(1)] k(2) dentry_eq [OF refl b(2,1)] by (simp add: dentries_def)
  moreover obtain g where g: "next_dirent_blk a (32 * k) True cur (hold cur f) = Some (ERR_OK, ?b, hold (Some ?b) g)" "keeps 0 f g" "buf (bl g) = buf (bl f)" "ino g = ino f"
    using next_blk [OF Suc.prems(1) lt Suc.prems(3), of True] by blast
  ultimately have e: "alloc_dirent_loop a name inum (32 * k) cur (hold cur f) = alloc_dirent_loop a name inum (32 * (k + 1)) (Some ?b) (hold (Some ?b) g)"
    using lt b(3) by (subst alloc_dirent_loop.simps) (auto simp: hold_def [of "Some _"] Let_def add.commute)
  have d: "dir_ok g a" by (rule dir_ok_keeps [OF Suc.prems(1) g(2-4)])
  note same = dentries_same [OF g(2-4)]
  have n: "n = slot (dentries f a) - (k + 1)" using Suc.hyps(2) by simp
  obtain h cur' where "alloc_dirent_loop a name inum (32 * (k + 1)) (Some ?b) (hold (Some ?b) g) = alloc_dirent_loop a name inum (32 * slot (dentries f a)) cur' (hold cur' h)"
      "keeps 0 g h" "buf (bl h) = buf (bl g)" "ino h = ino g" "32 * slot (dentries f a) mod BDEV_BLK_SIZE \<noteq> 0 \<longrightarrow> cur' = Some (node f a (pos (32 * slot (dentries f a) div BDEV_BLK_SIZE)))"
    using Suc.hyps(1) [of g "k + 1" "Some ?b"] n d k(1) next_entry_blk [of k] unfolding same by auto
  then show ?case using e g keeps_trans [of 0 f g 0 h] by (intro exI [of _ h] exI [of _ cur']) simp
qed

lemma unlk:
  assumes "keeps n (lk b f) g" "b \<notin> locks (bl f)"
  shows "\<exists>h. g = lk b h \<and> keeps n f h"
proof -
  have l: "locks (bl g) = insert b (locks (bl f))" and r: "\<forall>c. refs (bl (lk b f)) c \<le> refs (bl g) c" using assms(1) by (simp_all add: keeps_def)
  let ?h = "g\<lparr>bl := (bl g)\<lparr>locks := locks (bl g) - {b}, refs := (refs (bl g))(b := refs (bl g) b - 1)\<rparr>\<rparr>"
  have "refs (bl (lk b f)) b = Suc (refs (bl f) b)" by (simp add: lk_def)
  then have rb: "Suc (refs (bl f) b) \<le> refs (bl g) b" using r by metis
  have rc: "refs (bl f) c \<le> refs (bl g) c" for c using spec [OF r, of c] by (simp add: lk_def split: if_splits)
  have "insert b (locks (bl g)) = locks (bl g)" using l by auto
  then have "g = lk b ?h" using rb by (simp add: lk_def)
  moreover have "keeps n f ?h" using assms rb rc l by (auto simp: keeps_def lk_def)
  ultimately show ?thesis by blast
qed

text \<open>The bytes of the file and the size after an entry has been written.\<close>

definition added :: "nat \<Rightarrow> nat \<Rightarrow> u8 list \<Rightarrow> nat \<Rightarrow> fsst \<Rightarrow> fsst \<Rightarrow> bool" where
  "added a k bs sz f g \<longleftrightarrow> fs_ready g \<and> locks (bl g) = {} \<and> file_ok g a \<and> i_size (ino g a) = sz
     \<and> (\<forall>j<SFS_MAX_FILE_SIZE. fbyte g a j = (if 32 * k \<le> j \<and> j < 32 * k + length bs then bs ! (j - 32 * k) else fbyte f a j))
     \<and> (\<forall>p<NODES. node f a p \<noteq> 0 \<longrightarrow> node g a p = node f a p) \<and> node g a (pos (32 * k div BDEV_BLK_SIZE)) \<noteq> 0"

lemma write_entry:
  assumes g: "fs_ready g" "file_ok g a" "locks (bl g) = {}" and r: "room 1 g" and b: "node g a (pos (32 * k div BDEV_BLK_SIZE)) = b" "b \<noteq> 0"
    and n: "0 \<notin> set name" "length name < 28" and k: "k mod 16 \<noteq> 15" "32 * k < SFS_MAX_FILE_SIZE"
  shows "\<exists>x h. write_dirent b (32 * k mod BDEV_BLK_SIZE) inum name (lk b g) = Some x \<and> release_blk b x = Some h \<and> added a k (dirent_bytes inum name) (i_size (ino g a)) g h \<and> keeps 1 g h"
proof -
  have "k mod 16 < 15" using k(1) mod_less_divisor [of 16 k] by linarith
  moreover have "32 * k mod (32 * 16) = 32 * (k mod 16)" by (rule mult_mod_right [symmetric])
  ultimately have o: "32 * k mod BDEV_BLK_SIZE + 33 \<le> BDEV_BLK_SIZE" by simp
  have w: "write_dirent b (32 * k mod BDEV_BLK_SIZE) inum name (lk b g) = change_blk b (put_bytes (32 * k mod BDEV_BLK_SIZE) (dirent_bytes inum name)) (lk b g)"
    by (rule write_dirent_eq [OF n _ _ o]) (use g(1) in \<open>simp_all add: fs_ready_def\<close>)
  have "b \<notin> locks (bl g)" using g(3) by simp
  from put_step [OF g(1,2) this r b, of "dirent_bytes inum name"] o k(2) n(2)
  obtain x h where h: "change_blk b (put_bytes (32 * k mod BDEV_BLK_SIZE) (dirent_bytes inum name)) (lk b g) = Some x" "release_blk b x = Some h"
      "wrote 1 a (32 * k) (dirent_bytes inum name) g h" "ino h = ino g"
    by (auto simp: length_dirent_bytes)
  note gr = growD [of 1 a g h]
  have w1: "grow 1 a g h" using h(3) by (simp add: wrote_def)
  have "node h a (pos (32 * k div BDEV_BLK_SIZE)) \<noteq> 0" using h(3) n(2) by (auto simp: wrote_def length_dirent_bytes)
  then have "added a k (dirent_bytes inum name) (i_size (ino g a)) g h"
    using gr(1-3,5) [OF w1] keepsD(1) [OF gr(1) [OF w1]] g(3) h(3,4) by (simp add: added_def wrote_def)
  then show ?thesis using w h(1,2) gr(1) [OF w1] by auto
qed

lemma size_entry:
  assumes g: "fs_ready g" "file_ok g a" "locks (bl g) = {}" and r: "room 1 g" and b: "used g b"
  shows "\<exists>er h. sfs_write_inode a (set_ino a (\<lambda>i. i\<lparr>i_size := sz, i_dirty := True\<rparr>) (lk b g)) = Some (er, lk b h) \<and> keeps 1 g h \<and> fs_ready h \<and> file_ok h a
     \<and> i_size (ino h a) = sz \<and> (\<forall>p<NODES. node h a p = node g a p) \<and> (\<forall>j<SFS_MAX_FILE_SIZE. fbyte h a j = fbyte g a j)"
proof -
  let ?s = "set_ino a (\<lambda>i. i\<lparr>i_size := sz, i_dirty := True\<rparr>)"
  have e: "?s (lk b g) = lk b (?s g)" by (simp add: set_ino_def lk_def)
  note ok = file_okD [OF g(2)]
  have bl: "bl (lk b (?s g)) = bl (lk b g)" "sbi (lk b (?s g)) = sbi g" by (simp_all add: set_ino_def lk_def)
  have u: "used (lk b (?s g)) c = used g c" for c using same_used [of "lk b (?s g)" g] by (simp add: set_ino_def)
  obtain x d where x: "sfs_write_inode a (?s (lk b g)) = Some (ERR_OK, x)" "keeps 1 (lk b (?s g)) x" "fs_ready x"
      "ino x = (ino (lk b (?s g)))(a := (ino (lk b (?s g)) a)\<lparr>i_dirty := False\<rparr>)" "buf (bl x) = (buf (bl g))(inum_to_blk (i_inum (ino g a)) := d)"
    using write_inode_ok [of "lk b (?s g)" a] g(1,3) ok(1,2) r b u unfolding e by (auto simp: fs_ready_def inum_ok_def room_def lk_def set_ino_def)
  obtain h where h: "x = lk b h" "keeps 1 (?s g) h" using unlk [OF x(2)] g(3) by (auto simp: set_ino_def)
  have k: "keeps 1 g h" using h(2) by (simp add: keeps_def set_ino_def)
  have sb: "sb_ok (sbi g)" "sbi h = sbi g" using g(1) keepsD(3) [OF k] by (auto simp: fs_ready_def)
  have bh: "buf (bl h) = (buf (bl g))(inum_to_blk (i_inum (ino g a)) := d)" using x(5) h(1) by simp
  have i: "ino h = (ino g)(a := (ino g a)\<lparr>i_size := sz, i_dirty := False\<rparr>)" using x(4) h(1) by (simp add: set_ino_def)
  have own: "buf (bl h) c = buf (bl g) c" if "c \<in> owned g a" for c
    using inode_blk_other [OF sb(1) ok(1), of c] owned_used [OF g(2) that] bh by (auto simp: used_def)
  have ad: "i_addrs (ino h a) = i_addrs (ino g a)" "i_inum (ino h a) = i_inum (ino g a)" by (simp_all add: i)
  note fc = file_cong [OF g(2) ad sb(2) own inode_blk_used [OF sb(1) ok(1) sb(2) bh]]
  have "fs_ready h" using x(3) h(1) by (simp add: fs_ready_def)
  then show ?thesis using x(1) h(1) k fc node_cong [OF g(2) ad(1) own] i by auto
qed

lemma added_alike:
  assumes "added a k bs sz f' g" "\<And>p. p < NODES \<Longrightarrow> node f a p \<noteq> 0 \<Longrightarrow> node f' a p = node f a p" "\<And>j. j < SFS_MAX_FILE_SIZE \<Longrightarrow> fbyte f' a j = fbyte f a j"
  shows "added a k bs sz f g"
  using assms by (simp add: added_def)

text \<open>The iteration that writes the entry behind the last one, with its block held.\<close>

lemma append_entry:
  assumes g: "fs_ready g" "file_ok g a" "locks (bl g) = {}" and r: "room 2 g" and b: "node g a (pos (32 * k div BDEV_BLK_SIZE)) = b" "b \<noteq> 0"
    and n: "0 \<notin> set name" "length name < 28" and k: "k mod 16 \<noteq> 15" "32 * k < SFS_MAX_FILE_SIZE"
  shows "\<exists>er y x h. sfs_write_inode a (set_ino a (\<lambda>i. i\<lparr>i_size := 32 * k + 32, i_dirty := True\<rparr>) (lk b g)) = Some (er, y)
     \<and> write_dirent b (32 * k mod BDEV_BLK_SIZE) inum name y = Some x \<and> release_blk b x = Some h
     \<and> added a k (dirent_bytes inum name) (32 * k + 32) g h \<and> keeps 2 g h"
proof -
  have p: "pos (32 * k div BDEV_BLK_SIZE) < NODES" by (rule pos_range [OF k(2)])
  have "used g b" using file_okD(3) [OF g(2) p] b by simp
  from size_entry [OF g room_mono [OF r] this, of "32 * k + 32"] obtain er y where y: "sfs_write_inode a (set_ino a (\<lambda>i. i\<lparr>i_size := 32 * k + 32, i_dirty := True\<rparr>) (lk b g)) = Some (er, lk b y)"
      "keeps 1 g y" "fs_ready y" "file_ok y a" "i_size (ino y a) = 32 * k + 32" "\<forall>p<NODES. node y a p = node g a p" "\<forall>j<SFS_MAX_FILE_SIZE. fbyte y a j = fbyte g a j"
    by auto
  have "locks (bl y) = {}" "room 1 y" "node y a (pos (32 * k div BDEV_BLK_SIZE)) = b" using keepsD(1) [OF y(2)] g(3) room_keeps [OF r y(2), of 1] y(6) p b(1) by auto
  from write_entry [OF y(3,4) this b(2) n k, of inum] obtain x h where h: "write_dirent b (32 * k mod BDEV_BLK_SIZE) inum name (lk b y) = Some x" "release_blk b x = Some h"
      "added a k (dirent_bytes inum name) (32 * k + 32) y h" "keeps 1 y h"
    using y(5) by auto
  have "added a k (dirent_bytes inum name) (32 * k + 32) g h" using added_alike [OF h(3), of g] y(6,7) by simp
  moreover have "keeps 2 g h" using keeps_trans [OF y(2) h(4)] by (simp add: numeral_2_eq_2)
  ultimately show ?thesis using y(1) h(1,2) by blast
qed

text \<open>The block behind the last entry: it is held already, or it is looked up and added to the file when there is none.\<close>

lemma next_blk_new:
  assumes d: "dir_ok f a" and r: "room 6 f" and k: "32 * k = i_size (ino f a)" "32 * k < SFS_MAX_FILE_SIZE"
    and c: "32 * k mod BDEV_BLK_SIZE \<noteq> 0 \<longrightarrow> cur = Some (node f a (pos (32 * k div BDEV_BLK_SIZE)))"
  shows "(\<exists>g. next_dirent_blk a (32 * k) True cur (hold cur f)
              = Some (ERR_OK, node g a (pos (32 * k div BDEV_BLK_SIZE)), lk (node g a (pos (32 * k div BDEV_BLK_SIZE))) g)
            \<and> ext 6 a f g \<and> node g a (pos (32 * k div BDEV_BLK_SIZE)) \<noteq> 0)
     \<or> (\<exists>g. next_dirent_blk a (32 * k) True cur (hold cur f) = Some (ERR_NORES, 0, g) \<and> ext 6 a f g \<and> full g)"
proof (cases "32 * k mod BDEV_BLK_SIZE = 0")
  case True
  obtain g where g: "release_cur cur (hold cur f) = Some g" "keeps 0 f g" "buf (bl g) = buf (bl f)" "ino g = ino f"
    using release_hold [of f cur] d by (auto simp: dir_ok_def)
  have dg: "fs_ready g" "file_ok g a" "locks (bl g) = {}" using dir_ok_keeps [OF d g(2-4)] by (auto simp: dir_ok_def)
  have al: "alike f g" using g(2-4) by (simp add: alike_def keeps_def)
  have e: "ext 6 a f h" if "ext 6 a g h" for h
  proof (rule ext_alike [OF that al])
    show "alike h h" by (simp add: alike_def)
    show "keeps 6 f h" using keeps_trans [OF g(2) growD(1) [OF extD(1) [OF that]]] by simp
  qed
  have "room 6 g" using room_keeps [OF r g(2)] by simp
  from get_data_grown [OF dg k(2) this] show ?thesis using True g(1) e by (auto simp: next_dirent_blk_def)
next
  case False
  let ?p = "pos (32 * k div BDEV_BLK_SIZE)"
  obtain j where j: "k = j + 1" using False by (cases k) auto
  have "32 * j < i_size (ino f a)" using k(1) j by simp
  then have "node f a (pos (32 * j div BDEV_BLK_SIZE)) \<noteq> 0" using d unfolding dir_ok_def dense_def by blast
  then have "node f a ?p \<noteq> 0" using next_entry_blk [of j] False j by simp
  moreover have "next_dirent_blk a (32 * k) True cur (hold cur f) = Some (ERR_OK, node f a ?p, lk (node f a ?p) f)"
    using False c by (simp add: next_dirent_blk_def hold_def)
  moreover have "ext 6 a f f" using d by (intro ext_refl) (simp_all add: dir_ok_def)
  ultimately show ?thesis by blast
qed

text \<open>The first iteration that does not pass over its entry.\<close>

lemma alloc_at_slot:
  assumes d: "dir_ok f a" and r: "room 8 f" and n: "0 \<notin> set name" "length name < 28" and k: "k = slot (dentries f a)" "k mod 16 \<noteq> 15" "32 * k < SFS_MAX_FILE_SIZE"
    and c: "32 * k mod BDEV_BLK_SIZE \<noteq> 0 \<longrightarrow> cur = Some (node f a (pos (32 * k div BDEV_BLK_SIZE)))"
  shows "\<exists>er h. alloc_dirent_loop a name inum (32 * k) cur (hold cur f) = Some (er, h) \<and> keeps 8 f h
     \<and> (er = ERR_OK \<and> added a k (dirent_bytes inum name) (max (32 * k + 32) (i_size (ino f a))) f h \<or> er = ERR_NORES \<and> ext 6 a f h \<and> full h \<and> 32 * k = i_size (ino f a))"
proof (cases "32 * k < i_size (ino f a)")
  case True
  let ?b = "node f a (pos (32 * k div BDEV_BLK_SIZE))" and ?o = "32 * k mod BDEV_BLK_SIZE"
  have b: "length (buf (bl f) ?b) = BDEV_BLK_SIZE" "?b \<noteq> 0" using d True by (auto simp: dir_ok_def fs_ready_def dense_def)
  have kl: "k < length (dentries f a)" using True d by (auto simp: dentries_def dir_ok_def)
  have free: "rd32 ?o (buf (bl f) ?b) = 0" using slot_free [of "dentries f a"] kl k(1) dentry_eq [OF refl b(2,1)] by (simp add: dentries_def)
  obtain g where g: "next_dirent_blk a (32 * k) True cur (hold cur f) = Some (ERR_OK, ?b, lk ?b g)" "keeps 0 f g" "buf (bl g) = buf (bl f)" "ino g = ino f"
    using next_blk [OF d True c, of True] by (auto simp: hold_def [of "Some _"])
  have dg: "fs_ready g" "file_ok g a" "locks (bl g) = {}" using dir_ok_keeps [OF d g(2-4)] by (auto simp: dir_ok_def)
  note same = dentries_same [OF g(2-4)]
  have "room 1 g" "node g a (pos (32 * k div BDEV_BLK_SIZE)) = ?b" using room_keeps [OF r g(2), of 1] by (simp_all add: same)
  from write_entry [OF dg this b(2) n k(2,3), of inum] obtain x h where h: "write_dirent ?b ?o inum name (lk ?b g) = Some x" "release_blk ?b x = Some h"
      "added a k (dirent_bytes inum name) (i_size (ino g a)) g h" "keeps 1 g h"
    by auto
  have "alloc_dirent_loop a name inum (32 * k) cur (hold cur f) = Some (ERR_OK, h)"
    using k(3) g(1,3,4) True free h(1,2) by (subst alloc_dirent_loop.simps) (simp add: Let_def)
  moreover have "max (32 * k + 32) (i_size (ino f a)) = i_size (ino f a)" using True d by (auto simp: dir_ok_def)
  moreover have "added a k (dirent_bytes inum name) (i_size (ino f a)) f h" using added_alike [OF h(3), of f] g(4) by (simp add: same)
  moreover have "keeps 8 f h" using keeps_mono [OF keeps_trans [OF g(2) h(4)], of 8] by simp
  ultimately show ?thesis by auto
next
  case False
  let ?p = "pos (32 * k div BDEV_BLK_SIZE)" and ?o = "32 * k mod BDEV_BLK_SIZE"
  have ke: "32 * k = i_size (ino f a)" using False k(1) slot_le [of "dentries f a"] d by (auto simp: dentries_def dir_ok_def)
  from next_blk_new [OF d room_mono [OF r] ke k(3) c] consider
      g where "next_dirent_blk a (32 * k) True cur (hold cur f) = Some (ERR_OK, node g a ?p, lk (node g a ?p) g)" "ext 6 a f g" "node g a ?p \<noteq> 0"
    | g where "next_dirent_blk a (32 * k) True cur (hold cur f) = Some (ERR_NORES, 0, g)" "ext 6 a f g" "full g" by auto
  then show ?thesis
  proof cases
    case 1
    let ?b = "node g a ?p"
    note gr = growD [OF extD(1) [OF 1(2)]]
    have l: "locks (bl g) = {}" "room 2 g" "i_size (ino g a) = 32 * k" using keepsD(1) [OF gr(1)] d room_keeps [OF r gr(1), of 2] gr(9) ke by (auto simp: dir_ok_def)
    from append_entry [OF gr(2,3) l(1,2) refl 1(3) n k(2,3), of inum] obtain er y x h where
        h: "sfs_write_inode a (set_ino a (\<lambda>i. i\<lparr>i_size := 32 * k + 32, i_dirty := True\<rparr>) (lk ?b g)) = Some (er, y)"
        "write_dirent ?b ?o inum name y = Some x" "release_blk ?b x = Some h" "added a k (dirent_bytes inum name) (32 * k + 32) g h" "keeps 2 g h"
      by blast
    have "alloc_dirent_loop a name inum (32 * k) cur (hold cur f) = Some (ERR_OK, h)"
      using k(3) 1(1) l(3) h(1-3) by (subst alloc_dirent_loop.simps) (simp add: Let_def)
    moreover have "added a k (dirent_bytes inum name) (max (32 * k + 32) (i_size (ino f a))) f h"
      using added_alike [OF h(4), of f] gr(5) extD(2) [OF 1(2)] ke by simp
    moreover have "keeps 8 f h" using keeps_trans [OF gr(1) h(5)] by simp
    ultimately show ?thesis by auto
  next
    case 2
    have "alloc_dirent_loop a name inum (32 * k) cur (hold cur f) = Some (ERR_NORES, g)"
      using k(3) 2(1) by (subst alloc_dirent_loop.simps) simp
    then show ?thesis using 2(2,3) ke keeps_mono [OF growD(1) [OF extD(1) [OF 2(2)]], of 8] by auto
  qed
qed

lemma alloc_dirent_added:
  assumes d: "dir_ok f a" and r: "room 8 f" and n: "0 \<notin> set name" "length name < 28" and k: "k = slot (dentries f a)" "k mod 16 \<noteq> 15" "32 * k < SFS_MAX_FILE_SIZE"
  shows "\<exists>er h. alloc_dirent a name inum f = Some (er, h)
     \<and> (er = ERR_OK \<and> added a k (dirent_bytes inum name) (max (32 * k + 32) (i_size (ino f a))) f h \<or> er = ERR_NORES \<and> ext 6 a f h \<and> full h \<and> 32 * k = i_size (ino f a))"
proof -
  let ?B = "inum_to_blk (i_inum (ino f a))"
  have m: "mem (bl f) = []" using d by (simp add: dir_ok_def fs_ready_def)
  have al: "alike (rf ?B f) f" by simp
  have dr: "dir_ok (rf ?B f) a" using d alike_simps [OF al] by (simp add: dir_ok_def dense_def)
  have es: "dentries (rf ?B f) a = dentries f a" "node (rf ?B f) = node f" using alike_simps [OF al] by (simp_all add: dentries_def dentry_def [abs_def])
  obtain g cur where g: "alloc_dirent_loop a name inum 0 None (rf ?B f) = alloc_dirent_loop a name inum (32 * k) cur (hold cur g)" "keeps 0 (rf ?B f) g"
      "buf (bl g) = buf (bl f)" "ino g = ino f" "32 * k mod BDEV_BLK_SIZE \<noteq> 0 \<longrightarrow> cur = Some (node f a (pos (32 * k div BDEV_BLK_SIZE)))"
    using alloc_skip [OF dr, of 0 None name inum] k(1) unfolding es by (auto simp: hold_def)
  have gs: "buf (bl g) = buf (bl (rf ?B f))" "ino g = ino (rf ?B f)" using g(3,4) by simp_all
  note same = dentries_same [OF g(2) gs]
  have "room 8 (rf ?B f)" using r by (simp add: room_def rf_def)
  from room_keeps [OF this g(2)] have r8: "room 8 g" by simp
  obtain er h where h: "alloc_dirent_loop a name inum (32 * k) cur (hold cur g) = Some (er, h)" "keeps 8 g h"
      "er = ERR_OK \<and> added a k (dirent_bytes inum name) (max (32 * k + 32) (i_size (ino g a))) g h \<or> er = ERR_NORES \<and> ext 6 a g h \<and> full h \<and> 32 * k = i_size (ino g a)"
    using alloc_at_slot [OF dir_ok_keeps [OF dr g(2) gs] r8 n _ k(2,3), of cur inum] k(1) g(5) by (auto simp: same es)
  obtain x where x: "release_unlocked ?B h = Some x" "keeps 8 f x" "buf (bl x) = buf (bl h)" "ino x = ino h"
    using release_rf [of 8 ?B f h] keeps_trans [OF g(2) h(2)] by auto
  have ax: "alike x h" using x(3,4) keepsD [OF x(2)] keepsD [OF h(2)] keepsD [OF g(2)] by (simp add: alike_def)
  note xs = alike_simps [OF ax]
  have ok: "added a k (dirent_bytes inum name) (max (32 * k + 32) (i_size (ino f a))) f x" if a1: "added a k (dirent_bytes inum name) (max (32 * k + 32) (i_size (ino g a))) g h"
  proof -
    have "locks (bl x) = {}" using keepsD(1) [OF x(2)] d by (simp add: dir_ok_def)
    then show ?thesis using a1 by (simp add: added_def xs x(4) same es g(4)) (simp add: alike_simps [OF al])
  qed
  have "ext 6 a f x" if e: "ext 6 a g h"
  proof (rule ext_alike [OF e _ ax])
    show "alike f g" using g(3,4) keepsD [OF g(2)] by (simp add: alike_def rf_def)
    have "keeps 6 (rf ?B f) h" using keeps_trans [OF g(2) growD(1) [OF extD(1) [OF e]]] by simp
    then show "keeps 6 f x" using release_rf [of 6 ?B f h] x(1) by auto
  qed
  moreover have "full h \<Longrightarrow> full x" by (simp add: full_def xs)
  moreover have "alloc_dirent a name inum f = Some (er, x)" using get_rf [OF m] g(1) h(1) x(1) by (simp add: alloc_dirent_def Let_def)
  ultimately show ?thesis using h(3) ok g(4) by auto
qed

end
