(* ===== verification/Dirnames.thy ===== *)
theory Dirnames
  imports Dirs
begin

text \<open>
  What adding a name to a directory of \<open>Sfs\<close> does to its list of entries, and to the names that can be found in it.
\<close>

section \<open>The entries after an addition\<close>

text \<open>The entry behind the new one loses the lowest byte of its inode number.\<close>

fun clip :: "(nat \<times> u8 list) list \<Rightarrow> (nat \<times> u8 list) list" where
  "clip [] = []"
| "clip ((i, e) # es) = (i div 256 * 256, e) # es"

definition name_field :: "u8 list \<Rightarrow> u8 list" where
  "name_field name = name @ replicate (28 - length name) 0"

definition add_entry :: "nat \<Rightarrow> nat \<times> u8 list \<Rightarrow> (nat \<times> u8 list) list \<Rightarrow> (nat \<times> u8 list) list" where
  "add_entry k e es = take k es @ e # clip (drop (k + 1) es)"

lemma length_clip [simp]: "length (clip es) = length es"
  by (cases es rule: clip.cases) auto

lemma nth_clip: "j < length es \<Longrightarrow> clip es ! j = (if j = 0 then (fst (es ! 0) div 256 * 256, snd (es ! 0)) else es ! j)"
  by (cases es rule: clip.cases) (auto simp: nth_Cons')

lemma rd32_clip:
  fixes b :: u8
  assumes "3 \<le> length xs"
  shows "rd32 0 (0 # xs) = rd32 0 (b # xs) div 256 * 256"
proof -
  obtain r where r: "rd32 0 (c # xs) = unat c + 256 * r" for c
    using that [of "unat (xs ! 0) + 2 ^ 8 * unat (xs ! 1) + 2 ^ 16 * unat (xs ! 2)"] by (simp add: rd32_def dec32_def)
  have "unat b < 256" using unsigned_less [of b] by simp
  then show ?thesis by (simp add: r)
qed

lemma dirent_bytes_fields:
  assumes "length name < 28" "inum < 2 ^ 32"
  shows "rd32 0 (take 32 (dirent_bytes inum name)) = inum" "drop 4 (take 32 (dirent_bytes inum name)) = name_field name" "dirent_bytes inum name ! 32 = 0"
proof -
  have "replicate (29 - length name) 0 = replicate (28 - length name) 0 @ [0 :: u8]"
    using assms(1) by (metis Suc_diff_le less_imp_le_nat numeral_eq_Suc pred_numeral_simps(3) replicate_Suc replicate_append_same)
  then have e: "dirent_bytes inum name = enc32 inum @ name_field name @ [0]" by (simp add: dirent_bytes_def name_field_def)
  have l: "length (name_field name) = 28" using assms(1) by (simp add: name_field_def)
  then have t: "take 32 (dirent_bytes inum name) = enc32 inum @ name_field name" by (simp add: e)
  show "rd32 0 (take 32 (dirent_bytes inum name)) = inum" unfolding t using dec32_enc32 [of inum "name_field name"] assms(2) by (simp add: rd32_def)
  show "drop 4 (take 32 (dirent_bytes inum name)) = name_field name" unfolding t by simp
  show "dirent_bytes inum name ! 32 = 0" unfolding e using l by (simp add: nth_append)
qed

lemma cname_field: "0 \<notin> set name \<Longrightarrow> length name < 28 \<Longrightarrow> cname (name_field name) = name"
proof -
  assume n: "0 \<notin> set name" "length name < 28"
  have "takeWhile (\<lambda>c. c \<noteq> 0) (name @ replicate (28 - length name) 0) = name @ takeWhile (\<lambda>c. c \<noteq> 0) (replicate (28 - length name) 0)"
    using n(1) by (intro takeWhile_append2) auto
  then show ?thesis using n(2) by (simp add: cname_def name_field_def takeWhile_replicate)
qed

lemma bytes_of_entry: "dentry h a j = (rd32 0 (map (fbyte h a) [32 * j..<32 * j + 32]), drop 4 (map (fbyte h a) [32 * j..<32 * j + 32]))"
  by (simp add: dentry_def Let_def)

lemma added_entry:
  assumes ad: "added a k (dirent_bytes inum name) sz f h" and n: "length name < 28" "inum < 2 ^ 32" and j: "32 * j + 32 \<le> SFS_MAX_FILE_SIZE"
  shows "dentry h a j = (if j = k then (inum, name_field name) else if j = k + 1 then (fst (dentry f a j) div 256 * 256, snd (dentry f a j)) else dentry f a j)"
proof -
  let ?bs = "dirent_bytes inum name"
  have l: "length ?bs = 33" using n(1) by (rule length_dirent_bytes)
  have fb: "fbyte h a i = (if 32 * k \<le> i \<and> i < 32 * k + 33 then ?bs ! (i - 32 * k) else fbyte f a i)" if "i < 32 * j + 32" for i
    using ad that j l by (simp add: added_def)
  consider "j = k" | "j = k + 1" | "j < k \<or> k + 1 < j" by linarith
  then show ?thesis
  proof cases
    case 1
    then have "map (fbyte h a) [32 * j..<32 * j + 32] = take 32 ?bs" using fb l by (intro nth_equalityI) auto
    then show ?thesis using dirent_bytes_fields(1,2) [OF n] 1 by (simp add: bytes_of_entry)
  next
    case 2
    let ?t = "map (fbyte f a) [32 * j + 1..<32 * j + 32]"
    have u: "[32 * j..<32 * j + 32] = 32 * j # [32 * j + 1..<32 * j + 32]" by (simp add: upt_conv_Cons)
    have "map (fbyte h a) [32 * j + 1..<32 * j + 32] = ?t" using fb 2 by (intro map_cong) auto
    moreover have "fbyte h a (32 * j) = 0" using fb [of "32 * j"] dirent_bytes_fields(3) [OF n] 2 by simp
    ultimately have "map (fbyte h a) [32 * j..<32 * j + 32] = 0 # ?t" unfolding u by simp
    moreover have "map (fbyte f a) [32 * j..<32 * j + 32] = fbyte f a (32 * j) # ?t" unfolding u by simp
    ultimately show ?thesis using rd32_clip [of ?t "fbyte f a (32 * j)"] 2 by (simp add: bytes_of_entry del: upt_Suc)
  next
    case 3
    have "map (fbyte h a) [32 * j..<32 * j + 32] = map (fbyte f a) [32 * j..<32 * j + 32]" using fb 3 by (intro map_cong) auto
    then have "dentry h a j = dentry f a j" unfolding bytes_of_entry by (simp only:)
    then show ?thesis using 3 by auto
  qed
qed

lemma added_dir:
  assumes d: "dir_ok f a" and ad: "added a k (dirent_bytes inum name) (max (32 * k + 32) (i_size (ino f a))) f h" and n: "length name < 28" "inum < 2 ^ 32"
    and k: "32 * k \<le> i_size (ino f a)" "32 * k + 32 \<le> SFS_MAX_FILE_SIZE"
  shows "dir_ok h a" "dentries h a = add_entry k (inum, name_field name) (dentries f a)"
proof -
  let ?sz = "max (32 * k + 32) (i_size (ino f a))"
  have f: "dense f a" "32 dvd i_size (ino f a)" "i_size (ino f a) \<le> SFS_MAX_FILE_SIZE" using d by (auto simp: dir_ok_def dense_def)
  have h: "fs_ready h" "locks (bl h) = {}" "file_ok h a" "i_size (ino h a) = ?sz" "node h a (pos (32 * k div BDEV_BLK_SIZE)) \<noteq> 0"
      "\<And>p. p < NODES \<Longrightarrow> node f a p \<noteq> 0 \<Longrightarrow> node h a p = node f a p" using ad by (simp_all add: added_def)
  have sz: "?sz \<le> SFS_MAX_FILE_SIZE" "32 dvd ?sz" using f(2,3) k(2) by (auto simp: max_def)
  have "node h a (pos (i div BDEV_BLK_SIZE)) \<noteq> 0" if i: "i < ?sz" for i
  proof (cases "i < i_size (ino f a)")
    case True
    then have "node f a (pos (i div BDEV_BLK_SIZE)) \<noteq> 0" using f(1) by (simp add: dense_def)
    moreover have "pos (i div BDEV_BLK_SIZE) < NODES" using True f(3) by (intro pos_range) simp
    ultimately show ?thesis using h(6) by simp
  next
    case False
    then have "i div BDEV_BLK_SIZE = 32 * k div BDEV_BLK_SIZE" using i k(1) by (intro in_block [OF _ _ entry_in_blk]) auto
    then show ?thesis using h(5) by (simp only: not_False_eq_True)
  qed
  then show "dir_ok h a" using h(1-4) sz by (simp add: dir_ok_def dense_def)
  have lf: "length (dentries f a) = i_size (ino f a) div 32" by (simp add: dentries_def)
  have lh: "?sz div 32 = max (k + 1) (i_size (ino f a) div 32)" using f(2) by (auto simp: max_def)
  have kl: "k \<le> i_size (ino f a) div 32" using k(1) by simp
  show "dentries h a = add_entry k (inum, name_field name) (dentries f a)"
  proof (rule nth_equalityI)
    show len: "length (dentries h a) = length (add_entry k (inum, name_field name) (dentries f a))"
      using lf lh kl by (simp add: dentries_def h(4) add_entry_def)
    fix j assume j: "j < length (dentries h a)"
    then have jm: "j < max (k + 1) (i_size (ino f a) div 32)" using lh h(4) by (simp add: dentries_def)
    have "32 * j + 32 \<le> ?sz" using j h(4) sz(2) by (auto simp: dentries_def)
    then have "dentry h a j = (if j = k then (inum, name_field name) else if j = k + 1 then (fst (dentry f a j) div 256 * 256, snd (dentry f a j)) else dentry f a j)"
      using added_entry [OF ad n, of j] sz(1) by simp
    moreover have "dentries h a ! j = dentry h a j" using j by (simp add: dentries_def)
    moreover have "add_entry k (inum, name_field name) (dentries f a) ! j
        = (if j = k then (inum, name_field name) else if j = k + 1 then (fst (dentry f a j) div 256 * 256, snd (dentry f a j)) else dentry f a j)"
      using jm kl lf by (auto simp: add_entry_def nth_append nth_Cons' nth_clip dentries_def)
    ultimately show "dentries h a ! j = add_entry k (inum, name_field name) (dentries f a) ! j" by simp
  qed
qed

text \<open>A growing file keeps its entries.\<close>

lemma ext_dir:
  assumes d: "dir_ok f a" and e: "ext n a f g"
  shows "dir_ok g a" "dentries g a = dentries f a"
proof -
  note gr = growD [OF extD(1) [OF e]]
  have f: "dense f a" "32 dvd i_size (ino f a)" "i_size (ino f a) \<le> SFS_MAX_FILE_SIZE" using d by (auto simp: dir_ok_def dense_def)
  have sz: "i_size (ino g a) = i_size (ino f a)" using gr(9) by auto
  have "node g a (pos (i div BDEV_BLK_SIZE)) \<noteq> 0" if "i < i_size (ino f a)" for i
    using gr(5) [of "pos (i div BDEV_BLK_SIZE)"] pos_range [of i] f(1,3) that by (auto simp: dense_def)
  then show "dir_ok g a" using gr(2,3) keepsD(1) [OF gr(1)] d f sz by (simp add: dir_ok_def dense_def)
  have "dentry g a j = dentry f a j" if "j < i_size (ino f a) div 32" for j
  proof -
    have "32 * j + 32 \<le> i_size (ino f a)" using that f(2) by auto
    then have "map (fbyte g a) [32 * j..<32 * j + 32] = map (fbyte f a) [32 * j..<32 * j + 32]" using extD(2) [OF e] f(3) by (intro map_cong) auto
    then show ?thesis unfolding bytes_of_entry by (simp only:)
  qed
  then show "dentries g a = dentries f a" by (simp add: dentries_def sz)
qed

section \<open>Names\<close>

lemma lookup_append: "dir_lookup name (xs @ ys) = (if dir_lookup name xs = 0 then dir_lookup name ys else dir_lookup name xs)"
  by (induction xs) auto

lemma lookup_none: "dir_lookup name es = 0 \<longleftrightarrow> (\<forall>(i, e)\<in>set es. i > 0 \<longrightarrow> cname e \<noteq> take 28 name)"
  by (induction es) (auto split: if_splits)

lemma lookup_add_last:
  assumes "0 \<notin> set name" "length name < 28" "0 < inum" "dir_lookup name es = 0" "length es \<le> slot es + 1"
  shows "dir_lookup q (add_entry (slot es) (inum, name_field name) es) = (if take 28 q = name then inum else dir_lookup q es)"
proof -
  let ?k = "slot es"
  have free: "dir_lookup q (drop ?k es) = 0" for q
  proof (cases "?k < length es")
    case True
    then have "drop ?k es = es ! ?k # drop (?k + 1) es" by (simp add: Cons_nth_drop_Suc)
    then have "drop ?k es = [es ! ?k]" using assms(5) by simp
    then show ?thesis using slot_free [OF True] by (cases "es ! ?k") simp
  qed simp
  have "dir_lookup q (take ?k es @ drop ?k es) = dir_lookup q (take ?k es)" for q unfolding lookup_append using free by simp
  then have t: "dir_lookup q (take ?k es) = dir_lookup q es" for q by (metis append_take_drop_id)
  have "drop (?k + 1) es = []" using assms(5) by simp
  then have "add_entry ?k (inum, name_field name) es = take ?k es @ [(inum, name_field name)]" by (simp add: add_entry_def)
  moreover have "dir_lookup q es = 0" if "take 28 q = name" using assms(2,4) that by (simp add: lookup_none)
  ultimately show ?thesis using assms(3) cname_field [OF assms(1,2)] by (auto simp: lookup_append t)
qed

lemma search_dir_ok:
  assumes "dir_ok f a" "0 \<notin> set name"
  shows "\<exists>g. search_dir a name f = Some (dir_lookup name (dentries f a), g) \<and> keeps 0 f g \<and> buf (bl g) = buf (bl f) \<and> ino g = ino f"
  using search_loop_ok [OF assms, of 0 None] by (auto simp: search_dir_def hold_def)

text \<open>C37: Searching a directory for a name comes to an end and returns the inode number of the first entry in use that has the name, or 0 when there is none; it
  changes neither the buffers nor any inode. Names are compared by their first 28 bytes.\<close>

theorem dir_search_returns:
  assumes "dir_ok f a" "0 \<notin> set name"
  shows "\<exists>g. search_dir a name f = Some (dir_lookup name (dentries f a), g) \<and> buf (bl g) = buf (bl f) \<and> ino g = ino f"
  using search_dir_ok [OF assms] by blast

text \<open>C6: When no entry in use follows the first free one, adding a new name makes it findable with its inode number and changes the result for no other name; the
  only failure is a full disk, after which the directory has the same entries as before. Names have fewer than 28 bytes, and the
  free place is not the last one of its block.\<close>

theorem dir_add_finds:
  assumes d: "dir_ok f a" and r: "room 8 f" and n: "0 \<notin> set name" "length name < 28" "0 < inum" "inum < 2 ^ 32" "dir_lookup name (dentries f a) = 0"
    and k: "slot (dentries f a) mod 16 \<noteq> 15" "32 * slot (dentries f a) + 32 \<le> SFS_MAX_FILE_SIZE" "length (dentries f a) \<le> slot (dentries f a) + 1"
  shows "\<exists>er g. alloc_dirent a name inum f = Some (er, g) \<and> dir_ok g a
     \<and> (er = ERR_OK \<and> (\<forall>q. 0 \<notin> set q \<longrightarrow> (\<exists>h. search_dir a q g = Some (if take 28 q = name then inum else dir_lookup q (dentries f a), h)))
        \<or> er = ERR_NORES \<and> full g \<and> dentries g a = dentries f a)"
proof -
  let ?k = "slot (dentries f a)"
  obtain er g where g: "alloc_dirent a name inum f = Some (er, g)"
      "er = ERR_OK \<and> added a ?k (dirent_bytes inum name) (max (32 * ?k + 32) (i_size (ino f a))) f g \<or> er = ERR_NORES \<and> ext 6 a f g \<and> full g"
    using alloc_dirent_added [OF d r n(1,2) refl k(1), of inum] k(2) by auto
  have kl: "32 * ?k \<le> i_size (ino f a)" using slot_le [of "dentries f a"] by (simp add: dentries_def)
  show ?thesis
  proof (cases "er = ERR_OK")
    case True
    then have "added a ?k (dirent_bytes inum name) (max (32 * ?k + 32) (i_size (ino f a))) f g" using g(2) by simp
    note ad = added_dir [OF d this n(2,4) kl k(2)]
    have "\<exists>h. search_dir a q g = Some (if take 28 q = name then inum else dir_lookup q (dentries f a), h)" if "0 \<notin> set q" for q
      using search_dir_ok [OF ad(1) that] lookup_add_last [OF n(1-3,5) k(3), of q] unfolding ad(2) by auto
    then show ?thesis using g(1) True ad(1) by blast
  next
    case False
    then have e: "ext 6 a f g" "full g" "er = ERR_NORES" using g(2) by auto
    show ?thesis using g(1) e ext_dir [OF d e(1)] by auto
  qed
qed

lemma lookup_add_reuse:
  assumes k: "slot es + 1 < length es" "0 < fst (es ! (slot es + 1))" "fst (es ! (slot es + 1)) < 256"
    and q: "cname (snd (es ! (slot es + 1))) = take 28 q" "take 28 q \<noteq> name" "0 \<notin> set name" "length name < 28"
    and u: "\<forall>j<length es. j \<noteq> slot es + 1 \<longrightarrow> fst (es ! j) = 0 \<or> cname (snd (es ! j)) \<noteq> take 28 q"
  shows "dir_lookup q es = fst (es ! (slot es + 1))" "dir_lookup q (add_entry (slot es) (inum, name_field name) es) = 0"
proof -
  let ?k = "slot es"
  have other: "dir_lookup q xs = 0" if m: "\<forall>x\<in>set xs. \<exists>j<length es. j \<noteq> ?k + 1 \<and> x = es ! j" for xs
    unfolding lookup_none
  proof (clarsimp)
    fix i e assume ie: "(i, e) \<in> set xs" "0 < i" "cname e = take 28 q"
    then obtain j where "j < length es" "j \<noteq> ?k + 1" "(i, e) = es ! j" using m by blast
    then show False using spec [OF u, of j] ie by (metis fst_conv less_numeral_extra(3) snd_conv)
  qed
  have tk: "dir_lookup q (take (?k + 1) es) = 0" "dir_lookup q (take ?k es) = 0" by (rule other; force simp: in_set_conv_nth)+
  have dr: "dir_lookup q (drop (?k + 2) es) = 0"
  proof (rule other, rule ballI)
    fix x assume "x \<in> set (drop (?k + 2) es)"
    then obtain j where "j < length es - (?k + 2)" "x = es ! (?k + 2 + j)" by (auto simp: in_set_conv_nth)
    then show "\<exists>j<length es. j \<noteq> ?k + 1 \<and> x = es ! j" by (intro exI [of _ "?k + 2 + j"]) simp
  qed
  have e: "drop (?k + 1) es = es ! (?k + 1) # drop (?k + 2) es" using k(1) by (simp add: Cons_nth_drop_Suc)
  have "dir_lookup q es = dir_lookup q (take (?k + 1) es @ drop (?k + 1) es)" by simp
  then show "dir_lookup q es = fst (es ! (?k + 1))" unfolding lookup_append e using tk(1) k(2) q(1) by (cases "es ! (?k + 1)") simp
  show "dir_lookup q (add_entry ?k (inum, name_field name) es) = 0"
    unfolding add_entry_def e lookup_append using tk(2) dr k(3) q(2) cname_field [OF q(3,4)] by (cases "es ! (?k + 1)") simp
qed

text \<open>C38: Adding a name at a free place in the middle of a directory destroys the entry that follows: a file that could be found under its name, with an inode number below
  256, cannot be found any more afterwards, although the addition reports success.\<close>

theorem dir_reuse_loses_next:
  assumes d: "dir_ok f a" and r: "room 8 f" and n: "0 \<notin> set name" "length name < 28" "inum < 2 ^ 32" and k: "slot (dentries f a) mod 16 \<noteq> 15"
    and nx: "slot (dentries f a) + 1 < length (dentries f a)" "dentries f a ! (slot (dentries f a) + 1) = (i, e)" "0 < i" "i < 256" "cname e = q"
    and q: "length q \<le> 28" "0 \<notin> set q" "q \<noteq> name" "\<forall>j<length (dentries f a). j \<noteq> slot (dentries f a) + 1 \<longrightarrow> fst (dentries f a ! j) = 0 \<or> cname (snd (dentries f a ! j)) \<noteq> q"
  shows "(\<exists>g. search_dir a q f = Some (i, g)) \<and> (\<exists>g h. alloc_dirent a name inum f = Some (ERR_OK, g) \<and> search_dir a q g = Some (0, h))"
proof -
  let ?k = "slot (dentries f a)"
  have kl: "32 * ?k + 32 \<le> i_size (ino f a)" using nx(1) by (simp add: dentries_def)
  have mx: "32 * ?k + 32 \<le> SFS_MAX_FILE_SIZE" using kl d by (auto simp: dir_ok_def dense_def)
  obtain g where g: "alloc_dirent a name inum f = Some (ERR_OK, g)" "added a ?k (dirent_bytes inum name) (max (32 * ?k + 32) (i_size (ino f a))) f g"
    using alloc_dirent_added [OF d r n(1,2) refl k, of inum] mx kl by auto
  note ad = added_dir [OF d g(2) n(2,3) _ mx]
  have q28: "take 28 q = q" using q(1) by simp
  note lk = lookup_add_reuse [OF nx(1), of q, unfolded q28 nx(2) fst_conv snd_conv, OF nx(3-5) q(3) n(1,2) q(4)]
  have "dir_lookup q (dentries f a) = i" "dir_lookup q (dentries g a) = 0" using lk(1) lk(2) [of inum] ad(2) kl by simp_all
  then show ?thesis using search_dir_ok [OF d q(2)] search_dir_ok [OF ad(1) q(2)] g(1) kl by auto
qed

section \<open>Small directories\<close>

text \<open>The directory at address 0 of \<open>small_fs\<close> is empty; that of \<open>small_dir\<close> has a free entry and one for the name b.\<close>

lemma small_fs_dir: "dir_ok small_fs 0" "dentries small_fs 0 = []" "room 8 small_fs"
  using small_fs_ok by (auto simp: files_ok_def dir_ok_def dentries_def small_fs_def room_def)

definition small_dir :: fsst where
  "small_dir = small_fs\<lparr>
     bl := (bl small_fs)\<lparr>buf := (\<lambda>_. replicate 512 0)(5 := 1 # replicate 511 0, 136 := replicate 32 0 @ [7, 0, 0, 0, 98] @ replicate 475 0)\<rparr>,
     ino := \<lambda>x. \<lparr>i_inum = Suc x, i_ref = 1, i_nlink = 1, i_ftype = 1, i_mode = 0, i_size = 64, i_addrs = 136 # replicate 13 0, i_valid = True, i_dirty = False\<rparr>\<rparr>"

lemma small_dir_node: "p < NODES \<Longrightarrow> node small_dir 0 p = (if p = 0 then 136 else 0)"
proof (cases "p < 14")
  case False
  assume "p < NODES"
  then have "(p - 14) div 128 < 2" using False by (auto simp: less_mult_imp_div_less)
  then show ?thesis using False by (simp add: small_dir_def node_def Let_def nth_Cons')
qed (simp add: small_dir_def node_def nth_Cons')

lemma small_dir_used: "used small_dir 136"
  by (simp add: used_def data_blk_def bmap_of_def small_dir_def small_fs_def bmbit_def)

lemma small_dir_ok: "dir_ok small_dir 0" "room 8 small_dir"
proof -
  have "fs_ready small_dir" by (simp add: fs_ready_def small_dir_def small_fs_def sb_ok_def)
  moreover have "file_ok small_dir 0"
    using small_dir_node small_dir_used by (auto simp: file_ok_def inum_ok_def) (simp_all add: small_dir_def small_fs_def)
  moreover have "dense small_dir 0" using small_dir_node [of 0] by (auto simp: dense_def pos_def SFS_MAX_FILE_SIZE_def small_dir_def)
  ultimately show "dir_ok small_dir 0" by (simp add: dir_ok_def) (simp add: small_dir_def small_fs_def)
  show "room 8 small_dir" by (simp add: room_def small_dir_def small_fs_def)
qed

lemma small_dir_entries: "dentries small_dir 0 = [(0, replicate 28 0), (7, 98 # replicate 27 0)]"
proof -
  have b: "buf (bl small_dir) 136 = replicate 32 0 @ [7, 0, 0, 0, 98] @ replicate 475 0" by (simp add: small_dir_def)
  have z: "i_size (ino small_dir 0) div 32 = 2" by (simp add: small_dir_def)
  have "dentry small_dir 0 k = (rd32 (32 * k) (buf (bl small_dir) 136), take 28 (drop (32 * k + 4) (buf (bl small_dir) 136)))" if "k < 2" for k
    using dentry_eq [of small_dir 0 k 136] small_dir_node [of 0] that by (auto simp: pos_def b)
  then have "dentry small_dir 0 0 = (0, replicate 28 0)" "dentry small_dir 0 1 = (7, 98 # replicate 27 0)"
    by (simp_all add: b rd32_def dec32_def nth_append)
  then show ?thesis by (simp add: dentries_def z numeral_2_eq_2)
qed

theorem dir_search_returns_witness:
  "dir_ok small_dir 0 \<and> (\<exists>g. search_dir 0 [98] small_dir = Some (7, g) \<and> buf (bl g) = buf (bl small_dir) \<and> ino g = ino small_dir)"
proof -
  have "dir_lookup [98] (dentries small_dir 0) = 7" by (simp add: small_dir_entries cname_def takeWhile_replicate)
  then show ?thesis using dir_search_returns [OF small_dir_ok(1), of "[98]"] small_dir_ok(1) by simp
qed

theorem dir_add_finds_witness:
  "dir_ok small_fs 0 \<and> (\<exists>er g. alloc_dirent 0 [97] 3 small_fs = Some (er, g) \<and> dir_ok g 0
     \<and> (er = ERR_OK \<and> (\<exists>h. search_dir 0 [97] g = Some (3, h)) \<and> (\<exists>h. search_dir 0 [98] g = Some (0, h)) \<or> er = ERR_NORES \<and> full g \<and> dentries g 0 = []))"
proof -
  have "slot (dentries small_fs 0) = 0" by (simp add: small_fs_dir slot_def)
  with dir_add_finds [OF small_fs_dir(1,3), of "[97]" 3] obtain er g where g: "alloc_dirent 0 [97] 3 small_fs = Some (er, g)" "dir_ok g 0"
      "er = ERR_OK \<and> (\<forall>q. 0 \<notin> set q \<longrightarrow> (\<exists>h. search_dir 0 q g = Some (if take 28 q = [97] then 3 else dir_lookup q (dentries small_fs 0), h)))
        \<or> er = ERR_NORES \<and> full g \<and> dentries g 0 = dentries small_fs 0"
    by (auto simp: small_fs_dir SFS_MAX_FILE_SIZE_def)
  have "\<exists>h. search_dir 0 [97] g = Some (3, h)" "\<exists>h. search_dir 0 [98] g = Some (0, h)"
    if "\<forall>q. 0 \<notin> set q \<longrightarrow> (\<exists>h. search_dir 0 q g = Some (if take 28 q = [97] then 3 else dir_lookup q (dentries small_fs 0), h))"
    using spec [OF that, of "[97]"] spec [OF that, of "[98]"] by (simp_all add: small_fs_dir)
  then show ?thesis using g small_fs_dir by auto
qed

theorem dir_reuse_loses_next_witness:
  "(\<exists>g. search_dir 0 [98] small_dir = Some (7, g)) \<and> (\<exists>g h. alloc_dirent 0 [97] 3 small_dir = Some (ERR_OK, g) \<and> search_dir 0 [98] g = Some (0, h))"
proof -
  have s: "slot (dentries small_dir 0) = 0" by (simp add: small_dir_entries slot_def)
  show ?thesis
    by (rule dir_reuse_loses_next [OF small_dir_ok, where i = 7 and e = "98 # replicate 27 0"])
      (use s in \<open>auto simp: small_dir_entries cname_def takeWhile_replicate less_Suc_eq\<close>)
qed

end
