(* ===== verification/Paths.thy ===== *)
theory Paths
  imports Prelude
begin

text \<open>
  Path names: \<^verbatim>\<open>path_next_element\<close> and \<^verbatim>\<open>validate_flag\<close> of \<^verbatim>\<open>kernel/fs/fs.c\<close>.

  A C string is the list of its bytes before the terminating zero, and a pointer into it is the rest of the list, so
  \<^verbatim>\<open>*path == 0\<close> is the empty list. A call returns the name that it copies to the buffer and the rest of the path. The elements
  that repeated calls deliver are shown to be the parts of the path between slashes, cut off at the size of the buffer.
\<close>

section \<open>The next element\<close>

abbreviation (input) MAX_FILENAME_LEN :: nat where "MAX_FILENAME_LEN \<equiv> 64"

abbreviation (input) SLASH :: u8 where "SLASH \<equiv> 47"

fun skip_slashes :: "u8 list \<Rightarrow> u8 list" where
  "skip_slashes (c # path) = (if c = SLASH then skip_slashes path else c # path)"
| "skip_slashes [] = []"

fun skip_name :: "u8 list \<Rightarrow> u8 list" where
  "skip_name (c # path) = (if c \<noteq> SLASH then skip_name path else c # path)"
| "skip_name [] = []"

definition path_next_element :: "u8 list \<Rightarrow> u8 list \<times> u8 list" where
  "path_next_element path =
     (let path = skip_slashes path in
      if path = [] then ([], [])
      else
        let s = path; path = skip_name path; len = min (length s - length path) (MAX_FILENAME_LEN - 1) in
        (take len s, skip_slashes path))"

abbreviation (input) FS_RDWR :: u32 where "FS_RDWR \<equiv> 2"
abbreviation (input) FS_CREAT :: u32 where "FS_CREAT \<equiv> 0x100"

definition validate_flag :: "u32 \<Rightarrow> bool" where
  "validate_flag flags = (let flags = flags AND NOT FS_CREAT in flags = 0 \<or> flags = 1 \<or> flags = FS_RDWR)"

section \<open>All elements\<close>

lemma skip_slashes_shorter: "length (skip_slashes path) \<le> length path"
  by (induction path) auto

lemma skip_name_shorter: "length (skip_name path) \<le> length path"
  by (induction path) auto

lemma skip_slashes_head: "skip_slashes path = c # rest \<Longrightarrow> c \<noteq> SLASH"
  by (induction path) (auto split: if_splits)

lemma skip_slashes_noslash: "(\<forall>c rest. path = c # rest \<longrightarrow> c \<noteq> SLASH) \<Longrightarrow> skip_slashes path = path"
  by (cases path) auto

lemma skip_name_less: "skip_slashes path = c # rest \<Longrightarrow> length (skip_name (c # rest)) < length path"
  using skip_slashes_head [of path c rest] skip_name_shorter [of rest] skip_slashes_shorter [of path] by simp

lemma path_next_element_less:
  assumes "path_next_element path = (name, rest)" "name \<noteq> []"
  shows "length rest < length path"
  using assms skip_name_less [of path] skip_slashes_shorter [of "skip_name (skip_slashes path)"]
  by (cases "skip_slashes path") (auto simp: path_next_element_def Let_def)

lemma path_next_element_rest:
  assumes "path_next_element path = (name, rest)" "rest \<noteq> []"
  shows "name \<noteq> []" "length rest < length path"
proof -
  obtain c s where s: "skip_slashes path = c # s" using assms by (cases "skip_slashes path") (auto simp: path_next_element_def)
  then have "c \<noteq> SLASH" by (rule skip_slashes_head)
  moreover have "length (skip_name s) \<le> length s" by (rule skip_name_shorter)
  ultimately show "name \<noteq> []" using assms(1) s by (auto simp: path_next_element_def Let_def Suc_diff_le)
  then show "length rest < length path" using path_next_element_less assms(1) by blast
qed

function path_elements :: "u8 list \<Rightarrow> u8 list list" where
  "path_elements path = (case path_next_element path of (name, rest) \<Rightarrow> if name = [] then [] else name # path_elements rest)"
  by auto
termination by (relation "measure length") (auto dest: path_next_element_less [OF sym])

declare path_elements.simps [simp del]

text \<open>The parts of a list between separators.\<close>

fun split_on :: "'a \<Rightarrow> 'a list \<Rightarrow> 'a list list" where
  "split_on x [] = [[]]"
| "split_on x (y # ys) = (if y = x then [] # split_on x ys else case split_on x ys of p # ps \<Rightarrow> (y # p) # ps | [] \<Rightarrow> [[y]])"

definition components :: "u8 list \<Rightarrow> u8 list list" where
  "components path = filter (\<lambda>p. p \<noteq> []) (split_on SLASH path)"

lemma split_on_ne: "split_on x xs \<noteq> []"
  by (induction xs) (auto split: list.splits)

lemma split_on_name: "split_on x xs = takeWhile (\<lambda>y. y \<noteq> x) xs # tl (split_on x xs)"
  using split_on_ne [of x] by (induction xs) (auto split: list.splits)

lemma components_slashes: "components (skip_slashes path) = components path"
  by (induction path) (auto simp: components_def)

lemma skip_name_eq: "skip_name path = dropWhile (\<lambda>c. c \<noteq> SLASH) path"
  by (induction path) auto

lemma split_on_rest: "tl (split_on x xs) = (case dropWhile (\<lambda>y. y \<noteq> x) xs of [] \<Rightarrow> [] | _ # ys \<Rightarrow> split_on x ys)"
proof (induction xs)
  case (Cons y ys)
  have "tl (split_on x (y # ys)) = tl (split_on x ys)" if "y \<noteq> x" using that split_on_ne [of x ys] by (cases "split_on x ys") auto
  then show ?case using Cons by (cases "y = x") auto
qed simp

lemma components_name:
  assumes "c \<noteq> SLASH"
  shows "components (c # s) = takeWhile (\<lambda>c. c \<noteq> SLASH) (c # s) # components (skip_name (c # s))"
proof -
  let ?t = "takeWhile (\<lambda>c. c \<noteq> SLASH) (c # s)"
  have "components (c # s) = filter (\<lambda>p. p \<noteq> []) (?t # tl (split_on SLASH (c # s)))"
    unfolding components_def by (rule arg_cong [OF split_on_name])
  then have "components (c # s) = ?t # filter (\<lambda>p. p \<noteq> []) (tl (split_on SLASH (c # s)))" using assms by simp
  moreover have "filter (\<lambda>p. p \<noteq> []) (tl (split_on SLASH (c # s))) = components (skip_name (c # s))"
  proof (cases "skip_name (c # s)")
    case Nil
    then show ?thesis unfolding split_on_rest Nil skip_name_eq [symmetric] by (simp add: components_def)
  next
    case (Cons d t)
    then have "d = SLASH" using hd_dropWhile [of "\<lambda>c. c \<noteq> SLASH" "c # s"] by (simp add: skip_name_eq del: dropWhile.simps)
    then show ?thesis unfolding split_on_rest using Cons by (simp add: skip_name_eq components_def del: dropWhile.simps)
  qed
  ultimately show ?thesis by (simp only:)
qed

lemma path_next_components:
  "path_next_element path = (case components path of [] \<Rightarrow> ([], []) | p # ps \<Rightarrow> (take (MAX_FILENAME_LEN - 1) p, skip_slashes (skip_name (skip_slashes path))))"
proof (cases "skip_slashes path")
  case Nil
  then have "components path = []" using components_slashes [of path] by (simp add: components_def)
  then show ?thesis using Nil by (simp add: path_next_element_def)
next
  case (Cons c s)
  let ?t = "takeWhile (\<lambda>c. c \<noteq> SLASH) (c # s)"
  have c: "components path = ?t # components (skip_name (c # s))" using components_name [OF skip_slashes_head [OF Cons]] components_slashes [of path] Cons by simp
  have "?t @ skip_name (c # s) = c # s" unfolding skip_name_eq by (rule takeWhile_dropWhile_id)
  then have "length (c # s) - length (skip_name (c # s)) = length ?t" "take (length ?t) (c # s) = ?t"
    by (metis add_diff_cancel_right' length_append, metis append_eq_conv_conj)
  moreover have "take (min (length ?t) 63) (c # s) = take 63 (take (length ?t) (c # s))" by (simp add: min.commute)
  ultimately show ?thesis using c Cons by (simp add: path_next_element_def Let_def)
qed

lemma components_nonempty: "p \<in> set (components path) \<Longrightarrow> p \<noteq> []"
  by (simp add: components_def)

text \<open>Repeated calls deliver the parts of the path between slashes, cut off after 63 bytes; empty parts are skipped.\<close>

lemma path_elements_eq: "path_elements path = map (take (MAX_FILENAME_LEN - 1)) (components path)"
proof (induction path rule: path_elements.induct)
  case (1 path)
  show ?case
  proof (cases "components path")
    case Nil
    then show ?thesis by (simp add: path_elements.simps [of path] path_next_components)
  next
    case (Cons p ps)
    let ?r = "skip_slashes (skip_name (skip_slashes path))"
    have n: "path_next_element path = (take 63 p, ?r)" using Cons by (simp add: path_next_components)
    have "take 63 p \<noteq> []" using components_nonempty [of p path] Cons by simp
    moreover have "components ?r = ps"
    proof (cases "skip_slashes path")
      case Nil
      then show ?thesis using Cons components_slashes [of path] by (simp add: components_def)
    next
      case c: (Cons c s)
      show ?thesis using components_name [OF skip_slashes_head [OF c]] Cons c components_slashes [of path] by (simp add: components_slashes del: skip_name.simps)
    qed
    ultimately show ?thesis using 1 [OF n [symmetric]] Cons by (simp add: path_elements.simps [of path] n)
  qed
qed

end
