(* ===== verification/Fs.thy ===== *)
theory Fs
  imports Sfs Paths Pipes Console
begin

text \<open>
  The virtual file system: \<^verbatim>\<open>kernel/fs/fs.c\<close>, over \<open>Sfs\<close> for files on the disk, \<open>Pipes\<close> and \<open>Console\<close>.

  The operations on path names work on the state of \<open>Sfs\<close>; \<open>cwd\<close> is the inode of the current directory of the process, if
  there is one. An operation that changes the disk is a transaction. When another thread's transaction is running it waits, which
  is the outcome \<open>Blocked\<close>: the model follows a call up to its first wait. \<open>files\<close> holds the \<^verbatim>\<open>struct file\<close>s by their address, 0 and 1 are
  \<^verbatim>\<open>stdin\<close> and \<^verbatim>\<open>stdout\<close>, and \<open>fpool\<close> the free ones. Pipes have an address as well; a new one gets the next that was not used yet. \<open>None\<close> is
  a panic or the dereference of a null pointer.
\<close>

section \<open>Path lookup\<close>

function find_parent_loop :: "u8 list \<Rightarrow> nat \<Rightarrow> fsst \<Rightarrow> (err \<times> nat \<times> u8 list \<times> fsst) option" where
  "find_parent_loop path cur f = do {
     f \<leftarrow> ilock cur f;
     (if i_ftype (ino f cur) \<noteq> FTYPE_DIR then do {
        f \<leftarrow> iunlock cur f;
        f \<leftarrow> fs_release_inode cur f;
        Some (ERR_FTYPE, 0, [], f)
      }
      else
        (case path_next_element path of (name, rest) \<Rightarrow>
           if rest = [] then do { f \<leftarrow> iunlock cur f; Some (ERR_OK, cur, name, f) }
           else do {
             (er, nxt, f) \<leftarrow> sfs_lookup cur name f;
             f \<leftarrow> iunlock cur f;
             f \<leftarrow> fs_release_inode cur f;
             (if er \<noteq> ERR_OK then Some (er, 0, [], f) else find_parent_loop rest nxt f)
           }))
   }"
  by pat_completeness auto
termination by (relation "measure (\<lambda>(path, _). length path)") (auto dest: path_next_element_rest [OF sym])

declare find_parent_loop.simps [simp del]

definition start_inum :: "nat option \<Rightarrow> u8 list \<Rightarrow> fsst \<Rightarrow> nat" where
  "start_inum cwd path f =
     (case cwd of
        Some d \<Rightarrow> if path = [] \<or> hd path \<noteq> SLASH then i_inum (ino f d) else SFS_ROOT_INUM
      | None \<Rightarrow> SFS_ROOT_INUM)"

definition fs_find_parent_inode :: "nat option \<Rightarrow> u8 list \<Rightarrow> fsst \<Rightarrow> (err \<times> nat \<times> u8 list \<times> fsst) option" where
  "fs_find_parent_inode cwd path f = do {
     let inum = start_inum cwd path f;
     kassert (inum > 0);
     (er, c, f) \<leftarrow> fs_get_inode inum f;
     (if er \<noteq> ERR_OK then Some (er, 0, [], f) else find_parent_loop path c f)
   }"

definition fs_find_inode :: "nat option \<Rightarrow> u8 list \<Rightarrow> fsst \<Rightarrow> (err \<times> nat \<times> fsst) option" where
  "fs_find_inode cwd path f = do {
     (er, parent, name, f) \<leftarrow> fs_find_parent_inode cwd path f;
     (if er \<noteq> ERR_OK then Some (er, 0, f)
      else if name = [] then Some (ERR_OK, parent, f)
      else do {
        (er, a, f) \<leftarrow> sfs_lookup parent name f;
        f \<leftarrow> fs_release_inode parent f;
        Some (er, a, f)
      })
   }"

section \<open>Operations on path names\<close>

definition with_txn :: "(fsst \<Rightarrow> ('a \<times> fsst) option) \<Rightarrow> fsst \<Rightarrow> ('a \<times> fsst) outcome option" where
  "with_txn body f =
     (case jbd_begin_txn (jn f) of
        Blocked \<Rightarrow> Some Blocked
      | Ret j \<Rightarrow> do {
          (x, f) \<leftarrow> body (f\<lparr>jn := j\<rparr>);
          (j, s) \<leftarrow> jbd_end_txn (jn f) (bl f);
          Some (Ret (x, f\<lparr>jn := j, bl := s\<rparr>))
        })"

definition fs_link :: "nat option \<Rightarrow> u8 list \<Rightarrow> u8 list \<Rightarrow> fsst \<Rightarrow> (err \<times> fsst) outcome option" where
  "fs_link cwd oldpath newpath f = do {
     (er, src, f) \<leftarrow> fs_find_inode cwd oldpath f;
     (if er \<noteq> ERR_OK then Some (Ret (er, f))
      else if i_ftype (ino f src) \<noteq> FTYPE_FILE then do { f \<leftarrow> fs_release_inode src f; Some (Ret (ERR_FTYPE, f)) }
      else do {
        (er, dir, name, f) \<leftarrow> fs_find_parent_inode cwd newpath f;
        (if er \<noteq> ERR_OK then do { f \<leftarrow> fs_release_inode src f; Some (Ret (er, f)) }
         else if name = [] then do {
           f \<leftarrow> fs_release_inode dir f;
           f \<leftarrow> fs_release_inode src f;
           Some (Ret (ERR_EXIST, f))
         }
         else with_txn (\<lambda>f. do {
           f \<leftarrow> ilock src f;
           f \<leftarrow> ilock dir f;
           (er, f) \<leftarrow> sfs_link dir src name f;
           f \<leftarrow> iunlock dir f;
           f \<leftarrow> iunlock src f;
           f \<leftarrow> fs_release_inode dir f;
           f \<leftarrow> fs_release_inode src f;
           Some (er, f)
         }) f)
      })
   }"

text \<open>The transaction that \<^verbatim>\<open>fs_unlink\<close>, \<^verbatim>\<open>fs_mkdir\<close> and \<^verbatim>\<open>fs_rmdir\<close> share: they differ in the operation on the directory and in the error for the root.\<close>

definition change_dir :: "err \<Rightarrow> (nat \<Rightarrow> u8 list \<Rightarrow> fsst \<Rightarrow> (err \<times> fsst) option) \<Rightarrow> nat option \<Rightarrow> u8 list \<Rightarrow> fsst \<Rightarrow> (err \<times> fsst) outcome option" where
  "change_dir root_err op cwd path f = do {
     (er, dir, name, f) \<leftarrow> fs_find_parent_inode cwd path f;
     (if er \<noteq> ERR_OK then Some (Ret (er, f))
      else if name = [] then do { f \<leftarrow> fs_release_inode dir f; Some (Ret (root_err, f)) }
      else with_txn (\<lambda>f. do {
        f \<leftarrow> ilock dir f;
        (er, f) \<leftarrow> op dir name f;
        f \<leftarrow> iunlock dir f;
        f \<leftarrow> fs_release_inode dir f;
        Some (er, f)
      }) f)
   }"

definition fs_unlink :: "nat option \<Rightarrow> u8 list \<Rightarrow> fsst \<Rightarrow> (err \<times> fsst) outcome option" where
  "fs_unlink cwd path f = change_dir ERR_FTYPE sfs_unlink cwd path f"

abbreviation (input) FMODE_R :: nat where "FMODE_R \<equiv> 4"
abbreviation (input) FMODE_X :: nat where "FMODE_X \<equiv> 1"

definition fs_mkdir :: "nat option \<Rightarrow> u8 list \<Rightarrow> fsst \<Rightarrow> (err \<times> fsst) outcome option" where
  "fs_mkdir cwd path f = change_dir ERR_EXIST (\<lambda>dir name. sfs_mkdir dir name (FMODE_R + FMODE_X)) cwd path f"

definition fs_rmdir :: "nat option \<Rightarrow> u8 list \<Rightarrow> fsst \<Rightarrow> (err \<times> fsst) outcome option" where
  "fs_rmdir cwd path f = change_dir ERR_NOTEMPTY sfs_rmdir cwd path f"

section \<open>The cleanup thread\<close>

partial_function (option) delete_retry :: "nat \<Rightarrow> fsst \<Rightarrow> fsst option" where
  "delete_retry a f = do { (er, f) \<leftarrow> sfs_delete_inode a f; (if er \<noteq> ERR_OK then delete_retry a f else Some f) }"

partial_function (option) write_retry :: "nat \<Rightarrow> fsst \<Rightarrow> fsst option" where
  "write_retry a f = do { (er, f) \<leftarrow> sfs_write_inode a f; (if er \<noteq> ERR_OK then write_retry a f else Some f) }"

text \<open>One round of \<^verbatim>\<open>fs_inode_cleanup_thread\<close>; with an empty list it waits.\<close>

definition fs_inode_cleanup :: "fsst \<Rightarrow> fsst outcome option" where
  "fs_inode_cleanup f =
     (case cleanup f of
        [] \<Rightarrow> Some Blocked
      | a # as \<Rightarrow> do {
          r \<leftarrow> with_txn (\<lambda>f. do {
            f \<leftarrow> ilock a f;
            f \<leftarrow> (if i_nlink (ino f a) = 0 then delete_retry a f
                  else do { kassert (i_dirty (ino f a)); write_retry a f });
            f \<leftarrow> iunlock a f;
            Some ((), f)
          }) (f\<lparr>cleanup := as\<rparr>);
          (case r of
             Blocked \<Rightarrow> Some Blocked
           | Ret (_, f) \<Rightarrow> do { f \<leftarrow> fs_release_inode a f; Some (Ret f) })
        })"

section \<open>Open files\<close>

datatype file_operations = Sfs_ops | Pipe_ops | Stdin_ops | Stdout_ops | Null_ops

record ofile =
  f_ref :: int
  oflag :: u32
  f_inode :: "nat option"
  f_pos :: nat
  f_ops :: file_operations
  f_info :: "nat option"

record vfs =
  fs :: fsst
  files :: "nat \<Rightarrow> ofile"
  fpool :: "nat list"
  pipes :: "nat \<Rightarrow> pipe"
  npipes :: nat
  bbq_cache :: bool
  cons :: console

abbreviation (input) STDIN :: nat where "STDIN \<equiv> 0"
abbreviation (input) STDOUT :: nat where "STDOUT \<equiv> 1"

definition set_file :: "nat \<Rightarrow> (ofile \<Rightarrow> ofile) \<Rightarrow> vfs \<Rightarrow> vfs" where
  "set_file x g v = v\<lparr>files := (files v)(x := g (files v x))\<rparr>"

definition fs_alloc_file :: "vfs \<Rightarrow> nat option \<times> vfs" where
  "fs_alloc_file v =
     (case fpool v of
        [] \<Rightarrow> (None, v)
      | x # xs \<Rightarrow> (Some x, v\<lparr>fpool := xs, files := (files v)(x :=
          \<lparr>f_ref = 1, oflag = 0, f_inode = None, f_pos = 0, f_ops = Null_ops, f_info = None\<rparr>)\<rparr>))"

definition fs_free_file :: "nat \<Rightarrow> vfs \<Rightarrow> vfs" where
  "fs_free_file x v = v\<lparr>fpool := x # fpool v\<rparr>"

text \<open>The part of \<^verbatim>\<open>fs_open_file\<close> inside the transaction, up to the allocation of the file object, which does not depend on it.\<close>

definition open_leaf :: "nat \<Rightarrow> u8 list \<Rightarrow> u32 \<Rightarrow> nat \<Rightarrow> fsst \<Rightarrow> ((err \<times> nat) \<times> fsst) option" where
  "open_leaf parent name flags mode f =
     (if name = [] then Some ((ERR_OK, parent), f)
      else do {
        f \<leftarrow> ilock parent f;
        (er, fi, f) \<leftarrow> sfs_lookup parent name f;
        (er, fi, f) \<leftarrow>
          (if er \<noteq> ERR_NOTEXIST \<or> flags AND FS_CREAT = 0 then Some (er, fi, f)
           else do {
             (er, f) \<leftarrow> sfs_create parent name mode f;
             (if er \<noteq> ERR_OK then do { kassert (er \<noteq> ERR_EXIST); Some (er, 0, f) }
              else do {
                (er, fi, f) \<leftarrow> sfs_lookup parent name f;
                kassert (er \<noteq> ERR_NOTEXIST);
                Some (er, fi, f)
              })
           });
        f \<leftarrow> iunlock parent f;
        Some ((er, fi), f)
      })"

definition fs_open_file :: "nat option \<Rightarrow> u8 list \<Rightarrow> u32 \<Rightarrow> nat \<Rightarrow> vfs \<Rightarrow> (err \<times> nat \<times> vfs) outcome option" where
  "fs_open_file cwd path flags mode v =
     (if \<not> validate_flag flags then Some (Ret (ERR_INVAL, 0, v))
      else do {
        (er, parent, name, f) \<leftarrow> fs_find_parent_inode cwd path (fs v);
        (if er \<noteq> ERR_OK then Some (Ret (er, 0, v\<lparr>fs := f\<rparr>))
         else do {
           r \<leftarrow> with_txn (open_leaf parent name flags mode) f;
           (case r of
              Blocked \<Rightarrow> Some Blocked
            | Ret ((er, fi), f) \<Rightarrow>
                if er \<noteq> ERR_OK then do { f \<leftarrow> fs_release_inode parent f; Some (Ret (er, 0, v\<lparr>fs := f\<rparr>)) }
                else
                  (case fs_alloc_file v of
                     (None, v) \<Rightarrow> do {
                       f \<leftarrow> fs_release_inode fi f;
                       f \<leftarrow> fs_release_inode parent f;
                       Some (Ret (ERR_NOMEM, 0, v\<lparr>fs := f\<rparr>))
                     }
                   | (Some x, v) \<Rightarrow> do {
                       let v = set_file x (\<lambda>e. e\<lparr>f_inode := Some fi, f_ops := Sfs_ops, oflag := flags AND NOT FS_CREAT\<rparr>) v;
                       f \<leftarrow> fs_release_inode parent f;
                       Some (Ret (ERR_OK, x, v\<lparr>fs := f\<rparr>))
                     }))
         })
      })"

definition fs_reopen_file :: "nat \<Rightarrow> vfs \<Rightarrow> vfs" where
  "fs_reopen_file x v = set_file x (\<lambda>e. e\<lparr>f_ref := f_ref e + 1\<rparr>) v"

text \<open>The \<^verbatim>\<open>close\<close> operation of the file; only pipes have one.\<close>

definition close_op :: "nat \<Rightarrow> vfs \<Rightarrow> vfs option" where
  "close_op x v =
     (case f_ops (files v x) of
        Null_ops \<Rightarrow> None
      | Pipe_ops \<Rightarrow> do {
          i \<leftarrow> f_info (files v x);
          p \<leftarrow> pipe_close (unat (oflag (files v x))) (pipes v i);
          Some (v\<lparr>pipes := (pipes v)(i := p)\<rparr>)
        }
      | _ \<Rightarrow> Some v)"

definition fs_close_file :: "nat \<Rightarrow> vfs \<Rightarrow> vfs option" where
  "fs_close_file x v =
     (let v = set_file x (\<lambda>e. e\<lparr>f_ref := f_ref e - 1\<rparr>) v in
      if f_ref (files v x) > 0 \<or> x = STDIN \<or> x = STDOUT then Some v
      else do {
        v \<leftarrow> (case f_inode (files v x) of
                Some a \<Rightarrow> do { f \<leftarrow> fs_release_inode a (fs v); Some (v\<lparr>fs := f\<rparr>) }
              | None \<Rightarrow> Some v);
        v \<leftarrow> close_op x v;
        Some (fs_free_file x v)
      })"

text \<open>Reading returns the bytes that are put in the buffer and the new offset.\<close>

definition fs_read_file :: "nat \<Rightarrow> u64 \<Rightarrow> nat \<Rightarrow> vfs \<Rightarrow> (u8 list \<times> nat \<times> vfs) outcome option" where
  "fs_read_file x count ofs v =
     (if oflag (files v x) = 1 then Some (Ret ([], ofs, v))
      else
        (case f_ops (files v x) of
           Sfs_ops \<Rightarrow> do {
             a \<leftarrow> f_inode (files v x);
             (bs, ofs, f) \<leftarrow> sfs_read a (unat count) ofs (fs v);
             Some (Ret (bs, ofs, v\<lparr>fs := f\<rparr>))
           }
         | Pipe_ops \<Rightarrow> do {
             i \<leftarrow> f_info (files v x);
             r \<leftarrow> pipe_read count (pipes v i);
             (case r of Blocked \<Rightarrow> Some Blocked | Ret (bs, p) \<Rightarrow> Some (Ret (bs, ofs, v\<lparr>pipes := (pipes v)(i := p)\<rparr>)))
           }
         | Stdin_ops \<Rightarrow>
             (case console_read (nat (int_of_size count)) (cons v) of
                Wait _ _ _ \<Rightarrow> Some Blocked
              | Done bs c \<Rightarrow> Some (Ret (bs, ofs, v\<lparr>cons := c\<rparr>)))
         | _ \<Rightarrow> None))"

text \<open>Writing returns the number that the source returns and the new offset.\<close>

definition fs_write_file :: "nat \<Rightarrow> u8 list \<Rightarrow> nat \<Rightarrow> vfs \<Rightarrow> (int \<times> nat \<times> vfs) outcome option" where
  "fs_write_file x bs ofs v =
     (case f_inode (files v x) of
        Some a \<Rightarrow> do {
          r \<leftarrow> with_txn (\<lambda>f.
            if oflag (files v x) = 0 then Some ((0, ofs), f)
            else
              (case f_ops (files v x) of
                 Sfs_ops \<Rightarrow> do { (ws, ofs, f) \<leftarrow> sfs_write a bs ofs f; Some ((int ws, ofs), f) }
               | _ \<Rightarrow> None)) (fs v);
          (case r of Blocked \<Rightarrow> Some Blocked | Ret ((ws, ofs), f) \<Rightarrow> Some (Ret (ws, ofs, v\<lparr>fs := f\<rparr>)))
        }
      | None \<Rightarrow>
          if oflag (files v x) = 0 then Some (Ret (0, ofs, v))
          else
            (case f_ops (files v x) of
               Pipe_ops \<Rightarrow> do {
                 i \<leftarrow> f_info (files v x);
                 r \<leftarrow> pipe_write bs (of_nat (length bs)) (pipes v i);
                 (case r of Blocked \<Rightarrow> Some Blocked | Ret (ws, p) \<Rightarrow> Some (Ret (ws, ofs, v\<lparr>pipes := (pipes v)(i := p)\<rparr>)))
               }
             | Stdout_ops \<Rightarrow> (case console_write bs (cons v) of (ws, c) \<Rightarrow> Some (Ret (int ws, ofs, v\<lparr>cons := c\<rparr>)))
             | _ \<Rightarrow> None))"

definition fs_readdir :: "nat \<Rightarrow> vfs \<Rightarrow> (err \<times> (nat \<times> u8 list) \<times> vfs) option" where
  "fs_readdir x v = do {
     a \<leftarrow> f_inode (files v x);
     (if i_ftype (ino (fs v) a) \<noteq> FTYPE_DIR then Some (ERR_FTYPE, (0, []), v)
      else do {
        (er, d, p, f) \<leftarrow> sfs_readdir a (f_pos (files v x)) (fs v);
        Some (er, d, set_file x (\<lambda>e. e\<lparr>f_pos := p\<rparr>) (v\<lparr>fs := f\<rparr>))
      })
   }"

end
