(* ===== verification/Vfs.thy ===== *)
theory Vfs
  imports Fs
begin

text \<open>
  Properties of the virtual file system of \<open>Fs\<close>: what a path name denotes, what the cleanup thread does to an inode without
  links, and the reference counts of inodes over opening and closing.
\<close>

section \<open>Path names\<close>

text \<open>Following a list of names from a directory, one lookup for each.\<close>

fun walk :: "u8 list list \<Rightarrow> nat \<Rightarrow> fsst \<Rightarrow> (err \<times> nat \<times> fsst) option" where
  "walk ns c f = do {
     f \<leftarrow> ilock c f;
     (if i_ftype (ino f c) \<noteq> FTYPE_DIR then do { f \<leftarrow> iunlock c f; f \<leftarrow> fs_release_inode c f; Some (ERR_FTYPE, 0, f) }
      else
        (case ns of
           [] \<Rightarrow> do { f \<leftarrow> iunlock c f; Some (ERR_OK, c, f) }
         | n # ns \<Rightarrow> do {
             (er, d, f) \<leftarrow> sfs_lookup c n f;
             f \<leftarrow> iunlock c f;
             f \<leftarrow> fs_release_inode c f;
             (if er \<noteq> ERR_OK then Some (er, 0, f) else walk ns d f)
           }))
   }"

declare walk.simps [simp del]

definition leaf :: "u8 list list \<Rightarrow> u8 list" where
  "leaf ns = (if ns = [] then [] else last ns)"

lemma path_elements_Nil: "path_elements path = [] \<longleftrightarrow> fst (path_next_element path) = []"
  by (simp add: path_elements.simps [of path] split: prod.split)

lemma elements_last: "path_next_element path = (name, []) \<Longrightarrow> path_elements path = (if name = [] then [] else [name])"
proof -
  assume n: "path_next_element path = (name, [])"
  have "path_elements [] = []" by (simp add: path_elements.simps [of "[]"] path_next_element_def)
  then show ?thesis by (simp add: path_elements.simps [of path] n)
qed

lemma elements_step:
  assumes n: "path_next_element path = (name, rest)" "rest \<noteq> []"
  shows "path_elements path = name # path_elements rest" "path_elements rest \<noteq> []"
proof -
  show "path_elements path = name # path_elements rest" using path_next_element_rest(1) [OF n] n(1) by (simp add: path_elements.simps [of path])
  obtain c s where "skip_slashes path = c # s" and r: "rest = skip_slashes (skip_name (skip_slashes path))"
    using n by (cases "skip_slashes path") (auto simp: path_next_element_def Let_def)
  obtain d t where d: "rest = d # t" using n(2) by (cases rest) auto
  have "d \<noteq> SLASH" using skip_slashes_head [of "skip_name (skip_slashes path)" d t] r d by simp
  then have "components rest \<noteq> []" using components_name [of d t] d by simp
  then show "path_elements rest \<noteq> []" by (simp add: path_elements_eq)
qed

lemma find_parent_walk:
  "find_parent_loop path c f = do {
     (er, d, f) \<leftarrow> walk (butlast (path_elements path)) c f;
     Some (er, d, if er = ERR_OK then leaf (path_elements path) else [], f)
   }"
proof (induction path c f rule: find_parent_loop.induct)
  case (1 path c f)
  obtain name rest where n: "path_next_element path = (name, rest)" by fastforce
  show ?case
  proof (cases "rest = []")
    case True
    then show ?thesis using elements_last [of path name] n
      by (auto simp: find_parent_loop.simps [of path] walk.simps leaf_def bind_assoc split: bind_split)
  next
    case False
    note es = elements_step [OF n False]
    show ?thesis using n False es 1
      by (auto simp: find_parent_loop.simps [of path] walk.simps [of "name # _"] leaf_def split: bind_split)
  qed
qed

text \<open>C34: A path name denotes what its parts between slashes denote: the lookup of the parent directory starts at the root, or at the current
  directory for a path without a leading slash, follows all parts but the last with one directory lookup each, and yields the last part as the name of the
  leaf. Repeated, leading and trailing slashes have no effect, and every part is cut off after 63 bytes. The lookup comes to an end for every path.\<close>

theorem path_lookup_components:
  "fs_find_parent_inode cwd path f = do {
     kassert (start_inum cwd path f > 0);
     (er, c, f) \<leftarrow> fs_get_inode (start_inum cwd path f) f;
     (if er \<noteq> ERR_OK then Some (er, 0, [], f)
      else do {
        (er, d, f) \<leftarrow> walk (butlast (map (take 63) (components path))) c f;
        Some (er, d, if er = ERR_OK then leaf (map (take 63) (components path)) else [], f)
      })
   }"
proof -
  have "(64 - 1 :: nat) = 63" by simp
  then show ?thesis unfolding fs_find_parent_inode_def find_parent_walk path_elements_eq Let_def by (simp only:)
qed

section \<open>The cleanup thread\<close>

lemma delete_inum: "sfs_delete_inode a f = Some (ERR_OK, g) \<Longrightarrow> i_inum (ino g a) = 0"
proof -
  assume "sfs_delete_inode a f = Some (ERR_OK, g)"
  then obtain h where "g = set_ino a (\<lambda>i. i\<lparr>i_inum := 0, i_valid := False, i_dirty := False\<rparr>) h"
    by (auto simp: sfs_delete_inode_def bind_Some_iff split: if_splits prod.splits) metis+
  then show ?thesis by (simp add: set_ino_def)
qed

lemma delete_retry_inum: "delete_retry a f = Some g \<Longrightarrow> i_inum (ino g a) = 0"
  by (rule delete_retry.raw_induct [where P = "\<lambda>a f g. i_inum (ino g a) = 0"]) (auto simp: bind_Some_iff delete_inum split: if_splits)

lemma release_no_inum: "i_inum (ino f a) = 0 \<Longrightarrow> fs_release_inode a f = None"
  by (auto simp: fs_release_inode_def ilock_def kassert_def)

text \<open>C36: A round of the cleanup thread never gets through with an inode that has no links left: deleting the inode sets its number to 0, and
  giving back the reference then fails the assertion that the number is positive.\<close>

theorem cleanup_of_unlinked_panics:
  assumes "cleanup f = a # as" "i_nlink (ino f a) = 0"
  shows "fs_inode_cleanup f \<noteq> Some (Ret g)"
proof
  assume "fs_inode_cleanup f = Some (Ret g)"
  then obtain r where r: "with_txn (\<lambda>f. do {
        f \<leftarrow> ilock a f;
        f \<leftarrow> (if i_nlink (ino f a) = 0 then delete_retry a f else do { kassert (i_dirty (ino f a)); write_retry a f });
        f \<leftarrow> iunlock a f;
        Some ((), f)
      }) (f\<lparr>cleanup := as\<rparr>) = Some r" "(case r of Blocked \<Rightarrow> Some Blocked | Ret (_, f) \<Rightarrow> do { f \<leftarrow> fs_release_inode a f; Some (Ret f) }) = Some (Ret g)"
    using assms(1) unfolding fs_inode_cleanup_def by (auto simp: bind_Some_iff [of "with_txn _ _"])
  obtain u h where h: "r = Ret (u, h)" "fs_release_inode a h = Some g" using r(2) by (cases r) (auto simp: bind_Some_iff)
  have "i_inum (ino h a) = 0"
    using r(1) h(1) assms(2) by (auto simp: with_txn_def bind_Some_iff ilock_def iunlock_def split: outcome.splits if_splits dest: delete_retry_inum)
  then show False using h(2) release_no_inum by simp
qed

section \<open>Opening the root directory\<close>

text \<open>A directory inode in the inode cache, with \<open>n\<close> references, that is not locked; the journal is not in a transaction.\<close>

definition cached_dir :: "nat \<Rightarrow> nat \<Rightarrow> nat \<Rightarrow> fsst \<Rightarrow> bool" where
  "cached_dir inum r n f \<longleftrightarrow> icache f inum = Some r \<and> i_inum (ino f r) = inum \<and> i_valid (ino f r) \<and> i_ftype (ino f r) = FTYPE_DIR \<and> i_ref (ino f r) = n
     \<and> r \<notin> ilocks f \<and> (enabled (jn f) \<longrightarrow> jstate (jn f) = IDLE \<and> datablks (jn f) = [])"

lemma get_cached:
  assumes "cached_dir inum r n f"
  shows "\<exists>g. fs_get_inode inum f = Some (ERR_OK, r, g) \<and> cached_dir inum r (n + 1) g"
proof -
  let ?g = "set_ino r (\<lambda>i. i\<lparr>i_ref := i_ref i + 1\<rparr>) f"
  have "ilock r ?g = Some (?g\<lparr>ilocks := insert r (ilocks f)\<rparr>)" "iunlock r (?g\<lparr>ilocks := insert r (ilocks f)\<rparr>) = Some (?g\<lparr>ilocks := ilocks f\<rparr>)"
    using assms by (auto simp: cached_dir_def ilock_def iunlock_def set_ino_def)
  then have "fs_get_inode inum f = Some (ERR_OK, r, ?g\<lparr>ilocks := ilocks f\<rparr>)"
    using assms by (simp add: fs_get_inode_def cached_inode_def cached_dir_def set_ino_def)
  then show ?thesis using assms by (simp add: cached_dir_def set_ino_def)
qed

lemma release_cached:
  assumes "cached_dir inum r (n + 1) f" "0 < inum" "0 < n"
  shows "\<exists>g. fs_release_inode r f = Some g \<and> cached_dir inum r n g"
  using assms by (auto simp: fs_release_inode_def ilock_def iunlock_def set_ino_def cached_dir_def)

lemma find_root:
  assumes "cached_dir SFS_ROOT_INUM r n f"
  shows "\<exists>g. fs_find_parent_inode cwd [SLASH] f = Some (ERR_OK, r, [], g) \<and> cached_dir SFS_ROOT_INUM r (n + 1) g"
proof -
  obtain g where g: "fs_get_inode SFS_ROOT_INUM f = Some (ERR_OK, r, g)" "cached_dir SFS_ROOT_INUM r (n + 1) g" using get_cached [OF assms] by blast
  have "start_inum cwd [SLASH] f = SFS_ROOT_INUM" by (simp add: start_inum_def split: option.split)
  moreover have "\<exists>h. find_parent_loop [SLASH] r g = Some (ERR_OK, r, [], h) \<and> cached_dir SFS_ROOT_INUM r (n + 1) h"
    using g(2) by (auto simp: find_parent_loop.simps [of "[SLASH]"] path_next_element_def ilock_def iunlock_def cached_dir_def)
  ultimately show ?thesis using g(1) by (simp add: fs_find_parent_inode_def)
qed

lemma with_empty_txn:
  assumes "cached_dir inum r n f"
  shows "\<exists>g. with_txn (\<lambda>f. Some (x, f)) f = Some (Ret (x, g)) \<and> cached_dir inum r n g"
  using assms by (auto simp: with_txn_def jbd_begin_txn_def jbd_end_txn_def cached_dir_def)

text \<open>C35: Opening the root directory stores its inode in the new file without keeping a reference for it: the reference that the path lookup
  took is given back, because the same inode is also the parent. Closing the file gives back a reference nevertheless, so
  afterwards the count is one less than before, although all earlier users still hold their references.\<close>

theorem open_root_loses_reference:
  assumes r: "cached_dir SFS_ROOT_INUM r n (fs v)" "1 < n" and x: "fpool v = x # xs" "1 < x"
  shows "\<exists>v1 v2. fs_open_file cwd [SLASH] 0 0 v = Some (Ret (ERR_OK, x, v1)) \<and> f_inode (files v1 x) = Some r \<and> i_ref (ino (fs v1) r) = n
     \<and> fs_close_file x v1 = Some v2 \<and> i_ref (ino (fs v2) r) = n - 1"
proof -
  obtain g where g: "fs_find_parent_inode cwd [SLASH] (fs v) = Some (ERR_OK, r, [], g)" "cached_dir SFS_ROOT_INUM r (n + 1) g" using find_root [OF r(1)] by blast
  obtain h where h: "with_txn (open_leaf r [] 0 0) g = Some (Ret ((ERR_OK, r), h))" "cached_dir SFS_ROOT_INUM r (n + 1) h"
    using with_empty_txn [OF g(2), of "(ERR_OK, r)"] by (auto simp: open_leaf_def [abs_def])
  obtain k where k: "fs_release_inode r h = Some k" "cached_dir SFS_ROOT_INUM r n k" using release_cached [OF h(2)] r(2) by auto
  obtain l where l: "fs_release_inode r k = Some l" "cached_dir SFS_ROOT_INUM r (n - 1) l" using release_cached [of SFS_ROOT_INUM r "n - 1" k] k(2) r(2) by auto
  let ?e = "\<lparr>f_ref = 1, oflag = 0, f_inode = Some r, f_pos = 0, f_ops = Sfs_ops, f_info = None\<rparr>"
  let ?v = "v\<lparr>fpool := xs, files := (files v)(x := ?e), fs := k\<rparr>"
  have "validate_flag 0" by (simp add: validate_flag_def)
  then have "fs_open_file cwd [SLASH] 0 0 v = Some (Ret (ERR_OK, x, ?v))"
    using g(1) h(1) k(1) x by (simp add: fs_open_file_def fs_alloc_file_def set_file_def)
  moreover have "\<exists>w. fs_close_file x ?v = Some w \<and> fs w = l" using l(1) x by (simp add: fs_close_file_def set_file_def close_op_def fs_free_file_def)
  ultimately show ?thesis using k(2) l(2) by (auto simp: cached_dir_def)
qed

section \<open>A small system\<close>

text \<open>The root directory is at address 5 and has two references; the inode at address 6 has no link and waits for the cleanup thread.\<close>

definition root_fs :: fsst where
  "root_fs = \<lparr>bl = \<lparr>disk = \<lambda>_. replicate 512 0, buf = \<lambda>_. replicate 512 0, wlog = [], locks = {}, refs = \<lambda>_. 0, dirty_blks = {}, mem = []\<rparr>,
     jn = \<lparr>enabled = True, jstate = IDLE, datablks = [], jstart = 6\<rparr>,
     sbi = \<lparr>s_size = 16, s_num_inodes = 8, s_data_bmap_start = 5, s_journal_start = 6, s_data_start = 136\<rparr>,
     ino = (\<lambda>x. \<lparr>i_inum = x - 4, i_ref = 7 - x, i_nlink = 6 - x, i_ftype = x - 4, i_mode = 0, i_size = 0, i_addrs = replicate 14 0, i_valid = True, i_dirty = False\<rparr>),
     icache = [1 \<mapsto> 5, 2 \<mapsto> 6], ipool = [], ilocks = {}, cleanup = [6]\<rparr>"

definition root_vfs :: vfs where
  "root_vfs = \<lparr>fs = root_fs, files = \<lambda>_. \<lparr>f_ref = 0, oflag = 0, f_inode = None, f_pos = 0, f_ops = Null_ops, f_info = None\<rparr>, fpool = [2, 3],
     pipes = \<lambda>_. \<lparr>write_end_status = False, read_end_status = False, pbbq = None\<rparr>, npipes = 0, bbq_cache = False, cons = boot_console\<rparr>"

theorem open_root_loses_reference_witness:
  "cached_dir SFS_ROOT_INUM 5 2 (fs root_vfs) \<and>
   (\<exists>v1 v2. fs_open_file None [SLASH] 0 0 root_vfs = Some (Ret (ERR_OK, 2, v1)) \<and> f_inode (files v1 2) = Some 5 \<and> i_ref (ino (fs v1) 5) = 2
     \<and> fs_close_file 2 v1 = Some v2 \<and> i_ref (ino (fs v2) 5) = 1)"
proof -
  have r: "cached_dir SFS_ROOT_INUM 5 2 (fs root_vfs)" "fpool root_vfs = [2, 3]" by (simp_all add: cached_dir_def root_vfs_def root_fs_def)
  then show ?thesis using open_root_loses_reference [OF r(1) _ r(2), of None] by simp
qed

theorem cleanup_of_unlinked_panics_witness: "cleanup root_fs = [6] \<and> i_nlink (ino root_fs 6) = 0 \<and> \<not> (\<exists>g. fs_inode_cleanup root_fs = Some (Ret g))"
proof -
  have "cleanup root_fs = [6]" "i_nlink (ino root_fs 6) = 0" by (simp_all add: root_fs_def)
  then show ?thesis using cleanup_of_unlinked_panics [of root_fs 6 "[]"] by simp
qed

end
