(* ===== verification/Proc.thy ===== *)
theory Proc
  imports Vm Fs Traps
begin

text \<open>
  Processes: \<^verbatim>\<open>kernel/proc.c\<close>, with the creation of threads in \<^verbatim>\<open>kernel/thread.c\<close>, over the address spaces of \<open>Vm\<close> and the open files of \<open>Fs\<close>.

  \<open>kproc\<close> and \<open>kthr\<close> hold the process and thread structures by their address, \<open>ppool\<close> and \<open>tpool\<close> the free ones. The address space of a process
  has the address of the process; address 0 is the kernel's address space, never a process. The process of the running thread is the
  field \<open>cur\<close> of the memory state. \<open>ptable\<close> is the process table in its order. A thread that is handed to the scheduler is appended to \<open>started\<close>;
  \<open>Sched\<close> models what happens with it. User memory is the contents of page frames: a frame is 512 words of 64 bits. A call that has to wait
  is \<open>Blocked\<close>; \<open>None\<close> is a panic or a null dereference.
\<close>

section \<open>Calls that may wait\<close>

definition obind :: "'a outcome option \<Rightarrow> ('a \<Rightarrow> 'b outcome option) \<Rightarrow> 'b outcome option" where
  "obind m g = (case m of None \<Rightarrow> None | Some Blocked \<Rightarrow> Some Blocked | Some (Ret x) \<Rightarrow> g x)"

section \<open>State\<close>

abbreviation (input) STATUS_ALIVE :: int where "STATUS_ALIVE \<equiv> 0xbeefeeb"
abbreviation (input) PROC_MAX_ARG :: nat where "PROC_MAX_ARG \<equiv> 128"
abbreviation (input) PROC_NAME_LEN :: nat where "PROC_NAME_LEN \<equiv> 32"
abbreviation (input) THREAD_NAME_LEN :: nat where "THREAD_NAME_LEN \<equiv> 32"
abbreviation (input) DEFAULT_PRI :: int where "DEFAULT_PRI \<equiv> 10"

record proc =
  pid :: int
  pname :: "u8 list"
  pcwd :: nat
  pthreads :: "nat list"
  open_files :: "nat option list"
  proc_status :: int
  parent_pid :: int
  was_waited :: bool

record kthread =
  t_tid :: int
  t_name :: "u8 list"
  t_proc :: "nat option"
  t_priority :: int
  t_kstack :: nat
  t_tf :: trapframe

record kern =
  kvm :: vmst
  kfs :: vfs
  kproc :: "nat \<Rightarrow> proc"
  ppool :: "nat list"
  ptable :: "nat list"
  pid_allocator :: int
  kthr :: "nat \<Rightarrow> kthread"
  tpool :: "nat list"
  tid_allocator :: int
  curthr :: nat
  started :: "nat list"
  init_proc :: "nat option"
  user_pgfault :: u64

definition set_proc :: "nat \<Rightarrow> (proc \<Rightarrow> proc) \<Rightarrow> kern \<Rightarrow> kern" where
  "set_proc p g k = k\<lparr>kproc := (kproc k)(p := g (kproc k p))\<rparr>"

definition set_thr :: "nat \<Rightarrow> (kthread \<Rightarrow> kthread) \<Rightarrow> kern \<Rightarrow> kern" where
  "set_thr t g k = k\<lparr>kthr := (kthr k)(t := g (kthr k t))\<rparr>"

definition set_vm :: "vmem \<Rightarrow> kern \<Rightarrow> kern" where
  "set_vm v k = k\<lparr>kvm := (kvm k)\<lparr>vm := v\<rparr>\<rparr>"

definition set_fsst :: "fsst \<Rightarrow> kern \<Rightarrow> kern" where
  "set_fsst f k = k\<lparr>kfs := (kfs k)\<lparr>fs := f\<rparr>\<rparr>"

text \<open>The outcome of the next allocation from the kernel heap.\<close>

definition kheap_ok :: "kern \<Rightarrow> bool \<times> kern" where
  "kheap_ok k = (case take_mem (bl (fs (kfs k))) of (ok, s) \<Rightarrow> (ok, set_fsst ((fs (kfs k))\<lparr>bl := s\<rparr>) k))"

definition kpmem_alloc :: "kern \<Rightarrow> (err \<times> nat \<times> kern) option" where
  "kpmem_alloc k = do {
     (er, pa, m) \<leftarrow> pmem_alloc (pm (vm (kvm k)));
     Some (er, pa, set_vm ((vm (kvm k))\<lparr>pm := m\<rparr>) k)
   }"

definition destroy_space :: "nat \<Rightarrow> kern \<Rightarrow> kern option" where
  "destroy_space p k = do { v \<leftarrow> as_destroy p (kvm k); Some (k\<lparr>kvm := v\<rparr>) }"

section \<open>Bytes in page frames\<close>

definition frame_word :: "nat \<Rightarrow> vmem \<Rightarrow> u64" where
  "frame_word pa v = tabs v (pa div PG) (pa mod PG div 8)"

definition frame_byte :: "nat \<Rightarrow> vmem \<Rightarrow> u8" where
  "frame_byte pa v = ucast (drop_bit (8 * (pa mod 8)) (frame_word pa v))"

definition put_frame_byte :: "nat \<Rightarrow> u8 \<Rightarrow> vmem \<Rightarrow> vmem" where
  "put_frame_byte pa b v =
     (let sh = 8 * (pa mod 8) in
      set_entry (pa div PG) (pa mod PG div 8)
        (frame_word pa v AND NOT (push_bit sh 0xFF) OR push_bit sh (ucast b)) v)"

primrec put_frame_bytes :: "nat \<Rightarrow> u8 list \<Rightarrow> vmem \<Rightarrow> vmem" where
  "put_frame_bytes pa [] v = v"
| "put_frame_bytes pa (b # bs) v = put_frame_bytes (pa + 1) bs (put_frame_byte pa b v)"

section \<open>User memory\<close>

text \<open>The kernel reads and writes the memory of the running process through the page tables in \<^verbatim>\<open>cr3\<close>. The access faults when the page
  is not present, and a write also when the page is read-only, since \<^verbatim>\<open>CR0_WP\<close> is set. A fault in kernel mode is a panic of
  \<^verbatim>\<open>handle_page_fault\<close>.\<close>

definition user_pte :: "vaddr \<Rightarrow> vmem \<Rightarrow> u64 option" where
  "user_pte addr v = do {
     (r, _) \<leftarrow> find_pte (cr3 v) addr False v;
     Some (case r of None \<Rightarrow> 0 | Some (tab, i) \<Rightarrow> tabs v tab i)
   }"

definition get_user :: "vaddr \<Rightarrow> vmem \<Rightarrow> u8 option" where
  "get_user addr v = do {
     e \<leftarrow> user_pte addr v;
     kassert (e AND PTE_P \<noteq> 0);
     Some (frame_byte (unat (PPN e + pg_ofs addr)) v)
   }"

definition put_user :: "vaddr \<Rightarrow> u8 \<Rightarrow> vmem \<Rightarrow> vmem option" where
  "put_user addr b v = do {
     e \<leftarrow> user_pte addr v;
     kassert (e AND PTE_P \<noteq> 0 \<and> e AND PTE_W \<noteq> 0);
     Some (put_frame_byte (unat (PPN e + pg_ofs addr)) b v)
   }"

primrec put_user_bytes :: "vaddr \<Rightarrow> u8 list \<Rightarrow> vmem \<Rightarrow> vmem option" where
  "put_user_bytes addr [] v = Some v"
| "put_user_bytes addr (b # bs) v = do { v \<leftarrow> put_user addr b v; put_user_bytes (addr + 1) bs v }"

primrec get_user_bytes :: "nat \<Rightarrow> vaddr \<Rightarrow> vmem \<Rightarrow> u8 list option" where
  "get_user_bytes 0 addr v = Some []"
| "get_user_bytes (Suc n) addr v = do { b \<leftarrow> get_user addr v; bs \<leftarrow> get_user_bytes n (addr + 1) v; Some (b # bs) }"

text \<open>The four bytes of an \<^verbatim>\<open>int\<close>.\<close>

definition int_bytes :: "int \<Rightarrow> u8 list" where
  "int_bytes n = enc32 (nat (n mod 2 ^ 32))"

section \<open>The process table\<close>

definition proc_current :: "kern \<Rightarrow> nat option" where
  "proc_current k = cur (kvm k)"

definition cwd_of :: "kern \<Rightarrow> nat option" where
  "cwd_of k = map_option (\<lambda>p. pcwd (kproc k p)) (proc_current k)"

definition proc_alloc :: "kern \<Rightarrow> nat option \<times> kern" where
  "proc_alloc k =
     (case ppool k of
        [] \<Rightarrow> (None, k)
      | p # ps \<Rightarrow> (Some p, (set_proc p (\<lambda>q. q\<lparr>pid := pid_allocator k\<rparr>) k)\<lparr>ppool := ps, pid_allocator := pid_allocator k + 1\<rparr>))"

definition proc_free :: "nat \<Rightarrow> kern \<Rightarrow> kern" where
  "proc_free p k = k\<lparr>ppool := p # ppool k\<rparr>"

definition proc_sys_init :: "kern \<Rightarrow> kern" where
  "proc_sys_init k = k\<lparr>ptable := []\<rparr>"

definition get_proc_by_pid :: "int \<Rightarrow> kern \<Rightarrow> nat option" where
  "get_proc_by_pid n k = find (\<lambda>p. pid (kproc k p) = n) (ptable k)"

definition ptable_remove :: "nat \<Rightarrow> kern \<Rightarrow> kern" where
  "ptable_remove p k = k\<lparr>ptable := remove1 p (ptable k)\<rparr>"

definition proc_init :: "u8 list \<Rightarrow> kern \<Rightarrow> (nat option \<times> kern) option" where
  "proc_init name k =
     (case proc_alloc k of
        (None, k) \<Rightarrow> Some (None, k)
      | (Some p, k) \<Rightarrow> (case kheap_ok k of (ok, k) \<Rightarrow> do {
          (er, v) \<leftarrow> as_init p ok (kvm k);
          let k = k\<lparr>kvm := v\<rparr>;
          (if er \<noteq> ERR_OK then Some (None, proc_free p k)
           else do {
             let k = set_proc p (\<lambda>q. q\<lparr>pname := take (PROC_NAME_LEN - 1) name, pthreads := []\<rparr>) k;
             (er, a, f) \<leftarrow> fs_get_inode SFS_ROOT_INUM (fs (kfs k));
             let k = set_fsst f k;
             (if er \<noteq> ERR_OK then do { k \<leftarrow> destroy_space p k; Some (None, proc_free p k) }
              else Some (Some p, set_proc p (\<lambda>q. q\<lparr>pcwd := a,
                open_files := Some STDIN # Some STDOUT # replicate (PROC_MAX_ARG - 2) None,
                proc_status := STATUS_ALIVE, parent_pid := 0, was_waited := False\<rparr>) k))
           })
        }))"

section \<open>Threads of processes\<close>

definition proc_attach_thread :: "nat option \<Rightarrow> nat \<Rightarrow> kern \<Rightarrow> kern" where
  "proc_attach_thread p t k =
     (case p of None \<Rightarrow> k | Some p \<Rightarrow> set_proc p (\<lambda>q. q\<lparr>pthreads := pthreads q @ [t]\<rparr>) k)"

definition proc_detach_thread :: "nat \<Rightarrow> kern \<Rightarrow> bool \<times> kern" where
  "proc_detach_thread t k =
     (case t_proc (kthr k t) of
        None \<Rightarrow> (False, k)
      | Some p \<Rightarrow>
          let k = set_proc p (\<lambda>q. q\<lparr>pthreads := remove1 t (pthreads q)\<rparr>) k in
          (pthreads (kproc k p) = [], k))"

text \<open>The idle thread of the processor exists, so every kernel stack comes from the frame allocator. The trap frame lies at the top of the
  stack.\<close>

definition thread_create :: "u8 list \<Rightarrow> nat option \<Rightarrow> int \<Rightarrow> kern \<Rightarrow> (nat option \<times> kern) option" where
  "thread_create name p priority k =
     (case tpool k of
        [] \<Rightarrow> Some (None, k)
      | t # ts \<Rightarrow> do {
          (er, pa, k) \<leftarrow> kpmem_alloc (k\<lparr>tpool := ts\<rparr>);
          (if er \<noteq> ERR_OK then Some (None, k)
           else
             let n = tid_allocator k + 1;
                 k = set_thr t (\<lambda>s. s\<lparr>t_tid := n, t_name := take (THREAD_NAME_LEN - 1) name, t_proc := p,
                   t_priority := priority, t_kstack := pa\<rparr>) (k\<lparr>tid_allocator := n\<rparr>) in
             Some (Some t, proc_attach_thread p t k))
        })"

definition thread_start_context :: "nat \<Rightarrow> kern \<Rightarrow> kern" where
  "thread_start_context t k = k\<lparr>started := started k @ [t]\<rparr>"

definition thread_cleanup :: "nat \<Rightarrow> kern \<Rightarrow> kern option" where
  "thread_cleanup t k = do {
     kassert (curthr k \<noteq> t);
     m \<leftarrow> pmem_free (t_kstack (kthr k t)) (pm (vm (kvm k)));
     let k = set_vm ((vm (kvm k))\<lparr>pm := m\<rparr>) k;
     Some (k\<lparr>tpool := t # tpool k\<rparr>)
   }"

text \<open>The address space and the running thread after a switch; \<open>Sched\<close> models which thread it is.\<close>

definition cpu_switch_thread :: "nat \<Rightarrow> kern \<Rightarrow> kern option" where
  "cpu_switch_thread t k = do {
     let k = k\<lparr>curthr := t, kvm := (kvm k)\<lparr>cur := t_proc (kthr k t)\<rparr>\<rparr>;
     vp \<leftarrow> as_vpmap (spaces (kvm k) (case t_proc (kthr k t) of None \<Rightarrow> kas | Some p \<Rightarrow> p));
     Some (set_vm (snd (vpmap_load vp (vm (kvm k)))) k)
   }"

definition tf_proc :: "nat \<Rightarrow> nat \<Rightarrow> vaddr \<Rightarrow> vaddr \<Rightarrow> kern \<Rightarrow> kern option" where
  "tf_proc t p entry_point stack_ptr k = do {
     vp \<leftarrow> as_vpmap (spaces (kvm k) p);
     (er, pa) \<leftarrow> vpmap_lookup_vaddr vp stack_ptr (vm (kvm k));
     kassert (er = ERR_OK);
     Some (set_thr t (\<lambda>s. s\<lparr>t_tf := (t_tf s)\<lparr>tf_cs := 27, tf_ss := 35, rflags := 0x200, rsp := stack_ptr, rip := entry_point,
       rdi := frame_word (unat pa + 8) (vm (kvm k)), rsi := frame_word (unat pa + 16) (vm (kvm k))\<rparr>\<rparr>) k)
   }"

section \<open>Loading a program\<close>

text \<open>The file is opened with \<^verbatim>\<open>FS_RDONLY\<close>, which is 0.\<close>

abbreviation (input) ELF_MAGIC :: nat where "ELF_MAGIC \<equiv> 0x464C457F"
abbreviation (input) PT_LOAD :: nat where "PT_LOAD \<equiv> 1"

definition rd64 :: "nat \<Rightarrow> u8 list \<Rightarrow> u64" where
  "rd64 ofs xs = of_nat (rd32 ofs xs + 2 ^ 32 * rd32 (ofs + 4) xs)"

record elfhdr =
  eh_magic :: nat
  eh_entry :: vaddr
  eh_phoff :: u64
  eh_phnum :: nat

record proghdr =
  ph_type :: nat
  ph_flags :: nat
  ph_off :: u64
  ph_vaddr :: vaddr
  ph_filesz :: u64
  ph_memsz :: u64

text \<open>The fields that the kernel reads, at their offsets in the two structures of 64 and 56 bytes.\<close>

definition elfhdr_of :: "u8 list \<Rightarrow> elfhdr" where
  "elfhdr_of bs = \<lparr>eh_magic = rd32 0 bs, eh_entry = rd64 24 bs, eh_phoff = rd64 32 bs, eh_phnum = dec16 (drop 56 bs)\<rparr>"

definition proghdr_of :: "u8 list \<Rightarrow> proghdr" where
  "proghdr_of bs = \<lparr>ph_type = rd32 0 bs, ph_flags = rd32 4 bs, ph_off = rd64 8 bs, ph_vaddr = rd64 16 bs,
     ph_filesz = rd64 32 bs, ph_memsz = rd64 40 bs\<rparr>"

definition kread :: "nat \<Rightarrow> u64 \<Rightarrow> nat \<Rightarrow> kern \<Rightarrow> (u8 list \<times> nat \<times> kern) outcome option" where
  "kread x len ofs k = obind (fs_read_file x len ofs (kfs k)) (\<lambda>(bs, ofs, v). Some (Ret (bs, ofs, k\<lparr>kfs := v\<rparr>)))"

text \<open>The loop over the pages of a segment: \<open>n\<close> pages are left, \<open>cnt\<close> are done, \<open>vofs\<close> is the offset in the next page, \<open>rb\<close> the number of
  bytes still to read, from \<open>off\<close> in the file.\<close>

fun load_pages ::
    "nat \<Rightarrow> nat \<Rightarrow> memperm \<Rightarrow> vaddr \<Rightarrow> nat \<Rightarrow> u64 \<Rightarrow> u64 \<Rightarrow> u64 \<Rightarrow> nat \<Rightarrow> kern \<Rightarrow> (err \<times> kern) outcome option" where
  "load_pages p x perm va 0 cnt vofs rb off k = Some (Ret (ERR_OK, k))"
| "load_pages p x perm va (Suc n) cnt vofs rb off k = do {
     (er, pa, k) \<leftarrow> kpmem_alloc k;
     (if er \<noteq> ERR_OK then Some (Ret (er, k))
      else
        let vaddr = vofs + kmap_p2v (of_nat pa);
            k = set_vm (zero_frame (paddr_to_page pa) (vm (kvm k))) k;
            avail = min rb (pg_size - pg_ofs vaddr) in
        obind
          (if avail = 0 then Some (Ret (True, off, k))
           else obind (kread x avail off k) (\<lambda>(bs, off, k).
             Some (Ret (length bs = unat avail, off, set_vm (put_frame_bytes (pa + unat vofs) bs (vm (kvm k))) k))))
          (\<lambda>(ok, off, k).
             if \<not> ok then Some (Ret (ERR_INVAL, k))
             else do {
               vp \<leftarrow> as_vpmap (spaces (kvm k) p);
               (er, v) \<leftarrow> vpmap_map vp (va + cnt * pg_size) (of_nat pa) 1 perm (vm (kvm k));
               (if er \<noteq> ERR_OK then Some (Ret (er, set_vm v k))
                else load_pages p x perm va n (cnt + 1) 0 (rb - avail) off (set_vm v k))
             }))
   }"

text \<open>One loadable segment; the result has the end of its region.\<close>

definition load_segment :: "nat \<Rightarrow> nat \<Rightarrow> proghdr \<Rightarrow> kern \<Rightarrow> (err \<times> vaddr \<times> kern) outcome option" where
  "load_segment p x ph k =
     (if ph_memsz ph < ph_filesz ph \<or> ph_vaddr ph + ph_memsz ph < ph_vaddr ph then Some (Ret (ERR_INVAL, 0, k))
      else do {
        let perm = (if bit (ph_flags ph) 1 then MEMPERM_URW else MEMPERM_UR);
        let len = pg_round_up (ph_memsz ph + pg_ofs (ph_vaddr ph));
        (r, v) \<leftarrow> as_map_memregion p (pg_round_down (ph_vaddr ph)) len perm None (ph_off ph) False (kvm k);
        (case r of
           None \<Rightarrow> Some (Ret (ERR_NOMEM, 0, k\<lparr>kvm := v\<rparr>))
         | Some r \<Rightarrow>
             obind (load_pages p x perm (ph_vaddr ph) (unat (len div pg_size)) 0 (pg_ofs (ph_vaddr ph)) (ph_filesz ph)
                      (unat (ph_off ph)) (k\<lparr>kvm := v\<rparr>))
               (\<lambda>(er, k). Some (Ret (er, mr_end (mrs v r), k))))
      })"

fun load_segments :: "nat \<Rightarrow> nat \<Rightarrow> nat \<Rightarrow> nat \<Rightarrow> vaddr \<Rightarrow> kern \<Rightarrow> (err \<times> vaddr \<times> kern) outcome option" where
  "load_segments p x 0 ofs e k = Some (Ret (ERR_OK, e, k))"
| "load_segments p x (Suc n) ofs e k =
     obind (kread x 56 ofs k) (\<lambda>(bs, ofs, k).
       if length bs \<noteq> 56 then Some (Ret (ERR_INVAL, e, k))
       else if ph_type (proghdr_of bs) \<noteq> PT_LOAD then load_segments p x n ofs e k
       else obind (load_segment p x (proghdr_of bs) k) (\<lambda>(er, e, k).
         if er \<noteq> ERR_OK then Some (Ret (er, e, k)) else load_segments p x n ofs e k))"

definition proc_load :: "nat \<Rightarrow> u8 list \<Rightarrow> kern \<Rightarrow> (err \<times> vaddr \<times> kern) outcome option" where
  "proc_load p pathname k =
     obind (fs_open_file (cwd_of k) pathname 0 0 (kfs k)) (\<lambda>(er, x, v).
       let k = k\<lparr>kfs := v\<rparr> in
       if er \<noteq> ERR_OK then Some (Ret (er, 0, k))
       else obind (kread x 64 0 k) (\<lambda>(bs, _, k).
         if length bs \<noteq> 64 \<or> eh_magic (elfhdr_of bs) \<noteq> ELF_MAGIC then Some (Ret (ERR_INVAL, 0, k))
         else obind (load_segments p x (eh_phnum (elfhdr_of bs)) (unat (eh_phoff (elfhdr_of bs))) 0 k) (\<lambda>(er, e, k).
           if er \<noteq> ERR_OK then Some (Ret (er, 0, k))
           else do {
             (r, v) \<leftarrow> as_map_memregion p e 0 MEMPERM_URW None 0 False (kvm k);
             let k = k\<lparr>kvm := set_space p (\<lambda>s. s\<lparr>as_heap := r\<rparr>) v\<rparr>;
             Some (Ret (if r = None then ERR_NOMEM else ERR_OK, eh_entry (elfhdr_of bs), k))
           })))"

definition stack_setup :: "nat \<Rightarrow> kern \<Rightarrow> (err \<times> vaddr \<times> kern) option" where
  "stack_setup p k = do {
     (er, pa, k) \<leftarrow> kpmem_alloc k;
     (if er \<noteq> ERR_OK then Some (er, 0, k)
      else do {
        let k = set_vm (zero_frame (paddr_to_page pa) (vm (kvm k))) k;
        (r, v) \<leftarrow> as_map_memregion p USTACK_LOWERBOUND 40960 MEMPERM_URW None 0 False (kvm k);
        let k = k\<lparr>kvm := v\<rparr>;
        (er, k) \<leftarrow>
          (if r = None then Some (ERR_NOMEM, k)
           else do {
             vp \<leftarrow> as_vpmap (spaces (kvm k) p);
             (er, v) \<leftarrow> vpmap_map vp (USTACK_UPPERBOUND - pg_size) (of_nat pa) 1 MEMPERM_URW (vm (kvm k));
             Some (er, set_vm v k)
           });
        (if er \<noteq> ERR_OK then do {
           m \<leftarrow> pmem_free pa (pm (vm (kvm k)));
           Some (er, 0, set_vm ((vm (kvm k))\<lparr>pm := m\<rparr>) k)
         }
         else
           let stackptr = kmap_p2v (of_nat pa) + pg_size - 3 * 8 in
           Some (er, pg_ofs stackptr + USTACK_UPPERBOUND - pg_size, k))
      })
   }"

section \<open>Creating processes\<close>

definition proc_spawn :: "u8 list \<Rightarrow> kern \<Rightarrow> (err \<times> nat \<times> kern) outcome option" where
  "proc_spawn name k = do {
     (r, k) \<leftarrow> proc_init name k;
     (case r of
        None \<Rightarrow> Some (Ret (ERR_NOMEM, 0, k))
      | Some p \<Rightarrow>
          let fail = (\<lambda>er k. do { k \<leftarrow> destroy_space p k; Some (Ret (er, 0, proc_free p k)) }) in
          obind (proc_load p name k) (\<lambda>(er, entry_point, k).
            if er \<noteq> ERR_OK then fail er k
            else do {
              (er, stackptr, k) \<leftarrow> stack_setup p k;
              (if er \<noteq> ERR_OK then fail er k
               else do {
                 let k = (case proc_current k of
                            None \<Rightarrow> k
                          | Some c \<Rightarrow> set_proc p (\<lambda>q. q\<lparr>parent_pid := pid (kproc k c)\<rparr>) k);
                 (t, k) \<leftarrow> thread_create (pname (kproc k p)) (Some p) DEFAULT_PRI k;
                 (case t of
                    None \<Rightarrow> fail ERR_NOMEM k
                  | Some t \<Rightarrow> do {
                      k \<leftarrow> tf_proc t p entry_point stackptr (k\<lparr>ptable := ptable k @ [p]\<rparr>);
                      Some (Ret (ERR_OK, p, thread_start_context t k))
                    })
               })
            }))
   }"

text \<open>The loop of \<^verbatim>\<open>proc_fork\<close> that shares the open files; \<open>is\<close> lists the slots still to copy.\<close>

primrec share_files :: "nat \<Rightarrow> nat \<Rightarrow> nat list \<Rightarrow> kern \<Rightarrow> kern" where
  "share_files parent child [] k = k"
| "share_files parent child (i # is) k = share_files parent child is
     (case open_files (kproc k parent) ! i of
        None \<Rightarrow> k
      | Some x \<Rightarrow> (set_proc child (\<lambda>q. q\<lparr>open_files := (open_files q)[i := Some x]\<rparr>) k)\<lparr>kfs := fs_reopen_file x (kfs k)\<rparr>)"

definition proc_fork :: "kern \<Rightarrow> (nat option \<times> kern) option" where
  "proc_fork k = do {
     parent \<leftarrow> proc_current k;
     (r, k) \<leftarrow> proc_init (pname (kproc k parent)) k;
     (case r of
        None \<Rightarrow> Some (None, k)
      | Some child \<Rightarrow> do {
          (er, v) \<leftarrow> as_copy_as parent child (kvm k);
          let k = k\<lparr>kvm := v\<rparr>;
          (if er \<noteq> ERR_OK then Some (None, k)
           else do {
             let k = set_proc child (\<lambda>q. q\<lparr>parent_pid := pid (kproc k parent)\<rparr>) k;
             let k = share_files parent child [0..<PROC_MAX_ARG] k;
             (t, k) \<leftarrow> thread_create (pname (kproc k child)) (Some child) DEFAULT_PRI k;
             (case t of
                None \<Rightarrow> do { k \<leftarrow> destroy_space child k; Some (None, proc_free child k) }
              | Some t \<Rightarrow>
                  let k = k\<lparr>ptable := ptable k @ [child]\<rparr>;
                      tf = t_tf (kthr k (curthr k)) in
                  Some (Some child, thread_start_context t (set_thr t (\<lambda>s. s\<lparr>t_tf := tf_set_return 0 tf\<rparr>) k)))
           })
        })
   }"

section \<open>The end of a process\<close>

definition proc_wait :: "int \<Rightarrow> vaddr \<Rightarrow> kern \<Rightarrow> (int \<times> kern) outcome option" where
  "proc_wait n status k = do {
     p \<leftarrow> proc_current k;
     let n = (if n = -1
              then (case find (\<lambda>c. parent_pid (kproc k c) = pid (kproc k p) \<and> \<not> was_waited (kproc k c)) (ptable k) of
                      Some c \<Rightarrow> pid (kproc k c)
                    | None \<Rightarrow> -1)
              else n);
     (if n = -1 then Some (Ret (0, k))
      else do {
        c \<leftarrow> get_proc_by_pid n k;
        (if proc_status (kproc k c) = STATUS_ALIVE then Some Blocked
         else do {
           let k = set_proc c (\<lambda>q. q\<lparr>was_waited := True\<rparr>) k;
           v \<leftarrow> (if status = 0 then Some (vm (kvm k)) else put_user_bytes status (int_bytes (proc_status (kproc k c))) (vm (kvm k)));
           Some (Ret (n, proc_free c (ptable_remove c (set_vm v k))))
         })
      })
   }"

primrec close_files :: "nat option list \<Rightarrow> vfs \<Rightarrow> vfs option" where
  "close_files [] v = Some v"
| "close_files (s # ss) v = do {
     v \<leftarrow> (case s of None \<Rightarrow> Some v | Some x \<Rightarrow> fs_close_file x v);
     close_files ss v
   }"

text \<open>The loop of \<^verbatim>\<open>proc_exit\<close> over the process table. When it removes a child it frees the structure, which \<^verbatim>\<open>kmem_cache_free\<close> fills with
  \<^verbatim>\<open>0x2b\<close>, and then takes the link to the next process from there: the next turn dereferences a pointer of these bytes, which is not an address.\<close>

primrec leave_children :: "int \<Rightarrow> nat list \<Rightarrow> kern \<Rightarrow> kern option" where
  "leave_children n [] k = Some k"
| "leave_children n (c # cs) k =
     (if parent_pid (kproc k c) \<noteq> n then leave_children n cs k
      else if proc_status (kproc k c) = STATUS_ALIVE then do {
        i \<leftarrow> init_proc k;
        leave_children n cs (set_proc c (\<lambda>q. q\<lparr>parent_pid := pid (kproc k i)\<rparr>) k)
      }
      else None)"

text \<open>\<^verbatim>\<open>proc_exit\<close> up to the call of \<^verbatim>\<open>thread_exit\<close>, which does not return. When the parent is not alive it frees its own structure and then
  follows the list of waiters in it.\<close>

definition proc_exit :: "int \<Rightarrow> kern \<Rightarrow> kern option" where
  "proc_exit status k = do {
     p \<leftarrow> proc_current k;
     let t = curthr k;
     let k = snd (proc_detach_thread t k);
     let k = set_thr t (\<lambda>s. s\<lparr>t_proc := None\<rparr>) (k\<lparr>kvm := (kvm k)\<lparr>cur := None\<rparr>\<rparr>);
     kvp \<leftarrow> as_vpmap (spaces (kvm k) kas);
     let k = set_vm (snd (vpmap_load kvp (vm (kvm k)))) k;
     k \<leftarrow> destroy_space p k;
     f \<leftarrow> fs_release_inode (pcwd (kproc k p)) (fs (kfs k));
     let k = set_fsst f k;
     v \<leftarrow> close_files (open_files (kproc k p)) (kfs k);
     let k = k\<lparr>kfs := v\<rparr>;
     k \<leftarrow> leave_children (pid (kproc k p)) (ptable k) k;
     k \<leftarrow> (if parent_pid (kproc k p) \<noteq> 0 then do {
             parent \<leftarrow> get_proc_by_pid (parent_pid (kproc k p)) k;
             kassert (proc_status (kproc k parent) = STATUS_ALIVE);
             Some k
           }
           else Some k);
     Some (set_proc p (\<lambda>q. q\<lparr>proc_status := status\<rparr>) k)
   }"

text \<open>The page fault handler with the count of faults; \<open>Exit\<close> of \<open>Vm\<close> is its call of \<^verbatim>\<open>proc_exit\<close>. The result is whether the program goes on.\<close>

definition user_fault :: "vaddr \<Rightarrow> trapframe \<Rightarrow> kern \<Rightarrow> (bool \<times> kern) option" where
  "user_fault cr2 tf k = do {
     p \<leftarrow> proc_current k;
     let k = set_thr (curthr k) (\<lambda>s. s\<lparr>t_tf := tf\<rparr>) k;
     r \<leftarrow> x86_64_pgfault_trap_handler p cr2 (ucast (tf_err tf)) (kvm k);
     let k = k\<lparr>user_pgfault := user_pgfault k + 1\<rparr>;
     (case r of
        Resume v \<Rightarrow> Some (True, k\<lparr>kvm := v\<rparr>)
      | Exit v \<Rightarrow> do { k \<leftarrow> proc_exit (-1) (k\<lparr>kvm := v\<rparr>); Some (False, k) })
   }"

end
