(* ===== verification/Syscall.thy ===== *)
theory Syscall
  imports Proc Cstring
begin

text \<open>
  The system calls: \<^verbatim>\<open>kernel/syscall.c\<close>, one definition per call, over \<open>Proc\<close>, \<open>Fs\<close> and \<open>Vm\<close>.

  A call gets the trap frame with its arguments. It returns a value to the program, ends the process, or stops the machine; it can also
  wait (\<open>Blocked\<close>) or panic (\<open>None\<close>). The arguments are 64 bits wide: \<^verbatim>\<open>validate_fd\<close> gets the lower 32 bits of a file descriptor, while the
  table of open files is indexed with all of them. An access outside of the table is \<open>None\<close>. A call that writes fetches the whole
  buffer first; the source fetches it piece by piece, which differs only when the write stops before its end.
\<close>

datatype sysend = Returns u64 kern | Exits kern | Halts

type_synonym sysret = "sysend outcome option"

definition sys_return :: "int \<Rightarrow> kern \<Rightarrow> sysret" where
  "sys_return n k = Some (Ret (Returns (of_int n) k))"

definition int_arg :: "u64 \<Rightarrow> int" where
  "int_arg a = sint (ucast a :: u32)"

section \<open>Checks of arguments\<close>

text \<open>The loop of \<^verbatim>\<open>validate_str\<close> over at most \<open>n\<close> bytes; the inner \<open>None\<close> is the end of the region without a zero byte, otherwise the result is
  the string.\<close>

primrec scan_str :: "nat \<Rightarrow> vaddr \<Rightarrow> vmem \<Rightarrow> u8 list option option" where
  "scan_str 0 s v = Some None"
| "scan_str (Suc n) s v = do {
     b \<leftarrow> get_user s v;
     (if b = 0 then Some (Some []) else do { r \<leftarrow> scan_str n (s + 1) v; Some (map_option ((#) b) r) })
   }"

definition validate_str :: "vaddr \<Rightarrow> kern \<Rightarrow> u8 list option option" where
  "validate_str s k = do {
     p \<leftarrow> proc_current k;
     (case as_find_memregion p s 1 (kvm k) of
        None \<Rightarrow> Some None
      | Some r \<Rightarrow> scan_str (unat (mr_end (mrs (kvm k) r)) - unat s) s (vm (kvm k)))
   }"

definition validate_ptr :: "vaddr \<Rightarrow> u64 \<Rightarrow> kern \<Rightarrow> bool option" where
  "validate_ptr ptr len k =
     (if ptr + len < ptr then Some False
      else do { p \<leftarrow> proc_current k; Some (as_find_memregion p ptr len (kvm k) \<noteq> None) })"

definition alloc_fd :: "nat \<Rightarrow> kern \<Rightarrow> (int \<times> kern) option" where
  "alloc_fd x k = do {
     p \<leftarrow> proc_current k;
     (case find (\<lambda>i. open_files (kproc k p) ! i = None) [0..<PROC_MAX_ARG] of
        Some i \<Rightarrow> Some (int i, set_proc p (\<lambda>q. q\<lparr>open_files := (open_files q)[i := Some x]\<rparr>) k)
      | None \<Rightarrow> Some (ERR_NOMEM, k))
   }"

definition validate_fd :: "int \<Rightarrow> bool" where
  "validate_fd fd \<longleftrightarrow> 0 \<le> fd \<and> fd \<le> int PROC_MAX_ARG"

text \<open>\<^verbatim>\<open>p->open_files[fd]\<close>, without a check: an index outside of the array is an access behind it, which has no value here.\<close>

definition fd_slot :: "u64 \<Rightarrow> kern \<Rightarrow> (nat \<times> nat option) option" where
  "fd_slot fd k = do {
     p \<leftarrow> proc_current k;
     kassert (unat fd < PROC_MAX_ARG);
     Some (p, open_files (kproc k p) ! unat fd)
   }"

text \<open>A string argument, or the return with \<^verbatim>\<open>ERR_FAULT\<close>.\<close>

definition with_str :: "vaddr \<Rightarrow> kern \<Rightarrow> (u8 list \<Rightarrow> sysret) \<Rightarrow> sysret" where
  "with_str s k g = do {
     r \<leftarrow> validate_str s k;
     (case r of None \<Rightarrow> sys_return ERR_FAULT k | Some str \<Rightarrow> g str)
   }"

text \<open>An operation of the file system on path names, whose error code is the result.\<close>

definition fs_call :: "(nat option \<Rightarrow> fsst \<Rightarrow> (err \<times> fsst) outcome option) \<Rightarrow> kern \<Rightarrow> sysret" where
  "fs_call op k = obind (op (cwd_of k) (fs (kfs k))) (\<lambda>(er, f). sys_return er (set_fsst f k))"

section \<open>Processes\<close>

definition sys_fork :: "trapframe \<Rightarrow> kern \<Rightarrow> sysret" where
  "sys_fork tf k = do {
     (r, k) \<leftarrow> proc_fork k;
     sys_return (case r of None \<Rightarrow> ERR_NOMEM | Some p \<Rightarrow> pid (kproc k p)) k
   }"

text \<open>The kernel's copy of the argument string, and the delimiter string \<^verbatim>\<open>" "\<close> behind it.\<close>

definition spawn_buf :: "u8 list \<Rightarrow> nat \<Rightarrow> u8" where
  "spawn_buf s i = (if i < length s then s ! i else if i = length s + 1 then 32 else 0)"

text \<open>\<^verbatim>\<open>kmalloc\<close> has no allocator for more than 4096 bytes.\<close>

definition kmalloc_ok :: "nat \<Rightarrow> kern \<Rightarrow> bool \<times> kern" where
  "kmalloc_ok n k = (if n = 0 \<or> n > 4096 then (False, k) else kheap_ok k)"

text \<open>\<^verbatim>\<open>argv\<close> has room for \<open>len + 1\<close> pointers; a store behind it corrupts the heap.\<close>

definition sys_spawn :: "trapframe \<Rightarrow> kern \<Rightarrow> sysret" where
  "sys_spawn tf k = do {
     args \<leftarrow> fetch_arg tf 1;
     with_str args k (\<lambda>s. case kmalloc_ok (length s + 1) k of (ok, k) \<Rightarrow>
       if \<not> ok then sys_return ERR_NOMEM k
       else
         let len = min ((length s + 1) div 2) PROC_MAX_ARG in
         (case kmalloc_ok ((len + 1) * 8) k of (ok, k) \<Rightarrow>
         if \<not> ok then sys_return ERR_NOMEM k
         else do {
           (argv, m) \<leftarrow> spawn_parse (length s + 1) 0 (spawn_buf s);
           kassert (length argv \<le> len);
           (case argv of
              [] \<Rightarrow> None
            | a # _ \<Rightarrow> do {
                n \<leftarrow> strlen m a;
                obind (proc_spawn (map m [a..<a + n]) k) (\<lambda>(er, p, k).
                  sys_return (if er \<noteq> ERR_OK then er else pid (kproc k p)) k)
              })
         }))
   }"

definition sys_wait :: "trapframe \<Rightarrow> kern \<Rightarrow> sysret" where
  "sys_wait tf k = do {
     n \<leftarrow> fetch_arg tf 1;
     wstatus \<leftarrow> fetch_arg tf 2;
     ok \<leftarrow> (if wstatus = 0 then Some True else validate_ptr wstatus 8 k);
     (if \<not> ok then sys_return ERR_FAULT k
      else (case proc_current k of
              None \<Rightarrow> sys_return ERR_FAULT k
            | Some p \<Rightarrow>
                if int_arg n \<noteq> -1 then
                  (case get_proc_by_pid (int_arg n) k of
                     None \<Rightarrow> sys_return ERR_CHILD k
                   | Some c \<Rightarrow>
                       if parent_pid (kproc k c) = pid (kproc k p) \<and> \<not> was_waited (kproc k c)
                       then obind (proc_wait (int_arg n) wstatus k) (\<lambda>(r, k). sys_return r k)
                       else sys_return ERR_CHILD k)
                else obind (proc_wait (-1) wstatus k) (\<lambda>(r, k). sys_return (if r \<noteq> 0 then r else ERR_CHILD) k)))
   }"

definition sys_exit :: "trapframe \<Rightarrow> kern \<Rightarrow> sysret" where
  "sys_exit tf k = do {
     status \<leftarrow> fetch_arg tf 1;
     k \<leftarrow> proc_exit (int_arg status) k;
     Some (Ret (Exits k))
   }"

definition sys_getpid :: "trapframe \<Rightarrow> kern \<Rightarrow> sysret" where
  "sys_getpid tf k = do { p \<leftarrow> proc_current k; sys_return (pid (kproc k p)) k }"

definition sys_sleep :: "trapframe \<Rightarrow> kern \<Rightarrow> sysret" where
  "sys_sleep tf k = None"

section \<open>Files\<close>

definition sys_open :: "trapframe \<Rightarrow> kern \<Rightarrow> sysret" where
  "sys_open tf k = do {
     pathname \<leftarrow> fetch_arg tf 1;
     flags \<leftarrow> fetch_arg tf 2;
     mode \<leftarrow> fetch_arg tf 3;
     with_str pathname k (\<lambda>s.
       obind (fs_open_file (cwd_of k) s (ucast flags) (unat (ucast mode :: u32)) (kfs k)) (\<lambda>(er, x, v).
         let k = k\<lparr>kfs := v\<rparr> in
         if er = ERR_OK then do { (fd, k) \<leftarrow> alloc_fd x k; sys_return fd k } else sys_return er k))
   }"

definition sys_close :: "trapframe \<Rightarrow> kern \<Rightarrow> sysret" where
  "sys_close tf k = do {
     fd \<leftarrow> fetch_arg tf 1;
     (if \<not> validate_fd (int_arg fd) then sys_return ERR_INVAL k
      else do {
        (p, s) \<leftarrow> fd_slot fd k;
        (case s of
           None \<Rightarrow> sys_return ERR_INVAL k
         | Some x \<Rightarrow> do {
             v \<leftarrow> fs_close_file x (kfs k);
             sys_return ERR_OK (set_proc p (\<lambda>q. q\<lparr>open_files := (open_files q)[unat fd := None]\<rparr>) (k\<lparr>kfs := v\<rparr>))
           })
      })
   }"

definition sys_read :: "trapframe \<Rightarrow> kern \<Rightarrow> sysret" where
  "sys_read tf k = do {
     fd \<leftarrow> fetch_arg tf 1;
     len \<leftarrow> fetch_arg tf 3;
     addr \<leftarrow> fetch_arg tf 2;
     ok \<leftarrow> validate_ptr addr len k;
     (if \<not> ok then sys_return ERR_FAULT k
      else if \<not> validate_fd (int_arg fd) then sys_return ERR_INVAL k
      else do {
        (p, s) \<leftarrow> fd_slot fd k;
        (case s of
           None \<Rightarrow> sys_return ERR_INVAL k
         | Some x \<Rightarrow> obind (fs_read_file x len (f_pos (files (kfs k) x)) (kfs k)) (\<lambda>(bs, ofs, v). do {
             m \<leftarrow> put_user_bytes addr bs (vm (kvm k));
             sys_return (int (length bs)) (set_vm m (k\<lparr>kfs := set_file x (\<lambda>e. e\<lparr>f_pos := ofs\<rparr>) v\<rparr>))
           }))
      })
   }"

definition sys_write :: "trapframe \<Rightarrow> kern \<Rightarrow> sysret" where
  "sys_write tf k = do {
     fd \<leftarrow> fetch_arg tf 1;
     len \<leftarrow> fetch_arg tf 3;
     addr \<leftarrow> fetch_arg tf 2;
     ok \<leftarrow> validate_ptr addr len k;
     (if \<not> ok then sys_return ERR_FAULT k
      else if \<not> validate_fd (int_arg fd) then sys_return ERR_INVAL k
      else do {
        (p, s) \<leftarrow> fd_slot fd k;
        (case s of
           None \<Rightarrow> sys_return ERR_INVAL k
         | Some x \<Rightarrow> do {
             bs \<leftarrow> (if oflag (files (kfs k) x) = 0 then Some [] else get_user_bytes (unat len) addr (vm (kvm k)));
             obind (fs_write_file x bs (f_pos (files (kfs k) x)) (kfs k)) (\<lambda>(ws, ofs, v).
               sys_return (if ws = -1 then ERR_END else ws) (k\<lparr>kfs := set_file x (\<lambda>e. e\<lparr>f_pos := ofs\<rparr>) v\<rparr>))
           })
      })
   }"

definition sys_link :: "trapframe \<Rightarrow> kern \<Rightarrow> sysret" where
  "sys_link tf k = do {
     oldpath \<leftarrow> fetch_arg tf 1;
     newpath \<leftarrow> fetch_arg tf 2;
     with_str oldpath k (\<lambda>a. with_str newpath k (\<lambda>b. fs_call (\<lambda>cwd. fs_link cwd a b) k))
   }"

definition sys_unlink :: "trapframe \<Rightarrow> kern \<Rightarrow> sysret" where
  "sys_unlink tf k = do { s \<leftarrow> fetch_arg tf 1; with_str s k (\<lambda>a. fs_call (\<lambda>cwd. fs_unlink cwd a) k) }"

definition sys_mkdir :: "trapframe \<Rightarrow> kern \<Rightarrow> sysret" where
  "sys_mkdir tf k = do { s \<leftarrow> fetch_arg tf 1; with_str s k (\<lambda>a. fs_call (\<lambda>cwd. fs_mkdir cwd a) k) }"

definition sys_rmdir :: "trapframe \<Rightarrow> kern \<Rightarrow> sysret" where
  "sys_rmdir tf k = do { s \<leftarrow> fetch_arg tf 1; with_str s k (\<lambda>a. fs_call (\<lambda>cwd. fs_rmdir cwd a) k) }"

definition sys_chdir :: "trapframe \<Rightarrow> kern \<Rightarrow> sysret" where
  "sys_chdir tf k = do {
     s \<leftarrow> fetch_arg tf 1;
     with_str s k (\<lambda>a. do {
       (er, i, f) \<leftarrow> fs_find_inode (cwd_of k) a (fs (kfs k));
       (if er \<noteq> ERR_OK then sys_return er (set_fsst f k)
        else do {
          p \<leftarrow> proc_current k;
          f \<leftarrow> fs_release_inode (pcwd (kproc k p)) f;
          sys_return ERR_OK (set_proc p (\<lambda>q. q\<lparr>pcwd := i\<rparr>) (set_fsst f k))
        })
     })
   }"

text \<open>\<^verbatim>\<open>struct dirent\<close> has the name at offset 0 and the inode number at offset 28; the name is stored with its zero byte.\<close>

definition sys_readdir :: "trapframe \<Rightarrow> kern \<Rightarrow> sysret" where
  "sys_readdir tf k = do {
     fd \<leftarrow> fetch_arg tf 1;
     addr \<leftarrow> fetch_arg tf 2;
     (if \<not> validate_fd (int_arg fd) then sys_return ERR_INVAL k
      else do {
        ok \<leftarrow> validate_ptr addr 32 k;
        (if \<not> ok then sys_return ERR_FAULT k
         else do {
           (p, s) \<leftarrow> fd_slot fd k;
           (case s of
              None \<Rightarrow> sys_return ERR_INVAL k
            | Some x \<Rightarrow> do {
                (er, (inum, name), v) \<leftarrow> fs_readdir x (kfs k);
                let k = k\<lparr>kfs := v\<rparr>;
                (if er \<noteq> ERR_OK then sys_return er k
                 else do {
                   m \<leftarrow> put_user_bytes (addr + 28) (int_bytes (int inum)) (vm (kvm k));
                   m \<leftarrow> put_user_bytes addr (name @ [0]) m;
                   sys_return er (set_vm m k)
                 })
              })
         })
      })
   }"

definition long_bytes :: "u64 \<Rightarrow> u8 list" where
  "long_bytes n = enc32 (unat n) @ enc32 (unat n div 2 ^ 32)"

definition sys_fstat :: "trapframe \<Rightarrow> kern \<Rightarrow> sysret" where
  "sys_fstat tf k = do {
     fd \<leftarrow> fetch_arg tf 1;
     stat \<leftarrow> fetch_arg tf 2;
     ok \<leftarrow> validate_ptr stat 16 k;
     (if \<not> ok then sys_return ERR_FAULT k
      else if \<not> validate_fd (int_arg fd) \<or> fd = 0 \<or> fd = 1 then sys_return ERR_INVAL k
      else do {
        (p, s) \<leftarrow> fd_slot fd k;
        (case s of
           None \<Rightarrow> sys_return ERR_INVAL k
         | Some x \<Rightarrow> do {
             a \<leftarrow> f_inode (files (kfs k) x);
             let i = ino (fs (kfs k)) a;
             m \<leftarrow> put_user_bytes stat (int_bytes (int (i_ftype i)) @ int_bytes (int (i_inum i)) @ long_bytes (of_nat (i_size i))) (vm (kvm k));
             sys_return ERR_OK (set_vm m k)
           })
      })
   }"

definition sys_dup :: "trapframe \<Rightarrow> kern \<Rightarrow> sysret" where
  "sys_dup tf k = do {
     fd \<leftarrow> fetch_arg tf 1;
     (if \<not> validate_fd (int_arg fd) then sys_return ERR_INVAL k
      else do {
        (p, s) \<leftarrow> fd_slot fd k;
        (case s of
           None \<Rightarrow> sys_return ERR_INVAL k
         | Some x \<Rightarrow> do {
             (r, k) \<leftarrow> alloc_fd x k;
             sys_return r (if r \<ge> 0 then k\<lparr>kfs := fs_reopen_file x (kfs k)\<rparr> else k)
           })
      })
   }"

text \<open>The outcomes of the allocations in \<^verbatim>\<open>bbq_init\<close>: of the cache, when it is not there yet, and of a queue from it.\<close>

definition bbq_memory :: "kern \<Rightarrow> bool \<times> bool \<times> kern" where
  "bbq_memory k =
     (case (if bbq_cache (kfs k) then (True, k) else kheap_ok k) of (cache_ok, k) \<Rightarrow>
        if \<not> cache_ok then (False, False, k)
        else (case kheap_ok (k\<lparr>kfs := (kfs k)\<lparr>bbq_cache := True\<rparr>\<rparr>) of (obj_ok, k) \<Rightarrow> (True, obj_ok, k)))"

text \<open>\<^verbatim>\<open>pipe_init\<close> on the two new files; the contents of the new ring are what the memory held before. The queue that \<^verbatim>\<open>kmalloc\<close> gives is
  replaced by the one from \<^verbatim>\<open>bbq_init\<close>; neither pointer is tested.\<close>

definition pipe_files :: "nat \<Rightarrow> nat \<Rightarrow> kern \<Rightarrow> err \<times> kern" where
  "pipe_files rx wx k =
     (case kheap_ok k of (info_ok, k) \<Rightarrow>
        if \<not> info_ok then (ERR_NOMEM, k)
        else (case bbq_memory (snd (kheap_ok k)) of (cache_ok, obj_ok, k) \<Rightarrow>
          let v = kfs k; n = npipes v in
          (case pipe_init info_ok cache_ok obj_ok (case pbbq (pipes v n) of Some q \<Rightarrow> items q | None \<Rightarrow> replicate 512 0) of
             None \<Rightarrow> (ERR_NOMEM, k)
           | Some p \<Rightarrow>
               (ERR_OK, k\<lparr>kfs :=
                  set_file wx (\<lambda>e. e\<lparr>f_ops := Pipe_ops, oflag := 1, f_info := Some n\<rparr>)
                    (set_file rx (\<lambda>e. e\<lparr>f_ops := Pipe_ops, oflag := 0, f_info := Some n\<rparr>)
                      (v\<lparr>pipes := (pipes v)(n := p), npipes := n + 1\<rparr>))\<rparr>))))"

definition sys_pipe :: "trapframe \<Rightarrow> kern \<Rightarrow> sysret" where
  "sys_pipe tf k = do {
     fds \<leftarrow> fetch_arg tf 1;
     ok \<leftarrow> validate_ptr fds 8 k;
     (if \<not> ok then sys_return ERR_FAULT k
      else (case fs_alloc_file (kfs k) of (rx, v) \<Rightarrow> (case fs_alloc_file v of (wx, v) \<Rightarrow>
        let k = k\<lparr>kfs := v\<rparr> in
        (case (rx, wx) of
           (Some rx, Some wx) \<Rightarrow> do {
             (rd, k) \<leftarrow> alloc_fd rx k;
             (if rd = ERR_NOMEM then sys_return ERR_NOMEM k
              else do {
                p \<leftarrow> proc_current k;
                (wr, k) \<leftarrow> alloc_fd wx k;
                (if wr = ERR_NOMEM
                 then sys_return ERR_NOMEM (set_proc p (\<lambda>q. q\<lparr>open_files := (open_files q)[nat rd := None]\<rparr>) k)
                 else do {
                   m \<leftarrow> put_user_bytes fds (int_bytes rd @ int_bytes wr) (vm (kvm k));
                   (case pipe_files rx wx (set_vm m k) of (er, k) \<Rightarrow> sys_return er k)
                 })
              })
           }
         | _ \<Rightarrow> sys_return ERR_NOMEM k))))
   }"

section \<open>Memory and the machine\<close>

definition sys_sbrk :: "trapframe \<Rightarrow> kern \<Rightarrow> sysret" where
  "sys_sbrk tf k = do {
     increment \<leftarrow> fetch_arg tf 1;
     p \<leftarrow> proc_current k;
     h \<leftarrow> as_heap (spaces (kvm k) p);
     (er, old_bound, v) \<leftarrow> memregion_extend h increment (kvm k);
     (if er \<noteq> ERR_OK then sys_return ERR_NOMEM (k\<lparr>kvm := v\<rparr>)
      else do { b \<leftarrow> old_bound; Some (Ret (Returns b (k\<lparr>kvm := v\<rparr>))) })
   }"

text \<open>\<^verbatim>\<open>as_meminfo\<close> only prints.\<close>

definition sys_meminfo :: "trapframe \<Rightarrow> kern \<Rightarrow> sysret" where
  "sys_meminfo tf k = do { p \<leftarrow> proc_current k; sys_return ERR_OK k }"

definition sys_info :: "trapframe \<Rightarrow> kern \<Rightarrow> sysret" where
  "sys_info tf k = do {
     info \<leftarrow> fetch_arg tf 1;
     ok \<leftarrow> validate_ptr info 8 k;
     (if \<not> ok then sys_return ERR_FAULT k
      else do {
        m \<leftarrow> put_user_bytes info (long_bytes (user_pgfault k)) (vm (kvm k));
        sys_return ERR_OK (set_vm m k)
      })
   }"

definition sys_halt :: "trapframe \<Rightarrow> kern \<Rightarrow> sysret" where
  "sys_halt tf k = Some (Ret Halts)"

section \<open>Dispatch\<close>

text \<open>The table \<^verbatim>\<open>syscalls\<close>, from number 1 on.\<close>

definition syscalls :: "(trapframe \<Rightarrow> kern \<Rightarrow> sysret) list" where
  "syscalls = [sys_fork, sys_spawn, sys_wait, sys_exit, sys_getpid, sys_sleep, sys_open, sys_close, sys_read, sys_write,
     sys_link, sys_unlink, sys_mkdir, sys_chdir, sys_readdir, sys_rmdir, sys_fstat, sys_sbrk, sys_meminfo, sys_dup,
     sys_pipe, sys_info, sys_halt]"

definition syscall :: "int \<Rightarrow> trapframe \<Rightarrow> kern \<Rightarrow> sysret" where
  "syscall num tf k = do {
     kassert (proc_current k \<noteq> None);
     (if 0 < num \<and> num < int (length syscalls) + 1 then (syscalls ! nat (num - 1)) tf k else None)
   }"

text \<open>A system call trap: the frame becomes the one of the running thread, and the result goes to \<^verbatim>\<open>rax\<close>.\<close>

definition syscall_trap :: "trapframe \<Rightarrow> kern \<Rightarrow> sysret" where
  "syscall_trap tf k = obind (syscall (int_arg (rax tf)) tf (set_thr (curthr k) (\<lambda>s. s\<lparr>t_tf := tf\<rparr>) k)) (\<lambda>r.
     case r of
       Returns v k \<Rightarrow> Some (Ret (Returns v (set_thr (curthr k) (\<lambda>s. s\<lparr>t_tf := (t_tf s)\<lparr>rax := v\<rparr>\<rparr>) k)))
     | _ \<Rightarrow> Some (Ret r))"

end
