(* ===== verification/Procs.thy ===== *)
theory Procs
  imports Syscall
begin

text \<open>
  The invariant of the process table and of the references to open files, and what the operations that do not create or end a
  process leave unchanged.
\<close>

section \<open>Calls that may wait\<close>

lemma obind_Ret: "obind m g = Some (Ret y) \<longleftrightarrow> (\<exists>x. m = Some (Ret x) \<and> g x = Some (Ret y))"
  by (simp add: obind_def split: option.split outcome.split)

section \<open>Address space operations keep the running process\<close>

named_theorems keeps_cur \<open>operations of the address spaces that keep the field of the running process\<close>

lemma set_space_cur [simp]: "cur (set_space a g st) = cur st"
  by (simp add: set_space_def)

lemma flush_tlb_cur [keeps_cur]: "flush_tlb st = Some st' \<Longrightarrow> cur st' = cur st"
  by (auto simp: flush_tlb_def split: option.splits bind_splits)

lemma map_region_at_cur [keeps_cur]: "map_region_at a addr n perm store ofs shared st = Some (r, st') \<Longrightarrow> cur st' = cur st"
  by (auto simp: map_region_at_def Let_def split: if_splits list.splits)

lemma memregion_map_internal_cur [keeps_cur]:
  "memregion_map_internal a addr n perm store ofs shared st = Some (r, st') \<Longrightarrow> cur st' = cur st"
  by (auto simp: memregion_map_internal_def split: if_splits bind_splits option.splits dest: map_region_at_cur)

lemma as_map_memregion_cur [keeps_cur]:
  "as_map_memregion a addr n perm store ofs shared st = Some (r, st') \<Longrightarrow> cur st' = cur st"
  by (simp add: as_map_memregion_def memregion_map_internal_cur)

lemma memregion_unmap_internal_cur [keeps_cur]: "memregion_unmap_internal r st = Some st' \<Longrightarrow> cur st' = cur st"
  by (auto simp: memregion_unmap_internal_def Let_def split: bind_splits dest: flush_tlb_cur)

lemma unmap_all_cur [keeps_cur]: "unmap_all rs st = Some st' \<Longrightarrow> cur st' = cur st"
  by (induction rs arbitrary: st) (auto split: bind_splits dest: memregion_unmap_internal_cur)

lemma as_destroy_cur [keeps_cur]: "as_destroy a st = Some st' \<Longrightarrow> cur st' = cur st"
  by (auto simp: as_destroy_def Let_def split: bind_splits if_splits dest: unmap_all_cur)

lemma as_init_cur [keeps_cur]: "as_init a ok st = Some (er, st') \<Longrightarrow> cur st' = cur st"
  by (auto simp: as_init_def Let_def split: bind_splits option.splits prod.splits)

lemma memregion_copy_internal_cur [keeps_cur]: "memregion_copy_internal a src addr st = Some (r, st') \<Longrightarrow> cur st' = cur st"
  by (auto simp: memregion_copy_internal_def Let_def split: bind_splits option.splits prod.splits if_splits
      dest!: memregion_map_internal_cur flush_tlb_cur memregion_unmap_internal_cur)

lemma copy_regions_cur [keeps_cur]: "copy_regions s d rs st = Some (er, st') \<Longrightarrow> cur st' = cur st"
proof (induction s d rs st rule: copy_regions.induct)
  case (2 s d r rs st)
  then show ?case
    by (fastforce split: bind_splits option.splits if_splits dest: memregion_copy_internal_cur)
qed simp

lemma as_copy_as_cur [keeps_cur]: "as_copy_as s d st = Some (er, st') \<Longrightarrow> cur st' = cur st"
  by (auto simp: as_copy_as_def split: if_splits dest: copy_regions_cur)

lemma memregion_extend_cur [keeps_cur]: "memregion_extend r n st = Some (er, b, st') \<Longrightarrow> cur st' = cur st"
  by (auto simp: memregion_extend_def Let_def split: bind_splits if_splits)

lemma handle_page_fault_cur [keeps_cur]:
  "handle_page_fault a addr pr wr us st = Some (Resume st') \<Longrightarrow> cur st' = cur st"
  "handle_page_fault a addr pr wr us st = Some (Exit st') \<Longrightarrow> cur st' = cur st"
  by (auto simp: handle_page_fault_def Let_def split: bind_splits option.splits prod.splits if_splits)

section \<open>References to open files\<close>

text \<open>\<open>files_cover v r\<close>: the references of the function \<open>r\<close> are covered by the reference counts, and a free file object has no reference.
  \<^verbatim>\<open>stdin\<close> and \<^verbatim>\<open>stdout\<close> are never freed, whatever their counts are.\<close>

definition files_cover :: "vfs \<Rightarrow> (nat \<Rightarrow> nat) \<Rightarrow> bool" where
  "files_cover v r \<longleftrightarrow>
     (\<forall>x\<ge>2. int (r x) \<le> f_ref (files v x)) \<and> (\<forall>x\<in>set (fpool v). 2 \<le> x \<and> r x = 0) \<and> distinct (fpool v)"

text \<open>What a client that holds references relies on: closing gives up one of them, reopening adds one, and opening one for a file that had none.\<close>

locale file_refs =
  fixes cover :: "'v \<Rightarrow> (nat \<Rightarrow> nat) \<Rightarrow> bool"
    and reopen :: "nat \<Rightarrow> 'v \<Rightarrow> 'v"
    and close :: "nat \<Rightarrow> 'v \<Rightarrow> 'v option"
    and close_all :: "nat option list \<Rightarrow> 'v \<Rightarrow> 'v option"
  assumes reopen_cover: "cover v r \<Longrightarrow> 0 < r x \<Longrightarrow> cover (reopen x v) (r(x := r x + 1))"
    and close_cover: "cover v r \<Longrightarrow> 0 < r x \<Longrightarrow> close x v = Some v' \<Longrightarrow> cover v' (r(x := r x - 1))"
    and close_all_Nil: "close_all [] v = Some v"
    and close_all_None: "close_all (None # ss) v = close_all ss v"
    and close_all_Some: "close_all (Some x # ss) v = Option.bind (close x v) (close_all ss)"
begin

lemma close_all_cover:
  assumes "cover v (\<lambda>x. r x + count_list ss (Some x))" "close_all ss v = Some v'"
  shows "cover v' r"
  using assms
proof (induction ss arbitrary: v)
  case Nil
  then show ?case by (simp add: close_all_Nil)
next
  case (Cons s ss)
  show ?case
  proof (cases s)
    case None
    then show ?thesis using Cons by (simp add: close_all_None)
  next
    case (Some y)
    let ?r = "\<lambda>x. r x + count_list (s # ss) (Some x)"
    obtain w where w: "close y v = Some w" "close_all ss w = Some v'"
      using Cons.prems(2) Some by (auto simp: close_all_Some split: bind_splits)
    have "cover w (?r(y := ?r y - 1))"
      using close_cover [OF Cons.prems(1) _ w(1)] Some by simp
    moreover have "?r(y := ?r y - 1) = (\<lambda>x. r x + count_list ss (Some x))"
      using Some by (auto simp: fun_eq_iff)
    ultimately show ?thesis using Cons.IH w(2) by simp
  qed
qed

end

lemma close_op_files: "close_op x v = Some v' \<Longrightarrow> files v' = files v \<and> fpool v' = fpool v"
  by (auto simp: close_op_def split: file_operations.splits bind_splits)

lemma fs_close_file_cover:
  assumes "files_cover v r" "0 < r x" "fs_close_file x v = Some v'"
  shows "files_cover v' (r(x := r x - 1))"
proof -
  let ?w = "set_file x (\<lambda>e. e\<lparr>f_ref := f_ref e - 1\<rparr>) v"
  have w: "f_ref (files ?w y) = (if y = x then f_ref (files v x) - 1 else f_ref (files v y))" "fpool ?w = fpool v" for y
    by (simp_all add: set_file_def)
  have n: "x \<notin> set (fpool v)" using assms(1,2) by (auto simp: files_cover_def)
  show ?thesis
  proof (cases "f_ref (files ?w x) > 0 \<or> x = STDIN \<or> x = STDOUT")
    case True
    then have "v' = ?w" using assms(3) by (auto simp: fs_close_file_def Let_def split: if_splits)
    then show ?thesis using assms(1,2) n unfolding files_cover_def by (auto simp: w)
  next
    case False
    obtain u where u: "files u = files ?w" "fpool u = fpool ?w" "v' = fs_free_file x u"
      using assms(3) False
      by (auto simp: fs_close_file_def Let_def split: if_splits bind_splits option.splits dest!: close_op_files)
    have "2 \<le> x" using False by auto
    then have "int (r x) \<le> f_ref (files v x)" using assms(1) by (simp add: files_cover_def)
    then have "r x = 1" "f_ref (files v x) = 1" using False assms(2) w(1) [of x] by auto
    then show ?thesis using assms(1) n u \<open>2 \<le> x\<close> unfolding files_cover_def by (auto simp: w fs_free_file_def)
  qed
qed

lemma fs_reopen_file_cover: "files_cover v r \<Longrightarrow> 0 < r x \<Longrightarrow> files_cover (fs_reopen_file x v) (r(x := r x + 1))"
  unfolding files_cover_def fs_reopen_file_def set_file_def by auto

interpretation vf: file_refs files_cover fs_reopen_file fs_close_file close_files
  by (unfold_locales; (erule (1) fs_reopen_file_cover | erule (2) fs_close_file_cover | simp))

lemma fs_alloc_file_cover:
  "files_cover v r \<Longrightarrow> fs_alloc_file v = (Some x, v') \<Longrightarrow> r x = 0 \<and> files_cover v' (r(x := 1)) \<and> x \<notin> set (fpool v')"
  by (auto simp: fs_alloc_file_def files_cover_def split: list.splits)

text \<open>Opening may take file objects from the free ones, and reference counts may grow.\<close>

definition files_grow :: "vfs \<Rightarrow> vfs \<Rightarrow> bool" where
  "files_grow v v' \<longleftrightarrow> (distinct (fpool v) \<longrightarrow>
     distinct (fpool v') \<and> set (fpool v') \<subseteq> set (fpool v) \<and>
     (\<forall>x. f_ref (files v x) \<le> f_ref (files v' x) \<or> x \<in> set (fpool v) - set (fpool v') \<and> 0 \<le> f_ref (files v' x)))"

lemma files_grow_refl [simp]: "files_grow v v"
  by (simp add: files_grow_def)

lemma files_grow_trans [trans]:
  assumes "files_grow u v" "files_grow v w"
  shows "files_grow u w"
  unfolding files_grow_def
proof (intro impI)
  assume "distinct (fpool u)"
  then have 1: "distinct (fpool v)" "set (fpool v) \<subseteq> set (fpool u)"
      "\<And>x. f_ref (files u x) \<le> f_ref (files v x) \<or> x \<in> set (fpool u) - set (fpool v) \<and> 0 \<le> f_ref (files v x)"
    using assms(1) by (simp_all add: files_grow_def)
  then have 2: "distinct (fpool w)" "set (fpool w) \<subseteq> set (fpool v)"
      "\<And>x. f_ref (files v x) \<le> f_ref (files w x) \<or> x \<in> set (fpool v) - set (fpool w) \<and> 0 \<le> f_ref (files w x)"
    using assms(2) by (simp_all add: files_grow_def)
  have "f_ref (files u x) \<le> f_ref (files w x) \<or> x \<in> set (fpool u) - set (fpool w) \<and> 0 \<le> f_ref (files w x)" for x
    using 1(3) [of x] 2(3) [of x] 1(2) 2(2) by auto
  then show "distinct (fpool w) \<and> set (fpool w) \<subseteq> set (fpool u) \<and>
      (\<forall>x. f_ref (files u x) \<le> f_ref (files w x) \<or> x \<in> set (fpool u) - set (fpool w) \<and> 0 \<le> f_ref (files w x))"
    using 1(2) 2(1,2) by blast
qed

lemma files_grow_same: "fpool v' = fpool v \<Longrightarrow> (\<And>x. f_ref (files v x) \<le> f_ref (files v' x)) \<Longrightarrow> files_grow v v'"
  by (simp add: files_grow_def)

lemma files_cover_grow:
  assumes "files_cover v r" "files_grow v v'"
  shows "files_cover v' r"
proof -
  have c: "distinct (fpool v)" "\<And>x. 2 \<le> x \<Longrightarrow> int (r x) \<le> f_ref (files v x)" "\<And>x. x \<in> set (fpool v) \<Longrightarrow> 2 \<le> x \<and> r x = 0"
    using assms(1) by (simp_all add: files_cover_def)
  then have g: "distinct (fpool v')" "set (fpool v') \<subseteq> set (fpool v)"
      "\<And>x. f_ref (files v x) \<le> f_ref (files v' x) \<or> x \<in> set (fpool v) - set (fpool v') \<and> 0 \<le> f_ref (files v' x)"
    using assms(2) by (simp_all add: files_grow_def)
  have "int (r x) \<le> f_ref (files v' x)" if "2 \<le> x" for x
    using c(2) [OF that] c(3) [of x] g(3) [of x] by auto
  then show ?thesis using g(1,2) c(3) unfolding files_cover_def by blast
qed

lemma fs_reopen_file_grow: "files_grow v (fs_reopen_file x v)"
  by (simp add: fs_reopen_file_def set_file_def files_grow_same)

lemma fs_read_file_grow: "fs_read_file x len ofs v = Some (Ret (bs, ofs', v')) \<Longrightarrow> files_grow v v'"
  by (auto simp: fs_read_file_def intro!: files_grow_same split: if_splits file_operations.splits bind_splits
      outcome.splits prod.splits read_result.splits)

lemma fs_write_file_grow: "fs_write_file x bs ofs v = Some (Ret (ws, ofs', v')) \<Longrightarrow> files_grow v v'"
  by (auto simp: fs_write_file_def intro!: files_grow_same split: if_splits file_operations.splits bind_splits
      outcome.splits prod.splits option.splits)

lemma fs_readdir_grow: "fs_readdir x v = Some (er, d, v') \<Longrightarrow> files_grow v v'"
  by (auto simp: fs_readdir_def set_file_def intro!: files_grow_same split: if_splits bind_splits)

lemma fs_alloc_file_grow: "fs_alloc_file v = (r, v') \<Longrightarrow> files_grow v v'"
  by (auto simp: fs_alloc_file_def files_grow_def split: list.splits if_splits)

lemma fs_alloc_file_None: "fs_alloc_file v = (None, v') \<Longrightarrow> v' = v"
  by (auto simp: fs_alloc_file_def split: list.splits)

lemma fs_open_file_cases:
  assumes "fs_open_file cwd s flags mode v = Some (Ret (er, x, v'))"
  shows "er \<noteq> ERR_OK \<and> files v' = files v \<and> fpool v' = fpool v
    \<or> er = ERR_OK \<and> (\<exists>w f. fs_alloc_file v = (Some x, w)
        \<and> v' = (set_file x (\<lambda>e. e\<lparr>f_inode := f_inode (files v' x), f_ops := Sfs_ops, oflag := flags AND NOT FS_CREAT\<rparr>) w)\<lparr>fs := f\<rparr>)"
proof (cases "validate_flag flags")
  case False
  then show ?thesis using assms by (simp add: fs_open_file_def)
next
  case True
  obtain er1 parent name f1 where 1: "fs_find_parent_inode cwd s (fs v) = Some (er1, parent, name, f1)"
    using assms True by (auto simp: fs_open_file_def split: bind_splits)
  show ?thesis
  proof (cases "er1 = ERR_OK")
    case False
    then show ?thesis using assms True 1 by (auto simp: fs_open_file_def)
  next
    case t: True
    obtain er2 fi f2 where 2: "with_txn (open_leaf parent name flags mode) f1 = Some (Ret ((er2, fi), f2))"
      using assms True 1 t by (auto simp: fs_open_file_def split: bind_splits outcome.splits)
    show ?thesis
    proof (cases "fs_alloc_file v")
      case (Pair r w)
      then show ?thesis using assms True 1 t 2 fs_alloc_file_None [of v w]
        by (cases r) (auto simp: fs_open_file_def Let_def set_file_def split: bind_splits if_splits)
    qed
  qed
qed

lemma fs_open_file_grow:
  assumes "fs_open_file cwd s flags mode v = Some (Ret (er, x, v'))"
  shows "files_grow v v'"
  using fs_open_file_cases [OF assms]
proof
  assume "er = ERR_OK \<and> (\<exists>w f. fs_alloc_file v = (Some x, w)
    \<and> v' = (set_file x (\<lambda>e. e\<lparr>f_inode := f_inode (files v' x), f_ops := Sfs_ops, oflag := flags AND NOT FS_CREAT\<rparr>) w)\<lparr>fs := f\<rparr>)"
  then obtain w f g where w: "fs_alloc_file v = (Some x, w)" "v' = (set_file x g w)\<lparr>fs := f\<rparr>" "\<And>e. f_ref (g e) = f_ref e"
    by fastforce
  then have "files_grow w v'" by (intro files_grow_same) (simp_all add: set_file_def)
  then show ?thesis using files_grow_trans [OF fs_alloc_file_grow [OF w(1)]] by blast
qed (simp add: files_grow_same)

section \<open>Operations that leave the processes alone\<close>

text \<open>What the invariant depends on: of a process all but its name and its directory, of a thread the process.\<close>

definition core :: "proc \<Rightarrow> proc" where
  "core q = q\<lparr>pname := [], pcwd := 0\<rparr>"

lemma core_eq: "core q = core q' \<longleftrightarrow> pid q = pid q' \<and> pthreads q = pthreads q' \<and> open_files q = open_files q'
    \<and> proc_status q = proc_status q' \<and> parent_pid q = parent_pid q' \<and> was_waited q = was_waited q'"
  by (cases q; cases q') (auto simp: core_def)

definition quiet :: "kern \<Rightarrow> kern \<Rightarrow> bool" where
  "quiet k k' \<longleftrightarrow>
     core \<circ> kproc k' = core \<circ> kproc k \<and> ppool k' = ppool k \<and> ptable k' = ptable k \<and> pid_allocator k' = pid_allocator k \<and>
     t_proc \<circ> kthr k' = t_proc \<circ> kthr k \<and> tpool k' = tpool k \<and> curthr k' = curthr k \<and> init_proc k' = init_proc k \<and>
     cur (kvm k') = cur (kvm k) \<and> files_grow (kfs k) (kfs k')"

lemma quiet_refl [simp]: "quiet k k"
  by (simp add: quiet_def)

lemma quiet_trans [trans]: "quiet k k' \<Longrightarrow> quiet k' k'' \<Longrightarrow> quiet k k''"
  unfolding quiet_def by (auto intro: files_grow_trans)

named_theorems quiets \<open>operations that leave the processes alone\<close>

lemma quiet_set_vm [simp]: "quiet k (set_vm v k)"
  by (simp add: quiet_def set_vm_def)

lemma quiet_set_fsst [simp]: "quiet k (set_fsst f k)"
  by (simp add: quiet_def set_fsst_def files_grow_same)

lemma quiet_set_vm_iff [simp]: "quiet k (set_vm v k') \<longleftrightarrow> quiet k k'" "quiet (set_vm v k) k' \<longleftrightarrow> quiet k k'"
  by (simp_all add: quiet_def set_vm_def)

lemma quiet_set_fsst_iff [simp]: "quiet k (set_fsst f k') \<longleftrightarrow> quiet k k'" "quiet (set_fsst f k) k' \<longleftrightarrow> quiet k k'"
  by (simp_all add: quiet_def set_fsst_def files_grow_def)

lemma quiet_kvm: "cur v = cur (kvm k) \<Longrightarrow> quiet k (k\<lparr>kvm := v\<rparr>)"
  by (simp add: quiet_def)

lemma quiet_kfs: "files_grow (kfs k) v \<Longrightarrow> quiet k (k\<lparr>kfs := v\<rparr>)"
  by (simp add: quiet_def)

lemma kheap_ok_quiet [quiets]: "kheap_ok k = (ok, k') \<Longrightarrow> quiet k k'"
  by (auto simp: kheap_ok_def split: prod.splits)

lemma kpmem_alloc_quiet [quiets]: "kpmem_alloc k = Some (er, pa, k') \<Longrightarrow> quiet k k'"
  by (auto simp: kpmem_alloc_def split: bind_splits)

lemma destroy_space_quiet [quiets]: "destroy_space p k = Some k' \<Longrightarrow> quiet k k'"
  by (auto simp: destroy_space_def split: bind_splits intro!: quiet_kvm dest: as_destroy_cur)

lemma kread_quiet [quiets]: "kread x len ofs k = Some (Ret (bs, ofs', k')) \<Longrightarrow> quiet k k'"
  by (auto simp: kread_def obind_Ret intro!: quiet_kfs dest: fs_read_file_grow)

lemma load_page_bytes_quiet:
  assumes "(if avail = 0 then Some (Ret (True, off, k))
      else obind (kread x avail off k) (\<lambda>(bs, off, k).
        Some (Ret (length bs = unat avail, off, set_vm (put_frame_bytes pa bs (vm (kvm k))) k)))) = Some (Ret (ok, off', k'))"
  shows "quiet k k'"
  using assms by (auto simp: obind_Ret split: if_splits intro: quiet_trans [OF kread_quiet])

lemma load_pages_quiet [quiets]: "load_pages p x perm va n cnt vofs rb off k = Some (Ret (er, k')) \<Longrightarrow> quiet k k'"
proof (induction n arbitrary: cnt vofs rb off k)
  case (Suc n)
  obtain er1 pa k1 where 1: "kpmem_alloc k = Some (er1, pa, k1)"
    using Suc.prems by (auto split: bind_splits)
  show ?case
  proof (cases "er1 = ERR_OK")
    case False
    then show ?thesis using Suc.prems 1 kpmem_alloc_quiet by auto
  next
    case True
    let ?k2 = "set_vm (zero_frame (paddr_to_page pa) (vm (kvm k1))) k1"
    let ?avail = "min rb (pg_size - pg_ofs (vofs + kmap_p2v (of_nat pa)))"
    obtain ok off3 k3 where 3: "(if ?avail = 0 then Some (Ret (True, off, ?k2))
        else obind (kread x ?avail off ?k2) (\<lambda>(bs, off, k).
          Some (Ret (length bs = unat ?avail, off, set_vm (put_frame_bytes (pa + unat vofs) bs (vm (kvm k))) k))))
        = Some (Ret (ok, off3, k3))"
      "(if \<not> ok then Some (Ret (ERR_INVAL, k3))
        else do {
          vp \<leftarrow> as_vpmap (spaces (kvm k3) p);
          (er, v) \<leftarrow> vpmap_map vp (va + cnt * pg_size) (of_nat pa) 1 perm (vm (kvm k3));
          (if er \<noteq> ERR_OK then Some (Ret (er, set_vm v k3))
           else load_pages p x perm va n (cnt + 1) 0 (rb - ?avail) off3 (set_vm v k3))
        }) = Some (Ret (er, k'))"
      using Suc.prems 1 True by (auto simp: obind_Ret Let_def simp del: if_split)
    have "quiet k k3"
      using kpmem_alloc_quiet [OF 1] quiet_set_vm load_page_bytes_quiet [OF 3(1)] quiet_trans by blast
    moreover have "quiet k3 k'"
      using 3(2) by (auto split: if_splits bind_splits intro: quiet_trans [OF quiet_set_vm Suc.IH])
    ultimately show ?thesis by (rule quiet_trans)
  qed
qed simp

lemma as_map_memregion_quiet [quiets]:
  "as_map_memregion p addr n perm store ofs shared (kvm k) = Some (r, v) \<Longrightarrow> quiet k (k\<lparr>kvm := v\<rparr>)"
  by (intro quiet_kvm as_map_memregion_cur)

lemma load_segment_quiet [quiets]: "load_segment p x ph k = Some (Ret (er, e, k')) \<Longrightarrow> quiet k k'"
  by (auto simp: load_segment_def Let_def obind_Ret split: if_splits bind_splits option.splits
      intro: as_map_memregion_quiet quiet_trans [OF as_map_memregion_quiet load_pages_quiet])

lemma load_segments_quiet [quiets]: "load_segments p x n ofs e k = Some (Ret (er, e', k')) \<Longrightarrow> quiet k k'"
proof (induction n arbitrary: ofs e k)
  case (Suc n)
  obtain bs ofs1 k1 where 1: "kread x 56 ofs k = Some (Ret (bs, ofs1, k1))"
    using Suc.prems by (auto simp: obind_Ret)
  have "quiet k1 k'"
  proof (cases "length bs = 56 \<and> ph_type (proghdr_of bs) = PT_LOAD")
    case False
    then show ?thesis using Suc.prems 1 Suc.IH by (auto simp: obind_Ret split: if_splits)
  next
    case True
    then obtain er2 e2 k2 where 2: "load_segment p x (proghdr_of bs) k1 = Some (Ret (er2, e2, k2))"
        "er2 = ERR_OK \<Longrightarrow> load_segments p x n ofs1 e2 k2 = Some (Ret (er, e', k'))" "er2 \<noteq> ERR_OK \<Longrightarrow> k2 = k'"
      using Suc.prems 1 by (auto simp: obind_Ret split: if_splits)
    then show ?thesis using Suc.IH load_segment_quiet quiet_trans by (cases "er2 = ERR_OK") blast+
  qed
  then show ?case using kread_quiet [OF 1] quiet_trans by blast
qed simp

lemma proc_load_quiet [quiets]:
  assumes "proc_load p s k = Some (Ret (er, e, k'))"
  shows "quiet k k'"
proof -
  obtain er1 x v where 1: "fs_open_file (cwd_of k) s 0 0 (kfs k) = Some (Ret (er1, x, v))"
    using assms by (auto simp: proc_load_def obind_Ret)
  let ?k = "k\<lparr>kfs := v\<rparr>"
  have q1: "quiet k ?k" using 1 by (intro quiet_kfs fs_open_file_grow)
  show ?thesis
  proof (cases "er1 = ERR_OK")
    case False
    then show ?thesis using assms 1 q1 by (auto simp: proc_load_def obind_Ret)
  next
    case True
    obtain bs ofs2 k2 where 2: "kread x 64 0 ?k = Some (Ret (bs, ofs2, k2))"
      using assms 1 True by (auto simp: proc_load_def obind_Ret Let_def)
    note q2 = quiet_trans [OF q1 kread_quiet [OF 2]]
    show ?thesis
    proof (cases "length bs \<noteq> 64 \<or> eh_magic (elfhdr_of bs) \<noteq> ELF_MAGIC")
      case True
      then show ?thesis using assms 1 2 q2 \<open>er1 = ERR_OK\<close> by (auto simp: proc_load_def obind_Ret Let_def split: if_splits)
    next
      case False
      then obtain er3 e3 k3 where 3: "load_segments p x (eh_phnum (elfhdr_of bs)) (unat (eh_phoff (elfhdr_of bs))) 0 k2
          = Some (Ret (er3, e3, k3))"
        using assms 1 2 True by (auto simp: proc_load_def obind_Ret Let_def)
      note q3 = quiet_trans [OF q2 load_segments_quiet [OF 3]]
      show ?thesis
      proof (cases "er3 = ERR_OK")
        case False
        then show ?thesis using assms 1 2 3 q3 \<open>er1 = ERR_OK\<close> \<open>\<not> (length bs \<noteq> 64 \<or> _)\<close>
          by (simp add: proc_load_def obind_Ret Let_def)
      next
        case True
        then obtain r w where 4: "as_map_memregion p e3 0 MEMPERM_URW None 0 False (kvm k3) = Some (r, w)"
            "k' = k3\<lparr>kvm := set_space p (\<lambda>s. s\<lparr>as_heap := r\<rparr>) w\<rparr>"
          using assms 1 2 3 \<open>er1 = ERR_OK\<close> \<open>\<not> (length bs \<noteq> 64 \<or> _)\<close>
          by (auto simp: proc_load_def obind_Ret Let_def split: bind_splits)
        then have "quiet k3 k'" using as_map_memregion_cur [OF 4(1)] by (simp add: quiet_kvm)
        then show ?thesis by (rule quiet_trans [OF q3])
      qed
    qed
  qed
qed

lemma stack_setup_quiet [quiets]:
  assumes "stack_setup p k = Some (er, sp, k')"
  shows "quiet k k'"
proof -
  obtain er1 pa k1 where 1: "kpmem_alloc k = Some (er1, pa, k1)"
    using assms by (auto simp: stack_setup_def split: bind_splits)
  have "quiet k1 k'"
    using assms 1 by (auto simp: stack_setup_def Let_def split: if_splits bind_splits
        dest!: as_map_memregion_quiet)
  then show ?thesis using kpmem_alloc_quiet [OF 1] quiet_trans by blast
qed

end
