(* ===== verification/Ptable.thy ===== *)
theory Ptable
  imports Procs
begin

text \<open>
  The invariant of the process table, the threads of processes and the references to open files, and that creating a process, using
  file descriptors, waiting and exiting keep it.
\<close>

section \<open>The invariant\<close>

text \<open>A process runs as long as it has a thread. Only running processes hold references to files: an exited process keeps stale ones.\<close>

definition live :: "kern \<Rightarrow> nat set" where
  "live k = {p \<in> set (ptable k). pthreads (kproc k p) \<noteq> []}"

definition fd_refs :: "kern \<Rightarrow> nat \<Rightarrow> nat" where
  "fd_refs k x = (\<Sum>p\<in>live k. count_list (open_files (kproc k p)) (Some x))"

definition parent_ok :: "kern \<Rightarrow> nat \<Rightarrow> bool" where
  "parent_ok k p \<longleftrightarrow> parent_pid (kproc k p) = 0 \<or> (\<exists>q\<in>live k. pid (kproc k q) = parent_pid (kproc k p))"

definition table_ok :: "kern \<Rightarrow> bool" where
  "table_ok k \<longleftrightarrow>
     distinct (ptable k @ ppool k) \<and> inj_on (\<lambda>p. pid (kproc k p)) (set (ptable k)) \<and>
     (\<forall>p\<in>set (ptable k). 0 \<le> pid (kproc k p) \<and> pid (kproc k p) < pid_allocator k \<and>
        length (open_files (kproc k p)) = PROC_MAX_ARG \<and> \<not> was_waited (kproc k p)) \<and>
     (\<forall>p\<in>live k. proc_status (kproc k p) = STATUS_ALIVE) \<and> 0 \<le> pid_allocator k"

definition threads_ok :: "kern \<Rightarrow> bool" where
  "threads_ok k \<longleftrightarrow>
     distinct (tpool k) \<and>
     (\<forall>p\<in>live k. \<exists>t. pthreads (kproc k p) = [t] \<and> t \<notin> set (tpool k) \<and> t_proc (kthr k t) = Some p) \<and>
     (\<forall>p. proc_current k = Some p \<longrightarrow> p \<in> live k \<and> pthreads (kproc k p) = [curthr k])"

definition base_ok :: "kern \<Rightarrow> bool" where
  "base_ok k \<longleftrightarrow> table_ok k \<and> threads_ok k \<and> (\<forall>p\<in>set (ptable k). parent_ok k p) \<and> files_cover (kfs k) (fd_refs k)"

text \<open>The first process has number 0 and is its own parent; it stays at the front of the table.\<close>

definition init_ok :: "kern \<Rightarrow> bool" where
  "init_ok k \<longleftrightarrow> (case init_proc k of
     Some i \<Rightarrow> ptable k \<noteq> [] \<and> hd (ptable k) = i \<and> pid (kproc k i) = 0 \<and> parent_pid (kproc k i) = 0
   | None \<Rightarrow> False)"

definition kern_ok :: "kern \<Rightarrow> bool" where
  "kern_ok k \<longleftrightarrow> base_ok k \<and> init_ok k"

lemma init_okD:
  assumes "init_ok k"
  obtains i where "init_proc k = Some i" "i \<in> set (ptable k)" "pid (kproc k i) = 0" "parent_pid (kproc k i) = 0"
  using assms hd_in_set [of "ptable k"] by (auto simp: init_ok_def split: option.splits)

lemma finite_live [simp]: "finite (live k)"
  by (simp add: live_def)

lemma live_ptable: "p \<in> live k \<Longrightarrow> p \<in> set (ptable k)"
  by (simp add: live_def)

section \<open>Calm operations\<close>

text \<open>An operation is calm when it leaves the processes in the table as they are; it may take structures from the free ones.\<close>

definition calm :: "kern \<Rightarrow> kern \<Rightarrow> bool" where
  "calm k k' \<longleftrightarrow>
     ptable k' = ptable k \<and> (\<forall>p\<in>set (ptable k). core (kproc k' p) = core (kproc k p)) \<and>
     (distinct (ppool k) \<longrightarrow> distinct (ppool k') \<and> set (ppool k') \<subseteq> set (ppool k)) \<and> pid_allocator k \<le> pid_allocator k' \<and>
     (distinct (tpool k) \<longrightarrow> distinct (tpool k') \<and> set (tpool k') \<subseteq> set (tpool k) \<and>
        (\<forall>t. t \<notin> set (tpool k) \<longrightarrow> t_proc (kthr k' t) = t_proc (kthr k t))) \<and> curthr k' = curthr k \<and> init_proc k' = init_proc k \<and>
     proc_current k' = proc_current k \<and> files_grow (kfs k) (kfs k')"

lemma quiet_calm: "quiet k k' \<Longrightarrow> calm k k'"
  unfolding quiet_def calm_def proc_current_def by (auto simp: fun_eq_iff)

lemma calm_refl [simp]: "calm k k"
  by (simp add: calm_def)

lemma calm_live: "calm k k' \<Longrightarrow> live k' = live k"
  unfolding calm_def live_def by (auto simp: core_eq)

lemma calm_fd_refs: "calm k k' \<Longrightarrow> fd_refs k' = fd_refs k"
proof
  fix x assume c: "calm k k'"
  have "open_files (kproc k' p) = open_files (kproc k p)" if "p \<in> live k" for p
    using c that by (simp add: calm_def live_def core_eq)
  then show "fd_refs k' x = fd_refs k x" by (simp add: fd_refs_def calm_live [OF c])
qed

lemma calm_table: "calm k k' \<Longrightarrow> table_ok k \<Longrightarrow> table_ok k'"
proof -
  assume c: "calm k k'" and t: "table_ok k"
  have e: "core (kproc k' p) = core (kproc k p)" if "p \<in> set (ptable k)" for p using c that by (simp add: calm_def)
  have "inj_on (\<lambda>p. pid (kproc k' p)) (set (ptable k))"
    using t inj_on_cong [of "set (ptable k)" "\<lambda>p. pid (kproc k' p)" "\<lambda>p. pid (kproc k p)"] e by (simp add: table_ok_def core_eq)
  moreover have "distinct (ppool k')" "set (ppool k') \<subseteq> set (ppool k)" "pid_allocator k \<le> pid_allocator k'" "ptable k' = ptable k"
    using c t by (simp_all add: calm_def table_ok_def)
  ultimately show ?thesis using t e live_ptable [of _ k]
    by (fastforce simp: table_ok_def calm_live [OF c] core_eq)
qed

lemma calm_threads: "calm k k' \<Longrightarrow> threads_ok k \<Longrightarrow> threads_ok k'"
proof -
  assume c: "calm k k'" and t: "threads_ok k"
  have e: "pthreads (kproc k' p) = pthreads (kproc k p)" if "p \<in> live k" for p
    using c live_ptable [OF that] by (simp add: calm_def core_eq)
  have f: "distinct (tpool k')" "set (tpool k') \<subseteq> set (tpool k)" "curthr k' = curthr k" "proc_current k' = proc_current k"
      "\<And>t. t \<notin> set (tpool k) \<Longrightarrow> t_proc (kthr k' t) = t_proc (kthr k t)"
    using c t by (simp_all add: calm_def threads_ok_def)
  show ?thesis using t e f unfolding threads_ok_def calm_live [OF c] by (metis subsetD)
qed

lemma calm_base: "calm k k' \<Longrightarrow> base_ok k \<Longrightarrow> base_ok k'"
proof -
  assume c: "calm k k'" and b: "base_ok k"
  have e: "ptable k' = ptable k" "\<And>p. p \<in> set (ptable k) \<Longrightarrow> core (kproc k' p) = core (kproc k p)" "files_grow (kfs k) (kfs k')"
    using c by (simp_all add: calm_def)
  have "parent_ok k' p" if p: "p \<in> set (ptable k)" for p
    using b e(2) [OF p] e(2) [OF live_ptable] p by (auto simp: base_ok_def parent_ok_def calm_live [OF c] core_eq)
  then show ?thesis using b c calm_table calm_threads files_cover_grow [OF _ e(3)] e(1)
    by (simp add: base_ok_def calm_fd_refs [OF c])
qed

lemma calm_init: "calm k k' \<Longrightarrow> init_ok k \<Longrightarrow> init_ok k'"
  by (auto simp: init_ok_def calm_def core_eq split: option.splits)

lemma calm_ok: "calm k k' \<Longrightarrow> kern_ok k \<Longrightarrow> kern_ok k'"
  by (simp add: kern_ok_def calm_base calm_init)

lemma calm_trans [trans]: "calm k k' \<Longrightarrow> calm k' k'' \<Longrightarrow> calm k k''"
  unfolding calm_def by (auto intro: files_grow_trans)

lemma quiet_calm_trans: "quiet k k' \<Longrightarrow> calm k' k'' \<Longrightarrow> calm k k''"
  using calm_trans quiet_calm by blast

lemma calm_quiet_trans: "calm k k' \<Longrightarrow> quiet k' k'' \<Longrightarrow> calm k k''"
  using calm_trans quiet_calm by blast

lemma calm_set_proc: "p \<notin> set (ptable k) \<Longrightarrow> calm k (set_proc p g k)"
  by (auto simp: calm_def set_proc_def proc_current_def)

section \<open>File descriptors\<close>

lemma count_list_update:
  "i < length xs \<Longrightarrow> count_list (xs[i := a]) y + of_bool (xs ! i = y) = count_list xs y + of_bool (a = y)"
proof (induction xs arbitrary: i)
  case (Cons x xs)
  then show ?case by (cases i) auto
qed simp

lemma live_set_slot [simp]: "live (set_proc p (\<lambda>q. q\<lparr>open_files := fds q\<rparr>) k) = live k"
  by (auto simp: live_def set_proc_def)

lemma refs_set_slot:
  assumes "p \<in> live k" "length (open_files (kproc k p)) = n" "i < n"
  shows "fd_refs (set_proc p (\<lambda>q. q\<lparr>open_files := (open_files q)[i := a]\<rparr>) k) x + of_bool (open_files (kproc k p) ! i = Some x)
    = fd_refs k x + of_bool (a = Some x)"
proof -
  let ?k = "set_proc p (\<lambda>q. q\<lparr>open_files := (open_files q)[i := a]\<rparr>) k"
  have o: "open_files (kproc ?k q) = (if q = p then (open_files (kproc k p))[i := a] else open_files (kproc k q))" for q
    by (simp add: set_proc_def)
  have "fd_refs ?k x = count_list ((open_files (kproc k p))[i := a]) (Some x)
      + (\<Sum>q\<in>live k - {p}. count_list (open_files (kproc k q)) (Some x))"
    unfolding fd_refs_def live_set_slot by (simp add: sum.remove [OF finite_live assms(1)] o)
  moreover have "fd_refs k x = count_list (open_files (kproc k p)) (Some x)
      + (\<Sum>q\<in>live k - {p}. count_list (open_files (kproc k q)) (Some x))"
    unfolding fd_refs_def by (simp add: sum.remove [OF finite_live assms(1)])
  ultimately show ?thesis using count_list_update [of i "open_files (kproc k p)" a "Some x"] assms(2,3) by simp
qed

lemma slot_has_ref:
  assumes "p \<in> live k" "i < length (open_files (kproc k p))" "open_files (kproc k p) ! i = Some x"
  shows "0 < fd_refs k x"
proof -
  have "Some x \<in> set (open_files (kproc k p))" using assms(2,3) nth_mem by fastforce
  then have "0 < count_list (open_files (kproc k p)) (Some x)" using count_list_0_iff by fastforce
  then show ?thesis unfolding fd_refs_def by (intro sum_pos2 [OF finite_live assms(1)]) simp_all
qed

text \<open>A change of one slot and of the files that fits it.\<close>

lemma set_slot_base:
  assumes b: "base_ok k" and p: "p \<in> live k"
    and f: "files_cover v (fd_refs (set_proc p (\<lambda>q. q\<lparr>open_files := (open_files q)[i := a]\<rparr>) k))"
  shows "base_ok ((set_proc p (\<lambda>q. q\<lparr>open_files := (open_files q)[i := a]\<rparr>) k)\<lparr>kfs := v\<rparr>)"
proof -
  let ?k = "set_proc p (\<lambda>q. q\<lparr>open_files := (open_files q)[i := a]\<rparr>) k"
  let ?k' = "?k\<lparr>kfs := v\<rparr>"
  have l: "live ?k' = live k" "fd_refs ?k' = fd_refs ?k" by (auto simp: live_def fd_refs_def set_proc_def)
  have s: "pid (kproc ?k' q) = pid (kproc k q)" "pthreads (kproc ?k' q) = pthreads (kproc k q)"
      "proc_status (kproc ?k' q) = proc_status (kproc k q)" "parent_pid (kproc ?k' q) = parent_pid (kproc k q)"
      "was_waited (kproc ?k' q) = was_waited (kproc k q)" "length (open_files (kproc ?k' q)) = length (open_files (kproc k q))" for q
    by (simp_all add: set_proc_def)
  have t: "ptable ?k' = ptable k" "ppool ?k' = ppool k" "pid_allocator ?k' = pid_allocator k" "tpool ?k' = tpool k"
      "kthr ?k' = kthr k" "curthr ?k' = curthr k" "proc_current ?k' = proc_current k" "kfs ?k' = v"
    by (simp_all add: set_proc_def proc_current_def)
  show ?thesis using b f
    unfolding base_ok_def table_ok_def threads_ok_def parent_ok_def l s t by simp
qed

lemma set_slot_init: "init_ok ((set_proc p (\<lambda>q. q\<lparr>open_files := fds q\<rparr>) k)\<lparr>kfs := v\<rparr>) = init_ok k"
  by (auto simp: init_ok_def set_proc_def split: option.splits)

lemma alloc_fd_cases:
  assumes "alloc_fd x k = Some (fd, k')"
  obtains "fd = ERR_NOMEM" "k' = k"
    | p i where "proc_current k = Some p" "i < PROC_MAX_ARG" "fd = int i" "open_files (kproc k p) ! i = None"
      "\<forall>j<i. open_files (kproc k p) ! j \<noteq> None" "k' = set_proc p (\<lambda>q. q\<lparr>open_files := (open_files q)[i := Some x]\<rparr>) k"
proof -
  obtain p where p: "proc_current k = Some p" using assms by (auto simp: alloc_fd_def split: bind_splits)
  show ?thesis
  proof (cases "find (\<lambda>i. open_files (kproc k p) ! i = None) [0..<PROC_MAX_ARG]")
    case None
    then show ?thesis using assms p that(1) by (simp add: alloc_fd_def)
  next
    case (Some i)
    then have "i < PROC_MAX_ARG" "open_files (kproc k p) ! i = None" "\<forall>j<i. open_files (kproc k p) ! j \<noteq> None"
      by (auto simp: find_Some_iff)
    then show ?thesis using assms p Some by (intro that(2) [of p i]) (simp_all add: alloc_fd_def)
  qed
qed

lemma current_live: "base_ok k \<Longrightarrow> proc_current k = Some p \<Longrightarrow> p \<in> live k \<and> length (open_files (kproc k p)) = PROC_MAX_ARG"
  by (auto simp: base_ok_def threads_ok_def table_ok_def live_ptable)

lemma fill_slot_refs:
  assumes "base_ok k" "proc_current k = Some p" "i < PROC_MAX_ARG" "open_files (kproc k p) ! i = None"
  shows "fd_refs (set_proc p (\<lambda>q. q\<lparr>open_files := (open_files q)[i := Some x]\<rparr>) k) = (fd_refs k)(x := fd_refs k x + 1)"
proof
  fix y
  show "fd_refs (set_proc p (\<lambda>q. q\<lparr>open_files := (open_files q)[i := Some x]\<rparr>) k) y = ((fd_refs k)(x := fd_refs k x + 1)) y"
    using refs_set_slot [of p k PROC_MAX_ARG i "Some x" y] current_live [OF assms(1,2)] assms(3,4) by (simp split: if_splits)
qed

lemma clear_slot_refs:
  assumes "base_ok k" "proc_current k = Some p" "i < PROC_MAX_ARG" "open_files (kproc k p) ! i = Some x"
  shows "fd_refs (set_proc p (\<lambda>q. q\<lparr>open_files := (open_files q)[i := None]\<rparr>) k) = (fd_refs k)(x := fd_refs k x - 1)"
proof
  fix y
  show "fd_refs (set_proc p (\<lambda>q. q\<lparr>open_files := (open_files q)[i := None]\<rparr>) k) y = ((fd_refs k)(x := fd_refs k x - 1)) y"
    using refs_set_slot [of p k PROC_MAX_ARG i None y] current_live [OF assms(1,2)] assms(3,4) by (auto split: if_splits)
qed

lemma set_proc_kfs: "set_proc p g (k\<lparr>kfs := v\<rparr>) = (set_proc p g k)\<lparr>kfs := v\<rparr>"
  by (simp add: set_proc_def)

lemma kern_ok_kfs: "kern_ok k \<Longrightarrow> files_cover v (fd_refs k) \<Longrightarrow> kern_ok (k\<lparr>kfs := v\<rparr>)"
proof -
  have "live (k\<lparr>kfs := v\<rparr>) = live k" "fd_refs (k\<lparr>kfs := v\<rparr>) = fd_refs k" by (simp_all add: live_def fd_refs_def fun_eq_iff)
  then show "kern_ok k \<Longrightarrow> files_cover v (fd_refs k) \<Longrightarrow> kern_ok (k\<lparr>kfs := v\<rparr>)"
    by (cases "init_proc k")
      (simp_all add: kern_ok_def base_ok_def table_ok_def threads_ok_def parent_ok_def init_ok_def proc_current_def)
qed

text \<open>Taking a descriptor for a file that has one reference more than the table.\<close>

lemma alloc_fd_ok:
  assumes k: "kern_ok k" and v: "files_cover v (fd_refs k)" "files_cover v ((fd_refs k)(x := fd_refs k x + 1))"
    and a: "alloc_fd x (k\<lparr>kfs := v\<rparr>) = Some (fd, k')"
  shows "kern_ok k' \<and> proc_current k' = proc_current k"
  using a
proof (cases rule: alloc_fd_cases)
  case 1
  then show ?thesis using kern_ok_kfs [OF k v(1)] by (simp add: proc_current_def)
next
  case (2 p i)
  have b: "base_ok k" "init_ok k" using k by (simp_all add: kern_ok_def)
  have p: "proc_current k = Some p" "open_files (kproc k p) ! i = None" using 2(1,4) by (simp_all add: proc_current_def)
  have "k' = (set_proc p (\<lambda>q. q\<lparr>open_files := (open_files q)[i := Some x]\<rparr>) k)\<lparr>kfs := v\<rparr>"
    using 2(6) by (simp add: set_proc_kfs)
  moreover have "base_ok ((set_proc p (\<lambda>q. q\<lparr>open_files := (open_files q)[i := Some x]\<rparr>) k)\<lparr>kfs := v\<rparr>)"
    using set_slot_base [OF b(1)] current_live [OF b(1) p(1)] v(2) fill_slot_refs [OF b(1) p(1) 2(2) p(2)] by simp
  ultimately show ?thesis using b(2) by (simp add: kern_ok_def set_slot_init) (simp add: proc_current_def set_proc_def)
qed

lemma alloc_fd_kfs:
  "alloc_fd x k = Some (r, k') \<Longrightarrow> alloc_fd x (k\<lparr>kfs := v\<rparr>) = Some (r, k'\<lparr>kfs := v\<rparr>) \<and> kfs k' = kfs k"
  by (auto simp: alloc_fd_def proc_current_def set_proc_def split: option.splits bind_splits)

lemma close_slot_ok:
  assumes k: "kern_ok k" and s: "fd_slot fd k = Some (p, Some x)" and c: "fs_close_file x (kfs k) = Some v"
  shows "kern_ok (set_proc p (\<lambda>q. q\<lparr>open_files := (open_files q)[unat fd := None]\<rparr>) (k\<lparr>kfs := v\<rparr>))"
proof -
  have b: "base_ok k" "init_ok k" using k by (simp_all add: kern_ok_def)
  have p: "proc_current k = Some p" "unat fd < PROC_MAX_ARG" "open_files (kproc k p) ! unat fd = Some x"
    using s by (auto simp: fd_slot_def split: bind_splits if_splits)
  have "0 < fd_refs k x" using slot_has_ref [of p k "unat fd"] current_live [OF b(1) p(1)] p(2,3) by simp
  then have "files_cover v ((fd_refs k)(x := fd_refs k x - 1))"
    using vf.close_cover [OF _ _ c] b(1) by (simp add: base_ok_def)
  then have "base_ok ((set_proc p (\<lambda>q. q\<lparr>open_files := (open_files q)[unat fd := None]\<rparr>) k)\<lparr>kfs := v\<rparr>)"
    using set_slot_base [OF b(1)] current_live [OF b(1) p(1)] clear_slot_refs [OF b(1) p] by simp
  then show ?thesis using b(2) by (simp add: kern_ok_def set_proc_kfs set_slot_init)
qed

lemma dup_slot_ok:
  assumes k: "kern_ok k" and s: "fd_slot fd k = Some (p, Some x)" and a: "alloc_fd x k = Some (r, k')" "r \<ge> 0"
  shows "kern_ok (k'\<lparr>kfs := fs_reopen_file x (kfs k')\<rparr>)"
proof -
  have b: "base_ok k" "init_ok k" using k by (simp_all add: kern_ok_def)
  have p: "proc_current k = Some p" "unat fd < PROC_MAX_ARG" "open_files (kproc k p) ! unat fd = Some x"
    using s by (auto simp: fd_slot_def split: bind_splits if_splits)
  have "0 < fd_refs k x" using slot_has_ref [of p k "unat fd"] current_live [OF b(1) p(1)] p(2,3) by simp
  then have v: "files_cover (fs_reopen_file x (kfs k)) ((fd_refs k)(x := fd_refs k x + 1))"
    using vf.reopen_cover b(1) by (simp add: base_ok_def)
  have "files_cover (fs_reopen_file x (kfs k)) (fd_refs k)"
    using files_cover_grow [OF _ fs_reopen_file_grow] b(1) by (simp add: base_ok_def)
  moreover have "alloc_fd x (k\<lparr>kfs := fs_reopen_file x (kfs k)\<rparr>) = Some (r, k'\<lparr>kfs := fs_reopen_file x (kfs k')\<rparr>)"
    using alloc_fd_kfs [OF a(1), of "fs_reopen_file x (kfs k)"] by simp
  ultimately show ?thesis using alloc_fd_ok [OF k _ v] by blast
qed

section \<open>New processes\<close>

text \<open>A process that is set up but not yet in the table.\<close>

definition fresh :: "nat \<Rightarrow> kern \<Rightarrow> bool" where
  "fresh p k \<longleftrightarrow>
     p \<notin> set (ptable k) \<and> p \<notin> set (ppool k) \<and> 0 \<le> pid (kproc k p) \<and> pid (kproc k p) < pid_allocator k \<and>
     (\<forall>q\<in>set (ptable k). pid (kproc k q) \<noteq> pid (kproc k p)) \<and> length (open_files (kproc k p)) = PROC_MAX_ARG \<and>
     \<not> was_waited (kproc k p) \<and> proc_status (kproc k p) = STATUS_ALIVE"

abbreviation (input) std_fds :: "nat option list" where
  "std_fds \<equiv> Some STDIN # Some STDOUT # replicate (PROC_MAX_ARG - 2) None"

lemma proc_free_calm: "calm k k' \<Longrightarrow> ppool k = p # ps \<Longrightarrow> ppool k' = ps \<Longrightarrow> calm k (proc_free p k')"
  by (simp add: calm_def proc_free_def proc_current_def)

lemma quiet_fields: "quiet k k' \<Longrightarrow> ppool k' = ppool k \<and> ptable k' = ptable k \<and> pid_allocator k' = pid_allocator k
    \<and> core (kproc k' p) = core (kproc k p)"
  unfolding quiet_def by (metis comp_apply)

lemma proc_alloc_calm:
  assumes "table_ok k" "proc_alloc k = (Some p, k')"
  shows "calm k k'" "ppool k = p # ppool k'" "p \<notin> set (ptable k')" "p \<notin> set (ppool k')" "pid (kproc k' p) = pid_allocator k"
    "pid_allocator k' = pid_allocator k + 1" "\<forall>q\<in>set (ptable k'). pid (kproc k' q) < pid (kproc k' p)"
proof -
  obtain ps where k: "ppool k = p # ps"
      "k' = (set_proc p (\<lambda>q. q\<lparr>pid := pid_allocator k\<rparr>) k)\<lparr>ppool := ps, pid_allocator := pid_allocator k + 1\<rparr>"
    using assms(2) by (auto simp: proc_alloc_def split: list.splits)
  then show "ppool k = p # ppool k'" "pid (kproc k' p) = pid_allocator k" "pid_allocator k' = pid_allocator k + 1"
    by (simp_all add: set_proc_def)
  show p: "p \<notin> set (ptable k')" "p \<notin> set (ppool k')" using assms(1) k by (auto simp: table_ok_def set_proc_def)
  show "calm k k'" using p k by (auto simp: calm_def set_proc_def proc_current_def)
  show "\<forall>q\<in>set (ptable k'). pid (kproc k' q) < pid (kproc k' p)" using p k assms(1) by (auto simp: table_ok_def set_proc_def)
qed

lemma quiet_set_proc:
  assumes "quiet k k'" "\<And>q q'. core q = core q' \<Longrightarrow> core (g q) = core (g q')"
  shows "quiet (set_proc p g k) (set_proc p g k')"
proof -
  have e: "core (kproc k' q) = core (kproc k q)" for q using quiet_fields [OF assms(1)] by simp
  have "core (g (kproc k' p)) = core (g (kproc k p))" by (rule assms(2)) (rule e)
  then have "core \<circ> kproc (set_proc p g k') = core \<circ> kproc (set_proc p g k)" using e by (simp add: set_proc_def fun_eq_iff)
  then show ?thesis using assms(1) by (simp add: quiet_def set_proc_def)
qed

lemma proc_init_cases:
  assumes "proc_init name k = Some (r, k')"
  obtains "proc_alloc k = (None, k')" "r = None"
    | p k1 k2 g where "proc_alloc k = (Some p, k1)" "quiet (set_proc p g k1) k2" "r = None" "k' = proc_free p k2"
    | p k1 k2 a n where "proc_alloc k = (Some p, k1)" "r = Some p" "quiet (set_proc p (\<lambda>q. q\<lparr>pname := n, pthreads := []\<rparr>) k1) k2"
      "k' = set_proc p (\<lambda>q. q\<lparr>pcwd := a, open_files := std_fds, proc_status := STATUS_ALIVE, parent_pid := 0, was_waited := False\<rparr>) k2"
proof (cases "proc_alloc k")
  case (Pair r1 k1)
  show thesis
  proof (cases r1)
    case None
    then show thesis using assms Pair that(1) by (simp add: proc_init_def)
  next
    case (Some p)
    obtain ok k2 where 2: "kheap_ok k1 = (ok, k2)" by fastforce
    obtain er v where 3: "as_init p ok (kvm k2) = Some (er, v)"
      using assms Pair Some 2 by (auto simp: proc_init_def split: bind_splits)
    let ?k3 = "k2\<lparr>kvm := v\<rparr>"
    have q3: "quiet k1 ?k3" using quiet_trans [OF kheap_ok_quiet [OF 2] quiet_kvm] as_init_cur [OF 3] by simp
    show thesis
    proof (cases "er = ERR_OK")
      case False
      have "set_proc p (\<lambda>q. q) k1 = k1" by (simp add: set_proc_def)
      moreover have "r = None" "k' = proc_free p ?k3" using False assms Pair Some 2 3 by (simp_all add: proc_init_def)
      ultimately show thesis using Pair Some q3 by (intro that(2) [of p k1 "\<lambda>q. q" ?k3]) simp_all
    next
      case True
      let ?g = "\<lambda>q. q\<lparr>pname := take (PROC_NAME_LEN - 1) name, pthreads := []\<rparr>"
      let ?k4 = "set_proc p ?g ?k3"
      have q4: "quiet (set_proc p ?g k1) ?k4" by (rule quiet_set_proc [OF q3]) (simp add: core_eq)
      obtain er a f where 5: "fs_get_inode SFS_ROOT_INUM (fs (kfs ?k4)) = Some (er, a, f)"
        using assms Pair Some 2 3 True by (auto simp: proc_init_def Let_def split: bind_splits)
      show thesis
      proof (cases "er = ERR_OK")
        case t: True
        have "r = Some p" "k' = set_proc p (\<lambda>q. q\<lparr>pcwd := a, open_files := std_fds, proc_status := STATUS_ALIVE, parent_pid := 0,
            was_waited := False\<rparr>) (set_fsst f ?k4)"
          using assms Pair Some 2 3 5 True t by (simp_all add: proc_init_def)
        then show thesis using Pair Some q4
          by (intro that(3) [of p k1 "take (PROC_NAME_LEN - 1) name" "set_fsst f ?k4" a]) simp_all
      next
        case False
        obtain k6 where 6: "destroy_space p (set_fsst f ?k4) = Some k6" "k' = proc_free p k6" "r = None"
          using assms Pair Some 2 3 5 True False by (auto simp: proc_init_def split: bind_splits)
        have "quiet (set_proc p ?g k1) k6" by (rule quiet_trans [OF q4 quiet_trans [OF quiet_set_fsst destroy_space_quiet [OF 6(1)]]])
        then show thesis using Pair Some 6 by (intro that(2) [of p k1 ?g k6]) simp_all
      qed
    qed
  qed
qed

lemma proc_init_calm:
  assumes t: "table_ok k" and i: "proc_init name k = Some (r, k')"
  shows "calm k k' \<and> (\<forall>p. r = Some p \<longrightarrow> fresh p k' \<and> pthreads (kproc k' p) = [] \<and> open_files (kproc k' p) = std_fds
    \<and> parent_pid (kproc k' p) = 0 \<and> pid (kproc k' p) = pid_allocator k \<and> ppool k = p # ppool k')"
  using i
proof (cases rule: proc_init_cases)
  case 1
  then show ?thesis by (auto simp: proc_alloc_def split: list.splits)
next
  case (2 p k1 k2 g)
  note a = proc_alloc_calm [OF t 2(1)]
  have "calm k k2" by (rule calm_quiet_trans [OF calm_trans [OF a(1) calm_set_proc [OF a(3)]] 2(2)])
  moreover have "ppool k2 = ppool k1" using quiet_fields [OF 2(2)] by (simp add: set_proc_def)
  ultimately have "calm k (proc_free p k2)" using proc_free_calm a(2) by blast
  then show ?thesis using 2(3,4) by simp
next
  case (3 p k1 k2 b n)
  note a = proc_alloc_calm [OF t 3(1)]
  let ?k1 = "set_proc p (\<lambda>q. q\<lparr>pname := n, pthreads := []\<rparr>) k1"
  have c2: "calm k k2" by (rule calm_quiet_trans [OF calm_trans [OF a(1) calm_set_proc [OF a(3)]] 3(3)])
  have q: "ppool k2 = ppool k1" "ptable k2 = ptable k1" "pid_allocator k2 = pid_allocator k1"
      "core (kproc k2 q) = core (kproc ?k1 q)" for q
    using quiet_fields [OF 3(3), of q] by (simp_all add: set_proc_def)
  have "calm k k'" using calm_trans [OF c2 calm_set_proc [of p k2]] a(3) q(2) 3(4) by simp
  moreover have "fresh p k'"
    using a(3-7) q(1-3) q(4) 3(4) t by (auto simp: fresh_def set_proc_def core_eq table_ok_def)
  ultimately show ?thesis using 3(2,4) a(2,5) q(1) q(4) [of p] by (auto simp: set_proc_def core_eq)
qed

lemma fresh_quiet: "fresh p k \<Longrightarrow> quiet k k' \<Longrightarrow> fresh p k'"
  using quiet_fields [of k k'] by (simp add: fresh_def core_eq)

lemma fresh_set_proc:
  assumes "fresh p k" "pid (g (kproc k p)) = pid (kproc k p)" "was_waited (g (kproc k p)) = was_waited (kproc k p)"
    "proc_status (g (kproc k p)) = proc_status (kproc k p)" "length (open_files (g (kproc k p))) = PROC_MAX_ARG"
  shows "fresh p (set_proc p g k)"
  using assms unfolding fresh_def by (auto simp: set_proc_def)

text \<open>\<open>prep p k k'\<close>: what happens to a new process while it is set up.\<close>

definition prep :: "nat \<Rightarrow> kern \<Rightarrow> kern \<Rightarrow> bool" where
  "prep p k k' \<longleftrightarrow> calm k k' \<and> ppool k' = ppool k \<and> (fresh p k \<longrightarrow> fresh p k') \<and> pid (kproc k' p) = pid (kproc k p)"

lemma prep_trans [trans]: "prep p k k' \<Longrightarrow> prep p k' k'' \<Longrightarrow> prep p k k''"
  unfolding prep_def using calm_trans by auto

lemma prep_quiet: "quiet k k' \<Longrightarrow> prep p k k'"
  using quiet_fields [of k k'] quiet_calm fresh_quiet by (auto simp: prep_def core_eq)

lemma prep_set_proc:
  assumes "p \<notin> set (ptable k)" "pid (g (kproc k p)) = pid (kproc k p)" "was_waited (g (kproc k p)) = was_waited (kproc k p)"
    "proc_status (g (kproc k p)) = proc_status (kproc k p)" "length (open_files (g (kproc k p))) = length (open_files (kproc k p))"
  shows "prep p k (set_proc p g k)"
proof -
  have "fresh p k \<Longrightarrow> fresh p (set_proc p g k)" using assms by (intro fresh_set_proc) (simp_all add: fresh_def)
  then show ?thesis using assms(1,2) calm_set_proc by (simp add: prep_def) (simp add: set_proc_def)
qed

lemma thread_create_prep:
  assumes p: "p \<notin> set (ptable k)" and t: "distinct (tpool k)" and c: "thread_create name (Some p) pri k = Some (r, k')"
  shows "prep p k k' \<and> open_files (kproc k' p) = open_files (kproc k p) \<and> parent_pid (kproc k' p) = parent_pid (kproc k p)
    \<and> pname (kproc k' p) = pname (kproc k p) \<and> kfs k' = kfs k
    \<and> (\<forall>t. r = Some t \<longrightarrow> pthreads (kproc k' p) = pthreads (kproc k p) @ [t] \<and> t \<notin> set (tpool k') \<and> t_proc (kthr k' t) = Some p)"
proof (cases "tpool k")
  case Nil
  then show ?thesis using c by (auto simp: thread_create_def prep_def)
next
  case (Cons u us)
  obtain er pa k1 where 1: "kpmem_alloc (k\<lparr>tpool := us\<rparr>) = Some (er, pa, k1)"
    using c Cons by (auto simp: thread_create_def split: bind_splits)
  obtain m where k1: "k1 = set_vm m (k\<lparr>tpool := us\<rparr>)" using 1 by (auto simp: kpmem_alloc_def split: bind_splits)
  show ?thesis
  proof (cases "er = ERR_OK")
    case False
    then have "k' = k1" "r = None" using c Cons 1 by (simp_all add: thread_create_def)
    then show ?thesis using Cons t k1 by (auto simp: prep_def calm_def proc_current_def fresh_def set_vm_def)
  next
    case True
    then obtain n where k': "r = Some u"
        "k' = proc_attach_thread (Some p) u (set_thr u (\<lambda>s. s\<lparr>t_tid := n, t_name := take (THREAD_NAME_LEN - 1) name, t_proc := Some p,
           t_priority := pri, t_kstack := pa\<rparr>) (k1\<lparr>tid_allocator := n\<rparr>))"
      using c Cons 1 by (auto simp: thread_create_def Let_def)
    have "fresh p k \<longrightarrow> fresh p k'" using k' k1
      by (auto simp: fresh_def proc_attach_thread_def set_proc_def set_thr_def set_vm_def)
    moreover have "calm k k'" using k' k1 Cons t p
      by (auto simp: calm_def proc_attach_thread_def set_proc_def set_thr_def set_vm_def proc_current_def)
    ultimately show ?thesis using k' k1 Cons t
      by (auto simp: prep_def proc_attach_thread_def set_proc_def set_thr_def set_vm_def)
  qed
qed

end
