(* ===== verification/Procops.thy ===== *)
theory Procops
  imports Ptable
begin

text \<open>
  Creating processes (\<^verbatim>\<open>proc_spawn\<close>, \<^verbatim>\<open>proc_fork\<close>), waiting (\<^verbatim>\<open>proc_wait\<close>) and exiting (\<^verbatim>\<open>proc_exit\<close>) keep the invariant of the process table.
\<close>

section \<open>Adding a process to the table\<close>

lemma files_cover_cong: "(\<And>x. 2 \<le> x \<Longrightarrow> r x = r' x) \<Longrightarrow> files_cover v r = files_cover v r'"
  unfolding files_cover_def by (metis (full_types))

lemma add_process:
  assumes b: "base_ok k" and f: "fresh p k" and t: "pthreads (kproc k p) = [t]" "t \<notin> set (tpool k)" "t_proc (kthr k t) = Some p"
    and q: "parent_pid (kproc k p) = 0 \<or> (\<exists>q\<in>live k. pid (kproc k q) = parent_pid (kproc k p))"
    and c: "files_cover (kfs k) (\<lambda>x. fd_refs k x + count_list (open_files (kproc k p)) (Some x))"
  shows "base_ok (k\<lparr>ptable := ptable k @ [p]\<rparr>)"
proof -
  let ?k = "k\<lparr>ptable := ptable k @ [p]\<rparr>"
  have p: "p \<notin> set (ptable k)" "p \<notin> set (ppool k)" using f by (simp_all add: fresh_def)
  have l: "live ?k = insert p (live k)" "p \<notin> live k" using t(1) p(1) by (auto simp: live_def)
  have r: "fd_refs ?k = (\<lambda>x. fd_refs k x + count_list (open_files (kproc k p)) (Some x))"
    using l by (simp add: fd_refs_def fun_eq_iff)
  have "inj_on (\<lambda>p. pid (kproc k p)) (insert p (set (ptable k)))"
    using b f p(1) by (auto simp: base_ok_def table_ok_def fresh_def)
  then have "table_ok ?k" using b f p l(1) by (auto simp: base_ok_def table_ok_def fresh_def)
  moreover have "threads_ok ?k" using b t l(1) by (auto simp: base_ok_def threads_ok_def proc_current_def)
  moreover have "\<forall>x\<in>set (ptable ?k). parent_ok ?k x" using b q l(1) by (auto simp: base_ok_def parent_ok_def)
  ultimately show ?thesis using c r by (simp add: base_ok_def)
qed

lemma add_process_init: "init_ok k \<Longrightarrow> init_ok (k\<lparr>ptable := ptable k @ [p]\<rparr>)"
  by (auto simp: init_ok_def split: option.splits)

lemma std_fds_count: "2 \<le> x \<Longrightarrow> count_list std_fds (Some x) = 0"
  by (simp add: count_list_0_iff)

lemma std_fds_cover: "files_cover v r \<Longrightarrow> files_cover v (\<lambda>x. r x + count_list std_fds (Some x))"
  using files_cover_cong [of r "\<lambda>x. r x + count_list std_fds (Some x)" v] std_fds_count by simp

section \<open>Spawn\<close>

lemma tf_proc_quiet: "tf_proc t p e sp k = Some k' \<Longrightarrow> quiet k k'"
  by (auto simp: tf_proc_def quiet_def set_thr_def fun_eq_iff split: bind_splits if_splits)

lemma thread_start_context_quiet [simp]: "quiet k (thread_start_context t k)"
  by (simp add: quiet_def thread_start_context_def)

lemma quiet_set_tf: "quiet k (set_thr t (\<lambda>s. s\<lparr>t_tf := g s\<rparr>) k)"
  by (simp add: quiet_def set_thr_def fun_eq_iff)

lemma discard_calm:
  assumes "calm k k1" "ppool k = p # ppool k1" "prep p k1 k2" "destroy_space p k2 = Some k3"
  shows "calm k (proc_free p k3)"
proof -
  have "calm k k2" using assms(1,3) by (simp add: prep_def calm_trans [of k k1])
  then have "calm k k3" by (rule calm_quiet_trans [OF _ destroy_space_quiet [OF assms(4)]])
  moreover have "ppool k3 = ppool k1" using assms(3) quiet_fields [OF destroy_space_quiet [OF assms(4)]] by (simp add: prep_def)
  ultimately show ?thesis using proc_free_calm assms(2) by blast
qed

text \<open>The last steps of \<^verbatim>\<open>proc_spawn\<close>, from the process with its program and stack.\<close>

definition spawn_end :: "nat \<Rightarrow> vaddr \<Rightarrow> vaddr \<Rightarrow> kern \<Rightarrow> (err \<times> nat \<times> kern) outcome option" where
  "spawn_end p entry_point stackptr k = do {
     let k = (case proc_current k of None \<Rightarrow> k | Some c \<Rightarrow> set_proc p (\<lambda>q. q\<lparr>parent_pid := pid (kproc k c)\<rparr>) k);
     (t, k) \<leftarrow> thread_create (pname (kproc k p)) (Some p) DEFAULT_PRI k;
     (case t of
        None \<Rightarrow> do { k \<leftarrow> destroy_space p k; Some (Ret (ERR_NOMEM, 0, proc_free p k)) }
      | Some t \<Rightarrow> do {
          k \<leftarrow> tf_proc t p entry_point stackptr (k\<lparr>ptable := ptable k @ [p]\<rparr>);
          Some (Ret (ERR_OK, p, thread_start_context t k))
        })
   }"

lemma proc_spawn_cases:
  assumes "proc_spawn name k = Some (Ret (er, x, k'))"
  obtains "proc_init name k = Some (None, k')" "er = ERR_NOMEM"
    | p k1 k2 k3 where "proc_init name k = Some (Some p, k1)" "quiet k1 k2" "destroy_space p k2 = Some k3" "k' = proc_free p k3"
        "er \<noteq> ERR_OK"
    | p k1 k2 e sp where "proc_init name k = Some (Some p, k1)" "quiet k1 k2" "spawn_end p e sp k2 = Some (Ret (er, x, k'))"
proof -
  obtain r k1 where 1: "proc_init name k = Some (r, k1)" using assms by (auto simp: proc_spawn_def split: bind_splits)
  show thesis
  proof (cases r)
    case None
    then show thesis using assms 1 that(1) by (simp add: proc_spawn_def)
  next
    case (Some p)
    obtain er2 e k2 where 2: "proc_load p name k1 = Some (Ret (er2, e, k2))"
      using assms 1 Some by (auto simp: proc_spawn_def Let_def obind_Ret)
    show thesis
    proof (cases "er2 = ERR_OK")
      case False
      then obtain k3 where "destroy_space p k2 = Some k3" "k' = proc_free p k3" "er = er2"
        using assms 1 Some 2 by (auto simp: proc_spawn_def Let_def obind_def split: bind_splits)
      then show thesis using 1 Some proc_load_quiet [OF 2] False by (intro that(2) [of p k1 k2 k3]) simp_all
    next
      case t: True
      obtain er3 sp k3 where 3: "stack_setup p k2 = Some (er3, sp, k3)"
        using assms 1 Some 2 t by (auto simp: proc_spawn_def Let_def obind_def split: bind_splits)
      have q: "quiet k1 k3" by (rule quiet_trans [OF proc_load_quiet [OF 2] stack_setup_quiet [OF 3]])
      show thesis
      proof (cases "er3 = ERR_OK")
        case False
        then obtain k4 where "destroy_space p k3 = Some k4" "k' = proc_free p k4" "er = er3"
          using assms 1 Some 2 t 3 by (auto simp: proc_spawn_def Let_def obind_def split: bind_splits)
        then show thesis using 1 Some q False by (intro that(2) [of p k1 k3 k4]) simp_all
      next
        case True
        then have "spawn_end p e sp k3 = Some (Ret (er, x, k'))"
          using assms 1 Some 2 t 3 by (simp add: proc_spawn_def Let_def obind_def spawn_end_def)
        then show thesis using 1 Some q by (intro that(3) [of p k1 k3 e sp]) simp_all
      qed
    qed
  qed
qed

lemma calm_current: "calm k k' \<Longrightarrow> proc_current k' = proc_current k"
  by (simp add: calm_def)

lemma calm_keeps: "calm k k' \<Longrightarrow> base_ok k \<Longrightarrow> base_ok k' \<and> (init_ok k \<longrightarrow> init_ok k') \<and> proc_current k' = proc_current k"
  by (simp add: calm_base calm_init calm_current)

text \<open>A new process with a thread and files joins the table.\<close>

lemma join_table:
  assumes b: "base_ok k" and i: "calm k k1" "fresh p k1" "pthreads (kproc k1 p) = []"
    and g: "parent_pid (kproc k1 p) = 0 \<or> proc_current k = Some c \<and> parent_pid (kproc k1 p) = pid (kproc k c)"
    and c: "files_cover (kfs k1) (\<lambda>x. fd_refs k x + count_list (open_files (kproc k1 p)) (Some x))"
    and t: "thread_create name (Some p) pri k1 = Some (Some t, k2)"
  shows "base_ok (k2\<lparr>ptable := ptable k2 @ [p]\<rparr>) \<and> (init_ok k \<longrightarrow> init_ok (k2\<lparr>ptable := ptable k2 @ [p]\<rparr>))
    \<and> proc_current k2 = proc_current k \<and> ptable k2 = ptable k"
proof -
  have b1: "base_ok k1" by (rule calm_base [OF i(1) b])
  then have d: "p \<notin> set (ptable k1)" "distinct (tpool k1)" using i(2) by (auto simp: fresh_def base_ok_def threads_ok_def)
  have th: "prep p k1 k2" "open_files (kproc k2 p) = open_files (kproc k1 p)" "parent_pid (kproc k2 p) = parent_pid (kproc k1 p)"
      "kfs k2 = kfs k1" "pthreads (kproc k2 p) = [t]" "t \<notin> set (tpool k2)" "t_proc (kthr k2 t) = Some p"
    using thread_create_prep [OF d t] i(3) by simp_all
  have c2: "calm k k2" using calm_trans [OF i(1)] th(1) by (simp add: prep_def)
  have l: "live k2 = live k" "fd_refs k2 = fd_refs k" by (rule calm_live [OF c2], rule calm_fd_refs [OF c2])
  have "parent_pid (kproc k2 p) = 0 \<or> (\<exists>q\<in>live k2. pid (kproc k2 q) = parent_pid (kproc k2 p))"
  proof (cases "parent_pid (kproc k1 p) = 0")
    case False
    then have a: "proc_current k = Some c" "parent_pid (kproc k1 p) = pid (kproc k c)" using g by auto
    have "c \<in> live k" using current_live [OF b a(1)] by simp
    moreover have "pid (kproc k2 c) = pid (kproc k c)"
      using c2 live_ptable [OF \<open>c \<in> live k\<close>] by (simp add: calm_def core_eq)
    ultimately show ?thesis using a(2) th(3) l(1) by auto
  qed (simp add: th(3))
  moreover have "fresh p k2" using th(1) i(2) by (simp add: prep_def)
  ultimately have "base_ok (k2\<lparr>ptable := ptable k2 @ [p]\<rparr>)"
    using add_process [OF calm_base [OF c2 b] _ th(5-7)] c th(2,4) l(2) by simp
  moreover have "ptable k2 = ptable k" using c2 by (simp add: calm_def)
  moreover have "init_ok k \<longrightarrow> init_ok (k2\<lparr>ptable := ptable k2 @ [p]\<rparr>)" using add_process_init calm_init [OF c2] by blast
  ultimately show ?thesis using calm_current [OF c2] by blast
qed

lemma spawn_end_ok:
  assumes b: "base_ok k" and i: "calm k k1" "fresh p k1" "pthreads (kproc k1 p) = []" "open_files (kproc k1 p) = std_fds"
      "parent_pid (kproc k1 p) = 0" "ppool k = p # ppool k1"
    and e: "spawn_end p e sp k1 = Some (Ret (er, x, k'))"
  shows "base_ok k' \<and> (init_ok k \<longrightarrow> init_ok k') \<and> proc_current k' = proc_current k"
proof -
  let ?k2 = "case proc_current k1 of None \<Rightarrow> k1 | Some c \<Rightarrow> set_proc p (\<lambda>q. q\<lparr>parent_pid := pid (kproc k1 c)\<rparr>) k1"
  have p: "p \<notin> set (ptable k1)" using i(2) by (simp add: fresh_def)
  have q2: "prep p k1 ?k2" using p by (cases "proc_current k1") (auto simp: prep_def[of p k1 k1] intro: prep_set_proc)
  have c2: "calm k ?k2" using q2 calm_trans [OF i(1)] by (simp add: prep_def)
  obtain r k3 where 3: "thread_create (pname (kproc ?k2 p)) (Some p) DEFAULT_PRI ?k2 = Some (r, k3)"
    using e by (auto simp: spawn_end_def Let_def split: bind_splits)
  show ?thesis
  proof (cases r)
    case None
    then obtain k4 where 4: "destroy_space p k3 = Some k4" "k' = proc_free p k4"
      using e 3 by (auto simp: spawn_end_def Let_def split: bind_splits)
    have "distinct (tpool ?k2)" "p \<notin> set (ptable ?k2)"
      using calm_base [OF c2 b] p q2 by (auto simp: base_ok_def threads_ok_def prep_def calm_def)
    then have "prep p k1 k3" using thread_create_prep [OF _ _ 3] prep_trans [OF q2] by blast
    then have "calm k k'" using discard_calm [OF i(1,6) _ 4(1)] 4(2) by simp
    then show ?thesis using b calm_keeps by blast
  next
    case (Some t)
    then obtain k4 where 4: "tf_proc t p e sp (k3\<lparr>ptable := ptable k3 @ [p]\<rparr>) = Some k4" "k' = thread_start_context t k4"
      using e 3 by (auto simp: spawn_end_def Let_def split: bind_splits)
    have q: "quiet (k3\<lparr>ptable := ptable k3 @ [p]\<rparr>) k'" using quiet_trans [OF tf_proc_quiet [OF 4(1)]] 4(2) by simp
    have f: "kfs ?k2 = kfs k1" "open_files (kproc ?k2 p) = std_fds" "pthreads (kproc ?k2 p) = []"
      using i(3,4) by (auto simp: set_proc_def split: option.split)
    have "files_cover (kfs ?k2) (fd_refs k)" using calm_base [OF i(1) b] calm_fd_refs [OF i(1)] f(1) by (simp add: base_ok_def)
    then have cv: "files_cover (kfs ?k2) (\<lambda>x. fd_refs k x + count_list (open_files (kproc ?k2 p)) (Some x))"
      using std_fds_cover f(2) by simp
    have pp: "parent_pid (kproc ?k2 p) = 0
        \<or> proc_current k = Some (the (proc_current k)) \<and> parent_pid (kproc ?k2 p) = pid (kproc k (the (proc_current k)))"
    proof (cases "proc_current k1")
      case None
      then show ?thesis using i(5) by simp
    next
      case (Some c)
      have "proc_current k = Some c" using Some calm_current [OF i(1)] by simp
      moreover have "pid (kproc k1 c) = pid (kproc k c)"
        using i(1) current_live [OF b \<open>proc_current k = Some c\<close>] by (simp add: calm_def core_eq live_ptable)
      ultimately show ?thesis using Some by (simp add: set_proc_def)
    qed
    have fr: "fresh p ?k2" using q2 i(2) by (simp add: prep_def)
    have j: "base_ok (k3\<lparr>ptable := ptable k3 @ [p]\<rparr>)" "init_ok k \<longrightarrow> init_ok (k3\<lparr>ptable := ptable k3 @ [p]\<rparr>)"
        "proc_current (k3\<lparr>ptable := ptable k3 @ [p]\<rparr>) = proc_current k"
      using join_table [OF b c2 fr f(3) pp cv 3 [unfolded Some]] by (fastforce simp: proc_current_def)+
    show ?thesis using calm_keeps [OF quiet_calm [OF q] j(1)] j(2,3) by simp
  qed
qed

lemma proc_spawn_keeps:
  assumes b: "base_ok k" and s: "proc_spawn name k = Some (Ret (er, x, k'))"
  shows "base_ok k' \<and> (init_ok k \<longrightarrow> init_ok k') \<and> proc_current k' = proc_current k"
  using s
proof (cases rule: proc_spawn_cases)
  case 1
  have "table_ok k" using b by (simp add: base_ok_def)
  then show ?thesis using proc_init_calm [OF _ 1(1)] calm_keeps [OF _ b] by blast
next
  case (2 p k1 k2 k3)
  have "table_ok k" using b by (simp add: base_ok_def)
  note i = proc_init_calm [OF this 2(1)]
  have "calm k k'" using discard_calm [OF _ _ prep_quiet [OF 2(2)] 2(3)] i 2(4) by simp
  then show ?thesis using b calm_keeps by blast
next
  case (3 p k1 k2 e sp)
  have "table_ok k" using b by (simp add: base_ok_def)
  note i = proc_init_calm [OF this 3(1)]
  have c: "calm k k2" using i calm_quiet_trans [OF _ 3(2)] by blast
  have q: "ppool k2 = ppool k1" "core (kproc k2 p) = core (kproc k1 p)" using quiet_fields [OF 3(2)] by simp_all
  have "fresh p k2" using i fresh_quiet [OF _ 3(2)] by blast
  then show ?thesis using spawn_end_ok [OF b c _ _ _ _ _ 3(3)] i q by (simp add: core_eq)
qed

section \<open>Fork\<close>

text \<open>The slots of the child after the loop: those of the parent, and its own where the parent has none.\<close>

lemma share_files_slots:
  assumes "parent \<noteq> child" "set is \<subseteq> {..<length (open_files (kproc k child))}" "distinct is"
  shows "length (open_files (kproc (share_files parent child is k) child)) = length (open_files (kproc k child))
    \<and> (\<forall>i<length (open_files (kproc k child)). open_files (kproc (share_files parent child is k) child) ! i
         = (if i \<in> set is \<and> open_files (kproc k parent) ! i \<noteq> None then open_files (kproc k parent) ! i
            else open_files (kproc k child) ! i))"
  using assms
proof (induction "is" arbitrary: k)
  case (Cons j js)
  show ?case
  proof (cases "open_files (kproc k parent) ! j")
    case None
    then show ?thesis using Cons by auto
  next
    case (Some x)
    let ?k = "(set_proc child (\<lambda>q. q\<lparr>open_files := (open_files q)[j := Some x]\<rparr>) k)\<lparr>kfs := fs_reopen_file x (kfs k)\<rparr>"
    have k: "open_files (kproc ?k parent) = open_files (kproc k parent)"
        "open_files (kproc ?k child) = (open_files (kproc k child))[j := Some x]"
      using Cons.prems(1) by (simp_all add: set_proc_def)
    have "share_files parent child (j # js) k = share_files parent child js ?k" using Some by simp
    then show ?thesis using Cons.IH [of ?k] Cons.prems k Some by (auto simp: nth_list_update)
  qed
qed simp

lemma share_files_prep:
  assumes "child \<notin> set (ptable k)" "parent \<noteq> child"
  shows "prep child k (share_files parent child is k)
    \<and> pthreads (kproc (share_files parent child is k) child) = pthreads (kproc k child)
    \<and> parent_pid (kproc (share_files parent child is k) child) = parent_pid (kproc k child)
    \<and> pname (kproc (share_files parent child is k) child) = pname (kproc k child)
    \<and> kvm (share_files parent child is k) = kvm k \<and> kthr (share_files parent child is k) = kthr k
    \<and> tpool (share_files parent child is k) = tpool k"
  using assms
proof (induction "is" arbitrary: k)
  case (Cons j js)
  show ?case
  proof (cases "open_files (kproc k parent) ! j")
    case None
    then show ?thesis using Cons by simp
  next
    case (Some x)
    let ?k = "(set_proc child (\<lambda>q. q\<lparr>open_files := (open_files q)[j := Some x]\<rparr>) k)\<lparr>kfs := fs_reopen_file x (kfs k)\<rparr>"
    have "prep child k (set_proc child (\<lambda>q. q\<lparr>open_files := (open_files q)[j := Some x]\<rparr>) k)"
      using Cons.prems(1) by (intro prep_set_proc) simp_all
    moreover have "quiet (set_proc child (\<lambda>q. q\<lparr>open_files := (open_files q)[j := Some x]\<rparr>) k) ?k"
      by (intro quiet_kfs) (simp add: set_proc_def fs_reopen_file_grow)
    ultimately have "prep child k ?k" using prep_trans prep_quiet by blast
    moreover have "child \<notin> set (ptable ?k)" "pthreads (kproc ?k child) = pthreads (kproc k child)" "kvm ?k = kvm k" "kthr ?k = kthr k"
        "parent_pid (kproc ?k child) = parent_pid (kproc k child)" "pname (kproc ?k child) = pname (kproc k child)" "tpool ?k = tpool k"
      using Cons.prems(1) by (simp_all add: set_proc_def)
    ultimately show ?thesis using Cons.IH [of ?k] Cons.prems(2) Some prep_trans [of child k ?k] by simp
  qed
qed (simp add: prep_def)

lemma share_files_cover:
  assumes "files_cover (kfs k) r" "parent \<noteq> child" "\<And>i x. i \<in> set is \<Longrightarrow> open_files (kproc k parent) ! i = Some x \<Longrightarrow> 0 < r x"
  shows "files_cover (kfs (share_files parent child is k)) (\<lambda>x. r x + count_list (map ((!) (open_files (kproc k parent))) is) (Some x))"
  using assms
proof (induction "is" arbitrary: k r)
  case (Cons j js)
  show ?case
  proof (cases "open_files (kproc k parent) ! j")
    case None
    have "files_cover (kfs (share_files parent child js k)) (\<lambda>x. r x + count_list (map ((!) (open_files (kproc k parent))) js) (Some x))"
      by (rule Cons.IH [OF Cons.prems(1,2)]) (use Cons.prems(3) in auto)
    then show ?thesis using None by simp
  next
    case (Some x)
    let ?k = "(set_proc child (\<lambda>q. q\<lparr>open_files := (open_files q)[j := Some x]\<rparr>) k)\<lparr>kfs := fs_reopen_file x (kfs k)\<rparr>"
    let ?r = "r(x := r x + 1)"
    have "0 < r x" using Cons.prems(3) [of j x] Some by simp
    then have c: "files_cover (kfs ?k) ?r" using vf.reopen_cover [OF Cons.prems(1)] by simp
    have o: "open_files (kproc ?k parent) = open_files (kproc k parent)" using Cons.prems(2) by (simp add: set_proc_def)
    have "files_cover (kfs (share_files parent child js ?k)) (\<lambda>y. ?r y + count_list (map ((!) (open_files (kproc ?k parent))) js) (Some y))"
      by (rule Cons.IH [OF c Cons.prems(2)]) (use Cons.prems(3) o in auto)
    moreover have "(\<lambda>y. ?r y + count_list (map ((!) (open_files (kproc k parent))) js) (Some y))
        = (\<lambda>y. r y + count_list (map ((!) (open_files (kproc k parent))) (j # js)) (Some y))"
      using Some by (auto simp: fun_eq_iff)
    moreover have "share_files parent child (j # js) k = share_files parent child js ?k" using Some by simp
    ultimately show ?thesis by (simp only: o)
  qed
qed simp

lemma count_list_cong: "list_all2 (\<lambda>a b. (a = y) = (b = y)) xs ys \<Longrightarrow> count_list xs y = count_list ys y"
  by (induction rule: list_all2_induct) auto

text \<open>\<open>fork_files\<close> summarises the loop on a new child.\<close>

lemma fork_files:
  assumes b: "base_ok k" and p: "proc_current k = Some parent" and i: "calm k k1" "fresh child k1" "open_files (kproc k1 child) = std_fds"
  defines "k2 \<equiv> share_files parent child [0..<PROC_MAX_ARG] k1"
  shows "prep child k1 k2" "pthreads (kproc k2 child) = pthreads (kproc k1 child)" "parent_pid (kproc k2 child) = parent_pid (kproc k1 child)"
    "files_cover (kfs k2) (\<lambda>x. fd_refs k x + count_list (open_files (kproc k2 child)) (Some x))"
    "\<And>fd. fd < PROC_MAX_ARG \<Longrightarrow> open_files (kproc k2 child) ! fd = (if open_files (kproc k parent) ! fd \<noteq> None then open_files (kproc k parent) ! fd else std_fds ! fd)"
proof -
  note l = current_live [OF b p]
  have n: "parent \<noteq> child" "child \<notin> set (ptable k1)" "ptable k1 = ptable k"
    using i(1,2) l live_ptable [of parent k] by (auto simp: fresh_def calm_def)
  have o: "open_files (kproc k1 parent) = open_files (kproc k parent)" using i(1) l by (simp add: calm_def core_eq live_ptable)
  let ?L = "open_files (kproc k parent)"
  note pr = share_files_prep [OF n(2,1), of "[0..<PROC_MAX_ARG]"]
  show "prep child k1 k2" using pr by (simp add: k2_def)
  show "pthreads (kproc k2 child) = pthreads (kproc k1 child)" "parent_pid (kproc k2 child) = parent_pid (kproc k1 child)"
    using pr by (simp_all add: k2_def)
  have "length (open_files (kproc k1 child)) = PROC_MAX_ARG" by (simp add: i(3))
  then have sl: "length (open_files (kproc k2 child)) = PROC_MAX_ARG"
      "\<And>fd. fd < PROC_MAX_ARG \<Longrightarrow> open_files (kproc k2 child) ! fd = (if ?L ! fd \<noteq> None then ?L ! fd else std_fds ! fd)"
    using share_files_slots [OF n(1), of "[0..<PROC_MAX_ARG]" k1] o i(3) by (simp_all add: k2_def lessThan_atLeast0)
  then show "\<And>fd. fd < PROC_MAX_ARG \<Longrightarrow> open_files (kproc k2 child) ! fd = (if ?L ! fd \<noteq> None then ?L ! fd else std_fds ! fd)" by blast
  have "0 < fd_refs k x" if "i \<in> set [0..<PROC_MAX_ARG]" "open_files (kproc k1 parent) ! i = Some x" for i x
    using slot_has_ref [of parent k i x] l that o by simp
  then have "files_cover (kfs k2) (\<lambda>x. fd_refs k x + count_list (map ((!) (open_files (kproc k1 parent))) [0..<PROC_MAX_ARG]) (Some x))"
    unfolding k2_def using calm_base [OF i(1) b] calm_fd_refs [OF i(1)] by (intro share_files_cover n(1)) (simp_all add: base_ok_def)
  moreover have "map ((!) (open_files (kproc k1 parent))) [0..<PROC_MAX_ARG] = ?L" using l o by (metis map_nth)
  moreover have "count_list ?L (Some x) = count_list (open_files (kproc k2 child)) (Some x)" if x: "2 \<le> x" for x
  proof (rule count_list_cong, rule list_all2_all_nthI)
    show "length ?L = length (open_files (kproc k2 child))" using l sl(1) by simp
    fix fd assume "fd < length ?L"
    then have fd: "fd < PROC_MAX_ARG" using l by simp
    then have "std_fds ! fd \<in> set std_fds" by (intro nth_mem) simp
    then have "std_fds ! fd \<noteq> Some x" using x by auto
    then show "(?L ! fd = Some x) = (open_files (kproc k2 child) ! fd = Some x)" using sl(2) [OF fd] by auto
  qed
  ultimately show "files_cover (kfs k2) (\<lambda>x. fd_refs k x + count_list (open_files (kproc k2 child)) (Some x))"
    using files_cover_cong [of "\<lambda>x. fd_refs k x + count_list ?L (Some x)" "\<lambda>x. fd_refs k x + count_list (open_files (kproc k2 child)) (Some x)"] by simp
qed

text \<open>The state in which \<^verbatim>\<open>proc_fork\<close> creates the thread.\<close>

lemma proc_fork_cases:
  assumes "proc_fork k = Some (r, k')" "proc_current k = Some parent"
  obtains "proc_init (pname (kproc k parent)) k = Some (None, k')" "r = None"
    | child k1 er v where "proc_init (pname (kproc k parent)) k = Some (Some child, k1)"
        "as_copy_as parent child (kvm k1) = Some (er, v)" "r = None" "k' = k1\<lparr>kvm := v\<rparr>"
    | child k1 v t k2 k3 k4 where "proc_init (pname (kproc k parent)) k = Some (Some child, k1)"
        "as_copy_as parent child (kvm k1) = Some (ERR_OK, v)"
        "k2 = share_files parent child [0..<PROC_MAX_ARG] (set_proc child (\<lambda>q. q\<lparr>parent_pid := pid (kproc k1 parent)\<rparr>) (k1\<lparr>kvm := v\<rparr>))"
        "thread_create (pname (kproc k2 child)) (Some child) DEFAULT_PRI k2 = Some (t, k3)"
        "t = None \<Longrightarrow> r = None \<and> destroy_space child k3 = Some k4 \<and> k' = proc_free child k4"
        "\<And>u. t = Some u \<Longrightarrow> r = Some child \<and> k' = thread_start_context u
           (set_thr u (\<lambda>s. s\<lparr>t_tf := tf_set_return 0 (t_tf (kthr k3 (curthr k3)))\<rparr>) (k3\<lparr>ptable := ptable k3 @ [child]\<rparr>))"
proof -
  obtain r1 k1 where 1: "proc_init (pname (kproc k parent)) k = Some (r1, k1)"
    using assms by (auto simp: proc_fork_def split: bind_splits)
  show thesis
  proof (cases r1)
    case None
    then show thesis using assms 1 that(1) by (simp add: proc_fork_def)
  next
    case (Some child)
    obtain er v where 2: "as_copy_as parent child (kvm k1) = Some (er, v)"
      using assms 1 Some by (auto simp: proc_fork_def split: bind_splits)
    show thesis
    proof (cases "er = ERR_OK")
      case False
      then show thesis using assms 1 Some 2 by (intro that(2) [of child k1 er v]) (simp_all add: proc_fork_def)
    next
      case True
      let ?k2 = "share_files parent child [0..<PROC_MAX_ARG] (set_proc child (\<lambda>q. q\<lparr>parent_pid := pid (kproc k1 parent)\<rparr>) (k1\<lparr>kvm := v\<rparr>))"
      obtain t k3 where 3: "thread_create (pname (kproc ?k2 child)) (Some child) DEFAULT_PRI ?k2 = Some (t, k3)"
        using assms 1 Some 2 True by (auto simp: proc_fork_def Let_def split: bind_splits)
      obtain k4 where 4: "t = None \<Longrightarrow> r = None \<and> destroy_space child k3 = Some k4 \<and> k' = proc_free child k4"
        using assms 1 Some 2 True 3 by (cases t) (auto simp: proc_fork_def Let_def split: bind_splits)
      have "r = Some child \<and> k' = thread_start_context u
           (set_thr u (\<lambda>s. s\<lparr>t_tf := tf_set_return 0 (t_tf (kthr k3 (curthr k3)))\<rparr>) (k3\<lparr>ptable := ptable k3 @ [child]\<rparr>))"
        if "t = Some u" for u
        using assms 1 Some 2 True 3 that by (simp add: proc_fork_def Let_def)
      then show thesis using 1 Some 2 True 3 4 by (intro that(3) [of child k1 v ?k2 t k3 k4]) simp_all
    qed
  qed
qed

lemma fork_child:
  assumes b: "base_ok k" and p: "proc_current k = Some parent"
    and 1: "proc_init (pname (kproc k parent)) k = Some (Some child, k1)" and 2: "as_copy_as parent child (kvm k1) = Some (er, v)"
  defines "k2 \<equiv> set_proc child (\<lambda>q. q\<lparr>parent_pid := pid (kproc k1 parent)\<rparr>) (k1\<lparr>kvm := v\<rparr>)"
  shows "calm k (k1\<lparr>kvm := v\<rparr>)" "calm k k2" "fresh child k2" "open_files (kproc k2 child) = std_fds" "pthreads (kproc k2 child) = []"
    "parent_pid (kproc k2 child) = pid (kproc k parent)" "ppool k = child # ppool k2" "pid (kproc k2 child) = pid_allocator k"
proof -
  have t: "table_ok k" using b by (simp add: base_ok_def)
  note i = proc_init_calm [OF t 1]
  have q: "quiet k1 (k1\<lparr>kvm := v\<rparr>)" by (rule quiet_kvm [OF as_copy_as_cur [OF 2]])
  show c: "calm k (k1\<lparr>kvm := v\<rparr>)" using calm_quiet_trans [OF _ q] i by blast
  have "fresh child (k1\<lparr>kvm := v\<rparr>)" using fresh_quiet [OF _ q] i by blast
  moreover have "child \<notin> set (ptable (k1\<lparr>kvm := v\<rparr>))" using calculation by (simp add: fresh_def)
  then have pr: "prep child (k1\<lparr>kvm := v\<rparr>) k2" unfolding k2_def by (intro prep_set_proc) simp_all
  ultimately show "fresh child k2" by (simp add: prep_def)
  show "calm k k2" using calm_trans [OF c] pr by (simp add: prep_def)
  have "pid (kproc k1 parent) = pid (kproc k parent)"
    using i current_live [OF b p] by (simp add: calm_def core_eq live_ptable)
  then show "parent_pid (kproc k2 child) = pid (kproc k parent)" by (simp add: k2_def set_proc_def)
  show "open_files (kproc k2 child) = std_fds" "pthreads (kproc k2 child) = []" "ppool k = child # ppool k2"
      "pid (kproc k2 child) = pid_allocator k"
    using i by (simp_all add: k2_def set_proc_def)
qed

lemma fork_discarded:
  assumes b: "base_ok k" and p: "proc_current k = Some parent"
    and 1: "proc_init (pname (kproc k parent)) k = Some (Some child, k1)" and 2: "as_copy_as parent child (kvm k1) = Some (er, v)"
    and 3: "k2 = share_files parent child [0..<PROC_MAX_ARG] (set_proc child (\<lambda>q. q\<lparr>parent_pid := pid (kproc k1 parent)\<rparr>) (k1\<lparr>kvm := v\<rparr>))"
    and 4: "thread_create name (Some child) pri k2 = Some (t, k3)" and 5: "destroy_space child k3 = Some k4"
  shows "calm k (proc_free child k4)"
proof -
  note c = fork_child [OF b p 1 2]
  note s = fork_files [OF b p c(2-4), folded 3]
  have c2: "calm k k2" using calm_trans [OF c(2)] s(1) by (simp add: prep_def)
  have fr: "fresh child k2" using c(3) s(1) by (simp add: prep_def)
  have "child \<notin> set (ptable k2)" "distinct (tpool k2)" using fr calm_base [OF c2 b] by (auto simp: fresh_def base_ok_def threads_ok_def)
  then have "prep child (set_proc child (\<lambda>q. q\<lparr>parent_pid := pid (kproc k1 parent)\<rparr>) (k1\<lparr>kvm := v\<rparr>)) k3"
    using thread_create_prep [OF _ _ 4] prep_trans [OF s(1)] by blast
  then show ?thesis by (rule discard_calm [OF c(2,7) _ 5])
qed

lemma proc_fork_keeps:
  assumes b: "base_ok k" and f: "proc_fork k = Some (r, k')"
  shows "base_ok k' \<and> (init_ok k \<longrightarrow> init_ok k') \<and> proc_current k' = proc_current k"
proof -
  obtain parent where p: "proc_current k = Some parent" using f by (auto simp: proc_fork_def split: bind_splits)
  have t: "table_ok k" using b by (simp add: base_ok_def)
  show ?thesis using f p
  proof (cases rule: proc_fork_cases)
    case 1
    then show ?thesis using proc_init_calm [OF t 1(1)] calm_keeps [OF _ b] by blast
  next
    case (2 child k1 er v)
    then show ?thesis using fork_child(1) [OF b p 2(1,2)] calm_keeps [OF _ b] by blast
  next
    case (3 child k1 v u k2 k3 k4)
    note c = fork_child [OF b p 3(1,2)]
    note s = fork_files [OF b p c(2-4), folded 3(3)]
    have c2: "calm k k2" using calm_trans [OF c(2)] s(1) by (simp add: prep_def)
    have fr: "fresh child k2" using c(3) s(1) by (simp add: prep_def)
    show ?thesis
    proof (cases u)
      case None
      then have "calm k k'" using fork_discarded [OF b p 3(1-4)] 3(5) by blast
      then show ?thesis using calm_keeps [OF _ b] by blast
    next
      case (Some t)
      let ?k = "k3\<lparr>ptable := ptable k3 @ [child]\<rparr>"
      have g: "parent_pid (kproc k2 child) = 0 \<or> proc_current k = Some parent \<and> parent_pid (kproc k2 child) = pid (kproc k parent)"
        using p s(3) c(6) by simp
      have "pthreads (kproc k2 child) = []" using s(2) c(5) by simp
      note jt = join_table [OF b c2 fr this g s(4) 3(4) [unfolded Some]]
      have "proc_current ?k = proc_current k3" by (simp add: proc_current_def)
      then have j: "base_ok ?k" "init_ok k \<longrightarrow> init_ok ?k" "proc_current ?k = proc_current k" using jt by argo+
      note e = conjunct2 [OF 3(6) [OF Some]]
      have q: "quiet ?k k'" unfolding e by (rule quiet_trans [OF quiet_set_tf thread_start_context_quiet])
      show ?thesis using calm_keeps [OF quiet_calm [OF q] j(1)] j(2,3) by simp
    qed
  qed
qed

end
