(* ===== verification/Procend.thy ===== *)
theory Procend
  imports Procops
begin

text \<open>
  The end of a process: \<^verbatim>\<open>proc_exit\<close> always finds a parent that is alive, never frees the structure of the exiting process, and keeps the
  invariant; \<^verbatim>\<open>proc_wait\<close> removes an exited child and keeps it as well.
\<close>

section \<open>Removing an exited process\<close>

definition tables_ok :: "kern \<Rightarrow> bool" where
  "tables_ok k \<longleftrightarrow> table_ok k \<and> threads_ok k \<and> files_cover (kfs k) (fd_refs k)"

lemma drop_zombie:
  assumes b: "tables_ok k" and c: "c \<in> set (ptable k)" "c \<notin> live k"
    and k'_def: "k' = proc_free c (ptable_remove c (set_proc c g k))"
  shows "live k' = live k" "tables_ok k'" "ptable k' = remove1 c (ptable k)" "x \<noteq> c \<Longrightarrow> kproc k' x = kproc k x"
    "x \<noteq> c \<Longrightarrow> parent_ok k x \<Longrightarrow> parent_ok k' x"
proof -
  have d: "distinct (ptable k)" "distinct (ppool k)" "set (ptable k) \<inter> set (ppool k) = {}" using b by (auto simp: tables_ok_def table_ok_def)
  show pt: "ptable k' = remove1 c (ptable k)" by (simp add: k'_def proc_free_def ptable_remove_def set_proc_def)
  have s: "set (ptable k') = set (ptable k) - {c}" using d(1) pt by simp
  show kp: "x \<noteq> c \<Longrightarrow> kproc k' x = kproc k x" for x by (simp add: k'_def proc_free_def ptable_remove_def set_proc_def)
  show l: "live k' = live k" using c kp s by (fastforce simp: live_def)
  have e: "kproc k' x = kproc k x" if "x \<in> live k" for x using that c(2) by (intro kp) auto
  have r: "fd_refs k' = fd_refs k" using e by (simp add: fd_refs_def l fun_eq_iff)
  have o: "ppool k' = c # ppool k" "pid_allocator k' = pid_allocator k" "tpool k' = tpool k" "kthr k' = kthr k" "curthr k' = curthr k"
      "proc_current k' = proc_current k" "kfs k' = kfs k"
    by (simp_all add: k'_def proc_free_def ptable_remove_def set_proc_def proc_current_def)
  have "inj_on (\<lambda>p. pid (kproc k' p)) (set (ptable k'))"
    using b kp s by (auto simp: tables_ok_def table_ok_def inj_on_def)
  then have "table_ok k'" using b d c kp e s by (auto simp: tables_ok_def table_ok_def o l pt)
  moreover have "threads_ok k'" using b e by (auto simp: tables_ok_def threads_ok_def o l)
  ultimately show "tables_ok k'" using b by (simp add: tables_ok_def r o)
  show "parent_ok k' x" if "x \<noteq> c" "parent_ok k x" for x using that kp e by (auto simp: parent_ok_def l)
qed

section \<open>The children of an exiting process\<close>

lemma tables_set_parent:
  assumes "tables_ok k"
  shows "tables_ok (set_proc c (\<lambda>q. q\<lparr>parent_pid := n\<rparr>) k)" "live (set_proc c (\<lambda>q. q\<lparr>parent_pid := n\<rparr>) k) = live k"
proof -
  let ?k = "set_proc c (\<lambda>q. q\<lparr>parent_pid := n\<rparr>) k"
  have s: "pid (kproc ?k q) = pid (kproc k q)" "pthreads (kproc ?k q) = pthreads (kproc k q)"
      "proc_status (kproc ?k q) = proc_status (kproc k q)" "was_waited (kproc ?k q) = was_waited (kproc k q)"
      "open_files (kproc ?k q) = open_files (kproc k q)" for q
    by (simp_all add: set_proc_def)
  have t: "ptable ?k = ptable k" "ppool ?k = ppool k" "pid_allocator ?k = pid_allocator k" "tpool ?k = tpool k"
      "kthr ?k = kthr k" "curthr ?k = curthr k" "proc_current ?k = proc_current k" "kfs ?k = kfs k"
    by (simp_all add: set_proc_def proc_current_def)
  show l: "live ?k = live k" unfolding live_def s t by (rule refl)
  have r: "fd_refs ?k = fd_refs k" unfolding fd_refs_def l s by (rule refl)
  show "tables_ok ?k" using assms unfolding tables_ok_def table_ok_def threads_ok_def l r s t by simp
qed

text \<open>What the loop keeps: everything but the numbers of the parents.\<close>

definition kin :: "kern \<Rightarrow> kern \<Rightarrow> bool" where
  "kin k k' \<longleftrightarrow> live k' = live k \<and> proc_current k' = proc_current k \<and> kfs k' = kfs k \<and> kvm k' = kvm k \<and> init_proc k' = init_proc k \<and>
     ptable k' = ptable k \<and>
     (\<forall>x. pid (kproc k' x) = pid (kproc k x) \<and> proc_status (kproc k' x) = proc_status (kproc k x) \<and> pthreads (kproc k' x) = pthreads (kproc k x))"

lemma kin_refl: "kin k k"
  by (simp add: kin_def)

lemma kin_trans: "kin k k' \<Longrightarrow> kin k' k'' \<Longrightarrow> kin k k''"
  by (simp add: kin_def)

lemma kin_set_parent: "tables_ok k \<Longrightarrow> kin k (set_proc c (\<lambda>q. q\<lparr>parent_pid := n\<rparr>) k)"
  using tables_set_parent(2) by (auto simp: kin_def set_proc_def proc_current_def)

text \<open>The loop does not get past an exited child.\<close>

lemma leave_children_exited:
  "c \<in> set cs \<Longrightarrow> parent_pid (kproc k c) = n \<Longrightarrow> proc_status (kproc k c) \<noteq> STATUS_ALIVE \<Longrightarrow> leave_children n cs k = None"
proof (induction cs arbitrary: k)
  case (Cons d cs)
  show ?case
  proof (cases "c \<in> set cs")
    case True
    have "leave_children n cs (set_proc d (\<lambda>q. q\<lparr>parent_pid := m\<rparr>) k) = None" if "proc_status (kproc k d) = STATUS_ALIVE" for m
      using that Cons.prems(2,3) by (intro Cons.IH [OF True]) (auto simp: set_proc_def)
    then show ?thesis using Cons.IH [OF True Cons.prems(2,3)] by (cases "init_proc k") simp_all
  qed (use Cons.prems in simp)
qed simp

lemma leave_children_ok:
  assumes "tables_ok k" "init_ok k" "set cs \<subseteq> set (ptable k)"
    "\<And>x. x \<in> set cs \<Longrightarrow> parent_pid (kproc k x) = n \<Longrightarrow> proc_status (kproc k x) = STATUS_ALIVE"
    "\<And>x. x \<in> set (ptable k) \<Longrightarrow> parent_ok k x \<or> x \<in> set cs \<and> parent_pid (kproc k x) = n"
  shows "\<exists>k'. leave_children n cs k = Some k' \<and> tables_ok k' \<and> init_ok k' \<and> (\<forall>x\<in>set (ptable k'). parent_ok k' x) \<and> kin k k'"
  using assms
proof (induction cs arbitrary: k)
  case Nil
  then show ?case by (simp add: kin_refl)
next
  case (Cons c cs)
  obtain i where i: "init_proc k = Some i" "pid (kproc k i) = 0" using Cons.prems(2) by (rule init_okD)
  show ?case
  proof (cases "parent_pid (kproc k c) = n")
    case False
    then have "parent_ok k x \<or> x \<in> set cs \<and> parent_pid (kproc k x) = n" if "x \<in> set (ptable k)" for x using Cons.prems(5) [OF that] by auto
    then have "\<exists>k'. leave_children n cs k = Some k' \<and> tables_ok k' \<and> init_ok k' \<and> (\<forall>x\<in>set (ptable k'). parent_ok k' x) \<and> kin k k'"
      using Cons.prems(3,4) by (intro Cons.IH [OF Cons.prems(1,2)]) auto
    then show ?thesis using False by simp
  next
    case True
    let ?k = "set_proc c (\<lambda>q. q\<lparr>parent_pid := 0\<rparr>) k"
    have a: "proc_status (kproc k c) = STATUS_ALIVE" using Cons.prems(4) True by simp
    have s: "pid (kproc ?k q) = pid (kproc k q)" "parent_pid (kproc ?k q) = (if q = c then 0 else parent_pid (kproc k q))"
        "proc_status (kproc ?k q) = proc_status (kproc k q)" "ptable ?k = ptable k" "init_proc ?k = init_proc k" for q by (simp_all add: set_proc_def)
    have t: "tables_ok ?k" "live ?k = live k" by (rule tables_set_parent [OF Cons.prems(1)])+
    have "init_ok ?k" using Cons.prems(2) by (auto simp: init_ok_def s split: option.splits)
    moreover have "parent_ok ?k x \<or> x \<in> set cs \<and> parent_pid (kproc ?k x) = n" if "x \<in> set (ptable ?k)" for x
      using Cons.prems(5) [of x] that by (auto simp: parent_ok_def s t(2))
    moreover have "proc_status (kproc ?k x) = STATUS_ALIVE" if "x \<in> set cs" "parent_pid (kproc ?k x) = n" for x
      using Cons.prems(4) [of x] that a unfolding s by (cases "x = c") simp_all
    ultimately obtain k' where "leave_children n cs ?k = Some k'" "tables_ok k'" "init_ok k'" "\<forall>x\<in>set (ptable k'). parent_ok k' x" "kin ?k k'"
      using Cons.IH [OF t(1)] Cons.prems(3) by (auto simp: s)
    then show ?thesis using True a i kin_trans [OF kin_set_parent [OF Cons.prems(1)]] by auto
  qed
qed

lemma leave_children_parent:
  "leave_children n cs k = Some k' \<Longrightarrow> parent_pid (kproc k x) \<noteq> n \<Longrightarrow> parent_pid (kproc k' x) = parent_pid (kproc k x)"
proof (induction cs arbitrary: k)
  case (Cons c cs)
  show ?case
  proof (cases "parent_pid (kproc k c) = n")
    case True
    then obtain i where "leave_children n cs (set_proc c (\<lambda>q. q\<lparr>parent_pid := pid (kproc k i)\<rparr>) k) = Some k'"
      using Cons.prems(1) by (auto split: if_splits bind_splits)
    from Cons.IH [OF this] show ?thesis using Cons.prems(2) True by (cases "x = c") (simp_all add: set_proc_def)
  qed (use Cons in simp)
qed simp

section \<open>Exit\<close>

text \<open>The state after the thread has left the process.\<close>

definition detached :: "kern \<Rightarrow> kern" where
  "detached k = set_thr (curthr k) (\<lambda>s. s\<lparr>t_proc := None\<rparr>)
     ((snd (proc_detach_thread (curthr k) k))\<lparr>kvm := (kvm (snd (proc_detach_thread (curthr k) k)))\<lparr>cur := None\<rparr>\<rparr>)"

lemma detached_fields:
  assumes b: "base_ok k" and p: "proc_current k = Some p"
  shows "kproc (detached k) = (kproc k)(p := (kproc k p)\<lparr>pthreads := []\<rparr>)" "kvm (detached k) = (kvm k)\<lparr>cur := None\<rparr>"
    "kfs (detached k) = kfs k" "ptable (detached k) = ptable k" "ppool (detached k) = ppool k" "tpool (detached k) = tpool k"
    "pid_allocator (detached k) = pid_allocator k" "init_proc (detached k) = init_proc k" "proc_current (detached k) = None"
    "kthr (detached k) = (kthr k)(curthr k := (kthr k (curthr k))\<lparr>t_proc := None\<rparr>)"
proof -
  have t: "pthreads (kproc k p) = [curthr k]" "t_proc (kthr k (curthr k)) = Some p"
    using b p by (auto simp: base_ok_def threads_ok_def)
  then show "kproc (detached k) = (kproc k)(p := (kproc k p)\<lparr>pthreads := []\<rparr>)" "kvm (detached k) = (kvm k)\<lparr>cur := None\<rparr>"
    "kfs (detached k) = kfs k" "ptable (detached k) = ptable k" "ppool (detached k) = ppool k" "tpool (detached k) = tpool k"
    "pid_allocator (detached k) = pid_allocator k" "init_proc (detached k) = init_proc k" "proc_current (detached k) = None"
    "kthr (detached k) = (kthr k)(curthr k := (kthr k (curthr k))\<lparr>t_proc := None\<rparr>)"
    by (simp_all add: detached_def proc_detach_thread_def Let_def set_proc_def set_thr_def proc_current_def)
qed

lemma detached_ok:
  assumes b: "base_ok k" and p: "proc_current k = Some p"
  shows "live (detached k) = live k - {p}" "table_ok (detached k)" "threads_ok (detached k)"
    "files_cover (kfs (detached k)) (\<lambda>x. fd_refs (detached k) x + count_list (open_files (kproc k p)) (Some x))"
    "x \<in> set (ptable k) \<Longrightarrow> parent_ok (detached k) x \<or> parent_pid (kproc (detached k) x) = pid (kproc (detached k) p)"
proof -
  note f = detached_fields [OF b p]
  have s: "pid (kproc (detached k) q) = pid (kproc k q)" "proc_status (kproc (detached k) q) = proc_status (kproc k q)"
      "parent_pid (kproc (detached k) q) = parent_pid (kproc k q)" "was_waited (kproc (detached k) q) = was_waited (kproc k q)"
      "open_files (kproc (detached k) q) = open_files (kproc k q)"
      "pthreads (kproc (detached k) q) = (if q = p then [] else pthreads (kproc k q))" for q
    by (simp_all add: f(1))
  note pl = current_live [OF b p]
  show l: "live (detached k) = live k - {p}" by (auto simp: live_def s f(4))
  show "table_ok (detached k)" using b unfolding base_ok_def table_ok_def l s f(4,5,7) by simp
  have tp: "pthreads (kproc k p) = [curthr k]" "t_proc (kthr k (curthr k)) = Some p" using b p by (auto simp: base_ok_def threads_ok_def)
  have "\<exists>t. pthreads (kproc (detached k) q) = [t] \<and> t \<notin> set (tpool k) \<and> t_proc (kthr (detached k) t) = Some q" if q: "q \<in> live k - {p}" for q
  proof -
    obtain t where t: "pthreads (kproc k q) = [t]" "t \<notin> set (tpool k)" "t_proc (kthr k t) = Some q"
      using b q by (auto simp: base_ok_def threads_ok_def)
    moreover have "t \<noteq> curthr k" using t(3) tp(2) q by auto
    ultimately show ?thesis using q by (simp add: s f(10))
  qed
  then show "threads_ok (detached k)" using b by (simp add: base_ok_def threads_ok_def l f(6,9))
  have "fd_refs k x = fd_refs (detached k) x + count_list (open_files (kproc k p)) (Some x)" for x
    using sum.remove [OF finite_live, of p k "\<lambda>q. count_list (open_files (kproc k q)) (Some x)"] pl by (simp add: fd_refs_def l s)
  then have e: "fd_refs k = (\<lambda>x. fd_refs (detached k) x + count_list (open_files (kproc k p)) (Some x))" by (rule ext)
  show "files_cover (kfs (detached k)) (\<lambda>x. fd_refs (detached k) x + count_list (open_files (kproc k p)) (Some x))"
    unfolding e [symmetric] f(3) using b by (simp add: base_ok_def)
  show "parent_ok (detached k) x \<or> parent_pid (kproc (detached k) x) = pid (kproc (detached k) p)" if "x \<in> set (ptable k)"
  proof -
    have "parent_ok k x" using b that by (simp add: base_ok_def)
    then consider "parent_pid (kproc k x) = 0" | q where "q \<in> live k" "pid (kproc k q) = parent_pid (kproc k x)"
      by (auto simp: parent_ok_def)
    then show ?thesis by cases (auto simp: parent_ok_def l s)
  qed
qed

text \<open>The steps of \<^verbatim>\<open>proc_exit\<close> on other components.\<close>

definition exit_steps :: "kern \<Rightarrow> nat \<Rightarrow> vmst \<Rightarrow> vfs \<Rightarrow> bool" where
  "exit_steps k p m v \<longleftrightarrow>
     (\<exists>kvp f. as_vpmap (spaces (kvm k) kas) = Some kvp
        \<and> as_destroy p ((kvm k)\<lparr>cur := None, vm := snd (vpmap_load kvp (vm (kvm k)))\<rparr>) = Some m
        \<and> fs_release_inode (pcwd (kproc k p)) (fs (kfs k)) = Some f
        \<and> close_files (open_files (kproc k p)) ((kfs k)\<lparr>fs := f\<rparr>) = Some v)"

text \<open>What is left of \<^verbatim>\<open>proc_exit\<close> after these steps.\<close>

definition exit_end :: "int \<Rightarrow> nat \<Rightarrow> kern \<Rightarrow> kern option" where
  "exit_end status p k = do {
     k \<leftarrow> leave_children (pid (kproc k p)) (ptable k) k;
     k \<leftarrow> (if parent_pid (kproc k p) \<noteq> 0 then do {
             parent \<leftarrow> get_proc_by_pid (parent_pid (kproc k p)) k;
             kassert (proc_status (kproc k parent) = STATUS_ALIVE);
             Some k
           }
           else Some k);
     Some (set_proc p (\<lambda>q. q\<lparr>proc_status := status\<rparr>) k)
   }"

lemma proc_exit_split:
  assumes b: "base_ok k" and p: "proc_current k = Some p"
  shows "proc_exit status k = Some k' \<longleftrightarrow>
    (\<exists>m v. exit_steps k p m v \<and> exit_end status p ((detached k)\<lparr>kvm := m, kfs := v\<rparr>) = Some k')"
proof -
  note f = detached_fields [OF b p]
  have "proc_exit status k = do {
     kvp \<leftarrow> as_vpmap (spaces (kvm k) kas);
     m \<leftarrow> as_destroy p ((kvm k)\<lparr>cur := None, vm := snd (vpmap_load kvp (vm (kvm k)))\<rparr>);
     f \<leftarrow> fs_release_inode (pcwd (kproc k p)) (fs (kfs k));
     v \<leftarrow> close_files (open_files (kproc k p)) ((kfs k)\<lparr>fs := f\<rparr>);
     exit_end status p ((detached k)\<lparr>kvm := m, kfs := v\<rparr>)
   }"
    using p f(1-4) unfolding proc_exit_def exit_end_def Let_def detached_def [symmetric]
    by (simp add: set_vm_def set_fsst_def destroy_space_def)
  then show ?thesis by (auto simp: exit_steps_def split: bind_splits)
qed

lemma pid_eq_iff: "table_ok k \<Longrightarrow> p \<in> set (ptable k) \<Longrightarrow> q \<in> set (ptable k) \<Longrightarrow> pid (kproc k p) = pid (kproc k q) \<longleftrightarrow> p = q"
  by (auto simp: table_ok_def inj_on_def)

lemma get_proc_by_pid_eq:
  assumes "table_ok k" "p \<in> set (ptable k)"
  shows "get_proc_by_pid (pid (kproc k p)) k = Some p"
proof (cases "get_proc_by_pid (pid (kproc k p)) k")
  case None
  then show ?thesis using assms(2) by (auto simp: get_proc_by_pid_def find_None_iff)
next
  case (Some q)
  then have "q \<in> set (ptable k)" "pid (kproc k q) = pid (kproc k p)"
    by (auto simp: get_proc_by_pid_def find_Some_iff)
  then show ?thesis using Some pid_eq_iff [OF assms(1)] assms(2) by simp
qed

lemma tables_set_status:
  assumes "tables_ok k" "p \<notin> live k"
  shows "tables_ok (set_proc p (\<lambda>q. q\<lparr>proc_status := s\<rparr>) k)" "live (set_proc p (\<lambda>q. q\<lparr>proc_status := s\<rparr>) k) = live k"
    "parent_ok (set_proc p (\<lambda>q. q\<lparr>proc_status := s\<rparr>) k) x = parent_ok k x" "init_ok (set_proc p (\<lambda>q. q\<lparr>proc_status := s\<rparr>) k) = init_ok k"
proof -
  let ?k = "set_proc p (\<lambda>q. q\<lparr>proc_status := s\<rparr>) k"
  have f: "pid (kproc ?k q) = pid (kproc k q)" "pthreads (kproc ?k q) = pthreads (kproc k q)" "was_waited (kproc ?k q) = was_waited (kproc k q)"
      "open_files (kproc ?k q) = open_files (kproc k q)" "parent_pid (kproc ?k q) = parent_pid (kproc k q)" for q
    by (simp_all add: set_proc_def)
  have t: "ptable ?k = ptable k" "ppool ?k = ppool k" "pid_allocator ?k = pid_allocator k" "tpool ?k = tpool k"
      "kthr ?k = kthr k" "curthr ?k = curthr k" "proc_current ?k = proc_current k" "kfs ?k = kfs k" "init_proc ?k = init_proc k"
    by (simp_all add: set_proc_def proc_current_def)
  show l: "live ?k = live k" unfolding live_def f t by (rule refl)
  have r: "fd_refs ?k = fd_refs k" unfolding fd_refs_def l f by (rule refl)
  have "proc_status (kproc ?k q) = proc_status (kproc k q)" if "q \<in> live k" for q using that assms(2) by (auto simp: set_proc_def)
  then show "tables_ok ?k" using assms(1) unfolding tables_ok_def table_ok_def threads_ok_def l r f t by simp
  show "parent_ok ?k x = parent_ok k x" unfolding parent_ok_def l f by (rule refl)
  show "init_ok ?k = init_ok k" unfolding init_ok_def f t by (rule refl)
qed

lemma exit_end_ok:
  assumes b: "tables_ok k" "init_ok k" and p: "p \<in> set (ptable k)" "p \<notin> live k" "proc_status (kproc k p) = STATUS_ALIVE"
    and par: "\<And>x. x \<in> set (ptable k) \<Longrightarrow> parent_ok k x \<or> parent_pid (kproc k x) = pid (kproc k p)"
    and nz: "\<And>x. x \<in> set (ptable k) \<Longrightarrow> parent_pid (kproc k x) = pid (kproc k p) \<Longrightarrow> proc_status (kproc k x) = STATUS_ALIVE"
  shows "\<exists>k'. exit_end status p k = Some k' \<and> kern_ok k' \<and> live k' = live k \<and> proc_current k' = proc_current k \<and> p \<in> set (ptable k')
    \<and> proc_status (kproc k' p) = status \<and> kvm k' = kvm k \<and> (\<forall>x. pid (kproc k' x) = pid (kproc k x) \<and> pthreads (kproc k' x) = pthreads (kproc k x))
    \<and> (parent_pid (kproc k p) \<noteq> pid (kproc k p) \<longrightarrow> parent_pid (kproc k' p) = parent_pid (kproc k p))"
proof -
  obtain k2 where 2: "leave_children (pid (kproc k p)) (ptable k) k = Some k2" "tables_ok k2" "init_ok k2"
      "\<forall>x\<in>set (ptable k2). parent_ok k2 x" "kin k k2"
    using leave_children_ok [OF b, of "ptable k" "pid (kproc k p)"] par nz by blast
  have p2: "p \<in> set (ptable k2)" "p \<notin> live k2" using 2(5) p by (simp_all add: kin_def)
  have "\<exists>q. get_proc_by_pid (parent_pid (kproc k2 p)) k2 = Some q \<and> proc_status (kproc k2 q) = STATUS_ALIVE"
    if n: "parent_pid (kproc k2 p) \<noteq> 0"
  proof -
    obtain q where q: "q \<in> live k2" "pid (kproc k2 q) = parent_pid (kproc k2 p)"
      using 2(4) p2(1) n by (auto simp: parent_ok_def)
    then show ?thesis using get_proc_by_pid_eq [of k2 q] live_ptable [OF q(1)] 2(2) by (auto simp: tables_ok_def table_ok_def)
  qed
  then have "exit_end status p k = Some (set_proc p (\<lambda>q. q\<lparr>proc_status := status\<rparr>) k2)"
    using 2(1) by (auto simp: exit_end_def)
  moreover have "kern_ok (set_proc p (\<lambda>q. q\<lparr>proc_status := status\<rparr>) k2)"
    using tables_set_status [OF 2(2) p2(2), where s = status] 2(3,4)
    by (simp add: kern_ok_def base_ok_def tables_ok_def) (simp add: set_proc_def)
  ultimately show ?thesis using tables_set_status(2) [OF 2(2) p2(2), of status] 2(5) p2(1) leave_children_parent [OF 2(1), of p]
    by (simp add: kin_def) (simp add: set_proc_def proc_current_def)
qed

lemma proc_exit_ok:
  assumes k: "kern_ok k" and p: "proc_current k = Some p" and s: "exit_steps k p m v"
    and nz: "\<forall>x\<in>set (ptable k). parent_pid (kproc k x) = pid (kproc k p) \<longrightarrow> proc_status (kproc k x) = STATUS_ALIVE"
  shows "\<exists>k'. proc_exit status k = Some k' \<and> kern_ok k' \<and> live k' = live k - {p} \<and> proc_current k' = None \<and> p \<in> set (ptable k')
    \<and> proc_status (kproc k' p) = status \<and> kvm k' = m \<and> (\<forall>x. pid (kproc k' x) = pid (kproc k x))
    \<and> (\<forall>x. x \<noteq> p \<longrightarrow> pthreads (kproc k' x) = pthreads (kproc k x))
    \<and> (parent_pid (kproc k p) \<noteq> pid (kproc k p) \<longrightarrow> parent_pid (kproc k' p) = parent_pid (kproc k p))"
proof -
  have b: "base_ok k" "init_ok k" using k by (simp_all add: kern_ok_def)
  note f = detached_fields [OF b(1) p] and d = detached_ok [OF b(1) p] and pl = current_live [OF b(1) p]
  let ?k = "(detached k)\<lparr>kvm := m, kfs := v\<rparr>"
  obtain kvp fs' where s': "as_destroy p ((kvm k)\<lparr>cur := None, vm := snd (vpmap_load kvp (vm (kvm k)))\<rparr>) = Some m"
      "close_files (open_files (kproc k p)) ((kfs k)\<lparr>fs := fs'\<rparr>) = Some v"
    using s by (auto simp: exit_steps_def)
  have c: "proc_current ?k = None" using as_destroy_cur [OF s'(1)] by (simp add: proc_current_def)
  have l: "live ?k = live (detached k)" "fd_refs ?k = fd_refs (detached k)" by (simp_all add: live_def fd_refs_def fun_eq_iff)
  have "files_cover ((kfs k)\<lparr>fs := fs'\<rparr>) (\<lambda>x. fd_refs (detached k) x + count_list (open_files (kproc k p)) (Some x))"
    using files_cover_grow [OF d(4) files_grow_same] f(3) by simp
  then have "files_cover v (fd_refs (detached k))" by (rule vf.close_all_cover [OF _ s'(2)])
  then have t: "tables_ok ?k" using d(2,3) c unfolding tables_ok_def table_ok_def threads_ok_def l by (simp add: f(9))
  have i: "init_ok ?k" using b(2) by (auto simp: init_ok_def f split: option.splits)
  have z: "proc_status (kproc ?k x) = STATUS_ALIVE" if "x \<in> set (ptable ?k)" "parent_pid (kproc ?k x) = pid (kproc ?k p)" for x
    using nz that by (auto simp: f split: if_splits)
  have ps: "p \<in> set (ptable ?k)" "p \<notin> live ?k" "proc_status (kproc ?k p) = STATUS_ALIVE"
    using pl b(1) live_ptable by (auto simp: f l d(1) base_ok_def table_ok_def)
  have "parent_ok ?k x \<or> parent_pid (kproc ?k x) = pid (kproc ?k p)" if "x \<in> set (ptable ?k)" for x
    using d(5) [of x] that by (simp add: f(4) parent_ok_def l)
  then obtain k' where "exit_end status p ?k = Some k' \<and> kern_ok k' \<and> live k' = live ?k \<and> proc_current k' = proc_current ?k
      \<and> p \<in> set (ptable k') \<and> proc_status (kproc k' p) = status \<and> kvm k' = kvm ?k
      \<and> (\<forall>x. pid (kproc k' x) = pid (kproc ?k x) \<and> pthreads (kproc k' x) = pthreads (kproc ?k x))
      \<and> (parent_pid (kproc ?k p) \<noteq> pid (kproc ?k p) \<longrightarrow> parent_pid (kproc k' p) = parent_pid (kproc ?k p))"
    using exit_end_ok [OF t i ps] z by blast
  moreover have "pid (kproc ?k x) = pid (kproc k x)" "x \<noteq> p \<Longrightarrow> pthreads (kproc ?k x) = pthreads (kproc k x)"
      "parent_pid (kproc ?k x) = parent_pid (kproc k x)" for x by (simp_all add: f(1))
  ultimately show ?thesis using proc_exit_split [OF b(1) p] s c l(1) d(1) by (intro exI [of _ k']) auto
qed

text \<open>A process with an exited child that nobody has waited for cannot exit.\<close>

lemma proc_exit_exited_child:
  assumes k: "kern_ok k" and p: "proc_current k = Some p"
    and c: "c \<in> set (ptable k)" "parent_pid (kproc k c) = pid (kproc k p)" "proc_status (kproc k c) \<noteq> STATUS_ALIVE"
  shows "proc_exit status k = None"
proof (cases "proc_exit status k")
  case (Some k')
  have b: "base_ok k" using k by (simp add: kern_ok_def)
  note f = detached_fields [OF b p]
  obtain m v where e: "exit_end status p ((detached k)\<lparr>kvm := m, kfs := v\<rparr>) = Some k'" using Some proc_exit_split [OF b p] by blast
  have "leave_children (pid (kproc k p)) (ptable k) ((detached k)\<lparr>kvm := m, kfs := v\<rparr>) = None"
    by (rule leave_children_exited [OF c(1)]) (use c(2,3) in \<open>auto simp: f(1)\<close>)
  then show ?thesis using e by (simp add: exit_end_def f(1,4))
qed

lemma proc_exit_keeps:
  assumes "kern_ok k" "proc_exit status k = Some k'"
  shows "kern_ok k'"
proof -
  obtain p where p: "proc_current k = Some p" using assms(2) by (auto simp: proc_exit_def split: bind_splits)
  have b: "base_ok k" using assms(1) by (simp add: kern_ok_def)
  then obtain m v where e: "exit_steps k p m v" using assms(2) proc_exit_split [OF b p] by blast
  have "\<forall>x\<in>set (ptable k). parent_pid (kproc k x) = pid (kproc k p) \<longrightarrow> proc_status (kproc k x) = STATUS_ALIVE"
    using proc_exit_exited_child [OF assms(1) p, of _ status] assms(2) by (metis option.distinct(1))
  then show ?thesis using proc_exit_ok [OF assms(1) p e, of status] assms(2) by auto
qed

section \<open>Wait\<close>

text \<open>The child that \<^verbatim>\<open>proc_wait\<close> selects.\<close>

definition wait_child :: "int \<Rightarrow> nat \<Rightarrow> kern \<Rightarrow> nat option" where
  "wait_child n p k =
     (if n = -1 then find (\<lambda>c. parent_pid (kproc k c) = pid (kproc k p) \<and> \<not> was_waited (kproc k c)) (ptable k)
      else get_proc_by_pid n k)"

lemma wait_child_Some: "wait_child n p k = Some c \<Longrightarrow> c \<in> set (ptable k) \<and> (n \<noteq> -1 \<longrightarrow> pid (kproc k c) = n)"
  by (auto simp: wait_child_def get_proc_by_pid_def find_Some_iff split: if_splits)

lemma wait_child_any: "wait_child (-1) p k = Some c \<Longrightarrow> parent_pid (kproc k c) = pid (kproc k p)"
  by (auto simp: wait_child_def find_Some_iff)

text \<open>\<^verbatim>\<open>proc_wait\<close> on the selected child.\<close>

lemma proc_wait_eq:
  assumes k: "kern_ok k" and p: "proc_current k = Some p" and c: "wait_child n p k = Some c"
  shows "proc_wait n status k =
    (if proc_status (kproc k c) = STATUS_ALIVE then Some Blocked
     else do {
       v \<leftarrow> (if status = 0 then Some (vm (kvm k)) else put_user_bytes status (int_bytes (proc_status (kproc k c))) (vm (kvm k)));
       Some (Ret (pid (kproc k c), proc_free c (ptable_remove c (set_proc c (\<lambda>q. q\<lparr>was_waited := True\<rparr>) (set_vm v k)))))
     })"
proof -
  have t: "table_ok k" using k by (simp add: kern_ok_def base_ok_def)
  have ct: "c \<in> set (ptable k)" "n \<noteq> -1 \<Longrightarrow> pid (kproc k c) = n" using wait_child_Some [OF c] by auto
  have g: "get_proc_by_pid (pid (kproc k c)) k = Some c" by (rule get_proc_by_pid_eq [OF t ct(1)])
  have "0 \<le> pid (kproc k c)" using t ct(1) by (simp add: table_ok_def)
  moreover have "set_vm v (set_proc c h k) = set_proc c h (set_vm v k)" for v h by (simp add: set_vm_def set_proc_def)
  ultimately show ?thesis using p c g ct(2) by (auto simp: proc_wait_def wait_child_def Let_def set_proc_def)
qed

lemma drop_child_ok:
  assumes k: "kern_ok k" and c: "c \<in> set (ptable k)" "proc_status (kproc k c) \<noteq> STATUS_ALIVE" "init_proc k \<noteq> Some c"
    and k': "k' = proc_free c (ptable_remove c (set_proc c g k))"
  shows "kern_ok k' \<and> proc_current k' = proc_current k \<and> ptable k' = remove1 c (ptable k) \<and> (\<forall>x. x \<noteq> c \<longrightarrow> kproc k' x = kproc k x)"
proof -
  have b: "tables_ok k" "\<forall>x\<in>set (ptable k). parent_ok k x" "init_ok k" using k by (simp_all add: kern_ok_def base_ok_def tables_ok_def)
  have nl: "c \<notin> live k" using b(1) c(2) by (auto simp: tables_ok_def table_ok_def)
  note d = drop_zombie [OF b(1) c(1) nl k']
  have pt: "set (ptable k') = set (ptable k) - {c}" using b(1) d(3) by (simp add: tables_ok_def table_ok_def)
  have "init_proc k' = init_proc k" "proc_current k' = proc_current k"
    by (simp_all add: k' proc_free_def ptable_remove_def set_proc_def proc_current_def)
  moreover have "init_ok k'"
  proof -
    have "hd (ptable k) = i \<Longrightarrow> ptable k \<noteq> [] \<Longrightarrow> i \<noteq> c \<Longrightarrow> ptable k' \<noteq> [] \<and> hd (ptable k') = i" for i unfolding d(3) by (cases "ptable k") auto
    then show ?thesis using b(3) c(3) d(4) calculation(1) by (auto simp: init_ok_def split: option.splits)
  qed
  moreover have "\<forall>x\<in>set (ptable k'). parent_ok k' x" using b(2) d(5) pt by auto
  ultimately show ?thesis using d(2-4) by (simp add: kern_ok_def base_ok_def tables_ok_def)
qed

lemma init_not_waited:
  assumes k: "kern_ok k" and p: "proc_current k = Some p" and c: "c \<in> set (ptable k)" "parent_pid (kproc k c) = pid (kproc k p)"
      "proc_status (kproc k c) \<noteq> STATUS_ALIVE"
  shows "init_proc k \<noteq> Some c"
proof
  assume "init_proc k = Some c"
  then have "pid (kproc k c) = pid (kproc k p)" using k c(2) by (simp add: kern_ok_def init_ok_def)
  moreover have pl: "p \<in> live k" using current_live p k by (auto simp: kern_ok_def)
  ultimately have "c = p" using pid_eq_iff [of k c p] c(1) live_ptable [OF pl] k by (simp add: kern_ok_def base_ok_def)
  then show False using c(3) pl k by (auto simp: kern_ok_def base_ok_def table_ok_def)
qed

lemma proc_wait_keeps:
  assumes k: "kern_ok k" and p: "proc_current k = Some p" and w: "proc_wait n status k = Some (Ret (r, k'))"
    and c: "\<And>c. n \<noteq> -1 \<Longrightarrow> get_proc_by_pid n k = Some c \<Longrightarrow> parent_pid (kproc k c) = pid (kproc k p)"
  shows "kern_ok k' \<and> proc_current k' = proc_current k"
proof (cases "wait_child n p k")
  case None
  then show ?thesis using w p k by (cases "n = -1") (auto simp: proc_wait_def wait_child_def Let_def)
next
  case (Some d)
  obtain v where d: "proc_status (kproc k d) \<noteq> STATUS_ALIVE"
      "k' = proc_free d (ptable_remove d (set_proc d (\<lambda>q. q\<lparr>was_waited := True\<rparr>) (set_vm v k)))"
    using w unfolding proc_wait_eq [OF k p Some] by (auto split: if_splits bind_splits)
  have q: "quiet k (set_vm v k)" by simp
  have kv: "kern_ok (set_vm v k)" by (rule calm_ok [OF quiet_calm [OF q] k])
  have e: "ptable (set_vm v k) = ptable k" "kproc (set_vm v k) = kproc k" "init_proc (set_vm v k) = init_proc k"
      "proc_current (set_vm v k) = proc_current k" by (simp_all add: set_vm_def proc_current_def)
  have "parent_pid (kproc k d) = pid (kproc k p)"
  proof (cases "n = -1")
    case True
    then show ?thesis using wait_child_any [of p k d] Some by simp
  next
    case False
    then have "get_proc_by_pid n k = Some d" using Some by (simp add: wait_child_def)
    then show ?thesis by (rule c [OF False])
  qed
  then have "init_proc (set_vm v k) \<noteq> Some d" using init_not_waited [OF k p] wait_child_Some [OF Some] d(1) by (simp add: e)
  then show ?thesis using drop_child_ok [OF kv _ _ _ d(2)] wait_child_Some [OF Some] d(1) by (simp add: e)
qed

end
