(* ===== verification/Sysinv.thy ===== *)
theory Sysinv
  imports Procend
begin

text \<open>
  Every system call, and every page fault of a program, keeps the invariant of \<open>Ptable\<close>.
\<close>

section \<open>Results of system calls\<close>

fun end_ok :: "kern \<Rightarrow> sysend \<Rightarrow> bool" where
  "end_ok k (Returns v k') \<longleftrightarrow> kern_ok k' \<and> proc_current k' = proc_current k"
| "end_ok k (Exits k') \<longleftrightarrow> kern_ok k'"
| "end_ok k Halts \<longleftrightarrow> True"

definition call_ok :: "(trapframe \<Rightarrow> kern \<Rightarrow> sysret) \<Rightarrow> bool" where
  "call_ok f \<longleftrightarrow> (\<forall>tf k r. kern_ok k \<longrightarrow> f tf k = Some (Ret r) \<longrightarrow> end_ok k r)"

lemma call_okI: "(\<And>tf k r. kern_ok k \<Longrightarrow> f tf k = Some (Ret r) \<Longrightarrow> end_ok k r) \<Longrightarrow> call_ok f"
  by (simp add: call_ok_def)

lemma sys_return_Ret: "sys_return n k = Some (Ret r) \<longleftrightarrow> r = Returns (of_int n) k"
  by (auto simp: sys_return_def)

lemma end_ok_calm: "kern_ok k \<Longrightarrow> calm k k' \<Longrightarrow> end_ok k (Returns v k')"
  by (simp add: calm_ok calm_current)

lemma end_ok_quiet: "kern_ok k \<Longrightarrow> quiet k k' \<Longrightarrow> end_ok k (Returns v k')"
  by (intro end_ok_calm quiet_calm)

lemma with_str_Ret: "with_str s k g = Some (Ret r) \<Longrightarrow> r = Returns (of_int ERR_FAULT) k \<or> (\<exists>str. g str = Some (Ret r))"
  by (auto simp: with_str_def sys_return_Ret split: bind_splits option.splits)

lemma end_ok_same: "kern_ok k \<Longrightarrow> end_ok k (Returns v k)"
  by simp

section \<open>Calls that leave the processes alone\<close>

lemma fs_call_ok: "kern_ok k \<Longrightarrow> fs_call op k = Some (Ret r) \<Longrightarrow> end_ok k r"
  by (auto simp: fs_call_def obind_Ret sys_return_Ret simp del: end_ok.simps intro!: end_ok_quiet)

lemma sys_path_ok:
  assumes "kern_ok k" "with_str s k (\<lambda>a. fs_call (op a) k) = Some (Ret r)"
  shows "end_ok k r"
  using with_str_Ret [OF assms(2)] fs_call_ok [OF assms(1)] end_ok_same [OF assms(1)] by auto

lemma sys_unlink_ok: "call_ok sys_unlink"
  by (rule call_okI, auto simp: sys_unlink_def split: bind_splits intro: sys_path_ok)

lemma sys_mkdir_ok: "call_ok sys_mkdir"
  by (rule call_okI, auto simp: sys_mkdir_def split: bind_splits intro: sys_path_ok)

lemma sys_rmdir_ok: "call_ok sys_rmdir"
  by (rule call_okI, auto simp: sys_rmdir_def split: bind_splits intro: sys_path_ok)

lemma sys_link_ok: "call_ok sys_link"
  by (rule call_okI) (auto simp: sys_link_def split: bind_splits dest!: with_str_Ret intro: fs_call_ok)

lemma sys_getpid_ok: "call_ok sys_getpid"
  by (rule call_okI) (auto simp: sys_getpid_def sys_return_Ret split: bind_splits)

lemma sys_sleep_ok: "call_ok sys_sleep"
  by (rule call_okI) (simp add: sys_sleep_def)

lemma sys_halt_ok: "call_ok sys_halt"
  by (rule call_okI) (auto simp: sys_halt_def)

lemma sys_meminfo_ok: "call_ok sys_meminfo"
  by (rule call_okI) (auto simp: sys_meminfo_def sys_return_Ret split: bind_splits)

lemma sys_info_ok: "call_ok sys_info"
  by (rule call_okI) (auto simp: sys_info_def sys_return_Ret simp del: end_ok.simps intro!: end_ok_quiet split: bind_splits if_splits)

lemma sys_fstat_ok: "call_ok sys_fstat"
  by (rule call_okI) (auto simp: sys_fstat_def sys_return_Ret Let_def simp del: end_ok.simps intro!: end_ok_quiet
      split: bind_splits if_splits option.splits)

lemma sys_sbrk_ok: "call_ok sys_sbrk"
  by (rule call_okI) (auto simp: sys_sbrk_def sys_return_Ret simp del: end_ok.simps intro!: end_ok_quiet quiet_kvm
      intro: memregion_extend_cur split: bind_splits if_splits)

lemma files_grow_pos: "files_grow v (set_file x (\<lambda>e. e\<lparr>f_pos := n\<rparr>) w) = files_grow v w"
proof -
  have "f_ref (files (set_file x (\<lambda>e. e\<lparr>f_pos := n\<rparr>) w) y) = f_ref (files w y)" "fpool (set_file x (\<lambda>e. e\<lparr>f_pos := n\<rparr>) w) = fpool w" for y
    by (simp_all add: set_file_def)
  then show ?thesis unfolding files_grow_def by simp
qed

lemma sys_read_ok: "call_ok sys_read"
  by (rule call_okI, auto simp: sys_read_def sys_return_Ret obind_Ret files_grow_pos simp del: end_ok.simps
      intro!: end_ok_quiet quiet_kfs split: bind_splits if_splits option.splits) ((erule fs_read_file_grow)+)

lemma sys_write_ok: "call_ok sys_write"
  by (rule call_okI, auto simp: sys_write_def sys_return_Ret obind_Ret files_grow_pos simp del: end_ok.simps
      intro!: end_ok_quiet quiet_kfs split: bind_splits if_splits option.splits) ((erule fs_write_file_grow)+)

lemma sys_readdir_ok: "call_ok sys_readdir"
  by (rule call_okI, auto simp: sys_readdir_def sys_return_Ret Let_def simp del: end_ok.simps
      intro!: end_ok_quiet quiet_kfs split: bind_splits if_splits option.splits) ((erule fs_readdir_grow)+)

lemma quiet_pcwd: "quiet k (set_proc p (\<lambda>q. q\<lparr>pcwd := i\<rparr>) k)"
  by (auto simp: quiet_def set_proc_def fun_eq_iff core_eq)

lemma sys_chdir_ok: "call_ok sys_chdir"
  by (rule call_okI) (auto simp: sys_chdir_def sys_return_Ret simp del: end_ok.simps
      intro!: end_ok_quiet quiet_trans [OF quiet_set_fsst quiet_pcwd] dest!: with_str_Ret split: bind_splits if_splits)

section \<open>Calls on processes\<close>

lemma keeps_end_ok: "kern_ok k \<Longrightarrow> base_ok k' \<and> (init_ok k \<longrightarrow> init_ok k') \<and> proc_current k' = proc_current k \<Longrightarrow> end_ok k (Returns v k')"
  by (simp add: kern_ok_def)

lemma sys_fork_ok: "call_ok sys_fork"
proof (rule call_okI)
  fix tf k r assume k: "kern_ok k" and "sys_fork tf k = Some (Ret r)"
  then obtain c k' n where "proc_fork k = Some (c, k')" "r = Returns n k'"
    by (auto simp: sys_fork_def sys_return_Ret split: bind_splits)
  then show "end_ok k r" using keeps_end_ok [OF k proc_fork_keeps] k by (simp add: kern_ok_def)
qed

lemma kmalloc_ok_quiet: "kmalloc_ok n k = (ok, k') \<Longrightarrow> quiet k k'"
  by (auto simp: kmalloc_ok_def intro: kheap_ok_quiet split: if_splits)

lemma sys_spawn_ok: "call_ok sys_spawn"
proof (rule call_okI)
  fix tf k r assume k: "kern_ok k" and s: "sys_spawn tf k = Some (Ret r)"
  consider n where "r = Returns n k"
    | n a ok1 k1 where "kmalloc_ok a k = (ok1, k1)" "r = Returns n k1"
    | n a ok1 k1 b ok2 k2 where "kmalloc_ok a k = (ok1, k1)" "kmalloc_ok b k1 = (ok2, k2)" "r = Returns n k2"
    | a ok1 k1 b ok2 k2 name er p k3 n where "kmalloc_ok a k = (ok1, k1)" "kmalloc_ok b k1 = (ok2, k2)"
        "proc_spawn name k2 = Some (Ret (er, p, k3))" "r = Returns n k3"
    using s by (auto simp: sys_spawn_def sys_return_Ret obind_Ret Let_def dest!: with_str_Ret
        split: bind_splits if_splits list.splits prod.splits)
  then show "end_ok k r"
  proof cases
    case 4
    have "kern_ok k2 \<and> proc_current k2 = proc_current k"
      using end_ok_quiet [OF k quiet_trans [OF kmalloc_ok_quiet [OF 4(1)] kmalloc_ok_quiet [OF 4(2)]]] by simp
    then show ?thesis using proc_spawn_keeps [OF _ 4(3)] 4(4) by (simp add: kern_ok_def)
  next
    case 3
    show ?thesis unfolding 3(3) by (rule end_ok_quiet [OF k quiet_trans [OF kmalloc_ok_quiet [OF 3(1)] kmalloc_ok_quiet [OF 3(2)]]])
  next
    case 2
    show ?thesis unfolding 2(2) by (rule end_ok_quiet [OF k kmalloc_ok_quiet [OF 2(1)]])
  qed (use k in simp)
qed

lemma sys_exit_ok: "call_ok sys_exit"
  by (rule call_okI) (auto simp: sys_exit_def split: bind_splits intro: proc_exit_keeps)

lemma sys_wait_ok: "call_ok sys_wait"
proof (rule call_okI)
  fix tf k r assume k: "kern_ok k" and s: "sys_wait tf k = Some (Ret r)"
  consider n where "r = Returns n k"
    | p n st m k' where "proc_current k = Some p" "proc_wait n st k = Some (Ret (m, k'))" "\<exists>v. r = Returns v k'"
        "n \<noteq> -1 \<longrightarrow> (\<forall>c. get_proc_by_pid n k = Some c \<longrightarrow> parent_pid (kproc k c) = pid (kproc k p))"
    using s by (auto simp: sys_wait_def sys_return_Ret obind_Ret split: bind_splits if_splits option.splits)
  then show "end_ok k r"
  proof cases
    case 2
    have "kern_ok k' \<and> proc_current k' = proc_current k" by (rule proc_wait_keeps [OF k 2(1,2)]) (use 2(4) in blast)
    then show ?thesis using 2(3) by auto
  qed (use k in simp)
qed

section \<open>Calls on descriptors\<close>

lemma sys_close_ok: "call_ok sys_close"
proof (rule call_okI)
  fix tf k r assume k: "kern_ok k" and s: "sys_close tf k = Some (Ret r)"
  consider n where "r = Returns n k"
    | fd p x v n where "fd_slot fd k = Some (p, Some x)" "fs_close_file x (kfs k) = Some v"
        "r = Returns n (set_proc p (\<lambda>q. q\<lparr>open_files := (open_files q)[unat fd := None]\<rparr>) (k\<lparr>kfs := v\<rparr>))"
    using s by (auto simp: sys_close_def sys_return_Ret split: bind_splits if_splits option.splits)
  then show "end_ok k r"
  proof cases
    case 2
    then show ?thesis using close_slot_ok [OF k 2(1,2)] by (simp add: proc_current_def set_proc_def)
  qed (use k in simp)
qed

lemma alloc_fd_calm_current: "alloc_fd x k = Some (fd, k') \<Longrightarrow> proc_current k' = proc_current k"
  by (auto simp: alloc_fd_def set_proc_def proc_current_def split: bind_splits option.splits)

lemma alloc_fd_fails: "alloc_fd x k = Some (fd, k') \<Longrightarrow> fd < 0 \<Longrightarrow> k' = k"
  by (auto simp: alloc_fd_def split: bind_splits option.splits)

lemma sys_dup_ok: "call_ok sys_dup"
proof (rule call_okI)
  fix tf k r assume k: "kern_ok k" and s: "sys_dup tf k = Some (Ret r)"
  consider n where "r = Returns n k"
    | fd p x m k' n where "fd_slot fd k = Some (p, Some x)" "alloc_fd x k = Some (m, k')"
        "r = Returns n (if m \<ge> 0 then k'\<lparr>kfs := fs_reopen_file x (kfs k')\<rparr> else k')"
    using s by (auto simp: sys_dup_def sys_return_Ret split: bind_splits if_splits option.splits)
  then show "end_ok k r"
  proof cases
    case 2
    have c: "proc_current k' = proc_current k" by (rule alloc_fd_calm_current [OF 2(2)])
    show ?thesis
    proof (cases "m \<ge> 0")
      case True
      then show ?thesis using dup_slot_ok [OF k 2(1,2)] 2(3) c by (simp add: proc_current_def)
    next
      case False
      then show ?thesis using alloc_fd_fails [OF 2(2)] 2(3) k by simp
    qed
  qed (use k in simp)
qed

lemma sys_open_ok: "call_ok sys_open"
proof (rule call_okI)
  fix tf k r assume k: "kern_ok k" and s: "sys_open tf k = Some (Ret r)"
  consider n where "r = Returns n k"
    | a fl md er x v n where "fs_open_file (cwd_of k) a fl md (kfs k) = Some (Ret (er, x, v))" "r = Returns n (k\<lparr>kfs := v\<rparr>)"
    | a fl md x v fd k' n where "fs_open_file (cwd_of k) a fl md (kfs k) = Some (Ret (ERR_OK, x, v))"
        "alloc_fd x (k\<lparr>kfs := v\<rparr>) = Some (fd, k')" "r = Returns n k'"
    using s by (auto simp: sys_open_def sys_return_Ret obind_Ret Let_def dest!: with_str_Ret split: bind_splits if_splits)
  then show "end_ok k r"
  proof cases
    case 2
    then show ?thesis using end_ok_quiet [OF k quiet_kfs [OF fs_open_file_grow]] by blast
  next
    case 3
    have cov: "files_cover (kfs k) (fd_refs k)" using k by (simp add: kern_ok_def base_ok_def)
    obtain w g f where w: "fs_alloc_file (kfs k) = (Some x, w)" "v = (set_file x g w)\<lparr>fs := f\<rparr>" "\<And>e. f_ref (g e) = f_ref e"
      using fs_open_file_cases [OF 3(1)] by fastforce
    have "files_grow w v" using w(2,3) by (intro files_grow_same) (simp_all add: set_file_def)
    then have "files_cover v ((fd_refs k)(x := fd_refs k x + 1))"
      using fs_alloc_file_cover [OF cov w(1)] files_cover_grow [of w "(fd_refs k)(x := 1)" v] by simp
    moreover have "files_cover v (fd_refs k)" by (rule files_cover_grow [OF cov fs_open_file_grow [OF 3(1)]])
    ultimately show ?thesis using alloc_fd_ok [OF k _ _ 3(2)] 3(3) by simp
  qed (use k in simp)
qed

lemma files_cover_less: "files_cover v r \<Longrightarrow> (\<And>x. r' x \<le> r x) \<Longrightarrow> files_cover v r'"
  unfolding files_cover_def by (metis le_zero_eq of_nat_mono order_trans)

lemma fill_slot_state:
  assumes k: "kern_ok k" and a: "alloc_fd x k = Some (fd, k')" "fd \<noteq> ERR_NOMEM"
  obtains p where "proc_current k = Some p" "0 \<le> fd" "nat fd < PROC_MAX_ARG" "open_files (kproc k' p) ! nat fd = Some x"
    "fd_refs k' = (fd_refs k)(x := fd_refs k x + 1)"
  using a(1)
proof (cases rule: alloc_fd_cases)
  case (2 p i)
  have b: "base_ok k" using k by (simp add: kern_ok_def)
  have "open_files (kproc k' p) ! i = Some x" using 2 current_live [OF b 2(1)] by (simp add: set_proc_def)
  then show ?thesis using 2 fill_slot_refs [OF b 2(1,2,4)] by (intro that [of p]) simp_all
qed (use a(2) in simp)

lemma bbq_memory_quiet: "bbq_memory k = (c, b, k') \<Longrightarrow> quiet k k'"
proof -
  assume m: "bbq_memory k = (c, b, k')"
  obtain ok k1 where 1: "(if bbq_cache (kfs k) then (True, k) else kheap_ok k) = (ok, k1)" by fastforce
  have q: "quiet k k1" using 1 by (auto intro: kheap_ok_quiet split: if_splits)
  have "quiet k1 (k1\<lparr>kfs := (kfs k1)\<lparr>bbq_cache := True\<rparr>\<rparr>)" by (intro quiet_kfs files_grow_same) simp_all
  then show ?thesis using m quiet_trans [OF q quiet_trans [OF _ kheap_ok_quiet]] q unfolding bbq_memory_def 1
    by (auto split: if_splits prod.splits)
qed

lemma pipe_files_quiet: "pipe_files rx wx k = (er, k') \<Longrightarrow> quiet k k'"
proof -
  assume p: "pipe_files rx wx k = (er, k')"
  obtain ok k1 where 1: "kheap_ok k = (ok, k1)" by fastforce
  obtain ok2 k2 where 2: "kheap_ok k1 = (ok2, k2)" by fastforce
  obtain c b k3 where 3: "bbq_memory k2 = (c, b, k3)" by (metis prod_cases3)
  have q: "quiet k k1" "quiet k k3" using kheap_ok_quiet [OF 1] quiet_trans [OF quiet_trans [OF kheap_ok_quiet [OF 1] kheap_ok_quiet [OF 2]] bbq_memory_quiet [OF 3]]
    by simp_all
  have "k' = k1 \<or> quiet k3 k'" using p 1 2 3
    by (auto simp: pipe_files_def Let_def set_file_def split: option.splits if_splits intro!: quiet_kfs files_grow_same)
  then show ?thesis using q quiet_trans [OF q(2)] by blast
qed

lemma pipe_first_fd:
  assumes k: "kern_ok k" and 1: "fs_alloc_file (kfs k) = (Some x, v1)" and 2: "fs_alloc_file v1 = (Some y, v2)"
    and a: "alloc_fd x (k\<lparr>kfs := v2\<rparr>) = Some (fd, ka)"
  shows "kern_ok ka" "proc_current ka = proc_current k"
    "fd \<noteq> ERR_NOMEM \<Longrightarrow> files_cover (kfs ka) ((fd_refs ka)(y := fd_refs ka y + 1))"
proof -
  let ?R = "fd_refs k" and ?k = "k\<lparr>kfs := v2\<rparr>"
  have cov: "files_cover (kfs k) ?R" using k by (simp add: kern_ok_def base_ok_def)
  have c1: "?R x = 0" "files_cover v1 (?R(x := 1))" using fs_alloc_file_cover [OF cov 1] by simp_all
  have c2: "(?R(x := 1)) y = 0" "files_cover v2 (?R(x := 1, y := 1))" using fs_alloc_file_cover [OF c1(2) 2] by simp_all
  have y: "y \<noteq> x" "?R y = 0" using c2(1) by (auto split: if_splits)
  have cx: "files_cover v2 (?R(x := ?R x + 1))" "files_cover v2 ?R"
    by (rule files_cover_less [OF c2(2)]; use c1(1) y in simp)+
  show ok: "kern_ok ka" "proc_current ka = proc_current k" using alloc_fd_ok [OF k cx(2,1) a] by simp_all
  assume n: "fd \<noteq> ERR_NOMEM"
  have "kern_ok ?k" by (rule kern_ok_kfs [OF k cx(2)])
  then have "fd_refs ka = (fd_refs ?k)(x := fd_refs ?k x + 1)" using fill_slot_state [OF _ a n] by blast
  moreover have "fd_refs ?k = ?R" by (simp add: fd_refs_def live_def fun_eq_iff)
  moreover have "kfs ka = v2" using alloc_fd_kfs [OF a] by simp
  ultimately show "files_cover (kfs ka) ((fd_refs ka)(y := fd_refs ka y + 1))" using c2(2) c1(1) y by simp
qed

lemma close_slot_keeps:
  assumes k: "kern_ok k" and p: "proc_current k = Some p" "i < PROC_MAX_ARG" "open_files (kproc k p) ! i = Some x"
  shows "kern_ok (set_proc p (\<lambda>q. q\<lparr>open_files := (open_files q)[i := None]\<rparr>) k)"
proof -
  let ?k = "set_proc p (\<lambda>q. q\<lparr>open_files := (open_files q)[i := None]\<rparr>) k"
  have b: "base_ok k" "init_ok k" using k by (simp_all add: kern_ok_def)
  have "files_cover (kfs k) (fd_refs ?k)"
    using b(1) by (auto simp: clear_slot_refs [OF b(1) p] base_ok_def intro: files_cover_less)
  then have "base_ok (?k\<lparr>kfs := kfs k\<rparr>)" using set_slot_base [OF b(1)] current_live [OF b(1) p(1)] by blast
  moreover have "?k\<lparr>kfs := kfs k\<rparr> = ?k" by (simp add: set_proc_def)
  moreover have "init_ok (?k\<lparr>kfs := kfs k\<rparr>)" using b(2) by (simp add: set_slot_init)
  ultimately show ?thesis by (simp add: kern_ok_def)
qed

lemma sys_pipe_ok: "call_ok sys_pipe"
proof (rule call_okI)
  fix tf k r assume k: "kern_ok k" and s: "sys_pipe tf k = Some (Ret r)"
  obtain rx v1 where 1: "fs_alloc_file (kfs k) = (rx, v1)" by fastforce
  obtain wx v2 where 2: "fs_alloc_file v1 = (wx, v2)" by fastforce
  have g: "files_grow (kfs k) v2" by (rule files_grow_trans [OF fs_alloc_file_grow [OF 1] fs_alloc_file_grow [OF 2]])
  let ?k = "k\<lparr>kfs := v2\<rparr>"
  have k2: "end_ok k (Returns n ?k)" for n by (rule end_ok_quiet [OF k quiet_kfs [OF g]])
  consider n where "r = Returns n k" | n where "r = Returns n ?k"
    | x y fd ka where "rx = Some x" "wx = Some y" "alloc_fd x ?k = Some (fd, ka)" "r = Returns (of_int ERR_NOMEM) ka"
    | x y fd ka p fd' kb where "rx = Some x" "wx = Some y" "alloc_fd x ?k = Some (fd, ka)" "fd \<noteq> ERR_NOMEM" "proc_current ka = Some p"
        "alloc_fd y ka = Some (fd', kb)" "fd' = ERR_NOMEM"
        "r = Returns (of_int ERR_NOMEM) (set_proc p (\<lambda>q. q\<lparr>open_files := (open_files q)[nat fd := None]\<rparr>) kb)"
    | x y fd ka fd' kb m er kc n where "rx = Some x" "wx = Some y" "alloc_fd x ?k = Some (fd, ka)" "fd \<noteq> ERR_NOMEM"
        "alloc_fd y ka = Some (fd', kb)" "pipe_files x y (set_vm m kb) = (er, kc)" "r = Returns n kc"
    using s 1 2 by (auto simp: sys_pipe_def sys_return_Ret Let_def split: bind_splits if_splits option.splits prod.splits)
  then show "end_ok k r"
  proof cases
    case 3
    then show ?thesis using pipe_first_fd(1,2) [OF k 1 [unfolded 3(1)] 2 [unfolded 3(2)] 3(3)] by simp
  next
    case 4
    note f = pipe_first_fd [OF k 1 [unfolded 4(1)] 2 [unfolded 4(2)] 4(3)]
    have "kern_ok ?k" using k2 by simp
    then obtain q where q: "proc_current ?k = Some q" "nat fd < PROC_MAX_ARG" "open_files (kproc ka q) ! nat fd = Some x"
      using fill_slot_state [OF _ 4(3,4)] by metis
    have "kb = ka" using alloc_fd_fails [OF 4(6)] 4(7) by simp
    moreover have "q = p" using q(1) 4(5) f(2) by (simp add: proc_current_def)
    ultimately show ?thesis using close_slot_keeps [OF f(1) 4(5) q(2)] q(3) 4(8) f(2) by (simp add: proc_current_def set_proc_def)
  next
    case 5
    note f = pipe_first_fd [OF k 1 [unfolded 5(1)] 2 [unfolded 5(2)] 5(3)]
    have "files_cover (kfs ka) (fd_refs ka)" using f(1) by (simp add: kern_ok_def base_ok_def)
    moreover have "ka\<lparr>kfs := kfs ka\<rparr> = ka" by simp
    ultimately have "kern_ok kb \<and> proc_current kb = proc_current ka" using alloc_fd_ok [OF f(1) _ f(3) [OF 5(4)]] 5(5) by simp
    moreover have "quiet kb kc" using pipe_files_quiet [OF 5(6)] by simp
    ultimately show ?thesis using end_ok_quiet [of kb kc n] 5(7) f(2) by simp
  qed (use k k2 in simp_all)
qed

section \<open>All system calls\<close>

lemmas sys_ok = sys_fork_ok sys_spawn_ok sys_wait_ok sys_exit_ok sys_getpid_ok sys_sleep_ok sys_open_ok sys_close_ok sys_read_ok
  sys_write_ok sys_link_ok sys_unlink_ok sys_mkdir_ok sys_chdir_ok sys_readdir_ok sys_rmdir_ok sys_fstat_ok sys_sbrk_ok
  sys_meminfo_ok sys_dup_ok sys_pipe_ok sys_info_ok sys_halt_ok

lemma syscalls_ok: "f \<in> set syscalls \<Longrightarrow> call_ok f"
  unfolding syscalls_def using sys_ok by auto

lemma syscall_ok: "kern_ok k \<Longrightarrow> syscall num tf k = Some (Ret r) \<Longrightarrow> end_ok k r"
proof -
  assume k: "kern_ok k" and s: "syscall num tf k = Some (Ret r)"
  then have "(syscalls ! nat (num - 1)) tf k = Some (Ret r)" "nat (num - 1) < length syscalls"
    by (auto simp: syscall_def split: if_splits)
  then show ?thesis using k syscalls_ok [OF nth_mem] by (fastforce simp: call_ok_def)
qed

end
