(* ===== verification/Sysprops.thy ===== *)
theory Sysprops
  imports Sysinv Regions Vfs
begin

text \<open>
  Properties of processes and system calls: the invariant over any sequence of system calls, page faults and thread switches, what
  \<^verbatim>\<open>fork\<close>, \<^verbatim>\<open>exit\<close>, \<^verbatim>\<open>wait\<close> and \<^verbatim>\<open>dup\<close> do, and the calls with which a program can bring the kernel down.
\<close>

section \<open>Runs of the kernel\<close>

text \<open>The steps: a system call that comes back to the program or ends the process, a page fault, and a switch to a thread of a process. Calls that
  wait or panic make no step.\<close>

inductive kstep :: "kern \<Rightarrow> kern \<Rightarrow> bool" where
  call: "syscall_trap tf k = Some (Ret (Returns v k')) \<Longrightarrow> kstep k k'"
| exit: "syscall_trap tf k = Some (Ret (Exits k')) \<Longrightarrow> kstep k k'"
| fault: "user_fault cr2 tf k = Some (b, k') \<Longrightarrow> kstep k k'"
| switch: "p \<in> live k \<Longrightarrow> pthreads (kproc k p) = [t] \<Longrightarrow> cpu_switch_thread t k = Some k' \<Longrightarrow> kstep k k'"

inductive kreach :: "kern \<Rightarrow> kern \<Rightarrow> bool" where
  here: "kreach k k"
| more: "kreach k k' \<Longrightarrow> kstep k' k'' \<Longrightarrow> kreach k k''"

lemma syscall_trap_ok:
  assumes k: "kern_ok k" and s: "syscall_trap tf k = Some (Ret r)"
  shows "end_ok k r"
proof -
  let ?k = "set_thr (curthr k) (\<lambda>s. s\<lparr>t_tf := tf\<rparr>) k"
  have q: "quiet k ?k" by (rule quiet_set_tf)
  have ok: "kern_ok ?k" "proc_current ?k = proc_current k" using end_ok_quiet [OF k q] by simp_all
  obtain r' where 1: "syscall (int_arg (rax tf)) tf ?k = Some (Ret r')" using s unfolding syscall_trap_def obind_Ret by blast
  then have 2: "r = (case r' of Returns v k \<Rightarrow> Returns v (set_thr (curthr k) (\<lambda>s. s\<lparr>t_tf := (t_tf s)\<lparr>rax := v\<rparr>\<rparr>) k) | _ \<Rightarrow> r')"
    using s by (cases r') (auto simp: syscall_trap_def obind_def)
  note r' = 1 2
  have e: "end_ok ?k r'" by (rule syscall_ok [OF ok(1) r'(1)])
  show ?thesis
  proof (cases r')
    case (Returns v k2)
    have "quiet k2 (set_thr (curthr k2) (\<lambda>s. s\<lparr>t_tf := (t_tf s)\<lparr>rax := v\<rparr>\<rparr>) k2)" by (rule quiet_set_tf)
    moreover have "kern_ok k2" using e Returns by simp
    ultimately have "end_ok k2 (Returns v (set_thr (curthr k2) (\<lambda>s. s\<lparr>t_tf := (t_tf s)\<lparr>rax := v\<rparr>\<rparr>) k2))"
      by (intro end_ok_quiet)
    then show ?thesis using e ok(2) r'(2) Returns by simp
  qed (use e r'(2) in simp_all)
qed

lemma user_fault_ok:
  assumes k: "kern_ok k" and f: "user_fault cr2 tf k = Some (b, k')"
  shows "kern_ok k'"
proof -
  obtain p r where p: "proc_current k = Some p" "x86_64_pgfault_trap_handler p cr2 (ucast (tf_err tf)) (kvm k) = Some r"
    using f by (auto simp: user_fault_def set_thr_def split: bind_splits)
  let ?k = "\<lambda>v. (set_thr (curthr k) (\<lambda>s. s\<lparr>t_tf := tf\<rparr>) k)\<lparr>user_pgfault := user_pgfault k + 1, kvm := v\<rparr>"
  have q: "quiet k (?k v)" if "cur v = cur (kvm k)" for v using that by (simp add: quiet_def set_thr_def fun_eq_iff)
  show ?thesis
  proof (cases r)
    case (Resume v)
    then have "cur v = cur (kvm k)" using p(2) handle_page_fault_cur by (auto simp: x86_64_pgfault_trap_handler_def)
    then have "kern_ok (?k v)" using calm_ok [OF quiet_calm [OF q] k] by simp
    then show ?thesis using f p Resume by (auto simp: user_fault_def set_thr_def)
  next
    case (Exit v)
    then have c: "cur v = cur (kvm k)" using p(2) handle_page_fault_cur by (auto simp: x86_64_pgfault_trap_handler_def)
    have "proc_exit (-1) (?k v) = Some k'" using f p Exit by (auto simp: user_fault_def set_thr_def split: bind_splits)
    then show ?thesis by (rule proc_exit_keeps [OF calm_ok [OF quiet_calm [OF q [OF c]] k]])
  qed
qed

lemma cpu_switch_thread_ok:
  assumes k: "kern_ok k" and p: "p \<in> live k" "pthreads (kproc k p) = [t]" and s: "cpu_switch_thread t k = Some k'"
  shows "kern_ok k' \<and> proc_current k' = Some p \<and> ptable k' = ptable k \<and> kproc k' = kproc k \<and> ppool k' = ppool k"
proof -
  have t: "t_proc (kthr k t) = Some p" using k p by (auto simp: kern_ok_def base_ok_def threads_ok_def)
  let ?k = "k\<lparr>curthr := t, kvm := (kvm k)\<lparr>cur := Some p\<rparr>\<rparr>"
  obtain v where v: "k' = set_vm v ?k" using s t by (auto simp: cpu_switch_thread_def split: bind_splits)
  have l: "live ?k = live k" "fd_refs ?k = fd_refs k" by (simp_all add: live_def fd_refs_def fun_eq_iff)
  have "kern_ok ?k" using k p l
    by (cases "init_proc k") (simp_all add: kern_ok_def base_ok_def table_ok_def threads_ok_def parent_ok_def init_ok_def proc_current_def)
  moreover have q: "quiet ?k k'" by (simp add: v)
  ultimately show ?thesis using end_ok_quiet [of ?k k'] v by (simp add: proc_current_def) (simp add: set_vm_def)
qed

lemma kreach_ok: "kreach k k' \<Longrightarrow> kern_ok k \<Longrightarrow> kern_ok k'"
proof (induction rule: kreach.induct)
  case (more k k' k'')
  then have "kern_ok k'" by simp
  from more.hyps(2) show ?case
  proof cases
    case (call tf v)
    then show ?thesis using syscall_trap_ok [OF \<open>kern_ok k'\<close> call] by simp
  next
    case (exit tf)
    then show ?thesis using syscall_trap_ok [OF \<open>kern_ok k'\<close> exit] by simp
  next
    case (fault cr2 err_code b)
    then show ?thesis using user_fault_ok [OF \<open>kern_ok k'\<close> fault] by simp
  next
    case (switch p t)
    then show ?thesis using cpu_switch_thread_ok [OF \<open>kern_ok k'\<close> switch] by simp
  qed
qed

section \<open>Exit and wait\<close>

lemma int_arg_of_int: "0 \<le> n \<Longrightarrow> n < 2 ^ 31 \<Longrightarrow> int_arg (of_int n) = n"
  unfolding int_arg_def by transfer (simp add: take_bit_int_eq_self signed_take_bit_int_eq_self)

lemma int_arg_small: "unat a < 2 ^ 31 \<Longrightarrow> int_arg a = int (unat a)"
proof -
  assume "unat a < 2 ^ 31"
  then have "uint a < 2 ^ 31" using uint_less_of_unat [of a "2 ^ 31"] by simp
  then have "int_arg (of_int (uint a)) = uint a" by (intro int_arg_of_int uint_ge_0)
  then show ?thesis by simp
qed

lemma int_arg_minus1: "int_arg (-1) = -1"
  unfolding int_arg_def by code_simp

text \<open>Waiting for an exited child by its number.\<close>

lemma sys_wait_exited:
  assumes k: "kern_ok k" and p: "proc_current k = Some p" and c: "c \<in> set (ptable k)" "parent_pid (kproc k c) = pid (kproc k p)"
    and a: "fetch_arg tf 1 = Some n" "int_arg n = pid (kproc k c)" "fetch_arg tf 2 = Some w"
    and w: "w = 0 \<and> u = vm (kvm k) \<or> w \<noteq> 0 \<and> validate_ptr w 8 k = Some True \<and> put_user_bytes w (int_bytes (proc_status (kproc k c))) (vm (kvm k)) = Some u"
  shows "proc_status (kproc k c) = STATUS_ALIVE \<Longrightarrow> sys_wait tf k = Some Blocked"
    "proc_status (kproc k c) \<noteq> STATUS_ALIVE \<Longrightarrow> \<exists>k'. sys_wait tf k = Some (Ret (Returns (of_int (pid (kproc k c))) k')) \<and> kern_ok k'
       \<and> proc_current k' = Some p \<and> ptable k' = remove1 c (ptable k) \<and> c \<in> set (ppool k') \<and> vm (kvm k') = u \<and> (\<forall>x. x \<noteq> c \<longrightarrow> kproc k' x = kproc k x)
       \<and> spaces (kvm k') = spaces (kvm k) \<and> mrs (kvm k') = mrs (kvm k) \<and> pid (kproc k' c) = pid (kproc k c)"
proof -
  have t: "table_ok k" using k by (simp add: kern_ok_def base_ok_def)
  have g: "get_proc_by_pid (pid (kproc k c)) k = Some c" by (rule get_proc_by_pid_eq [OF t c(1)])
  have nn: "pid (kproc k c) \<noteq> -1" "\<not> was_waited (kproc k c)" using t c(1) by (auto simp: table_ok_def)
  have wc: "wait_child (pid (kproc k c)) p k = Some c" using g nn by (simp add: wait_child_def)
  note e = proc_wait_eq [OF k p wc, of w]
  have s: "sys_wait tf k = obind (proc_wait (pid (kproc k c)) w k) (\<lambda>(r, k). sys_return r k)"
    using p a g nn c(2) w by (auto simp: sys_wait_def)
  show "proc_status (kproc k c) = STATUS_ALIVE \<Longrightarrow> sys_wait tf k = Some Blocked" using s e by (simp add: obind_def)
  assume d: "proc_status (kproc k c) \<noteq> STATUS_ALIVE"
  let ?k = "proc_free c (ptable_remove c (set_proc c (\<lambda>q. q\<lparr>was_waited := True\<rparr>) (set_vm u k)))"
  have "sys_wait tf k = Some (Ret (Returns (of_int (pid (kproc k c))) ?k))"
    using s e d w by (auto simp: obind_def sys_return_def)
  moreover have q: "quiet k (set_vm u k)" by simp
  have kv: "kern_ok (set_vm u k)" by (rule calm_ok [OF quiet_calm [OF q] k])
  have f: "ptable (set_vm u k) = ptable k" "kproc (set_vm u k) = kproc k" "init_proc (set_vm u k) = init_proc k"
      "proc_current (set_vm u k) = proc_current k" by (simp_all add: set_vm_def proc_current_def)
  have "init_proc (set_vm u k) \<noteq> Some c" using init_not_waited [OF k p c d] by (simp add: f)
  then have "kern_ok ?k \<and> proc_current ?k = Some p \<and> ptable ?k = remove1 c (ptable k) \<and> (\<forall>x. x \<noteq> c \<longrightarrow> kproc ?k x = kproc k x)"
    using drop_child_ok [OF kv _ _ _ refl] c(1) d p by (simp add: f)
  moreover have "c \<in> set (ppool ?k)" "vm (kvm ?k) = u" "spaces (kvm ?k) = spaces (kvm k)" "mrs (kvm ?k) = mrs (kvm k)"
      "pid (kproc ?k c) = pid (kproc k c)"
    by (simp_all add: proc_free_def ptable_remove_def set_proc_def set_vm_def)
  ultimately show "\<exists>k'. sys_wait tf k = Some (Ret (Returns (of_int (pid (kproc k c))) k')) \<and> kern_ok k'
       \<and> proc_current k' = Some p \<and> ptable k' = remove1 c (ptable k) \<and> c \<in> set (ppool k') \<and> vm (kvm k') = u \<and> (\<forall>x. x \<noteq> c \<longrightarrow> kproc k' x = kproc k x)
       \<and> spaces (kvm k') = spaces (kvm k) \<and> mrs (kvm k') = mrs (kvm k) \<and> pid (kproc k' c) = pid (kproc k c)"
    by blast
qed

text \<open>Waiting for a number that no process has.\<close>

lemma sys_wait_none:
  assumes "proc_current k = Some p" "fetch_arg tf 1 = Some n" "int_arg n \<noteq> -1" "fetch_arg tf 2 = Some w" "w = 0 \<or> validate_ptr w 8 k = Some True"
    and "get_proc_by_pid (int_arg n) k = None"
  shows "sys_wait tf k = Some (Ret (Returns (of_int ERR_CHILD) k))"
  using assms by (auto simp: sys_wait_def sys_return_def)

lemma wait_removes:
  assumes "kern_ok k" "c \<in> set (ptable k)" "ptable k' = remove1 c (ptable k)" "\<And>x. x \<noteq> c \<Longrightarrow> kproc k' x = kproc k x"
  shows "c \<notin> set (ptable k')" "get_proc_by_pid (pid (kproc k c)) k' = None"
proof -
  have t: "table_ok k" using assms(1) by (simp add: kern_ok_def base_ok_def)
  then have e: "set (ptable k') = set (ptable k) - {c}" using assms(3) by (simp add: table_ok_def)
  then show "c \<notin> set (ptable k')" by simp
  have "pid (kproc k' x) \<noteq> pid (kproc k c)" if "x \<in> set (ptable k')" for x
    using that e assms(2) assms(4) [of x] pid_eq_iff [OF t, of x c] by auto
  then show "get_proc_by_pid (pid (kproc k c)) k' = None" by (simp add: get_proc_by_pid_def find_None_iff)
qed

text \<open>The exit of a process and the switch to a thread of its parent.\<close>

lemma exit_then_switch:
  assumes k: "kern_ok k" and c: "proc_current k = Some c" "exit_steps k c m v"
    and p: "p \<in> live k" "p \<noteq> c" "pthreads (kproc k p) = [t]" "parent_pid (kproc k c) = pid (kproc k p)" "as_vpmap (spaces m p) = Some vp"
    and nz: "\<forall>x\<in>set (ptable k). parent_pid (kproc k x) = pid (kproc k c) \<longrightarrow> proc_status (kproc k x) = STATUS_ALIVE"
  shows "\<exists>k1 k2. proc_exit status k = Some k1 \<and> cpu_switch_thread t k1 = Some k2 \<and> c \<notin> live k2 \<and> kern_ok k2 \<and> proc_current k2 = Some p
    \<and> c \<in> set (ptable k2) \<and> parent_pid (kproc k2 c) = pid (kproc k2 p) \<and> proc_status (kproc k2 c) = status \<and> pid (kproc k2 c) = pid (kproc k c)
    \<and> kvm k2 = m\<lparr>cur := Some p, vm := (vm m)\<lparr>cr3 := vp\<rparr>\<rparr>"
proof -
  have t0: "table_ok k" using k by (simp add: kern_ok_def base_ok_def)
  have cl: "c \<in> live k" using current_live c(1) k by (auto simp: kern_ok_def)
  have "pid (kproc k p) \<noteq> pid (kproc k c)" using pid_eq_iff [OF t0] p(1,2) cl live_ptable by blast
  then obtain k1 where 1: "proc_exit status k = Some k1" "kern_ok k1" "live k1 = live k - {c}" "c \<in> set (ptable k1)"
      "proc_status (kproc k1 c) = status" "kvm k1 = m" "\<And>x. pid (kproc k1 x) = pid (kproc k x)"
      "pthreads (kproc k1 p) = [t]" "parent_pid (kproc k1 c) = pid (kproc k p)"
    using proc_exit_ok [OF k c nz, of status] p(2-4) by (metis (no_types))
  have pl: "p \<in> live k1" using p(1,2) 1(3) by simp
  have tp: "t_proc (kthr k1 t) = Some p" using 1(2,8) pl by (auto simp: kern_ok_def base_ok_def threads_ok_def)
  let ?k2 = "set_vm ((vm m)\<lparr>cr3 := vp\<rparr>) (k1\<lparr>curthr := t, kvm := m\<lparr>cur := Some p\<rparr>\<rparr>)"
  have 2: "cpu_switch_thread t k1 = Some ?k2" using tp p(5) 1(6) by (simp add: cpu_switch_thread_def vpmap_load_def)
  note s = cpu_switch_thread_ok [OF 1(2) pl 1(8) 2]
  have "c \<notin> live ?k2" using 1(3) s by (auto simp: live_def)
  moreover have "kvm ?k2 = m\<lparr>cur := Some p, vm := (vm m)\<lparr>cr3 := vp\<rparr>\<rparr>" by (simp add: set_vm_def)
  ultimately show ?thesis using 1(1) 2 s 1(4,5,7,9) by (intro exI [of _ k1] exI [of _ ?k2]) auto
qed

section \<open>Fork\<close>

text \<open>The threads, the running thread and the started threads are not touched before the thread of a new process is created.\<close>

definition same_thr :: "kern \<Rightarrow> kern \<Rightarrow> bool" where
  "same_thr k k' \<longleftrightarrow> kthr k' = kthr k \<and> curthr k' = curthr k \<and> started k' = started k \<and> tpool k' = tpool k"

lemma same_thr_init: "proc_init name k = Some (r, k') \<Longrightarrow> same_thr k k'"
proof -
  have h: "same_thr k (snd (kheap_ok k))" for k by (simp add: kheap_ok_def same_thr_def set_fsst_def split: prod.split)
  have d: "destroy_space p k = Some k' \<Longrightarrow> same_thr k k'" for p k k' by (auto simp: destroy_space_def same_thr_def split: bind_splits)
  assume i: "proc_init name k = Some (r, k')"
  show ?thesis
  proof (cases "ppool k")
    case Nil
    then show ?thesis using i by (auto simp: proc_init_def proc_alloc_def same_thr_def)
  next
    case (Cons p ps)
    let ?k = "(set_proc p (\<lambda>q. q\<lparr>pid := pid_allocator k\<rparr>) k)\<lparr>ppool := ps, pid_allocator := pid_allocator k + 1\<rparr>"
    obtain ok k1 where 1: "kheap_ok ?k = (ok, k1)" by fastforce
    have "same_thr k k1" using h [of ?k] 1 by (simp add: same_thr_def set_proc_def)
    moreover have "same_thr k1 k'" using i Cons 1
      by (auto simp: proc_init_def proc_alloc_def Let_def same_thr_def set_proc_def set_fsst_def proc_free_def
          split: bind_splits if_splits dest!: d)
    ultimately show ?thesis by (simp add: same_thr_def)
  qed
qed

lemma thread_create_thr:
  assumes "thread_create name p pri k = Some (Some t, k')"
  shows "t \<in> set (tpool k) \<and> curthr k' = curthr k \<and> started k' = started k \<and> (\<forall>u. u \<noteq> t \<longrightarrow> kthr k' u = kthr k u)"
  using assms by (auto simp: thread_create_def kpmem_alloc_def proc_attach_thread_def set_thr_def set_proc_def set_vm_def Let_def
      split: list.splits bind_splits if_splits option.splits)

lemma share_files_thr: "same_thr k (share_files parent child is k)"
proof (induction "is" arbitrary: k)
  case (Cons i "is")
  show ?case
  proof (cases "open_files (kproc k parent) ! i")
    case None
    then show ?thesis using Cons by simp
  next
    case (Some x)
    let ?k = "(set_proc child (\<lambda>q. q\<lparr>open_files := (open_files q)[i := Some x]\<rparr>) k)\<lparr>kfs := fs_reopen_file x (kfs k)\<rparr>"
    have "same_thr k ?k" by (simp add: same_thr_def set_proc_def)
    then show ?thesis using Some Cons [of ?k] by (simp add: same_thr_def)
  qed
qed (simp add: same_thr_def)

lemma fork_joined:
  assumes b: "base_ok k" and p: "proc_current k = Some parent"
    and 1: "proc_init (pname (kproc k parent)) k = Some (Some child, k1)" and 2: "as_copy_as parent child (kvm k1) = Some (er, v)"
    and 3: "k2 = share_files parent child [0..<PROC_MAX_ARG] (set_proc child (\<lambda>q. q\<lparr>parent_pid := pid (kproc k1 parent)\<rparr>) (k1\<lparr>kvm := v\<rparr>))"
    and 4: "thread_create name (Some child) pri k2 = Some (Some t, k3)"
    and 5: "k' = thread_start_context t (set_thr t (\<lambda>s. s\<lparr>t_tf := tf_set_return 0 (t_tf (kthr k3 (curthr k3)))\<rparr>) (k3\<lparr>ptable := ptable k3 @ [child]\<rparr>))"
  shows "pid (kproc k' child) = pid_allocator k \<and> ptable k' = ptable k @ [child] \<and> child \<notin> set (ptable k) \<and> child \<in> live k'
    \<and> parent_pid (kproc k' child) = pid (kproc k parent) \<and> started k' = started k @ [t] \<and> pthreads (kproc k' child) = [t]
    \<and> t_tf (kthr k' t) = (t_tf (kthr k (curthr k)))\<lparr>rax := 0\<rparr>
    \<and> (\<forall>fd<PROC_MAX_ARG. open_files (kproc k' child) ! fd =
         (if open_files (kproc k parent) ! fd \<noteq> None then open_files (kproc k parent) ! fd else if fd < 2 then Some fd else None))"
proof -
  note c = fork_child [OF b p 1 2]
  note s = fork_files [OF b p c(2-4), folded 3]
  have c2: "calm k k2" using calm_trans [OF c(2)] s(1) by (simp add: prep_def)
  have fr: "fresh child k2" using c(3) s(1) by (simp add: prep_def)
  have d: "child \<notin> set (ptable k2)" "distinct (tpool k2)" using fr calm_base [OF c2 b] by (auto simp: fresh_def base_ok_def threads_ok_def)
  note tc = thread_create_prep [OF d 4] and th = thread_create_thr [OF 4]
  have pt: "ptable k3 = ptable k" "ptable k2 = ptable k" using tc c2 by (auto simp: prep_def calm_def)
  have st: "same_thr k k2"
    using same_thr_init [OF 1] share_files_thr [of "set_proc child (\<lambda>q. q\<lparr>parent_pid := pid (kproc k1 parent)\<rparr>) (k1\<lparr>kvm := v\<rparr>)" parent child "[0..<PROC_MAX_ARG]"] 3
    by (simp add: same_thr_def set_proc_def)
  have "curthr k \<notin> set (tpool k)" using b p by (auto simp: base_ok_def threads_ok_def)
  then have tf: "kthr k3 (curthr k3) = kthr k (curthr k)" "started k3 = started k" using th st by (auto simp: same_thr_def)
  have kp: "kproc k' = kproc k3" "ptable k' = ptable k3 @ [child]" "started k' = started k3 @ [t]"
      "t_tf (kthr k' t) = (t_tf (kthr k (curthr k)))\<lparr>rax := 0\<rparr>"
    by (simp_all add: 5 thread_start_context_def set_thr_def tf(1) tf_set_return_def)
  have "pid (kproc k3 child) = pid_allocator k" using tc s(1) c(8) by (simp add: prep_def)
  moreover have "pthreads (kproc k3 child) = [t]" "parent_pid (kproc k3 child) = pid (kproc k parent)" using tc s(2,3) c(5,6) by simp_all
  moreover have "open_files (kproc k3 child) ! fd =
      (if open_files (kproc k parent) ! fd \<noteq> None then open_files (kproc k parent) ! fd else if fd < 2 then Some fd else None)"
    if "fd < PROC_MAX_ARG" for fd
  proof -
    have "std_fds ! fd = (if fd < 2 then Some fd else None)" using that by (cases fd; cases "fd - 1") (auto simp: nth_Cons')
    then show ?thesis using s(5) [OF that] tc by simp
  qed
  ultimately show ?thesis using kp tf(2) pt d(1) by (simp add: live_def)
qed

section \<open>Duplicating a descriptor\<close>

text \<open>Closing right after reopening gives back the files.\<close>

lemma close_reopened:
  assumes "files_cover v r" "0 < r x"
  shows "fs_close_file x (fs_reopen_file x v) = Some v"
proof -
  have "set_file x (\<lambda>e. e\<lparr>f_ref := f_ref e - 1\<rparr>) (fs_reopen_file x v) = v" by (simp add: fs_reopen_file_def set_file_def fun_upd_idem)
  moreover have "f_ref (files v x) > 0 \<or> x = STDIN \<or> x = STDOUT"
  proof (cases "2 \<le> x")
    case True
    then have "int (r x) \<le> f_ref (files v x)" using assms(1) by (simp add: files_cover_def)
    then show ?thesis using assms(2) by linarith
  qed auto
  ultimately show ?thesis by (simp add: fs_close_file_def)
qed

lemma clear_filled_slot:
  assumes "open_files (kproc k p) ! i = None"
  shows "set_proc p (\<lambda>q. q\<lparr>open_files := (open_files q)[i := None]\<rparr>)
    ((set_proc p (\<lambda>q. q\<lparr>open_files := (open_files q)[i := Some x]\<rparr>) k)\<lparr>kfs := kfs k\<rparr>) = k"
proof -
  have "(open_files (kproc k p))[i := None] = open_files (kproc k p)" using assms by (metis list_update_id)
  then show ?thesis by (simp add: set_proc_def fun_upd_idem)
qed

section \<open>Properties\<close>

text \<open>C11: every system call keeps the kernel well formed. From a state that satisfies the invariant (different processes with different numbers,
  a table of 128 descriptors each, one thread per running process, every parent running, and reference counts that cover the
  descriptors), each of the 23 system calls that comes back leaves a state that satisfies it, with the same process running; the
  state in which a process has ended satisfies it as well.\<close>

theorem syscalls_well_formed:
  assumes "kern_ok k" "syscall_trap tf k = Some (Ret r)"
  shows "case r of Returns v k' \<Rightarrow> kern_ok k' \<and> proc_current k' = proc_current k | Exits k' \<Rightarrow> kern_ok k' | Halts \<Rightarrow> True"
  using syscall_trap_ok [OF assms] by (cases r) simp_all

text \<open>C3: whatever programs do, a running process never holds a descriptor of a freed file object, every file it holds has a positive reference
  count, a recorded parent number other than 0 leads to a running process, the number 0 leads to the first process, which may have exited,
  and no process in the table is on the free list. This holds after every sequence of system calls, page faults and thread switches.\<close>

theorem kernel_run_safe:
  assumes "kern_ok k" "kreach k k'"
  shows "(\<forall>p\<in>live k'. \<forall>fd<PROC_MAX_ARG. \<forall>x. open_files (kproc k' p) ! fd = Some x \<longrightarrow>
             x \<notin> set (fpool (kfs k')) \<and> (x \<noteq> STDIN \<and> x \<noteq> STDOUT \<longrightarrow> 0 < f_ref (files (kfs k') x)))
    \<and> (\<forall>p\<in>set (ptable k').
             if parent_pid (kproc k' p) \<noteq> 0
             then \<exists>q\<in>live k'. get_proc_by_pid (parent_pid (kproc k' p)) k' = Some q \<and> proc_status (kproc k' q) = STATUS_ALIVE
             else get_proc_by_pid (parent_pid (kproc k' p)) k' = init_proc k' \<and> init_proc k' \<noteq> None)
    \<and> (\<forall>p\<in>set (ptable k'). p \<notin> set (ppool k'))"
proof -
  have b: "base_ok k'" "init_ok k'" using kreach_ok [OF assms(2,1)] by (simp_all add: kern_ok_def)
  then have t: "table_ok k'" and c: "files_cover (kfs k') (fd_refs k')" by (simp_all add: base_ok_def)
  have i: "get_proc_by_pid 0 k' = init_proc k' \<and> init_proc k' \<noteq> None" using b(2) by (rule init_okD) (use get_proc_by_pid_eq [OF t] in force)
  have "x \<notin> set (fpool (kfs k')) \<and> (x \<noteq> STDIN \<and> x \<noteq> STDOUT \<longrightarrow> 0 < f_ref (files (kfs k') x))"
    if "p \<in> live k'" "fd < PROC_MAX_ARG" "open_files (kproc k' p) ! fd = Some x" for p fd x
  proof -
    have r: "0 < fd_refs k' x" using slot_has_ref [OF that(1) _ that(3)] that(2) t live_ptable [OF that(1)] by (simp add: table_ok_def)
    then have "2 \<le> x \<Longrightarrow> 0 < f_ref (files (kfs k') x)" using c by (fastforce simp: files_cover_def)
    then show ?thesis using r c by (auto simp: files_cover_def)
  qed
  moreover have "\<exists>q\<in>live k'. get_proc_by_pid (parent_pid (kproc k' p)) k' = Some q \<and> proc_status (kproc k' q) = STATUS_ALIVE"
    if p: "p \<in> set (ptable k')" "parent_pid (kproc k' p) \<noteq> 0" for p
  proof -
    obtain q where q: "q \<in> live k'" "pid (kproc k' q) = parent_pid (kproc k' p)" using b(1) p by (auto simp: base_ok_def parent_ok_def)
    then have "get_proc_by_pid (parent_pid (kproc k' p)) k' = Some q" using get_proc_by_pid_eq [OF t live_ptable [OF q(1)]] by simp
    moreover have "proc_status (kproc k' q) = STATUS_ALIVE" using t q(1) by (simp add: table_ok_def)
    ultimately show ?thesis using q(1) by blast
  qed
  moreover have "\<forall>p\<in>set (ptable k'). p \<notin> set (ppool k')" using t by (auto simp: table_ok_def)
  ultimately show ?thesis using i by auto
qed

text \<open>C4: a process that ends hands its status to its parent. A process cannot end while an exited child is in the table: the kernel
  panics. Otherwise, when the other parts let \<^verbatim>\<open>proc_exit\<close> release the address space, the
  directory and the files, it comes to its end: the look-up of the parent succeeds and the structure stays in the table. When a thread of the
  parent runs next and calls \<^verbatim>\<open>wait\<close> with the number of the child, it gets that number, the status is stored where
  it asked for it, the child leaves the table, and a second \<^verbatim>\<open>wait\<close> reports that there is no such child. The exception is the status
  \<^verbatim>\<open>0xbeefeeb\<close>, which stands for a running process: then the parent waits, although the child is gone.\<close>

theorem exit_then_wait:
  assumes k: "kern_ok k" and c: "proc_current k = Some c" "exit_steps k c m v"
    and p: "p \<in> live k" "p \<noteq> c" "pthreads (kproc k p) = [t]" "parent_pid (kproc k c) = pid (kproc k p)" "as_vpmap (spaces m p) = Some vp"
    and a: "pid (kproc k c) < 2 ^ 31" "rdi tf = of_int (pid (kproc k c))" "rsi tf = w"
    and w: "w = 0 \<and> u = (vm m)\<lparr>cr3 := vp\<rparr>
      \<or> w \<noteq> 0 \<and> w + 8 \<ge> w \<and> as_find_memregion p w 8 m \<noteq> None \<and> put_user_bytes w (int_bytes status) ((vm m)\<lparr>cr3 := vp\<rparr>) = Some u"
  shows "if \<exists>x\<in>set (ptable k). parent_pid (kproc k x) = pid (kproc k c) \<and> proc_status (kproc k x) \<noteq> STATUS_ALIVE then proc_exit status k = None
  else \<exists>k1 k2. proc_exit status k = Some k1 \<and> cpu_switch_thread t k1 = Some k2 \<and>
    (if status = STATUS_ALIVE then c \<notin> live k2 \<and> sys_wait tf k2 = Some Blocked
     else \<exists>k3. sys_wait tf k2 = Some (Ret (Returns (of_int (pid (kproc k c))) k3)) \<and> vm (kvm k3) = u \<and> c \<notin> set (ptable k3) \<and> c \<in> set (ppool k3)
       \<and> sys_wait tf k3 = Some (Ret (Returns (of_int ERR_CHILD) k3)))"
proof (cases "\<exists>x\<in>set (ptable k). parent_pid (kproc k x) = pid (kproc k c) \<and> proc_status (kproc k x) \<noteq> STATUS_ALIVE")
  case True
  then show ?thesis using proc_exit_exited_child [OF k c(1)] by auto
next
  case z: False
  then have nz: "\<forall>x\<in>set (ptable k). parent_pid (kproc k x) = pid (kproc k c) \<longrightarrow> proc_status (kproc k x) = STATUS_ALIVE" by blast
  have t0: "table_ok k" "0 \<le> pid (kproc k c)" using k current_live [OF _ c(1)] by (auto simp: kern_ok_def base_ok_def table_ok_def dest: live_ptable)
  obtain k1 k2 where 1: "proc_exit status k = Some k1" and 2: "cpu_switch_thread t k1 = Some k2" and nl: "c \<notin> live k2"
    and pre: "kern_ok k2" "proc_current k2 = Some p" "c \<in> set (ptable k2)" "parent_pid (kproc k2 c) = pid (kproc k2 p)"
      "proc_status (kproc k2 c) = status" "pid (kproc k2 c) = pid (kproc k c)"
    and m2: "kvm k2 = m\<lparr>cur := Some p, vm := (vm m)\<lparr>cr3 := vp\<rparr>\<rparr>"
    using exit_then_switch [OF k c p nz] by blast
  have find: "as_find_memregion p w 8 x = as_find_memregion p w 8 m" if "spaces x = spaces m" "mrs x = mrs m" for x
    using that by (simp add: as_find_memregion_def memregion_find_internal_def)
  have arg: "fetch_arg tf 1 = Some (of_int (pid (kproc k c)))" "fetch_arg tf 2 = Some w" "int_arg (of_int (pid (kproc k c))) = pid (kproc k c)"
    using a t0(2) int_arg_of_int by (simp_all add: fetch_arg_def)
  have vp2: "w \<noteq> 0 \<Longrightarrow> validate_ptr w 8 x = Some True" if "proc_current x = Some p" "spaces (kvm x) = spaces m" "mrs (kvm x) = mrs m" for x
    using w that find [of "kvm x"] by (auto simp: validate_ptr_def)
  have w2: "w = 0 \<and> u = vm (kvm k2) \<or> w \<noteq> 0 \<and> validate_ptr w 8 k2 = Some True
      \<and> put_user_bytes w (int_bytes (proc_status (kproc k2 c))) (vm (kvm k2)) = Some u"
    using w vp2 [of k2] pre(2,5) by (auto simp: m2)
  note sw = sys_wait_exited [OF pre(1-4) arg(1) _ arg(2) w2, unfolded pre(6), OF arg(3)]
  show ?thesis
  proof (cases "status = STATUS_ALIVE")
    case True
    then show ?thesis unfolding if_not_P [OF z] using 1 2 nl sw(1) pre(5) by auto
  next
    case False
    then obtain k3 where 3: "sys_wait tf k2 = Some (Ret (Returns (of_int (pid (kproc k c))) k3))" "kern_ok k3" "proc_current k3 = Some p"
        "ptable k3 = remove1 c (ptable k2)" "c \<in> set (ppool k3)" "vm (kvm k3) = u" "\<And>x. x \<noteq> c \<Longrightarrow> kproc k3 x = kproc k2 x"
        "spaces (kvm k3) = spaces m" "mrs (kvm k3) = mrs m"
      using sw(2) pre(5) by (auto simp: m2)
    have gone: "c \<notin> set (ptable k3)" "get_proc_by_pid (pid (kproc k c)) k3 = None"
      using wait_removes [OF pre(1,3) 3(4,7)] pre(6) by simp_all
    have "sys_wait tf k3 = Some (Ret (Returns (of_int ERR_CHILD) k3))"
      using sys_wait_none [OF 3(3) arg(1) _ arg(2)] vp2 [OF 3(3,8,9)] gone(2) t0(2) arg(3) by auto
    then show ?thesis unfolding if_not_P [OF z] using 1 2 3(1,5,6) gone(1) False by auto
  qed
qed

text \<open>C10: \<^verbatim>\<open>fork\<close> either fails with \<^verbatim>\<open>ERR_NOMEM\<close> and leaves the process table as it was, or returns the number of a new process, the next number
  that was not used yet. The new process is the last one in the table, it has the caller as its parent, it has every
  descriptor of the caller, and its only thread, the last one handed to the scheduler, has the registers of the caller except that
  the call returns 0 there. Descriptors 0 and 1 are the console where the caller has closed them.\<close>

theorem fork_copies_caller:
  assumes k: "kern_ok k" "proc_current k = Some p" and f: "sys_fork tf k = Some (Ret (Returns v k'))"
  shows "v = of_int ERR_NOMEM \<and> ptable k' = ptable k \<or>
    (\<exists>c t. v = of_int (pid_allocator k) \<and> pid (kproc k' c) = pid_allocator k \<and> ptable k' = ptable k @ [c] \<and> c \<notin> set (ptable k) \<and> c \<in> live k'
       \<and> parent_pid (kproc k' c) = pid (kproc k p) \<and> started k' = started k @ [t] \<and> pthreads (kproc k' c) = [t]
       \<and> t_tf (kthr k' t) = (t_tf (kthr k (curthr k)))\<lparr>rax := 0\<rparr>
       \<and> (\<forall>fd<PROC_MAX_ARG. open_files (kproc k' c) ! fd =
            (if open_files (kproc k p) ! fd \<noteq> None then open_files (kproc k p) ! fd else if fd < 2 then Some fd else None)))"
proof -
  have b: "base_ok k" using k(1) by (simp add: kern_ok_def)
  have t: "table_ok k" using b by (simp add: base_ok_def)
  obtain r where r: "proc_fork k = Some (r, k')" "v = of_int (case r of None \<Rightarrow> ERR_NOMEM | Some p \<Rightarrow> pid (kproc k' p))"
    using f by (auto simp: sys_fork_def sys_return_def split: bind_splits)
  show ?thesis using r(1) k(2)
  proof (cases rule: proc_fork_cases)
    case 1
    then show ?thesis using proc_init_calm [OF t 1(1)] r(2) by (simp add: calm_def)
  next
    case (2 c k1 er m)
    then show ?thesis using fork_child(1) [OF b k(2) 2(1,2)] r(2) by (simp add: calm_def)
  next
    case (3 c k1 m u k2 k3 k4)
    show ?thesis
    proof (cases u)
      case None
      have "calm k (proc_free c k4)" using fork_discarded [OF b k(2) 3(1-4)] 3(5) None by blast
      then show ?thesis using 3(5) None r(2) by (simp add: calm_def)
    next
      case (Some t)
      note e = conjunct2 [OF 3(6) [OF Some]]
      have "r = Some c" using 3(6) [OF Some] by blast
      then show ?thesis using fork_joined [OF b k(2) 3(1-3) 3(4) [unfolded Some] e] r(2)
        by (intro disjI2 exI [of _ c] exI [of _ t]) simp
    qed
  qed
qed

text \<open>C18: duplicating a descriptor gives the lowest free one for the same file, and closing the new descriptor gives back exactly the state before; when all 128 are
  in use the call fails and changes nothing.\<close>

theorem dup_close_round_trip:
  assumes k: "kern_ok k" "proc_current k = Some p" and fd: "unat (rdi tf) < PROC_MAX_ARG" "open_files (kproc k p) ! unat (rdi tf) = Some x"
  shows "(\<exists>i k'. i < PROC_MAX_ARG \<and> open_files (kproc k p) ! i = None \<and> (\<forall>j<i. open_files (kproc k p) ! j \<noteq> None)
       \<and> sys_dup tf k = Some (Ret (Returns (of_nat i) k')) \<and> open_files (kproc k' p) ! i = Some x
       \<and> sys_close (tf\<lparr>rdi := of_nat i\<rparr>) k' = Some (Ret (Returns 0 k)))
    \<or> (\<forall>j<PROC_MAX_ARG. open_files (kproc k p) ! j \<noteq> None) \<and> sys_dup tf k = Some (Ret (Returns (of_int ERR_NOMEM) k))"
proof -
  have b: "base_ok k" using k(1) by (simp add: kern_ok_def)
  note l = current_live [OF b k(2)]
  have r: "0 < fd_refs k x" using slot_has_ref [of p k "unat (rdi tf)" x] l fd by simp
  have a: "fetch_arg tf 1 = Some (rdi tf)" "validate_fd (int_arg (rdi tf))" "fd_slot (rdi tf) k = Some (p, Some x)"
    using fd k(2) int_arg_small [of "rdi tf"] uint_less_of_unat [of "rdi tf" PROC_MAX_ARG] by (simp_all add: fetch_arg_def validate_fd_def fd_slot_def)
  have "alloc_fd x k \<noteq> None" using k(2) by (simp add: alloc_fd_def split: option.split)
  then obtain fd' k1 where al: "alloc_fd x k = Some (fd', k1)" by auto
  then show ?thesis
  proof (cases rule: alloc_fd_cases)
    case 1
    have "\<forall>j<PROC_MAX_ARG. open_files (kproc k p) ! j \<noteq> None"
      using al 1 k(2) by (auto simp: alloc_fd_def find_None_iff split: option.splits)
    then show ?thesis using a al 1 by (simp add: sys_dup_def sys_return_def)
  next
    case (2 q i)
    have q: "q = p" using 2(1) k(2) by simp
    let ?k = "k1\<lparr>kfs := fs_reopen_file x (kfs k1)\<rparr>"
    have kf: "kfs k1 = kfs k" "proc_current ?k = Some p" using 2(6) k(2) by (simp_all add: set_proc_def proc_current_def)
    have d: "sys_dup tf k = Some (Ret (Returns (of_nat i) ?k))" using a al 2(3) by (simp add: sys_dup_def sys_return_def)
    have o: "open_files (kproc ?k p) ! i = Some x" using 2(2,6) l q by (simp add: set_proc_def)
    have u: "unat (of_nat i :: u64) = i" "int_arg (of_nat i) = int i" using 2(2) int_arg_small [of "of_nat i"] by (simp_all add: unat_of_nat)
    have "fs_close_file x (kfs ?k) = Some (kfs k)" using close_reopened [where r = "fd_refs k", OF _ r] b kf(1) by (simp add: base_ok_def)
    then have "sys_close (tf\<lparr>rdi := of_nat i\<rparr>) ?k = Some (Ret (Returns 0
        (set_proc p (\<lambda>q. q\<lparr>open_files := (open_files q)[i := None]\<rparr>) (k1\<lparr>kfs := kfs k\<rparr>))))"
      using 2(2) kf(2) o u by (simp add: sys_close_def fetch_arg_def validate_fd_def fd_slot_def sys_return_def)
    moreover have "set_proc p (\<lambda>q. q\<lparr>open_files := (open_files q)[i := None]\<rparr>) (k1\<lparr>kfs := kfs k\<rparr>) = k"
      using clear_filled_slot [of k p i x] 2(4,6) q by simp
    ultimately show ?thesis using 2(2,4,5) d o q by (intro disjI1 exI [of _ i] exI [of _ ?k]) simp
  qed
qed

text \<open>C39: the first process never collects a child with \<^verbatim>\<open>wait(-1)\<close>. In every state that any sequence of system calls, page faults and switches
  leads to, it is the first of the table, has number 0 and has itself as its parent, so the search for a child picks itself, and it waits
  for its own end, however many of its children have exited. The only other outcome is the error for an invalid pointer.\<close>

theorem init_waits_for_itself:
  assumes "kern_ok k" "kreach k k'" "proc_current k' = Some i" "init_proc k' = Some i" "int_arg (rdi tf) = -1"
  shows "sys_wait tf k' = (if rsi tf = 0 \<or> validate_ptr (rsi tf) 8 k' = Some True then Some Blocked else Some (Ret (Returns (of_int ERR_FAULT) k')))"
proof -
  have k: "kern_ok k'" by (rule kreach_ok [OF assms(2,1)])
  then have b: "base_ok k'" and t: "table_ok k'" by (simp_all add: kern_ok_def base_ok_def)
  obtain ps where i: "ptable k' = i # ps" "pid (kproc k' i) = 0" "parent_pid (kproc k' i) = 0"
    using k assms(4) by (cases "ptable k'") (auto simp: kern_ok_def init_ok_def)
  have "\<not> was_waited (kproc k' i)" "proc_status (kproc k' i) = STATUS_ALIVE"
    using t current_live [OF b assms(3)] i(1) by (simp_all add: table_ok_def)
  then have "proc_wait (-1) w k' = Some Blocked" for w
    using assms(3) i by (simp add: proc_wait_def get_proc_by_pid_def)
  then show ?thesis using assms(3,5) by (auto simp: sys_wait_def fetch_arg_def obind_def validate_ptr_def sys_return_def)
qed

text \<open>C40: \<^verbatim>\<open>sbrk\<close> hands out memory that the kernel cannot store to. When the heap grows below 2 GB the call returns the old end, the region
  ends at the new one and no page is mapped, and every eight bytes of the new part pass the check of pointers. As long as the page of
  such a pointer is not present, because the program did not touch it, or is read-only, every store of the kernel to it panics, so
  that the system call \<^verbatim>\<open>info\<close> with it stops the machine.\<close>

theorem sbrk_memory_panics:
  assumes p: "proc_current k = Some p" "as_heap (spaces (kvm k) p) = Some h" "h \<in> set (as_regions (spaces (kvm k) p))"
    and m: "mrs (kvm k) h = m" "mr_start m \<le> mr_end m" "unat (mr_end m) + unat (rdi tf) < 2 ^ 31"
    and a: "unat (mr_end m) \<le> unat a" "unat a + 8 \<le> unat (mr_end m) + unat (rdi tf)"
    and e: "user_pte a (vm (kvm k)) = Some e" "e AND PTE_P = 0 \<or> e AND PTE_W = 0"
  shows "\<exists>k'. sys_sbrk tf k = Some (Ret (Returns (mr_end m) k')) \<and> mr_end (mrs (kvm k') h) = mr_end m + rdi tf \<and> vm (kvm k') = vm (kvm k)
    \<and> validate_ptr a 8 k' = Some True \<and> (\<forall>b bs. put_user_bytes a (b # bs) (vm (kvm k')) = None) \<and> sys_info (tf\<lparr>rdi := a\<rparr>) k' = None"
proof -
  let ?m = "m\<lparr>mr_end := mr_end m + rdi tf\<rparr>"
  let ?k = "k\<lparr>kvm := (kvm k)\<lparr>mrs := (mrs (kvm k))(h := ?m)\<rparr>\<rparr>"
  have s: "sys_sbrk tf k = Some (Ret (Returns (mr_end m) ?k))"
    using p(1,2) memregion_extend_grows [OF m] by (simp add: sys_sbrk_def fetch_arg_def)
  have u: "unat (a + 8) = unat a + 8" "unat (mr_end m + rdi tf) = unat (mr_end m) + unat (rdi tf)"
    using a(2) m(3) by (simp_all add: unat_word_ariths)
  have "a + 8 \<le> pg_round_up (mr_end m + rdi tf)"
    using unat_pg_round_up [of "mr_end m + rdi tf"] u a(2) m(3) by (simp add: word_le_nat_alt)
  moreover have "mr_start m \<le> a" using m(2) a(1) by (simp add: word_le_nat_alt)
  ultimately have "memregion_find_internal p a 8 (kvm ?k) \<noteq> None"
    using p(3) by (auto simp: memregion_find_internal_def find_None_iff)
  then have v: "validate_ptr a 8 ?k = Some True"
    using p(1) u(1) by (simp add: validate_ptr_def as_find_memregion_def proc_current_def word_less_nat_alt)
  have n: "put_user_bytes a (b # bs) (vm (kvm ?k)) = None" for b bs using e by (auto simp: put_user_def)
  have "long_bytes x = hd (long_bytes x) # tl (long_bytes x)" for x by (simp add: long_bytes_def enc32_def)
  then have "put_user_bytes a (long_bytes x) (vm (kvm ?k)) = None" for x using n by metis
  then have "sys_info (tf\<lparr>rdi := a\<rparr>) ?k = None" using v by (simp add: sys_info_def fetch_arg_def)
  then show ?thesis using s v n by (intro exI [of _ ?k]) simp
qed

text \<open>The check of descriptors looks at the lower 32 bits and allows 128. What it accepts outside of the table: 128, and every larger number
  whose lower half is at most 128; the calls then read behind the table.\<close>

lemma validate_fd_low: "validate_fd (int_arg a) \<longleftrightarrow> unat a mod 2 ^ 32 \<le> PROC_MAX_ARG"
proof -
  have "int_arg a = (int (unat a) + 2 ^ 31) mod 2 ^ 32 - 2 ^ 31"
    unfolding int_arg_def by transfer (simp add: signed_take_bit_eq_take_bit_shift, simp add: take_bit_eq_mod)
  moreover define r where "r = int (unat a mod 2 ^ 32)"
  moreover have "(int (unat a) + 2 ^ 31) mod 2 ^ 32 = (r + 2 ^ 31) mod 2 ^ 32" unfolding r_def of_nat_mod by (simp add: mod_add_left_eq)
  moreover have "(r + 2 ^ 31) mod 2 ^ 32 = (if r < 2 ^ 31 then r + 2 ^ 31 else r - 2 ^ 31)" "0 \<le> r"
  proof -
    have r: "0 \<le> r" "r < 2 ^ 32" by (simp_all add: r_def)
    show "0 \<le> r" by (rule r)
    show "(r + 2 ^ 31) mod 2 ^ 32 = (if r < 2 ^ 31 then r + 2 ^ 31 else r - 2 ^ 31)"
    proof (cases "r < 2 ^ 31")
      case False
      have "(r - 2 ^ 31 + 2 ^ 32) mod 2 ^ 32 = r - 2 ^ 31" using r False by (simp only: mod_add_self2) (simp add: mod_pos_pos_trivial)
      then show ?thesis using False by (simp add: add.commute)
    qed (use r in simp)
  qed
  ultimately have "validate_fd (int_arg a) \<longleftrightarrow> r \<le> 128" unfolding validate_fd_def by auto
  then show ?thesis by (simp add: r_def)
qed
lemma accepted_outside: "validate_fd (int_arg a) \<and> PROC_MAX_ARG \<le> unat a \<longleftrightarrow> a = 128 \<or> 2 ^ 32 \<le> unat a \<and> unat a mod 2 ^ 32 \<le> 128"
proof -
  have "unat a < 2 ^ 32 \<Longrightarrow> unat a mod 2 ^ 32 = unat a" "a = 128 \<longleftrightarrow> unat a = 128" by (simp_all add: word_unat_eq_iff)
  then show ?thesis unfolding validate_fd_low by (cases "unat a < 2 ^ 32") auto
qed

lemma fd_outside_table:
  assumes "rdi tf = 128 \<or> 2 ^ 32 \<le> unat (rdi tf) \<and> unat (rdi tf) mod 2 ^ 32 \<le> 128"
  shows "sys_close tf k = None \<and> sys_dup tf k = None"
  using accepted_outside [of "rdi tf"] assms by (auto simp: sys_close_def sys_dup_def fetch_arg_def fd_slot_def split: bind_splits)

section \<open>A small system\<close>

text \<open>Two processes: process 1 is the first one, with thread 1; process 2 is its child, with thread 2, and runs. Process 2 has file 2 open. Process 1 has the
  top level table 1, process 2 has none, and there are no regions. Two frames are free.\<close>

definition small_pm :: pmem where
  "small_pm = \<lparr>pages = (\<lambda>p. \<lparr>refcnt = (if p = 5 \<or> p = 7 then 0 else 1), order = 0, dirty = False\<rparr>),
     pagemap_end = 8, freeblocks = (\<lambda>i. if i = 0 then [5, 7] else []), bitmap = (\<lambda>_. False), bitmap_contig_start = 0,
     bitmap_end = 8, pagemap_initialized = True, pmem_start = 0, pmem_end = 32768\<rparr>"

definition small_vmst :: vmst where
  "small_vmst = \<lparr>vm = \<lparr>pm = small_pm, tabs = \<lambda>_ _. 0, cr3 = 1\<rparr>,
     spaces = (\<lambda>a. \<lparr>as_regions = [], as_vpmap = (if a = 2 then None else Some 1), as_heap = None\<rparr>),
     mrs = (\<lambda>_. \<lparr>mr_as = 2, mr_start = 4096, mr_end = 8192, mr_perm = MEMPERM_URW, mr_shared = False, mr_store = None, mr_ofs = 0\<rparr>),
     pool = [1], kvpmap = 1, cur = Some 2\<rparr>"

definition small_tf :: trapframe where
  "small_tf = \<lparr>rax = 0, rbx = 0, rcx = 0, rdx = 0, rbp = 0, rsi = 0, rdi = 0, r8 = 0, r9 = 0, r10 = 0, r11 = 0, r12 = 0, r13 = 0, r14 = 0,
     r15 = 0, trapnum = 64, tf_err = 0, rip = 0, tf_cs = 0, rflags = 0, rsp = 0, tf_ss = 0\<rparr>"

definition small_kern :: kern where
  "small_kern = \<lparr>kvm = small_vmst,
     kfs = root_vfs\<lparr>files := (\<lambda>_. \<lparr>f_ref = 2, oflag = 0, f_inode = None, f_pos = 0, f_ops = Null_ops, f_info = None\<rparr>), fpool := [3]\<rparr>,
     kproc = (\<lambda>p. \<lparr>pid = int p - 1, pname = [], pcwd = 5, pthreads = [p],
       open_files = Some 0 # Some 1 # (if p = 2 then Some 2 else None) # replicate 125 None,
       proc_status = STATUS_ALIVE, parent_pid = 0, was_waited = False\<rparr>),
     ppool = [3], ptable = [1, 2], pid_allocator = 2,
     kthr = (\<lambda>t. \<lparr>t_tid = int t, t_name = [], t_proc = Some t, t_priority = DEFAULT_PRI, t_kstack = 0, t_tf = small_tf\<rparr>),
     tpool = [3], tid_allocator = 2, curthr = 2, started = [], init_proc = Some 1, user_pgfault = 0\<rparr>"

lemma small_live: "live small_kern = {1, 2}"
  by (auto simp: live_def small_kern_def)

lemma small_refs: "fd_refs small_kern x = (if x < 2 then 2 else if x = 2 then 1 else 0)"
  by (auto simp: fd_refs_def small_live) (auto simp: small_kern_def count_list_0_iff)

lemma small_ok: "kern_ok small_kern"
proof -
  have "table_ok small_kern" by (auto simp: table_ok_def small_live) (auto simp: small_kern_def inj_on_def)
  moreover have "threads_ok small_kern" by (auto simp: threads_ok_def small_live proc_current_def) (auto simp: small_kern_def small_vmst_def)
  moreover have "\<forall>p\<in>set (ptable small_kern). parent_ok small_kern p" by (simp add: parent_ok_def small_kern_def)
  moreover have "files_cover (kfs small_kern) (fd_refs small_kern)"
    unfolding files_cover_def small_refs by (simp add: small_kern_def)
  moreover have "init_ok small_kern" by (simp add: init_ok_def small_kern_def)
  ultimately show ?thesis by (simp add: kern_ok_def base_ok_def)
qed

lemma small_current: "proc_current small_kern = Some 2"
  by (simp add: proc_current_def small_kern_def small_vmst_def)

definition small_pm1 :: pmem where
  "small_pm1 = small_pm\<lparr>pages := (pages small_pm)(5 := \<lparr>refcnt = 1, order = 0, dirty = False\<rparr>), freeblocks := (freeblocks small_pm)(0 := [7])\<rparr>"

lemma small_alloc: "pmem_alloc small_pm = Some (ERR_OK, 20480, small_pm1)"
  by (simp add: pmem_alloc_def pmem_nalloc_def pmem_nalloc_internal_def min_order_one [simplified] find_freeblock.simps [of 0]
      freeblocks_remove_def set_refcnt_def page_to_paddr_def small_pm_def small_pm1_def)

lemma close_files_None: "close_files (replicate n None) v = Some v"
  by (induction n) simp_all

lemma small_close:
  "\<exists>k'. syscall_trap (small_tf\<lparr>rax := 8, rdi := 2\<rparr>) small_kern = Some (Ret (Returns 0 k'))"
proof -
  have "int_arg 8 = 8" "int_arg 2 = 2" using int_arg_small [of 8] int_arg_small [of 2] by simp_all
  then show ?thesis
    by (simp add: syscall_trap_def syscall_def syscalls_def sys_close_def fetch_arg_def validate_fd_def fd_slot_def sys_return_def
        obind_def proc_current_def set_thr_def small_kern_def small_vmst_def small_tf_def fs_close_file_def set_file_def)
qed

theorem syscalls_well_formed_witness:
  "\<exists>k'. syscall_trap (small_tf\<lparr>rax := 8, rdi := 2\<rparr>) small_kern = Some (Ret (Returns 0 k')) \<and> kern_ok k' \<and> proc_current k' = Some 2"
proof -
  obtain k' where k': "syscall_trap (small_tf\<lparr>rax := 8, rdi := 2\<rparr>) small_kern = Some (Ret (Returns 0 k'))" using small_close by blast
  show ?thesis using syscalls_well_formed [OF small_ok k'] k' small_current by simp
qed

theorem kernel_run_safe_witness:
  "\<exists>k'. kreach small_kern k' \<and> (\<forall>p\<in>live k'. \<forall>fd<PROC_MAX_ARG. \<forall>x. open_files (kproc k' p) ! fd = Some x \<longrightarrow> x \<notin> set (fpool (kfs k')))"
proof -
  obtain k' where k': "syscall_trap (small_tf\<lparr>rax := 8, rdi := 2\<rparr>) small_kern = Some (Ret (Returns 0 k'))" using small_close by blast
  have r: "kreach small_kern k'" by (rule kreach.more [OF kreach.here kstep.call [OF k']])
  show ?thesis using kernel_run_safe [OF small_ok r] r by blast
qed

lemma small_exit: "\<exists>m v. exit_steps small_kern 2 m v \<and> as_vpmap (spaces m 1) = Some 1"
  by (simp add: exit_steps_def small_kern_def small_vmst_def as_destroy_def vpmap_destroy_def set_space_def vpmap_load_def
      fs_release_inode_def ilock_def iunlock_def set_ino_def root_vfs_def root_fs_def fs_close_file_def set_file_def close_files_None)

theorem exit_then_wait_witness:
  "\<exists>k1 k2 k3. proc_exit 7 small_kern = Some k1 \<and> cpu_switch_thread 1 k1 = Some k2 \<and> sys_wait (small_tf\<lparr>rdi := 1\<rparr>) k2 = Some (Ret (Returns 1 k3))
     \<and> 2 \<notin> set (ptable k3) \<and> sys_wait (small_tf\<lparr>rdi := 1\<rparr>) k3 = Some (Ret (Returns (of_int ERR_CHILD) k3))"
proof -
  obtain m v where e: "exit_steps small_kern 2 m v" "as_vpmap (spaces m 1) = Some 1" using small_exit by blast
  have p: "1 \<in> live small_kern" "1 \<noteq> (2 :: nat)" "pthreads (kproc small_kern 1) = [1]"
      "parent_pid (kproc small_kern 2) = pid (kproc small_kern 1)" "pid (kproc small_kern 2) = 1"
    by (simp_all add: small_live) (simp_all add: small_kern_def)
  have nz: "proc_status (kproc small_kern x) = STATUS_ALIVE" for x by (simp add: small_kern_def)
  show ?thesis
    using exit_then_wait [OF small_ok small_current e(1) p(1-4) e(2), of "small_tf\<lparr>rdi := 1\<rparr>" 0 _ 7] p(5) nz by (auto simp: small_tf_def)
qed

theorem dup_close_round_trip_witness:
  "\<exists>k'. sys_dup (small_tf\<lparr>rdi := 2\<rparr>) small_kern = Some (Ret (Returns 3 k')) \<and> sys_close (small_tf\<lparr>rdi := 3\<rparr>) k' = Some (Ret (Returns 0 small_kern))"
proof -
  have o: "open_files (kproc small_kern 2) = Some 0 # Some 1 # Some 2 # replicate 125 None" by (simp add: small_kern_def)
  then have n: "open_files (kproc small_kern 2) ! 3 = None" by simp
  have l: "i = 3" if "open_files (kproc small_kern 2) ! i = None" "\<forall>j<i. open_files (kproc small_kern 2) ! j \<noteq> None" for i
  proof -
    have "\<not> i < 3"
    proof
      assume "i < 3"
      then consider "i = 0" | "i = 1" | "i = 2" by linarith
      then show False using that(1) o by cases simp_all
    qed
    moreover have "\<not> 3 < i" using that(2) n by auto
    ultimately show ?thesis by simp
  qed
  have d: "\<not> (\<forall>j<PROC_MAX_ARG. open_files (kproc small_kern 2) ! j \<noteq> None)" using n by (intro notI) (drule spec [of _ 3], simp)
  have f: "unat (rdi (small_tf\<lparr>rdi := 2\<rparr>)) < PROC_MAX_ARG" "open_files (kproc small_kern 2) ! unat (rdi (small_tf\<lparr>rdi := 2\<rparr>)) = Some 2"
    using o by simp_all
  obtain i k' where i: "open_files (kproc small_kern 2) ! i = None" "\<forall>j<i. open_files (kproc small_kern 2) ! j \<noteq> None"
      "sys_dup (small_tf\<lparr>rdi := 2\<rparr>) small_kern = Some (Ret (Returns (of_nat i) k'))"
      "sys_close ((small_tf\<lparr>rdi := 2\<rparr>)\<lparr>rdi := of_nat i\<rparr>) k' = Some (Ret (Returns 0 small_kern))"
    using dup_close_round_trip [OF small_ok small_current f] d by blast
  show ?thesis using i(3,4) unfolding l [OF i(1,2)] by (intro exI [of _ k']) simp
qed

theorem init_waits_for_itself_witness:
  "\<exists>k'. kreach small_kern k' \<and> sys_wait (small_tf\<lparr>rdi := -1\<rparr>) k' = Some Blocked"
proof -
  have v: "as_vpmap (spaces (kvm small_kern) 1) = Some 1" "t_proc (kthr small_kern 1) = Some 1" "pthreads (kproc small_kern 1) = [1]" "1 \<in> live small_kern"
    by (simp_all add: small_live) (simp_all add: small_kern_def small_vmst_def)
  then obtain k' where s: "cpu_switch_thread 1 small_kern = Some k'" "init_proc k' = Some 1"
    by (auto simp: cpu_switch_thread_def vpmap_load_def set_vm_def) (auto simp: small_kern_def)
  have c: "proc_current k' = Some 1" using cpu_switch_thread_ok [OF small_ok v(4,3) s(1)] by simp
  have r: "kreach small_kern k'" by (rule kreach.more [OF kreach.here kstep.switch [OF v(4,3) s(1)]])
  show ?thesis using init_waits_for_itself [OF small_ok r c s(2), of "small_tf\<lparr>rdi := -1\<rparr>"] r int_arg_minus1 by (auto simp: small_tf_def)
qed

theorem sbrk_memory_panics_witness:
  "\<exists>k'. sys_sbrk (small_tf\<lparr>rdi := 4096\<rparr>)
       (small_kern\<lparr>kvm := small_vmst\<lparr>spaces := (\<lambda>_. \<lparr>as_regions = [0], as_vpmap = Some 1, as_heap = Some 0\<rparr>)\<rparr>\<rparr>) = Some (Ret (Returns 8192 k'))
     \<and> mr_end (mrs (kvm k') 0) = 12288 \<and> sys_info (small_tf\<lparr>rdi := 8192\<rparr>) k' = None"
proof -
  let ?k = "small_kern\<lparr>kvm := small_vmst\<lparr>spaces := (\<lambda>_. \<lparr>as_regions = [0], as_vpmap = Some 1, as_heap = Some 0\<rparr>)\<rparr>\<rparr>"
  have s: "proc_current ?k = Some 2" "as_heap (spaces (kvm ?k) 2) = Some 0" "0 \<in> set (as_regions (spaces (kvm ?k) 2))"
      "mr_start (mrs (kvm ?k) 0) = 4096" "mr_end (mrs (kvm ?k) 0) = 8192" "rdi (small_tf\<lparr>rdi := 4096\<rparr>) = 4096"
    by (simp_all add: proc_current_def small_kern_def small_vmst_def)
  have "user_pte 8192 (vm (kvm ?k)) = Some 0" by (simp add: user_pte_def find_pte_def walk_level_def small_vmst_def)
  then show ?thesis using sbrk_memory_panics [OF s(1-3) refl, where tf = "small_tf\<lparr>rdi := 4096\<rparr>" and a = 8192 and e = 0] unfolding s(4-6) by auto
qed

lemma fd_outside_table_example:
  "sys_close (small_tf\<lparr>rdi := 128\<rparr>) small_kern = None \<and> sys_dup (small_tf\<lparr>rdi := 0x100000002\<rparr>) small_kern = None"
  using fd_outside_table [of "small_tf\<lparr>rdi := 128\<rparr>" small_kern] fd_outside_table [of "small_tf\<lparr>rdi := 0x100000002\<rparr>" small_kern] by simp

lemma small_alloc1: "\<exists>m. pmem_alloc small_pm1 = Some (ERR_OK, 28672, m)"
  by (simp add: pmem_alloc_def pmem_nalloc_def pmem_nalloc_internal_def min_order_one [simplified] find_freeblock.simps [of 0]
      freeblocks_remove_def set_refcnt_def page_to_paddr_def small_pm_def small_pm1_def)

lemma small_as_init:
  "\<exists>v. as_init 3 True small_vmst = Some (ERR_OK, v) \<and> pm (vm v) = small_pm1 \<and> as_regions (spaces v 2) = []"
proof -
  have k: "[PML4X KMAP_BASE..<512] = [511]" by (simp add: ENTRY_IDX_def upt_rec)
  show ?thesis
    unfolding as_init_def vpmap_create_def vpmap_copy_kernel_mapping_def k
    by (simp add: small_vmst_def small_alloc [simplified] zero_frame_def set_space_def paddr_to_page_def)
qed

lemma small_get_inode: "\<exists>f. fs_get_inode SFS_ROOT_INUM root_fs = Some (ERR_OK, 5, f)"
  by (simp add: fs_get_inode_def cached_inode_def set_ino_def ilock_def iunlock_def root_fs_def)

lemma small_init:
  "\<exists>k1. proc_init [] small_kern = Some (Some 3, k1) \<and> pm (vm (kvm k1)) = small_pm1 \<and> as_regions (spaces (kvm k1) 2) = [] \<and> tpool k1 = [3]
     \<and> ptable k1 = [1, 2]"
proof -
  obtain v where v: "as_init 3 True small_vmst = Some (ERR_OK, v)" "pm (vm v) = small_pm1" "as_regions (spaces v 2) = []"
    using small_as_init by blast
  obtain f where f: "fs_get_inode SFS_ROOT_INUM root_fs = Some (ERR_OK, 5, f)" using small_get_inode by blast
  have h: "take_mem (bl root_fs) = (True, bl root_fs)" by (simp add: take_mem_def root_fs_def)
  show ?thesis using v f
    by (simp add: proc_init_def proc_alloc_def kheap_ok_def set_fsst_def set_proc_def small_kern_def root_vfs_def h)
qed

lemma small_fork: "\<exists>r k'. sys_fork small_tf small_kern = Some (Ret (Returns r k')) \<and> ptable k' = [1, 2, 3]"
proof -
  obtain k1 where k1: "proc_init [] small_kern = Some (Some 3, k1)" "pm (vm (kvm k1)) = small_pm1" "as_regions (spaces (kvm k1) 2) = []"
      "tpool k1 = [3]" "ptable k1 = [1, 2]"
    using small_init by blast
  obtain m where m: "pmem_alloc small_pm1 = Some (ERR_OK, 28672, m)" using small_alloc1 by blast
  define k2 where "k2 = share_files 2 3 [0..<PROC_MAX_ARG] (set_proc 3 (\<lambda>q. q\<lparr>parent_pid := pid (kproc k1 2)\<rparr>) k1)"
  have "kvm k2 = kvm k1" "tpool k2 = [3]" "ptable k2 = [1, 2]"
    using share_files_prep [of 3 "set_proc 3 (\<lambda>q. q\<lparr>parent_pid := pid (kproc k1 2)\<rparr>) k1" 2 "[0..<PROC_MAX_ARG]"] k1(4,5)
    by (simp_all add: k2_def prep_def calm_def set_proc_def)
  then have t: "\<exists>k3. thread_create (pname (kproc k2 3)) (Some 3) DEFAULT_PRI k2 = Some (Some 3, k3) \<and> ptable k3 = [1, 2]"
    using m k1(2) by (simp add: thread_create_def Let_def kpmem_alloc_def proc_attach_thread_def set_proc_def set_thr_def set_vm_def)
  have n: "pname (kproc small_kern 2) = []" by (simp add: small_kern_def)
  have c: "as_copy_as 2 3 (kvm k1) = Some (ERR_OK, kvm k1)" using k1(3) by (simp add: as_copy_as_def)
  obtain k3 where 3: "thread_create (pname (kproc k2 3)) (Some 3) DEFAULT_PRI k2 = Some (Some 3, k3)" "ptable k3 = [1, 2]" using t by blast
  show ?thesis
    using small_current k1(1) c 3
    by (simp add: sys_fork_def proc_fork_def n sys_return_def Let_def flip: k2_def) (simp add: thread_start_context_def set_thr_def)
qed

theorem fork_copies_caller_witness:
  "\<exists>k' c t. sys_fork small_tf small_kern = Some (Ret (Returns 2 k')) \<and> ptable k' = [1, 2, c] \<and> pid (kproc k' c) = 2 \<and> parent_pid (kproc k' c) = 1
     \<and> t_tf (kthr k' t) = small_tf \<and> open_files (kproc k' c) ! 2 = Some 2"
proof -
  obtain r k' where k': "sys_fork small_tf small_kern = Some (Ret (Returns r k'))" "ptable k' = [1, 2, 3]" using small_fork by blast
  have s: "ptable small_kern = [1, 2]" "pid_allocator small_kern = 2" "pid (kproc small_kern 2) = 1" "t_tf (kthr small_kern (curthr small_kern)) = small_tf"
      "open_files (kproc small_kern 2) ! 2 = Some 2" "small_tf\<lparr>rax := 0\<rparr> = small_tf"
    by (simp_all add: small_kern_def small_tf_def)
  have "\<not> (r = (of_int ERR_NOMEM :: u64) \<and> ptable k' = ptable small_kern)" using k'(2) s(1) by simp
  then obtain c t where r: "r = of_int 2" and "pid (kproc k' c) = 2" "ptable k' = [1, 2] @ [c]" "parent_pid (kproc k' c) = 1" "t_tf (kthr k' t) = small_tf"
      "\<forall>fd<PROC_MAX_ARG. open_files (kproc k' c) ! fd = (if open_files (kproc small_kern 2) ! fd \<noteq> None then open_files (kproc small_kern 2) ! fd
         else if fd < 2 then Some fd else None)"
    using fork_copies_caller [OF small_ok small_current k'(1)] unfolding s by blast
  then show ?thesis using k'(1) s(5) unfolding r by (intro exI [of _ k'] exI [of _ c] exI [of _ t]) simp
qed

end
