(* ===== verification/Spec2Isabelle.thy ===== *)
theory Spec2Isabelle
  imports Prelude Klist Radix_Tree Traps Pipes Sched Sleeplock Boot Cstring Console Pgfault Regions Slabs Ide Dirnames Vfs Sysprops
begin

text \<open>
  A verification library for the osv teaching kernel: an x86-64 kernel in C with a priority scheduler, demand paged address
  spaces with copy on write, a journaling file system on an IDE disk, pipes, and a console.

  \<^bold>\<open>Conventions.\<close> The C code is translated function by function into definitions of the same name, with explicit state.

  \<^item> A failed \<^verbatim>\<open>kassert\<close>, a \<^verbatim>\<open>panic\<close>, the dereference of a null pointer or of one read from freed memory, an access outside of an array and a thread that waits for a lock it holds itself
    are \<open>None\<close> of the option monad, so a theorem that a call equals \<open>Some\<close> of something says that it does not crash.
  \<^item> A call that has to wait for another thread is \<open>Blocked\<close> of the type \<open>outcome\<close>.
  \<^item> Code that runs with a lock held is one step; where the steps of several threads or interrupts interleave, the order is an explicit list
    of events or a step relation.
  \<^item> Error codes are the integers of \<^verbatim>\<open>include/lib/errcode.h\<close>.
  \<^item> Memory that an allocator may refuse is an argument or a field that lists the outcomes of the next allocations, or a pool of free objects.
  \<^item> Integers are words where the source can overflow, and natural numbers where a bound is part of the invariant.
  \<^item> A loop is a recursive function with a termination proof where it always ends, and a \<open>partial_function (option)\<close> where it may not; then
    the theorems say that it returns. No definition uses fuel.

  \<^bold>\<open>Data structures.\<close> \<open>Klist\<close> is the circular list of \<^verbatim>\<open>kernel/list.c\<close> on a heap of nodes; every operation is shown to refine
  the one on sequences (locale \<open>node_list\<close>), which lets the other theories use HOL lists. \<open>Radix_Tree\<close> is \<^verbatim>\<open>kernel/radix_tree.c\<close>; its
  lookup, insertion and removal are those of a map below index 2 to the 30 (locale \<open>index_map\<close>). \<open>Cstring\<close> is \<^verbatim>\<open>lib/string.c\<close> and
  \<^verbatim>\<open>lib/bits.c\<close> on a byte memory.

  \<^bold>\<open>Threads.\<close> \<open>Sched\<close> models \<^verbatim>\<open>kernel/sched.c\<close> and the thread operations of \<^verbatim>\<open>kernel/thread.c\<close>: the scheduler invariant over any sequence of events, that the
  thread of highest priority runs, and round robin among equals (locale \<open>thread_picker\<close>). \<open>Synch\<close> models the spinlocks and condition variables of
  \<^verbatim>\<open>kernel/synch.c\<close> on top of it, with priority donation and what becomes of it when a second thread donates. \<open>Sleeplock\<close> has the sleeplocks with the spinlock inside them, as
  a step relation over the accesses of all processors: the lock is taken only when it is free, no wake-up is lost, and the only panic is that of a thread
  that was given a priority on its way to sleep, which a run on two processors reaches. \<open>Traps\<close> is trap
  dispatch over the radix tree, the nesting of interrupt levels and the arguments of system calls.

  \<^bold>\<open>Memory.\<close> \<open>Pmem\<close> translates \<^verbatim>\<open>kernel/mm/pmem.c\<close>; \<open>Buddy\<close>, \<open>Frames\<close> and \<open>Boot\<close> show that the buddy allocator keeps a partition of
  the pages into aligned blocks, that frames in use are never handed out twice (locale \<open>frame_allocator\<close>), and that booting establishes the
  invariant. \<open>Kmalloc\<close> and \<open>Slabs\<close> do the same for \<^verbatim>\<open>kernel/mm/kmalloc.c\<close>. \<open>Vpmap\<close> translates \<^verbatim>\<open>arch/x86_64/kernel/mm/vpmap.c\<close>; \<open>Pagetable\<close>
  shows that the tables form a forest of different frames and that mapping changes exactly the translations it should. \<open>Vm\<close> translates
  \<^verbatim>\<open>kernel/mm/vm.c\<close> and \<^verbatim>\<open>kernel/pgfault.c\<close>; \<open>Pgfault\<close> and \<open>Regions\<close> show the demand zero and copy on write paths and what the region checks miss.

  \<^bold>\<open>Devices.\<close> \<open>Ide\<close> is the request queue of \<^verbatim>\<open>kernel/bdev.c\<close> with \<^verbatim>\<open>kernel/drivers/ide.c\<close>: requests take effect in the order of submission for
  every interleaving with interrupts. \<open>Console\<close> is \<^verbatim>\<open>kernel/console.c\<close> with the screen, the serial line and the keyboard, refined to a line editor. \<open>Pipes\<close> is
  \<^verbatim>\<open>kernel/pipe.c\<close> over \<^verbatim>\<open>kernel/bbq.c\<close> (locale \<open>byte_channel\<close>): bytes come out in the order they went in, for any number of turns around the ring, as long as
  it never holds more than 511 of them.

  \<^bold>\<open>Files.\<close> \<open>Jbd\<close> translates \<^verbatim>\<open>kernel/fs/jbd.c\<close> and the block buffers of \<^verbatim>\<open>kernel/bdev.c\<close>; \<open>Journal\<close> shows that after a crash at any point of a
  commit the journal gives all or none of the changes; what it gives is the function \<open>replay\<close>, which says what the layout on disk means, since
  \<^verbatim>\<open>jbd_recover\<close> does nothing. \<open>Sfs\<close> translates \<^verbatim>\<open>kernel/fs/sfs/sfs.c\<close> with the inode cache of
  \<^verbatim>\<open>kernel/fs/fs.c\<close>. \<open>Blockmap\<close> (bitmaps), \<open>Files\<close> (the block map of a file) and \<open>Filedata\<close> (its bytes) show that files are byte lists that do not
  interfere. \<open>Dirs\<close> and \<open>Dirnames\<close> show what searching a directory and adding a name do to its entries. \<open>Paths\<close>, \<open>Fs\<close> and \<open>Vfs\<close> are the rest
  of \<^verbatim>\<open>kernel/fs/fs.c\<close>: path names, open files, the cleanup thread.

  \<^bold>\<open>Processes and system calls.\<close> \<open>Proc\<close> translates \<^verbatim>\<open>kernel/proc.c\<close> on a kernel state that joins the address spaces of \<open>Vm\<close>, the files of \<open>Fs\<close>, the
  process table and the threads: creation, the loading of programs, fork, wait, exit, page faults and the switch to another address space. \<open>Syscall\<close> is
  \<^verbatim>\<open>kernel/syscall.c\<close>: the checks of arguments, the 23 calls, their table and the trap. \<open>Procs\<close> shows what the calls into the other parts
  leave alone and that reopening and closing keep the reference counts of files above the number of their users (locale \<open>file_refs\<close>). \<open>Ptable\<close> defines the
  invariant \<open>kern_ok\<close> of the process table, the threads and the descriptors; \<open>Procops\<close> (spawn and fork), \<open>Procend\<close> (exit and wait) and \<open>Sysinv\<close> (each
  system call) show that it is kept. \<open>Sysprops\<close> draws the conclusions for every run of system calls, faults and switches, the hand-over of an exit
  status, fork, dup and close, and the ways to bring the kernel down: an exit with an exited child that nobody waited for, a wait of the first process,
  descriptors outside of the table, and pointers into memory that was not touched yet. Process numbers are unbounded integers: the source's \<^verbatim>\<open>int\<close> lasts for 2 to the 31 processes.
  \<^bold>\<open>Bounds.\<close> The theorems on the file system ask for room in the journal: a write of a block logs at most 7 blocks (the bitmap, the
  new block, the indirect block and its bitmap and contents, the inode, the data), an added directory entry at most 8. File sizes stay below
  \<^verbatim>\<open>SFS_MAX_FILE_SIZE\<close>, above which the source panics. Radix tree indices stay below 2 to the 30, above which the source's height computation does not end.

  \<^bold>\<open>Not modelled.\<close>
  \<^item> Assembly and boot code (\<^verbatim>\<open>arch/x86_64/boot\<close>, entry and trap vectors, context switch): not C, or runs before the kernel's C environment exists.
  \<^item> \<^verbatim>\<open>mp.c\<close>, \<^verbatim>\<open>lapic.c\<close>, \<^verbatim>\<open>ioapic.c\<close>, \<^verbatim>\<open>cpu.c\<close>: discovery and programming of interrupt controllers by memory-mapped registers; their effect is
    defined by hardware tables outside of the sources.
  \<^item> The user programs under \<^verbatim>\<open>user/\<close> are tests of the kernel; \<^verbatim>\<open>test.py\<close> and the build files are scripts.
  \<^item> Memory-mapped files (\<^verbatim>\<open>filems.c\<close>, \<^verbatim>\<open>shmms.c\<close>, \<^verbatim>\<open>bdevms.c\<close>, \<^verbatim>\<open>pgcache.c\<close>): the page cache is part of the block buffers of \<open>Jbd\<close>, which are
    never evicted; regions backed by a store are not used by the kernel's callers of \<^verbatim>\<open>as_map_memregion\<close>.
  \<^item> The table of super blocks and the list of file system types: one file system is mounted.
  \<^item> Caches and timing: time-of-check races between system calls of several processes, and the translation lookaside buffer.
\<close>

end
